(* ===== verification/Prelude.thy ===== *)
theory Prelude
  imports
    Main
    "HOL-Library.AList"
    "HOL-Library.Char_ord"
    "HOL-Library.List_Lexorder"
    "HOL-Library.Multiset"
begin

section \<open>Shared vocabulary of the development\<close>

text \<open>
  What the components share: the Python values and string operations the sources use
  (decimal printing, zero padding, whitespace splitting, joining, stripping, replacing),
  insertion-ordered dictionaries as association lists, errors as a datatype with a
  short-circuiting bind, and the list lemmas the component proofs rest on.
\<close>

named_theorems dict_simps \<open>lookup equations of insertion-ordered dictionaries\<close>
named_theorems py_str \<open>equations of the Python string operations\<close>

subsection \<open>Errors\<close>

text \<open>The exceptions that the modelled code raises, itself or through a builtin.\<close>

datatype py_error =
    KeyError string
  | IndexError
  | ValueError string
  | TypeError string
  | StopIteration
  | RuntimeError string
  | AssertionError string
  | FileNotFoundError string
  | FileExistsError string
  | ZeroDivisionError
  | TimeoutError string
  | UnboundLocalError string
  | AttributeError string
  | Unsupported string

type_synonym 'a result = "py_error + 'a"

text \<open>Sequencing: the first exception ends the computation.\<close>

definition rbind :: "'a result \<Rightarrow> ('a \<Rightarrow> 'b result) \<Rightarrow> 'b result" where
  "rbind r f = (case r of Inl e \<Rightarrow> Inl e | Inr x \<Rightarrow> f x)"

lemma rbind_simps [simp]:
  "rbind (Inl e) f = Inl e"
  "rbind (Inr x) f = f x"
  by (simp_all add: rbind_def)

lemma rbind_eq_Inr: "rbind r f = Inr y \<longleftrightarrow> (\<exists>x. r = Inr x \<and> f x = Inr y)"
  by (cases r) auto

lemma rbind_eq_Inl: "rbind r f = Inl e \<longleftrightarrow> r = Inl e \<or> (\<exists>x. r = Inr x \<and> f x = Inl e)"
  by (cases r) auto

fun rfold :: "('a \<Rightarrow> 'b \<Rightarrow> 'b result) \<Rightarrow> 'a list \<Rightarrow> 'b \<Rightarrow> 'b result" where
  "rfold f [] s = Inr s"
| "rfold f (x # xs) s = rbind (f x s) (rfold f xs)"

fun rmap :: "('a \<Rightarrow> 'b result) \<Rightarrow> 'a list \<Rightarrow> 'b list result" where
  "rmap f [] = Inr []"
| "rmap f (x # xs) = rbind (f x) (\<lambda>y. rbind (rmap f xs) (\<lambda>ys. Inr (y # ys)))"

lemma rfold_append: "rfold f (xs @ ys) s = rbind (rfold f xs s) (rfold f ys)"
proof (induction xs arbitrary: s)
  case (Cons x xs)
  then show ?case by (cases "f x s") simp_all
qed simp

lemma rfold_invariant:
  assumes "rfold f xs s = Inr t" and "P s"
    and "\<And>x a b. x \<in> set xs \<Longrightarrow> P a \<Longrightarrow> f x a = Inr b \<Longrightarrow> P b"
  shows "P t"
  using assms
proof (induction xs arbitrary: s)
  case (Cons x xs)
  from Cons.prems(1) obtain s' where s': "f x s = Inr s'" "rfold f xs s' = Inr t"
    by (auto simp: rbind_eq_Inr)
  have "P s'" using Cons.prems(3) [OF _ Cons.prems(2) s'(1)] by simp
  then show ?case
    by (rule Cons.IH [OF s'(2)]) (rule Cons.prems(3), simp_all)
qed simp

lemma rmap_Inr_map: "(\<And>x. x \<in> set xs \<Longrightarrow> f x = Inr (g x)) \<Longrightarrow> rmap f xs = Inr (map g xs)"
  by (induction xs) auto

lemma rmap_Inr_length: "rmap f xs = Inr ys \<Longrightarrow> length ys = length xs"
  by (induction xs arbitrary: ys) (auto simp: rbind_eq_Inr)

text \<open>A \<open>for\<close> loop over an iterator, given by its \<open>__nxt_\<close>, that makes at most \<open>n\<close> calls: the items it
  saw and the exception that ended it, \<open>None\<close> when all calls were used.\<close>

fun take_iter :: "('s \<Rightarrow> 'x result \<times> 's) \<Rightarrow> nat \<Rightarrow> 's \<Rightarrow> 'x list \<times> py_error option" where
  "take_iter nxt 0 s = ([], None)"
| "take_iter nxt (Suc n) s =
     (case nxt s of
        (Inl e, _) \<Rightarrow> ([], Some e)
      | (Inr x, s') \<Rightarrow> (let (xs, e) = take_iter nxt n s' in (x # xs, e)))"

subsection \<open>List access\<close>

text \<open>Reading and writing a list: an index out of range raises, a negative one counts from the end.\<close>

definition py_index :: "'x list \<Rightarrow> int \<Rightarrow> nat result" where
  "py_index xs i =
     (if 0 \<le> i \<and> i < int (length xs) then Inr (nat i)
      else if i < 0 \<and> - i \<le> int (length xs) then Inr (nat (i + int (length xs)))
      else Inl IndexError)"

definition py_get :: "'x list \<Rightarrow> int \<Rightarrow> 'x result" where
  "py_get xs i = rbind (py_index xs i) (\<lambda>k. Inr (xs ! k))"

definition py_set :: "'x list \<Rightarrow> int \<Rightarrow> 'x \<Rightarrow> 'x list result" where
  "py_set xs i x = rbind (py_index xs i) (\<lambda>k. Inr (xs[k := x]))"

lemma py_get_nat [simp]: "i < length xs \<Longrightarrow> py_get xs (int i) = Inr (xs ! i)"
  by (simp add: py_get_def py_index_def)

lemma py_set_nat [simp]: "i < length xs \<Longrightarrow> py_set xs (int i) x = Inr (xs[i := x])"
  by (simp add: py_set_def py_index_def)

subsection \<open>Insertion-ordered dictionaries\<close>

text \<open>
  A Python dict keeps its keys in insertion order, and storing under a present key keeps
  the key's place: this is the library's \<open>AList.update\<close>. A dict built from a sequence of
  pairs (a comprehension, \<open>dict(zip(..))\<close>) folds the stores from the left.
\<close>

type_synonym ('k, 'v) dict = "('k \<times> 'v) list"

definition dict_update :: "('k \<times> 'v) list \<Rightarrow> ('k, 'v) dict \<Rightarrow> ('k, 'v) dict" where
  "dict_update ps d = fold (\<lambda>(k, v). AList.update k v) ps d"

abbreviation dict_of :: "('k \<times> 'v) list \<Rightarrow> ('k, 'v) dict" where
  "dict_of ps \<equiv> dict_update ps []"

definition dict_get :: "('k, 'v) dict \<Rightarrow> 'k \<Rightarrow> 'v \<Rightarrow> 'v" where
  "dict_get d k v = (case map_of d k of None \<Rightarrow> v | Some w \<Rightarrow> w)"

lemma dict_update_simps [simp]:
  "dict_update [] d = d"
  "dict_update ((k, v) # ps) d = dict_update ps (AList.update k v d)"
  by (simp_all add: dict_update_def)

lemma dict_update_append [simp]: "dict_update (ps @ qs) d = dict_update qs (dict_update ps d)"
  by (simp add: dict_update_def)

lemma map_of_update [dict_simps]: "map_of (AList.update k v d) = (map_of d)(k \<mapsto> v)"
  by (rule update_conv')

lemma dict_get_update: "dict_get (AList.update k v d) x w = (if x = k then v else dict_get d x w)"
  by (simp add: dict_get_def map_of_update)

text \<open>The last store of a key wins.\<close>

lemma map_of_dict_update [dict_simps]: "map_of (dict_update ps d) k = map_of (rev ps @ d) k"
proof (induction ps arbitrary: d)
  case (Cons p ps)
  obtain a b where "p = (a, b)" by (cases p)
  then show ?case
    by (simp add: Cons map_add_def map_of_update split: option.splits)
qed simp

lemma distinct_dict_update:
  "distinct (map fst d) \<Longrightarrow> distinct (map fst (dict_update ps d))"
proof (induction ps arbitrary: d)
  case (Cons p ps)
  then show ?case by (cases p) (simp add: distinct_update)
qed simp

lemma update_fresh: "k \<notin> set (map fst d) \<Longrightarrow> AList.update k v d = d @ [(k, v)]"
  by (induction d) auto

text \<open>Storing fresh keys appends the pairs in order.\<close>

lemma dict_update_fresh:
  "distinct (map fst ps) \<Longrightarrow> set (map fst ps) \<inter> set (map fst d) = {} \<Longrightarrow>
   dict_update ps d = d @ ps"
proof (induction ps arbitrary: d)
  case (Cons p ps)
  obtain a b where p: "p = (a, b)" by (cases p)
  with Cons.prems have "AList.update a b d = d @ [(a, b)]" by (intro update_fresh) auto
  with p Cons.prems Cons.IH [of "d @ [(a, b)]"] show ?case by auto
qed simp

lemma dict_of_distinct: "distinct (map fst ps) \<Longrightarrow> dict_of ps = ps"
  by (simp add: dict_update_fresh)

lemma keys_dict_update: "fst ` set (dict_update ps d) = fst ` set d \<union> fst ` set ps"
proof (induction ps arbitrary: d)
  case (Cons p ps)
  obtain a b where p: "p = (a, b)" by (cases p)
  have "fst ` set (AList.update a b d) = insert a (fst ` set d)"
    by (induction d) auto
  with p Cons show ?case by auto
qed simp

lemma dict_update_eq_Nil [simp]: "dict_update ps d = [] \<longleftrightarrow> ps = [] \<and> d = []"
  using keys_dict_update [of ps d] by auto

subsection \<open>Lists\<close>

lemma zip_map_self: "zip xs (map f xs) = map (\<lambda>x. (x, f x)) xs"
  by (induction xs) auto

lemma length_map2_fold:
  "(\<And>x r. length (f x r) = length r) \<Longrightarrow> length (fold f xs r) = length r"
  by (induction xs arbitrary: r) auto

lemma mem_Some: "x \<in> set xs \<Longrightarrow> None \<notin> set xs \<Longrightarrow> \<exists>y. x = Some y"
  by (metis option.exhaust)

lemma concat_map_concat: "concat (map concat xss) = concat (concat xss)"
  by (induction xss) auto

subsection \<open>Chunks of a list\<close>

text \<open>Consecutive parts of \<open>n\<close> elements, the last one possibly shorter.\<close>

function chunks :: "nat \<Rightarrow> 'a list \<Rightarrow> 'a list list" where
  "chunks n xs = (if n = 0 \<or> xs = [] then [] else take n xs # chunks n (drop n xs))"
  by pat_completeness auto
termination
  by (relation "measure (\<lambda>(n, xs). length xs)") auto

declare chunks.simps [simp del]

lemma chunks_Nil [simp]: "chunks n [] = []"
  by (subst chunks.simps) simp

lemma concat_chunks: "0 < n \<Longrightarrow> concat (chunks n xs) = xs"
proof (induction n xs rule: chunks.induct)
  case (1 n xs)
  then show ?case by (simp add: chunks.simps [of n xs])
qed

lemma chunks_bounds: "0 < n \<Longrightarrow> c \<in> set (chunks n xs) \<Longrightarrow> c \<noteq> [] \<and> length c \<le> n \<and> set c \<subseteq> set xs"
proof (induction n xs rule: chunks.induct)
  case (1 n xs)
  show ?case
  proof (cases "xs = []")
    case False
    with 1(3) "1.prems"(1) have "c = take n xs \<or> c \<in> set (chunks n (drop n xs))"
      by (simp add: chunks.simps [of n xs])
    then show ?thesis
      using 1(1) "1.prems"(1) False by (auto dest: in_set_takeD in_set_dropD)
  qed (use "1.prems" in \<open>simp add: chunks.simps [of n xs]\<close>)
qed

lemma length_chunks: "0 < n \<Longrightarrow> length (chunks n xs) = (length xs + n - 1) div n"
proof (induction n xs rule: chunks.induct)
  case (1 n xs)
  show ?case
  proof (cases "xs = []")
    case False
    with 1 have IH: "length (chunks n (drop n xs)) = (length xs - n + n - 1) div n" by simp
    show ?thesis
    proof (cases "length xs \<le> n")
      case True
      have "Suc 0 \<le> length xs" using False by (simp add: Suc_le_eq)
      then have "n \<le> length xs + n - 1" by linarith
      moreover have "length xs + n - 1 < n * Suc (Suc 0)" using True 1(2) by simp
      ultimately have "(length xs + n - 1) div n = Suc 0" by (intro div_nat_eqI) simp_all
      then show ?thesis using True False 1(2) by (simp add: chunks.simps)
    next
      case F: False
      then have "length xs + n - 1 = n + (length xs - n + n - 1)" using 1(2) by simp
      then have "(length xs + n - 1) div n = Suc ((length xs - n + n - 1) div n)"
        using 1(2) by (metis add.commute div_add_self1 Suc_eq_plus1 neq0_conv)
      then show ?thesis using IH False 1(2) by (simp add: chunks.simps [of n xs])
    qed
  qed (simp add: chunks.simps [of n xs] "1.prems")
qed

lemma chunks_step: "0 < n \<Longrightarrow> xs \<noteq> [] \<Longrightarrow> chunks n xs = take n xs # chunks n (drop n xs)"
  by (subst chunks.simps) simp

lemma chunks_short: "length xs < n \<Longrightarrow> xs \<noteq> [] \<Longrightarrow> chunks n xs = [xs]"
  by (simp add: chunks_step)

end
