(* ===== verification/Py_String.thy ===== *)
theory Py_String
  imports Prelude
begin

section \<open>Python strings\<close>

text \<open>
  The string operations of the sources, on ASCII text: decimal printing of integers,
  zero padding (\<open>zfill\<close> and the \<open>0\<close> flag of a format specification), splitting on
  whitespace, joining, stripping, case conversion and literal replacement. The printing
  functions come with the facts that the token vocabularies rest on: they are injective.
\<close>

subsection \<open>Decimal printing\<close>

definition digit_char :: "nat \<Rightarrow> char" where
  "digit_char n = ''0123456789'' ! n"

definition digit_val :: "char \<Rightarrow> nat" where
  "digit_val c = of_char c - 48"

fun str_of_nat :: "nat \<Rightarrow> string" where
  "str_of_nat n =
     (if n < 10 then [digit_char n] else str_of_nat (n div 10) @ [digit_char (n mod 10)])"

declare str_of_nat.simps [simp del]

definition str_of_int :: "int \<Rightarrow> string" where
  "str_of_int i = (if i < 0 then CHR ''-'' # str_of_nat (nat (- i)) else str_of_nat (nat i))"

text \<open>\<open>s.zfill(w)\<close> for an unsigned text, and the specification \<open>0wd\<close> for an integer.\<close>

definition zfill :: "nat \<Rightarrow> string \<Rightarrow> string" where
  "zfill w s = replicate (w - length s) (CHR ''0'') @ s"

definition fmt_int :: "nat \<Rightarrow> int \<Rightarrow> string" where
  "fmt_int w i =
     (if i < 0 then CHR ''-'' # zfill (w - 1) (str_of_nat (nat (- i)))
      else zfill w (str_of_nat (nat i)))"

definition nat_of_digits :: "string \<Rightarrow> nat" where
  "nat_of_digits s = foldl (\<lambda>a c. 10 * a + digit_val c) 0 s"

lemma less_10_cases: "(n::nat) < 10 \<Longrightarrow> n \<in> {0, 1, 2, 3, 4, 5, 6, 7, 8, 9}"
  by auto

lemma digit_val_char [simp]: "n < 10 \<Longrightarrow> digit_val (digit_char n) = n"
  by (drule less_10_cases) (auto simp: digit_val_def digit_char_def)

lemma digit_char_set: "n < 10 \<Longrightarrow> digit_char n \<in> set ''0123456789''"
  by (drule less_10_cases) (auto simp: digit_char_def)

lemma nat_of_digits_append [simp]:
  "nat_of_digits (s @ [c]) = 10 * nat_of_digits s + digit_val c"
  by (simp add: nat_of_digits_def)

lemma nat_of_str_of_nat [simp]: "nat_of_digits (str_of_nat n) = n"
proof (induction n rule: str_of_nat.induct)
  case (1 n)
  show ?case
  proof (cases "n < 10")
    case True
    then show ?thesis
      by (simp add: str_of_nat.simps [of n] nat_of_digits_def)
  next
    case False
    with 1 show ?thesis by (simp add: str_of_nat.simps [of n])
  qed
qed

lemma foldl_zeros:
  "foldl (\<lambda>a c. 10 * a + digit_val c) 0 (replicate k (CHR ''0'')) = 0"
  by (induction k) (simp_all add: digit_val_def)

lemma nat_of_zfill [simp]: "nat_of_digits (zfill w s) = nat_of_digits s"
  by (simp add: nat_of_digits_def zfill_def foldl_zeros)

lemma str_of_nat_digits: "set (str_of_nat n) \<subseteq> set ''0123456789''"
proof (induction n rule: str_of_nat.induct)
  case (1 n)
  show ?case
  proof (cases "n < 10")
    case True
    then show ?thesis using digit_char_set [of n] by (simp add: str_of_nat.simps [of n])
  next
    case False
    then have "set (str_of_nat (n div 10)) \<subseteq> set ''0123456789''" by (rule 1)
    moreover have "digit_char (n mod 10) \<in> set ''0123456789''" by (rule digit_char_set) simp
    ultimately show ?thesis using False by (simp add: str_of_nat.simps [of n])
  qed
qed

lemma str_of_nat_nonempty [simp]: "str_of_nat n \<noteq> []"
  by (subst str_of_nat.simps) simp

lemma str_of_nat_inject [simp]: "str_of_nat m = str_of_nat n \<longleftrightarrow> m = n"
  by (metis nat_of_str_of_nat)

lemma zfill_digits: "set s \<subseteq> set ''0123456789'' \<Longrightarrow> set (zfill w s) \<subseteq> set ''0123456789''"
  by (auto simp: zfill_def)

lemma minus_not_in_zfill: "CHR ''-'' \<notin> set (zfill w (str_of_nat n))"
  using zfill_digits [OF str_of_nat_digits [of n], of w] by auto

lemma fmt_int_inject [simp]: "fmt_int w i = fmt_int w j \<longleftrightarrow> i = j"
proof
  assume eq: "fmt_int w i = fmt_int w j"
  have sign: "i < 0 \<longleftrightarrow> j < 0"
  proof (rule ccontr)
    assume "\<not> (i < 0 \<longleftrightarrow> j < 0)"
    then have "CHR ''-'' \<in> set (zfill w (str_of_nat (nat i))) \<or>
               CHR ''-'' \<in> set (zfill w (str_of_nat (nat j)))"
      using eq by (auto simp: fmt_int_def split: if_splits) (metis list.set_intros(1))+
    then show False by (simp add: minus_not_in_zfill)
  qed
  show "i = j"
  proof (cases "i < 0")
    case True
    with sign eq have "nat_of_digits (zfill (w - 1) (str_of_nat (nat (- i)))) =
        nat_of_digits (zfill (w - 1) (str_of_nat (nat (- j))))"
      by (simp add: fmt_int_def)
    with True sign show ?thesis by simp
  next
    case False
    with sign eq have "nat_of_digits (zfill w (str_of_nat (nat i))) =
        nat_of_digits (zfill w (str_of_nat (nat j)))"
      by (simp add: fmt_int_def)
    with False sign show ?thesis by simp
  qed
qed simp

lemma fmt_int_0: "fmt_int 0 i = str_of_int i"
  by (simp add: fmt_int_def str_of_int_def zfill_def)

lemma str_of_int_inject [simp]: "str_of_int i = str_of_int j \<longleftrightarrow> i = j"
  using fmt_int_inject [of 0 i j] by (simp only: fmt_int_0)

lemma zfill_nonempty [simp]: "s \<noteq> [] \<Longrightarrow> zfill w s \<noteq> []"
  by (simp add: zfill_def)

lemma length_zfill: "length (zfill w s) = max w (length s)"
  by (simp add: zfill_def)

subsection \<open>Whitespace, splitting and joining\<close>

definition is_space :: "char \<Rightarrow> bool" where
  "is_space c = (c = CHR '' '' \<or> (9 \<le> (of_char c :: nat) \<and> (of_char c :: nat) \<le> 13) \<or>
     (28 \<le> (of_char c :: nat) \<and> (of_char c :: nat) \<le> 31))"

text \<open>\<open>s.split()\<close>: the maximal runs of non-space characters.\<close>

fun py_split_aux :: "string \<Rightarrow> string \<Rightarrow> string list" where
  "py_split_aux [] cur = (if cur = [] then [] else [cur])"
| "py_split_aux (c # cs) cur =
     (if is_space c then (if cur = [] then py_split_aux cs [] else cur # py_split_aux cs [])
      else py_split_aux cs (cur @ [c]))"

definition py_split :: "string \<Rightarrow> string list" where
  "py_split s = py_split_aux s []"

fun py_join :: "string \<Rightarrow> string list \<Rightarrow> string" where
  "py_join sep [] = []"
| "py_join sep [x] = x"
| "py_join sep (x # y # ys) = x @ sep @ py_join sep (y # ys)"

text \<open>A token survives splitting: it is not empty and has no whitespace.\<close>

definition is_word :: "string \<Rightarrow> bool" where
  "is_word t \<longleftrightarrow> t \<noteq> [] \<and> list_all (\<lambda>c. \<not> is_space c) t"

lemma is_space_blank [simp]: "is_space (CHR '' '')"
  by (simp add: is_space_def)

lemma py_split_aux_word:
  "list_all (\<lambda>c. \<not> is_space c) t \<Longrightarrow> py_split_aux (t @ s) cur = py_split_aux s (cur @ t)"
  by (induction t arbitrary: cur) auto

lemma py_split_join [py_str]: "list_all is_word ts \<Longrightarrow> py_split (py_join '' '' ts) = ts"
  unfolding py_split_def
proof (induction ts rule: induct_list012)
  case (2 x)
  then show ?case using py_split_aux_word [of x "[]" "[]"] by (simp add: is_word_def)
next
  case (3 x y ys)
  then show ?case
    using py_split_aux_word [of x "'' '' @ py_join '' '' (y # ys)" "[]"] by (simp add: is_word_def)
qed simp_all

lemma py_split_words: "list_all is_word (py_split s)"
proof -
  have "list_all (\<lambda>c. \<not> is_space c) cur \<Longrightarrow> list_all is_word (py_split_aux s cur)" for cur
    by (induction s cur rule: py_split_aux.induct) (auto simp: is_word_def)
  from this [of "[]"] show ?thesis by (simp add: py_split_def)
qed

subsection \<open>Case, stripping, replacement\<close>

definition upper_char :: "char \<Rightarrow> char" where
  "upper_char c = (if 97 \<le> (of_char c :: nat) \<and> (of_char c :: nat) \<le> 122
     then char_of ((of_char c :: nat) - 32) else c)"

definition lower_char :: "char \<Rightarrow> char" where
  "lower_char c = (if 65 \<le> (of_char c :: nat) \<and> (of_char c :: nat) \<le> 90
     then char_of ((of_char c :: nat) + 32) else c)"

abbreviation py_upper :: "string \<Rightarrow> string" where
  "py_upper \<equiv> map upper_char"

abbreviation py_lower :: "string \<Rightarrow> string" where
  "py_lower \<equiv> map lower_char"

definition strip_by :: "(char \<Rightarrow> bool) \<Rightarrow> string \<Rightarrow> string" where
  "strip_by p s = rev (dropWhile p (rev (dropWhile p s)))"

abbreviation py_strip :: "string \<Rightarrow> string" where
  "py_strip \<equiv> strip_by is_space"

text \<open>\<open>s.replace(old, new)\<close> for a non-empty \<open>old\<close>: leftmost, non-overlapping.\<close>

fun py_replace :: "string \<Rightarrow> string \<Rightarrow> string \<Rightarrow> string" where
  "py_replace old new [] = []"
| "py_replace old new (c # cs) =
     (if old \<noteq> [] \<and> take (length old) (c # cs) = old
      then new @ py_replace old new (drop (length old - 1) cs)
      else c # py_replace old new cs)"

lemma py_replace_char:
  "py_replace [a] [b] s = map (\<lambda>c. if c = a then b else c) s"
  by (induction s) auto

lemma py_replace_absent: "a \<notin> set s \<Longrightarrow> py_replace (a # as) new s = s"
  by (induction s) auto

lemma strip_by_id: "s = [] \<or> \<not> p (hd s) \<and> \<not> p (last s) \<Longrightarrow> strip_by p s = s"
proof -
  assume a: "s = [] \<or> \<not> p (hd s) \<and> \<not> p (last s)"
  have d: "t = [] \<or> \<not> p (hd t) \<Longrightarrow> dropWhile p t = t" for t
    by (cases t) auto
  from a show ?thesis by (auto simp: strip_by_def d hd_rev)
qed

subsection \<open>Prefixed tokens\<close>

text \<open>
  Every step of the pipeline prints a token as a prefix without underscore, an
  underscore and a label: the prefix and the label can be read back.
\<close>

definition mk_token :: "string \<Rightarrow> string \<Rightarrow> string" where
  "mk_token prefix label = prefix @ ''_'' @ label"

lemma mk_token_same_prefix [simp]: "mk_token p a = mk_token p b \<longleftrightarrow> a = b"
  by (simp add: mk_token_def)

lemma mk_token_prefix: "CHR ''_'' \<notin> set p \<Longrightarrow> takeWhile (\<lambda>c. c \<noteq> CHR ''_'') (mk_token p a) = p"
  unfolding mk_token_def by (induction p) auto

lemma mk_token_inject:
  "CHR ''_'' \<notin> set p \<Longrightarrow> CHR ''_'' \<notin> set q \<Longrightarrow>
   mk_token p a = mk_token q b \<longleftrightarrow> p = q \<and> a = b"
  by (metis mk_token_prefix mk_token_same_prefix)

end
