(* ===== verification/Tokenizer_Base.thy ===== *)
theory Tokenizer_Base
  imports Complex_Main Py_String
begin

section \<open>BaseTokenizer: the vocabulary of one step\<close>

text \<open>
  Models \<open>tfm_repo/src/tokenizer/base.py\<close>: the state every tokenizer step inherits (the
  index-to-token dict and the lazily built inverse), its \<open>vocab\<close> and \<open>vocab_size\<close>
  properties, and the vocabulary part of its serialisation. Columns of a cuDF data frame
  are lists of optional cells; what the code calls in cuDF, cuPy and cuML is gathered in
  the record \<open>cudf_lib\<close>, a parameter of every definition that uses it.
\<close>

subsection \<open>Columns and the GPU libraries\<close>

datatype column =
    StrCol "string option list"
  | IntCol "int option list"
  | FloatCol "rat option list"

type_synonym frame = "(string, column) dict"

datatype col_data = Series column | DataFrame frame

text \<open>
  \<open>lib_int32\<close> is \<open>Series.astype("int32")\<close>, \<open>lib_str\<close> is \<open>Series.astype(str)\<close>,
  \<open>lib_int64\<close> is \<open>np.asarray(values, dtype=np.int64)\<close>, \<open>lib_uniques\<close> gives the texts of
  \<open>Series.dropna().unique()\<close>, \<open>lib_kbins n strategy fitted\<close> is the \<open>transform\<close> of a cuML
  \<open>KBinsDiscretizer\<close> last fitted on \<open>fitted\<close>, \<open>lib_log\<close> is \<open>cp.log\<close>.
\<close>

record cudf_lib =
  lib_int32 :: "column \<Rightarrow> int option list"
  lib_str :: "column \<Rightarrow> string option list"
  lib_int64 :: "column \<Rightarrow> int list result"
  lib_uniques :: "column \<Rightarrow> string list"
  lib_kbins :: "nat \<Rightarrow> string \<Rightarrow> column option \<Rightarrow> column \<Rightarrow> int option list"
  lib_log :: "rat \<Rightarrow> rat"

text \<open>
  An instance of the parameter with plain host conversions, at which the hypotheses on the
  libraries are shown to be satisfiable.
\<close>

fun host_ints :: "column \<Rightarrow> int option list" where
  "host_ints (IntCol xs) = xs"
| "host_ints (FloatCol xs) = map (map_option floor) xs"
| "host_ints (StrCol xs) = map (\<lambda>_. None) xs"

fun host_strs :: "column \<Rightarrow> string option list" where
  "host_strs (IntCol xs) = map (map_option str_of_int) xs"
| "host_strs (FloatCol xs) = map (map_option (\<lambda>r. str_of_int \<lfloor>r\<rfloor>)) xs"
| "host_strs (StrCol xs) = xs"

definition host_lib :: cudf_lib where
  "host_lib = \<lparr>lib_int32 = host_ints, lib_str = host_strs,
     lib_int64 = (\<lambda>c. if None \<in> set (host_ints c) then Inl (ValueError ''nulls'') else Inr (map the (host_ints c))),
     lib_uniques = (\<lambda>c. remdups (map the (filter (\<lambda>x. x \<noteq> None) (host_strs c)))),
     lib_kbins = (\<lambda>n strategy fitted c. map (map_option (\<lambda>i. i mod int n)) (host_ints c)),
     lib_log = (\<lambda>r. r - 1)\<rparr>"

text \<open>\<open>Series.map(d)\<close>: a missing key and a null cell both give null.\<close>

definition series_map :: "('k, 'v) dict \<Rightarrow> 'k option list \<Rightarrow> 'v option list" where
  "series_map d xs = map (\<lambda>x. Option.bind x (map_of d)) xs"

fun col_len :: "column \<Rightarrow> nat" where
  "col_len (StrCol xs) = length xs"
| "col_len (IntCol xs) = length xs"
| "col_len (FloatCol xs) = length xs"

subsection \<open>State\<close>

text \<open>\<open>_idx_to_token\<close> is a flat dict, or a dict of dicts for a step with several columns.\<close>

datatype idx_map =
    Flat "(int, string) dict"
  | Nested "(string, (int, string) dict) dict"

datatype vocab_map =
    FlatVocab "(string, int) dict"
  | NestedVocab "(string, (string, int) dict) dict"

record base_tokenizer =
  vocab_cache :: "vocab_map option"
  idx_to_token :: "idx_map option"

definition base_init :: base_tokenizer where
  "base_init = \<lparr>vocab_cache = None, idx_to_token = None\<rparr>"

subsection \<open>The vocab and vocab\_size properties\<close>

definition invert_dict :: "(int, string) dict \<Rightarrow> (string, int) dict" where
  "invert_dict d = dict_of (map (\<lambda>(k, v). (v, k)) d)"

text \<open>
  \<open>next(iter(values))\<close> has no default here: an empty dict raises \<open>StopIteration\<close>. Empty
  flat and nested dicts are the same Python value.
\<close>

fun invert_idx :: "idx_map \<Rightarrow> vocab_map result" where
  "invert_idx (Flat []) = Inl StopIteration"
| "invert_idx (Nested []) = Inl StopIteration"
| "invert_idx (Flat d) = Inr (FlatVocab (invert_dict d))"
| "invert_idx (Nested d) = Inr (NestedVocab (dict_of (map (\<lambda>(k, i). (k, invert_dict i)) d)))"

definition vocab :: "'a base_tokenizer_scheme \<Rightarrow> (vocab_map \<times> 'a base_tokenizer_scheme) result" where
  "vocab t =
     (case vocab_cache t of
        Some v \<Rightarrow> Inr (v, t)
      | None \<Rightarrow>
         (case idx_to_token t of
            None \<Rightarrow> Inr (FlatVocab [], t)
          | Some m \<Rightarrow> rbind (invert_idx m) (\<lambda>v. Inr (v, t\<lparr>vocab_cache := Some v\<rparr>))))"

definition set_vocab :: "vocab_map option \<Rightarrow> 'a base_tokenizer_scheme \<Rightarrow> 'a base_tokenizer_scheme" where
  "set_vocab v t = t\<lparr>vocab_cache := v\<rparr>"

fun idx_size :: "idx_map \<Rightarrow> nat" where
  "idx_size (Nested d) = sum_list (map (\<lambda>(k, i). length i) d)"
| "idx_size (Flat d) = length d"

definition vocab_size :: "'a base_tokenizer_scheme \<Rightarrow> nat" where
  "vocab_size t = (case idx_to_token t of None \<Rightarrow> 0 | Some m \<Rightarrow> idx_size m)"

text \<open>Serialised vocabulary: numpy integer keys become Python integers, the value is the same.\<close>

definition get_vocab_state :: "'a base_tokenizer_scheme \<Rightarrow> idx_map option" where
  "get_vocab_state t = idx_to_token t"

definition set_vocab_state :: "idx_map option \<Rightarrow> 'a base_tokenizer_scheme \<Rightarrow> 'a base_tokenizer_scheme" where
  "set_vocab_state m t = t\<lparr>idx_to_token := m\<rparr>"

subsection \<open>The inverse of an index dict\<close>

lemma map_of_swap:
  assumes "distinct (map snd d)" and "distinct (map fst d)"
  shows "map_of (map (\<lambda>(k, v). (v, k)) d) t = Some i \<longleftrightarrow> map_of d i = Some t"
  using assms
proof (induction d)
  case (Cons p d)
  obtain k v where p: "p = (k, v)" by (cases p)
  have "map_of d i = Some t \<Longrightarrow> t \<in> set (map snd d)"
    by (force dest: map_of_SomeD)
  moreover have "map_of d i = Some t \<Longrightarrow> i \<in> set (map fst d)"
    by (force dest: map_of_SomeD)
  ultimately show ?case using Cons p by auto
qed simp

lemma invert_dict_distinct:
  "distinct (map snd d) \<Longrightarrow> invert_dict d = map (\<lambda>(k, v). (v, k)) d"
  unfolding invert_dict_def
  by (rule dict_of_distinct) (simp add: comp_def case_prod_unfold)

text \<open>With distinct tokens the inverse dict is the inverse function and has as many keys.\<close>

lemma invert_dict_inverse:
  assumes "distinct (map snd d)" and "distinct (map fst d)"
  shows "map_of (invert_dict d) t = Some i \<longleftrightarrow> map_of d i = Some t"
  using assms by (simp add: invert_dict_distinct map_of_swap)

lemma length_invert_dict: "distinct (map snd d) \<Longrightarrow> length (invert_dict d) = length d"
  by (simp add: invert_dict_distinct)

lemma invert_idx_Flat: "d \<noteq> [] \<Longrightarrow> invert_idx (Flat d) = Inr (FlatVocab (invert_dict d))"
  by (cases d) auto

lemma length_series_map [simp]: "length (series_map d xs) = length xs"
  by (simp add: series_map_def)

lemma series_map_total:
  assumes "\<And>x. x \<in> set xs \<Longrightarrow> \<exists>i. x = Some i \<and> i \<in> fst ` set d"
  shows "None \<notin> set (series_map d xs)"
proof
  assume "None \<in> set (series_map d xs)"
  then obtain x where x: "x \<in> set xs" "Option.bind x (map_of d) = None"
    by (auto simp: series_map_def)
  with assms obtain i where i: "x = Some i" "i \<in> fst ` set d" by blast
  with x(2) have "map_of d i = None" by simp
  with i(2) show False by (simp add: map_of_eq_None_iff)
qed

lemma series_map_range: "Some w \<in> set (series_map d xs) \<Longrightarrow> w \<in> snd ` set d"
proof -
  assume "Some w \<in> set (series_map d xs)"
  then obtain x i where "x = Some i" "map_of d i = Some w"
    by (auto simp: series_map_def bind_eq_Some_conv eq_commute [of "Some w"])
  then show ?thesis by (force dest: map_of_SomeD)
qed

end
