(* ===== verification/Step_Contracts.thy ===== *)
theory Step_Contracts
  imports Tokenizer_Steps
begin

section \<open>Mapping, numerical and time-delta steps against the interface\<close>

text \<open>
  The remaining interpretations of \<open>token_step\<close>, with the facts about labels and bins
  they need: range lookup as a fold over vectorised masks equals the last matching range
  of each value, labels are sorted and unique, time-delta bins are in range.
\<close>

subsection \<open>Labels\<close>

lemma set_py_unique [simp]: "set (py_unique xs) = set xs"
  by (simp add: py_unique_def)

lemma distinct_py_unique [simp]: "distinct (py_unique xs)"
  by (simp add: py_unique_def)

lemma py_unique_distinct: "distinct xs \<Longrightarrow> py_unique xs = xs"
  by (simp add: py_unique_def distinct_remdups_id)

lemma py_unique_snoc:
  "py_unique (xs @ [x]) = (if x \<in> set xs then py_unique xs else py_unique xs @ [x])"
proof -
  have "remdups (x # rev xs) = (if x \<in> set xs then remdups (rev xs) else x # remdups (rev xs))"
    by simp
  then show ?thesis unfolding py_unique_def by (simp del: remdups.simps)
qed

lemma enum_tokens_keys: "map fst (enum_tokens p ls) = map int [0..<length ls]"
  by (simp add: enum_tokens_def)

lemma enum_tokens_vals: "map snd (enum_tokens p ls) = map (mk_token p) ls"
  by (simp add: enum_tokens_def)

lemma enum_tokens_facts:
  "distinct (map fst (enum_tokens p ls))"
  "distinct (map snd (enum_tokens p ls)) \<longleftrightarrow> distinct ls"
  "enum_tokens p ls = [] \<longleftrightarrow> ls = []"
  "length (enum_tokens p ls) = length ls"
  "snd ` set (enum_tokens p ls) = mk_token p ` set ls"
proof -
  show "distinct (map fst (enum_tokens p ls))"
    by (simp add: enum_tokens_keys distinct_map inj_on_def)
  show "distinct (map snd (enum_tokens p ls)) \<longleftrightarrow> distinct ls"
    by (simp add: enum_tokens_vals distinct_map inj_on_def)
  show "snd ` set (enum_tokens p ls) = mk_token p ` set ls"
    using arg_cong [OF enum_tokens_vals [of p ls], of set] by simp
qed (simp_all add: enum_tokens_def)

lemma map_Some_comp: "map (\<lambda>l. Some (f l)) xs = map Some (map f xs)"
  by simp

subsection \<open>Range lookup\<close>

text \<open>The label of one value: the last range that contains it.\<close>

definition range_label :: "(int \<times> int \<times> string) list \<Rightarrow> string \<Rightarrow> int \<Rightarrow> string" where
  "range_label ranges dflt v =
     (case filter (\<lambda>(lo, hi, l). lo \<le> v \<and> v \<le> hi) (rev ranges) of
        [] \<Rightarrow> dflt | (lo, hi, l) # _ \<Rightarrow> l)"

lemma range_label_fold:
  "fold (\<lambda>(lo, hi, l) r. if lo \<le> v \<and> v \<le> hi then f l else r) ranges (f d) =
   f (range_label ranges d v)"
proof (induction ranges rule: rev_induct)
  case (snoc x xs)
  then show ?case by (cases x) (simp add: range_label_def)
qed (simp add: range_label_def)

lemma masked_fold_pointwise:
  "length res = length vals \<Longrightarrow>
   fold (\<lambda>(lo, hi, l) res. map2 (\<lambda>v r. if lo \<le> v \<and> v \<le> hi then f l else r) vals res) ranges res
   = map2 (\<lambda>v r. fold (\<lambda>(lo, hi, l) r. if lo \<le> v \<and> v \<le> hi then f l else r) ranges r) vals res"
proof (induction ranges arbitrary: res)
  case Nil
  have "length res = length vals \<Longrightarrow> map2 (\<lambda>v r. r) vals res = res"
    by (rule nth_equalityI) auto
  with Nil show ?case by simp
next
  case (Cons x ranges)
  obtain lo hi l where x: "x = (lo, hi, l)" by (cases x)
  let ?g = "\<lambda>v r. if lo \<le> v \<and> v \<le> hi then f l else r"
  have len: "length (map2 ?g vals res) = length vals" using Cons.prems by simp
  have comp: "map2 h vals (map2 ?g vals res) = map2 (\<lambda>v r. h v (?g v r)) vals res" for h
    using Cons.prems by (intro nth_equalityI) auto
  show ?case by (simp only: x fold_simps prod.case Cons.IH [OF len] comp)
qed

lemma tokenize_range_eq:
  "lib_int64 lib c = Inr vals \<Longrightarrow>
   tokenize_range lib t c =
     Inr (map (\<lambda>v. Some (mk_token (mt_prefix t) (range_label (the (mt_range_lookup t)) (mt_default t) v))) vals)"
proof -
  assume v: "lib_int64 lib c = Inr vals"
  have rep: "map2 h vals (replicate (length vals) x) = map (\<lambda>v. h v x) vals"
    for h :: "int \<Rightarrow> string \<Rightarrow> string" and x
    by (rule nth_equalityI) auto
  let ?f = "mk_token (mt_prefix t)"
  have fold: "fold (\<lambda>(lo, hi, l) res. map2 (\<lambda>v r. if lo \<le> v \<and> v \<le> hi then ?f l else r) vals res)
      (the (mt_range_lookup t)) (replicate (length vals) (?f (mt_default t)))
    = map (\<lambda>v. ?f (range_label (the (mt_range_lookup t)) (mt_default t) v)) vals"
    by (subst masked_fold_pointwise) (simp_all only: length_replicate rep range_label_fold)
  show ?thesis
    unfolding tokenize_range_def v rbind_simps Let_def fold by simp
qed

lemma range_label_mem: "range_label ranges d v \<in> insert d ((\<lambda>(lo, hi, l). l) ` set ranges)"
proof (cases "filter (\<lambda>(lo, hi, l). lo \<le> v \<and> v \<le> hi) (rev ranges)")
  case (Cons x xs)
  then have "x \<in> set (filter (\<lambda>(lo, hi, l). lo \<le> v \<and> v \<le> hi) (rev ranges))" by simp
  then have "x \<in> set ranges" by simp
  with Cons show ?thesis by (cases x) (force simp: range_label_def)
qed (simp add: range_label_def)

subsection \<open>MappingTokenizer provides the interface\<close>

definition mapping_ready :: "mapping_tokenizer \<Rightarrow> column option \<Rightarrow> bool" where
  "mapping_ready t d \<longleftrightarrow>
     (case mt_mode t of
        MRange \<Rightarrow> mt_default t \<notin> (\<lambda>(lo, hi, l). l) ` set (the (mt_range_lookup t))
      | MDirect \<Rightarrow> mt_direct_map t \<noteq> None \<and> mt_direct_map t \<noteq> Some []
      | MPassthrough \<Rightarrow> mt_direct_map t \<noteq> None \<and> mt_direct_map t \<noteq> Some [] \<or> d \<noteq> None)"

definition mapping_accepts :: "cudf_lib \<Rightarrow> mapping_tokenizer \<Rightarrow> column \<Rightarrow> bool" where
  "mapping_accepts lib t c \<longleftrightarrow>
     (mt_mode t = MRange \<longrightarrow> (case lib_int64 lib c of Inl _ \<Rightarrow> False | Inr _ \<Rightarrow> True))"

text \<open>The labels \<open>build_vocab\<close> enumerates and the direct map it leaves behind.\<close>

definition mapping_labels :: "cudf_lib \<Rightarrow> mapping_tokenizer \<Rightarrow> column option \<Rightarrow> string list" where
  "mapping_labels lib t d =
     (case mt_mode t of
        MRange \<Rightarrow> sort (remdups (map (\<lambda>(lo, hi, lbl). lbl) (the (mt_range_lookup t)))) @ [mt_default t]
      | _ \<Rightarrow> (case mt_direct_map t of
                Some (p # ps) \<Rightarrow> py_unique (sort (remdups (map snd (p # ps))) @ [mt_default t])
              | _ \<Rightarrow> (if mt_mode t = MPassthrough \<and> d \<noteq> None
                       then py_unique (sort (lib_uniques lib (the d)) @ [mt_default t])
                       else [mt_default t])))"

lemma mapping_build_flat_idx:
  "flat_idx (mapping_build_vocab lib t d) =
     Some (enum_tokens (mt_prefix t) (mapping_labels lib t d))"
  unfolding mapping_build_vocab_def mapping_labels_def flat_idx_def Let_def
  by (auto split: map_mode.splits option.splits list.splits)

lemma mapping_build_frame [simp]:
  "mt_prefix (mapping_build_vocab lib t d) = mt_prefix t"
  "mt_default (mapping_build_vocab lib t d) = mt_default t"
  "mt_mode (mapping_build_vocab lib t d) = mt_mode t"
  "mt_range_lookup (mapping_build_vocab lib t d) = mt_range_lookup t"
  unfolding mapping_build_vocab_def Let_def
  by (auto split: map_mode.splits option.splits list.splits)

lemma mapping_labels_distinct: "mapping_ready t d \<Longrightarrow> distinct (mapping_labels lib t d)"
  by (auto simp: mapping_labels_def mapping_ready_def split: map_mode.splits option.splits list.splits)

lemma mapping_labels_nonempty: "mapping_labels lib t d \<noteq> []"
proof -
  have "mt_default t \<in> set (mapping_labels lib t d)"
    by (auto simp: mapping_labels_def split: map_mode.splits option.splits list.splits)
  then show ?thesis by auto
qed

text \<open>After a ready \<open>build_vocab\<close> the direct map is not empty and maps into the labels.\<close>

lemma mapping_build_direct:
  assumes "mapping_ready t d" and "mt_mode t \<noteq> MRange"
  shows "\<exists>p ps. mt_direct_map (mapping_build_vocab lib t d) = Some (p # ps) \<and>
    snd ` set (p # ps) \<union> {mt_default t} \<subseteq> set (mapping_labels lib t d)"
proof (cases "\<exists>p ps. mt_direct_map t = Some (p # ps)")
  case True
  then obtain p ps where m: "mt_direct_map t = Some (p # ps)" by blast
  have "mt_direct_map (mapping_build_vocab lib t d) = Some (p # ps)"
    using assms(2) m by (cases "mt_mode t") (simp_all add: mapping_build_vocab_def)
  moreover have "set (mapping_labels lib t d) = snd ` set (p # ps) \<union> {mt_default t}"
    using assms(2) m by (cases "mt_mode t") (auto simp: mapping_labels_def)
  ultimately show ?thesis by blast
next
  case False
  then have m: "mt_direct_map t = None \<or> mt_direct_map t = Some []"
    by (metis list.exhaust option.exhaust)
  with assms obtain c where c: "mt_mode t = MPassthrough" "d = Some c"
    by (auto simp: mapping_ready_def split: map_mode.splits)
  let ?ls = "py_unique (sort (lib_uniques lib c) @ [mt_default t])"
  have "mt_direct_map (mapping_build_vocab lib t d) = Some (map (\<lambda>l. (KStr l, l)) ?ls)"
    using m c by (auto simp: mapping_build_vocab_def Let_def)
  moreover have "mapping_labels lib t d = ?ls"
    using m c by (auto simp: mapping_labels_def)
  moreover have dflt: "mt_default t \<in> set ?ls" by simp
  moreover obtain a as where "?ls = a # as" using dflt by (cases ?ls) auto
  ultimately show ?thesis by auto
qed

lemma tokenize_direct_mem:
  assumes "mt_direct_map t = Some (p # ps)" and "tokenize_direct lib t c = Inr ts" and "w \<in> set ts"
  shows "\<exists>l \<in> snd ` set (p # ps) \<union> {mt_default t}. w = Some (mk_token (mt_prefix t) l)"
proof -
  let ?xs = "series_map (p # ps) (map (map_option KStr) (as_text lib c))"
  have "ts = map (\<lambda>x. Some (mk_token (mt_prefix t) (case x of None \<Rightarrow> mt_default t | Some l \<Rightarrow> l))) ?xs"
    using assms(1,2) by (simp add: tokenize_direct_def Let_def comp_def)
  with assms(3) obtain x where x: "x \<in> set ?xs"
      "w = Some (mk_token (mt_prefix t) (case x of None \<Rightarrow> mt_default t | Some l \<Rightarrow> l))"
    by (auto simp del: series_map_def)
  show ?thesis
  proof (cases x)
    case (Some l)
    with x(1) have "l \<in> snd ` set (p # ps)" by (simp only: series_map_range)
    with x(2) Some show ?thesis by auto
  qed (use x(2) in auto)
qed

interpretation mapped: token_step "mapping_build_vocab lib" "mapping_tokenize lib" flat_idx
    mapping_ready "mapping_accepts lib" for lib
proof (unfold_locales, goal_cases)
  case (1 t d)
  then show ?case
    by (simp add: mapping_build_flat_idx enum_tokens_facts mapping_labels_nonempty mapping_labels_distinct)
next
  case (2 t d c)
  have "\<exists>xs. tokenize_direct lib t' c = Inr (map Some xs)" for t'
    unfolding tokenize_direct_def Let_def by (intro exI, subst map_Some_comp, rule refl)
  moreover have "\<exists>xs. tokenize_range lib t' c = Inr (map Some xs)" if rng: "mt_mode t = MRange" for t'
  proof -
    obtain vals where "lib_int64 lib c = Inr vals"
      using rng 2(2) by (auto simp: mapping_accepts_def split: sum.splits)
    from tokenize_range_eq [OF this, of t'] show ?thesis
      by (intro exI) (erule trans, subst map_Some_comp, rule refl)
  qed
  ultimately obtain xs where
    "mapping_tokenize lib (mapping_build_vocab lib t d) c = Inr (map Some xs)"
    unfolding mapping_tokenize_def by (metis mapping_build_frame(3))
  then show ?case by auto
next
  case (3 t d c ts w)
  have "\<exists>l \<in> set (mapping_labels lib t d). w = mk_token (mt_prefix t) l"
  proof (cases "mt_mode t = MRange")
    case True
    with 3(2) obtain vals where v: "lib_int64 lib c = Inr vals"
      by (auto simp: mapping_accepts_def split: sum.splits)
    from 3(3,4) True obtain x where x:
        "w = mk_token (mt_prefix t) (range_label (the (mt_range_lookup t)) (mt_default t) x)"
      by (auto simp: mapping_tokenize_def tokenize_range_eq [OF v])
    have "range_label (the (mt_range_lookup t)) (mt_default t) x \<in> set (mapping_labels lib t d)"
      using range_label_mem [of "the (mt_range_lookup t)" "mt_default t" x] True
      by (simp add: mapping_labels_def)
    with x show ?thesis by blast
  next
    case False
    obtain p ps where p: "mt_direct_map (mapping_build_vocab lib t d) = Some (p # ps)"
        "snd ` set (p # ps) \<union> {mt_default t} \<subseteq> set (mapping_labels lib t d)"
      using mapping_build_direct [OF 3(1) False] by blast
    from 3(3) False have "tokenize_direct lib (mapping_build_vocab lib t d) c = Inr ts"
      by (simp add: mapping_tokenize_def)
    from tokenize_direct_mem [OF p(1) this 3(4)] p(2) show ?thesis by (simp, blast)
  qed
  then show ?case by (auto simp: mapping_build_flat_idx enum_tokens_facts)
qed

subsection \<open>NumericalTokenizerOptBin and TimeDeltaTokenizer provide the interface\<close>

text \<open>The documented contract of \<open>KBinsDiscretizer\<close> (ordinal): bins are \<open>0 .. n_bins - 1\<close>.\<close>

definition numerical_ready :: "numerical_optbin \<Rightarrow> column option \<Rightarrow> bool" where
  "numerical_ready t d \<longleftrightarrow> 0 < no_num_bins t"

definition numerical_accepts :: "cudf_lib \<Rightarrow> numerical_optbin \<Rightarrow> column \<Rightarrow> bool" where
  "numerical_accepts lib t c \<longleftrightarrow>
     (\<forall>fit. \<forall>x \<in> set (lib_kbins lib (no_num_bins t) (no_strategy t) fit c).
        \<exists>i. x = Some i \<and> 0 \<le> i \<and> i < int (no_num_bins t))"

lemma numerical_build_flat_idx:
  "flat_idx (numerical_build_vocab t d) = Some (range_tokens (no_special_token t) (no_num_bins t))"
  by (cases d) (simp_all add: numerical_build_vocab_def flat_idx_def)

lemma numerical_build_frame [simp]:
  "no_num_bins (numerical_build_vocab t d) = no_num_bins t"
  "no_strategy (numerical_build_vocab t d) = no_strategy t"
  by (cases d; simp add: numerical_build_vocab_def)+

interpretation numerical: token_step numerical_build_vocab "numerical_tokenize lib" flat_idx
    numerical_ready "numerical_accepts lib" for lib
proof (unfold_locales, goal_cases)
  case (1 t d)
  then show ?case
    by (simp add: numerical_build_flat_idx numerical_ready_def range_tokens_facts(2-))
next
  case (2 t d c)
  then have "\<exists>ts. map_tokens (numerical_build_vocab t d) (lib_kbins lib (no_num_bins t) (no_strategy t)
      (no_builder (numerical_build_vocab t d)) c) = Inr ts \<and> None \<notin> set ts"
    by (intro map_tokens_total [OF numerical_build_flat_idx])
      (auto simp: numerical_accepts_def range_tokens_keys)
  then show ?case by (simp add: numerical_tokenize_def)
next
  case (3 t d c ts w)
  from map_tokens_covered [OF numerical_build_flat_idx 3(3) [unfolded numerical_tokenize_def] 3(4)]
  show ?case by (simp add: numerical_build_flat_idx)
qed

definition timedelta_ready :: "time_delta \<Rightarrow> column option \<Rightarrow> bool" where
  "timedelta_ready t d \<longleftrightarrow> 0 < td_num_bins t"

definition timedelta_accepts :: "time_delta \<Rightarrow> column \<Rightarrow> bool" where
  "timedelta_accepts t c \<longleftrightarrow> (case numeric_values c of Inl _ \<Rightarrow> False | Inr _ \<Rightarrow> True)"

lemma timedelta_build_flat_idx:
  "flat_idx (timedelta_build_vocab t d) = Some (range_tokens (td_special_token t) (td_num_bins t))"
  by (simp add: timedelta_build_vocab_def flat_idx_def)

lemma timedelta_bin_build [simp]:
  "timedelta_bin lib (timedelta_build_vocab t d) = timedelta_bin lib t"
  by (rule ext) (simp add: timedelta_bin_def timedelta_build_vocab_def)

lemma timedelta_bin_range:
  "0 < td_num_bins t \<Longrightarrow> 0 \<le> timedelta_bin lib t x \<and> timedelta_bin lib t x < int (td_num_bins t)"
  using clip_range [of 0 "int (td_num_bins t) - 1"] by (auto simp: timedelta_bin_def Let_def)

interpretation timedelta: token_step timedelta_build_vocab "timedelta_tokenize lib" flat_idx
    timedelta_ready timedelta_accepts for lib
proof (unfold_locales, goal_cases)
  case (1 t d)
  then show ?case
    by (simp add: timedelta_build_flat_idx timedelta_ready_def range_tokens_facts(2-))
next
  case (2 t d c)
  then obtain xs where xs: "numeric_values c = Inr xs"
    by (auto simp: timedelta_accepts_def split: sum.splits)
  have "\<exists>ts. map_tokens (timedelta_build_vocab t d)
      (map (\<lambda>x. Some (timedelta_bin lib t x)) xs) = Inr ts \<and> None \<notin> set ts"
    using 2(1) timedelta_bin_range [of t lib]
    by (intro map_tokens_total [OF timedelta_build_flat_idx])
      (auto simp: range_tokens_keys timedelta_ready_def)
  then show ?case by (simp add: timedelta_tokenize_def xs)
next
  case (3 t d c ts w)
  then obtain xs where "numeric_values c = Inr xs"
    by (auto simp: timedelta_accepts_def split: sum.splits)
  with 3(3) have "map_tokens (timedelta_build_vocab t d)
      (map (\<lambda>x. Some (timedelta_bin lib t x)) xs) = Inr ts"
    by (simp add: timedelta_tokenize_def)
  from map_tokens_covered [OF timedelta_build_flat_idx this 3(4)]
  show ?case by (simp add: timedelta_build_flat_idx)
qed

end
