(* ===== verification/Tokenizer_Any.thy ===== *)
theory Tokenizer_Any
  imports Step_Contracts
begin

section \<open>A step of any class, and its saved state\<close>

text \<open>
  The pipeline holds steps of any class: a datatype over the five records with the
  methods dispatched on it, as Python dispatches on the object. The second part models
  \<open>get_state\<close> and \<open>from_state\<close> of \<open>base.py\<close> with the per-class \<open>_get_init_params\<close>,
  \<open>_get_fitted_state\<close> and \<open>_set_fitted_state\<close>.
\<close>

datatype tokenizer =
    TFixed fixed_vocab
  | THash categorical_hash
  | TMapping mapping_tokenizer
  | TNumerical numerical_optbin
  | TTime time_delta

fun tok_build_vocab :: "cudf_lib \<Rightarrow> tokenizer \<Rightarrow> column option \<Rightarrow> tokenizer" where
  "tok_build_vocab lib (TFixed t) c = TFixed (fixed_build_vocab t c)"
| "tok_build_vocab lib (THash t) c = THash (hash_build_vocab t c)"
| "tok_build_vocab lib (TMapping t) c = TMapping (mapping_build_vocab lib t c)"
| "tok_build_vocab lib (TNumerical t) c = TNumerical (numerical_build_vocab t c)"
| "tok_build_vocab lib (TTime t) c = TTime (timedelta_build_vocab t c)"

fun tok_tokenize :: "cudf_lib \<Rightarrow> tokenizer \<Rightarrow> column \<Rightarrow> string option list result" where
  "tok_tokenize lib (TFixed t) c = fixed_tokenize lib t c"
| "tok_tokenize lib (THash t) c = hash_tokenize t c"
| "tok_tokenize lib (TMapping t) c = mapping_tokenize lib t c"
| "tok_tokenize lib (TNumerical t) c = numerical_tokenize lib t c"
| "tok_tokenize lib (TTime t) c = timedelta_tokenize lib t c"

fun tok_idx :: "tokenizer \<Rightarrow> idx_map option" where
  "tok_idx (TFixed t) = idx_to_token t"
| "tok_idx (THash t) = idx_to_token t"
| "tok_idx (TMapping t) = idx_to_token t"
| "tok_idx (TNumerical t) = idx_to_token t"
| "tok_idx (TTime t) = idx_to_token t"

fun tok_vocab_size :: "tokenizer \<Rightarrow> nat" where
  "tok_vocab_size (TFixed t) = vocab_size t"
| "tok_vocab_size (THash t) = vocab_size t"
| "tok_vocab_size (TMapping t) = vocab_size t"
| "tok_vocab_size (TNumerical t) = vocab_size t"
| "tok_vocab_size (TTime t) = vocab_size t"

fun tok_stream :: "tokenizer \<Rightarrow> nat option" where
  "tok_stream (TFixed t) = fv_stream t"
| "tok_stream (THash t) = ch_stream t"
| "tok_stream (TMapping t) = mt_stream t"
| "tok_stream (TNumerical t) = no_stream t"
| "tok_stream (TTime t) = td_stream t"

fun tok_set_stream :: "nat option \<Rightarrow> tokenizer \<Rightarrow> tokenizer" where
  "tok_set_stream s (TFixed t) = TFixed (t\<lparr>fv_stream := s\<rparr>)"
| "tok_set_stream s (THash t) = THash (t\<lparr>ch_stream := s\<rparr>)"
| "tok_set_stream s (TMapping t) = TMapping (t\<lparr>mt_stream := s\<rparr>)"
| "tok_set_stream s (TNumerical t) = TNumerical (t\<lparr>no_stream := s\<rparr>)"
| "tok_set_stream s (TTime t) = TTime (t\<lparr>td_stream := s\<rparr>)"

fun tok_ready :: "tokenizer \<Rightarrow> column option \<Rightarrow> bool" where
  "tok_ready (TFixed t) d = fixed_ready t d"
| "tok_ready (THash t) d = hash_ready t d"
| "tok_ready (TMapping t) d = mapping_ready t d"
| "tok_ready (TNumerical t) d = numerical_ready t d"
| "tok_ready (TTime t) d = timedelta_ready t d"

fun tok_accepts :: "cudf_lib \<Rightarrow> tokenizer \<Rightarrow> column \<Rightarrow> bool" where
  "tok_accepts lib (TFixed t) c = fixed_accepts lib t c"
| "tok_accepts lib (THash t) c = hash_accepts t c"
| "tok_accepts lib (TMapping t) c = mapping_accepts lib t c"
| "tok_accepts lib (TNumerical t) c = numerical_accepts lib t c"
| "tok_accepts lib (TTime t) c = timedelta_accepts t c"

definition tok_flat :: "tokenizer \<Rightarrow> (int, string) dict option" where
  "tok_flat t = (case tok_idx t of Some (Flat d) \<Rightarrow> Some d | _ \<Rightarrow> None)"

lemma tok_flat_simps [simp]:
  "tok_flat (TFixed a) = flat_idx a"
  "tok_flat (THash b) = flat_idx b"
  "tok_flat (TMapping c) = flat_idx c"
  "tok_flat (TNumerical d) = flat_idx d"
  "tok_flat (TTime e) = flat_idx e"
  by (simp_all add: tok_flat_def flat_idx_def)

text \<open>The sum of the five classes provides the interface again: one case per class.\<close>

interpretation any: token_step "tok_build_vocab lib" "tok_tokenize lib" tok_flat tok_ready
    "tok_accepts lib" for lib
proof (unfold_locales, goal_cases)
  case (1 t d)
  then show ?case
    by (cases t) (simp_all only: tok_build_vocab.simps tok_ready.simps tok_flat_simps
      fixed.build_idx hashed.build_idx mapped.build_idx numerical.build_idx timedelta.build_idx)
next
  case (2 t d c)
  then show ?case
    by (cases t) (simp_all only: tok_build_vocab.simps tok_ready.simps tok_accepts.simps
      tok_tokenize.simps fixed.tokenize_total hashed.tokenize_total mapped.tokenize_total
      numerical.tokenize_total timedelta.tokenize_total)
next
  case (3 t d c ts w)
  then show ?case
    by (cases t) (simp_all only: tok_build_vocab.simps tok_ready.simps tok_accepts.simps
      tok_tokenize.simps tok_flat_simps fixed.tokenize_covered hashed.tokenize_covered
      mapped.tokenize_covered numerical.tokenize_covered timedelta.tokenize_covered)
qed

text \<open>Every class builds a flat index dict, whose length is the vocabulary size.\<close>

lemma tok_idx_build: "\<exists>d. tok_idx (tok_build_vocab lib t c) = Some (Flat d)"
proof (cases t)
  case (TMapping m)
  then show ?thesis
    using mapping_build_flat_idx [of lib m c]
    by (auto simp: flat_idx_def split: option.splits idx_map.splits)
next
  case (TNumerical m)
  then show ?thesis
    using numerical_build_flat_idx [of m c]
    by (auto simp: flat_idx_def split: option.splits idx_map.splits)
qed (simp_all add: fixed_build_vocab_def hash_build_eq timedelta_build_vocab_def)

lemma tok_vocab_size_idx:
  "tok_vocab_size t = (case tok_idx t of None \<Rightarrow> 0 | Some m \<Rightarrow> idx_size m)"
  by (cases t) (simp_all add: vocab_size_def)

lemma tok_vocab_size_flat: "tok_flat t = Some d \<Longrightarrow> tok_vocab_size t = length d"
  by (auto simp: tok_flat_def tok_vocab_size_idx split: option.splits idx_map.splits)

text \<open>A stream changes neither the vocabulary that is built nor the tokens.\<close>

lemma tok_build_stream:
  "tok_set_stream s (tok_build_vocab lib (tok_set_stream s' t) c) =
   tok_set_stream s (tok_build_vocab lib t c)"
proof (cases t)
  case (TMapping m)
  have "(mapping_build_vocab lib (m\<lparr>mt_stream := s'\<rparr>) c)\<lparr>mt_stream := s\<rparr> =
      (mapping_build_vocab lib m c)\<lparr>mt_stream := s\<rparr>"
    by (auto simp: mapping_build_vocab_def Let_def split: map_mode.splits option.splits list.splits)
  with TMapping show ?thesis by simp
next
  case (TNumerical m)
  then show ?thesis by (cases c) (simp_all add: numerical_build_vocab_def)
qed (simp_all add: fixed_build_vocab_def hash_build_eq timedelta_build_vocab_def)

lemma tok_stream_build [simp]: "tok_stream (tok_build_vocab lib t c) = tok_stream t"
proof (cases t)
  case (TMapping m)
  then show ?thesis
    by (auto simp: mapping_build_vocab_def Let_def split: map_mode.splits option.splits list.splits)
next
  case (TNumerical m)
  then show ?thesis by (cases c) (simp_all add: numerical_build_vocab_def)
qed (simp_all add: fixed_build_vocab_def hash_build_eq timedelta_build_vocab_def)

lemma tok_set_stream_same [simp]: "tok_set_stream (tok_stream t) t = t"
  by (cases t) simp_all

lemma tok_set_stream_idx [simp]: "tok_idx (tok_set_stream s t) = tok_idx t"
  by (cases t) simp_all

lemma tok_tokenize_stream [simp]: "tok_tokenize lib (tok_set_stream s t) c = tok_tokenize lib t c"
  by (cases t) (simp_all add: fixed_tokenize_def hash_tokenize_def mapping_tokenize_def
    tokenize_range_def tokenize_direct_def numerical_tokenize_def timedelta_tokenize_def
    timedelta_bin_def map_tokens_def flat_idx_def split: column.splits)

text \<open>Building under a stream and restoring the old one is building without it.\<close>

lemma tok_build_under_stream:
  "tok_set_stream (tok_stream t) (tok_build_vocab lib (tok_set_stream s t) c) = tok_build_vocab lib t c"
  by (metis tok_build_stream tok_set_stream_same tok_stream_build)

subsection \<open>Saving and restoring a step\<close>

datatype init_params =
    FixedParams string int int nat
  | HashParams string nat
  | MappingParams string "(key, string) dict option" "key list option"
      "(int \<times> int \<times> string) list option" string
  | NumericalParams string nat string
  | TimeParams nat string rat

datatype fitted_state =
    BuiltState bool
  | NumericalState "column option option" bool
  | TimeState "rat list" int bool

record tok_state =
  st_init_params :: init_params
  st_vocab_state :: "idx_map option"
  st_fitted_state :: fitted_state

fun get_init_params :: "tokenizer \<Rightarrow> init_params" where
  "get_init_params (TFixed t) =
     FixedParams (fv_prefix t) (fv_min_val t) (fv_max_val t) (fv_pad_width t)"
| "get_init_params (THash t) = HashParams (ch_special_token t) (ch_vocab_limit t)"
| "get_init_params (TMapping t) =
     MappingParams (mt_prefix t) (mt_mapping_cfg t) (mt_values_cfg t) (mt_ranges_cfg t) (mt_default t)"
| "get_init_params (TNumerical t) =
     NumericalParams (no_special_token t) (no_num_bins t) (no_strategy t)"
| "get_init_params (TTime t) = TimeParams (td_num_bins t) (td_special_token t) (td_max_years t)"

fun get_fitted_state :: "tokenizer \<Rightarrow> fitted_state" where
  "get_fitted_state (TFixed t) = BuiltState (fv_vocab_built t)"
| "get_fitted_state (THash t) = BuiltState (ch_vocab_built t)"
| "get_fitted_state (TMapping t) = BuiltState (mt_vocab_built t)"
| "get_fitted_state (TNumerical t) =
     NumericalState (if no_vocab_built t then Some (no_builder t) else None) (no_vocab_built t)"
| "get_fitted_state (TTime t) = TimeState (td_boundaries t) (td_max_horizon t) (td_vocab_built t)"

definition get_state :: "tokenizer \<Rightarrow> tok_state" where
  "get_state t = \<lparr>st_init_params = get_init_params t, st_vocab_state = tok_idx t,
                  st_fitted_state = get_fitted_state t\<rparr>"

text \<open>\<open>cls(**init_params)\<close>; a restored step has no stream.\<close>

fun tok_construct :: "cudf_lib \<Rightarrow> init_params \<Rightarrow> tokenizer" where
  "tok_construct lib (FixedParams p lo hi w) = TFixed (fixed_init p lo hi w None)"
| "tok_construct lib (HashParams s n) = THash (hash_init n s None)"
| "tok_construct lib (MappingParams p m v r d) = TMapping (mapping_init p m v r d None)"
| "tok_construct lib (NumericalParams s n st) = TNumerical (numerical_init s n st None)"
| "tok_construct lib (TimeParams n s y) = TTime (timedelta_init lib n s y None)"

fun tok_set_vocab_state :: "idx_map option \<Rightarrow> tokenizer \<Rightarrow> tokenizer" where
  "tok_set_vocab_state m (TFixed t) = TFixed (set_vocab_state m t)"
| "tok_set_vocab_state m (THash t) = THash (set_vocab_state m t)"
| "tok_set_vocab_state m (TMapping t) = TMapping (set_vocab_state m t)"
| "tok_set_vocab_state m (TNumerical t) = TNumerical (set_vocab_state m t)"
| "tok_set_vocab_state m (TTime t) = TTime (set_vocab_state m t)"

text \<open>\<open>state.get("_vocab_built", False)\<close>; only the time-delta step requires its keys.\<close>

fun state_built :: "fitted_state \<Rightarrow> bool" where
  "state_built (BuiltState b) = b"
| "state_built (NumericalState _ b) = b"
| "state_built (TimeState _ _ b) = b"

fun set_fitted_state :: "fitted_state \<Rightarrow> tokenizer \<Rightarrow> tokenizer result" where
  "set_fitted_state f (TFixed t) = Inr (TFixed (t\<lparr>fv_vocab_built := state_built f\<rparr>))"
| "set_fitted_state f (THash t) = Inr (THash (t\<lparr>ch_vocab_built := state_built f\<rparr>))"
| "set_fitted_state f (TMapping t) = Inr (TMapping (t\<lparr>mt_vocab_built := state_built f\<rparr>))"
| "set_fitted_state f (TNumerical t) =
     Inr (TNumerical ((case f of NumericalState (Some b) _ \<Rightarrow> t\<lparr>no_builder := b\<rparr> | _ \<Rightarrow> t)
       \<lparr>no_vocab_built := state_built f\<rparr>))"
| "set_fitted_state f (TTime t) =
     (case f of
        TimeState bs h b \<Rightarrow>
          Inr (TTime (t\<lparr>td_boundaries := bs, td_max_horizon := h, td_vocab_built := b\<rparr>))
      | _ \<Rightarrow> Inl (KeyError ''boundaries''))"

definition from_state :: "cudf_lib \<Rightarrow> tok_state \<Rightarrow> tokenizer result" where
  "from_state lib st =
     set_fitted_state (st_fitted_state st)
       (tok_set_vocab_state (st_vocab_state st) (tok_construct lib (st_init_params st)))"

text \<open>
  Which steps come back whole: all but a mapping step whose labels were learned from a
  column, because the learned direct map is in neither part of the saved state.
\<close>

fun restorable :: "init_params \<Rightarrow> column option \<Rightarrow> bool" where
  "restorable (MappingParams p m v r d) c =
     (r \<noteq> None \<or> m \<noteq> None \<or> (case v of Some (_ # _) \<Rightarrow> True | _ \<Rightarrow> False) \<or> c = None)"
| "restorable _ c = True"

lemma mapping_restore:
  assumes "restorable (MappingParams p m v r d) c"
  shows "mapping_build_vocab lib (mapping_init p m v r d None) c =
    (mapping_init p m v r d None)\<lparr>
      idx_to_token := idx_to_token (mapping_build_vocab lib (mapping_init p m v r d None) c),
      mt_vocab_built := True\<rparr>"
proof -
  let ?t = "mapping_init p m v r d None"
  have "mt_direct_map (mapping_build_vocab lib ?t c) = mt_direct_map ?t"
  proof (cases "mt_mode ?t = MPassthrough \<and> (mt_direct_map ?t = Some [])")
    case True
    then have "c = None" using assms
      by (auto simp: mapping_init_def dict_update_eq_Nil split: if_splits option.splits list.splits)
    then show ?thesis using True by (simp add: mapping_build_vocab_def Let_def)
  next
    case False
    then show ?thesis
      by (auto simp: mapping_build_vocab_def Let_def mapping_init_def
          split: map_mode.splits option.splits list.splits if_splits)
  qed
  moreover have "t' = t\<lparr>idx_to_token := idx_to_token t', mt_vocab_built := True\<rparr>"
    if "t' = mapping_build_vocab lib t c" and "mt_direct_map t' = mt_direct_map t" for t t'
    using that
    by (cases t) (auto simp: mapping_build_vocab_def Let_def
      split: map_mode.splits option.splits list.splits if_splits)
  ultimately show ?thesis by blast
qed

lemma restore_built_step:
  assumes "restorable p c"
  shows "from_state lib (get_state (tok_build_vocab lib (tok_construct lib p) c)) =
    Inr (tok_build_vocab lib (tok_construct lib p) c)"
proof (cases p)
  case (MappingParams pre m v r d)
  let ?t = "mapping_init pre m v r d None"
  from mapping_restore [of pre m v r d c lib] assms MappingParams
  have eq: "mapping_build_vocab lib ?t c = ?t\<lparr>
      idx_to_token := idx_to_token (mapping_build_vocab lib ?t c), mt_vocab_built := True\<rparr>" by simp
  obtain i where i: "mapping_build_vocab lib ?t c = ?t\<lparr>idx_to_token := i, mt_vocab_built := True\<rparr>"
    using eq by blast
  have cfg: "mt_prefix ?t = pre" "mt_mapping_cfg ?t = m" "mt_values_cfg ?t = v"
    "mt_ranges_cfg ?t = r" "mt_default ?t = d"
    by (auto simp: mapping_init_def Let_def split: option.splits)
  show ?thesis
    by (simp add: MappingParams i cfg from_state_def get_state_def set_vocab_state_def)
next
  case (NumericalParams s n st)
  then show ?thesis
    by (cases c) (simp_all add: from_state_def get_state_def set_vocab_state_def
      numerical_build_vocab_def numerical_init_def)
qed (simp_all add: from_state_def get_state_def set_vocab_state_def fixed_build_vocab_def fixed_init_def
    hash_build_eq hash_init_def timedelta_build_vocab_def timedelta_init_def Let_def)

end
