(* ===== verification/Pipeline.thy ===== *)
theory Pipeline
  imports Tokenizer_Any
begin

section \<open>TokenizerPipeline\<close>

text \<open>
  Models \<open>tfm_repo/src/tokenizer/pipeline.py\<close>: adding steps, fitting them sequentially or
  on CUDA streams, the offsets that place each step's local indices in one global
  vocabulary, the global vocabulary itself, \<open>transform\<close>, \<open>encode\<close> and
  \<open>to_corpus_lines\<close>. The step objects are distinct objects; fitting mutates them, so the
  \<open>steps\<close> dict is threaded through the loops.
\<close>

subsection \<open>State and construction\<close>

record pipeline =
  steps :: "(string, tokenizer) dict"
  vocab_sizes :: "(string, nat) dict"
  vocab_offset :: "(string, nat) dict"
  column_specs :: "(string, string list) dict"
  tokenizer_order :: "string list"
  stream_threshold :: nat
  special_tokens :: "(string, string) dict"
  special_token_ids :: "(string, int) dict"
  num_special_tokens :: nat
  global_vocab_size :: nat
  use_streams :: bool
  is_fitted :: bool
  global_vocab :: "(string, int) dict option"
  global_id_to_token :: "(int, string) dict option"

definition default_special_tokens :: "(string, string) dict" where
  "default_special_tokens =
     [(''PAD'', ''<pad>''), (''BOS'', ''<bos>''), (''EOS'', ''<eos>''),
      (''SEP'', ''<sep>''), (''UNK'', ''<unk>'')]"

definition enumerate_ids :: "string list \<Rightarrow> (string, int) dict" where
  "enumerate_ids toks = dict_of (zip toks (map int [0..<length toks]))"

definition pipeline_init :: "(string, string) dict option \<Rightarrow> bool \<Rightarrow> nat \<Rightarrow> pipeline" where
  "pipeline_init special streams threshold =
     (let toks = (case special of Some (p # ps) \<Rightarrow> p # ps | _ \<Rightarrow> default_special_tokens)
      in \<lparr>steps = [], vocab_sizes = [], vocab_offset = [], column_specs = [], tokenizer_order = [],
          stream_threshold = threshold, special_tokens = toks,
          special_token_ids = enumerate_ids (map snd toks),
          num_special_tokens = length toks, global_vocab_size = length toks,
          use_streams = streams, is_fitted = False,
          global_vocab = None, global_id_to_token = None\<rparr>)"

datatype col_name = OneCol string | ManyCols "string list"

fun normalize_key :: "col_name \<Rightarrow> string list" where
  "normalize_key (ManyCols cs) = cs"
| "normalize_key (OneCol c) = [c]"

definition add_step :: "col_name \<Rightarrow> tokenizer \<Rightarrow> pipeline \<Rightarrow> pipeline" where
  "add_step column_name tok p =
     (let col = normalize_key column_name; tok_id = py_join ''_'' col
      in p\<lparr>steps := AList.update tok_id tok (steps p),
           column_specs := AList.update tok_id col (column_specs p),
           tokenizer_order := tokenizer_order p @ [tok_id]\<rparr>)"

subsection \<open>Reading columns\<close>

definition dict_lookup :: "(string, 'v) dict \<Rightarrow> string \<Rightarrow> 'v result" where
  "dict_lookup d k = (case map_of d k of None \<Rightarrow> Inl (KeyError k) | Some v \<Rightarrow> Inr v)"

text \<open>\<open>df[columns] if len(columns) > 1 else df[columns[0]]\<close>.\<close>

definition select_columns :: "frame \<Rightarrow> string list \<Rightarrow> col_data result" where
  "select_columns df columns =
     (if length columns > 1
      then rbind (rmap (\<lambda>c. rbind (dict_lookup df c) (\<lambda>v. Inr (c, v))) columns) (\<lambda>f. Inr (DataFrame f))
      else (case columns of
              [] \<Rightarrow> Inl IndexError
            | c # _ \<Rightarrow> rbind (dict_lookup df c) (\<lambda>v. Inr (Series v))))"

text \<open>
  \<open>build_vocab(col_data)\<close>. Only a passthrough mapping without labels and the numerical
  step read the data; a data frame has no \<open>unique\<close>, and a frame given to the discretizer is
  outside the model.
\<close>

fun build_on :: "cudf_lib \<Rightarrow> tokenizer \<Rightarrow> col_data \<Rightarrow> tokenizer result" where
  "build_on lib t (Series c) = Inr (tok_build_vocab lib t (Some c))"
| "build_on lib t (DataFrame f) =
     (case t of
        TNumerical _ \<Rightarrow> Inl (Unsupported ''multi-column discretizer'')
      | TMapping m \<Rightarrow>
          if mt_mode m = MPassthrough \<and> (case mt_direct_map m of Some (_ # _) \<Rightarrow> False | _ \<Rightarrow> True)
          then Inl (TypeError ''unique'')
          else Inr (tok_build_vocab lib t None)
      | _ \<Rightarrow> Inr (tok_build_vocab lib t None))"

subsection \<open>Fitting\<close>

text \<open>The size and the offsets that one fitted step records, and the next free offset.\<close>

fun sub_offsets :: "string \<Rightarrow> (string, (int, string) dict) dict \<Rightarrow> (string, nat) dict \<Rightarrow> nat
    \<Rightarrow> (string, nat) dict \<times> nat" where
  "sub_offsets tok_id [] offs cur = (offs, cur)"
| "sub_offsets tok_id ((sub, d) # ds) offs cur =
     sub_offsets tok_id ds (AList.update (tok_id @ ''.'' @ sub) cur offs) (cur + length d)"

definition assign_offsets ::
    "string \<Rightarrow> tokenizer \<Rightarrow> (string, nat) dict \<times> (string, nat) dict \<times> nat
     \<Rightarrow> (string, nat) dict \<times> (string, nat) dict \<times> nat" where
  "assign_offsets tok_id t st =
     (case st of (sizes, offs, cur) \<Rightarrow>
       let vs = tok_vocab_size t; sizes' = AList.update tok_id vs sizes
       in case tok_idx t of
            Some (Nested (d # ds)) \<Rightarrow>
              (let (offs', cur') = sub_offsets tok_id (d # ds) offs cur in (sizes', offs', cur'))
          | _ \<Rightarrow> (sizes', AList.update tok_id cur offs, cur + vs))"

text \<open>
  One iteration up to \<open>build_vocab\<close>: the column check, the step, its columns. With a
  stream (\<open>Some s\<close>) the step's stream is replaced during the call and put back.
\<close>

definition fit_build_step ::
    "cudf_lib \<Rightarrow> frame \<Rightarrow> (string, string list) dict \<Rightarrow> nat option \<Rightarrow> string
     \<Rightarrow> (string, tokenizer) dict \<Rightarrow> (string, tokenizer) dict result" where
  "fit_build_step lib df specs stream tok_id sts =
     rbind (dict_lookup specs tok_id) (\<lambda>columns.
       if list_ex (\<lambda>c. c \<notin> set (map fst df)) columns
       then Inl (ValueError ''Columns not found in DataFrame'')
       else rbind (dict_lookup sts tok_id) (\<lambda>t.
         rbind (select_columns df columns) (\<lambda>col_data.
           case stream of
             None \<Rightarrow> rbind (build_on lib t col_data) (\<lambda>t'. Inr (AList.update tok_id t' sts))
           | Some s \<Rightarrow>
               (let original = tok_stream t in
                rbind (build_on lib (tok_set_stream (Some s) t) col_data) (\<lambda>t'.
                  Inr (AList.update tok_id (tok_set_stream original t') sts))))))"

text \<open>The loop over the steps: build one step, then record its size and offsets.\<close>

fun fit_loop ::
    "(string \<Rightarrow> (string, tokenizer) dict \<Rightarrow> (string, tokenizer) dict result) \<Rightarrow> string list
     \<Rightarrow> (string, tokenizer) dict \<Rightarrow> (string, nat) dict \<times> (string, nat) dict \<times> nat
     \<Rightarrow> ((string, tokenizer) dict \<times> (string, nat) dict \<times> (string, nat) dict \<times> nat) result" where
  "fit_loop build [] sts acc = Inr (sts, acc)"
| "fit_loop build (tok_id # ids) sts acc =
     rbind (build tok_id sts) (\<lambda>sts'.
       rbind (dict_lookup sts' tok_id) (\<lambda>t.
         fit_loop build ids sts' (assign_offsets tok_id t acc)))"

definition set_fit_result ::
    "pipeline \<Rightarrow> (string, tokenizer) dict \<times> (string, nat) dict \<times> (string, nat) dict \<times> nat \<Rightarrow> pipeline" where
  "set_fit_result p r =
     (case r of (sts, sizes, offs, cur) \<Rightarrow>
        p\<lparr>steps := sts, vocab_sizes := sizes, vocab_offset := offs, global_vocab_size := cur\<rparr>)"

definition fit_sequential :: "cudf_lib \<Rightarrow> frame \<Rightarrow> pipeline \<Rightarrow> pipeline result" where
  "fit_sequential lib df p =
     rbind (fit_loop (fit_build_step lib df (column_specs p) None) (tokenizer_order p) (steps p)
              (vocab_sizes p, vocab_offset p, num_special_tokens p))
       (\<lambda>r. Inr (set_fit_result p r))"

fun par_build_loop ::
    "cudf_lib \<Rightarrow> frame \<Rightarrow> (string, string list) dict \<Rightarrow> (nat \<times> string) list
     \<Rightarrow> (string, tokenizer) dict \<Rightarrow> (string, tokenizer) dict result" where
  "par_build_loop lib df specs [] sts = Inr sts"
| "par_build_loop lib df specs ((s, tok_id) # ids) sts =
     rbind (fit_build_step lib df specs (Some s) tok_id sts) (par_build_loop lib df specs ids)"

fun offset_loop ::
    "string list \<Rightarrow> (string, tokenizer) dict \<Rightarrow> (string, nat) dict \<times> (string, nat) dict \<times> nat
     \<Rightarrow> ((string, nat) dict \<times> (string, nat) dict \<times> nat) result" where
  "offset_loop [] sts acc = Inr acc"
| "offset_loop (tok_id # ids) sts acc =
     rbind (dict_lookup sts tok_id) (\<lambda>t. offset_loop ids sts (assign_offsets tok_id t acc))"

definition fit_parallel :: "cudf_lib \<Rightarrow> frame \<Rightarrow> pipeline \<Rightarrow> pipeline result" where
  "fit_parallel lib df p =
     rbind (par_build_loop lib df (column_specs p)
              (zip [0..<length (tokenizer_order p)] (tokenizer_order p)) (steps p))
       (\<lambda>sts. rbind (offset_loop (tokenizer_order p) sts
                       (vocab_sizes p, vocab_offset p, num_special_tokens p))
         (\<lambda>acc. Inr (set_fit_result p (sts, acc))))"

subsection \<open>The global vocabulary\<close>

definition shift_entries :: "nat \<Rightarrow> (int, string) dict \<Rightarrow> (string \<times> int) list" where
  "shift_entries offset d = map (\<lambda>(local_idx, token_str). (token_str, local_idx + int offset)) d"

definition step_entries :: "(string, nat) dict \<Rightarrow> string \<Rightarrow> tokenizer \<Rightarrow> (string \<times> int) list" where
  "step_entries offs tok_id t =
     (case tok_idx t of
        None \<Rightarrow> []
      | Some (Nested ds) \<Rightarrow>
          concat (map (\<lambda>(sub, d). shift_entries (dict_get offs (tok_id @ ''.'' @ sub) 0) d) ds)
      | Some (Flat d) \<Rightarrow> shift_entries (dict_get offs tok_id 0) d)"

text \<open>The stores of \<open>_build_global_vocab\<close> in program order: special tokens, then every step.\<close>

definition global_entries :: "pipeline \<Rightarrow> (string \<times> int) list result" where
  "global_entries p =
     rbind (rmap (\<lambda>tok_id. rbind (dict_lookup (steps p) tok_id)
                     (\<lambda>t. Inr (step_entries (vocab_offset p) tok_id t))) (tokenizer_order p))
       (\<lambda>es. Inr (special_token_ids p @ concat es))"

definition build_global_vocab :: "pipeline \<Rightarrow> pipeline result" where
  "build_global_vocab p =
     rbind (global_entries p) (\<lambda>es.
       Inr (p\<lparr>global_vocab := Some (dict_of es),
              global_id_to_token := Some (dict_of (map (\<lambda>(s, i). (i, s)) es))\<rparr>))"

definition pipeline_vocab :: "pipeline \<Rightarrow> (string, int) dict" where
  "pipeline_vocab p = (case global_vocab p of None \<Rightarrow> [] | Some v \<Rightarrow> v)"

definition pipeline_id_to_token :: "pipeline \<Rightarrow> (int, string) dict" where
  "pipeline_id_to_token p = (case global_id_to_token p of None \<Rightarrow> [] | Some v \<Rightarrow> v)"

definition fit :: "cudf_lib \<Rightarrow> frame \<Rightarrow> pipeline \<Rightarrow> pipeline result" where
  "fit lib df p =
     rbind (if use_streams p \<and> length (steps p) \<ge> stream_threshold p
            then fit_parallel lib df p else fit_sequential lib df p)
       (\<lambda>p1. rbind (build_global_vocab p1) (\<lambda>p2. Inr (p2\<lparr>is_fitted := True\<rparr>)))"

subsection \<open>transform\<close>

type_synonym token_frame = "(string, string option list) dict"

fun tokenize_on :: "cudf_lib \<Rightarrow> tokenizer \<Rightarrow> col_data \<Rightarrow> string option list result" where
  "tokenize_on lib t (Series c) = tok_tokenize lib t c"
| "tokenize_on lib t (DataFrame f) = Inl (Unsupported ''multi-column tokenize'')"

text \<open>The tokens of one step; under a stream the step's stream is swapped in and restored.\<close>

definition transform_step :: "cudf_lib \<Rightarrow> frame \<Rightarrow> pipeline \<Rightarrow> nat option \<Rightarrow> string
    \<Rightarrow> token_frame \<Rightarrow> token_frame result" where
  "transform_step lib df p stream tok_id acc =
     rbind (dict_lookup (column_specs p) tok_id) (\<lambda>columns.
       rbind (select_columns df columns) (\<lambda>col_data.
         rbind (dict_lookup (steps p) tok_id) (\<lambda>t.
           rbind (tokenize_on lib (case stream of None \<Rightarrow> t | Some s \<Rightarrow> tok_set_stream (Some s) t) col_data)
             (\<lambda>ts. Inr (AList.update tok_id ts acc)))))"

definition transform :: "cudf_lib \<Rightarrow> frame \<Rightarrow> pipeline \<Rightarrow> token_frame result" where
  "transform lib df p =
     (if \<not> is_fitted p then Inl (ValueError ''Must call fit() before transform()'')
      else if use_streams p \<and> length (steps p) \<ge> stream_threshold p
      then rfold (\<lambda>(s, tok_id). transform_step lib df p (Some s) tok_id)
             (zip [0..<length (tokenizer_order p)] (tokenizer_order p)) []
      else rfold (transform_step lib df p None) (tokenizer_order p) [])"

definition fit_transform :: "cudf_lib \<Rightarrow> frame \<Rightarrow> pipeline \<Rightarrow> token_frame result" where
  "fit_transform lib df p = rbind (fit lib df p) (transform lib df)"

end
