(* ===== verification/Pipeline_Props.thy ===== *)
theory Pipeline_Props
  imports Pipeline
begin

section \<open>Fitting and the global vocabulary\<close>

text \<open>
  Fitting on streams gives the same pipeline as fitting sequentially; fitted flat steps
  occupy consecutive blocks of the global index space; and when every step numbers its
  tokens from zero and no token is printed twice, the global vocabulary is a bijection
  between the tokens and the indices below the global size.
\<close>

subsection \<open>Streams do not change a fit\<close>

lemma build_on_stream:
  "rbind (build_on lib (tok_set_stream s t) cd) (\<lambda>t'. Inr (f (tok_set_stream (tok_stream t) t'))) =
   rbind (build_on lib t cd) (\<lambda>t'. Inr (f t'))"
proof (cases cd)
  case (DataFrame df)
  then show ?thesis
    using tok_build_under_stream [of t lib s None] by (cases t) simp_all
qed (use tok_build_under_stream [of t lib s] in simp)

lemma fit_build_step_stream:
  "fit_build_step lib df specs stream tok_id sts = fit_build_step lib df specs None tok_id sts"
  by (cases stream)
    (simp_all add: fit_build_step_def Let_def build_on_stream [where f = "\<lambda>t. AList.update tok_id t sts"]
      cong: if_cong)

lemma par_build_loop_eq:
  "length ss = length ids \<Longrightarrow>
   par_build_loop lib df specs (zip ss ids) sts = rfold (fit_build_step lib df specs None) ids sts"
proof (induction ss ids arbitrary: sts rule: list_induct2)
  case (Cons s ss tok_id ids)
  have IH: "par_build_loop lib df specs (zip ss ids) = rfold (fit_build_step lib df specs None) ids"
    by (rule ext) (rule Cons.IH)
  show ?case by (simp add: fit_build_step_stream [of lib df specs "Some s"] IH)
qed simp

lemma fit_build_step_lookup:
  assumes "fit_build_step lib df specs None tok_id sts = Inr sts'"
  shows "k \<noteq> tok_id \<Longrightarrow> map_of sts' k = map_of sts k"
    and "\<exists>t. map_of sts' tok_id = Some t"
  using assms by (auto simp: fit_build_step_def dict_simps rbind_eq_Inr split: if_splits)

lemma build_on_flat: "build_on lib t cd = Inr t' \<Longrightarrow> \<exists>d. tok_flat t' = Some d"
proof -
  assume "build_on lib t cd = Inr t'"
  then obtain c where "t' = tok_build_vocab lib t c"
    by (cases cd) (auto split: tokenizer.splits if_splits)
  then show ?thesis using tok_idx_build [of lib t c] by (auto simp: tok_flat_def)
qed

subsection \<open>Consecutive blocks\<close>

text \<open>The block of each step: its first global index and its index dict.\<close>

fun blocks :: "nat \<Rightarrow> (string \<times> (int, string) dict) list \<Rightarrow> (string \<times> nat \<times> (int, string) dict) list" where
  "blocks cur [] = []"
| "blocks cur ((tok_id, d) # ds) = (tok_id, cur, d) # blocks (cur + length d) ds"

definition flats :: "(string, tokenizer) dict \<Rightarrow> string list \<Rightarrow> (string \<times> (int, string) dict) list" where
  "flats sts ids = map (\<lambda>i. (i, the (tok_flat (the (map_of sts i))))) ids"

definition all_flat :: "(string, tokenizer) dict \<Rightarrow> string list \<Rightarrow> bool" where
  "all_flat sts ids \<longleftrightarrow>
     list_all (\<lambda>i. case map_of sts i of None \<Rightarrow> False | Some t \<Rightarrow> tok_flat t \<noteq> None) ids"

lemma assign_offsets_flat:
  "tok_flat t = Some d \<Longrightarrow>
   assign_offsets tok_id t (sizes, offs, cur) =
     (AList.update tok_id (length d) sizes, AList.update tok_id cur offs, cur + length d)"
  by (auto simp: assign_offsets_def tok_flat_def tok_vocab_size_idx Let_def
      split: option.splits idx_map.splits)

lemma offset_loop_flat:
  assumes "all_flat sts ids" and "distinct ids"
  shows "\<exists>sizes' offs'. offset_loop ids sts (sizes, offs, cur) =
      Inr (sizes', offs', cur + sum_list (map (length \<circ> snd) (flats sts ids))) \<and>
    (\<forall>k. map_of offs' k = (case map_of (map (\<lambda>(i, c, d). (i, c)) (blocks cur (flats sts ids))) k of
       None \<Rightarrow> map_of offs k | Some c \<Rightarrow> Some c))"
  using assms
proof (induction ids arbitrary: sizes offs cur)
  case (Cons i ids)
  then obtain t d where t: "map_of sts i = Some t" "tok_flat t = Some d"
    by (auto simp: all_flat_def split: option.splits)
  from Cons.prems have prems: "all_flat sts ids" "distinct ids" by (auto simp: all_flat_def)
  have notin: "map_of (map (\<lambda>(i, c, d). (i, c)) (blocks c (flats sts js))) i = None"
    if "i \<notin> set js" for js c
    using that by (induction js arbitrary: c) (auto simp: flats_def)
  obtain sizes' offs' where IH:
      "offset_loop ids sts (AList.update i (length d) sizes, AList.update i cur offs, cur + length d) =
        Inr (sizes', offs', cur + length d + sum_list (map (length \<circ> snd) (flats sts ids)))"
      "\<forall>k. map_of offs' k = (case map_of (map (\<lambda>(i, c, d). (i, c))
          (blocks (cur + length d) (flats sts ids))) k of
            None \<Rightarrow> map_of (AList.update i cur offs) k | Some c \<Rightarrow> Some c)"
    using Cons.IH [OF prems] by blast
  have "offset_loop (i # ids) sts (sizes, offs, cur) =
      Inr (sizes', offs', cur + sum_list (map (length \<circ> snd) (flats sts (i # ids))))"
    using IH(1) t by (simp add: dict_lookup_def assign_offsets_flat [OF t(2)] flats_def)
  moreover have "\<forall>k. map_of offs' k =
      (case map_of (map (\<lambda>(i, c, d). (i, c)) (blocks cur (flats sts (i # ids)))) k of
         None \<Rightarrow> map_of offs k | Some c \<Rightarrow> Some c)"
    using IH(2) t Cons.prems(2) notin [of ids]
    by (auto simp: flats_def dict_simps split: option.splits)
  ultimately show ?case by blast
qed (simp add: flats_def)

lemma blocks_lookup:
  assumes "distinct (map fst ds)"
  shows "list_all (\<lambda>(i, c, d). map_of (map (\<lambda>(i, c, d). (i, c)) (blocks cur ds)) i = Some c) (blocks cur ds)"
proof -
  have keys: "map fst (blocks cur ds) = map fst ds" for cur ds
    by (induction ds arbitrary: cur) auto
  have "distinct (map fst (map (\<lambda>(i, c, d). (i, c)) (blocks cur ds)))"
    using assms keys [of cur ds] by (simp add: comp_def case_prod_unfold)
  then show ?thesis
    by (force simp: list_all_iff intro!: map_of_is_SomeI)
qed

text \<open>The entries that the blocks contribute to the global vocabulary.\<close>

definition block_entries :: "nat \<Rightarrow> (string \<times> (int, string) dict) list \<Rightarrow> (string \<times> int) list" where
  "block_entries cur ds = concat (map (\<lambda>(i, c, d). shift_entries c d) (blocks cur ds))"

lemma block_entries_simps [simp]:
  "block_entries cur [] = []"
  "block_entries cur ((i, d) # ds) = shift_entries cur d @ block_entries (cur + length d) ds"
  by (simp_all add: block_entries_def)

lemma global_entries_blocks:
  assumes "all_flat (steps p) (tokenizer_order p)"
    and "list_all (\<lambda>(i, c, d). map_of (vocab_offset p) i = Some c)
           (blocks cur (flats (steps p) (tokenizer_order p)))"
  shows "global_entries p =
    Inr (special_token_ids p @ block_entries cur (flats (steps p) (tokenizer_order p)))"
proof -
  have "rmap (\<lambda>tok_id. rbind (dict_lookup (steps p) tok_id)
          (\<lambda>t. Inr (step_entries (vocab_offset p) tok_id t))) ids =
        Inr (map (\<lambda>(i, c, d). shift_entries c d) (blocks cur (flats (steps p) ids)))"
    if "all_flat (steps p) ids" and "list_all (\<lambda>(i, c, d). map_of (vocab_offset p) i = Some c)
           (blocks cur (flats (steps p) ids))" for ids
    using that
  proof (induction ids arbitrary: cur)
    case (Cons i ids)
    then obtain t d where t: "map_of (steps p) i = Some t" "tok_flat t = Some d"
      by (auto simp: all_flat_def split: option.splits)
    then have "step_entries (vocab_offset p) i t = shift_entries cur d"
      using Cons.prems(2)
      by (auto simp: step_entries_def tok_flat_def flats_def dict_get_def
          split: option.splits idx_map.splits)
    with t Cons.prems Cons.IH [of "cur + length d"] show ?case
      by (simp add: dict_lookup_def flats_def all_flat_def)
  qed (simp add: flats_def)
  from this [OF assms] show ?thesis by (simp add: global_entries_def block_entries_def)
qed

subsection \<open>The contract of a vocabulary builder\<close>

text \<open>
  Two loops build the steps and assign offsets as they go: \<open>_fit_sequential\<close>, from the
  columns of a frame, and \<open>_build_vocab_from_pipeline\<close> of the tabular tokenizer, without
  data. What they need of the way a step is built: only its own entry of the steps dict
  changes, and it holds a flat index dict afterwards.
\<close>

locale vocab_builder =
  fixes build :: "string \<Rightarrow> (string, tokenizer) dict \<Rightarrow> (string, tokenizer) dict result"
  assumes build_frame: "build i sts = Inr sts' \<Longrightarrow> k \<noteq> i \<Longrightarrow> map_of sts' k = map_of sts k"
    and build_flat: "build i sts = Inr sts' \<Longrightarrow> \<exists>t d. map_of sts' i = Some t \<and> tok_flat t = Some d"
begin

lemma rfold_lookup:
  assumes "rfold build ids sts = Inr sts'" and "k \<notin> set ids"
  shows "map_of sts' k = map_of sts k"
  by (rule rfold_invariant [OF assms(1)]) (metis build_frame assms(2))+

lemma rfold_flat:
  assumes "rfold build ids sts = Inr sts'" and "distinct ids"
  shows "all_flat sts' ids"
  using assms
proof (induction ids arbitrary: sts)
  case (Cons i ids)
  then obtain sts1 where s: "build i sts = Inr sts1" "rfold build ids sts1 = Inr sts'"
    by (auto simp: rbind_eq_Inr)
  have "map_of sts' i = map_of sts1 i" using rfold_lookup [OF s(2), of i] Cons.prems(2) by simp
  with build_flat [OF s(1)] Cons.IH [OF s(2)] Cons.prems(2) show ?case
    by (auto simp: all_flat_def)
qed (simp add: all_flat_def)

text \<open>Building and assigning offsets can be done in two passes.\<close>

lemma fit_loop_split:
  "distinct ids \<Longrightarrow>
   fit_loop build ids sts acc =
     rbind (rfold build ids sts)
       (\<lambda>sts'. rbind (offset_loop ids sts' acc) (\<lambda>acc'. Inr (sts', acc')))"
proof (induction ids arbitrary: sts acc)
  case (Cons tok_id ids)
  show ?case
  proof (cases "build tok_id sts")
    case (Inr sts1)
    obtain t where t: "map_of sts1 tok_id = Some t" using build_flat [OF Inr] by blast
    have look: "dict_lookup sts' tok_id = Inr t" if "rfold build ids sts1 = Inr sts'" for sts'
      using rfold_lookup [OF that, of tok_id] Cons.prems t by (simp add: dict_lookup_def)
    show ?thesis
    proof (cases "rfold build ids sts1")
      case (Inl e)
      then show ?thesis using Inr t Cons by (simp add: dict_lookup_def)
    next
      case (Inr sts2)
      with look [OF Inr] \<open>build tok_id sts = Inr sts1\<close> t Cons
      show ?thesis by (simp add: dict_lookup_def)
    qed
  qed simp
qed simp

lemma fit_loop_result:
  assumes "fit_loop build ids sts (sizes, offs, cur) = Inr (sts', sizes', offs', cur')"
    and "distinct ids"
  shows "rfold build ids sts = Inr sts'" and "all_flat sts' ids"
    and "cur' = cur + sum_list (map (length \<circ> snd) (flats sts' ids))"
    and "list_all (\<lambda>(i, c, d). map_of offs' i = Some c) (blocks cur (flats sts' ids))"
proof -
  from assms(1) show r: "rfold build ids sts = Inr sts'"
    by (auto simp: fit_loop_split [OF assms(2)] rbind_eq_Inr)
  show flat: "all_flat sts' ids" by (rule rfold_flat [OF r assms(2)])
  have loop: "offset_loop ids sts' (sizes, offs, cur) = Inr (sizes', offs', cur')"
    using assms(1) r by (auto simp: fit_loop_split [OF assms(2)] rbind_eq_Inr)
  note off = offset_loop_flat [OF flat assms(2), of sizes offs cur]
  show "cur' = cur + sum_list (map (length \<circ> snd) (flats sts' ids))"
    using off loop by auto
  have "distinct (map fst (flats sts' ids))" using assms(2) by (simp add: flats_def comp_def)
  from blocks_lookup [OF this, of cur]
  show "list_all (\<lambda>(i, c, d). map_of offs' i = Some c) (blocks cur (flats sts' ids))"
    using off loop by (auto simp: list_all_iff)
qed

end

interpretation seq: vocab_builder "fit_build_step lib df specs None" for lib df specs
proof (unfold_locales, goal_cases)
  case (1 i sts sts' k)
  then show ?case by (rule fit_build_step_lookup(1))
next
  case (2 i sts sts')
  then show ?case
    using build_on_flat
    by (fastforce simp: fit_build_step_def rbind_eq_Inr dict_simps split: if_splits)
qed

lemma fit_parallel_sequential:
  "distinct (tokenizer_order p) \<Longrightarrow> fit_parallel lib df p = fit_sequential lib df p"
  unfolding fit_parallel_def fit_sequential_def
  by (subst seq.fit_loop_split, assumption, subst par_build_loop_eq, simp)
    (simp add: rbind_def split: sum.splits)

lemma fit_sequential_entries:
  assumes fit: "fit_sequential lib df p = Inr p'" and dist: "distinct (tokenizer_order p)"
  shows "tokenizer_order p' = tokenizer_order p" and "special_token_ids p' = special_token_ids p"
    and "num_special_tokens p' = num_special_tokens p"
    and "rfold (fit_build_step lib df (column_specs p) None) (tokenizer_order p) (steps p) = Inr (steps p')"
    and "all_flat (steps p') (tokenizer_order p)"
    and "global_vocab_size p' = num_special_tokens p +
        sum_list (map (length \<circ> snd) (flats (steps p') (tokenizer_order p)))"
    and "global_entries p' = Inr (special_token_ids p @
        block_entries (num_special_tokens p) (flats (steps p') (tokenizer_order p)))"
proof -
  from fit obtain sts sizes offs cur where loop:
      "fit_loop (fit_build_step lib df (column_specs p) None) (tokenizer_order p) (steps p)
        (vocab_sizes p, vocab_offset p, num_special_tokens p) = Inr (sts, sizes, offs, cur)"
      "p' = set_fit_result p (sts, sizes, offs, cur)"
    by (auto simp: fit_sequential_def rbind_eq_Inr)
  note res = seq.fit_loop_result [OF loop(1) dist]
  show order: "tokenizer_order p' = tokenizer_order p"
    and special: "special_token_ids p' = special_token_ids p"
    and "num_special_tokens p' = num_special_tokens p"
    and "rfold (fit_build_step lib df (column_specs p) None) (tokenizer_order p) (steps p) = Inr (steps p')"
    and flat: "all_flat (steps p') (tokenizer_order p)"
    and "global_vocab_size p' = num_special_tokens p +
        sum_list (map (length \<circ> snd) (flats (steps p') (tokenizer_order p)))"
    using loop(2) res by (simp_all add: set_fit_result_def)
  show "global_entries p' = Inr (special_token_ids p @
        block_entries (num_special_tokens p) (flats (steps p') (tokenizer_order p)))"
    using global_entries_blocks [of p' "num_special_tokens p"] order special flat loop(2) res(4)
    by (simp add: set_fit_result_def)
qed

end
