(* ===== verification/Vocabulary.thy ===== *)
theory Vocabulary
  imports Pipeline_Props
begin

section \<open>The vocabulary of a fitted pipeline\<close>

text \<open>
  What \<open>fit\<close> leaves behind, and when its vocabulary is right: every step built from its
  column, the token and index dicts as the special tokens followed by the blocks of the
  steps, a bijection when the steps number their tokens from zero, and tokens that never
  fall back to the unknown token.
\<close>

subsection \<open>Built steps\<close>

text \<open>A step over one column is the original step with its vocabulary built from it.\<close>

lemma fit_build_step_value:
  assumes "fit_build_step lib df specs None i sts = Inr sts'"
    and "map_of sts i = Some t" and "map_of specs i = Some [c]" and "map_of df c = Some col"
  shows "map_of sts' i = Some (tok_build_vocab lib t (Some col))"
  using assms by (auto simp: fit_build_step_def dict_lookup_def select_columns_def dict_simps
      split: if_splits)

lemma rfold_build_value:
  assumes "rfold (fit_build_step lib df specs None) ids sts = Inr sts'" and "distinct ids"
    and "i \<in> set ids" and "map_of sts i = Some t" and "map_of specs i = Some [c]"
    and "map_of df c = Some col"
  shows "map_of sts' i = Some (tok_build_vocab lib t (Some col))"
  using assms(1-4)
proof (induction ids arbitrary: sts)
  case (Cons j ids)
  then obtain sts1 where s: "fit_build_step lib df specs None j sts = Inr sts1"
      "rfold (fit_build_step lib df specs None) ids sts1 = Inr sts'"
    by (auto simp: rbind_eq_Inr)
  show ?case
  proof (cases "i = j")
    case True
    with fit_build_step_value [OF s(1)] Cons.prems assms(5,6)
    have "map_of sts1 i = Some (tok_build_vocab lib t (Some col))" by simp
    then show ?thesis using seq.rfold_lookup [OF s(2), of i] Cons.prems(2) True by simp
  next
    case False
    with seq.build_frame [OF s(1), of i] Cons.prems have "map_of sts1 i = Some t" by simp
    with Cons.IH [OF s(2)] Cons.prems False show ?thesis by simp
  qed
qed simp

lemma fit_eq_sequential:
  "distinct (tokenizer_order p) \<Longrightarrow>
   fit lib df p = rbind (fit_sequential lib df p)
     (\<lambda>p1. rbind (build_global_vocab p1) (\<lambda>p2. Inr (p2\<lparr>is_fitted := True\<rparr>)))"
  by (simp add: fit_def fit_parallel_sequential)

definition fit_entries :: "pipeline \<Rightarrow> pipeline \<Rightarrow> (string \<times> int) list" where
  "fit_entries p p' = special_token_ids p @
     block_entries (num_special_tokens p) (flats (steps p') (tokenizer_order p))"

lemma fit_result:
  assumes "fit lib df p = Inr p'" and "distinct (tokenizer_order p)"
  shows "rfold (fit_build_step lib df (column_specs p) None) (tokenizer_order p) (steps p) = Inr (steps p')"
    and "all_flat (steps p') (tokenizer_order p)"
    and "global_vocab_size p' = num_special_tokens p +
      sum_list (map (length \<circ> snd) (flats (steps p') (tokenizer_order p)))"
    and "pipeline_vocab p' = dict_of (fit_entries p p')"
    and "pipeline_id_to_token p' = dict_of (map (\<lambda>(s, i). (i, s)) (fit_entries p p'))"
    and "is_fitted p'" and "tokenizer_order p' = tokenizer_order p" and "column_specs p' = column_specs p"
proof -
  from assms obtain p1 es where p1: "fit_sequential lib df p = Inr p1" "global_entries p1 = Inr es"
      "p' = p1\<lparr>global_vocab := Some (dict_of es),
               global_id_to_token := Some (dict_of (map (\<lambda>(s, i). (i, s)) es)), is_fitted := True\<rparr>"
    by (auto simp: fit_eq_sequential rbind_eq_Inr build_global_vocab_def)
  note seq = fit_sequential_entries [OF p1(1) assms(2)]
  have st: "steps p' = steps p1" by (simp add: p1(3))
  show build: "rfold (fit_build_step lib df (column_specs p) None) (tokenizer_order p) (steps p) = Inr (steps p')"
    using seq(4) st by simp
  show flat: "all_flat (steps p') (tokenizer_order p)"
    by (rule seq.rfold_flat [OF build assms(2)])
  with seq(6,7) st p1(2) have es: "es = fit_entries p p'"
    and size: "global_vocab_size p1 = num_special_tokens p +
      sum_list (map (length \<circ> snd) (flats (steps p') (tokenizer_order p)))"
    by (simp_all add: fit_entries_def)
  show "global_vocab_size p' = num_special_tokens p +
      sum_list (map (length \<circ> snd) (flats (steps p') (tokenizer_order p)))"
    using size by (simp add: p1(3))
  show "pipeline_vocab p' = dict_of (fit_entries p p')"
    unfolding es [symmetric] by (simp add: pipeline_vocab_def p1(3))
  show "pipeline_id_to_token p' = dict_of (map (\<lambda>(s, i). (i, s)) (fit_entries p p'))"
    unfolding es [symmetric] by (simp add: pipeline_id_to_token_def p1(3))
  show "is_fitted p'" by (simp add: p1(3))
  show "tokenizer_order p' = tokenizer_order p" using seq(1) by (simp add: p1(3))
  show "column_specs p' = column_specs p"
    using p1(1) by (auto simp: p1(3) fit_sequential_def set_fit_result_def rbind_eq_Inr split: prod.splits)
qed

subsection \<open>Steps that number their tokens from zero\<close>

definition zero_based :: "(int, string) dict \<Rightarrow> bool" where
  "zero_based d \<longleftrightarrow> map fst d = map int [0..<length d]"

lemma map_snd_shift: "map snd (shift_entries c d) = map (\<lambda>i. i + int c) (map fst d)"
  by (simp add: shift_entries_def comp_def case_prod_unfold)

lemma map_fst_shift: "map fst (shift_entries c d) = map snd d"
  by (simp add: shift_entries_def comp_def case_prod_unfold)

lemma length_shift [simp]: "length (shift_entries c d) = length d"
  by (simp add: shift_entries_def)

lemma upt_shift: "map (\<lambda>i. int i + int c) [0..<n] = map int [c..<c + n]"
  by (rule nth_equalityI) auto

lemma block_entries_ids:
  "list_all (\<lambda>(i, d). zero_based d) ds \<Longrightarrow>
   map snd (block_entries cur ds) = map int [cur..<cur + sum_list (map (length \<circ> snd) ds)]"
proof (induction ds arbitrary: cur)
  case (Cons x ds)
  obtain i d where x: "x = (i, d)" by (cases x)
  have "map snd (shift_entries cur d) = map int [cur..<cur + length d]"
    using Cons.prems x by (simp add: map_snd_shift zero_based_def comp_def upt_shift)
  moreover have "map int [cur..<cur + (length d + k)] =
      map int [cur..<cur + length d] @ map int [cur + length d..<cur + length d + k]" for k
    by (simp only: map_append [symmetric] add.assoc [symmetric])
      (simp only: upt_add_eq_append [OF le_add1])
  ultimately show ?case
    using Cons x by (simp add: add.assoc)
qed simp

lemma dict_bijection:
  assumes "distinct (map fst es)" and "map snd es = map int [0..<n]"
  shows "map_of (dict_of es) s = Some i \<longleftrightarrow>
         map_of (dict_of (map (\<lambda>(s, i). (i, s)) es)) i = Some s"
    and "length (dict_of es) = n"
    and "snd ` set (dict_of es) = {0..<int n}"
proof -
  have d2: "distinct (map snd es)" by (simp add: assms(2) distinct_map inj_on_def)
  have e: "dict_of es = es" using assms(1) by (rule dict_of_distinct)
  have e2: "dict_of (map (\<lambda>(s, i). (i, s)) es) = map (\<lambda>(s, i). (i, s)) es"
    by (rule dict_of_distinct) (simp add: comp_def case_prod_unfold d2)
  show "map_of (dict_of es) s = Some i \<longleftrightarrow>
         map_of (dict_of (map (\<lambda>(s, i). (i, s)) es)) i = Some s"
    unfolding e e2 using map_of_swap [OF d2 assms(1), of i s] by simp
  show "length (dict_of es) = n"
    using arg_cong [OF assms(2), of length] by (simp add: e)
  have "snd ` set es = set (map snd es)" by simp
  also have "\<dots> = {0..<int n}"
    unfolding assms(2) by (simp add: image_int_atLeastLessThan)
  finally show "snd ` set (dict_of es) = {0..<int n}" by (simp add: e)
qed

text \<open>All the tokens of a fitted pipeline, special tokens first.\<close>

definition all_tokens :: "pipeline \<Rightarrow> pipeline \<Rightarrow> string list" where
  "all_tokens p p' = map fst (special_token_ids p) @
     concat (map (\<lambda>(i, d). map snd d) (flats (steps p') (tokenizer_order p)))"

lemma fit_entries_tokens: "map fst (fit_entries p p') = all_tokens p p'"
proof -
  have "map fst (block_entries cur ds) = concat (map (\<lambda>(i, d). map snd d) ds)" for cur ds
    by (induction ds arbitrary: cur) (auto simp: map_fst_shift)
  then show ?thesis by (simp add: fit_entries_def all_tokens_def)
qed

subsection \<open>Tokens are in the vocabulary\<close>

lemma step_token_in_entries:
  assumes "i \<in> set (tokenizer_order p)" and "map_of (steps p') i = Some t" and "tok_flat t = Some d"
    and "s \<in> snd ` set d"
  shows "s \<in> fst ` set (fit_entries p p')"
proof -
  have "(i, d) \<in> set (flats (steps p') (tokenizer_order p))"
    using assms(1-3) by (auto simp: flats_def image_iff)
  then have "map snd d \<in> set (map (\<lambda>(i, d). map snd d) (flats (steps p') (tokenizer_order p)))"
    by (simp add: rev_image_eqI)
  moreover have "s \<in> set (map snd d)" using assms(4) by simp
  ultimately have "s \<in> set (all_tokens p p')"
    unfolding all_tokens_def set_append set_concat by blast
  then show ?thesis by (simp add: fit_entries_tokens [symmetric])
qed

lemma fitted_token_has_id:
  assumes "fit lib df p = Inr p'" and "distinct (tokenizer_order p)"
    and "i \<in> set (tokenizer_order p)" and "map_of (steps p') i = Some t" and "tok_flat t = Some d"
    and "s \<in> snd ` set d"
  shows "\<exists>gid. map_of (pipeline_vocab p') s = Some gid"
proof -
  have "s \<in> fst ` set (dict_of (fit_entries p p'))"
    using step_token_in_entries [OF assms(3-6)] keys_dict_update [of "fit_entries p p'" "[]"] by auto
  then show ?thesis
    using fit_result(4) [OF assms(1,2)]
    by (metis map_of_eq_None_iff option.exhaust)
qed

end
