(* ===== verification/Pipeline_Encode.thy ===== *)
theory Pipeline_Encode
  imports Vocabulary
begin

section \<open>Encoding and corpus generation\<close>

text \<open>
  Models \<open>encode\<close> and \<open>to_corpus_lines\<close> of \<open>pipeline.py\<close>. The padded array is a list of
  rows that the column loop writes column by column, as the numpy slices do; the proofs
  turn it into the row-by-row description of the docstring.
\<close>

subsection \<open>encode\<close>

text \<open>\<open>padded[:, j] = vs\<close>.\<close>

definition set_col :: "nat \<Rightarrow> 'a list \<Rightarrow> 'a list list \<Rightarrow> 'a list list" where
  "set_col j vs m = map2 (\<lambda>row v. row[j := v]) m vs"

text \<open>\<open>host_col.map(vocab).fillna(unk_id)\<close> for one cell.\<close>

definition token_id :: "(string, int) dict \<Rightarrow> int \<Rightarrow> string option \<Rightarrow> int" where
  "token_id v unk w = (case w of None \<Rightarrow> unk | Some s \<Rightarrow> dict_get v s unk)"

fun encode_cols :: "(string, int) dict \<Rightarrow> int \<Rightarrow> nat \<Rightarrow> token_frame \<Rightarrow> nat \<Rightarrow> int list list
    \<Rightarrow> int list list \<times> nat" where
  "encode_cols v unk max_length [] off m = (m, off)"
| "encode_cols v unk max_length ((name, col) # cols) off m =
     (if off \<ge> max_length then (m, off)
      else encode_cols v unk max_length cols (off + 1) (set_col off (map (token_id v unk) col) m))"

definition frame_len :: "token_frame \<Rightarrow> nat" where
  "frame_len f = (case f of [] \<Rightarrow> 0 | (name, col) # _ \<Rightarrow> length col)"

definition pipeline_encode :: "pipeline \<Rightarrow> token_frame \<Rightarrow> nat \<Rightarrow> bool \<Rightarrow> int list list result" where
  "pipeline_encode p token_df max_length add_special =
     rbind (dict_lookup (special_token_ids p) ''<pad>'') (\<lambda>pad_id.
     rbind (dict_lookup (special_token_ids p) ''<bos>'') (\<lambda>bos_id.
     rbind (dict_lookup (special_token_ids p) ''<eos>'') (\<lambda>eos_id.
     rbind (dict_lookup (special_token_ids p) ''<unk>'') (\<lambda>unk_id.
       let padded = replicate (frame_len token_df) (replicate max_length pad_id)
       in if add_special \<and> max_length = 0 then Inl IndexError
          else
            (let (m0, off0) = (if add_special then (map (\<lambda>r. r[0 := bos_id]) padded, 1) else (padded, 0))
             in case global_vocab p of
                  None \<Rightarrow>
                    if token_df \<noteq> [] \<and> off0 < max_length then Inl (TypeError ''map(None)'')
                    else Inr (if add_special \<and> off0 < max_length
                              then map (\<lambda>r. r[off0 := eos_id]) m0 else m0)
                | Some v \<Rightarrow>
                    (let (m1, off1) = encode_cols v unk_id max_length token_df off0 m0
                     in Inr (if add_special \<and> off1 < max_length
                             then map (\<lambda>r. r[off1 := eos_id]) m1 else m1)))))))"

subsection \<open>Rows of the encoded array\<close>

fun put_row :: "nat \<Rightarrow> 'a list \<Rightarrow> nat \<Rightarrow> 'a list \<Rightarrow> 'a list" where
  "put_row L [] off r = r"
| "put_row L (x # xs) off r = (if off \<ge> L then r else put_row L xs (off + 1) (r[off := x]))"

lemma list_update_pad:
  "length pre = off \<Longrightarrow> off < L \<Longrightarrow>
   (pre @ replicate (L - off) pad)[off := x] = (pre @ [x]) @ replicate (L - (off + 1)) pad"
proof -
  assume a: "length pre = off" "off < L"
  then have "L - off = Suc (L - (off + 1))" by simp
  then show ?thesis using a(1) by (simp add: list_update_append)
qed

lemma put_row_pad:
  "length pre = off \<Longrightarrow> off \<le> L \<Longrightarrow>
   put_row L xs off (pre @ replicate (L - off) pad) =
     take L (pre @ xs) @ replicate (L - (off + length xs)) pad"
proof (induction xs arbitrary: off pre)
  case (Cons x xs)
  show ?case
  proof (cases "off \<ge> L")
    case False
    then have "put_row L (x # xs) off (pre @ replicate (L - off) pad) =
        put_row L xs (off + 1) ((pre @ [x]) @ replicate (L - (off + 1)) pad)"
      using Cons.prems list_update_pad [of pre off L pad x] by simp
    also have "\<dots> = take L ((pre @ [x]) @ xs) @ replicate (L - (off + 1 + length xs)) pad"
      using Cons.prems False by (intro Cons.IH) simp_all
    finally show ?thesis by simp
  qed (use Cons.prems in simp)
qed simp

lemma encode_cols_off:
  "snd (encode_cols v unk L cols off m) = (if off \<le> L then min L (off + length cols) else off)"
  by (induction v unk L cols off m rule: encode_cols.induct) auto

lemma encode_cols_len:
  "list_all (\<lambda>(nm, col). length col = length m) cols \<Longrightarrow>
   length (fst (encode_cols v unk L cols off m)) = length m"
  by (induction v unk L cols off m rule: encode_cols.induct) (auto simp: set_col_def)

lemma encode_cols_row:
  "list_all (\<lambda>(nm, col). length col = length m) cols \<Longrightarrow> i < length m \<Longrightarrow>
   fst (encode_cols v unk L cols off m) ! i =
     put_row L (map (\<lambda>(nm, col). token_id v unk (col ! i)) cols) off (m ! i)"
proof (induction v unk L cols off m rule: encode_cols.induct)
  case (2 v unk L name col cols off m)
  then show ?case by (auto simp: set_col_def)
qed simp

text \<open>The ids of one row of a token frame.\<close>

definition row_ids :: "(string, int) dict \<Rightarrow> int \<Rightarrow> token_frame \<Rightarrow> nat \<Rightarrow> int list" where
  "row_ids v unk f i = map (\<lambda>(nm, col). token_id v unk (col ! i)) f"

definition rectangular :: "token_frame \<Rightarrow> bool" where
  "rectangular f \<longleftrightarrow> list_all (\<lambda>(nm, col). length col = frame_len f) f"

lemma take_pad: "take L (xs @ [e] @ replicate L p) =
    (if length xs < L then (take L xs @ replicate (L - length xs) p)[length xs := e] else take L xs)"
proof (cases "length xs < L")
  case True
  then obtain k where k: "L - length xs = Suc k" by (cases "L - length xs") auto
  with True show ?thesis by (simp add: list_update_append min_def)
qed simp

lemma take_L_pad: "take L xs @ replicate (L - length xs) p = take L (xs @ replicate L p)"
  by (simp add: min_def)

lemma encode_rows:
  assumes "special_token_ids p = enumerate_ids [''<pad>'', ''<bos>'', ''<eos>'', ''<sep>'', ''<unk>'']"
    and "global_vocab p = Some v" and "rectangular f" and "0 < L"
  shows "pipeline_encode p f L True =
    Inr (map (\<lambda>i. take L (1 # row_ids v 4 f i @ [2] @ replicate L 0)) [0..<frame_len f])"
proof -
  have ids: "dict_lookup (special_token_ids p) ''<pad>'' = Inr 0" "dict_lookup (special_token_ids p) ''<bos>'' = Inr 1"
    "dict_lookup (special_token_ids p) ''<eos>'' = Inr 2" "dict_lookup (special_token_ids p) ''<unk>'' = Inr 4"
    unfolding assms(1) enumerate_ids_def dict_lookup_def by code_simp+
  let ?m0 = "map (\<lambda>r. r[0 := 1]) (replicate (frame_len f) (replicate L (0::int)))"
  obtain m1 off1 where e: "encode_cols v 4 L f 1 ?m0 = (m1, off1)" by (cases "encode_cols v 4 L f 1 ?m0")
  have len: "list_all (\<lambda>(nm, col). length col = length ?m0) f"
    using assms(3) by (simp add: rectangular_def)
  have m1: "length m1 = frame_len f" using encode_cols_len [OF len, of v 4 L 1] e by simp
  have off: "off1 = min L (1 + length f)" using encode_cols_off [of v 4 L f 1 ?m0] e assms(4) by simp
  obtain L' where L: "L = Suc L'" using assms(4) by (cases L) auto
  have row: "m1 ! i = take L (1 # row_ids v 4 f i) @ replicate (L - length (1 # row_ids v 4 f i)) 0"
    if "i < frame_len f" for i
    using encode_cols_row [OF len, of i v 4 L 1] e that
      put_row_pad [of "[1]" 1 L "row_ids v 4 f i" 0] assms(4)
    by (simp add: row_ids_def L)
  have lenrow: "length (row_ids v 4 f i) = length f" for i by (simp add: row_ids_def)
  have "(if off1 < L then map (\<lambda>r. r[off1 := 2]) m1 else m1) =
      map (\<lambda>i. take L ((1 # row_ids v 4 f i) @ [2] @ replicate L 0)) [0..<frame_len f]"
  proof (rule nth_equalityI)
    fix i assume "i < length (if off1 < L then map (\<lambda>r. r[off1 := 2]) m1 else m1)"
    then have i: "i < frame_len f" using m1 by (simp split: if_splits)
    have "(if off1 < L then map (\<lambda>r. r[off1 := 2]) m1 else m1) ! i =
        (if off1 < L then (m1 ! i)[off1 := 2] else m1 ! i)" using i m1 by simp
    also have "\<dots> = take L ((1 # row_ids v 4 f i) @ [2] @ replicate L 0)"
      unfolding take_pad row [OF i] by (auto simp: off lenrow)
    finally show "(if off1 < L then map (\<lambda>r. r[off1 := 2]) m1 else m1) ! i =
        map (\<lambda>i. take L ((1 # row_ids v 4 f i) @ [2] @ replicate L 0)) [0..<frame_len f] ! i"
      using i by simp
  qed (simp add: m1)
  then show ?thesis using assms(2,4) e by (simp add: pipeline_encode_def ids)
qed

subsection \<open>to\_corpus\_lines\<close>

text \<open>
  The group key of each row is given as a list; \<open>gorder\<close> is the order in which cuDF's
  \<open>groupby\<close> returns the groups (unspecified for \<open>sort=False\<close>).
\<close>

definition cumcount :: "'k list \<Rightarrow> nat list" where
  "cumcount ks = map (\<lambda>i. count_list (take i ks) (ks ! i)) [0..<length ks]"

definition txn_texts :: "token_frame \<Rightarrow> string option list" where
  "txn_texts f = map (\<lambda>i. let cells = map (\<lambda>(nm, col). col ! i) f
                           in if None \<in> set cells then None else Some (py_join '' '' (map the cells)))
                      [0..<frame_len f]"

definition fmt_line :: "string option list \<Rightarrow> string result" where
  "fmt_line txns =
     (if None \<in> set txns then Inl (TypeError ''join'')
      else Inr (''<bos> '' @ py_join '' <sep> '' (map the txns) @ '' <eos>''))"

definition group_rows :: "'g list \<Rightarrow> 'a list \<Rightarrow> 'g \<Rightarrow> 'a list" where
  "group_rows gs xs g = map snd (filter (\<lambda>(h, x). h = g) (zip gs xs))"

definition to_corpus_lines ::
    "(('k \<times> nat) list \<Rightarrow> ('k \<times> nat) list) \<Rightarrow> token_frame \<Rightarrow> 'k list \<Rightarrow> nat \<Rightarrow> string list result" where
  "to_corpus_lines gorder token_df keys chunk_size =
     (if token_df = [] then Inl IndexError
      else
        (let txn_text = txn_texts token_df;
             seq_id = cumcount keys;
             chunk_id = map (\<lambda>s. s div chunk_size) seq_id;
             gs = zip keys chunk_id
         in rmap (\<lambda>g. fmt_line (group_rows gs txn_text g)) (gorder (py_unique gs))))"

text \<open>Chunk \<open>c\<close> of key \<open>k\<close> holds the rows of \<open>k\<close> from \<open>c * n\<close> on, at most \<open>n\<close>, in order.\<close>

lemma cumcount_snoc: "cumcount (ks @ [k]) = cumcount ks @ [count_list ks k]"
  by (simp add: cumcount_def nth_append)

lemma length_cumcount [simp]: "length (cumcount ks) = length ks"
  by (simp add: cumcount_def)

lemma group_rows_snoc:
  "length gs = length xs \<Longrightarrow>
   group_rows (gs @ [g']) (xs @ [x]) g = group_rows gs xs g @ (if g' = g then [x] else [])"
  by (simp add: group_rows_def)

lemma length_group_rows: "length ks = length xs \<Longrightarrow> length (group_rows ks xs k) = count_list ks k"
  by (induction ks xs rule: list_induct2) (auto simp: group_rows_def)

lemma take_drop_snoc:
  "take n (drop m (xs @ [x])) =
   take n (drop m xs) @ (if m \<le> length xs \<and> length xs < m + n then [x] else [])"
  by (auto simp: min_def)

lemma div_eq_iff_range: "0 < (n::nat) \<Longrightarrow> a div n = c \<longleftrightarrow> c * n \<le> a \<and> a < c * n + n"
  by (metis add.commute div_nat_eqI dividend_less_div_times mult.commute mult_Suc times_div_less_eq_dividend)

lemma group_rows_chunk:
  assumes "length ks = length xs" and "0 < n"
  shows "group_rows (zip ks (map (\<lambda>s. s div n) (cumcount ks))) xs (k, c) =
    take n (drop (c * n) (group_rows ks xs k))"
  using assms(1)
proof (induction xs arbitrary: ks rule: rev_induct)
  case Nil
  then show ?case by (simp add: group_rows_def)
next
  case (snoc x xs)
  then obtain ks' k' where ks: "ks = ks' @ [k']" "length ks' = length xs"
    by (cases ks rule: rev_cases) auto
  let ?R = "group_rows ks' xs k"
  have "zip ks (map (\<lambda>s. s div n) (cumcount ks)) =
      zip ks' (map (\<lambda>s. s div n) (cumcount ks')) @ [(k', count_list ks' k' div n)]"
    by (simp add: ks cumcount_snoc)
  then have "group_rows (zip ks (map (\<lambda>s. s div n) (cumcount ks))) (xs @ [x]) (k, c) =
      take n (drop (c * n) ?R) @ (if k' = k \<and> count_list ks' k' div n = c then [x] else [])"
    using snoc.IH [OF ks(2)] ks(2) by (simp add: group_rows_snoc)
  moreover have "length ?R = count_list ks' k" by (rule length_group_rows [OF ks(2)])
  ultimately show ?case
    using ks assms(2) by (auto simp: group_rows_snoc take_drop_snoc div_eq_iff_range simp del: take_append drop_append)
qed

text \<open>Every row is in exactly one group.\<close>

lemma group_rows_partition:
  assumes "length gs = length xs" and "distinct order" and "set order = set gs"
  shows "mset (concat (map (group_rows gs xs) order)) = mset xs"
proof -
  have "mset (concat (map (group_rows gs xs) hs)) =
      mset (map snd (filter (\<lambda>(h, x). h \<in> set hs) (zip gs xs)))" if "distinct hs" for hs
    using that
  proof (induction hs)
    case (Cons h hs)
    have "mset (filter (\<lambda>(g, x). g \<in> set (h # hs)) zs) =
        mset (filter (\<lambda>(g, x). g = h) zs) + mset (filter (\<lambda>(g, x). g \<in> set hs) zs)" for zs
      using Cons.prems by (induction zs) auto
    note split = this [of "zip gs xs"]
    have "mset (concat (map (group_rows gs xs) (h # hs))) =
        image_mset snd (mset (filter (\<lambda>(g, x). g = h) (zip gs xs)) +
          mset (filter (\<lambda>(g, x). g \<in> set hs) (zip gs xs)))"
      using Cons by (simp add: group_rows_def [of gs xs h])
    then show ?case unfolding split [symmetric] by simp
  qed simp
  from this [OF assms(2)] have "mset (concat (map (group_rows gs xs) order)) =
      mset (map snd (filter (\<lambda>(h, x). h \<in> set order) (zip gs xs)))" .
  moreover have "filter (\<lambda>(h, x). h \<in> set order) (zip gs xs) = zip gs xs"
    unfolding assms(3) by (rule filter_True) (auto dest: set_zip_leftD)
  ultimately show ?thesis using assms(1) by simp
qed

end
