(* ===== verification/Financial.thy ===== *)
theory Financial
  imports Pipeline_Encode
begin

section \<open>The financial pipeline and its tabular tokenizer\<close>

text \<open>
  Models \<open>tfm_repo/src/tokenizer/financial_pipeline.py\<close> (the static tables and
  \<open>_configure_steps\<close>) and \<open>financial_tokenizer.py\<close> (\<open>FinancialTabularTokenizer\<close>: the
  vocabulary built without data, \<open>encode\<close> and \<open>decode\<close>).
\<close>

subsection \<open>Static definitions\<close>

definition KNOWN_MCCS :: "int list" where
  "KNOWN_MCCS = [
    -1, 1711, 3000, 3001, 3005, 3006, 3007, 3008, 3009, 3058, 3066,
    3075, 3132, 3144, 3174, 3256, 3260, 3359, 3387, 3389, 3390, 3393,
    3395, 3405, 3504, 3509, 3596, 3640, 3684, 3722, 3730, 3771, 3775,
    3780, 4111, 4112, 4121, 4131, 4214, 4411, 4511, 4722, 4784, 4814,
    4829, 4899, 4900, 5045, 5094, 5192, 5193, 5211, 5251, 5261, 5300,
    5310, 5311, 5411, 5499, 5533, 5541, 5621, 5651, 5655, 5661, 5712,
    5719, 5722, 5732, 5733, 5812, 5813, 5814, 5815, 5816, 5912, 5921,
    5932, 5941, 5942, 5947, 5970, 5977, 6300, 7011, 7210, 7230, 7276,
    7349, 7393, 7531, 7538, 7542, 7549, 7801, 7802, 7832, 7922, 7995,
    7996, 8011, 8021, 8041, 8043, 8049, 8062, 8099, 8111, 8931, 9402]"

definition INDUSTRY_RANGES :: "(int \<times> int \<times> string) list" where
  "INDUSTRY_RANGES = [
    (0, 1499, ''AGRICULTURAL''),
    (1500, 2999, ''CONTRACTED''),
    (3000, 3299, ''AIRLINES''),
    (3300, 3499, ''CAR_RENTAL''),
    (3500, 3999, ''LODGING''),
    (4000, 4799, ''TRANSPORTATION''),
    (4800, 4999, ''UTILITIES''),
    (5000, 5599, ''RETAIL''),
    (5600, 5699, ''CLOTHING''),
    (5700, 7299, ''MISC_STORES''),
    (7300, 7999, ''BUSINESS''),
    (8000, 8999, ''PROFESSIONAL''),
    (9000, 9999, ''GOVERNMENT'')]"

definition CHIP_MAPPING :: "(key, string) dict" where
  "CHIP_MAPPING = [
    (KStr ''SWIPE TRANSACTION'', ''SWIPE''),
    (KStr ''CHIP TRANSACTION'', ''CHIP''),
    (KStr ''ONLINE TRANSACTION'', ''ONLINE'')]"

definition ALL_STATES :: "string list" where
  "ALL_STATES = [
    ''AL'', ''AK'', ''AZ'', ''AR'', ''CA'', ''CO'', ''CT'', ''DE'', ''FL'', ''GA'',
    ''HI'', ''ID'', ''IL'', ''IN'', ''IA'', ''KS'', ''KY'', ''LA'', ''ME'', ''MD'',
    ''MA'', ''MI'', ''MN'', ''MS'', ''MO'', ''MT'', ''NE'', ''NV'', ''NH'', ''NJ'',
    ''NM'', ''NY'', ''NC'', ''ND'', ''OH'', ''OK'', ''OR'', ''PA'', ''RI'', ''SC'',
    ''SD'', ''TN'', ''TX'', ''UT'', ''VT'', ''VA'', ''WA'', ''WV'', ''WI'', ''WY'',
    ''DC'', ''PR'', ''VI'', ''GU'', ''AS'', ''MP'', ''XX'', ''ONLINE'']"

subsection \<open>FinancialTokenizerPipeline\<close>

definition configure_steps ::
    "cudf_lib \<Rightarrow> nat \<Rightarrow> string \<Rightarrow> nat \<Rightarrow> bool \<Rightarrow> nat \<Rightarrow> pipeline \<Rightarrow> pipeline" where
  "configure_steps lib merchant_hash_size amount_strategy amount_bins include_time_delta time_delta_bins p0 =
     (let p1 = (if amount_strategy = ''fixed''
                then add_step (OneCol ''amt_val'') (TFixed (fixed_init ''AMT'' 0 6 0 None)) p0
                else add_step (OneCol ''amt_val'')
                       (TNumerical (numerical_init ''AMT'' amount_bins amount_strategy None)) p0);
          p2 = add_step (OneCol ''merch_hash'') (THash (hash_init merchant_hash_size ''MERCH'' None)) p1;
          p3 = add_step (OneCol ''mcc_int'')
                 (TMapping (mapping_init ''CAT'' None None (Some INDUSTRY_RANGES) ''GENERAL'' None)) p2;
          p4 = add_step (OneCol ''mcc_str'')
                 (TMapping (mapping_init ''MCC'' None (Some (map (\<lambda>m. KStr (str_of_int m)) KNOWN_MCCS))
                    None ''-1'' None)) p3;
          p5 = add_step (OneCol ''hour'') (TFixed (fixed_init ''HOUR'' 0 23 2 None)) p4;
          p6 = add_step (OneCol ''dow'') (TFixed (fixed_init ''DOW'' 0 6 0 None)) p5;
          p7 = add_step (OneCol ''month'') (TFixed (fixed_init ''MONTH'' 1 12 2 None)) p6;
          p8 = add_step (OneCol ''card'') (TFixed (fixed_init ''CARD'' 0 9 0 None)) p7;
          p9 = add_step (OneCol ''chip_upper'')
                 (TMapping (mapping_init ''CHIP'' (Some CHIP_MAPPING) None None ''UNK'' None)) p8;
          p10 = add_step (OneCol ''zip3'') (TFixed (fixed_init ''ZIP3'' 0 999 3 None)) p9;
          p11 = add_step (OneCol ''state_clean'')
                 (TMapping (mapping_init ''STATE'' None (Some (map KStr ALL_STATES)) None ''XX'' None)) p10;
          p12 = add_step (OneCol ''cust'') (TFixed (fixed_init ''CUST'' 0 2999 0 None)) p11
      in if include_time_delta
         then add_step (OneCol ''time_delta_s'') (TTime (timedelta_init lib time_delta_bins ''TDIF'' 10 None)) p12
         else p12)"

definition financial_pipeline ::
    "cudf_lib \<Rightarrow> nat \<Rightarrow> string \<Rightarrow> nat \<Rightarrow> bool \<Rightarrow> nat \<Rightarrow> (string, string) dict option \<Rightarrow> bool \<Rightarrow> nat \<Rightarrow> pipeline" where
  "financial_pipeline lib merchant_hash_size amount_strategy amount_bins include_time_delta
     time_delta_bins special streams threshold =
     configure_steps lib merchant_hash_size amount_strategy amount_bins include_time_delta time_delta_bins
       (pipeline_init special streams threshold)"

subsection \<open>FinancialTabularTokenizer\<close>

record tabular_tokenizer =
  tt_pipeline :: pipeline
  tt_vocab :: "(string, int) dict"
  tt_id_to_token :: "(int, string) dict"
  pad_token_id :: int
  bos_token_id :: int
  eos_token_id :: int
  sep_token_id :: int
  unk_token_id :: int

text \<open>\<open>tokenizer.build_vocab()\<close>, with no column.\<close>

definition dummy_build ::
    "cudf_lib \<Rightarrow> string \<Rightarrow> (string, tokenizer) dict \<Rightarrow> (string, tokenizer) dict result" where
  "dummy_build lib tok_id sts =
     rbind (dict_lookup sts tok_id) (\<lambda>t. Inr (AList.update tok_id (tok_build_vocab lib t None) sts))"

definition build_vocab_from_pipeline :: "cudf_lib \<Rightarrow> pipeline \<Rightarrow> pipeline result" where
  "build_vocab_from_pipeline lib p =
     rbind (fit_loop (dummy_build lib) (tokenizer_order p) (steps p)
              (vocab_sizes p, vocab_offset p, num_special_tokens p))
       (\<lambda>r. build_global_vocab ((set_fit_result p r)\<lparr>is_fitted := True\<rparr>))"

text \<open>
  The constructor. Its pipeline takes the default bins, special tokens and streams: the
  parameters \<open>amount_bins\<close> and \<open>special_tokens\<close> of the constructor are not passed on.
\<close>

definition tabular_init :: "cudf_lib \<Rightarrow> nat \<Rightarrow> string \<Rightarrow> bool \<Rightarrow> tabular_tokenizer result" where
  "tabular_init lib merchant_hash_size amount_strategy include_time_delta =
     rbind (build_vocab_from_pipeline lib
              (financial_pipeline lib merchant_hash_size amount_strategy 10 include_time_delta 32 None True 5))
       (\<lambda>p. let v = pipeline_vocab p
            in Inr \<lparr>tt_pipeline = p, tt_vocab = v, tt_id_to_token = pipeline_id_to_token p,
                    pad_token_id = dict_get v ''<pad>'' 0, bos_token_id = dict_get v ''<bos>'' 1,
                    eos_token_id = dict_get v ''<eos>'' 2, sep_token_id = dict_get v ''<sep>'' 3,
                    unk_token_id = dict_get v ''<unk>'' 4\<rparr>)"

definition tabular_vocab_size :: "tabular_tokenizer \<Rightarrow> nat" where
  "tabular_vocab_size tt = length (tt_vocab tt)"

text \<open>A \<open>max_length\<close> of \<open>None\<close> or 0 is falsy: no truncation and no padding.\<close>

definition tabular_encode :: "tabular_tokenizer \<Rightarrow> string \<Rightarrow> nat option \<Rightarrow> int list" where
  "tabular_encode tt text max_length =
     (let tokens = py_split text;
          tokens' = (case max_length of
                       Some (Suc m) \<Rightarrow>
                         (let ts = take (Suc m) tokens in ts @ replicate (Suc m - length ts) ''<pad>'')
                     | _ \<Rightarrow> tokens)
      in map (\<lambda>t. dict_get (tt_vocab tt) t (unk_token_id tt)) tokens')"

text \<open>Unknown ids, empty tokens and padding are dropped.\<close>

fun decode_tokens :: "(int, string) dict \<Rightarrow> int list \<Rightarrow> string list" where
  "decode_tokens d [] = []"
| "decode_tokens d (tid # tids) =
     (case map_of d tid of
        Some tok \<Rightarrow> if tok \<noteq> [] \<and> tok \<noteq> ''<pad>'' then tok # decode_tokens d tids else decode_tokens d tids
      | None \<Rightarrow> decode_tokens d tids)"

definition tabular_decode :: "tabular_tokenizer \<Rightarrow> int list \<Rightarrow> string" where
  "tabular_decode tt token_ids = py_join '' '' (decode_tokens (tt_id_to_token tt) token_ids)"

subsection \<open>Building without data is a vocabulary builder\<close>

interpretation dummy: vocab_builder "dummy_build lib" for lib
proof (unfold_locales, goal_cases)
  case (1 i sts sts' k)
  then show ?case by (auto simp: dummy_build_def rbind_eq_Inr dict_simps)
next
  case (2 i sts sts')
  then obtain t where t: "sts' = AList.update i (tok_build_vocab lib t None) sts"
    by (auto simp: dummy_build_def rbind_eq_Inr)
  obtain d where "tok_idx (tok_build_vocab lib t None) = Some (Flat d)"
    using tok_idx_build [of lib t None] by blast
  with t show ?case by (auto simp: tok_flat_def dict_simps)
qed

lemma dummy_build_value:
  assumes "rfold (dummy_build lib) ids sts = Inr sts'" and "distinct ids" and "i \<in> set ids"
    and "map_of sts i = Some t"
  shows "map_of sts' i = Some (tok_build_vocab lib t None)"
  using assms
proof (induction ids arbitrary: sts)
  case (Cons j ids)
  then obtain sts1 where s: "dummy_build lib j sts = Inr sts1" "rfold (dummy_build lib) ids sts1 = Inr sts'"
    by (auto simp: rbind_eq_Inr)
  show ?case
  proof (cases "i = j")
    case True
    with s(1) Cons.prems(4) have "map_of sts1 i = Some (tok_build_vocab lib t None)"
      by (auto simp: dummy_build_def dict_lookup_def dict_simps)
    then show ?thesis using dummy.rfold_lookup [OF s(2), of i] Cons.prems(2) True by simp
  next
    case False
    with dummy.build_frame [OF s(1), of i] Cons.prems have "map_of sts1 i = Some t" by simp
    with Cons.IH [OF s(2)] Cons.prems False show ?thesis by simp
  qed
qed simp

text \<open>Every step of the order present: the loop does not fail.\<close>

lemma dummy_build_total:
  "list_all (\<lambda>i. map_of sts i \<noteq> None) ids \<Longrightarrow> \<exists>sts'. rfold (dummy_build lib) ids sts = Inr sts'"
proof (induction ids arbitrary: sts)
  case (Cons i ids)
  then obtain t where t: "map_of sts i = Some t" by auto
  let ?sts = "AList.update i (tok_build_vocab lib t None) sts"
  have "list_all (\<lambda>i. map_of ?sts i \<noteq> None) ids"
    using Cons.prems by (auto simp: list_all_iff dict_simps)
  with Cons.IH [of ?sts] t show ?case by (auto simp: dummy_build_def dict_lookup_def)
qed simp

lemma build_vocab_from_pipeline_result:
  assumes "list_all (\<lambda>i. map_of (steps p) i \<noteq> None) (tokenizer_order p)" and "distinct (tokenizer_order p)"
  shows "\<exists>p'. build_vocab_from_pipeline lib p = Inr p' \<and>
    (let es = special_token_ids p @ block_entries (num_special_tokens p)
           (map (\<lambda>i. (i, the (tok_flat (tok_build_vocab lib (the (map_of (steps p) i)) None)))) (tokenizer_order p))
     in global_vocab p' = Some (dict_of es) \<and>
        global_id_to_token p' = Some (dict_of (map (\<lambda>(s, i). (i, s)) es)) \<and>
        global_vocab_size p' = num_special_tokens p + sum_list (map (\<lambda>i. length
          (the (tok_flat (tok_build_vocab lib (the (map_of (steps p) i)) None)))) (tokenizer_order p)))"
proof -
  obtain sts where sts: "rfold (dummy_build lib) (tokenizer_order p) (steps p) = Inr sts"
    using dummy_build_total [OF assms(1)] by blast
  have flat: "all_flat sts (tokenizer_order p)" by (rule dummy.rfold_flat [OF sts assms(2)])
  obtain sizes offs cur where loop:
      "fit_loop (dummy_build lib) (tokenizer_order p) (steps p)
        (vocab_sizes p, vocab_offset p, num_special_tokens p) = Inr (sts, sizes, offs, cur)"
    using offset_loop_flat [OF flat assms(2), of "vocab_sizes p" "vocab_offset p" "num_special_tokens p"]
    by (auto simp: dummy.fit_loop_split [OF assms(2)] sts)
  note res = dummy.fit_loop_result [OF loop assms(2)]
  have eq: "flats sts (tokenizer_order p) =
      map (\<lambda>i. (i, the (tok_flat (tok_build_vocab lib (the (map_of (steps p) i)) None)))) (tokenizer_order p)"
    using dummy_build_value [OF sts assms(2)] assms(1) by (auto simp: flats_def list_all_iff)
  let ?p = "(set_fit_result p (sts, sizes, offs, cur))\<lparr>is_fitted := True\<rparr>"
  have "global_entries ?p = Inr (special_token_ids ?p @
      block_entries (num_special_tokens p) (flats (steps ?p) (tokenizer_order ?p)))"
    using flat res(4) by (intro global_entries_blocks) (simp_all add: set_fit_result_def)
  then show ?thesis
    using res(3)
    by (simp add: build_vocab_from_pipeline_def loop build_global_vocab_def set_fit_result_def eq Let_def comp_def)
qed

end
