(* ===== verification/Financial_Vocab.thy ===== *)
theory Financial_Vocab
  imports Financial
begin

section \<open>The vocabulary of the financial tokenizer\<close>

text \<open>
  The twelve blocks of the default configuration, for any number of merchant buckets:
  their labels, sizes and global indices. All printed tokens are different, so the
  vocabulary has as many tokens as the model's embedding table has rows; the month step
  counts from one, so its last token shares its index with the first token of the card
  step, and no other two tokens share one.
\<close>

subsection \<open>The index dicts of the steps\<close>

definition fixed_tokens :: "string \<Rightarrow> nat \<Rightarrow> int \<Rightarrow> int \<Rightarrow> (int, string) dict" where
  "fixed_tokens prefix w lo hi = map (\<lambda>i. (i, mk_token prefix (fmt_int w i))) [lo..hi]"

lemma flat_fixed:
  "tok_flat (tok_build_vocab lib (TFixed (fixed_init prefix lo hi w s)) c) = Some (fixed_tokens prefix w lo hi)"
  by (simp add: fixed_tokens_def fixed_init_def)

lemma flat_hash:
  "tok_flat (tok_build_vocab lib (THash (hash_init n prefix s)) c) = Some (range_tokens prefix n)"
  by (simp add: hash_build_eq flat_idx_def hash_init_def)

lemma flat_ranges:
  "tok_flat (tok_build_vocab lib (TMapping (mapping_init prefix m v (Some rs) d s)) c) =
   Some (enum_tokens prefix (sort (remdups (map (\<lambda>(lo, hi, l). l) rs)) @ [d]))"
  by (simp add: mapping_build_flat_idx mapping_labels_def mapping_init_def)

lemma flat_direct:
  "m \<noteq> [] \<Longrightarrow>
   tok_flat (tok_build_vocab lib (TMapping (mapping_init prefix (Some m) v None d s)) c) =
   Some (enum_tokens prefix (py_unique (sort (remdups (map snd m)) @ [d])))"
  by (cases m) (simp_all add: mapping_build_flat_idx mapping_labels_def mapping_init_def)

lemma flat_values:
  assumes "distinct vs" and "vs \<noteq> []"
  shows "tok_flat (tok_build_vocab lib (TMapping (mapping_init prefix None (Some vs) None d s)) c) =
   Some (enum_tokens prefix (py_unique (sort (remdups (map str_of_key vs)) @ [d])))"
proof -
  have "dict_of (map (\<lambda>v. (v, str_of_key v)) vs) = map (\<lambda>v. (v, str_of_key v)) vs"
    using assms(1) by (intro dict_of_distinct) (simp add: comp_def)
  moreover obtain p ps where ps: "map (\<lambda>v. (v, str_of_key v)) vs = p # ps"
    using assms(2) by (cases vs) auto
  moreover have "map str_of_key vs = map snd (p # ps)" by (simp add: ps [symmetric] comp_def)
  ultimately show ?thesis
    by (simp add: mapping_build_flat_idx mapping_labels_def mapping_init_def del: list.map)
qed

definition cat_labels :: "string list" where
  "cat_labels = sort (remdups (map (\<lambda>(lo, hi, l). l) INDUSTRY_RANGES)) @ [''GENERAL'']"

definition mcc_labels :: "string list" where
  "mcc_labels = sort (map str_of_int KNOWN_MCCS)"

definition chip_labels :: "string list" where
  "chip_labels = [''CHIP'', ''ONLINE'', ''SWIPE'', ''UNK'']"

definition state_labels :: "string list" where
  "state_labels = sort ALL_STATES"

lemma distinct_mccs: "distinct KNOWN_MCCS"
  by (simp add: KNOWN_MCCS_def)

lemma length_mccs: "length KNOWN_MCCS = 110"
  by (simp add: KNOWN_MCCS_def)

lemma distinct_states: "distinct ALL_STATES"
  by (simp add: ALL_STATES_def)

lemma length_states: "length ALL_STATES = 58"
  by (simp add: ALL_STATES_def)

lemma minus_one_str: "str_of_int (-1) = ''-1''"
  by (simp add: str_of_int_def str_of_nat.simps digit_char_def)

lemma labels_with_known_default:
  "distinct ls \<Longrightarrow> d \<in> set ls \<Longrightarrow> py_unique (sort (remdups ls) @ [d]) = sort ls"
  by (simp add: py_unique_snoc py_unique_distinct distinct_remdups_id)

lemma mcc_labels_eq:
  "py_unique (sort (remdups (map str_of_key (map (\<lambda>m. KStr (str_of_int m)) KNOWN_MCCS))) @ [''-1'']) = mcc_labels"
proof -
  have "''-1'' \<in> set (map str_of_int KNOWN_MCCS)"
    by (simp add: KNOWN_MCCS_def minus_one_str)
  moreover have "distinct (map str_of_int KNOWN_MCCS)"
    using distinct_mccs by (simp add: distinct_map inj_on_def)
  ultimately show ?thesis
    unfolding mcc_labels_def by (simp add: comp_def labels_with_known_default)
qed

lemma state_labels_eq:
  "py_unique (sort (remdups (map str_of_key (map KStr ALL_STATES))) @ [''XX'']) = state_labels"
proof -
  have "''XX'' \<in> set ALL_STATES" by (simp add: ALL_STATES_def)
  then show ?thesis
    unfolding state_labels_def by (simp add: comp_def labels_with_known_default distinct_states)
qed

lemma chip_labels_eq: "py_unique (sort (remdups (map snd CHIP_MAPPING)) @ [''UNK'']) = chip_labels"
  unfolding CHIP_MAPPING_def chip_labels_def by code_simp

lemma cat_labels_facts: "distinct cat_labels" "length cat_labels = 14"
  unfolding cat_labels_def INDUSTRY_RANGES_def by code_simp+

lemma label_lengths:
  "length mcc_labels = 110" "length state_labels = 58" "length chip_labels = 4"
  by (simp_all add: mcc_labels_def state_labels_def chip_labels_def length_mccs length_states)

lemma label_distinct:
  "distinct mcc_labels" "distinct state_labels" "distinct chip_labels"
  using distinct_mccs distinct_states
  by (simp_all add: mcc_labels_def state_labels_def chip_labels_def distinct_map inj_on_def)

subsection \<open>The blocks\<close>

definition dicts_before :: "nat \<Rightarrow> (string \<times> (int, string) dict) list" where
  "dicts_before n =
     [(''amt_val'', fixed_tokens ''AMT'' 0 0 6), (''merch_hash'', range_tokens ''MERCH'' n),
      (''mcc_int'', enum_tokens ''CAT'' cat_labels), (''mcc_str'', enum_tokens ''MCC'' mcc_labels),
      (''hour'', fixed_tokens ''HOUR'' 2 0 23), (''dow'', fixed_tokens ''DOW'' 0 0 6)]"

definition dict_month :: "string \<times> (int, string) dict" where
  "dict_month = (''month'', fixed_tokens ''MONTH'' 2 1 12)"

definition dicts_after :: "(string \<times> (int, string) dict) list" where
  "dicts_after =
     [(''card'', fixed_tokens ''CARD'' 0 0 9), (''chip_upper'', enum_tokens ''CHIP'' chip_labels),
      (''zip3'', fixed_tokens ''ZIP3'' 3 0 999), (''state_clean'', enum_tokens ''STATE'' state_labels),
      (''cust'', fixed_tokens ''CUST'' 0 0 2999)]"

definition special_ids :: "(string, int) dict" where
  "special_ids = [(''<pad>'', 0), (''<bos>'', 1), (''<eos>'', 2), (''<sep>'', 3), (''<unk>'', 4)]"

definition fin_entries :: "nat \<Rightarrow> (string \<times> int) list" where
  "fin_entries n = special_ids @ block_entries 5 (dicts_before n @ [dict_month] @ dicts_after)"

abbreviation default_pipeline :: "cudf_lib \<Rightarrow> nat \<Rightarrow> bool \<Rightarrow> nat \<Rightarrow> pipeline" where
  "default_pipeline lib n streams threshold \<equiv>
     financial_pipeline lib n ''fixed'' 10 False 32 None streams threshold"

lemma add_one_step [simp]:
  "steps (add_step (OneCol c) t p) = AList.update c t (steps p)"
  "column_specs (add_step (OneCol c) t p) = AList.update c [c] (column_specs p)"
  "tokenizer_order (add_step (OneCol c) t p) = tokenizer_order p @ [c]"
  "special_token_ids (add_step (OneCol c) t p) = special_token_ids p"
  "num_special_tokens (add_step (OneCol c) t p) = num_special_tokens p"
  by (simp_all add: add_step_def Let_def)

lemma default_order:
  "tokenizer_order (default_pipeline lib n st th) =
     [''amt_val'', ''merch_hash'', ''mcc_int'', ''mcc_str'', ''hour'', ''dow'', ''month'', ''card'',
      ''chip_upper'', ''zip3'', ''state_clean'', ''cust'']"
  by (simp add: financial_pipeline_def configure_steps_def pipeline_init_def Let_def)

lemma default_special:
  "special_token_ids (default_pipeline lib n st th) = special_ids"
  "num_special_tokens (default_pipeline lib n st th) = 5"
proof -
  have "enumerate_ids (map snd default_special_tokens) = special_ids"
    unfolding default_special_tokens_def special_ids_def enumerate_ids_def by code_simp
  then show "special_token_ids (default_pipeline lib n st th) = special_ids"
    by (simp add: financial_pipeline_def configure_steps_def pipeline_init_def Let_def)
  show "num_special_tokens (default_pipeline lib n st th) = 5"
    by (simp add: financial_pipeline_def configure_steps_def pipeline_init_def Let_def
        default_special_tokens_def)
qed

lemma default_steps:
  "steps (default_pipeline lib n st th) =
     [(''amt_val'', TFixed (fixed_init ''AMT'' 0 6 0 None)),
      (''merch_hash'', THash (hash_init n ''MERCH'' None)),
      (''mcc_int'', TMapping (mapping_init ''CAT'' None None (Some INDUSTRY_RANGES) ''GENERAL'' None)),
      (''mcc_str'', TMapping (mapping_init ''MCC'' None
          (Some (map (\<lambda>m. KStr (str_of_int m)) KNOWN_MCCS)) None ''-1'' None)),
      (''hour'', TFixed (fixed_init ''HOUR'' 0 23 2 None)),
      (''dow'', TFixed (fixed_init ''DOW'' 0 6 0 None)),
      (''month'', TFixed (fixed_init ''MONTH'' 1 12 2 None)),
      (''card'', TFixed (fixed_init ''CARD'' 0 9 0 None)),
      (''chip_upper'', TMapping (mapping_init ''CHIP'' (Some CHIP_MAPPING) None None ''UNK'' None)),
      (''zip3'', TFixed (fixed_init ''ZIP3'' 0 999 3 None)),
      (''state_clean'', TMapping (mapping_init ''STATE'' None (Some (map KStr ALL_STATES)) None ''XX'' None)),
      (''cust'', TFixed (fixed_init ''CUST'' 0 2999 0 None))]"
  by (simp add: financial_pipeline_def configure_steps_def pipeline_init_def Let_def)

text \<open>Whatever column a step is built from, its index dict is the same.\<close>

lemma default_flats:
  "map (\<lambda>i. (i, the (tok_flat (tok_build_vocab lib
       (the (map_of (steps (default_pipeline lib n st th)) i)) (cs i)))))
     (tokenizer_order (default_pipeline lib n st th)) =
   dicts_before n @ [dict_month] @ dicts_after"
proof -
  have mcc: "distinct (map (\<lambda>m. KStr (str_of_int m)) KNOWN_MCCS)" "map (\<lambda>m. KStr (str_of_int m)) KNOWN_MCCS \<noteq> []"
    using distinct_mccs length_mccs by (auto simp: distinct_map inj_on_def)
  have st: "distinct (map KStr ALL_STATES)" "map KStr ALL_STATES \<noteq> []"
    using distinct_states length_states by (auto simp: distinct_map inj_on_def)
  have chip: "CHIP_MAPPING \<noteq> []" by (simp add: CHIP_MAPPING_def)
  show ?thesis
    by (simp only: default_order default_steps list.map map_of.simps fst_conv snd_conv)
      (simp add: flat_fixed flat_hash flat_ranges flat_direct [OF chip] flat_values [OF mcc]
        flat_values [OF st] mcc_labels_eq state_labels_eq chip_labels_eq
        dicts_before_def dict_month_def dicts_after_def cat_labels_def [symmetric]
        del: tok_build_vocab.simps tok_flat_simps map_map)
qed

subsection \<open>Sizes and indices\<close>

lemma length_fixed_tokens: "length (fixed_tokens prefix w lo hi) = nat (hi - lo + 1)"
  by (simp add: fixed_tokens_def)

lemma zero_based_fixed: "0 \<le> hi \<Longrightarrow> zero_based (fixed_tokens prefix w 0 hi)"
proof -
  assume "0 \<le> hi"
  then have "[0..hi] = map int [0..<nat (hi + 1)]"
    by (intro nth_equalityI) auto
  then show ?thesis by (simp add: zero_based_def fixed_tokens_def comp_def)
qed

lemma zero_based_range: "zero_based (range_tokens prefix n)"
  by (simp add: zero_based_def range_tokens_facts)

lemma zero_based_enum: "zero_based (enum_tokens prefix ls)"
  by (simp add: zero_based_def enum_tokens_keys enum_tokens_facts)

lemmas zero_based_steps = zero_based_fixed zero_based_range zero_based_enum
lemmas step_lengths = length_fixed_tokens range_tokens_facts(5) enum_tokens_facts(4)
  label_lengths cat_labels_facts(2)

lemma block_entries_append:
  "block_entries cur (ds @ es) =
   block_entries cur ds @ block_entries (cur + sum_list (map (length \<circ> snd) ds)) es"
  by (induction ds arbitrary: cur) (auto simp: add.assoc)

text \<open>The entries before the month step, of the month step, and after it.\<close>

definition entries_before :: "nat \<Rightarrow> (string \<times> int) list" where
  "entries_before n = special_ids @ block_entries 5 (dicts_before n)"

definition entries_month :: "nat \<Rightarrow> (string \<times> int) list" where
  "entries_month n = shift_entries (167 + n) (snd dict_month)"

definition entries_after :: "nat \<Rightarrow> (string \<times> int) list" where
  "entries_after n = block_entries (179 + n) dicts_after"

lemma before_size: "sum_list (map (length \<circ> snd) (dicts_before n)) = 162 + n"
  by (simp add: dicts_before_def step_lengths)

lemma after_size: "sum_list (map (length \<circ> snd) dicts_after) = 4072"
  by (simp add: dicts_after_def step_lengths)

lemma month_size: "length (snd dict_month) = 12"
  by (simp add: dict_month_def step_lengths)

lemma fin_entries_split: "fin_entries n = entries_before n @ entries_month n @ entries_after n"
proof -
  obtain i d where m: "dict_month = (i, d)" by (cases dict_month)
  then have "length d = 12" using month_size by (metis snd_conv)
  then show ?thesis
    by (simp add: fin_entries_def entries_before_def entries_month_def entries_after_def
        block_entries_append before_size m add.commute add.left_commute)
qed

lemma before_ids: "map snd (entries_before n) = map int [0..<167 + n]"
proof -
  have "map snd (block_entries 5 (dicts_before n)) = map int [5..<5 + (162 + n)]"
    by (subst block_entries_ids)
      (simp_all only: before_size, simp add: dicts_before_def zero_based_steps)
  moreover have "map snd special_ids = map int [0..<5]" unfolding special_ids_def by code_simp
  moreover have "[0..<167 + n] = [0..<5] @ [5..<5 + (162 + n)]"
    by (metis add_numeral_left numeral_plus_numeral semiring_norm(2,3,5,7,8) upt_add_eq_append zero_le)
  ultimately show ?thesis by (simp only: entries_before_def map_append)
qed

lemma after_ids: "map snd (entries_after n) = map int [179 + n..<4251 + n]"
proof -
  have "map snd (block_entries (179 + n) dicts_after) = map int [179 + n..<179 + n + 4072]"
    by (subst block_entries_ids) (simp_all only: after_size, simp add: dicts_after_def zero_based_steps)
  then show ?thesis by (simp add: entries_after_def)
qed

lemma month_entries:
  "entries_month n = map (\<lambda>i. (mk_token ''MONTH'' (fmt_int 2 i), i + int (167 + n))) [1..12]"
  by (simp add: entries_month_def dict_month_def fixed_tokens_def shift_entries_def)

subsection \<open>All tokens are different\<close>

definition prefix_labels :: "nat \<Rightarrow> (string \<times> string list) list" where
  "prefix_labels n =
     [(''AMT'', map (fmt_int 0) [0..6]), (''MERCH'', map str_of_int (map int [0..<n])), (''CAT'', cat_labels),
      (''MCC'', mcc_labels), (''HOUR'', map (fmt_int 2) [0..23]), (''DOW'', map (fmt_int 0) [0..6]),
      (''MONTH'', map (fmt_int 2) [1..12]), (''CARD'', map (fmt_int 0) [0..9]), (''CHIP'', chip_labels),
      (''ZIP3'', map (fmt_int 3) [0..999]), (''STATE'', state_labels), (''CUST'', map (fmt_int 0) [0..2999])]"

lemma map_snd_fixed: "map snd (fixed_tokens p w lo hi) = map (mk_token p) (map (fmt_int w) [lo..hi])"
  by (simp add: fixed_tokens_def comp_def)

lemma map_snd_range: "map snd (range_tokens p n) = map (mk_token p) (map str_of_int (map int [0..<n]))"
  by (simp add: range_tokens_def comp_def)

lemma block_entries_tokens: "map fst (block_entries cur ds) = concat (map (\<lambda>(i, d). map snd d) ds)"
  by (induction ds arbitrary: cur) (auto simp: map_fst_shift)

lemma fin_tokens:
  "map fst (fin_entries n) = map fst special_ids @ concat (map (\<lambda>(p, ls). map (mk_token p) ls) (prefix_labels n))"
  unfolding fin_entries_def map_append block_entries_tokens
  unfolding dicts_before_def dict_month_def dicts_after_def prefix_labels_def
  by (simp only: list.map prod.case append.simps concat.simps map_snd_fixed map_snd_range enum_tokens_vals)

lemma distinct_prefixed:
  assumes "distinct (map fst bs)" and "list_all (\<lambda>p. CHR ''_'' \<notin> set p) (map fst bs)"
    and "list_all distinct (map snd bs)"
  shows "distinct (concat (map (\<lambda>(p, ls). map (mk_token p) ls) bs))"
  using assms
proof (induction bs)
  case (Cons b bs)
  obtain p ls where b: "b = (p, ls)" by (cases b)
  let ?rest = "concat (map (\<lambda>(p, ls). map (mk_token p) ls) bs)"
  have "mk_token p l \<notin> set ?rest" for l
  proof
    assume "mk_token p l \<in> set ?rest"
    then obtain q ms m where q: "(q, ms) \<in> set bs" "mk_token p l = mk_token q m" by auto
    then have "CHR ''_'' \<notin> set q" "CHR ''_'' \<notin> set p" using Cons.prems(2) b by (auto simp: list_all_iff)
    with q(2) have "p = q" by (simp add: mk_token_inject)
    with q(1) Cons.prems(1) b show False by (force simp: image_iff)
  qed
  then have "set (map (mk_token p) ls) \<inter> set ?rest = {}" unfolding set_map by blast
  moreover have "distinct (map (mk_token p) ls)" using Cons.prems(3) b by (simp add: distinct_map inj_on_def)
  moreover have "distinct ?rest" using Cons by simp
  ultimately show ?case unfolding b list.map prod.case concat.simps distinct_append by blast
qed simp

lemma prefix_labels_prefixes:
  "map fst (prefix_labels n) = [''AMT'', ''MERCH'', ''CAT'', ''MCC'', ''HOUR'', ''DOW'', ''MONTH'', ''CARD'',
     ''CHIP'', ''ZIP3'', ''STATE'', ''CUST'']"
  by (simp only: prefix_labels_def list.map fst_conv)

lemma distinct_fmt: "distinct (map (fmt_int w) [lo..hi])"
  by (simp add: distinct_map inj_on_def)

lemma distinct_printed: "distinct (map str_of_int (map int [0..<n]))"
  by (simp add: distinct_map inj_on_def)

lemma distinct_fin_tokens: "distinct (map fst (fin_entries n))"
proof -
  let ?toks = "concat (map (\<lambda>(p, ls). map (mk_token p) ls) (prefix_labels n))"
  have "distinct ?toks"
  proof (rule distinct_prefixed)
    show "distinct (map fst (prefix_labels n))" by (simp add: prefix_labels_prefixes)
    show "list_all (\<lambda>p. CHR ''_'' \<notin> set p) (map fst (prefix_labels n))"
      by (simp add: prefix_labels_prefixes)
    show "list_all distinct (map snd (prefix_labels n))"
      by (simp only: prefix_labels_def list.map snd_conv list.pred_inject label_distinct
          cat_labels_facts(1) distinct_fmt distinct_printed simp_thms)
  qed
  moreover have "CHR ''_'' \<in> set t" if "t \<in> set ?toks" for t
    using that by (auto simp: mk_token_def)
  moreover have "CHR ''_'' \<notin> set t" if "t \<in> set (map fst special_ids)" for t
    using that by (auto simp: special_ids_def)
  ultimately have "distinct ?toks" "set (map fst special_ids) \<inter> set ?toks = {}"
    by blast+
  moreover have "distinct (map fst special_ids)" by (simp add: special_ids_def)
  ultimately show ?thesis unfolding fin_tokens by (simp only: distinct_append)
qed

subsection \<open>The built tokenizer\<close>

lemma default_present:
  "list_all (\<lambda>i. map_of (steps (default_pipeline lib n st th)) i \<noteq> None)
     (tokenizer_order (default_pipeline lib n st th))"
  "distinct (tokenizer_order (default_pipeline lib n st th))"
  by (simp_all add: default_order default_steps)

lemma tabular_init_result:
  "\<exists>tt. tabular_init lib n ''fixed'' False = Inr tt \<and>
     tt_vocab tt = fin_entries n \<and>
     tt_id_to_token tt = dict_of (map (\<lambda>(s, i). (i, s)) (fin_entries n)) \<and>
     global_vocab_size (tt_pipeline tt) = 4251 + n \<and> unk_token_id tt = 4 \<and> pad_token_id tt = 0"
proof -
  let ?p = "default_pipeline lib n True 5"
  note fl = default_flats [of lib n True 5 "\<lambda>_. None"]
  have "sum_list (map (\<lambda>i. length (the (tok_flat (tok_build_vocab lib (the (map_of (steps ?p) i)) None))))
      (tokenizer_order ?p)) = sum_list (map (length \<circ> snd) (dicts_before n @ [dict_month] @ dicts_after))"
    unfolding fl [symmetric] by (simp add: comp_def)
  also have "\<dots> = 4246 + n"
    using month_size by (simp add: before_size after_size)
  finally have size: "sum_list (map (\<lambda>i. length (the (tok_flat (tok_build_vocab lib
      (the (map_of (steps ?p) i)) None)))) (tokenizer_order ?p)) = 4246 + n" .
  obtain p' where p': "build_vocab_from_pipeline lib ?p = Inr p'"
      "global_vocab p' = Some (dict_of (fin_entries n))"
      "global_id_to_token p' = Some (dict_of (map (\<lambda>(s, i). (i, s)) (fin_entries n)))"
      "global_vocab_size p' = 4251 + n"
    using build_vocab_from_pipeline_result [OF default_present(1) default_present(2), of lib lib n True 5]
    unfolding fl size default_special fin_entries_def [symmetric] Let_def by auto
  have v: "dict_of (fin_entries n) = fin_entries n" by (rule dict_of_distinct [OF distinct_fin_tokens])
  have special: "map_of (fin_entries n) t = map_of special_ids t" if "t \<in> set (map fst special_ids)" for t
    using that unfolding fin_entries_def
    by (metis map_add_find_right map_of_append map_add_Some_iff map_of_eq_None_iff option.exhaust set_map)
  have "map_of (fin_entries n) ''<unk>'' = Some 4" "map_of (fin_entries n) ''<pad>'' = Some 0"
    by (simp_all add: special special_ids_def)
  then show ?thesis
    unfolding tabular_init_def p'(1)
    by (simp add: pipeline_vocab_def pipeline_id_to_token_def p' v dict_get_def Let_def)
qed

subsection \<open>Shared indices\<close>

lemma mk_month_12: "mk_token ''MONTH'' (fmt_int 2 12) = ''MONTH_12''"
  and mk_card_0: "mk_token ''CARD'' (fmt_int 0 0) = ''CARD_0''"
  by code_simp+

lemma same_id_same_part:
  assumes "map snd es = map int [a..<b]" and "(s, i) \<in> set es" and "(t, i) \<in> set es"
  shows "s = t"
proof -
  have "distinct (map snd es)" by (simp add: assms(1) distinct_map inj_on_def)
  with assms(2,3) show ?thesis by (metis distinct_map inj_onD prod.inject snd_conv)
qed

lemma ids_of_part:
  assumes "map snd es = map int [a..<b]" and "(s, i) \<in> set es"
  shows "int a \<le> i \<and> i < int b"
proof -
  have "i \<in> set (map snd es)" using assms(2) by force
  then show ?thesis unfolding assms(1) by auto
qed

lemma month_ids:
  assumes "(s, i) \<in> set (entries_month n)"
  shows "168 + int n \<le> i \<and> i \<le> 179 + int n" and "i = 179 + int n \<Longrightarrow> s = ''MONTH_12''"
    and "(t, i) \<in> set (entries_month n) \<Longrightarrow> s = t"
  using assms mk_month_12 unfolding month_entries set_map set_upto by auto

lemma card_0_entry: "(''CARD_0'', 179 + int n) \<in> set (entries_after n)"
proof -
  have "(0, ''CARD_0'') \<in> set (fixed_tokens ''CARD'' 0 0 9)"
    using mk_card_0 by (auto simp: fixed_tokens_def image_iff)
  then have "(''CARD_0'', 0 + int (179 + n)) \<in> set (shift_entries (179 + n) (fixed_tokens ''CARD'' 0 0 9))"
    by (force simp: shift_entries_def)
  then show ?thesis by (simp add: entries_after_def dicts_after_def)
qed

lemma month_12_entry: "(''MONTH_12'', 179 + int n) \<in> set (entries_month n)"
  using mk_month_12 by (auto simp: month_entries image_iff)

lemma shared_lookup:
  "map_of (fin_entries n) ''MONTH_12'' = Some (179 + int n)"
  "map_of (fin_entries n) ''CARD_0'' = Some (179 + int n)"
proof -
  have "(''MONTH_12'', 179 + int n) \<in> set (fin_entries n)" "(''CARD_0'', 179 + int n) \<in> set (fin_entries n)"
    using month_12_entry card_0_entry by (simp_all add: fin_entries_split)
  then show "map_of (fin_entries n) ''MONTH_12'' = Some (179 + int n)"
    "map_of (fin_entries n) ''CARD_0'' = Some (179 + int n)"
    using map_of_is_SomeI [OF distinct_fin_tokens] by blast+
qed

text \<open>Two tokens share an index only across the end of the month block.\<close>

lemma shared_index:
  assumes "(s, i) \<in> set (fin_entries n)" and "(t, i) \<in> set (fin_entries n)" and "s \<noteq> t"
  shows "i = 179 + int n \<and> {s, t} = {''MONTH_12'', ''CARD_0''}"
proof -
  have cross: "i = 179 + int n \<and> s = ''MONTH_12'' \<and> t = ''CARD_0''"
    if "(s, i) \<in> set (entries_month n)" "(t, i) \<in> set (entries_after n)" for s t
  proof -
    have "i = 179 + int n" using month_ids(1) [OF that(1)] ids_of_part [OF after_ids that(2)] by simp
    moreover have "t = ''CARD_0''"
      using same_id_same_part [OF after_ids] that(2) card_0_entry calculation by blast
    ultimately show ?thesis using month_ids(2) [OF that(1)] by simp
  qed
  have b: "i < 167 + int n" if "(u, i) \<in> set (entries_before n)" for u
    using ids_of_part [OF before_ids that] by simp
  have m: "168 + int n \<le> i" if "(u, i) \<in> set (entries_month n)" for u
    using month_ids(1) [OF that] by simp
  have a: "179 + int n \<le> i" if "(u, i) \<in> set (entries_after n)" for u
    using ids_of_part [OF after_ids that] by simp
  from assms(1,2) consider
      "(s, i) \<in> set (entries_before n)" "(t, i) \<in> set (entries_before n)"
    | "(s, i) \<in> set (entries_month n)" "(t, i) \<in> set (entries_month n)"
    | "(s, i) \<in> set (entries_after n)" "(t, i) \<in> set (entries_after n)"
    | "(s, i) \<in> set (entries_month n)" "(t, i) \<in> set (entries_after n)"
    | "(t, i) \<in> set (entries_month n)" "(s, i) \<in> set (entries_after n)"
    | "i < 167 + int n" "168 + int n \<le> i"
    unfolding fin_entries_split set_append Un_iff using b m a by force
  then show ?thesis
    using same_id_same_part [OF before_ids, of s i n t] month_ids(3) [of s i n t] cross [of s t] cross [of t s]
      same_id_same_part [OF after_ids, of s i n t] assms(3)
    by cases auto
qed

text \<open>The index dict keeps the later token of the shared index.\<close>

lemma id_to_token_last:
  "map_of (dict_of (map (\<lambda>(s, i). (i, s)) (fin_entries n))) i = Some s \<Longrightarrow> (s, i) \<in> set (fin_entries n)"
  unfolding map_of_dict_update by (drule map_of_SomeD) auto

lemma id_to_token_shared:
  "map_of (dict_of (map (\<lambda>(s, i). (i, s)) (fin_entries n))) (179 + int n) = Some ''CARD_0''"
proof -
  let ?sw = "\<lambda>es. map (\<lambda>(s, i). (i, s)) es :: (int \<times> string) list"
  have "distinct (map snd (entries_after n))"
    unfolding after_ids by (simp add: distinct_map inj_on_def)
  then have "distinct (map fst (rev (?sw (entries_after n))))"
    by (simp add: rev_map [symmetric] comp_def case_prod_unfold)
  moreover have "(179 + int n, ''CARD_0'') \<in> set (rev (?sw (entries_after n)))"
    using card_0_entry by force
  ultimately have "map_of (rev (?sw (entries_after n))) (179 + int n) = Some ''CARD_0''"
    by (rule map_of_is_SomeI)
  then show ?thesis
    by (simp add: map_of_dict_update fin_entries_split map_add_def)
qed

lemma id_to_token_inverse:
  assumes "(s, i) \<in> set (fin_entries n)" and "s \<noteq> ''MONTH_12''"
  shows "map_of (dict_of (map (\<lambda>(s, i). (i, s)) (fin_entries n))) i = Some s"
proof -
  let ?d = "dict_of (map (\<lambda>(s, i). (i, s)) (fin_entries n))"
  have "i \<in> fst ` set ?d"
    using assms(1) keys_dict_update [of "map (\<lambda>(s, i). (i, s)) (fin_entries n)" "[]"] by force
  then obtain t where t: "map_of ?d i = Some t" by (metis map_of_eq_None_iff option.exhaust)
  show ?thesis
  proof (cases "s = t")
    case False
    with shared_index [OF assms(1) id_to_token_last [OF t]] assms(2)
    have "i = 179 + int n" "s = ''CARD_0''" by (auto simp: doubleton_eq_iff)
    then show ?thesis using id_to_token_shared by simp
  qed (use t in simp)
qed

subsection \<open>Properties of the tabular tokenizer\<close>

text \<open>C1: The tokenizer built with \<open>n\<close> merchant buckets has \<open>4251 + n\<close> tokens (6251 for the
  configured 2000, the model's \<open>vocab_size\<close>), the pipeline's global size agrees, and every
  index is below it.\<close>

theorem tabular_vocab_total:
  "\<exists>tt. tabular_init lib n ''fixed'' False = Inr tt \<and> tabular_vocab_size tt = 4251 + n \<and>
     global_vocab_size (tt_pipeline tt) = 4251 + n \<and>
     snd ` set (tt_vocab tt) = {0..<int (4251 + n)} - {int (167 + n)}"
proof -
  obtain tt where tt: "tabular_init lib n ''fixed'' False = Inr tt" "tt_vocab tt = fin_entries n"
      "global_vocab_size (tt_pipeline tt) = 4251 + n"
    using tabular_init_result by blast
  have len: "length (map snd (fin_entries n)) = 4251 + n"
    unfolding fin_entries_split map_append before_ids after_ids by (simp add: month_entries)
  have ids: "snd ` set (fin_entries n) =
      set (map int [0..<167 + n]) \<union> snd ` set (entries_month n) \<union> set (map int [179 + n..<4251 + n])"
    by (simp only: fin_entries_split set_append image_Un before_ids [symmetric] after_ids [symmetric]
        set_map Un_assoc)
  have month: "snd ` set (entries_month n) = {168 + int n..179 + int n}"
    unfolding month_entries set_map set_upto image_image snd_conv by simp
  have "snd ` set (fin_entries n) = {0..<int (4251 + n)} - {int (167 + n)}"
    unfolding ids month set_map set_upt by (auto simp: image_int_atLeastLessThan)
  with tt len show ?thesis by (simp add: tabular_vocab_size_def)
qed

text \<open>C2: Two different tokens of the tokenizer share an index exactly when they are the last
  month and the first card: the month step numbers its tokens from 1, so its block runs
  one index into the block of the card step.\<close>

theorem tabular_shared_index:
  assumes "tabular_init lib n ''fixed'' False = Inr tt"
    and "map_of (tt_vocab tt) s = Some i" and "map_of (tt_vocab tt) t = Some j" and "s \<noteq> t"
  shows "i = j \<longleftrightarrow> {s, t} = {''MONTH_12'', ''CARD_0''}"
proof -
  have v: "tt_vocab tt = fin_entries n" using assms(1) tabular_init_result [of lib n] by auto
  have mem: "(s, i) \<in> set (fin_entries n)" "(t, j) \<in> set (fin_entries n)"
    using assms(2,3) by (auto simp: v dest: map_of_SomeD)
  from shared_lookup [of n] assms(2,3) v have "{s, t} = {''MONTH_12'', ''CARD_0''} \<Longrightarrow> i = j"
    by (auto simp: doubleton_eq_iff)
  with shared_index [of s i n t] mem assms(4) show ?thesis by blast
qed

theorem tabular_shared_index_witness:
  "\<exists>tt. tabular_init host_lib 2000 ''fixed'' False = Inr tt \<and>
     (\<exists>i j. map_of (tt_vocab tt) ''MONTH_12'' = Some i \<and> map_of (tt_vocab tt) ''CARD_0'' = Some j \<and> i = j)"
proof -
  obtain tt where tt: "tabular_init host_lib 2000 ''fixed'' False = Inr tt" "tt_vocab tt = fin_entries 2000"
    using tabular_init_result by blast
  obtain i j where ij: "map_of (tt_vocab tt) ''MONTH_12'' = Some i" "map_of (tt_vocab tt) ''CARD_0'' = Some j"
    using month_12_entry [of 2000] card_0_entry [of 2000]
    by (metis fin_entries_split tt(2) Un_iff set_append weak_map_of_SomeI)
  have "i = j"
    using tabular_shared_index [OF tt(1) ij] by simp
  with tt ij show ?thesis by blast
qed

text \<open>C33: Encoding a text of known tokens and decoding it gives the text back, up to
  whitespace, provided it has no padding token and not the token of December.\<close>

theorem tabular_roundtrip:
  assumes "tabular_init lib n ''fixed'' False = Inr tt"
    and "list_all (\<lambda>t. t \<in> fst ` set (tt_vocab tt) \<and> t \<noteq> ''<pad>'' \<and> t \<noteq> ''MONTH_12'') (py_split text)"
  shows "tabular_decode tt (tabular_encode tt text None) = py_join '' '' (py_split text)"
proof -
  have v: "tt_vocab tt = fin_entries n"
    and d: "tt_id_to_token tt = dict_of (map (\<lambda>(s, i). (i, s)) (fin_entries n))"
    using assms(1) tabular_init_result [of lib n] by auto
  have "decode_tokens (tt_id_to_token tt)
      (map (\<lambda>t. dict_get (tt_vocab tt) t (unk_token_id tt)) ts) = ts"
    if "list_all (\<lambda>t. t \<in> fst ` set (tt_vocab tt) \<and> t \<noteq> ''<pad>'' \<and> t \<noteq> ''MONTH_12'') ts"
      "list_all is_word ts" for ts
    using that
  proof (induction ts)
    case (Cons t ts)
    then obtain i where i: "(t, i) \<in> set (fin_entries n)" by (auto simp: v)
    then have "map_of (tt_vocab tt) t = Some i"
      unfolding v by (rule map_of_is_SomeI [OF distinct_fin_tokens])
    moreover have "map_of (tt_id_to_token tt) i = Some t"
      unfolding d using id_to_token_inverse [OF i] Cons.prems(1) by simp
    ultimately show ?case using Cons by (simp add: dict_get_def is_word_def)
  qed simp
  from this [OF assms(2) py_split_words] show ?thesis
    by (simp add: tabular_decode_def tabular_encode_def)
qed

theorem tabular_roundtrip_witness:
  "\<exists>tt. tabular_init host_lib 2000 ''fixed'' False = Inr tt \<and>
     tabular_decode tt (tabular_encode tt ''<bos>  CARD_0 <eos>'' None) = ''<bos> CARD_0 <eos>''"
proof -
  obtain tt where tt: "tabular_init host_lib 2000 ''fixed'' False = Inr tt" "tt_vocab tt = fin_entries 2000"
    using tabular_init_result by blast
  have split: "py_split ''<bos>  CARD_0 <eos>'' = [''<bos>'', ''CARD_0'', ''<eos>'']" by code_simp
  have "''CARD_0'' \<in> fst ` set (fin_entries 2000)"
    using card_0_entry [of 2000] by (force simp: fin_entries_split)
  moreover have "''<bos>'' \<in> fst ` set (fin_entries 2000)" "''<eos>'' \<in> fst ` set (fin_entries 2000)"
    by (simp_all add: fin_entries_def special_ids_def)
  ultimately have "tabular_decode tt (tabular_encode tt ''<bos>  CARD_0 <eos>'' None) =
      py_join '' '' (py_split ''<bos>  CARD_0 <eos>'')"
    by (intro tabular_roundtrip [OF tt(1)]) (simp only: split tt(2), simp)
  then show ?thesis using tt(1) split by auto
qed

text \<open>December is lost: encoding the token of December and decoding the result gives the
  first card token instead.\<close>

lemma december_decodes_as_card:
  "\<exists>tt. tabular_init lib n ''fixed'' False = Inr tt \<and>
     tabular_decode tt (tabular_encode tt ''MONTH_12'' None) = ''CARD_0''"
proof -
  obtain tt where tt: "tabular_init lib n ''fixed'' False = Inr tt" "tt_vocab tt = fin_entries n"
      "tt_id_to_token tt = dict_of (map (\<lambda>(s, i). (i, s)) (fin_entries n))"
    using tabular_init_result by blast
  note shared_lookup(1) [of n]
  moreover have "py_split ''MONTH_12'' = [''MONTH_12'']" by code_simp
  ultimately have "tabular_decode tt (tabular_encode tt ''MONTH_12'' None) = ''CARD_0''"
    using id_to_token_shared [of n] by (simp add: tabular_decode_def tabular_encode_def tt dict_get_def)
  with tt(1) show ?thesis by blast
qed

end
