(* ===== verification/Sequences.thy ===== *)
theory Sequences
  imports Prelude
begin

section \<open>Training sequences and embedding inputs\<close>

text \<open>
  Models \<open>build_sequences\<close> of \<open>tfm_repo/src/ray_tokenize.py\<close> with the constants of
  \<open>ray_common.py\<close>, and the input preparation of \<open>EmbeddingExtractor\<close> in
  \<open>ray_embed.py\<close> (\<open>_pad\<close>, the attention mask and the pooled position).
\<close>

definition MERCHANT_HASH_SIZE :: nat where "MERCHANT_HASH_SIZE = 2000"
definition SEQ_LENGTH :: nat where "SEQ_LENGTH = 4096"
definition SEQ_CHUNK_SIZE :: nat where "SEQ_CHUNK_SIZE = 315"
definition EMB_MAX_LENGTH :: nat where "EMB_MAX_LENGTH = 128"
definition PAD_TOKEN_ID :: int where "PAD_TOKEN_ID = 0"
definition BOS_TOKEN_ID :: int where "BOS_TOKEN_ID = 1"
definition EOS_TOKEN_ID :: int where "EOS_TOKEN_ID = 2"
definition SEP_TOKEN_ID :: int where "SEP_TOKEN_ID = 3"
definition UNK_TOKEN_ID :: int where "UNK_TOKEN_ID = 4"

lemmas token_id_defs = PAD_TOKEN_ID_def BOS_TOKEN_ID_def EOS_TOKEN_ID_def SEP_TOKEN_ID_def

subsection \<open>build\_sequences\<close>

record group =
  grp_ts :: "int list"
  grp_token_ids :: "int list list"

text \<open>\<open>np.argsort(ts, kind="stable")\<close>: the positions in time order, ties in row order.\<close>

definition argsort :: "int list \<Rightarrow> nat list" where
  "argsort ts = sort_key (\<lambda>i. ts ! i) [0..<length ts]"

text \<open>\<open>tok[order]\<close>: a position beyond the last row is an index error.\<close>

definition time_order :: "group \<Rightarrow> int list list result" where
  "time_order g = rmap (\<lambda>i. if i < length (grp_token_ids g) then Inr (grp_token_ids g ! i) else Inl IndexError) (argsort (grp_ts g))"

text \<open>The slices \<open>tok[start:start + n]\<close> for \<open>start\<close> in \<open>range(0, len(tok), n)\<close>, \<open>n > 0\<close>.\<close>

definition chunk_body :: "int list list \<Rightarrow> int list" where
  "chunk_body chunk =
     concat (map (\<lambda>(i, row). row @ (if i < length chunk - 1 then [SEP_TOKEN_ID] else []))
       (enumerate 0 chunk))"

definition pad_to :: "nat \<Rightarrow> int list \<Rightarrow> int list" where
  "pad_to n xs = (let s = take n xs in s @ replicate (n - length s) PAD_TOKEN_ID)"

definition chunk_sequence :: "nat \<Rightarrow> int list list \<Rightarrow> int list" where
  "chunk_sequence seq_length chunk =
     pad_to seq_length ([BOS_TOKEN_ID] @ chunk_body chunk @ [EOS_TOKEN_ID])"

definition build_sequences :: "group \<Rightarrow> nat \<Rightarrow> nat \<Rightarrow> int list list result" where
  "build_sequences g seq_length chunk_size =
     rbind (time_order g) (\<lambda>tok.
       if chunk_size = 0 then Inl (ValueError ''range() arg 3 must not be zero'')
       else Inr (map (chunk_sequence seq_length) (chunks chunk_size tok)))"

subsection \<open>Embedding inputs\<close>

text \<open>
  \<open>_pad\<close> for one row: \<open>k = min(nf, L - 2)\<close> of the row's ids between the begin and end
  tokens. For \<open>L < 2\<close> the numpy indices are out of bounds or negative; the configured
  length is 128.
\<close>

definition embed_pad :: "nat \<Rightarrow> int list \<Rightarrow> int list result" where
  "embed_pad L row =
     (if L < 2 then Inl IndexError
      else (let k = min (length row) (L - 2);
                ids = (replicate L PAD_TOKEN_ID)[0 := BOS_TOKEN_ID];
                ids' = take 1 ids @ take k row @ drop (1 + k) ids
            in Inr (ids'[1 + k := EOS_TOKEN_ID])))"

definition attention_mask :: "int list \<Rightarrow> nat list" where
  "attention_mask ids = map (\<lambda>t. if t \<noteq> PAD_TOKEN_ID then 1 else 0) ids"

text \<open>\<open>(mask.sum(1) - 1).clamp(min=0)\<close>: the position whose hidden state is the embedding.\<close>

definition last_token_position :: "int list \<Rightarrow> nat" where
  "last_token_position ids = sum_list (attention_mask ids) - 1"

subsection \<open>One sequence\<close>

lemma length_pad_to [simp]: "length (pad_to n xs) = n"
  by (simp add: pad_to_def Let_def)

lemma pad_to_fits: "length xs \<le> n \<Longrightarrow> pad_to n xs = xs @ replicate (n - length xs) PAD_TOKEN_ID"
  by (simp add: pad_to_def)

text \<open>The loop over the rows puts one separator between consecutive rows.\<close>

fun sep_join :: "int list list \<Rightarrow> int list" where
  "sep_join [] = []"
| "sep_join [r] = r"
| "sep_join (r # s # rs) = r @ SEP_TOKEN_ID # sep_join (s # rs)"

lemma chunk_body_sep_join: "chunk_body rows = sep_join rows"
proof -
  have "concat (map (\<lambda>(i, row). row @ (if i < k + length rs - 1 then [SEP_TOKEN_ID] else []))
      (enumerate k rs)) = sep_join rs" for k and rs :: "int list list"
  proof (induction rs arbitrary: k rule: sep_join.induct)
    case (3 r s rs)
    from "3.IH" [of "Suc k"] show ?case by simp
  qed simp_all
  from this [of 0 rows] show ?thesis by (simp add: chunk_body_def)
qed

lemma length_sep_join:
  "list_all (\<lambda>r. length r = nf) rows \<Longrightarrow> length (sep_join rows) = nf * length rows + (length rows - 1)"
  by (induction rows rule: sep_join.induct) auto

text \<open>Dropping the special ids from a sequence leaves the ids of its rows in order.\<close>

definition payload :: "int list \<Rightarrow> int list" where
  "payload s = filter (\<lambda>t. SEP_TOKEN_ID < t) s"

lemma payload_sep_join:
  "list_all (list_all (\<lambda>t. SEP_TOKEN_ID < t)) rows \<Longrightarrow> payload (sep_join rows) = concat rows"
  by (induction rows rule: sep_join.induct) (auto simp: payload_def list_all_iff filter_id_conv)

lemma chunk_sequence_lossless:
  assumes "list_all (\<lambda>r. length r = nf) rows" and "rows \<noteq> []"
    and "(nf + 1) * length rows + 1 \<le> L"
  shows "chunk_sequence L rows = [BOS_TOKEN_ID] @ sep_join rows @ [EOS_TOKEN_ID] @
    replicate (L - ((nf + 1) * length rows + 1)) PAD_TOKEN_ID"
proof -
  have "0 < length rows" using assms(2) by simp
  then have len: "length ([BOS_TOKEN_ID] @ sep_join rows @ [EOS_TOKEN_ID]) = (nf + 1) * length rows + 1"
    using length_sep_join [OF assms(1)] by simp
  then show ?thesis
    using pad_to_fits [of "[BOS_TOKEN_ID] @ sep_join rows @ [EOS_TOKEN_ID]" L] assms(3)
    by (simp add: chunk_sequence_def chunk_body_sep_join)
qed

lemma chunk_sequence_payload:
  assumes "list_all (\<lambda>r. length r = nf) rows" and "rows \<noteq> []"
    and "(nf + 1) * length rows + 1 \<le> L" and "list_all (list_all (\<lambda>t. SEP_TOKEN_ID < t)) rows"
  shows "payload (chunk_sequence L rows) = concat rows"
  unfolding chunk_sequence_lossless [OF assms(1-3)]
  using payload_sep_join [OF assms(4)] by (simp add: payload_def token_id_defs)

text \<open>The transactions by time, as pairs of time stamp and ids sorted by the time stamp.\<close>

definition rows_by_time :: "group \<Rightarrow> int list list" where
  "rows_by_time g = map snd (sort_key fst (zip (grp_ts g) (grp_token_ids g)))"

lemma sort_key_map: "sort_key f (map g xs) = map g (sort_key (\<lambda>x. f (g x)) xs)"
proof -
  have "insort_key f (g x) (map g ys) = map g (insort_key (\<lambda>x. f (g x)) x ys)" for x ys
    by (induction ys) simp_all
  then show ?thesis by (induction xs) simp_all
qed

lemma set_argsort [simp]: "set (argsort ts) = {0..<length ts}"
  by (simp add: argsort_def)

lemma length_argsort [simp]: "length (argsort ts) = length ts"
  by (simp add: argsort_def)

lemma time_order_nth:
  assumes "length (grp_ts g) \<le> length (grp_token_ids g)"
  shows "time_order g = Inr (map (\<lambda>i. grp_token_ids g ! i) (argsort (grp_ts g)))"
  unfolding time_order_def by (rule rmap_Inr_map) (use assms in auto)

lemma time_order_rows:
  assumes "length (grp_ts g) = length (grp_token_ids g)"
  shows "time_order g = Inr (rows_by_time g)" and "mset (rows_by_time g) = mset (grp_token_ids g)"
proof -
  let ?p = "\<lambda>i. (grp_ts g ! i, grp_token_ids g ! i)"
  have "zip (grp_ts g) (grp_token_ids g) = map ?p [0..<length (grp_ts g)]"
    using assms by (intro nth_equalityI) auto
  then have "rows_by_time g = map (\<lambda>i. grp_token_ids g ! i) (argsort (grp_ts g))"
    by (simp add: rows_by_time_def argsort_def sort_key_map)
  then show "time_order g = Inr (rows_by_time g)" using time_order_nth assms by simp
  show "mset (rows_by_time g) = mset (grp_token_ids g)"
    unfolding rows_by_time_def mset_map mset_sort using assms by (simp flip: mset_map)
qed

lemma rmap_Inl_first: "x \<in> set xs \<Longrightarrow> f x = Inl e \<Longrightarrow> (\<And>y e'. y \<in> set xs \<Longrightarrow> f y = Inl e' \<Longrightarrow> e' = e) \<Longrightarrow> rmap f xs = Inl e"
proof (induction xs)
  case (Cons a xs)
  show ?case
  proof (cases "f a")
    case (Inl e')
    then have "e' = e" using Cons.prems(3) by auto
    then show ?thesis using Inl by simp
  next
    case (Inr y)
    then have "x \<in> set xs" using Cons.prems(1,2) by auto
    then have "rmap f xs = Inl e" by (rule Cons.IH [OF _ Cons.prems(2)]) (rule Cons.prems(3), simp_all)
    then show ?thesis using Inr by simp
  qed
qed simp

subsection \<open>Properties\<close>

text \<open>C4: the call raises an index error exactly when there are more time stamps than rows of ids and else
  fails only for a zero chunk size; otherwise there is one training sequence per started chunk of
  time stamps and every sequence has exactly the configured length.\<close>

theorem build_sequences_shape:
  "(length (grp_ts g) > length (grp_token_ids g) \<longrightarrow> build_sequences g seq_length chunk_size = Inl IndexError) \<and>
   (length (grp_ts g) \<le> length (grp_token_ids g) \<longrightarrow>
     (chunk_size = 0 \<longrightarrow> build_sequences g seq_length chunk_size = Inl (ValueError ''range() arg 3 must not be zero'')) \<and>
     (chunk_size > 0 \<longrightarrow> (\<exists>seqs. build_sequences g seq_length chunk_size = Inr seqs \<and>
        length seqs = (length (grp_ts g) + chunk_size - 1) div chunk_size \<and> list_all (\<lambda>s. length s = seq_length) seqs)))"
proof (intro conjI impI)
  assume more: "length (grp_ts g) > length (grp_token_ids g)"
  then have "length (grp_ts g) - 1 \<in> set (argsort (grp_ts g))" by simp
  then have "time_order g = Inl IndexError" unfolding time_order_def
    by (rule rmap_Inl_first) (use more in \<open>auto split: if_splits\<close>)
  then show "build_sequences g seq_length chunk_size = Inl IndexError" by (simp add: build_sequences_def)
qed (simp_all add: build_sequences_def time_order_nth length_chunks list_all_iff chunk_sequence_def)

theorem build_sequences_shape_witness:
  "\<exists>seqs. build_sequences \<lparr>grp_ts = [5, 3, 4], grp_token_ids = [[7], [8], [9]]\<rparr> 6 2 = Inr seqs \<and>
     length seqs = 2 \<and> list_all (\<lambda>s. length s = 6) seqs"
  using build_sequences_shape [of "\<lparr>grp_ts = [5, 3, 4], grp_token_ids = [[7], [8], [9]]\<rparr>" 6 2] by (simp flip: numeral_2_eq_2)

lemma full_chunk_no_padding:
  assumes "list_all (\<lambda>r. length r = nf) rows" and "rows \<noteq> []" and "(nf + 1) * length rows + 1 = L"
    and "list_all (list_all (\<lambda>t. SEP_TOKEN_ID < t)) rows"
  shows "PAD_TOKEN_ID \<notin> set (chunk_sequence L rows)" and "last (chunk_sequence L rows) = EOS_TOKEN_ID"
proof -
  have "chunk_sequence L rows = [BOS_TOKEN_ID] @ sep_join rows @ [EOS_TOKEN_ID]"
    using chunk_sequence_lossless [OF assms(1,2)] assms(3) by simp
  moreover have "PAD_TOKEN_ID \<notin> set (sep_join rows)"
    using assms(4) by (induction rows rule: sep_join.induct) (auto simp: list_all_iff token_id_defs)
  ultimately show "PAD_TOKEN_ID \<notin> set (chunk_sequence L rows)" and "last (chunk_sequence L rows) = EOS_TOKEN_ID"
    by (simp_all add: token_id_defs)
qed

lemma chunks_butlast_full: "0 < n \<Longrightarrow> c \<in> set (butlast (chunks n xs)) \<Longrightarrow> length c = n"
proof (induction n xs rule: chunks.induct)
  case (1 n xs)
  show ?case
  proof (cases "xs = [] \<or> drop n xs = []")
    case True
    then have "butlast (chunks n xs) = []" by (auto simp: chunks.simps [of n xs])
    then show ?thesis using "1.prems" by simp
  next
    case False
    then have "chunks n (drop n xs) \<noteq> []" using "1.prems"(1) by (subst chunks.simps) simp
    then have "c = take n xs \<or> c \<in> set (butlast (chunks n (drop n xs)))"
      using "1.prems" False by (auto simp: chunks.simps [of n xs])
    then show ?thesis using 1 False by auto
  qed
qed

text \<open>C3: with the configured constants no transaction is lost, repeated or cut: for a group with one time
  stamp per transaction and rows of twelve field ids (none of them a special id) the ids of the
  sequences, in order, are the ids of exactly the group's transactions, sorted by time with ties in
  their original order; every sequence but the last holds a full chunk that fills the 4096
  positions up to the end token, without any padding.\<close>

theorem build_sequences_lossless:
  assumes "length (grp_ts g) = length (grp_token_ids g)" and "list_all (\<lambda>r. length r = 12) (grp_token_ids g)"
    and "list_all (list_all (\<lambda>t. SEP_TOKEN_ID < t)) (grp_token_ids g)"
  shows "\<exists>seqs rows. build_sequences g SEQ_LENGTH SEQ_CHUNK_SIZE = Inr seqs \<and>
    concat (map payload seqs) = concat rows \<and> mset rows = mset (grp_token_ids g) \<and>
    rows = map snd (sort_key fst (zip (grp_ts g) (grp_token_ids g))) \<and>
    (\<forall>s. s \<in> set (butlast seqs) \<longrightarrow> length s = 4096 \<and> PAD_TOKEN_ID \<notin> set s \<and> last s = EOS_TOKEN_ID)"
proof -
  note rows = time_order_rows [OF assms(1)]
  let ?cs = "chunks SEQ_CHUNK_SIZE (rows_by_time g)"
  let ?seqs = "map (chunk_sequence SEQ_LENGTH) ?cs"
  have c: "c \<noteq> []" "length c \<le> 315" "list_all (\<lambda>r. length r = 12) c" "list_all (list_all (\<lambda>t. SEP_TOKEN_ID < t)) c"
    if "c \<in> set ?cs" for c
    using chunks_bounds [OF _ that] assms(2,3) mset_eq_setD [OF rows(2)] by (auto simp: SEQ_CHUNK_SIZE_def list_all_iff)
  have "payload (chunk_sequence SEQ_LENGTH c) = concat c" if "c \<in> set ?cs" for c
    by (rule chunk_sequence_payload [OF c(3) c(1) _ c(4)]) (use c(2) that in \<open>simp_all add: SEQ_LENGTH_def\<close>)
  then have "concat (map payload ?seqs) = concat (map concat ?cs)"
    by (simp add: comp_def cong: map_cong)
  also have "\<dots> = concat (rows_by_time g)"
    using concat_chunks [of SEQ_CHUNK_SIZE "rows_by_time g"] by (simp add: concat_map_concat SEQ_CHUNK_SIZE_def)
  finally have payloads: "concat (map payload ?seqs) = concat (rows_by_time g)" .
  have full: "length s = 4096 \<and> PAD_TOKEN_ID \<notin> set s \<and> last s = EOS_TOKEN_ID" if s: "s \<in> set (butlast ?seqs)" for s
  proof -
    obtain d where d: "d \<in> set (butlast ?cs)" "s = chunk_sequence SEQ_LENGTH d" using s by (auto simp flip: map_butlast)
    have "d \<in> set ?cs" using d(1) by (rule in_set_butlastD)
    moreover have "length d = 315" using chunks_butlast_full [OF _ d(1)] by (simp add: SEQ_CHUNK_SIZE_def)
    ultimately show ?thesis
      using full_chunk_no_padding [OF c(3) c(1) _ c(4), of d SEQ_LENGTH] d(2) by (simp add: SEQ_LENGTH_def chunk_sequence_def)
  qed
  have "build_sequences g SEQ_LENGTH SEQ_CHUNK_SIZE = Inr ?seqs" by (simp add: build_sequences_def rows(1) SEQ_CHUNK_SIZE_def)
  then show ?thesis using payloads rows(2) full unfolding rows_by_time_def by blast
qed

theorem build_sequences_lossless_witness:
  "\<exists>seqs. build_sequences \<lparr>grp_ts = [9, 2], grp_token_ids = [replicate 12 7, replicate 12 8]\<rparr>
       SEQ_LENGTH SEQ_CHUNK_SIZE = Inr seqs \<and>
     concat (map payload seqs) = replicate 12 8 @ replicate 12 7"
proof -
  let ?g = "\<lparr>grp_ts = [9, 2], grp_token_ids = [replicate 12 7, replicate 12 (8::int)]\<rparr>"
  have s: "map snd (sort_key fst (zip (grp_ts ?g) (grp_token_ids ?g))) = [replicate 12 8, replicate 12 7]" by simp
  have "length (grp_ts ?g) = length (grp_token_ids ?g)" "list_all (\<lambda>r. length r = 12) (grp_token_ids ?g)"
    "list_all (list_all (\<lambda>t. SEP_TOKEN_ID < t)) (grp_token_ids ?g)" by (simp_all add: SEP_TOKEN_ID_def list_all_iff)
  from build_sequences_lossless [OF this] obtain seqs where
    "build_sequences ?g SEQ_LENGTH SEQ_CHUNK_SIZE = Inr seqs" "concat (map payload seqs) = concat [replicate 12 8, replicate 12 7]"
    unfolding s by blast
  then show ?thesis by (intro exI [of _ seqs]) simp
qed

lemma embed_pad_eq:
  assumes "2 \<le> L"
  shows "embed_pad L row = Inr ([BOS_TOKEN_ID] @ take (L - 2) row @ [EOS_TOKEN_ID] @
    replicate (L - 2 - length row) PAD_TOKEN_ID)"
proof -
  have "L = Suc (Suc (L - 2))" using assms by simp
  then obtain M where M: "L = Suc (Suc M)" by blast
  let ?k = "min (length row) M"
  let ?ids = "(replicate L PAD_TOKEN_ID)[0 := BOS_TOKEN_ID]"
  have k: "Suc M - ?k = Suc (M - length row)" "take ?k row = take M row" "length (take M row) = ?k"
    by (simp_all add: min_def Suc_diff_le)
  have rep: "?ids = BOS_TOKEN_ID # replicate (Suc M) PAD_TOKEN_ID" by (simp add: M)
  have ids: "take 1 ?ids = [BOS_TOKEN_ID]"
    "drop (1 + ?k) ?ids = PAD_TOKEN_ID # replicate (M - length row) PAD_TOKEN_ID"
    unfolding rep plus_1_eq_Suc drop_Suc_Cons drop_replicate k(1) by simp_all
  have upd: "(b # r @ p # ps)[1 + length r := e] = [b] @ r @ [e] @ ps" for b r p ps and e :: int
    by (simp add: list_update_append)
  have "(take 1 ?ids @ take ?k row @ drop (1 + ?k) ?ids)[1 + ?k := EOS_TOKEN_ID] =
      [BOS_TOKEN_ID] @ take M row @ [EOS_TOKEN_ID] @ replicate (M - length row) PAD_TOKEN_ID"
    unfolding ids k(2) using upd [of BOS_TOKEN_ID "take M row"] by (simp only: k(3) append.simps)
  then show ?thesis using M by (simp add: embed_pad_def Let_def)
qed

text \<open>The input row of the embedding model is the begin token, the row's ids cut to the
  space that is left, the end token and padding; for ids that are not the padding id the
  pooled position is the position of the end token.\<close>

lemma embed_pools_end_token:
  assumes "2 \<le> L" and "PAD_TOKEN_ID \<notin> set row"
  shows "\<exists>ids. embed_pad L row = Inr ids \<and> length ids = L \<and>
    ids ! last_token_position ids = EOS_TOKEN_ID \<and>
    take (last_token_position ids) ids = BOS_TOKEN_ID # take (L - 2) row"
proof -
  let ?r = "take (L - 2) row"
  let ?ids = "[BOS_TOKEN_ID] @ ?r @ [EOS_TOKEN_ID] @ replicate (L - 2 - length row) PAD_TOKEN_ID"
  have mask_one: "sum_list (attention_mask xs) = length xs" if "PAD_TOKEN_ID \<notin> set xs" for xs
    using that by (induction xs) (auto simp: attention_mask_def)
  have mask_pad: "sum_list (attention_mask (replicate n PAD_TOKEN_ID)) = 0" for n
    by (induction n) (auto simp: attention_mask_def)
  have app: "sum_list (attention_mask (xs @ ys)) = sum_list (attention_mask xs) + sum_list (attention_mask ys)"
    for xs ys by (simp add: attention_mask_def)
  have "PAD_TOKEN_ID \<notin> set ?r" using assms(2) by (auto dest: in_set_takeD)
  then have pos: "last_token_position ?ids = Suc (length ?r)"
    unfolding last_token_position_def app mask_pad
    by (simp add: mask_one) (simp add: attention_mask_def token_id_defs)
  have "?ids ! last_token_position ?ids = EOS_TOKEN_ID"
    unfolding pos by (simp add: nth_append del: length_take)
  moreover have "take (last_token_position ?ids) ?ids = BOS_TOKEN_ID # ?r"
    unfolding pos by (simp del: length_take take_append) (simp add: min_def)
  moreover have "length ?ids = L" using assms(1) by (simp add: min_def)
  ultimately show ?thesis using embed_pad_eq [OF assms(1), of row] by blast
qed

end
