(* ===== verification/Splits.thy ===== *)
theory Splits
  imports Complex_Main Py_String Step_Contracts
begin

section \<open>The preprocessing scripts\<close>

text \<open>
  Models \<open>tfm_repo/scripts/create_temporal_splits.py\<close> and the path and argument handling
  of \<open>tokenize_splits.py\<close>: version labels and default directories, argument checks, the
  daily counts and cutoffs, the masks of the three splits with the per-split writers and
  statistics, and the preparation of the output directory. Parquet files are lists of row
  batches; ratios are rationals.
\<close>

subsection \<open>Version labels and default directories\<close>

definition is_digit :: "char \<Rightarrow> bool" where
  "is_digit c = (48 \<le> (of_char c :: nat) \<and> (of_char c :: nat) \<le> 57)"

definition is_alnum :: "char \<Rightarrow> bool" where
  "is_alnum c = (is_digit c \<or> (65 \<le> (of_char c :: nat) \<and> (of_char c :: nat) \<le> 90) \<or>
     (97 \<le> (of_char c :: nat) \<and> (of_char c :: nat) \<le> 122))"

text \<open>The word characters of a regular expression: letters, digits and the underscore.\<close>

definition is_word_char :: "char \<Rightarrow> bool" where
  "is_word_char c = (is_alnum c \<or> c = CHR ''_'')"

text \<open>\<open>re.search\<close> of a version: a word boundary, \<open>v\<close>, digits, a word boundary.\<close>

fun find_version :: "bool \<Rightarrow> string \<Rightarrow> string option" where
  "find_version prev_word [] = None"
| "find_version prev_word (c # cs) =
     (let ds = takeWhile is_digit cs; rest = dropWhile is_digit cs
      in if \<not> prev_word \<and> c = CHR ''v'' \<and> ds \<noteq> [] \<and> (rest = [] \<or> \<not> is_word_char (hd rest))
         then Some (c # ds)
         else find_version (is_word_char c) cs)"

text \<open>\<open>re.sub\<close> of runs of other characters by one underscore.\<close>

fun collapse_runs :: "bool \<Rightarrow> string \<Rightarrow> string" where
  "collapse_runs in_run [] = []"
| "collapse_runs in_run (c # cs) =
     (if is_alnum c then c # collapse_runs False cs
      else if in_run then collapse_runs True cs
      else CHR ''_'' # collapse_runs True cs)"

definition version_label :: "string \<Rightarrow> string" where
  "version_label s =
     (case find_version False s of
        Some v \<Rightarrow> v
      | None \<Rightarrow>
         (let t = strip_by (\<lambda>c. c = CHR ''_'') (collapse_runs False s)
          in if t = [] then ''run'' else t))"

text \<open>\<open>Path.stem\<close>: the name up to its last dot, unless that dot starts or ends it.\<close>

definition py_stem :: "string \<Rightarrow> string" where
  "py_stem name =
     (let suffix = takeWhile (\<lambda>c. c \<noteq> CHR ''.'') (rev name);
          i = length name - length suffix - 1
      in if CHR ''.'' \<in> set name \<and> suffix \<noteq> [] \<and> 0 < i then take i name else name)"

text \<open>An absolute path is the list of its parts below the root.\<close>

type_synonym path = "string list"

definition default_data_root :: "path \<Rightarrow> path \<Rightarrow> path" where
  "default_data_root tfm_root raw =
     (if length raw \<ge> 3 \<and> take 2 (drop (length raw - 3) raw) = [''raw'', ''parquet'']
      then take (length raw - 3) raw
      else tfm_root @ [''data''])"

definition default_split_dir :: "path \<Rightarrow> path \<Rightarrow> path" where
  "default_split_dir tfm_root raw =
     default_data_root tfm_root raw @ [''temporal_split_'' @ version_label (py_stem (last raw))]"

definition default_tokenized_dir :: "path \<Rightarrow> path" where
  "default_tokenized_dir split_dir = butlast split_dir @ [''tokenized_'' @ version_label (last split_dir)]"

subsection \<open>Argument checks\<close>

definition validate_split_args ::
    "path \<Rightarrow> path \<Rightarrow> bool \<Rightarrow> rat \<Rightarrow> rat \<Rightarrow> path option \<Rightarrow> (path \<times> path) result" where
  "validate_split_args tfm_root raw raw_exists train_ratio test_ratio output_dir =
     (if \<not> raw_exists then Inl (FileNotFoundError ''Raw parquet file does not exist'')
      else if \<not> (0 < train_ratio \<and> train_ratio < test_ratio \<and> test_ratio < 1)
      then Inl (ValueError ''0 < train < test < 1'')
      else Inr (raw, case output_dir of Some out \<Rightarrow> out | None \<Rightarrow> default_split_dir tfm_root raw))"

definition validate_tokenize_args ::
    "path \<Rightarrow> bool \<Rightarrow> (string \<Rightarrow> bool) \<Rightarrow> int \<Rightarrow> path option \<Rightarrow> (path \<times> path) result" where
  "validate_tokenize_args split_dir dir_exists has_split actors output_dir =
     (if \<not> dir_exists then Inl (FileNotFoundError ''Split directory does not exist'')
      else if filter (\<lambda>s. \<not> has_split s) [''train'', ''val'', ''test''] \<noteq> []
      then Inl (FileNotFoundError ''Missing split directories'')
      else if actors < 1 then Inl (ValueError ''--actors must be at least 1'')
      else Inr (split_dir, case output_dir of Some out \<Rightarrow> out | None \<Rightarrow> default_tokenized_dir split_dir))"

subsection \<open>Rows\<close>

datatype fraud_cell = FraudBool bool | FraudText string

datatype time_cell = TimeText string | TimeValue nat nat

record txn_row =
  row_year :: int
  row_month :: int
  row_day :: int
  row_time :: time_cell
  row_fraud :: fraud_cell

text \<open>\<open>pc.utf8_lpad(s, 2, "0")\<close> and the join of the three parts.\<close>

definition row_date :: "txn_row \<Rightarrow> string" where
  "row_date r = str_of_int (row_year r) @ ''-'' @ zfill 2 (str_of_int (row_month r)) @ ''-'' @
     zfill 2 (str_of_int (row_day r))"

fun fraud_bool :: "fraud_cell \<Rightarrow> bool" where
  "fraud_bool (FraudBool b) = b"
| "fraud_bool (FraudText s) = (let u = py_upper s in u = ''YES'' \<or> u = ''1'')"

text \<open>\<open>normalize_output_table\<close>: typed times become \<open>HH:MM\<close>, boolean labels become text.\<close>

definition normalize_row :: "txn_row \<Rightarrow> txn_row" where
  "normalize_row r =
     r\<lparr>row_time := (case row_time r of
          TimeValue h m \<Rightarrow> TimeText (zfill 2 (str_of_nat h) @ '':'' @ zfill 2 (str_of_nat m))
        | TimeText s \<Rightarrow> TimeText s),
       row_fraud := (case row_fraud r of
          FraudBool b \<Rightarrow> FraudText (if b then ''Yes'' else ''No'')
        | FraudText s \<Rightarrow> FraudText s)\<rparr>"

subsection \<open>Daily counts and cutoffs\<close>

text \<open>\<open>pc.value_counts\<close>: the distinct values with their counts.\<close>

definition value_counts :: "'a list \<Rightarrow> ('a \<times> nat) list" where
  "value_counts xs = map (\<lambda>v. (v, count_list xs v)) (py_unique xs)"

definition add_counts :: "(string \<times> nat) list \<Rightarrow> (string, nat) dict \<times> nat \<Rightarrow> (string, nat) dict \<times> nat" where
  "add_counts vc st =
     fold (\<lambda>(v, c) (counts, n_rows). (AList.update v (dict_get counts v 0 + c) counts, n_rows + c)) vc st"

definition compute_daily_counts :: "txn_row list list \<Rightarrow> (string, nat) dict \<times> nat" where
  "compute_daily_counts batches =
     fold (\<lambda>batch. add_counts (value_counts (map row_date batch))) batches ([], 0)"

fun cutoff_loop :: "rat \<Rightarrow> rat \<Rightarrow> nat \<Rightarrow> (string \<times> nat) list \<Rightarrow> nat \<Rightarrow> string option \<Rightarrow> string option
    \<Rightarrow> string option \<times> string option" where
  "cutoff_loop a b n_rows [] cumulative train_cut test_cut = (train_cut, test_cut)"
| "cutoff_loop a b n_rows ((date, cnt) # rest) cumulative train_cut test_cut =
     (let cumulative' = cumulative + cnt;
          train_cut' = (if train_cut = None \<and> of_nat cumulative' \<ge> of_nat n_rows * a then Some date else train_cut)
      in if test_cut = None \<and> of_nat cumulative' \<ge> of_nat n_rows * b then (train_cut', Some date)
         else cutoff_loop a b n_rows rest cumulative' train_cut' test_cut)"

definition cutoffs_from_counts :: "(string, nat) dict \<Rightarrow> nat \<Rightarrow> rat \<Rightarrow> rat \<Rightarrow> (string \<times> string) result" where
  "cutoffs_from_counts counts n_rows train_ratio test_ratio =
     (case cutoff_loop train_ratio test_ratio n_rows (sort_key fst counts) 0 None None of
        (Some train_cut, Some test_cut) \<Rightarrow> Inr (train_cut, test_cut)
      | _ \<Rightarrow> Inl (RuntimeError ''Could not compute temporal cutoffs from daily counts''))"

subsection \<open>Writing the splits\<close>

datatype split = Train | Val | Test

definition split_mask :: "string \<Rightarrow> string \<Rightarrow> split \<Rightarrow> string \<Rightarrow> bool" where
  "split_mask train_cut test_cut s date =
     (case s of Train \<Rightarrow> date < train_cut
      | Val \<Rightarrow> date \<ge> train_cut \<and> date < test_cut
      | Test \<Rightarrow> date \<ge> test_cut)"

text \<open>
  The writer of a split is opened by its first non-empty table (\<open>None\<close> before); its value
  is what has been written. The statistics count rows and frauds.
\<close>

record split_state =
  writer :: "txn_row list option"
  st_rows :: nat
  st_fraud :: nat

definition write_table :: "txn_row list \<Rightarrow> split_state \<Rightarrow> split_state \<times> nat" where
  "write_table table s =
     (if length table = 0 then (s, 0)
      else (let t = map normalize_row table
            in (s\<lparr>writer := Some ((case writer s of None \<Rightarrow> [] | Some w \<Rightarrow> w) @ t)\<rparr>, length t)))"

definition write_split_batch :: "string \<Rightarrow> string \<Rightarrow> split \<Rightarrow> txn_row list \<Rightarrow> split_state \<Rightarrow> split_state" where
  "write_split_batch train_cut test_cut sp table s =
     (let mask = (\<lambda>r. split_mask train_cut test_cut sp (row_date r));
          (s', rows) = write_table (filter mask table) s
      in s'\<lparr>st_rows := st_rows s' + rows,
            st_fraud := st_fraud s' + length (filter (\<lambda>r. mask r \<and> fraud_bool (row_fraud r)) table)\<rparr>)"

definition write_splits :: "txn_row list list \<Rightarrow> string \<Rightarrow> string \<Rightarrow> split \<Rightarrow> split_state" where
  "write_splits batches train_cut test_cut sp =
     fold (write_split_batch train_cut test_cut sp) batches \<lparr>writer = None, st_rows = 0, st_fraud = 0\<rparr>"

text \<open>The output directory: the files of each split directory, \<open>None\<close> where there is none.\<close>

type_synonym out_dir = "split \<Rightarrow> string list option"

definition split_dirs_ready :: "out_dir \<Rightarrow> bool" where
  "split_dirs_ready d = list_all (\<lambda>s. case d s of Some (_ # _) \<Rightarrow> True | _ \<Rightarrow> False) [Train, Val, Test]"

definition prepare_output_dir :: "out_dir \<Rightarrow> bool \<Rightarrow> out_dir result" where
  "prepare_output_dir d overwrite =
     (if split_dirs_ready d \<and> \<not> overwrite
      then Inl (FileExistsError ''Split output already exists; pass --overwrite to replace'')
      else (let d' = (if split_dirs_ready d then (\<lambda>_. None) else d)
            in Inr (\<lambda>s. case d' s of None \<Rightarrow> Some [] | Some fs \<Rightarrow> Some fs)))"

text \<open>\<open>main\<close>: counts, cutoffs, output directory, splits.\<close>

definition create_temporal_splits ::
    "txn_row list list \<Rightarrow> rat \<Rightarrow> rat \<Rightarrow> out_dir \<Rightarrow> bool \<Rightarrow> (string \<times> string \<times> (split \<Rightarrow> split_state)) result" where
  "create_temporal_splits batches train_ratio test_ratio d overwrite =
     (let (counts, n_rows) = compute_daily_counts batches
      in rbind (cutoffs_from_counts counts n_rows train_ratio test_ratio) (\<lambda>(train_cut, test_cut).
           rbind (prepare_output_dir d overwrite) (\<lambda>_.
             Inr (train_cut, test_cut, write_splits batches train_cut test_cut))))"

end
