(* ===== verification/Splits_Props.thy ===== *)
theory Splits_Props
  imports Splits "HOL-Library.Sublist"
begin

section \<open>Correctness of the temporal split\<close>

text \<open>
  Batching does not matter for the daily counts; for ratios in order the cutoffs exist and
  bracket the ratios; the three splits partition the rows, keep their order and are
  strictly ordered in time; the statistics count what was written.
\<close>

subsection \<open>Counts\<close>

lemma add_counts_get:
  "distinct (map fst vc) \<Longrightarrow>
   dict_get (fst (add_counts vc (counts, n))) x 0 =
     dict_get counts x 0 + dict_get vc x 0 \<and>
   snd (add_counts vc (counts, n)) = n + sum_list (map snd vc) \<and>
   fst ` set (fst (add_counts vc (counts, n))) = fst ` set counts \<union> fst ` set vc \<and>
   (distinct (map fst counts) \<longrightarrow> distinct (map fst (fst (add_counts vc (counts, n)))))"
proof (induction vc arbitrary: counts n)
  case (Cons p vc)
  obtain v c where p: "p = (v, c)" by (cases p)
  let ?counts = "AList.update v (dict_get counts v 0 + c) counts"
  have step: "add_counts ((v, c) # vc) (counts, n) = add_counts vc (?counts, n + c)"
    by (simp add: add_counts_def)
  have keys: "fst ` set ?counts = insert v (fst ` set counts)"
    using keys_dict_update [of "[(v, dict_get counts v 0 + c)]" counts] by simp
  have "v \<in> fst ` set vc \<Longrightarrow> x = v \<Longrightarrow> False" using Cons.prems p by auto
  then have "x = v \<Longrightarrow> dict_get vc x 0 = 0"
    using Cons.prems p by (simp add: dict_get_def) (metis map_of_eq_None_iff option.simps(4))
  then have "dict_get ?counts x 0 + dict_get vc x 0 = dict_get counts x 0 + dict_get ((v, c) # vc) x 0"
    by (auto simp: dict_get_def dict_simps)
  with Cons.IH [of ?counts "n + c"] Cons.prems show ?case
    unfolding p step by (simp add: keys distinct_update)
qed (simp add: add_counts_def dict_get_def)

lemma value_counts_facts:
  "distinct (map fst (value_counts xs))"
  "dict_get (value_counts xs) x 0 = count_list xs x"
  "sum_list (map snd (value_counts xs)) = length xs"
  "fst ` set (value_counts xs) = set xs"
proof -
  show d: "distinct (map fst (value_counts xs))" by (simp add: value_counts_def comp_def)
  show keys: "fst ` set (value_counts xs) = set xs" by (auto simp: value_counts_def image_image)
  show "dict_get (value_counts xs) x 0 = count_list xs x"
  proof (cases "x \<in> set xs")
    case True
    then have "map_of (value_counts xs) x = Some (count_list xs x)"
      using d by (intro map_of_is_SomeI) (auto simp: value_counts_def)
    then show ?thesis by (simp add: dict_get_def)
  next
    case False
    then have "map_of (value_counts xs) x = None" using keys by (simp add: map_of_eq_None_iff)
    then show ?thesis using False by (simp add: dict_get_def)
  qed
  show "sum_list (map snd (value_counts xs)) = length xs"
    using sum_count_set [of xs "set xs"]
    by (simp add: value_counts_def comp_def sum_list_distinct_conv_sum_set)
qed

lemma daily_counts_fold:
  fixes batches :: "txn_row list list" and n :: nat
  assumes "distinct (map fst counts)"
  defines "r \<equiv> fold (\<lambda>batch. add_counts (value_counts (map row_date batch))) batches (counts, n)"
  shows "dict_get (fst r) x 0 = dict_get counts x 0 + count_list (map row_date (concat batches)) x \<and>
    snd r = n + length (concat batches) \<and>
    fst ` set (fst r) = fst ` set counts \<union> row_date ` set (concat batches) \<and> distinct (map fst (fst r))"
  using assms(1) unfolding r_def
proof (induction batches arbitrary: counts n)
  case (Cons b bs)
  obtain c1 n1 where c1: "add_counts (value_counts (map row_date b)) (counts, n) = (c1, n1)" by fastforce
  note facts = add_counts_get [OF value_counts_facts(1), of "map row_date b" counts n]
  have "distinct (map fst c1)" using facts Cons.prems c1 by simp
  from Cons.IH [OF this, of n1] facts [of x] c1 show ?case
    by (simp add: value_counts_facts) auto
qed simp

lemma compute_daily_counts_facts:
  "dict_get (fst (compute_daily_counts batches)) x 0 = count_list (map row_date (concat batches)) x"
  "snd (compute_daily_counts batches) = length (concat batches)"
  "fst ` set (fst (compute_daily_counts batches)) = row_date ` set (concat batches)"
  "distinct (map fst (fst (compute_daily_counts batches)))"
  using daily_counts_fold [of "[]" batches 0 x] by (simp_all add: compute_daily_counts_def dict_get_def)

subsection \<open>Cutoffs\<close>

text \<open>The rows on dates before (and up to) a date, from the sorted counts.\<close>

definition rows_before :: "(string \<times> nat) list \<Rightarrow> string \<Rightarrow> nat" where
  "rows_before cs d = sum_list (map snd (filter (\<lambda>(e, c). e < d) cs))"

definition rows_upto :: "(string \<times> nat) list \<Rightarrow> string \<Rightarrow> nat" where
  "rows_upto cs d = sum_list (map snd (filter (\<lambda>(e, c). e \<le> d) cs))"

definition is_cut :: "rat \<Rightarrow> nat \<Rightarrow> (string \<times> nat) list \<Rightarrow> string \<Rightarrow> bool" where
  "is_cut a n cs d \<longleftrightarrow> d \<in> fst ` set cs \<and> of_nat (rows_before cs d) < of_nat n * a \<and>
     of_nat n * a \<le> of_nat (rows_upto cs d)"

lemma is_cut_at_split:
  assumes "cs = pre @ (d, c) # rest" and "sorted_wrt (<) (map fst cs)"
    and "of_nat (sum_list (map snd pre)) < of_nat n * a"
    and "of_nat n * a \<le> of_nat (sum_list (map snd pre) + c)"
  shows "is_cut a n cs d"
proof -
  have lt: "\<forall>x\<in>set pre. fst x < d" and gt: "\<forall>x\<in>set rest. d < fst x"
    using assms(1,2) by (auto simp: sorted_wrt_append)
  have "filter (\<lambda>(e, c). e < d) pre = pre" "filter (\<lambda>(e, c). e \<le> d) pre = pre"
    using lt by (auto intro!: filter_True)
  moreover have "filter (\<lambda>(e, c). e < d) rest = []" "filter (\<lambda>(e, c). e \<le> d) rest = []"
    using gt by (auto intro!: filter_False)
  ultimately have "filter (\<lambda>(e, c). e < d) cs = pre" "filter (\<lambda>(e, c). e \<le> d) cs = pre @ [(d, c)]"
    unfolding assms(1) by simp_all
  then show ?thesis using assms by (auto simp: is_cut_def rows_before_def rows_upto_def)
qed

text \<open>The loop invariant: each cut found so far is the cut of its ratio.\<close>

lemma cutoff_loop_correct:
  assumes "cs = pre @ rest" and "sorted_wrt (<) (map fst cs)" and "0 < a" and "a < b" and "b < 1"
    and "sum_list (map snd cs) = n" and "0 < n"
    and "case train of None \<Rightarrow> of_nat (sum_list (map snd pre)) < of_nat n * a | Some d \<Rightarrow> is_cut a n cs d"
    and "of_nat (sum_list (map snd pre)) < of_nat n * b"
  shows "\<exists>d e. cutoff_loop a b n rest (sum_list (map snd pre)) train None = (Some d, Some e) \<and>
    is_cut a n cs d \<and> is_cut b n cs e"
  using assms(1,8,9)
proof (induction rest arbitrary: pre train)
  case Nil
  then have "of_nat n < of_nat n * b" using assms(6) by simp
  moreover have "of_nat n * b < of_nat n" using assms(5,7) by simp
  ultimately show ?case by (simp add: not_less_iff_gr_or_eq)
next
  case (Cons x rest)
  obtain d c where x: "x = (d, c)" by (cases x)
  let ?cum = "sum_list (map snd pre) + c"
  obtain tr where tr: "tr = (if train = None \<and> of_nat ?cum \<ge> of_nat n * a then Some d else train)"
    by blast
  have loop: "cutoff_loop a b n (x # rest) (sum_list (map snd pre)) train None =
      (if of_nat ?cum \<ge> of_nat n * b then (tr, Some d) else cutoff_loop a b n rest ?cum tr None)"
    by (simp add: x tr Let_def)
  have train: "case tr of None \<Rightarrow> of_nat ?cum < of_nat n * a | Some d \<Rightarrow> is_cut a n cs d"
    using Cons.prems is_cut_at_split [OF Cons.prems(1) [unfolded x] assms(2), of n a]
    by (cases train) (auto simp: tr)
  show ?case
  proof (cases "of_nat ?cum \<ge> of_nat n * b")
    case True
    have "of_nat n * a < of_nat n * b" using assms(4,7) by simp
    with True have "of_nat n * a \<le> (of_nat ?cum :: rat)" by linarith
    then obtain t where t: "tr = Some t" by (cases train) (auto simp: tr)
    have "is_cut b n cs d"
      using is_cut_at_split [OF Cons.prems(1) [unfolded x] assms(2) Cons.prems(3)] True by simp
    with t train True show ?thesis unfolding loop by simp
  next
    case False
    have "cs = (pre @ [x]) @ rest" using Cons.prems(1) by simp
    moreover have cum: "sum_list (map snd (pre @ [x])) = ?cum" by (simp add: x)
    ultimately show ?thesis
      using Cons.IH [of "pre @ [x]" tr, unfolded cum] train False unfolding loop by simp
  qed
qed

text \<open>Sums over the sorted counts are numbers of rows.\<close>

lemma counts_sum:
  assumes "distinct (map fst cs)" and "\<And>e c. (e, c) \<in> set cs \<Longrightarrow> c = count_list ds e"
    and "fst ` set cs = set ds"
  shows "sum_list (map snd (filter (\<lambda>(e, c). P e) cs)) = length (filter P ds)"
proof -
  have cnt: "count_list (filter P ds) e = (if P e then count_list ds e else 0)" for e
    by (induction ds) auto
  have "sum_list (map snd (filter (\<lambda>(e, c). P e) cs)) = sum_list (map (count_list (filter P ds)) (map fst cs))"
    using assms(2) by (induction cs) (auto simp: cnt)
  also have "\<dots> = sum (count_list (filter P ds)) (set ds)"
    using assms(1,3) by (simp add: sum_list_distinct_conv_sum_set [of "map fst cs"] del: map_map)
  also have "\<dots> = length (filter P ds)" by (rule sum_count_set) auto
  finally show ?thesis .
qed

lemma sorted_counts:
  fixes counts :: "(string, nat) dict"
  assumes "distinct (map fst counts)"
  shows "sorted_wrt (<) (map fst (sort_key fst counts))"
proof -
  have "sorted (map fst (sort_key fst counts))" by simp
  moreover have "distinct (map fst (sort_key fst counts))"
    using assms by (metis distinct_map distinct_sort set_sort)
  ultimately show ?thesis by (simp add: strict_sorted_iff)
qed

lemma daily_counts_rows:
  assumes "compute_daily_counts batches = (counts, n)"
  defines "cs \<equiv> sort_key fst counts"
  shows "n = length (concat batches)" and "sorted_wrt (<) (map fst cs)"
    and "sum_list (map snd cs) = n"
    and "rows_before cs d = length (filter (\<lambda>r. row_date r < d) (concat batches))"
    and "rows_upto cs d = length (filter (\<lambda>r. row_date r \<le> d) (concat batches))"
proof -
  note f = compute_daily_counts_facts [of batches, unfolded assms(1) fst_conv snd_conv]
  show n: "n = length (concat batches)" using f(2) .
  show "sorted_wrt (<) (map fst cs)" unfolding cs_def by (rule sorted_counts [OF f(4)])
  have dist: "distinct (map fst cs)"
    unfolding cs_def using f(4) by (metis distinct_map distinct_sort set_sort)
  have val: "c = count_list (map row_date (concat batches)) e" if "(e, c) \<in> set cs" for e c
    using that f(1) [of e] f(4) by (auto simp: cs_def dict_get_def)
  have keys: "fst ` set cs = set (map row_date (concat batches))" using f(3) by (simp add: cs_def)
  note cnt = counts_sum [OF dist val keys]
  have filt: "length (filter P (map row_date (concat batches))) = length (filter (\<lambda>r. P (row_date r)) (concat batches))"
    for P by (simp add: filter_map comp_def)
  show "sum_list (map snd cs) = n" using cnt [of "\<lambda>_. True"] n by simp
  show "rows_before cs d = length (filter (\<lambda>r. row_date r < d) (concat batches))"
    using cnt [of "\<lambda>e. e < d"] filt by (simp add: rows_before_def)
  show "rows_upto cs d = length (filter (\<lambda>r. row_date r \<le> d) (concat batches))"
    using cnt [of "\<lambda>e. e \<le> d"] filt by (simp add: rows_upto_def)
qed

lemma is_cut_ordered:
  assumes "is_cut a n cs d" and "is_cut b n cs e" and "a < b" and "0 < n"
  shows "d \<le> e"
proof (rule ccontr)
  assume "\<not> d \<le> e"
  then have "rows_upto cs e \<le> rows_before cs d"
    unfolding rows_upto_def rows_before_def by (induction cs) auto
  moreover have "of_nat (rows_before cs d) < of_nat n * a" "of_nat n * b \<le> of_nat (rows_upto cs e)"
    using assms(1,2) by (auto simp: is_cut_def)
  moreover have "of_nat n * a < of_nat n * b" using assms(3,4) by simp
  ultimately show False by linarith
qed

subsection \<open>What the writers hold\<close>

lemma write_splits_state:
  fixes batches :: "txn_row list list" and tc xc :: string
  defines "rows sp \<equiv> filter (\<lambda>r. split_mask tc xc sp (row_date r)) (concat batches)"
  shows "write_splits batches tc xc sp =
    \<lparr>writer = (if rows sp = [] then None else Some (map normalize_row (rows sp))),
     st_rows = length (rows sp),
     st_fraud = length (filter (\<lambda>r. fraud_bool (row_fraud r)) (rows sp))\<rparr>"
proof -
  let ?m = "\<lambda>r. split_mask tc xc sp (row_date r)"
  define st where "st xs = \<lparr>writer = (if xs = [] then None else Some (map normalize_row xs)),
      st_rows = length xs, st_fraud = length (filter (\<lambda>r. fraud_bool (row_fraud r)) xs)\<rparr>" for xs
  have step: "write_split_batch tc xc sp b (st xs) = st (xs @ filter ?m b)" for b xs
    by (auto simp: st_def write_split_batch_def write_table_def Let_def filter_empty_conv)
  have "fold (write_split_batch tc xc sp) bs (st xs) = st (xs @ filter ?m (concat bs))" for bs xs
    by (induction bs arbitrary: xs) (simp_all add: step)
  from this [of batches "[]"] show ?thesis by (simp add: write_splits_def rows_def st_def)
qed

lemma row_date_normalize [simp]: "row_date (normalize_row r) = row_date r"
  by (simp add: row_date_def normalize_row_def)

text \<open>Each row satisfies exactly one mask when the cutoffs are in order.\<close>

lemma split_masks_exclusive:
  assumes "tc \<le> xc"
  shows "\<exists>!sp. split_mask tc xc sp d"
proof -
  have "split_mask tc xc (if d < tc then Train else if d < xc then Val else Test) d"
    by (simp add: split_mask_def not_less)
  moreover have "sp = sp'" if "split_mask tc xc sp d" "split_mask tc xc sp' d" for sp sp'
    using that assms by (cases sp; cases sp') (auto simp: split_mask_def)
  ultimately show ?thesis by blast
qed

lemma mset_three_masks:
  assumes "tc \<le> xc"
  shows "mset (filter (\<lambda>r. split_mask tc xc Train (row_date r)) rs) +
    mset (filter (\<lambda>r. split_mask tc xc Val (row_date r)) rs) +
    mset (filter (\<lambda>r. split_mask tc xc Test (row_date r)) rs) = mset rs"
proof (induction rs)
  case (Cons r rs)
  show ?case
    using Cons.IH assms by (auto simp: split_mask_def not_less not_le dest: less_le_trans)
qed simp

lemma cutoffs_exist:
  assumes "0 < a" and "a < b" and "b < 1" and "concat batches \<noteq> []"
    and "compute_daily_counts batches = (counts, n)"
  shows "\<exists>tc xc. cutoffs_from_counts counts n a b = Inr (tc, xc) \<and>
    is_cut a n (sort_key fst counts) tc \<and> is_cut b n (sort_key fst counts) xc \<and> tc \<le> xc"
proof -
  note f = daily_counts_rows [OF assms(5)]
  have n: "0 < n" using f(1) assms(4) by (simp del: length_concat)
  have "\<exists>d e. cutoff_loop a b n (sort_key fst counts) (sum_list (map snd [])) None None = (Some d, Some e) \<and>
    is_cut a n (sort_key fst counts) d \<and> is_cut b n (sort_key fst counts) e"
    using cutoff_loop_correct [of "sort_key fst counts" "[]" "sort_key fst counts" a b n None]
      f(2,3) assms(1-3) n by simp
  then obtain d e where "cutoff_loop a b n (sort_key fst counts) 0 None None = (Some d, Some e)"
    and cuts: "is_cut a n (sort_key fst counts) d" "is_cut b n (sort_key fst counts) e" by auto
  moreover have "d \<le> e" using is_cut_ordered [OF cuts assms(2) n] .
  ultimately show ?thesis by (auto simp: cutoffs_from_counts_def)
qed

text \<open>The number of rows dated before and up to a date.\<close>

definition dated_before :: "txn_row list \<Rightarrow> string \<Rightarrow> rat" where
  "dated_before rows d = of_nat (length (filter (\<lambda>r. row_date r < d) rows))"

definition dated_upto :: "txn_row list \<Rightarrow> string \<Rightarrow> rat" where
  "dated_upto rows d = of_nat (length (filter (\<lambda>r. row_date r \<le> d) rows))"

text \<open>C25: for ratios \<open>0 < train < test < 1\<close>, at least one row and an output directory that may
  be written, the script succeeds; its cutoffs are in order, and each is the first date at
  which the share of rows reaches its ratio (fewer rows lie before it, enough lie up to it).\<close>

theorem create_temporal_splits_cutoffs:
  assumes "0 < a" and "a < b" and "b < 1" and "concat batches \<noteq> []"
    and "overwrite \<or> \<not> split_dirs_ready d"
  shows "\<exists>tc xc. create_temporal_splits batches a b d overwrite = Inr (tc, xc, write_splits batches tc xc) \<and>
    tc \<le> xc \<and>
    dated_before (concat batches) tc < of_nat (length (concat batches)) * a \<and>
    of_nat (length (concat batches)) * a \<le> dated_upto (concat batches) tc \<and>
    dated_before (concat batches) xc < of_nat (length (concat batches)) * b \<and>
    of_nat (length (concat batches)) * b \<le> dated_upto (concat batches) xc"
proof -
  obtain counts n where c: "compute_daily_counts batches = (counts, n)" by fastforce
  note f = daily_counts_rows [OF c]
  obtain tc xc where cut: "cutoffs_from_counts counts n a b = Inr (tc, xc)" "tc \<le> xc"
    "is_cut a n (sort_key fst counts) tc" "is_cut b n (sort_key fst counts) xc"
    using cutoffs_exist [OF assms(1-4) c] by blast
  obtain d' where "prepare_output_dir d overwrite = Inr d'"
    using assms(5) by (auto simp: prepare_output_dir_def Let_def)
  then have "create_temporal_splits batches a b d overwrite = Inr (tc, xc, write_splits batches tc xc)"
    by (simp add: create_temporal_splits_def c cut(1))
  then show ?thesis
    using cut(2-4) f by (auto simp: is_cut_def dated_before_def dated_upto_def simp del: length_concat)
qed

definition sample_row :: "int \<Rightarrow> bool \<Rightarrow> txn_row" where
  "sample_row d b = \<lparr>row_year = 2019, row_month = 3, row_day = d, row_time = TimeValue 7 5, row_fraud = FraudBool b\<rparr>"

theorem create_temporal_splits_cutoffs_witness:
  "\<exists>tc xc. create_temporal_splits [[sample_row 1 False, sample_row 2 True], [sample_row 3 False]] (1/3) (2/3) (\<lambda>_. None) False =
     Inr (tc, xc, write_splits [[sample_row 1 False, sample_row 2 True], [sample_row 3 False]] tc xc) \<and> tc \<le> xc"
  using create_temporal_splits_cutoffs [of "1/3" "2/3" "[[sample_row 1 False, sample_row 2 True], [sample_row 3 False]]" False "\<lambda>_. None"]
  by (auto simp: split_dirs_ready_def)

text \<open>What a split's file holds at the end.\<close>

definition split_output :: "txn_row list list \<Rightarrow> string \<Rightarrow> string \<Rightarrow> split \<Rightarrow> txn_row list" where
  "split_output batches tc xc sp =
     (case writer (write_splits batches tc xc sp) of None \<Rightarrow> [] | Some rs \<Rightarrow> rs)"

lemma split_output_eq:
  "split_output batches tc xc sp =
     map normalize_row (filter (\<lambda>r. split_mask tc xc sp (row_date r)) (concat batches))"
  by (simp add: split_output_def write_splits_state)

lemma upper_labels: "py_upper ''Yes'' = ''YES''" "py_upper ''No'' = ''NO''"
  by code_simp+

lemma fraud_bool_normalize [simp]: "fraud_bool (row_fraud (normalize_row r)) = fraud_bool (row_fraud r)"
  by (cases "row_fraud r") (simp_all add: normalize_row_def upper_labels del: list.map)

text \<open>C24: the three splits hold every row exactly once, normalised and each in the order of the input
  whatever the batching, and no row of an earlier split is dated on or after a row of a later one.\<close>

theorem write_splits_partition:
  assumes "tc \<le> xc"
  shows "mset (split_output batches tc xc Train) + mset (split_output batches tc xc Val) +
      mset (split_output batches tc xc Test) = mset (map normalize_row (concat batches)) \<and>
    subseq (split_output batches tc xc sp) (map normalize_row (concat batches)) \<and>
    (\<forall>r\<in>set (split_output batches tc xc Train).
       \<forall>s\<in>set (split_output batches tc xc Val) \<union> set (split_output batches tc xc Test). row_date r < row_date s) \<and>
    (\<forall>r\<in>set (split_output batches tc xc Val). \<forall>s\<in>set (split_output batches tc xc Test). row_date r < row_date s)"
proof (intro conjI)
  show "mset (split_output batches tc xc Train) + mset (split_output batches tc xc Val) +
      mset (split_output batches tc xc Test) = mset (map normalize_row (concat batches))"
    unfolding split_output_eq mset_map
    by (simp only: image_mset_union [symmetric] mset_three_masks [OF assms(1)])
  show "subseq (split_output batches tc xc sp) (map normalize_row (concat batches))"
    unfolding split_output_eq by (intro subseq_map subseq_filter_left)
qed (use assms in \<open>auto simp: split_output_eq split_mask_def dest: less_le_trans\<close>)

theorem write_splits_partition_witness:
  "''2019-03-02'' \<le> (''2019-03-02''::string) \<and>
   mset (split_output [[sample_row 2 False], [sample_row 1 True]] ''2019-03-02'' ''2019-03-02'' Train) +
   mset (split_output [[sample_row 2 False], [sample_row 1 True]] ''2019-03-02'' ''2019-03-02'' Val) +
   mset (split_output [[sample_row 2 False], [sample_row 1 True]] ''2019-03-02'' ''2019-03-02'' Test) =
     {#normalize_row (sample_row 2 False), normalize_row (sample_row 1 True)#}"
  using write_splits_partition [of "''2019-03-02''" "''2019-03-02''" "[[sample_row 2 False], [sample_row 1 True]]"]
  by simp

text \<open>A file exists exactly for the non-empty splits, and the recorded statistics are the
  numbers of rows and of fraudulent rows in it, read back from the normalised labels.\<close>

lemma write_splits_stats:
  "(writer (write_splits batches tc xc sp) = None \<longleftrightarrow> split_output batches tc xc sp = []) \<and>
   st_rows (write_splits batches tc xc sp) = length (split_output batches tc xc sp) \<and>
   st_fraud (write_splits batches tc xc sp) =
     length (filter (\<lambda>r. fraud_bool (row_fraud r)) (split_output batches tc xc sp))"
  by (simp add: split_output_eq write_splits_state filter_map comp_def)

subsection \<open>Dates\<close>

text \<open>Digit texts of one width compare as the numbers they print.\<close>

lemma nat_of_digits_Cons: "nat_of_digits (c # s) = digit_val c * 10 ^ length s + nat_of_digits s"
proof -
  have "foldl (\<lambda>a c. 10 * a + digit_val c) x s = x * 10 ^ length s + foldl (\<lambda>a c. 10 * a + digit_val c) 0 s" for x
  proof (induction s arbitrary: x)
    case (Cons d s)
    show ?case
      unfolding foldl.simps Cons.IH [of "10 * x + digit_val d"] Cons.IH [of "10 * 0 + digit_val d"]
      by (simp add: algebra_simps)
  qed simp
  from this [of "digit_val c"] show ?thesis by (simp add: nat_of_digits_def)
qed

lemma digit_code:
  assumes "c \<in> set ''0123456789''"
  shows "of_char c = 48 + digit_val c" and "digit_val c < 10"
  using assms by (auto simp: digit_val_def)

lemma digit_val_less:
  assumes "c \<in> set ''0123456789''" and "d \<in> set ''0123456789''"
  shows "c < d \<longleftrightarrow> digit_val c < digit_val d" and "c = d \<longleftrightarrow> digit_val c = digit_val d"
proof -
  show "c < d \<longleftrightarrow> digit_val c < digit_val d"
    using digit_code(1) [OF assms(1)] digit_code(1) [OF assms(2)] by (simp add: less_char_def)
  show "c = d \<longleftrightarrow> digit_val c = digit_val d"
    using digit_code(1) [OF assms(1)] digit_code(1) [OF assms(2)] by (metis of_char_eq_iff)
qed

lemma nat_of_digits_bound: "set s \<subseteq> set ''0123456789'' \<Longrightarrow> nat_of_digits s < 10 ^ length s"
proof (induction s)
  case (Cons c s)
  then have "digit_val c \<le> 9" and IH: "nat_of_digits s < 10 ^ length s"
    using digit_code(2) [of c] by simp_all
  from this(1) have "digit_val c * 10 ^ length s \<le> 9 * 10 ^ length s" by (rule mult_le_mono1)
  with IH have "digit_val c * 10 ^ length s + nat_of_digits s < 10 * 10 ^ length s" by linarith
  then show ?case by (simp add: nat_of_digits_Cons)
qed (simp add: nat_of_digits_def)

lemma digits_less_iff:
  assumes "length s = length t" and "set s \<subseteq> set ''0123456789''" and "set t \<subseteq> set ''0123456789''"
  shows "s < t \<longleftrightarrow> nat_of_digits s < nat_of_digits t"
  using assms
proof (induction s t rule: list_induct2)
  case (Cons c s d t)
  have bounds: "nat_of_digits s < 10 ^ length s" "nat_of_digits t < 10 ^ length s"
    using Cons.prems nat_of_digits_bound [of s] nat_of_digits_bound [of t] Cons.hyps by auto
  have cmp: "x * 10 ^ length s + nat_of_digits s < y * 10 ^ length s + nat_of_digits t \<longleftrightarrow>
    x < y \<or> x = y \<and> nat_of_digits s < nat_of_digits t" for x y
  proof (cases x y rule: linorder_cases)
    case less
    then have "(x + 1) * 10 ^ length s \<le> y * 10 ^ length s" by (intro mult_le_mono1) simp
    with bounds less show ?thesis by simp
  next
    case greater
    then have "(y + 1) * 10 ^ length s \<le> x * 10 ^ length s" by (intro mult_le_mono1) simp
    with bounds greater show ?thesis by simp
  qed simp
  have "c < d \<longleftrightarrow> digit_val c < digit_val d" "c = d \<longleftrightarrow> digit_val c = digit_val d"
    using Cons.prems digit_val_less [of c d] by simp_all
  with Cons.IH Cons.prems Cons.hyps cmp [of "digit_val c" "digit_val d"] show ?case
    by (simp add: nat_of_digits_Cons)
qed (simp add: nat_of_digits_def)

lemma append_less_iff:
  fixes xs us ys vs :: string
  assumes "length xs = length us"
  shows "xs @ ys < us @ vs \<longleftrightarrow> xs < us \<or> xs = us \<and> ys < vs"
  using assms by (induction xs us rule: list_induct2) auto

lemma length_str_of_nat_step: "10 \<le> n \<Longrightarrow> length (str_of_nat n) = Suc (length (str_of_nat (n div 10)))"
  by (simp add: str_of_nat.simps [of n])

lemma str_of_nat_length_4:
  assumes "1000 \<le> n" and "n \<le> 9999"
  shows "length (str_of_nat n) = 4"
proof -
  have "length (str_of_nat (n div 10 div 10 div 10)) = 1"
    using assms by (subst str_of_nat.simps) auto
  moreover have "10 \<le> n" "10 \<le> n div 10" "10 \<le> n div 10 div 10" using assms by linarith+
  ultimately show ?thesis by (simp only: length_str_of_nat_step)
qed

lemma zfill_2_length: "n \<le> 99 \<Longrightarrow> length (zfill 2 (str_of_nat n)) = 2"
  by (simp add: length_zfill str_of_nat.simps [of n] str_of_nat.simps [of "n div 10"])

definition calendar_row :: "txn_row \<Rightarrow> bool" where
  "calendar_row r \<longleftrightarrow> 1000 \<le> row_year r \<and> row_year r \<le> 9999 \<and> 1 \<le> row_month r \<and> row_month r \<le> 12 \<and>
     1 \<le> row_day r \<and> row_day r \<le> 31"

lemma zfill_less_iff:
  "m \<le> 99 \<Longrightarrow> n \<le> 99 \<Longrightarrow> zfill 2 (str_of_nat m) < zfill 2 (str_of_nat n) \<longleftrightarrow> m < n"
  using digits_less_iff [OF _ zfill_digits zfill_digits, OF _ str_of_nat_digits str_of_nat_digits, of 2 m 2 n]
  by (simp add: zfill_2_length)

lemma str_of_nat_less_iff:
  "length (str_of_nat m) = length (str_of_nat n) \<Longrightarrow> str_of_nat m < str_of_nat n \<longleftrightarrow> m < n"
  using digits_less_iff [OF _ str_of_nat_digits str_of_nat_digits, of m n] by simp

lemma zfill_eq_iff: "zfill 2 (str_of_nat m) = zfill 2 (str_of_nat n) \<longleftrightarrow> m = n"
  by (metis nat_of_str_of_nat nat_of_zfill)

text \<open>The text comparison the masks use is the order of the calendar, for years of four digits.\<close>

lemma row_date_chronological:
  assumes "calendar_row r" and "calendar_row s"
  shows "row_date r < row_date s \<longleftrightarrow>
    row_year r < row_year s \<or> row_year r = row_year s \<and> (row_month r < row_month s \<or>
      row_month r = row_month s \<and> row_day r < row_day s)"
proof -
  define y m d where "y r = nat (row_year r)" and "m r = nat (row_month r)" and "d r = nat (row_day r)" for r :: txn_row
  have y4: "length (str_of_nat (y r)) = 4" "m r \<le> 99" "d r \<le> 99"
    and date: "row_date r = str_of_nat (y r) @ ''-'' @ zfill 2 (str_of_nat (m r)) @ ''-'' @ zfill 2 (str_of_nat (d r))"
    if "calendar_row r" for r
    using that by (auto simp: y_def m_def d_def calendar_row_def row_date_def str_of_int_def intro: str_of_nat_length_4)
  have "row_date r < row_date s \<longleftrightarrow> y r < y s \<or> y r = y s \<and> (m r < m s \<or> m r = m s \<and> d r < d s)"
    using y4 [OF assms(1)] y4 [OF assms(2)] unfolding date [OF assms(1)] date [OF assms(2)]
    by (simp add: append_less_iff zfill_2_length zfill_less_iff zfill_eq_iff str_of_nat_less_iff)
  then show ?thesis
    using assms by (auto simp: y_def m_def d_def calendar_row_def nat_eq_iff2 eq_nat_nat_iff)
qed

subsection \<open>Default directories\<close>

lemma find_version_skip:
  assumes "list_all (\<lambda>c. c \<noteq> CHR ''v'') p" and "p \<noteq> []"
  shows "find_version w (p @ s) = find_version (is_word_char (last p)) s"
  using assms by (induction p arbitrary: w) (auto simp: Let_def)

lemma version_at_end:
  assumes "ds \<noteq> []" and "list_all is_digit ds"
  shows "find_version False (CHR ''v'' # ds) = Some (CHR ''v'' # ds)"
  using assms by (cases ds) (simp_all add: list_all_iff Let_def)

text \<open>A raw file \<open>.../raw/parquet/card_transaction.v1.parquet\<close> (any version number) is split by
  default into \<open>temporal_split_v1\<close> beside \<open>raw\<close>.\<close>

lemma default_split_dir_versioned:
  assumes "ds \<noteq> []" and "list_all is_digit ds"
  shows "default_split_dir tfm (pre @ [''raw'', ''parquet'', ''card_transaction.v'' @ ds @ ''.parquet'']) =
    pre @ [''temporal_split_v'' @ ds]"
proof -
  have "py_stem (''card_transaction.v'' @ ds @ ''.parquet'') = ''card_transaction.v'' @ ds"
    by (simp add: py_stem_def Let_def)
  moreover have "find_version False (''card_transaction.'' @ CHR ''v'' # ds) = Some (CHR ''v'' # ds)"
    using version_at_end [OF assms]
    by (subst find_version_skip) (simp_all add: is_word_char_def is_alnum_def is_digit_def)
  ultimately show ?thesis
    by (simp add: default_split_dir_def default_data_root_def version_label_def)
qed

lemma find_version_none: "list_all (\<lambda>c. c \<noteq> CHR ''v'') s \<Longrightarrow> find_version w s = None"
  by (induction s arbitrary: w) (auto simp: Let_def)

lemma collapse_runs_alnum: "list_all is_alnum s \<Longrightarrow> collapse_runs b s = s"
  by (induction s arbitrary: b) auto

text \<open>The tokenizing script does not recognise the version in the name of a split directory: the
  underscore before it is a word character, so the default output of \<open>temporal_split_v1\<close> is \<open>tokenized_temporal_split_v1\<close>
  and not the documented \<open>tokenized_v1\<close>.\<close>

lemma default_tokenized_dir_underscore:
  assumes "ds \<noteq> []" and "list_all is_digit ds"
  shows "default_tokenized_dir (pre @ [''temporal_split_v'' @ ds]) =
    pre @ [''tokenized_temporal_split_v'' @ ds]"
proof -
  have no_v: "list_all (\<lambda>c. c \<noteq> CHR ''v'') ds" and alnum: "list_all is_alnum ds"
    using assms by (auto simp: list_all_iff is_alnum_def is_digit_def)
  have "is_digit (last ds)" using assms by (simp add: list_all_iff)
  then have last: "last ds \<noteq> CHR ''_''" by (auto simp: is_digit_def)
  have "find_version False (''temporal_split_'' @ CHR ''v'' # ds) = None"
    using find_version_none [OF no_v]
    by (subst find_version_skip) (simp_all add: is_word_char_def Let_def)
  moreover have "collapse_runs False (''temporal_split_v'' @ ds) = ''temporal_split_v'' @ ds"
    by (simp add: collapse_runs_alnum [OF alnum] is_alnum_def is_digit_def)
  moreover have "strip_by (\<lambda>c. c = CHR ''_'') (''temporal_split_v'' @ ds) = ''temporal_split_v'' @ ds"
    using last assms(1) by (intro strip_by_id) simp
  ultimately show ?thesis by (simp add: default_tokenized_dir_def version_label_def Let_def)
qed

end
