(* ===== verification/Pipeline_Claims.thy ===== *)
theory Pipeline_Claims
  imports Pipeline_Encode
begin

section \<open>Properties of the tokenizer steps and of the pipeline\<close>

text \<open>
  The statements about \<open>tfm_repo/src/tokenizer/\<close> a caller relies on, over the lemmas of the
  step contracts and of the pipeline: tokens stay inside the vocabulary, both ways of
  fitting agree, the global vocabulary is a bijection, the encoded rows, the corpus lines,
  and saving and restoring a step.
\<close>

subsection \<open>A small pipeline for the witnesses\<close>

definition hour_step :: tokenizer where
  "hour_step = TFixed (fixed_init ''HOUR'' 0 1 2 None)"

definition hour_pipeline :: "bool \<Rightarrow> pipeline" where
  "hour_pipeline streams = add_step (OneCol ''Hour'') hour_step (pipeline_init None streams 1)"

definition hour_frame :: frame where
  "hour_frame = [(''Hour'', IntCol [Some 1, Some 5])]"

definition hour_fitted :: pipeline where
  "hour_fitted = (case fit host_lib hour_frame (hour_pipeline False) of Inr p \<Rightarrow> p | Inl _ \<Rightarrow> hour_pipeline False)"

lemma hour_fit: "fit host_lib hour_frame (hour_pipeline False) = Inr hour_fitted"
proof -
  have "\<exists>p. fit host_lib hour_frame (hour_pipeline False) = Inr p" by (rule exI) code_simp
  then show ?thesis by (auto simp: hour_fitted_def)
qed

lemma hour_order: "tokenizer_order (hour_pipeline b) = [''Hour'']"
  by (cases b; code_simp)

subsection \<open>Steps\<close>

text \<open>After a step of any class has built its vocabulary, every column it accepts is tokenized
  without an error, and each of its tokens has an index in the step's own vocabulary.\<close>

lemma built_step_tokens_indexed:
  assumes "tok_ready t d" and "tok_accepts lib t c"
  shows "\<exists>ts. tok_tokenize lib (tok_build_vocab lib t d) c = Inr ts \<and>
    (\<forall>w\<in>set ts. \<exists>s i. w = Some s \<and> map_of (invert_dict (the (tok_flat (tok_build_vocab lib t d)))) s = Some i)"
  by (rule any.tokens_have_index [OF assms])

text \<open>The vectorised range lookup of the mapping step gives each value the label of the last
  range that contains it, and the default label where none does.\<close>

lemma tokenize_range_last_match:
  assumes "lib_int64 lib c = Inr vals" and "mt_mode t = MRange"
  shows "mapping_tokenize lib t c =
    Inr (map (\<lambda>v. Some (mk_token (mt_prefix t) (range_label (the (mt_range_lookup t)) (mt_default t) v))) vals)"
  using assms by (simp add: mapping_tokenize_def tokenize_range_eq)

text \<open>A time-delta step with a monotone logarithm that is zero at one never prints its first
  token (the lowest boundary is zero, so every value is at or above it), unless it has one bin.\<close>

lemma timedelta_first_bin_unused:
  assumes "lib_log lib 1 = 0" and "\<And>x y. x \<le> y \<Longrightarrow> lib_log lib x \<le> lib_log lib y"
    and "1 < n" and "0 \<le> years"
  shows "timedelta_bin lib (timedelta_init lib n tok years s) x \<noteq> 0"
proof -
  let ?t = "timedelta_init lib n tok years s"
  have "0 \<le> years * seconds_per_julian_year" using assms(4) by (simp add: seconds_per_julian_year_def)
  then have h: "0 \<le> td_max_horizon ?t" by (simp add: timedelta_init_def Let_def py_int_def)
  then have "(0::rat) \<le> rclip 0 (of_int (td_max_horizon ?t)) x" by (simp add: rclip_def)
  then have "lib_log lib 1 \<le> lib_log lib (rclip 0 (of_int (td_max_horizon ?t)) x + 1)"
    by (intro assms(2)) simp
  moreover have "0 \<in> set (td_boundaries ?t)"
    by (simp add: timedelta_init_def Let_def linspace0_def image_iff)
      (metis add.commute add_0 atLeast0LessThan div_0 lessThan_iff mult_zero_right of_nat_0 zero_less_Suc add_Suc_right)
  ultimately have "0 < digitize (lib_log lib (rclip 0 (of_int (td_max_horizon ?t)) x + 1)) (td_boundaries ?t)"
    using assms(1) by (auto simp: digitize_def filter_empty_conv)
  moreover have "td_num_bins ?t = n" by (simp add: timedelta_init_def Let_def)
  ultimately show ?thesis using assms(3) by (simp add: timedelta_bin_def Let_def clip_def)
qed

subsection \<open>Fitting\<close>

text \<open>Fitting the steps on CUDA streams leaves the pipeline in the same state as fitting them
  one after the other, errors included, when no step name is used twice.\<close>

lemma fit_streams_agree:
  assumes "distinct (tokenizer_order p)"
  shows "fit_parallel lib df p = fit_sequential lib df p"
  by (rule fit_parallel_sequential [OF assms])

lemma fit_ids:
  assumes "fit lib df p = Inr p'" and "distinct (tokenizer_order p)"
    and "map snd (special_token_ids p) = map int [0..<num_special_tokens p]"
    and "list_all (\<lambda>(i, d). zero_based d) (flats (steps p') (tokenizer_order p))"
  shows "map snd (fit_entries p p') = map int [0..<global_vocab_size p']"
proof -
  let ?n = "num_special_tokens p" and ?k = "sum_list (map (length \<circ> snd) (flats (steps p') (tokenizer_order p)))"
  have "map snd (fit_entries p p') = map int [0..<?n] @ map int [?n..<?n + ?k]"
    using assms(3) block_entries_ids [OF assms(4), of ?n] by (simp add: fit_entries_def)
  also have "\<dots> = map int [0..<?n + ?k]" by (simp only: map_append [symmetric] upt_add_eq_append [OF le0])
  finally show ?thesis using fit_result(3) [OF assms(1,2)] by simp
qed

text \<open>C32: when every step numbers its tokens from zero and no two tokens are equal, the fitted
  token dict and index dict are inverse to each other and the ids are exactly the numbers
  below the global vocabulary size.\<close>

theorem fit_vocabulary_bijection:
  assumes "fit lib df p = Inr p'" and "distinct (tokenizer_order p)"
    and "map snd (special_token_ids p) = map int [0..<num_special_tokens p]"
    and "list_all (\<lambda>(i, d). zero_based d) (flats (steps p') (tokenizer_order p))"
    and "distinct (all_tokens p p')"
  shows "(map_of (pipeline_vocab p') s = Some i \<longleftrightarrow> map_of (pipeline_id_to_token p') i = Some s) \<and>
    length (pipeline_vocab p') = global_vocab_size p' \<and>
    snd ` set (pipeline_vocab p') = {0..<int (global_vocab_size p')}"
  using dict_bijection [OF assms(5) [folded fit_entries_tokens] fit_ids [OF assms(1-4)]]
    fit_result(4,5) [OF assms(1,2)] by auto

theorem fit_vocabulary_bijection_witness:
  "length (pipeline_vocab hour_fitted) = global_vocab_size hour_fitted"
proof -
  have "map snd (special_token_ids (hour_pipeline False)) = map int [0..<num_special_tokens (hour_pipeline False)]"
    by code_simp
  moreover have "list_all (\<lambda>(i, d). zero_based d) (flats (steps hour_fitted) (tokenizer_order (hour_pipeline False)))"
    unfolding zero_based_def by code_simp
  moreover have "distinct (all_tokens (hour_pipeline False) hour_fitted)" by code_simp
  ultimately show ?thesis
    using fit_vocabulary_bijection [OF hour_fit, of "''x''" 0] by (simp add: hour_order)
qed

text \<open>Tokenizing any accepted column with a fitted single-column step gives tokens that all have
  a global id: encoding never falls back to the unknown token for them.\<close>

lemma fitted_tokens_known:
  assumes "fit lib df p = Inr p'" and "distinct (tokenizer_order p)" and "k \<in> set (tokenizer_order p)"
    and "map_of (steps p) k = Some t" and "map_of (column_specs p) k = Some [c]" and "map_of df c = Some col"
    and "tok_ready t (Some col)" and "tok_accepts lib t col'"
  shows "\<exists>t' ts. map_of (steps p') k = Some t' \<and> tok_tokenize lib t' col' = Inr ts \<and>
    (\<forall>w\<in>set ts. \<exists>s gid. w = Some s \<and> map_of (pipeline_vocab p') s = Some gid)"
proof -
  let ?t = "tok_build_vocab lib t (Some col)"
  have t: "map_of (steps p') k = Some ?t"
    by (rule rfold_build_value [OF fit_result(1) [OF assms(1,2)] assms(2-6)])
  obtain d where d: "tok_flat ?t = Some d" using any.build_idx [OF assms(7)] by blast
  obtain ts where ts: "tok_tokenize lib ?t col' = Inr ts" "None \<notin> set ts"
    using any.tokenize_total [OF assms(7,8)] by blast
  have "\<exists>s gid. w = Some s \<and> map_of (pipeline_vocab p') s = Some gid" if w: "w \<in> set ts" for w
  proof -
    obtain s where s: "w = Some s" using mem_Some [OF w ts(2)] by blast
    then have "s \<in> snd ` set d"
      using any.tokenize_covered [OF assms(7,8) ts(1)] w d by simp
    with s fitted_token_has_id [OF assms(1-3) t d] show ?thesis by blast
  qed
  with t ts show ?thesis by blast
qed

subsection \<open>Encoding\<close>

text \<open>Each encoded row is \<open><bos>\<close>, the ids of the row's tokens in step order, \<open><eos>\<close> and padding,
  cut to the maximal length.\<close>

lemma pipeline_encode_rows:
  assumes "special_token_ids p = enumerate_ids [''<pad>'', ''<bos>'', ''<eos>'', ''<sep>'', ''<unk>'']"
    and "global_vocab p = Some v" and "rectangular f" and "0 < L"
  shows "pipeline_encode p f L True =
    Inr (map (\<lambda>i. take L (1 # row_ids v 4 f i @ [2] @ replicate L 0)) [0..<frame_len f])"
  by (rule encode_rows [OF assms])

subsection \<open>Corpus lines\<close>

definition corpus_line :: "string list \<Rightarrow> string" where
  "corpus_line txns = ''<bos> '' @ py_join '' <sep> '' txns @ '' <eos>''"

text \<open>The rows of chunk \<open>c\<close> of a key.\<close>

definition chunk_rows :: "'k list \<Rightarrow> string list \<Rightarrow> nat \<Rightarrow> 'k \<times> nat \<Rightarrow> string list" where
  "chunk_rows keys texts n g = (case g of (k, c) \<Rightarrow> take n (drop (c * n) (group_rows keys texts k)))"

definition chunk_groups :: "'k list \<Rightarrow> nat \<Rightarrow> ('k \<times> nat) list" where
  "chunk_groups keys n = zip keys (map (\<lambda>s. s div n) (cumcount keys))"

lemma group_rows_map: "group_rows gs (map f xs) g = map f (group_rows gs xs g)"
  by (simp add: group_rows_def zip_map2 filter_map comp_def case_prod_unfold)

lemma fmt_group:
  "None \<notin> set xs \<Longrightarrow> fmt_line (group_rows gs xs g) = Inr (corpus_line (group_rows gs (map the xs) g))"
proof -
  assume "None \<notin> set xs"
  then have "None \<notin> set (group_rows gs xs g)" by (auto simp: group_rows_def dest: set_zip_rightD)
  then show ?thesis by (simp add: fmt_line_def corpus_line_def group_rows_map)
qed

text \<open>The corpus has one line for each key and chunk, whatever order the group-by returns: chunk
  \<open>c\<close> of a key holds that key's rows number \<open>c * n\<close> to \<open>c * n + n - 1\<close> in order, and all lines
  together hold every row exactly once.\<close>

lemma corpus_lines_chunked:
  assumes "token_df \<noteq> []" and "length keys = frame_len token_df" and "0 < n"
    and "None \<notin> set (txn_texts token_df)"
    and "distinct (gorder (py_unique (chunk_groups keys n)))"
    and "set (gorder (py_unique (chunk_groups keys n))) = set (chunk_groups keys n)"
  shows "\<exists>order. to_corpus_lines gorder token_df keys n =
      Inr (map (\<lambda>g. corpus_line (chunk_rows keys (map the (txn_texts token_df)) n g)) order) \<and>
    distinct order \<and> set order = set (chunk_groups keys n) \<and>
    mset (concat (map (chunk_rows keys (map the (txn_texts token_df)) n) order)) =
      mset (map the (txn_texts token_df))"
proof (intro exI conjI)
  let ?gs = "chunk_groups keys n" and ?texts = "map the (txn_texts token_df)"
  let ?order = "gorder (py_unique ?gs)"
  have len: "length keys = length ?texts" using assms(2) by (simp add: txn_texts_def)
  have chunk: "group_rows ?gs ?texts g = chunk_rows keys ?texts n g" for g
    by (cases g) (simp add: chunk_groups_def chunk_rows_def group_rows_chunk [OF len assms(3)])
  have "to_corpus_lines gorder token_df keys n =
      rmap (\<lambda>g. fmt_line (group_rows ?gs (txn_texts token_df) g)) ?order"
    using assms(1) by (simp add: to_corpus_lines_def Let_def chunk_groups_def)
  also have "\<dots> = rmap (\<lambda>g. Inr (corpus_line (chunk_rows keys ?texts n g))) ?order"
    unfolding fmt_group [OF assms(4)] chunk ..
  finally show "to_corpus_lines gorder token_df keys n =
      Inr (map (\<lambda>g. corpus_line (chunk_rows keys ?texts n g)) ?order)"
    by (simp add: rmap_Inr_map)
  show "mset (concat (map (chunk_rows keys ?texts n) ?order)) = mset ?texts"
    unfolding chunk [symmetric, abs_def]
    by (rule group_rows_partition [OF _ assms(5,6)]) (use len in \<open>simp add: chunk_groups_def\<close>)
qed (use assms(5,6) in simp_all)

subsection \<open>Saving and restoring a step\<close>

text \<open>A step restored from its saved state is the step that was saved, for every class except a
  mapping step that learned its labels from a column.\<close>

lemma step_state_roundtrip:
  assumes "restorable p c"
  shows "from_state lib (get_state (tok_build_vocab lib (tok_construct lib p) c)) =
    Inr (tok_build_vocab lib (tok_construct lib p) c)"
  by (rule restore_built_step [OF assms])

definition learned_step :: tokenizer where
  "learned_step = tok_build_vocab host_lib (tok_construct host_lib (MappingParams ''ST'' None None None ''OTHER''))
     (Some (StrCol [Some ''CA'', Some ''NY'']))"

text \<open>A mapping step that learned its labels is not restored: fitted on a column it prints the default token for a
  value it has not seen, its restored copy prints a token outside its vocabulary.\<close>

lemma restored_mapping_leaves_vocabulary:
  "\<exists>t. from_state host_lib (get_state learned_step) = Inr t \<and>
     tok_tokenize host_lib learned_step (StrCol [Some ''ZZ'']) = Inr [Some ''ST_OTHER''] \<and>
     tok_tokenize host_lib t (StrCol [Some ''ZZ'']) = Inr [Some ''ST_ZZ''] \<and>
     ''ST_ZZ'' \<notin> snd ` set (the (tok_flat t))"
proof (intro exI conjI)
  let ?t = "case from_state host_lib (get_state learned_step) of Inr t \<Rightarrow> t | Inl _ \<Rightarrow> learned_step"
  have "\<exists>t. from_state host_lib (get_state learned_step) = Inr t" by (rule exI) code_simp
  then show "from_state host_lib (get_state learned_step) = Inr ?t" by auto
  show "tok_tokenize host_lib learned_step (StrCol [Some ''ZZ'']) = Inr [Some ''ST_OTHER'']" by code_simp
  show "tok_tokenize host_lib ?t (StrCol [Some ''ZZ'']) = Inr [Some ''ST_ZZ'']" by code_simp
  show "''ST_ZZ'' \<notin> snd ` set (the (tok_flat ?t))" by code_simp
qed

end
