(* ===== verification/Gpu_Tokenizer.thy ===== *)
theory Gpu_Tokenizer
  imports Financial_Vocab Sequences Pipeline_Encode
begin

section \<open>Preprocessing and the GPU tokenizer\<close>

text \<open>
  Models \<open>FinancialTokenizerPipeline.preprocess\<close> of
  \<open>tfm_repo/src/tokenizer/financial_pipeline.py\<close> and \<open>GPUTokenizer\<close> of
  \<open>tfm_repo/src/ray_tokenize.py\<close>. A table of transactions is a list of rows; cell texts
  are what \<open>astype(str)\<close> prints. What cuDF computes (parsing of numbers and dates, the
  string hash, the sort) is gathered in the record \<open>prep_lib\<close>, an argument.
\<close>

subsection \<open>preprocess\<close>

text \<open>One transaction as it is read; \<open>raw_time_full\<close> is a value when the input already has the column.\<close>

record raw_row =
  raw_amount :: string
  raw_merchant_name :: string
  raw_mcc :: "int option"
  raw_year :: int
  raw_month :: int
  raw_day :: int
  raw_time :: "string option"
  raw_card :: int
  raw_use_chip :: string
  raw_zip :: "string option"
  raw_state :: "string option"
  raw_user :: int
  raw_time_full :: "int option"

record prep_row =
  amt_val :: int
  merch_hash :: int
  mcc_int :: int
  mcc_str :: string
  hour :: int
  dow :: int
  month :: int
  card :: int
  chip_upper :: string
  zip3 :: int
  state_clean :: string
  cust :: int
  user :: int
  time_full :: int
  time_delta_s :: rat

text \<open>\<open>p_float\<close>, \<open>p_int\<close>: \<open>astype(float)\<close> and \<open>astype(int)\<close> of a text; \<open>p_hash\<close>: \<open>hash_values\<close>;
  \<open>p_datetime\<close>: \<open>to_datetime\<close> as nanoseconds since the epoch, with its \<open>dt\<close> accessors; \<open>p_sort\<close>:
  \<open>sort_values\<close> on user, card and time.\<close>

record prep_lib =
  p_float :: "string \<Rightarrow> rat result"
  p_int :: "string \<Rightarrow> int result"
  p_hash :: "string \<Rightarrow> int"
  p_datetime :: "string \<Rightarrow> int result"
  p_hour :: "int \<Rightarrow> int"
  p_dow :: "int \<Rightarrow> int"
  p_month :: "int \<Rightarrow> int"
  p_sort :: "prep_row list \<Rightarrow> prep_row list"

definition normalize_column :: "string \<Rightarrow> string" where
  "normalize_column c = py_lower (py_replace '' '' ''_'' (strip_by is_space c))"

definition amount_bucket :: "rat \<Rightarrow> int" where
  "amount_bucket a =
     (if a \<ge> 10 then 1 else 0) + (if a \<ge> 50 then 1 else 0) + (if a \<ge> 100 then 1 else 0) +
     (if a \<ge> 500 then 1 else 0) + (if a \<ge> 1000 then 1 else 0) + (if a \<ge> 5000 then 1 else 0)"

text \<open>Characters the regular expression keeps: capitals, digits, white space and the hyphen.\<close>

definition merchant_char :: "char \<Rightarrow> bool" where
  "merchant_char c \<longleftrightarrow> (65 \<le> (of_char c :: nat) \<and> (of_char c :: nat) \<le> 90) \<or>
     (48 \<le> (of_char c :: nat) \<and> (of_char c :: nat) \<le> 57) \<or> is_space c \<or> c = CHR ''-''"

definition clean_merchant :: "string \<Rightarrow> string" where
  "clean_merchant s = filter merchant_char (py_upper s)"

definition date_text :: "raw_row \<Rightarrow> string" where
  "date_text r = str_of_int (raw_year r) @ ''-'' @ zfill 2 (str_of_int (raw_month r)) @ ''-'' @
     zfill 2 (str_of_int (raw_day r)) @ '' '' @ (case raw_time r of None \<Rightarrow> ''00:00'' | Some t \<Rightarrow> t)"

definition zip_text :: "raw_row \<Rightarrow> string" where
  "zip_text r = zfill 3 (take 3 (py_replace ''.0'' [] (case raw_zip r of None \<Rightarrow> ''00000'' | Some z \<Rightarrow> z)))"

definition clean_state :: "string option \<Rightarrow> string" where
  "clean_state s =
     (let t = strip_by is_space (py_upper (case s of None \<Rightarrow> ''XX'' | Some x \<Rightarrow> x))
      in if t \<noteq> [] then t else ''XX'')"

definition prep_row_of :: "prep_lib \<Rightarrow> raw_row \<Rightarrow> prep_row result" where
  "prep_row_of lib r =
     rbind (p_float lib (py_replace ''$'' [] (raw_amount r))) (\<lambda>amt_f.
     rbind (p_datetime lib (date_text r)) (\<lambda>dt.
     rbind (p_int lib (zip_text r)) (\<lambda>z.
       let mcc = (case raw_mcc r of None \<Rightarrow> - 1 | Some m \<Rightarrow> m)
       in Inr \<lparr>amt_val = amount_bucket amt_f, merch_hash = p_hash lib (clean_merchant (raw_merchant_name r)),
               mcc_int = mcc, mcc_str = str_of_int mcc, hour = p_hour lib dt, dow = p_dow lib dt,
               month = p_month lib dt, card = clip 0 9 (raw_card r), chip_upper = py_upper (raw_use_chip r),
               zip3 = z, state_clean = clean_state (raw_state r), cust = clip 0 2999 (raw_user r),
               user = raw_user r,
               time_full = (case raw_time_full r of None \<Rightarrow> dt | Some t \<Rightarrow> t), time_delta_s = 0\<rparr>)))"

text \<open>\<open>groupby(user, card).time_full.diff()\<close> in seconds, zero for the first row of a group and never negative.\<close>

fun time_deltas :: "(int \<times> int, int) dict \<Rightarrow> prep_row list \<Rightarrow> prep_row list" where
  "time_deltas prev [] = []"
| "time_deltas prev (r # rs) =
     (let key = (user r, card r);
          d = (case map_of prev key of None \<Rightarrow> 0 | Some t \<Rightarrow> of_int (time_full r - t) / 1000000000)
      in r\<lparr>time_delta_s := max 0 d\<rparr> # time_deltas (AList.update key (time_full r) prev) rs)"

definition preprocess :: "prep_lib \<Rightarrow> raw_row list \<Rightarrow> prep_row list result" where
  "preprocess lib rows =
     rbind (rmap (prep_row_of lib) rows) (\<lambda>ps. Inr (time_deltas [] (p_sort lib ps)))"

text \<open>The columns of the preprocessed data frame that the pipeline reads.\<close>

definition frame_of :: "prep_row list \<Rightarrow> frame" where
  "frame_of rs =
     [(''amt_val'', IntCol (map (Some \<circ> amt_val) rs)), (''merch_hash'', IntCol (map (Some \<circ> merch_hash) rs)),
      (''mcc_int'', IntCol (map (Some \<circ> mcc_int) rs)), (''mcc_str'', StrCol (map (Some \<circ> mcc_str) rs)),
      (''hour'', IntCol (map (Some \<circ> hour) rs)), (''dow'', IntCol (map (Some \<circ> dow) rs)),
      (''month'', IntCol (map (Some \<circ> month) rs)), (''card'', IntCol (map (Some \<circ> card) rs)),
      (''chip_upper'', StrCol (map (Some \<circ> chip_upper) rs)), (''zip3'', IntCol (map (Some \<circ> zip3) rs)),
      (''state_clean'', StrCol (map (Some \<circ> state_clean) rs)), (''cust'', IntCol (map (Some \<circ> cust) rs)),
      (''time_delta_s'', FloatCol (map (Some \<circ> time_delta_s) rs))]"

subsection \<open>GPUTokenizer\<close>

record gpu_tokenizer =
  gt_pipeline :: pipeline
  gt_fitted :: bool
  gt_carry_cols :: "string list"

definition gpu_init :: "cudf_lib \<Rightarrow> nat \<Rightarrow> string list \<Rightarrow> gpu_tokenizer" where
  "gpu_init lib merchant_hash_size carry_cols =
     \<lparr>gt_pipeline = financial_pipeline lib merchant_hash_size ''fixed'' 10 False 32 None False 5,
      gt_fitted = False, gt_carry_cols = carry_cols\<rparr>"

text \<open>The first of three columns that is present gives the label; without any, all labels are zero.\<close>

fun fraud_label_from :: "string list \<Rightarrow> (string, string list) dict \<Rightarrow> nat \<Rightarrow> int list" where
  "fraud_label_from [] cols n = replicate n 0"
| "fraud_label_from (c # cs) cols n =
     (case map_of cols c of
        Some s \<Rightarrow> map (\<lambda>x. if x = ''Yes'' \<or> x = ''1'' then 1 else 0) s
      | None \<Rightarrow> fraud_label_from cs cols n)"

definition fraud_label :: "(string, string list) dict \<Rightarrow> nat \<Rightarrow> int list" where
  "fraud_label cols n = fraud_label_from [''is_fraud?'', ''is_fraud'', ''fraud''] cols n"

record token_batch =
  tb_uc_key :: "int list"
  tb_ts :: "int list"
  tb_token_ids :: "int list list"
  tb_label :: "int list"
  tb_carried :: "(string, string list) dict"

definition uc_key :: "prep_row \<Rightarrow> int" where
  "uc_key r = user r * 100 + card r"

text \<open>\<open>__call__\<close>: fit once, transform, look every token up in the vocabulary, and pass the carried columns
  through. \<open>cols\<close> gives the cells of the other columns of the preprocessed frame, as texts.\<close>

definition gpu_call ::
    "cudf_lib \<Rightarrow> prep_lib \<Rightarrow> (prep_row list \<Rightarrow> (string, string list) dict) \<Rightarrow> raw_row list \<Rightarrow> gpu_tokenizer
     \<Rightarrow> (token_batch \<times> gpu_tokenizer) result" where
  "gpu_call lib plib cols batch g =
     rbind (preprocess plib batch) (\<lambda>proc.
     rbind (if \<not> gt_fitted g then fit lib (frame_of proc) (gt_pipeline g) else Inr (gt_pipeline g)) (\<lambda>p.
     rbind (transform lib (frame_of proc) p) (\<lambda>token_df.
     rbind (rmap (\<lambda>col. rbind (dict_lookup (cols proc) (normalize_column col)) (\<lambda>v. Inr (col, v))) (gt_carry_cols g))
       (\<lambda>carried.
       let token_ids = map (row_ids (pipeline_vocab p) UNK_TOKEN_ID token_df) [0..<length proc]
       in Inr (\<lparr>tb_uc_key = map uc_key proc, tb_ts = map (\<lambda>r. time_full r div 10 ^ 9) proc,
                tb_token_ids = token_ids, tb_label = fraud_label (cols proc) (length token_ids),
                tb_carried = dict_of carried\<rparr>,
               g\<lparr>gt_pipeline := p, gt_fitted := True\<rparr>)))))"

subsection \<open>A fit on single columns that are present succeeds\<close>

lemma rfold_build_total:
  assumes "distinct ids"
    and "\<And>i. i \<in> set ids \<Longrightarrow> \<exists>t c col. map_of sts i = Some t \<and> map_of specs i = Some [c] \<and> map_of df c = Some col"
  shows "\<exists>sts'. rfold (fit_build_step lib df specs None) ids sts = Inr sts'"
  using assms
proof (induction ids arbitrary: sts)
  case (Cons i ids)
  then obtain t c col where i: "map_of sts i = Some t" "map_of specs i = Some [c]" "map_of df c = Some col"
    by (meson list.set_intros(1))
  then have "c \<in> set (map fst df)" by (force dest: map_of_SomeD)
  with i have step: "fit_build_step lib df specs None i sts =
      Inr (AList.update i (tok_build_vocab lib t (Some col)) sts)"
    by (simp add: fit_build_step_def dict_lookup_def select_columns_def)
  have "\<exists>sts'. rfold (fit_build_step lib df specs None) ids (AList.update i (tok_build_vocab lib t (Some col)) sts) = Inr sts'"
  proof (rule Cons.IH)
    fix j assume j: "j \<in> set ids"
    then have "j \<noteq> i" using Cons.prems(1) by auto
    then show "\<exists>t' c col'. map_of (AList.update i (tok_build_vocab lib t (Some col)) sts) j = Some t' \<and>
        map_of specs j = Some [c] \<and> map_of df c = Some col'"
      using Cons.prems(2) [of j] j by (simp add: dict_simps)
  qed (use Cons.prems in simp)
  with step show ?case by simp
qed simp

lemma fit_total:
  assumes "distinct (tokenizer_order p)"
    and "\<And>i. i \<in> set (tokenizer_order p) \<Longrightarrow>
      \<exists>t c col. map_of (steps p) i = Some t \<and> map_of (column_specs p) i = Some [c] \<and> map_of df c = Some col"
  shows "\<exists>p'. fit lib df p = Inr p'"
proof -
  obtain sts' where r: "rfold (fit_build_step lib df (column_specs p) None) (tokenizer_order p) (steps p) = Inr sts'"
    using rfold_build_total [OF assms] by blast
  from offset_loop_flat [OF seq.rfold_flat [OF r assms(1)] assms(1)]
  obtain acc where "offset_loop (tokenizer_order p) sts' (vocab_sizes p, vocab_offset p, num_special_tokens p) = Inr acc"
    by blast
  with r have "\<exists>p1. fit_sequential lib df p = Inr p1"
    by (simp add: fit_sequential_def seq.fit_loop_split [OF assms(1)])
  then obtain p1 where p1: "fit_sequential lib df p = Inr p1" by blast
  then show ?thesis
    using fit_sequential_entries(7) [OF p1 assms(1)]
    by (simp add: fit_eq_sequential [OF assms(1)] build_global_vocab_def)
qed

subsection \<open>A transform of single columns\<close>

lemma transform_step_stream: "transform_step lib df p s k acc = transform_step lib df p None k acc"
proof -
  have "tokenize_on lib (case s of None \<Rightarrow> t | Some s \<Rightarrow> tok_set_stream (Some s) t) cd = tokenize_on lib t cd"
    for t cd by (cases cd; cases s) simp_all
  then show ?thesis by (simp add: transform_step_def)
qed

lemma transform_sequential:
  "is_fitted p \<Longrightarrow> transform lib df p = rfold (transform_step lib df p None) (tokenizer_order p) []"
proof -
  have "rfold (\<lambda>(s, k). transform_step lib df p (Some s) k) (zip ss ids) acc =
      rfold (transform_step lib df p None) ids acc" if "length ss = length ids" for ss ids acc
    using that
  proof (induction ss ids arbitrary: acc rule: list_induct2)
    case (Cons s ss k ids)
    then have "rfold (\<lambda>(s, k). transform_step lib df p (Some s) k) (zip ss ids) =
        rfold (transform_step lib df p None) ids" by blast
    then show ?case by (simp add: transform_step_stream [of lib df p "Some s"])
  qed simp
  moreover assume "is_fitted p"
  ultimately show ?thesis by (simp add: transform_def)
qed

lemma transform_columns:
  assumes "is_fitted p" and "distinct (tokenizer_order p)"
    and "\<And>k. k \<in> set (tokenizer_order p) \<Longrightarrow> map_of (column_specs p) k = Some [k] \<and>
      (\<exists>t col. map_of (steps p) k = Some t \<and> map_of df k = Some col \<and> tok_tokenize lib t col = Inr (ts k))"
  shows "transform lib df p = Inr (map (\<lambda>k. (k, ts k)) (tokenizer_order p))"
proof -
  have "rfold (transform_step lib df p None) ids acc = Inr (acc @ map (\<lambda>k. (k, ts k)) ids)"
    if "distinct ids" "set ids \<subseteq> set (tokenizer_order p)" "set ids \<inter> set (map fst acc) = {}" for ids acc
    using that
  proof (induction ids arbitrary: acc)
    case (Cons k ids)
    then have "transform_step lib df p None k acc = Inr (AList.update k (ts k) acc)"
      using assms(3) [of k] by (auto simp: transform_step_def dict_lookup_def select_columns_def)
    moreover have "AList.update k (ts k) acc = acc @ [(k, ts k)]"
      using Cons.prems(3) by (intro update_fresh) simp
    moreover have "rfold (transform_step lib df p None) ids (acc @ [(k, ts k)]) =
        Inr ((acc @ [(k, ts k)]) @ map (\<lambda>k. (k, ts k)) ids)"
      using Cons.prems by (intro Cons.IH) auto
    ultimately show ?case by simp
  qed simp
  from this [OF assms(2) subset_refl, of "[]"] show ?thesis
    by (simp add: transform_sequential [OF assms(1)])
qed

subsection \<open>Cell-wise conversions\<close>

text \<open>What the code relies on in cuDF: a conversion works cell by cell, and integers without nulls
  convert to integers without nulls.\<close>

definition cellwise :: "cudf_lib \<Rightarrow> bool" where
  "cellwise lib \<longleftrightarrow>
     (\<forall>c. length (lib_int32 lib c) = col_len c \<and> length (lib_str lib c) = col_len c) \<and>
     (\<forall>c ys. lib_int64 lib c = Inr ys \<longrightarrow> length ys = col_len c) \<and>
     (\<forall>n s f c. length (lib_kbins lib n s f c) = col_len c) \<and>
     (\<forall>xs. None \<notin> set (lib_int32 lib (IntCol (map Some xs)))) \<and>
     (\<forall>xs. \<exists>ys. lib_int64 lib (IntCol (map Some xs)) = Inr ys)"

lemma host_ints_len: "length (host_ints c) = col_len c"
  by (cases c) simp_all

lemma host_strs_len: "length (host_strs c) = col_len c"
  by (cases c) simp_all

lemma cellwise_host: "cellwise host_lib"
  by (auto simp: cellwise_def host_lib_def host_ints_len host_strs_len)

lemma map_tokens_length: "map_tokens t xs = Inr ts \<Longrightarrow> length ts = length xs"
  by (auto simp: map_tokens_def split: option.splits)

lemma dense_length: "dense xs = Inr ys \<Longrightarrow> length ys = length xs"
  by (auto simp: dense_def split: if_splits)

lemma numeric_values_length: "numeric_values c = Inr ys \<Longrightarrow> length ys = col_len c"
  by (cases c) (auto simp: rbind_eq_Inr dest: dense_length)

lemma as_text_length: "cellwise lib \<Longrightarrow> length (as_text lib c) = col_len c"
  by (cases c) (simp_all add: as_text_def cellwise_def)

lemma tokenize_direct_length: "tokenize_direct lib t c = Inr ts \<Longrightarrow> length ts = length (as_text lib c)"
  by (auto simp: tokenize_direct_def Let_def split: option.splits list.splits)

text \<open>A step prints one token for every cell.\<close>

lemma tok_tokenize_length:
  assumes "cellwise lib" and "tok_tokenize lib t c = Inr ts"
  shows "length ts = col_len c"
proof (cases t)
  case (TFixed x)
  with assms show ?thesis by (auto simp: fixed_tokenize_def cellwise_def dest: map_tokens_length)
next
  case (THash x)
  with assms show ?thesis by (cases c) (auto simp: hash_tokenize_def dest: map_tokens_length)
next
  case (TMapping x)
  show ?thesis
  proof (cases "mt_mode x = MRange")
    case True
    with TMapping assms obtain vals where v: "lib_int64 lib c = Inr vals"
      by (auto simp: mapping_tokenize_def tokenize_range_def rbind_eq_Inr)
    with True TMapping assms tokenize_range_eq [OF v, of x] have "length ts = length vals"
      by (auto simp: mapping_tokenize_def)
    then show ?thesis using assms(1) v by (simp add: cellwise_def)
  next
    case False
    with TMapping assms have "length ts = length (as_text lib c)"
      by (auto simp: mapping_tokenize_def dest: tokenize_direct_length)
    then show ?thesis by (simp add: as_text_length [OF assms(1)])
  qed
next
  case (TNumerical x)
  with assms show ?thesis by (auto simp: numerical_tokenize_def cellwise_def dest: map_tokens_length)
next
  case (TTime x)
  with assms obtain ys where ys: "numeric_values c = Inr ys"
      "map_tokens x (map (\<lambda>y. Some (timedelta_bin lib x y)) ys) = Inr ts"
    by (auto simp: timedelta_tokenize_def rbind_eq_Inr)
  show ?thesis using map_tokens_length [OF ys(2)] numeric_values_length [OF ys(1)] by simp
qed

subsection \<open>The default steps on a preprocessed frame\<close>

lemma default_specs:
  "column_specs (default_pipeline lib n st th) =
     map (\<lambda>k. (k, [k])) (tokenizer_order (default_pipeline lib n st th))"
  by (simp add: financial_pipeline_def configure_steps_def pipeline_init_def Let_def)

lemma values_ready: "vs \<noteq> [] \<Longrightarrow> mapping_ready (mapping_init p None (Some vs) None dflt st) d"
  by (simp add: mapping_ready_def mapping_init_def)

lemma direct_ready: "m \<noteq> [] \<Longrightarrow> mapping_ready (mapping_init p (Some m) v None dflt st) d"
  by (simp add: mapping_ready_def mapping_init_def)

lemma ranges_ready:
  "dflt \<notin> (\<lambda>(lo, hi, l). l) ` set rs \<Longrightarrow> mapping_ready (mapping_init p m v (Some rs) dflt st) d"
  by (simp add: mapping_ready_def mapping_init_def)

lemma label_lists_nonempty: "KNOWN_MCCS \<noteq> []" "ALL_STATES \<noteq> []" "CHIP_MAPPING \<noteq> []"
  using length_mccs length_states by (auto simp: CHIP_MAPPING_def)

lemma general_no_industry: "''GENERAL'' \<notin> (\<lambda>(lo, hi, l). l) ` set INDUSTRY_RANGES"
  using cat_labels_facts(1) by (auto simp: cat_labels_def)

lemmas mapping_ready_steps = values_ready direct_ready ranges_ready label_lists_nonempty general_no_industry

text \<open>Every step is ready for any data and accepts its column of the frame.\<close>

lemma default_steps_ready:
  assumes "0 < n"
  shows "list_all (\<lambda>(k, t). tok_ready t d) (steps (default_pipeline lib n st th))"
  unfolding default_steps using assms
  by (simp add: fixed_ready_def fixed_init_def hash_ready_def hash_init_def mapping_ready_steps)

lemma int_column_accepted:
  assumes "cellwise lib"
  shows "fixed_accepts lib ft (IntCol (map (Some \<circ> f) rs))"
    and "hash_accepts ht (IntCol (map (Some \<circ> f) rs))"
    and "mapping_accepts lib mt (IntCol (map (Some \<circ> f) rs))"
proof -
  obtain ys where "lib_int64 lib (IntCol (map Some (map f rs))) = Inr ys"
    using assms unfolding cellwise_def by metis
  then show "mapping_accepts lib mt (IntCol (map (Some \<circ> f) rs))"
    by (simp add: mapping_accepts_def)
  have "None \<notin> set (lib_int32 lib (IntCol (map Some (map f rs))))"
    using assms unfolding cellwise_def by blast
  then show "fixed_accepts lib ft (IntCol (map (Some \<circ> f) rs))"
    by (simp add: fixed_accepts_def)
  show "hash_accepts ht (IntCol (map (Some \<circ> f) rs))" by (auto simp: hash_accepts_def)
qed

lemma text_step_accepts:
  "mapping_accepts lib (mapping_init p None (Some vs) None d s) c"
  "mapping_accepts lib (mapping_init p (Some m) None None d s) c"
  by (simp_all add: mapping_accepts_def mapping_init_def)

lemma default_steps_accept:
  assumes "cellwise lib"
  shows "list_all (\<lambda>(k, t). \<exists>col. map_of (frame_of rs) k = Some col \<and> col_len col = length rs \<and> tok_accepts lib t col)
    (steps (default_pipeline lib n st th))"
  unfolding default_steps
  by (simp add: frame_of_def int_column_accepted [OF assms] text_step_accepts)

lemma default_step_of:
  assumes "k \<in> set (tokenizer_order (default_pipeline lib n st th))"
  shows "\<exists>t. map_of (steps (default_pipeline lib n st th)) k = Some t \<and> (k, t) \<in> set (steps (default_pipeline lib n st th))"
  using default_present(1) [of lib n st th] assms by (auto simp: list_all_iff dest: map_of_SomeD)

lemma default_column:
  assumes "cellwise lib" and "(k, t) \<in> set (steps (default_pipeline lib n st th))"
  shows "\<exists>col. map_of (frame_of rs) k = Some col \<and> col_len col = length rs \<and> tok_accepts lib t col"
  using default_steps_accept [OF assms(1), of rs n st th] assms(2) by (auto simp: list_all_iff)

lemma default_spec_of:
  "k \<in> set (tokenizer_order (default_pipeline lib n st th)) \<Longrightarrow>
   map_of (column_specs (default_pipeline lib n st th)) k = Some [k]"
  unfolding default_specs by (simp add: map_of_map_restrict)

subsection \<open>Fitting the default pipeline\<close>

lemma default_fit_total:
  assumes "cellwise lib"
  shows "\<exists>p'. fit lib (frame_of rs) (default_pipeline lib n st th) = Inr p'"
proof (rule fit_total)
  fix k assume k: "k \<in> set (tokenizer_order (default_pipeline lib n st th))"
  obtain t where "map_of (steps (default_pipeline lib n st th)) k = Some t"
      "(k, t) \<in> set (steps (default_pipeline lib n st th))" using default_step_of [OF k] by blast
  with default_column [OF assms] default_spec_of [OF k]
  show "\<exists>t c col. map_of (steps (default_pipeline lib n st th)) k = Some t \<and>
      map_of (column_specs (default_pipeline lib n st th)) k = Some [c] \<and> map_of (frame_of rs) c = Some col"
    by blast
qed (rule default_present(2))

lemma default_fit_columns:
  assumes "fit lib df (default_pipeline lib n st th) = Inr p'" and "\<And>k. k \<in> set (tokenizer_order (default_pipeline lib n st th)) \<Longrightarrow> map_of df k \<noteq> None"
    and "k \<in> set (tokenizer_order (default_pipeline lib n st th))"
  shows "map_of (steps p') k =
    Some (tok_build_vocab lib (the (map_of (steps (default_pipeline lib n st th)) k)) (map_of df k))"
proof -
  obtain t col where "map_of (steps (default_pipeline lib n st th)) k = Some t" "map_of df k = Some col"
    using default_step_of [OF assms(3)] assms(2) [OF assms(3)] by blast
  with rfold_build_value [OF fit_result(1) [OF assms(1) default_present(2)] default_present(2) assms(3)]
    default_spec_of [OF assms(3)] show ?thesis by simp
qed

text \<open>The vocabulary does not depend on the data.\<close>

lemma default_fit_vocab:
  assumes "fit lib df (default_pipeline lib n st th) = Inr p'"
    and "\<And>k. k \<in> set (tokenizer_order (default_pipeline lib n st th)) \<Longrightarrow> map_of df k \<noteq> None"
  shows "pipeline_vocab p' = fin_entries n"
    and "pipeline_id_to_token p' = dict_of (map (\<lambda>(s, i). (i, s)) (fin_entries n))"
    and "fit_entries (default_pipeline lib n st th) p' = fin_entries n"
proof -
  have "flats (steps p') (tokenizer_order (default_pipeline lib n st th)) =
      map (\<lambda>i. (i, the (tok_flat (tok_build_vocab lib
       (the (map_of (steps (default_pipeline lib n st th)) i)) (map_of df i)))))
     (tokenizer_order (default_pipeline lib n st th))"
    unfolding flats_def by (rule map_cong [OF refl]) (simp add: default_fit_columns [OF assms])
  then have fl: "flats (steps p') (tokenizer_order (default_pipeline lib n st th)) =
      dicts_before n @ [dict_month] @ dicts_after"
    unfolding default_flats .
  show e: "fit_entries (default_pipeline lib n st th) p' = fin_entries n"
    unfolding fit_entries_def fl default_special fin_entries_def ..
  show "pipeline_vocab p' = fin_entries n"
    unfolding fit_result(4) [OF assms(1) default_present(2)] e by (rule dict_of_distinct [OF distinct_fin_tokens])
  show "pipeline_id_to_token p' = dict_of (map (\<lambda>(s, i). (i, s)) (fin_entries n))"
    unfolding fit_result(5) [OF assms(1) default_present(2)] e ..
qed

lemma frame_of_present:
  assumes "k \<in> set (tokenizer_order (default_pipeline lib n st th))"
  shows "map_of (frame_of rs) k \<noteq> None"
  using assms unfolding default_order by (auto simp: frame_of_def)

lemma block_id_lower:
  assumes "(s, i) \<in> set (block_entries 5 (dicts_before n @ [dict_month] @ dicts_after))"
  shows "5 \<le> i \<and> i < 4251 + int n"
proof -
  have e: "block_entries 5 (dicts_before n @ [dict_month] @ dicts_after) =
      block_entries 5 (dicts_before n) @ entries_month n @ entries_after n"
    using fin_entries_split [of n] by (simp add: fin_entries_def entries_before_def)
  have "map snd (block_entries 5 (dicts_before n)) = map int [5..<5 + (162 + n)]"
    by (subst block_entries_ids)
      (simp_all only: before_size, simp add: dicts_before_def zero_based_steps)
  from ids_of_part [OF this, of s i] month_ids(1) [of s i n] ids_of_part [OF after_ids, of s i n] assms
  show ?thesis unfolding e by auto
qed

lemma fst_image_pair: "x \<in> fst ` A \<Longrightarrow> \<exists>y. (x, y) \<in> A"
  by auto

text \<open>A token of a step has an id above those of the special tokens.\<close>

lemma step_token_id:
  assumes "fit lib (frame_of rs) (default_pipeline lib n st th) = Inr p'"
    and "k \<in> set (tokenizer_order (default_pipeline lib n st th))" and "map_of (steps p') k = Some t"
    and "tok_flat t = Some d" and "s \<in> snd ` set d"
  shows "5 \<le> dict_get (pipeline_vocab p') s u \<and> dict_get (pipeline_vocab p') s u < 4251 + int n"
proof -
  let ?p = "default_pipeline lib n st th" and ?B = "dicts_before n @ [dict_month] @ dicts_after"
  have pres: "\<And>k. k \<in> set (tokenizer_order ?p) \<Longrightarrow> map_of (frame_of rs) k \<noteq> None"
    by (rule frame_of_present)
  note v = default_fit_vocab [OF assms(1) pres, simplified]
  have fl: "block_entries (num_special_tokens ?p) (flats (steps p') (tokenizer_order ?p)) = block_entries 5 ?B"
    using v(3) by (simp add: fit_entries_def fin_entries_def default_special)
  have "(k, d) \<in> set (flats (steps p') (tokenizer_order ?p))"
    using assms(2-4) by (auto simp: flats_def image_iff)
  then have "s \<in> set (concat (map (\<lambda>(i, d). map snd d) (flats (steps p') (tokenizer_order ?p))))"
    using assms(5) by (force simp only: set_concat set_map UN_iff)
  then have "s \<in> fst ` set (block_entries 5 ?B)"
    unfolding fl [symmetric] set_map [symmetric] block_entries_tokens .
  then obtain i where i: "(s, i) \<in> set (block_entries 5 ?B)" by (rule fst_image_pair [THEN exE])
  then have "(s, i) \<in> set (fin_entries n)" unfolding fin_entries_def set_append by (rule UnI2)
  then have "map_of (pipeline_vocab p') s = Some i"
    unfolding v(1) by (rule map_of_is_SomeI [OF distinct_fin_tokens])
  then show ?thesis using block_id_lower [OF i] by (simp add: dict_get_def)
qed

lemma default_tokens:
  assumes "cellwise lib" and "0 < n" and "fit lib (frame_of rs0) (default_pipeline lib n st th) = Inr p"
    and "k \<in> set (tokenizer_order (default_pipeline lib n st th))"
  shows "\<exists>t col ts. map_of (steps p) k = Some t \<and> map_of (frame_of rs) k = Some col \<and>
    tok_tokenize lib t col = Inr ts \<and> length ts = length rs \<and>
    (\<forall>w\<in>set ts. 5 \<le> token_id (pipeline_vocab p) u w \<and> token_id (pipeline_vocab p) u w < 4251 + int n)"
proof -
  let ?p = "default_pipeline lib n st th"
  obtain t0 where t0: "map_of (steps ?p) k = Some t0" "(k, t0) \<in> set (steps ?p)"
    using default_step_of [OF assms(4)] by blast
  obtain col where col: "map_of (frame_of rs) k = Some col" "col_len col = length rs" "tok_accepts lib t0 col"
    using default_column [OF assms(1) t0(2)] by blast
  let ?c = "map_of (frame_of rs0) k" and ?t = "tok_build_vocab lib t0 (map_of (frame_of rs0) k)"
  have ready: "tok_ready t0 ?c" using default_steps_ready [OF assms(2), of ?c lib st th] t0(2) by (auto simp: list_all_iff)
  have t: "map_of (steps p) k = Some ?t"
    using default_fit_columns [OF assms(3) frame_of_present assms(4), simplified] t0(1) by simp
  obtain d where d: "tok_flat ?t = Some d" using any.build_idx [OF ready] by blast
  obtain ts where ts: "tok_tokenize lib ?t col = Inr ts" "None \<notin> set ts"
    using any.tokenize_total [OF ready col(3)] by blast
  have "5 \<le> token_id (pipeline_vocab p) u w \<and> token_id (pipeline_vocab p) u w < 4251 + int n"
    if w: "w \<in> set ts" for w
  proof -
    obtain s where s: "w = Some s" using mem_Some [OF w ts(2)] by blast
    then have "s \<in> snd ` set d" using any.tokenize_covered [OF ready col(3) ts(1)] w d by simp
    from step_token_id [OF assms(3,4) t d this] s show ?thesis by (simp add: token_id_def)
  qed
  with t col ts tok_tokenize_length [OF assms(1) ts(1)] show ?thesis by auto
qed

lemma default_transform:
  assumes "cellwise lib" and "0 < n" and "fit lib (frame_of rs0) (default_pipeline lib n st th) = Inr p"
  shows "\<exists>token_df. transform lib (frame_of rs) p = Inr token_df \<and>
    (\<forall>i < length rs. length (row_ids (pipeline_vocab p) u token_df i) = 12 \<and>
       (\<forall>x\<in>set (row_ids (pipeline_vocab p) u token_df i). 5 \<le> x \<and> x < 4251 + int n))"
proof -
  let ?p = "default_pipeline lib n st th"
  note order = fit_result(7) [OF assms(3) default_present(2)]
  let ?good = "\<lambda>k ts. \<exists>t col. map_of (steps p) k = Some t \<and> map_of (frame_of rs) k = Some col \<and>
    tok_tokenize lib t col = Inr ts \<and> length ts = length rs \<and>
    (\<forall>w\<in>set ts. 5 \<le> token_id (pipeline_vocab p) u w \<and> token_id (pipeline_vocab p) u w < 4251 + int n)"
  have "\<exists>ts. \<forall>k\<in>set (tokenizer_order ?p). ?good k (ts k)"
    using default_tokens [OF assms, of _ rs u] by (intro bchoice) blast
  then obtain ts where ts: "\<And>k. k \<in> set (tokenizer_order ?p) \<Longrightarrow> ?good k (ts k)" by blast
  have tr: "transform lib (frame_of rs) p = Inr (map (\<lambda>k. (k, ts k)) (tokenizer_order p))"
  proof (rule transform_columns)
    fix k assume "k \<in> set (tokenizer_order p)"
    then have k: "k \<in> set (tokenizer_order ?p)" unfolding order .
    show "map_of (column_specs p) k = Some [k] \<and>
      (\<exists>t col. map_of (steps p) k = Some t \<and> map_of (frame_of rs) k = Some col \<and> tok_tokenize lib t col = Inr (ts k))"
      using ts [OF k] default_spec_of [OF k] fit_result(8) [OF assms(3) default_present(2)] by auto
  qed (use fit_result(6) [OF assms(3) default_present(2)] default_present(2) in \<open>simp_all add: order\<close>)
  have ids: "row_ids (pipeline_vocab p) u (map (\<lambda>k. (k, ts k)) (tokenizer_order p)) i =
      map (\<lambda>k. token_id (pipeline_vocab p) u (ts k ! i)) (tokenizer_order ?p)" for i
    by (simp add: row_ids_def order)
  have "length (tokenizer_order ?p) = 12" by (simp add: default_order)
  then show ?thesis
    using tr ids ts by (intro exI [of _ "map (\<lambda>k. (k, ts k)) (tokenizer_order p)"]) fastforce
qed

subsection \<open>A worker and its batches\<close>

text \<open>The states of one worker: constructed, then called on any batches.\<close>

inductive gpu_reach ::
    "cudf_lib \<Rightarrow> prep_lib \<Rightarrow> (prep_row list \<Rightarrow> (string, string list) dict) \<Rightarrow> nat \<Rightarrow> gpu_tokenizer \<Rightarrow> bool"
  for lib plib cols n where
  start: "gpu_reach lib plib cols n (gpu_init lib n carry_cols)"
| batch: "gpu_reach lib plib cols n g \<Longrightarrow> gpu_call lib plib cols b g = Inr (out, g') \<Longrightarrow>
    gpu_reach lib plib cols n g'"

lemma gpu_reach_pipeline:
  "gpu_reach lib plib cols n g \<Longrightarrow>
   if gt_fitted g then \<exists>rs. fit lib (frame_of rs) (default_pipeline lib n False 5) = Inr (gt_pipeline g)
   else gt_pipeline g = default_pipeline lib n False 5"
proof (induction rule: gpu_reach.induct)
  case (batch g b out g')
  from batch.hyps(2) obtain proc p where "preprocess plib b = Inr proc"
      "(if \<not> gt_fitted g then fit lib (frame_of proc) (gt_pipeline g) else Inr (gt_pipeline g)) = Inr p"
      "g' = g\<lparr>gt_pipeline := p, gt_fitted := True\<rparr>"
    by (auto simp: gpu_call_def rbind_eq_Inr Let_def)
  with batch.IH show ?case by (auto split: if_splits)
qed (simp add: gpu_init_def)

lemma gpu_call_result:
  assumes "cellwise lib" and "0 < n" and "gpu_reach lib plib cols n g" and "preprocess plib b = Inr proc"
    and "list_all (\<lambda>c. normalize_column c \<in> fst ` set (cols proc)) (gt_carry_cols g)"
  shows "\<exists>out g'. gpu_call lib plib cols b g = Inr (out, g') \<and> gt_fitted g' \<and>
    length (tb_token_ids out) = length proc \<and> length (tb_uc_key out) = length proc \<and>
    (\<forall>row\<in>set (tb_token_ids out). length row = 12 \<and> (\<forall>i\<in>set row. 5 \<le> i \<and> i < 4251 + int n))"
proof -
  let ?p = "default_pipeline lib n False 5"
  obtain p where p: "(if \<not> gt_fitted g then fit lib (frame_of proc) (gt_pipeline g) else Inr (gt_pipeline g)) = Inr p"
      "\<exists>rs. fit lib (frame_of rs) ?p = Inr p"
    using gpu_reach_pipeline [OF assms(3)] default_fit_total [OF assms(1), of proc n False 5]
    by (cases "gt_fitted g") auto
  then obtain rs0 where fit: "fit lib (frame_of rs0) ?p = Inr p" by blast
  from default_transform [OF assms(1,2) fit, of proc UNK_TOKEN_ID]
  obtain token_df where df: "transform lib (frame_of proc) p = Inr token_df"
    and rows: "\<forall>i < length proc. length (row_ids (pipeline_vocab p) UNK_TOKEN_ID token_df i) = 12 \<and>
       (\<forall>x\<in>set (row_ids (pipeline_vocab p) UNK_TOKEN_ID token_df i). 5 \<le> x \<and> x < 4251 + int n)"
    by blast
  have "\<exists>v. dict_lookup (cols proc) (normalize_column c) = Inr v" if "c \<in> set (gt_carry_cols g)" for c
    using assms(5) that by (auto simp: list_all_iff dict_lookup_def map_of_eq_None_iff split: option.splits)
  then have "rmap (\<lambda>c. rbind (dict_lookup (cols proc) (normalize_column c)) (\<lambda>v. Inr (c, v))) (gt_carry_cols g) =
      Inr (map (\<lambda>c. (c, projr (dict_lookup (cols proc) (normalize_column c)))) (gt_carry_cols g))"
    by (intro rmap_Inr_map) force
  then show ?thesis
    using rows by (simp add: gpu_call_def assms(4) p(1) df Let_def)
qed

text \<open>C31: one worker that tokenizes on the GPU builds its vocabulary from the first batch it happens to
  see. Whatever that batch is, the vocabulary is the one of the tokenizer the model is trained with, so
  the ids of all workers agree.\<close>

theorem gpu_vocabulary_shared:
  assumes "gpu_reach lib plib cols n g" and "gt_fitted g" and "tabular_init lib n ''fixed'' False = Inr tt"
  shows "pipeline_vocab (gt_pipeline g) = tt_vocab tt \<and> pipeline_id_to_token (gt_pipeline g) = tt_id_to_token tt"
proof -
  obtain rs where fit: "fit lib (frame_of rs) (default_pipeline lib n False 5) = Inr (gt_pipeline g)"
    using gpu_reach_pipeline [OF assms(1)] assms(2) by auto
  show ?thesis
    using default_fit_vocab(1,2) [OF fit frame_of_present, simplified] tabular_init_result [of lib n] assms(3)
    by auto
qed

text \<open>An instance of the preprocessing library: plain parsers, a polynomial hash, and stable sorts.\<close>

definition parse_digits :: "string \<Rightarrow> int" where
  "parse_digits s = foldl (\<lambda>a c. 10 * a + (of_char c - 48)) 0 s"

definition host_prep :: prep_lib where
  "host_prep = \<lparr>p_float = (\<lambda>s. Inr (of_int (parse_digits s))), p_int = (\<lambda>s. Inr (parse_digits s)),
     p_hash = (\<lambda>s. foldl (\<lambda>a c. 31 * a + of_char c) 7 s), p_datetime = (\<lambda>s. Inr (parse_digits (take 4 s) * 10 ^ 15)),
     p_hour = (\<lambda>t. t mod 24), p_dow = (\<lambda>t. t mod 7), p_month = (\<lambda>t. t mod 12 + 1),
     p_sort = (\<lambda>rs. sort_key user (sort_key card (sort_key time_full rs)))\<rparr>"

definition sample_txn :: raw_row where
  "sample_txn = \<lparr>raw_amount = ''$42'', raw_merchant_name = ''Cafe 7'', raw_mcc = Some 5812, raw_year = 2019,
     raw_month = 12, raw_day = 1, raw_time = Some ''08:30'', raw_card = 0, raw_use_chip = ''Chip Transaction'',
     raw_zip = Some ''94105.0'', raw_state = Some ''CA'', raw_user = 17, raw_time_full = None\<rparr>"

lemma sample_prep: "\<exists>proc. preprocess host_prep [sample_txn, sample_txn] = Inr proc \<and> length proc = 2"
  by (simp add: preprocess_def prep_row_of_def host_prep_def Let_def)

lemma sample_call:
  "\<exists>out g'. gpu_call host_lib host_prep (\<lambda>_. []) [sample_txn, sample_txn] (gpu_init host_lib 2000 []) = Inr (out, g') \<and>
     gt_fitted g'"
proof -
  obtain proc where "preprocess host_prep [sample_txn, sample_txn] = Inr proc" using sample_prep by blast
  from gpu_call_result [OF cellwise_host _ gpu_reach.start this, of 2000 "\<lambda>_. []" "[]"] show ?thesis
    by (auto simp: gpu_init_def)
qed

theorem gpu_vocabulary_shared_witness:
  "\<exists>g tt. gpu_reach host_lib host_prep (\<lambda>_. []) 2000 g \<and> gt_fitted g \<and>
     tabular_init host_lib 2000 ''fixed'' False = Inr tt \<and> pipeline_vocab (gt_pipeline g) = tt_vocab tt"
proof -
  obtain out g' where c: "gpu_call host_lib host_prep (\<lambda>_. []) [sample_txn, sample_txn] (gpu_init host_lib 2000 []) = Inr (out, g')"
      "gt_fitted g'" using sample_call by blast
  obtain tt where tt: "tabular_init host_lib 2000 ''fixed'' False = Inr tt" using tabular_init_result by blast
  have r: "gpu_reach host_lib host_prep (\<lambda>_. []) 2000 g'" by (rule gpu_reach.batch [OF gpu_reach.start c(1)])
  from gpu_vocabulary_shared [OF r c(2) tt] r c tt show ?thesis by blast
qed

text \<open>Every call on a batch that can be preprocessed and has the columns to carry succeeds, and gives
  each transaction twelve ids, all of step tokens: none is a special token and none falls back to the
  unknown token.\<close>

lemma gpu_call_tokens_known:
  assumes "cellwise lib" and "0 < n" and "gpu_reach lib plib cols n g" and "preprocess plib b = Inr proc"
    and "list_all (\<lambda>c. normalize_column c \<in> fst ` set (cols proc)) (gt_carry_cols g)"
  shows "\<exists>out g'. gpu_call lib plib cols b g = Inr (out, g') \<and> gt_fitted g' \<and>
    length (tb_token_ids out) = length proc \<and> length (tb_uc_key out) = length proc \<and>
    (\<forall>row\<in>set (tb_token_ids out). length row = 12 \<and> (\<forall>i\<in>set row. 5 \<le> i \<and> i < 4251 + int n))"
  by (rule gpu_call_result [OF assms])

end
