(* ===== verification/Ref_Bundle.thy ===== *)
theory Ref_Bundle
  imports Complex_Main Prelude
begin

section \<open>Ray Data: bundles of block references\<close>

text \<open>
  Models \<open>ray/python/ray/data/_internal/execution/interfaces/ref_bundle.py\<close>: block slices
  and entries, the checks of \<open>RefBundle.__post_init__\<close>, the row and byte counts, \<open>slice\<close> and
  \<open>merge_ref_bundles\<close>, and equality. Object references are numbers; a schema is its object
  identity with its column names. The specification reads a bundle as the list of rows it
  stands for.
\<close>

subsection \<open>Data\<close>

record block_slice =
  start_offset :: int
  end_offset :: int

definition slice_num_rows :: "block_slice \<Rightarrow> int" where
  "slice_num_rows s = end_offset s - start_offset s"

record block_metadata =
  md_num_rows :: "int option"
  md_size_bytes :: "int option"

record block_entry =
  entry_ref :: nat
  entry_metadata :: block_metadata

record schema =
  schema_id :: nat
  schema_names :: "string list"

record ref_bundle =
  blocks :: "block_entry list"
  bundle_schema :: "schema option"
  owns_blocks :: bool
  slices :: "block_slice option list"
  output_split_idx :: "nat option"

subsection \<open>Construction\<close>

text \<open>The range checks of one slice against its block.\<close>

definition slice_check :: "block_entry \<times> block_slice option \<Rightarrow> unit result" where
  "slice_check es =
     (case es of (e, sl) \<Rightarrow>
       (case sl of
          None \<Rightarrow> Inr ()
        | Some s \<Rightarrow>
            if \<not> start_offset s \<ge> 0 then Inl (AssertionError ''start_offset must be non-negative'')
            else if \<not> end_offset s \<ge> start_offset s then Inl (AssertionError ''end_offset must be >= start_offset'')
            else (case md_num_rows (entry_metadata e) of
                    None \<Rightarrow> Inr ()
                  | Some n \<Rightarrow> if \<not> end_offset s \<le> n then Inl (AssertionError ''Slice exceeds block num_rows'')
                             else Inr ())))"

definition ref_bundle_init ::
    "block_entry list \<Rightarrow> schema option \<Rightarrow> bool \<Rightarrow> block_slice option list option \<Rightarrow> ref_bundle result" where
  "ref_bundle_init bs sch owns sls =
     rbind (case sls of
              None \<Rightarrow> Inr (replicate (length bs) None)
            | Some ss \<Rightarrow>
                if length bs \<noteq> length ss then Inl (AssertionError ''Number of blocks and slices must match'')
                else rbind (rmap slice_check (zip bs ss)) (\<lambda>_. Inr ss))
       (\<lambda>ss. if list_ex (\<lambda>e. md_size_bytes (entry_metadata e) = None) bs
             then Inl (ValueError ''The size in bytes of the block must be known'')
             else Inr \<lparr>blocks = bs, bundle_schema = sch, owns_blocks = owns, slices = ss, output_split_idx = None\<rparr>)"

subsection \<open>Counts\<close>

fun rows_loop :: "(block_entry \<times> block_slice option) list \<Rightarrow> int \<Rightarrow> int option" where
  "rows_loop [] acc = Some acc"
| "rows_loop ((e, sl) # es) acc =
     (case sl of
        None \<Rightarrow> (case md_num_rows (entry_metadata e) of None \<Rightarrow> None | Some n \<Rightarrow> rows_loop es (acc + n))
      | Some s \<Rightarrow> rows_loop es (acc + slice_num_rows s))"

definition num_rows :: "ref_bundle \<Rightarrow> int option" where
  "num_rows b = rows_loop (zip (blocks b) (slices b)) 0"

text \<open>\<open>bundle.num_rows() or 0\<close>.\<close>

definition rows_or_0 :: "ref_bundle \<Rightarrow> int" where
  "rows_or_0 b = (case num_rows b of None \<Rightarrow> 0 | Some n \<Rightarrow> n)"

text \<open>Python's \<open>round\<close>: to the nearest integer, ties to the even one.\<close>

definition py_round :: "rat \<Rightarrow> int" where
  "py_round r =
     (let f = \<lfloor>r\<rfloor>; d = r - of_int f
      in if d < 1/2 then f else if d > 1/2 then f + 1 else if even f then f else f + 1)"

definition entry_size :: "block_entry \<times> block_slice option \<Rightarrow> int" where
  "entry_size es =
     (case es of (e, sl) \<Rightarrow>
       let size = the (md_size_bytes (entry_metadata e))
       in case sl of
            None \<Rightarrow> size
          | Some s \<Rightarrow>
             (case md_num_rows (entry_metadata e) of
                None \<Rightarrow> size
              | Some n \<Rightarrow>
                  if n = 0 then size
                  else if n \<noteq> slice_num_rows s
                  then max 1 (py_round (of_int size / of_int n * of_int (slice_num_rows s)))
                  else size))"

definition size_bytes :: "ref_bundle \<Rightarrow> int" where
  "size_bytes b = sum_list (map entry_size (zip (blocks b) (slices b)))"

definition block_refs :: "ref_bundle \<Rightarrow> nat list" where
  "block_refs b = map entry_ref (blocks b)"

definition destroy_if_owned :: "bool \<Rightarrow> ref_bundle \<Rightarrow> int" where
  "destroy_if_owned eager_free b = (if owns_blocks b \<and> eager_free then size_bytes b else 0)"

subsection \<open>slice\<close>

text \<open>Full blocks become explicit slices.\<close>

definition explicit_slice :: "block_entry \<times> block_slice option \<Rightarrow> (block_entry \<times> block_slice) result" where
  "explicit_slice es =
     (case es of (e, sl) \<Rightarrow>
       (case sl of
          Some s \<Rightarrow> Inr (e, s)
        | None \<Rightarrow>
           (case md_num_rows (entry_metadata e) of
              None \<Rightarrow> Inl (AssertionError ''unknown block row counts'')
            | Some n \<Rightarrow> Inr (e, \<lparr>start_offset = 0, end_offset = n\<rparr>))))"

type_synonym sliced = "(block_entry \<times> block_slice) list"

fun slice_loop :: "int \<Rightarrow> sliced \<Rightarrow> sliced \<times> sliced" where
  "slice_loop rows_to_take [] = ([], [])"
| "slice_loop rows_to_take ((e, s) # es) =
     (let block_rows = slice_num_rows s
      in if rows_to_take \<ge> block_rows
         then (let (c, r) = slice_loop (rows_to_take - block_rows) es in ((e, s) # c, r))
         else if rows_to_take = 0
         then (let (c, r) = slice_loop rows_to_take es in (c, (e, s) # r))
         else
           (let consume = \<lparr>start_offset = start_offset s, end_offset = start_offset s + rows_to_take\<rparr>;
                leftover_rows = block_rows - rows_to_take;
                rest = (if leftover_rows > 0
                        then [(e, \<lparr>start_offset = end_offset consume, end_offset = end_offset s\<rparr>)] else []);
                (c, r) = slice_loop 0 es
            in ((e, consume) # c, rest @ r)))"

definition sliced_bundle :: "schema option \<Rightarrow> sliced \<Rightarrow> ref_bundle result" where
  "sliced_bundle sch es =
     ref_bundle_init (map fst es) sch False (if es \<noteq> [] then Some (map (Some \<circ> snd) es) else None)"

definition bundle_slice :: "ref_bundle \<Rightarrow> int \<Rightarrow> (ref_bundle \<times> ref_bundle) result" where
  "bundle_slice b needed_rows =
     (if \<not> needed_rows > 0 then Inl (AssertionError ''needed_rows must be positive.'')
      else case num_rows b of
             None \<Rightarrow> Inl (AssertionError ''Cannot slice a RefBundle with unknown number of rows.'')
           | Some n \<Rightarrow>
               if \<not> needed_rows < n then Inl (AssertionError ''requested rows must be less than the bundle rows'')
               else
                 rbind (rmap explicit_slice (zip (blocks b) (slices b))) (\<lambda>es.
                   let (consumed, remaining) = slice_loop needed_rows es
                   in rbind (sliced_bundle (bundle_schema b) consumed) (\<lambda>s.
                        rbind (sliced_bundle (bundle_schema b) remaining) (\<lambda>r. Inr (s, r)))))"

subsection \<open>merge\_ref\_bundles\<close>

definition is_empty_schema :: "schema option \<Rightarrow> bool" where
  "is_empty_schema s = (case s of None \<Rightarrow> True | Some sc \<Rightarrow> schema_names sc = [])"

fun take_first_non_empty_schema :: "schema option list \<Rightarrow> schema option" where
  "take_first_non_empty_schema [] = None"
| "take_first_non_empty_schema (s # ss) =
     (if \<not> is_empty_schema s then s else take_first_non_empty_schema ss)"

definition merge_ref_bundles :: "ref_bundle list \<Rightarrow> ref_bundle result" where
  "merge_ref_bundles bundles =
     (if bundles = [] then ref_bundle_init [] None True None
      else ref_bundle_init (concat (map blocks bundles))
             (take_first_non_empty_schema (map bundle_schema bundles))
             (list_all owns_blocks bundles)
             (Some (concat (map slices bundles))))"

subsection \<open>The rows of a bundle\<close>

text \<open>A row of a block, or a whole block whose row count is not known.\<close>

datatype row_unit = Row nat int | WholeBlock nat

fun unit_rows :: "block_entry \<times> block_slice option \<Rightarrow> row_unit list" where
  "unit_rows (e, Some s) = map (Row (entry_ref e)) [start_offset s..end_offset s - 1]"
| "unit_rows (e, None) =
     (case md_num_rows (entry_metadata e) of
        None \<Rightarrow> [WholeBlock (entry_ref e)]
      | Some n \<Rightarrow> map (Row (entry_ref e)) [0..n - 1])"

definition bundle_rows :: "ref_bundle \<Rightarrow> row_unit list" where
  "bundle_rows b = concat (map unit_rows (zip (blocks b) (slices b)))"

text \<open>What the constructor checks, and that a known row count is not negative.\<close>

fun entry_ok :: "block_entry \<times> block_slice option \<Rightarrow> bool" where
  "entry_ok (e, sl) \<longleftrightarrow> md_size_bytes (entry_metadata e) \<noteq> None \<and>
     (case md_num_rows (entry_metadata e) of None \<Rightarrow> True | Some n \<Rightarrow> 0 \<le> n) \<and>
     (case sl of None \<Rightarrow> True
      | Some s \<Rightarrow> 0 \<le> start_offset s \<and> start_offset s \<le> end_offset s \<and>
          (case md_num_rows (entry_metadata e) of None \<Rightarrow> True | Some n \<Rightarrow> end_offset s \<le> n))"

definition valid_bundle :: "ref_bundle \<Rightarrow> bool" where
  "valid_bundle b \<longleftrightarrow> length (slices b) = length (blocks b) \<and>
     list_all entry_ok (zip (blocks b) (slices b))"

lemma slice_check_ok: "entry_ok es \<Longrightarrow> slice_check es = Inr ()"
  by (cases es) (auto simp: slice_check_def split: option.splits)

lemma slice_checks_ok: "list_all entry_ok es \<Longrightarrow> \<exists>us. rmap slice_check es = Inr us"
  by (induction es) (auto simp: slice_check_ok)

lemma entries_sized:
  "length ss = length bs \<Longrightarrow> list_all entry_ok (zip bs ss) \<Longrightarrow>
   \<not> list_ex (\<lambda>e. md_size_bytes (entry_metadata e) = None) bs"
  by (induction ss bs rule: list_induct2) auto

lemma ref_bundle_init_ok:
  assumes "length ss = length bs" and "list_all entry_ok (zip bs ss)"
  shows "ref_bundle_init bs sch owns (Some ss) =
    Inr \<lparr>blocks = bs, bundle_schema = sch, owns_blocks = owns, slices = ss, output_split_idx = None\<rparr>"
  using slice_checks_ok [OF assms(2)] entries_sized [OF assms] assms(1)
  by (auto simp: ref_bundle_init_def)

text \<open>A row count that is known is the number of rows.\<close>

lemma rows_loop_length:
  "list_all entry_ok es \<Longrightarrow> rows_loop es acc = Some n \<Longrightarrow> n = acc + int (length (concat (map unit_rows es)))"
proof (induction es acc rule: rows_loop.induct)
  case (2 e sl es acc)
  then show ?case by (auto simp: slice_num_rows_def split: option.splits)
qed simp

lemma num_rows_length:
  "valid_bundle b \<Longrightarrow> num_rows b = Some n \<Longrightarrow> n = int (length (bundle_rows b))"
  using rows_loop_length [of "zip (blocks b) (slices b)" 0 n]
  by (simp add: valid_bundle_def num_rows_def bundle_rows_def)

lemma explicit_slices:
  "list_all entry_ok es \<Longrightarrow> rows_loop es acc = Some n \<Longrightarrow>
   \<exists>es'. rmap explicit_slice es = Inr es' \<and> list_all (\<lambda>(e, s). entry_ok (e, Some s)) es' \<and>
     concat (map (\<lambda>(e, s). unit_rows (e, Some s)) es') = concat (map unit_rows es) \<and>
     (es \<noteq> [] \<longrightarrow> es' \<noteq> [])"
proof (induction es acc rule: rows_loop.induct)
  case (2 e sl es acc)
  then show ?case
    by (cases sl; cases "md_num_rows (entry_metadata e)") (auto simp: explicit_slice_def)
qed simp

lemma slice_loop_rows:
  assumes "list_all (\<lambda>(e, s). entry_ok (e, Some s)) es" and "0 \<le> k" and "slice_loop k es = (c, r)"
  shows "concat (map (\<lambda>(e, s). unit_rows (e, Some s)) c) =
      take (nat k) (concat (map (\<lambda>(e, s). unit_rows (e, Some s)) es)) \<and>
    concat (map (\<lambda>(e, s). unit_rows (e, Some s)) r) =
      drop (nat k) (concat (map (\<lambda>(e, s). unit_rows (e, Some s)) es)) \<and>
    list_all (\<lambda>(e, s). entry_ok (e, Some s)) c \<and> list_all (\<lambda>(e, s). entry_ok (e, Some s)) r"
  using assms
proof (induction k es arbitrary: c r rule: slice_loop.induct)
  case (2 k e s es)
  let ?m = "slice_num_rows s"
  have ok: "entry_ok (e, Some s)" and oks: "list_all (\<lambda>(e, s). entry_ok (e, Some s)) es"
    using "2.prems"(1) by simp_all
  have len: "length (unit_rows (e, Some s)) = nat ?m" by (simp add: slice_num_rows_def)
  have m: "0 \<le> ?m" using ok by (simp add: slice_num_rows_def)
  consider "k \<ge> ?m" | "k < ?m" "k = 0" | "k < ?m" "0 < k" using "2.prems"(2) by linarith
  then show ?case
  proof cases
    case 1
    obtain c' r' where rec: "slice_loop (k - ?m) es = (c', r')" by fastforce
    have cr: "c = (e, s) # c'" "r = r'" using "2.prems"(3) 1 rec by (simp_all add: Let_def)
    have nk: "nat k - nat ?m = nat (k - ?m)" "nat ?m \<le> nat k" using 1 m by simp_all
    show ?thesis
      using "2.IH"(1) [OF refl 1 oks _ rec] 1 ok cr len nk by (simp del: unit_rows.simps)
  next
    case 2
    obtain c' r' where rec: "slice_loop k es = (c', r')" by fastforce
    have cr: "c = c'" "r = (e, s) # r'" using "2.prems"(3) 2 rec by (simp_all add: Let_def)
    show ?thesis
      using "2.IH"(2) [OF refl _ 2(2) oks _ rec] 2 ok cr by simp
  next
    case 3
    obtain c' r' where rec: "slice_loop 0 es = (c', r')" by fastforce
    let ?s1 = "\<lparr>start_offset = start_offset s, end_offset = start_offset s + k\<rparr>"
    let ?s2 = "\<lparr>start_offset = start_offset s + k, end_offset = end_offset s\<rparr>"
    have cr: "c = (e, ?s1) # c'" "r = (e, ?s2) # r'"
      using "2.prems"(3) 3 rec by (simp_all add: Let_def)
    have IH: "concat (map (\<lambda>(e, s). unit_rows (e, Some s)) c') = []"
        "concat (map (\<lambda>(e, s). unit_rows (e, Some s)) r') = concat (map (\<lambda>(e, s). unit_rows (e, Some s)) es)"
        "list_all (\<lambda>(e, s). entry_ok (e, Some s)) c'" "list_all (\<lambda>(e, s). entry_ok (e, Some s)) r'"
      using "2.IH"(3) [OF refl _ _ refl refl refl oks _ rec] 3 by (simp_all del: concat_eq_Nil_conv)
    have "[start_offset s..end_offset s - 1] =
        [start_offset s..start_offset s + k - 1] @ [start_offset s + k..end_offset s - 1]"
      using 3 by (intro upto_split1) (simp_all add: slice_num_rows_def)
    then have parts: "unit_rows (e, Some s) = unit_rows (e, Some ?s1) @ unit_rows (e, Some ?s2)" by simp
    have len1: "length (unit_rows (e, Some ?s1)) = nat k" by simp
    have oks': "entry_ok (e, Some ?s1)" "entry_ok (e, Some ?s2)"
      using ok 3 by (auto simp: slice_num_rows_def split: option.splits)
    show ?thesis
      using cr IH len1 oks' by (simp add: parts del: unit_rows.simps concat_eq_Nil_conv)
  qed
qed simp

lemma sliced_bundle_ok:
  assumes "list_all (\<lambda>(e, s). entry_ok (e, Some s)) es"
  shows "\<exists>b. sliced_bundle sch es = Inr b \<and> valid_bundle b \<and>
    bundle_rows b = concat (map (\<lambda>(e, s). unit_rows (e, Some s)) es) \<and>
    num_rows b = Some (int (length (bundle_rows b))) \<and> bundle_schema b = sch"
proof -
  let ?ss = "map (Some \<circ> snd) es"
  let ?b = "\<lparr>blocks = map fst es, bundle_schema = sch, owns_blocks = False, slices = ?ss, output_split_idx = None\<rparr>"
  have z: "zip (map fst es) ?ss = map (\<lambda>(e, s). (e, Some s)) es" by (induction es) auto
  have ok: "list_all entry_ok (zip (map fst es) ?ss)"
    using assms unfolding z by (simp add: list_all_iff case_prod_unfold)
  have init: "sliced_bundle sch es = Inr ?b"
  proof (cases "es = []")
    case True
    then show ?thesis by (simp add: sliced_bundle_def ref_bundle_init_def)
  next
    case False
    then show ?thesis using ref_bundle_init_ok [OF _ ok, of sch False] by (simp add: sliced_bundle_def)
  qed
  have v: "valid_bundle ?b" using ok by (simp add: valid_bundle_def)
  have "rows_loop (map (\<lambda>(e, s). (e, Some s)) es) acc \<noteq> None" for acc
    by (induction es arbitrary: acc) auto
  then obtain n where n: "num_rows ?b = Some n" using z by (auto simp: num_rows_def)
  have "bundle_rows ?b = concat (map (\<lambda>(e, s). unit_rows (e, Some s)) es)"
    unfolding bundle_rows_def using z by (simp add: comp_def case_prod_unfold)
  with init v n num_rows_length [OF v n] show ?thesis by auto
qed

lemma bundle_slice_ok:
  assumes "valid_bundle b" and "num_rows b = Some n" and "0 < k" and "k < n"
  shows "\<exists>s r. bundle_slice b k = Inr (s, r) \<and> valid_bundle s \<and> valid_bundle r \<and>
    bundle_rows s = take (nat k) (bundle_rows b) \<and> bundle_rows r = drop (nat k) (bundle_rows b) \<and>
    num_rows s = Some k \<and> num_rows r = Some (n - k)"
proof -
  have len: "n = int (length (bundle_rows b))" by (rule num_rows_length [OF assms(1,2)])
  obtain es where es: "rmap explicit_slice (zip (blocks b) (slices b)) = Inr es"
      "list_all (\<lambda>(e, s). entry_ok (e, Some s)) es"
      "concat (map (\<lambda>(e, s). unit_rows (e, Some s)) es) = bundle_rows b"
    using explicit_slices [of "zip (blocks b) (slices b)" 0 n] assms(1,2)
    by (auto simp: valid_bundle_def num_rows_def bundle_rows_def)
  obtain c r where cr: "slice_loop k es = (c, r)" by fastforce
  note loop = slice_loop_rows [OF es(2) _ cr, unfolded es(3)]
  obtain bc where bc: "sliced_bundle (bundle_schema b) c = Inr bc" "valid_bundle bc"
      "bundle_rows bc = take (nat k) (bundle_rows b)" "num_rows bc = Some (int (length (bundle_rows bc)))"
    using sliced_bundle_ok [of c "bundle_schema b"] loop assms(3) by auto
  obtain br where br: "sliced_bundle (bundle_schema b) r = Inr br" "valid_bundle br"
      "bundle_rows br = drop (nat k) (bundle_rows b)" "num_rows br = Some (int (length (bundle_rows br)))"
    using sliced_bundle_ok [of r "bundle_schema b"] loop assms(3) by auto
  have "bundle_slice b k = Inr (bc, br)"
    using assms(2-4) es(1) cr bc(1) br(1) by (simp add: bundle_slice_def)
  with bc br len assms(3,4) show ?thesis by auto
qed

text \<open>Merging concatenates the rows.\<close>

lemma zip_concat:
  "list_all (\<lambda>b. length (slices b) = length (blocks b)) bs \<Longrightarrow>
   zip (concat (map blocks bs)) (concat (map slices bs)) = concat (map (\<lambda>b. zip (blocks b) (slices b)) bs) \<and>
   length (concat (map slices bs)) = length (concat (map blocks bs))"
  by (induction bs) (auto simp: zip_append)

lemma rows_loop_append:
  "rows_loop (xs @ ys) acc = (case rows_loop xs acc of None \<Rightarrow> None | Some n \<Rightarrow> rows_loop ys n)"
  by (induction xs acc rule: rows_loop.induct) (auto split: option.splits)

lemma rows_loop_acc: "rows_loop xs acc = map_option (\<lambda>n. acc + n) (rows_loop xs 0)"
proof (induction xs arbitrary: acc)
  case (Cons x xs)
  obtain e sl where x: "x = (e, sl)" by (cases x)
  have shift: "rows_loop xs (acc + k) = map_option (\<lambda>n. acc + n) (rows_loop xs k)" for k
    using Cons.IH [of "acc + k"] Cons.IH [of k] by (cases "rows_loop xs 0") (auto simp: add.assoc)
  show ?case by (auto simp: x shift split: option.splits)
qed simp

lemma merge_ok:
  assumes "bs \<noteq> []" and "list_all valid_bundle bs"
  shows "\<exists>m. merge_ref_bundles bs = Inr m \<and> valid_bundle m \<and>
    bundle_rows m = concat (map bundle_rows bs) \<and> blocks m = concat (map blocks bs) \<and>
    owns_blocks m = list_all owns_blocks bs \<and>
    zip (blocks m) (slices m) = concat (map (\<lambda>b. zip (blocks b) (slices b)) bs)"
proof -
  let ?bs = "concat (map blocks bs)" and ?ss = "concat (map slices bs)"
  have z: "zip ?bs ?ss = concat (map (\<lambda>b. zip (blocks b) (slices b)) bs)" "length ?ss = length ?bs"
    using zip_concat [of bs] assms(2) by (simp_all add: list_all_iff valid_bundle_def)
  have ok: "list_all entry_ok (zip ?bs ?ss)"
    using assms(2) by (auto simp: z list_all_iff valid_bundle_def)
  have rows: "concat (map unit_rows (zip ?bs ?ss)) = concat (map bundle_rows bs)"
    unfolding z bundle_rows_def by (induction bs) simp_all
  show ?thesis
    using ref_bundle_init_ok [OF z(2) ok] assms(1) ok z rows
    by (simp add: merge_ref_bundles_def valid_bundle_def bundle_rows_def)
qed

lemma merge_num_rows:
  assumes "merge_ref_bundles bs = Inr m" and "list_all valid_bundle bs" and "bs \<noteq> []"
    and "list_all (\<lambda>b. num_rows b \<noteq> None) bs"
  shows "num_rows m = Some (sum_list (map rows_or_0 bs))"
proof -
  have "rows_loop (concat (map (\<lambda>b. zip (blocks b) (slices b)) bs)) acc = Some (acc + sum_list (map rows_or_0 bs))" for acc
    using assms(4)
  proof (induction bs arbitrary: acc)
    case (Cons b bs)
    then obtain n where "num_rows b = Some n" by auto
    then have "rows_loop (zip (blocks b) (slices b)) acc = Some (acc + n)" "rows_or_0 b = n"
      using rows_loop_acc [of _ acc] by (simp_all add: num_rows_def rows_or_0_def)
    with Cons show ?case by (simp add: rows_loop_append)
  qed simp
  with merge_ok [OF assms(3,2)] assms(1) show ?thesis by (auto simp: num_rows_def)
qed

lemma merge_size_bytes:
  assumes "merge_ref_bundles bs = Inr m" and "list_all valid_bundle bs" and "bs \<noteq> []"
  shows "size_bytes m = sum_list (map size_bytes bs)"
proof -
  have "sum_list (map entry_size (concat (map (\<lambda>b. zip (blocks b) (slices b)) bs))) = sum_list (map size_bytes bs)"
    by (induction bs) (simp_all add: size_bytes_def)
  with merge_ok [OF assms(3,2)] assms(1) show ?thesis by (auto simp: size_bytes_def)
qed

subsection \<open>Properties\<close>

text \<open>Slicing a valid bundle of known size at a number of rows inside it succeeds; the first part
  stands for exactly that many leading rows, the second for the rest, and merging the two
  parts gives the rows of the bundle back in order.\<close>

lemma bundle_slice_splits_rows:
  assumes "valid_bundle b" and "num_rows b = Some n" and "0 < k" and "k < n"
  shows "\<exists>s r m. bundle_slice b k = Inr (s, r) \<and> num_rows s = Some k \<and> num_rows r = Some (n - k) \<and>
    bundle_rows s = take (nat k) (bundle_rows b) \<and> bundle_rows r = drop (nat k) (bundle_rows b) \<and>
    merge_ref_bundles [s, r] = Inr m \<and> valid_bundle m \<and> bundle_rows m = bundle_rows b \<and> num_rows m = Some n"
proof -
  obtain s r where sr: "bundle_slice b k = Inr (s, r)" "valid_bundle s" "valid_bundle r"
      "bundle_rows s = take (nat k) (bundle_rows b)" "bundle_rows r = drop (nat k) (bundle_rows b)"
      "num_rows s = Some k" "num_rows r = Some (n - k)"
    using bundle_slice_ok [OF assms] by blast
  obtain m where m: "merge_ref_bundles [s, r] = Inr m" "valid_bundle m" "bundle_rows m = bundle_rows b"
    using merge_ok [of "[s, r]"] sr by auto
  have "num_rows m = Some n" using merge_num_rows [OF m(1)] sr by (simp add: rows_or_0_def)
  with sr m show ?thesis by blast
qed

definition sample_bundle :: "nat \<Rightarrow> int \<Rightarrow> ref_bundle" where
  "sample_bundle r n = \<lparr>blocks = [\<lparr>entry_ref = r, entry_metadata = \<lparr>md_num_rows = Some n, md_size_bytes = Some (10 * n)\<rparr>\<rparr>],
     bundle_schema = None, owns_blocks = True, slices = [None], output_split_idx = None\<rparr>"

lemma sample_bundle_valid: "0 \<le> n \<Longrightarrow> valid_bundle (sample_bundle r n)"
  by (simp add: sample_bundle_def valid_bundle_def)

lemma sample_bundle_rows [simp]: "num_rows (sample_bundle r n) = Some n"
  by (simp add: sample_bundle_def num_rows_def)

end
