(* ===== verification/Bundle_Queues.thy ===== *)
theory Bundle_Queues
  imports Ref_Bundle
begin

section \<open>Ray Data: bundle queues\<close>

text \<open>
  Models \<open>ray/python/ray/data/_internal/execution/bundle_queue/base.py\<close> and \<open>fifo.py\<close>: the
  metrics every queue keeps and the first-in first-out queue. The locale \<open>bundle_queue\<close> is
  the contract of a first-in first-out bundle queue: its contents as a list, what every
  operation does to them, and that the metrics are those of the contents.
\<close>

subsection \<open>Metrics\<close>

record queue_metrics =
  q_nbytes :: int
  q_num_blocks :: int
  q_num_bundles :: int
  q_num_rows :: int

definition on_enqueue_bundle :: "ref_bundle \<Rightarrow> 'a queue_metrics_scheme \<Rightarrow> 'a queue_metrics_scheme" where
  "on_enqueue_bundle b q =
     q\<lparr>q_nbytes := q_nbytes q + size_bytes b,
       q_num_blocks := q_num_blocks q + int (length (block_refs b)),
       q_num_bundles := q_num_bundles q + 1,
       q_num_rows := q_num_rows q + rows_or_0 b\<rparr>"

definition on_dequeue_bundle :: "ref_bundle \<Rightarrow> 'a queue_metrics_scheme \<Rightarrow> 'a queue_metrics_scheme" where
  "on_dequeue_bundle b q =
     q\<lparr>q_nbytes := q_nbytes q - size_bytes b,
       q_num_blocks := q_num_blocks q - int (length (block_refs b)),
       q_num_bundles := q_num_bundles q - 1,
       q_num_rows := q_num_rows q - rows_or_0 b\<rparr>"

definition reset_metrics :: "'a queue_metrics_scheme \<Rightarrow> 'a queue_metrics_scheme" where
  "reset_metrics q = q\<lparr>q_num_rows := 0, q_num_blocks := 0, q_num_bundles := 0, q_nbytes := 0\<rparr>"

text \<open>The metrics of a list of bundles.\<close>

definition metrics_of :: "ref_bundle list \<Rightarrow> queue_metrics" where
  "metrics_of bs =
     \<lparr>q_nbytes = sum_list (map size_bytes bs), q_num_blocks = sum_list (map (\<lambda>b. int (length (block_refs b))) bs),
      q_num_bundles = int (length bs), q_num_rows = sum_list (map rows_or_0 bs)\<rparr>"

abbreviation metrics :: "'a queue_metrics_scheme \<Rightarrow> queue_metrics" where
  "metrics q \<equiv> queue_metrics.truncate q"

lemma metrics_on_enqueue:
  "metrics q = metrics_of bs \<Longrightarrow> metrics (on_enqueue_bundle b q) = metrics_of (bs @ [b])"
  by (simp add: on_enqueue_bundle_def metrics_of_def queue_metrics.defs)

lemma metrics_on_dequeue:
  "metrics q = metrics_of (xs @ b # ys) \<Longrightarrow> metrics (on_dequeue_bundle b q) = metrics_of (xs @ ys)"
  by (simp add: on_dequeue_bundle_def metrics_of_def queue_metrics.defs)

lemma metrics_reset: "metrics (reset_metrics q) = metrics_of []"
  by (simp add: reset_metrics_def metrics_of_def queue_metrics.defs)

lemma metrics_num_bundles: "metrics q = metrics_of bs \<Longrightarrow> q_num_bundles q = int (length bs)"
  by (simp add: metrics_of_def queue_metrics.defs)

lemma metrics_of_perm: "mset xs = mset ys \<Longrightarrow> metrics_of xs = metrics_of ys"
proof -
  assume m: "mset xs = mset ys"
  have "sum_list (map f xs) = sum_list (map f ys)" for f :: "ref_bundle \<Rightarrow> int"
    using m by (metis mset_map sum_mset_sum_list)
  moreover have "length xs = length ys" using m by (rule mset_eq_length)
  ultimately show ?thesis by (simp add: metrics_of_def)
qed

subsection \<open>The contract\<close>

text \<open>What a client does with a queue, and what it sees.\<close>

datatype queue_op = OpAdd ref_bundle | OpGet | OpPeek | OpHasNext | OpClear

datatype queue_out = OutUnit | OutBundle ref_bundle | OutRaise | OutPeek "ref_bundle option" | OutBool bool

text \<open>The specification: a list, with the head popped first.\<close>

fun spec_step :: "queue_op \<Rightarrow> ref_bundle list \<Rightarrow> ref_bundle list \<times> queue_out" where
  "spec_step (OpAdd b) bs = (bs @ [b], OutUnit)"
| "spec_step OpGet bs = (case bs of [] \<Rightarrow> ([], OutRaise) | b # bs' \<Rightarrow> (bs', OutBundle b))"
| "spec_step OpPeek bs = (bs, OutPeek (case bs of [] \<Rightarrow> None | b # _ \<Rightarrow> Some b))"
| "spec_step OpHasNext bs = (bs, OutBool (bs \<noteq> []))"
| "spec_step OpClear bs = ([], OutUnit)"

fun spec_run :: "queue_op list \<Rightarrow> ref_bundle list \<Rightarrow> ref_bundle list \<times> queue_out list" where
  "spec_run [] bs = (bs, [])"
| "spec_run (x # xs) bs =
     (let (bs1, y) = spec_step x bs; (bs2, ys) = spec_run xs bs1 in (bs2, y # ys))"

text \<open>The same operations on an implementation; a raised exception leaves the queue as it was.\<close>

fun queue_step ::
    "(ref_bundle \<Rightarrow> 'q \<Rightarrow> 'q) \<Rightarrow> ('q \<Rightarrow> (ref_bundle \<times> 'q) result) \<Rightarrow> ('q \<Rightarrow> ref_bundle option) \<Rightarrow> ('q \<Rightarrow> bool) \<Rightarrow> ('q \<Rightarrow> 'q)
     \<Rightarrow> queue_op \<Rightarrow> 'q \<Rightarrow> 'q \<times> queue_out" where
  "queue_step add get peek has clr (OpAdd b) q = (add b q, OutUnit)"
| "queue_step add get peek has clr OpGet q =
     (case get q of Inl e \<Rightarrow> (q, OutRaise) | Inr (b, q') \<Rightarrow> (q', OutBundle b))"
| "queue_step add get peek has clr OpPeek q = (q, OutPeek (peek q))"
| "queue_step add get peek has clr OpHasNext q = (q, OutBool (has q))"
| "queue_step add get peek has clr OpClear q = (clr q, OutUnit)"

fun queue_run ::
    "('x \<Rightarrow> 'q \<Rightarrow> 'q \<times> 'y) \<Rightarrow> 'x list \<Rightarrow> 'q \<Rightarrow> 'q \<times> 'y list" where
  "queue_run stp [] q = (q, [])"
| "queue_run stp (x # xs) q =
     (let (q1, y) = stp x q; (q2, ys) = queue_run stp xs q1 in (q2, y # ys))"

locale bundle_queue =
  fixes inv :: "'q \<Rightarrow> bool"
    and contents :: "'q \<Rightarrow> ref_bundle list"
    and stats :: "'q \<Rightarrow> queue_metrics"
    and add :: "ref_bundle \<Rightarrow> 'q \<Rightarrow> 'q"
    and get_next :: "'q \<Rightarrow> (ref_bundle \<times> 'q) result"
    and peek_next :: "'q \<Rightarrow> ref_bundle option"
    and has_next :: "'q \<Rightarrow> bool"
    and clear :: "'q \<Rightarrow> 'q"
  assumes add_inv: "inv q \<Longrightarrow> inv (add b q)"
    and add_contents: "inv q \<Longrightarrow> contents (add b q) = contents q @ [b]"
    and get_empty: "inv q \<Longrightarrow> contents q = [] \<Longrightarrow> \<exists>e. get_next q = Inl e"
    and get_head: "inv q \<Longrightarrow> contents q = b # bs \<Longrightarrow>
      \<exists>q'. get_next q = Inr (b, q') \<and> inv q' \<and> contents q' = bs"
    and peek_head: "inv q \<Longrightarrow> peek_next q = (case contents q of [] \<Rightarrow> None | b # _ \<Rightarrow> Some b)"
    and has_next_iff: "inv q \<Longrightarrow> has_next q \<longleftrightarrow> contents q \<noteq> []"
    and clear_inv: "inv q \<Longrightarrow> inv (clear q)"
    and clear_contents: "inv q \<Longrightarrow> contents (clear q) = []"
    and stats_contents: "inv q \<Longrightarrow> stats q = metrics_of (contents q)"
begin

abbreviation step :: "queue_op \<Rightarrow> 'q \<Rightarrow> 'q \<times> queue_out" where
  "step \<equiv> queue_step add get_next peek_next has_next clear"

lemma step_simulates:
  assumes "inv q" and "step x q = (q1, y)"
  shows "inv q1 \<and> spec_step x (contents q) = (contents q1, y)"
proof (cases x)
  case OpGet
  show ?thesis
  proof (cases "contents q")
    case Nil
    from get_empty [OF assms(1) Nil] show ?thesis using assms OpGet Nil by auto
  next
    case (Cons b bs)
    from get_head [OF assms(1) Cons] show ?thesis using assms(2) OpGet Cons by auto
  qed
qed (use assms in \<open>auto simp: add_inv add_contents peek_head has_next_iff clear_inv clear_contents\<close>)

lemma run_simulates:
  "inv q \<Longrightarrow> queue_run step xs q = (q', ys) \<Longrightarrow>
   inv q' \<and> spec_run xs (contents q) = (contents q', ys) \<and> stats q' = metrics_of (contents q')"
proof (induction xs arbitrary: q ys)
  case Nil
  then show ?case by (simp add: stats_contents)
next
  case (Cons x xs)
  obtain q1 y where s: "step x q = (q1, y)" by fastforce
  obtain q2 zs where r: "queue_run step xs q1 = (q2, zs)" by fastforce
  have q': "q' = q2" "ys = y # zs" using Cons.prems(2) s r by simp_all
  note step_simulates [OF Cons.prems(1) s]
  with Cons.IH [of q1 zs] r q' show ?case by simp
qed

end

subsection \<open>Queues with removal\<close>

text \<open>The further operations of a \<open>QueueWithRemoval\<close> that can also be iterated over.\<close>

datatype removal_op = QueueOp queue_op | OpRemove ref_bundle | OpContains ref_bundle | OpIter

datatype removal_out = QueueOut queue_out | OutRemoved ref_bundle | OutRefused py_error | OutContains bool | OutIter "ref_bundle list"

fun removal_spec_step :: "removal_op \<Rightarrow> ref_bundle list \<Rightarrow> ref_bundle list \<times> removal_out" where
  "removal_spec_step (QueueOp x) bs = map_prod id QueueOut (spec_step x bs)"
| "removal_spec_step (OpRemove b) bs =
     (if b \<in> set bs then (remove1 b bs, OutRemoved b) else (bs, OutRefused (ValueError ''The bundle is not in the queue.'')))"
| "removal_spec_step (OpContains b) bs = (bs, OutContains (b \<in> set bs))"
| "removal_spec_step OpIter bs = (bs, OutIter bs)"

fun removal_step ::
    "(queue_op \<Rightarrow> 'q \<Rightarrow> 'q \<times> queue_out) \<Rightarrow> (ref_bundle \<Rightarrow> 'q \<Rightarrow> (ref_bundle \<times> 'q) result) \<Rightarrow> (ref_bundle \<Rightarrow> 'q \<Rightarrow> bool) \<Rightarrow>
     ('q \<Rightarrow> ref_bundle list) \<Rightarrow> removal_op \<Rightarrow> 'q \<Rightarrow> 'q \<times> removal_out" where
  "removal_step stp rem con itr (QueueOp x) q = map_prod id QueueOut (stp x q)"
| "removal_step stp rem con itr (OpRemove b) q =
     (case rem b q of Inl e \<Rightarrow> (q, OutRefused e) | Inr (b', q') \<Rightarrow> (q', OutRemoved b'))"
| "removal_step stp rem con itr (OpContains b) q = (q, OutContains (con b q))"
| "removal_step stp rem con itr OpIter q = (q, OutIter (itr q))"

locale queue_with_removal = bundle_queue inv contents stats add get_next peek_next has_next clear
  for inv :: "'q \<Rightarrow> bool"
    and contents :: "'q \<Rightarrow> ref_bundle list"
    and stats :: "'q \<Rightarrow> queue_metrics"
    and add :: "ref_bundle \<Rightarrow> 'q \<Rightarrow> 'q"
    and get_next :: "'q \<Rightarrow> (ref_bundle \<times> 'q) result"
    and peek_next :: "'q \<Rightarrow> ref_bundle option"
    and has_next :: "'q \<Rightarrow> bool"
    and clear :: "'q \<Rightarrow> 'q" +
  fixes remove :: "ref_bundle \<Rightarrow> 'q \<Rightarrow> (ref_bundle \<times> 'q) result"
    and contains :: "ref_bundle \<Rightarrow> 'q \<Rightarrow> bool"
  assumes remove_first: "inv q \<Longrightarrow> b \<in> set (contents q) \<Longrightarrow>
      \<exists>q'. remove b q = Inr (b, q') \<and> inv q' \<and> contents q' = remove1 b (contents q)"
    and remove_absent: "inv q \<Longrightarrow> b \<notin> set (contents q) \<Longrightarrow> remove b q = Inl (ValueError ''The bundle is not in the queue.'')"
    and contains_iff: "inv q \<Longrightarrow> contains b q \<longleftrightarrow> b \<in> set (contents q)"
begin

lemma removal_step_simulates:
  assumes "inv q" and "removal_step step remove contains contents x q = (q1, y)"
  shows "inv q1 \<and> removal_spec_step x (contents q) = (contents q1, y)"
proof (cases x)
  case (QueueOp o')
  obtain q2 z where "step o' q = (q2, z)" by fastforce
  then show ?thesis using step_simulates [OF assms(1)] assms(2) QueueOp by auto
next
  case (OpRemove b)
  then show ?thesis
    using assms remove_first [OF assms(1), of b] remove_absent [OF assms(1), of b] by (cases "b \<in> set (contents q)") auto
qed (use assms contains_iff in auto)

lemma removal_run_simulates:
  "inv q \<Longrightarrow> queue_run (removal_step step remove contains contents) xs q = (q', ys) \<Longrightarrow>
   inv q' \<and> queue_run removal_spec_step xs (contents q) = (contents q', ys) \<and> stats q' = metrics_of (contents q')"
proof (induction xs arbitrary: q ys)
  case Nil
  then show ?case by (simp add: stats_contents)
next
  case (Cons x xs)
  obtain q1 y where s: "removal_step step remove contains contents x q = (q1, y)" by fastforce
  obtain q2 zs where r: "queue_run (removal_step step remove contains contents) xs q1 = (q2, zs)" by fastforce
  have q': "q' = q2" "ys = y # zs" using Cons.prems(2) s r by simp_all
  note removal_step_simulates [OF Cons.prems(1) s]
  with Cons.IH [of q1 zs] r q' show ?case by simp
qed

end

subsection \<open>FIFOBundleQueue\<close>

record fifo_queue = queue_metrics +
  fifo_inner :: "ref_bundle list"

definition fifo_empty :: fifo_queue where
  "fifo_empty = \<lparr>q_nbytes = 0, q_num_blocks = 0, q_num_bundles = 0, q_num_rows = 0, fifo_inner = []\<rparr>"

definition fifo_add :: "ref_bundle \<Rightarrow> fifo_queue \<Rightarrow> fifo_queue" where
  "fifo_add b q = (let q1 = on_enqueue_bundle b q in q1\<lparr>fifo_inner := fifo_inner q1 @ [b]\<rparr>)"

definition fifo_init :: "ref_bundle list option \<Rightarrow> fifo_queue" where
  "fifo_init bundles = (case bundles of None \<Rightarrow> fifo_empty | Some bs \<Rightarrow> fold fifo_add bs fifo_empty)"

definition fifo_has_next :: "fifo_queue \<Rightarrow> bool" where
  "fifo_has_next q \<longleftrightarrow> q_num_bundles q > 0"

text \<open>\<open>get_next\<close>: \<open>_get_next_inner\<close>, then the metrics; \<open>deque.popleft\<close> raises on an empty deque.\<close>

definition fifo_get_next :: "fifo_queue \<Rightarrow> (ref_bundle \<times> fifo_queue) result" where
  "fifo_get_next q =
     (if \<not> fifo_has_next q then Inl (ValueError ''Popping from empty queue is prohibited'')
      else case fifo_inner q of
             [] \<Rightarrow> Inl IndexError
           | b # bs \<Rightarrow> Inr (b, on_dequeue_bundle b (q\<lparr>fifo_inner := bs\<rparr>)))"

definition fifo_peek_next :: "fifo_queue \<Rightarrow> ref_bundle option" where
  "fifo_peek_next q = (if \<not> fifo_has_next q then None else Some (hd (fifo_inner q)))"

definition fifo_clear :: "fifo_queue \<Rightarrow> fifo_queue" where
  "fifo_clear q = (reset_metrics q)\<lparr>fifo_inner := []\<rparr>"

definition fifo_inv :: "fifo_queue \<Rightarrow> bool" where
  "fifo_inv q \<longleftrightarrow> metrics q = metrics_of (fifo_inner q)"

lemma metrics_fifo_inner [simp]: "metrics (q\<lparr>fifo_inner := bs\<rparr>) = metrics q"
  by (simp add: queue_metrics.defs)

lemma fifo_inner_metrics [simp]:
  "fifo_inner (on_enqueue_bundle b q) = fifo_inner q"
  "fifo_inner (on_dequeue_bundle b q) = fifo_inner q"
  by (simp_all add: on_enqueue_bundle_def on_dequeue_bundle_def)

interpretation fifo: bundle_queue fifo_inv fifo_inner metrics fifo_add fifo_get_next fifo_peek_next
    fifo_has_next fifo_clear
proof
  fix q b bs
  assume inv: "fifo_inv q"
  then have len: "q_num_bundles q = int (length (fifo_inner q))"
    unfolding fifo_inv_def by (rule metrics_num_bundles)
  show "fifo_inv (fifo_add b q)"
    using metrics_on_enqueue [OF inv [unfolded fifo_inv_def], of b]
    by (simp add: fifo_inv_def fifo_add_def Let_def)
  show "fifo_inner (fifo_add b q) = fifo_inner q @ [b]" by (simp add: fifo_add_def Let_def)
  show "fifo_inner q = [] \<Longrightarrow> \<exists>e. fifo_get_next q = Inl e"
    by (simp add: fifo_get_next_def fifo_has_next_def len)
  show "\<exists>q'. fifo_get_next q = Inr (b, q') \<and> fifo_inv q' \<and> fifo_inner q' = bs" if "fifo_inner q = b # bs"
    using that inv metrics_on_dequeue [of "q\<lparr>fifo_inner := bs\<rparr>" "[]" b bs]
    by (simp add: fifo_get_next_def fifo_has_next_def len fifo_inv_def)
  show "fifo_peek_next q = (case fifo_inner q of [] \<Rightarrow> None | b # _ \<Rightarrow> Some b)"
    by (cases "fifo_inner q") (simp_all add: fifo_peek_next_def fifo_has_next_def len)
  show "fifo_has_next q \<longleftrightarrow> fifo_inner q \<noteq> []" by (simp add: fifo_has_next_def len)
  show "fifo_inv (fifo_clear q)"
    using metrics_reset [of q] by (simp add: fifo_inv_def fifo_clear_def)
  show "fifo_inner (fifo_clear q) = []" by (simp add: fifo_clear_def)
  show "metrics q = metrics_of (fifo_inner q)" using inv by (simp add: fifo_inv_def)
qed

lemma fifo_init_inv: "fifo_inv (fifo_init bs)" and fifo_init_inner: "fifo_inner (fifo_init bs) = (case bs of None \<Rightarrow> [] | Some xs \<Rightarrow> xs)"
proof -
  have e: "fifo_inv fifo_empty" by (simp add: fifo_inv_def fifo_empty_def metrics_of_def queue_metrics.defs)
  have "fifo_inv (fold fifo_add xs q) \<and> fifo_inner (fold fifo_add xs q) = fifo_inner q @ xs" if "fifo_inv q" for xs q
    using that by (induction xs arbitrary: q) (simp_all add: fifo.add_inv fifo.add_contents)
  from this [OF e] e show "fifo_inv (fifo_init bs)" "fifo_inner (fifo_init bs) = (case bs of None \<Rightarrow> [] | Some xs \<Rightarrow> xs)"
    by (auto simp: fifo_init_def fifo_empty_def split: option.splits)
qed

text \<open>For every sequence of operations a first-in first-out bundle queue answers exactly as a list
  whose head is popped first, and its four metrics are those of the bundles still inside.\<close>

lemma fifo_queue_refines_list:
  assumes "queue_run (queue_step fifo_add fifo_get_next fifo_peek_next fifo_has_next fifo_clear) ops (fifo_init bs) = (q, outs)"
  shows "spec_run ops (case bs of None \<Rightarrow> [] | Some xs \<Rightarrow> xs) = (fifo_inner q, outs) \<and>
    metrics q = metrics_of (fifo_inner q)"
  using fifo.run_simulates [OF fifo_init_inv assms] by (simp add: fifo_init_inner)

end
