(* ===== verification/Hash_Linked.thy ===== *)
theory Hash_Linked
  imports Bundle_Queues
begin

section \<open>Ray Data: the hash-linked bundle queue\<close>

text \<open>
  Models \<open>ray/python/ray/data/_internal/execution/bundle_queue/hash_link.py\<close>: a doubly linked
  list of nodes with a dict from bundles to their nodes. Nodes live in an explicit heap,
  addressed by numbers in order of allocation, because the operations write through the
  links. The queue refines the list contract of \<open>bundle_queue\<close>, and \<open>remove\<close> deletes the
  first occurrence of a bundle.
\<close>

record hl_node =
  nd_value :: ref_bundle
  nd_next :: "nat option"
  nd_prev :: "nat option"

record hash_linked = queue_metrics +
  hl_heap :: "nat \<Rightarrow> hl_node option"
  hl_fresh :: nat
  hl_head :: "nat option"
  hl_tail :: "nat option"
  bundle_to_nodes :: "(ref_bundle, nat list) dict"

definition hl_init :: hash_linked where
  "hl_init = \<lparr>q_nbytes = 0, q_num_blocks = 0, q_num_bundles = 0, q_num_rows = 0,
     hl_heap = (\<lambda>_. None), hl_fresh = 0, hl_head = None, hl_tail = None, bundle_to_nodes = []\<rparr>"

definition hl_contains :: "ref_bundle \<Rightarrow> hash_linked \<Rightarrow> bool" where
  "hl_contains b q \<longleftrightarrow> map_of (bundle_to_nodes q) b \<noteq> None"

text \<open>Writing through a link.\<close>

definition set_next :: "nat \<Rightarrow> nat option \<Rightarrow> (nat \<Rightarrow> hl_node option) \<Rightarrow> nat \<Rightarrow> hl_node option" where
  "set_next i n h = (case h i of None \<Rightarrow> h | Some nd \<Rightarrow> h(i \<mapsto> nd\<lparr>nd_next := n\<rparr>))"

definition set_prev :: "nat \<Rightarrow> nat option \<Rightarrow> (nat \<Rightarrow> hl_node option) \<Rightarrow> nat \<Rightarrow> hl_node option" where
  "set_prev i n h = (case h i of None \<Rightarrow> h | Some nd \<Rightarrow> h(i \<mapsto> nd\<lparr>nd_prev := n\<rparr>))"

definition hl_add_inner :: "ref_bundle \<Rightarrow> hash_linked \<Rightarrow> hash_linked" where
  "hl_add_inner b q =
     (let i = hl_fresh q;
          h = (hl_heap q)(i \<mapsto> \<lparr>nd_value = b, nd_next = None, nd_prev = hl_tail q\<rparr>);
          q1 = (case hl_head q of
                  None \<Rightarrow> q\<lparr>hl_heap := h, hl_head := Some i, hl_tail := Some i\<rparr>
                | Some _ \<Rightarrow> q\<lparr>hl_heap := (case hl_tail q of None \<Rightarrow> h | Some t \<Rightarrow> set_next t (Some i) h),
                              hl_tail := Some i\<rparr>)
      in q1\<lparr>hl_fresh := i + 1,
            bundle_to_nodes := AList.update b (dict_get (bundle_to_nodes q) b [] @ [i]) (bundle_to_nodes q)\<rparr>)"

definition hl_add :: "ref_bundle \<Rightarrow> hash_linked \<Rightarrow> hash_linked" where
  "hl_add b q = hl_add_inner b (on_enqueue_bundle b q)"

text \<open>\<open>_remove_node\<close>, with its cases in order.\<close>

definition hl_remove_node :: "nat \<Rightarrow> hash_linked \<Rightarrow> hash_linked" where
  "hl_remove_node i q =
     (let h = hl_heap q; nd = the (h i)
      in if hl_head q = hl_tail q then q\<lparr>hl_head := None, hl_tail := None\<rparr>
         else if hl_head q = Some i then
           q\<lparr>hl_head := nd_next nd, hl_heap := (case nd_next nd of None \<Rightarrow> h | Some n \<Rightarrow> set_prev n None h)\<rparr>
         else if hl_tail q = Some i then
           q\<lparr>hl_tail := nd_prev nd, hl_heap := (case nd_prev nd of None \<Rightarrow> h | Some p \<Rightarrow> set_next p None h)\<rparr>
         else
           q\<lparr>hl_heap :=
              (let h1 = (case nd_prev nd of None \<Rightarrow> h | Some p \<Rightarrow> set_next p (nd_next nd) h)
               in case nd_next nd of None \<Rightarrow> h1 | Some n \<Rightarrow> set_prev n (nd_prev nd) h1)\<rparr>)"

definition hl_remove_inner :: "ref_bundle \<Rightarrow> hash_linked \<Rightarrow> (ref_bundle \<times> hash_linked) result" where
  "hl_remove_inner b q =
     (case map_of (bundle_to_nodes q) b of
        None \<Rightarrow> Inl (ValueError ''The bundle is not in the queue.'')
      | Some [] \<Rightarrow> Inl IndexError
      | Some (i # is) \<Rightarrow>
          (let d = (if is = [] then AList.delete b (bundle_to_nodes q) else AList.update b is (bundle_to_nodes q));
               q1 = hl_remove_node i (q\<lparr>bundle_to_nodes := d\<rparr>)
           in Inr (nd_value (the (hl_heap q1 i)), q1)))"

definition hl_remove :: "ref_bundle \<Rightarrow> hash_linked \<Rightarrow> (ref_bundle \<times> hash_linked) result" where
  "hl_remove b q = rbind (hl_remove_inner b q) (\<lambda>(b', q'). Inr (b', on_dequeue_bundle b' q'))"

definition hl_get_next :: "hash_linked \<Rightarrow> (ref_bundle \<times> hash_linked) result" where
  "hl_get_next q =
     (case hl_head q of
        None \<Rightarrow> Inl IndexError
      | Some i \<Rightarrow>
          (let b = nd_value (the (hl_heap q i))
           in rbind (hl_remove_inner b q) (\<lambda>(_, q'). Inr (b, on_dequeue_bundle b q'))))"

definition hl_has_next :: "hash_linked \<Rightarrow> bool" where
  "hl_has_next q \<longleftrightarrow> q_num_bundles q > 0"

definition hl_peek_next :: "hash_linked \<Rightarrow> ref_bundle option" where
  "hl_peek_next q = (case hl_head q of None \<Rightarrow> None | Some i \<Rightarrow> Some (nd_value (the (hl_heap q i))))"

text \<open>\<open>__iter__\<close> follows the next links; every node is visited at most once, so the number of
  allocated nodes is fuel enough.\<close>

fun hl_walk :: "nat \<Rightarrow> (nat \<Rightarrow> hl_node option) \<Rightarrow> nat option \<Rightarrow> nat list" where
  "hl_walk fuel h None = []"
| "hl_walk 0 h (Some i) = []"
| "hl_walk (Suc fuel) h (Some i) =
     (case h i of None \<Rightarrow> [] | Some nd \<Rightarrow> i # hl_walk fuel h (nd_next nd))"

definition hl_iter :: "hash_linked \<Rightarrow> ref_bundle list" where
  "hl_iter q = map (\<lambda>i. nd_value (the (hl_heap q i))) (hl_walk (hl_fresh q) (hl_heap q) (hl_head q))"

definition hl_clear :: "hash_linked \<Rightarrow> hash_linked" where
  "hl_clear q = (reset_metrics q)\<lparr>bundle_to_nodes := [], hl_head := None, hl_tail := None\<rparr>"

subsection \<open>Linked segments\<close>

definition first_or :: "nat option \<Rightarrow> nat list \<Rightarrow> nat option" where
  "first_or n is = (case is of [] \<Rightarrow> n | i # _ \<Rightarrow> Some i)"

definition last_or :: "nat option \<Rightarrow> nat list \<Rightarrow> nat option" where
  "last_or p is = (if is = [] then p else Some (last is))"

lemma first_last_simps [simp]:
  "first_or n [] = n" "first_or n (i # is) = Some i"
  "last_or p [] = p" "last_or p (is @ [i]) = Some i" "last_or p (i # is) = last_or (Some i) is"
  by (auto simp: first_or_def last_or_def)

lemma first_or_append [simp]: "first_or n (xs @ ys) = first_or (first_or n ys) xs"
  by (cases xs) simp_all

lemma last_or_append [simp]: "last_or p (xs @ ys) = last_or (last_or p xs) ys"
  by (auto simp: last_or_def)

text \<open>The nodes \<open>is\<close> are linked in order, entered from \<open>p\<close> and left to \<open>n\<close>.\<close>

fun lseg :: "(nat \<Rightarrow> hl_node option) \<Rightarrow> nat option \<Rightarrow> nat list \<Rightarrow> nat option \<Rightarrow> bool" where
  "lseg h p [] n = True"
| "lseg h p (i # is) n =
     ((\<exists>v. h i = Some \<lparr>nd_value = v, nd_next = first_or n is, nd_prev = p\<rparr>) \<and> lseg h (Some i) is n)"

lemma lseg_append: "lseg h p (xs @ ys) n \<longleftrightarrow> lseg h p xs (first_or n ys) \<and> lseg h (last_or p xs) ys n"
  by (induction xs arbitrary: p) auto

lemma lseg_frame: "i \<notin> set is \<Longrightarrow> lseg (h(i := x)) p is n = lseg h p is n"
  by (induction "is" arbitrary: p) auto

lemma set_next_frame: "i \<notin> set is \<Longrightarrow> lseg (set_next i x h) p is n = lseg h p is n"
  by (auto simp: set_next_def lseg_frame split: option.splits)

lemma set_prev_frame: "i \<notin> set is \<Longrightarrow> lseg (set_prev i x h) p is n = lseg h p is n"
  by (auto simp: set_prev_def lseg_frame split: option.splits)

lemma lseg_set_next:
  "lseg h p (is @ [i]) n \<Longrightarrow> i \<notin> set is \<Longrightarrow> lseg (set_next i n' h) p (is @ [i]) n'"
  by (auto simp: lseg_append set_next_frame) (auto simp: set_next_def)

lemma lseg_set_prev: "lseg h p (i # is) n \<Longrightarrow> i \<notin> set is \<Longrightarrow> lseg (set_prev i p' h) p' (i # is) n"
  by (auto simp: set_prev_frame) (auto simp: set_prev_def)

abbreviation node_val :: "(nat \<Rightarrow> hl_node option) \<Rightarrow> nat \<Rightarrow> ref_bundle" where
  "node_val h i \<equiv> nd_value (the (h i))"

lemma node_val_links [simp]: "node_val (set_next i n h) j = node_val h j" "node_val (set_prev i n h) j = node_val h j"
  by (auto simp: set_next_def set_prev_def split: option.splits)

lemma lseg_walk: "lseg h p is None \<Longrightarrow> length is \<le> fuel \<Longrightarrow> hl_walk fuel h (first_or None is) = is"
proof (induction "is" arbitrary: p fuel)
  case (Cons i "is")
  then obtain k where "fuel = Suc k" by (cases fuel) auto
  with Cons show ?case by auto
qed simp

subsection \<open>The invariant\<close>

definition dll :: "hash_linked \<Rightarrow> nat list \<Rightarrow> bool" where
  "dll q is \<longleftrightarrow> distinct is \<and> (\<forall>i\<in>set is. i < hl_fresh q) \<and> hl_head q = first_or None is \<and>
     hl_tail q = last_or None is \<and> lseg (hl_heap q) None is None"

text \<open>The dict lists, for every bundle in the queue, its nodes in queue order.\<close>

definition nodes_of :: "(nat \<Rightarrow> hl_node option) \<Rightarrow> nat list \<Rightarrow> ref_bundle \<Rightarrow> nat list" where
  "nodes_of h is b = filter (\<lambda>i. node_val h i = b) is"

definition index_ok :: "hash_linked \<Rightarrow> nat list \<Rightarrow> bool" where
  "index_ok q is \<longleftrightarrow> distinct (map fst (bundle_to_nodes q)) \<and>
     (\<forall>b. map_of (bundle_to_nodes q) b =
        (if nodes_of (hl_heap q) is b = [] then None else Some (nodes_of (hl_heap q) is b)))"

definition hl_inv :: "hash_linked \<Rightarrow> bool" where
  "hl_inv q \<longleftrightarrow> (\<exists>is. dll q is \<and> index_ok q is \<and> metrics q = metrics_of (map (node_val (hl_heap q)) is))"

lemma dll_walk: "dll q is \<Longrightarrow> hl_walk (hl_fresh q) (hl_heap q) (hl_head q) = is"
proof -
  assume d: "dll q is"
  then have "set is \<subseteq> {..<hl_fresh q}" by (auto simp: dll_def)
  then have "length is \<le> hl_fresh q"
    using d card_mono [of "{..<hl_fresh q}" "set is"] by (simp add: dll_def distinct_card)
  with d lseg_walk [of "hl_heap q" None "is" "hl_fresh q"] show ?thesis by (simp add: dll_def)
qed

lemma dll_iter: "dll q is \<Longrightarrow> hl_iter q = map (node_val (hl_heap q)) is"
  by (simp add: hl_iter_def dll_walk)

lemma dll_remove_node:
  assumes "dll q (xs @ i # ys)"
  shows "dll (hl_remove_node i q) (xs @ ys)"
proof -
  have seg: "lseg (hl_heap q) None xs (Some i)" "lseg (hl_heap q) (Some i) ys None"
    "\<exists>v. hl_heap q i = Some \<lparr>nd_value = v, nd_next = first_or None ys, nd_prev = last_or None xs\<rparr>"
    and d: "distinct (xs @ i # ys)" and fresh: "\<forall>j\<in>set (xs @ ys). j < hl_fresh q"
    and ht: "hl_head q = first_or (Some i) xs" "hl_tail q = last_or (Some i) ys"
    using assms by (auto simp: dll_def lseg_append)
  obtain v where node: "hl_heap q i = Some \<lparr>nd_value = v, nd_next = first_or None ys, nd_prev = last_or None xs\<rparr>"
    using seg(3) by blast
  consider "xs = []" "ys = []" | y ys' where "xs = []" "ys = y # ys'" | xs' x where "xs = xs' @ [x]" "ys = []"
    | xs' x y ys' where "xs = xs' @ [x]" "ys = y # ys'"
    by (metis list.exhaust rev_exhaust)
  then show ?thesis
  proof cases
    case 1
    then show ?thesis using ht by (simp add: dll_def hl_remove_node_def Let_def)
  next
    case (2 y ys')
    then have "hl_tail q \<noteq> Some i" using ht d by (auto simp: last_or_def)
    moreover have "lseg (set_prev y None (hl_heap q)) None (y # ys') None"
      using lseg_set_prev [of "hl_heap q" "Some i" y ys' None None] seg(2) d 2 by simp
    ultimately show ?thesis
      using ht 2 d fresh node by (auto simp: dll_def hl_remove_node_def Let_def)
  next
    case (3 xs' x)
    then have "hl_head q \<noteq> Some i" using ht d by (cases xs') auto
    moreover have "lseg (set_next x None (hl_heap q)) None (xs' @ [x]) None"
      using lseg_set_next [of "hl_heap q" None xs' x "Some i" None] seg(1) d 3 by simp
    ultimately show ?thesis
      using ht 3 d fresh node by (auto simp: dll_def hl_remove_node_def Let_def)
  next
    case (4 xs' x y ys')
    let ?h1 = "set_next x (Some y) (hl_heap q)" and ?h = "set_prev y (Some x) (set_next x (Some y) (hl_heap q))"
    have d4: "distinct (xs' @ x # i # y # ys')" using d 4 by simp
    have head: "hl_head q \<noteq> Some i" "hl_tail q \<noteq> Some i" "hl_head q \<noteq> hl_tail q"
      using ht d4 4 by (cases xs'; auto simp: last_or_def)+
    have "lseg ?h1 None (xs' @ [x]) (Some y)"
      using lseg_set_next [of "hl_heap q" None xs' x "Some i" "Some y"] seg(1) d4 4 by simp
    then have left: "lseg ?h None (xs' @ [x]) (Some y)" using d4 by (subst set_prev_frame) auto
    have "lseg ?h1 (Some i) (y # ys') None" using seg(2) d4 4 by (subst set_next_frame) auto
    then have right: "lseg ?h (Some x) (y # ys') None" using d4 by (intro lseg_set_prev) auto
    have "hl_remove_node i q = q\<lparr>hl_heap := ?h\<rparr>"
      using head node 4 by (simp add: hl_remove_node_def Let_def)
    moreover have "lseg ?h None (xs @ ys) None" using left right 4 lseg_append [of ?h None xs ys None] by simp
    ultimately show ?thesis using ht 4 d fresh by (auto simp: dll_def)
  qed
qed

lemma metrics_fields [simp]:
  "metrics (q\<lparr>bundle_to_nodes := d\<rparr>) = metrics q" "metrics (q\<lparr>hl_head := a\<rparr>) = metrics q"
  "metrics (q\<lparr>hl_tail := a\<rparr>) = metrics q" "metrics (q\<lparr>hl_heap := h\<rparr>) = metrics q"
  "metrics (q\<lparr>hl_fresh := n\<rparr>) = metrics q"
  by (simp_all add: queue_metrics.defs)

lemma remove_node_frame [simp]:
  "hl_fresh (hl_remove_node i q) = hl_fresh q"
  "bundle_to_nodes (hl_remove_node i q) = bundle_to_nodes q"
  "metrics (hl_remove_node i q) = metrics q"
  "node_val (hl_heap (hl_remove_node i q)) j = node_val (hl_heap q) j"
  by (auto simp: hl_remove_node_def Let_def split: option.splits)

text \<open>The first node with a value, and the rest of the list.\<close>

lemma nodes_of_split:
  "nodes_of h is b = i # js \<Longrightarrow>
   \<exists>xs ys. is = xs @ i # ys \<and> node_val h i = b \<and> (\<forall>x\<in>set xs. node_val h x \<noteq> b) \<and> js = nodes_of h ys b"
proof -
  assume "nodes_of h is b = i # js"
  then obtain us vs where "is = us @ i # vs" "\<forall>u\<in>set us. node_val h u \<noteq> b" "node_val h i = b" "js = filter (\<lambda>i. node_val h i = b) vs"
    unfolding nodes_of_def using filter_eq_ConsD by fastforce
  then show ?thesis by (auto simp: nodes_of_def)
qed

lemma remove_inner_first:
  assumes "dll q is" and "index_ok q is" and "b \<in> node_val (hl_heap q) ` set is"
  shows "\<exists>xs i ys q'. is = xs @ i # ys \<and> node_val (hl_heap q) i = b \<and>
    (\<forall>x\<in>set xs. node_val (hl_heap q) x \<noteq> b) \<and>
    hl_remove_inner b q = Inr (b, q') \<and> dll q' (xs @ ys) \<and> index_ok q' (xs @ ys) \<and>
    metrics q' = metrics q \<and> node_val (hl_heap q') = node_val (hl_heap q)"
proof -
  have "nodes_of (hl_heap q) is b \<noteq> []" using assms(3) by (auto simp: nodes_of_def filter_empty_conv)
  then obtain i js where n: "nodes_of (hl_heap q) is b = i # js" by (cases "nodes_of (hl_heap q) is b") auto
  then have idx: "map_of (bundle_to_nodes q) b = Some (i # js)" using assms(2) by (simp add: index_ok_def)
  obtain xs ys where s: "is = xs @ i # ys" "node_val (hl_heap q) i = b"
      "\<forall>x\<in>set xs. node_val (hl_heap q) x \<noteq> b" "js = nodes_of (hl_heap q) ys b"
    using nodes_of_split [OF n] by blast
  let ?d = "if js = [] then AList.delete b (bundle_to_nodes q) else AList.update b js (bundle_to_nodes q)"
  let ?q = "hl_remove_node i (q\<lparr>bundle_to_nodes := ?d\<rparr>)"
  have "dll (q\<lparr>bundle_to_nodes := ?d\<rparr>) (xs @ i # ys)" using assms(1) s(1) by (simp add: dll_def)
  then have "dll ?q (xs @ ys)" by (rule dll_remove_node)
  moreover have "index_ok ?q (xs @ ys)"
  proof -
    have nb: "nodes_of (hl_heap q) (xs @ ys) c = (if c = b then js else nodes_of (hl_heap q) is c)" for c
      using s by (auto simp: nodes_of_def)
    have "map_of ?d c = (if nodes_of (hl_heap q) (xs @ ys) c = [] then None else Some (nodes_of (hl_heap q) (xs @ ys) c))" for c
      unfolding nb using assms(2) by (simp add: index_ok_def update_conv delete_conv)
    moreover have "distinct (map fst ?d)"
      using assms(2) by (simp add: index_ok_def distinct_update distinct_delete)
    ultimately show ?thesis by (simp add: index_ok_def nodes_of_def)
  qed
  moreover have "hl_remove_inner b q = Inr (b, ?q)"
    using idx s(2) by (simp add: hl_remove_inner_def Let_def)
  moreover have "metrics ?q = metrics q" by simp
  moreover have "node_val (hl_heap ?q) = node_val (hl_heap q)" by (rule ext) simp
  ultimately show ?thesis using s by blast
qed

lemma hl_metrics_frame [simp]:
  "hl_heap (on_enqueue_bundle b q) = hl_heap q" "hl_heap (on_dequeue_bundle b q) = hl_heap q"
  "dll (on_enqueue_bundle b q) is = dll q is" "dll (on_dequeue_bundle b q) is = dll q is"
  "index_ok (on_enqueue_bundle b q) is = index_ok q is" "index_ok (on_dequeue_bundle b q) is = index_ok q is"
  by (simp_all add: on_enqueue_bundle_def on_dequeue_bundle_def dll_def index_ok_def)

lemma add_inner_last:
  fixes b :: ref_bundle and q :: hash_linked
  assumes "dll q is" and "index_ok q is"
  defines "q' \<equiv> hl_add_inner b q" and "i \<equiv> hl_fresh q"
  shows "dll q' (is @ [i])" and "index_ok q' (is @ [i])" and "metrics q' = metrics q"
    and "map (node_val (hl_heap q')) (is @ [i]) = map (node_val (hl_heap q)) is @ [b]"
proof -
  let ?h = "(hl_heap q)(i \<mapsto> \<lparr>nd_value = b, nd_next = None, nd_prev = hl_tail q\<rparr>)"
  have new: "i \<notin> set is" using assms(1) by (auto simp: dll_def i_def)
  have seg: "lseg ?h None is None" using assms(1) new by (simp add: dll_def lseg_frame)
  have tail: "hl_tail q = last_or None is" "hl_head q = first_or None is" using assms(1) by (simp_all add: dll_def)
  have heap: "hl_heap q' = (case last_or None is of None \<Rightarrow> ?h | Some t \<Rightarrow> set_next t (Some i) ?h)"
    and ht: "hl_head q' = first_or (Some i) is" "hl_tail q' = Some i" "hl_fresh q' = i + 1"
    using tail by (cases "is"; auto simp: q'_def hl_add_inner_def i_def Let_def last_or_def)+
  have "lseg (hl_heap q') None (is @ [i]) None"
  proof (cases "is" rule: rev_cases)
    case Nil
    then show ?thesis using heap tail by simp
  next
    case (snoc js j)
    then have "j \<notin> set js" "j \<noteq> i" using assms(1) new by (auto simp: dll_def)
    moreover have "lseg ?h None (js @ [j]) None" using seg snoc by simp
    ultimately have "lseg (set_next j (Some i) ?h) None (js @ [j]) (Some i)" using lseg_set_next by blast
    then have "lseg (hl_heap q') None is (Some i)" using heap snoc by simp
    moreover have "hl_heap q' i = ?h i" using heap snoc \<open>j \<noteq> i\<close> by (simp add: set_next_def split: option.splits)
    ultimately show ?thesis using tail by (simp add: lseg_append)
  qed
  then show "dll q' (is @ [i])"
    using assms(1) new ht by (auto simp: dll_def i_def)
  have val: "node_val (hl_heap q') j = (if j = i then b else node_val (hl_heap q) j)" for j
    by (auto simp: heap split: option.splits)
  then show vals: "map (node_val (hl_heap q')) (is @ [i]) = map (node_val (hl_heap q)) is @ [b]"
    using new by auto
  show "metrics q' = metrics q" by (auto simp: q'_def hl_add_inner_def Let_def split: option.splits)
  have idx: "bundle_to_nodes q' = AList.update b (dict_get (bundle_to_nodes q) b [] @ [i]) (bundle_to_nodes q)"
    by (auto simp: q'_def hl_add_inner_def Let_def i_def split: option.splits)
  have nodes: "nodes_of (hl_heap q') (is @ [i]) c = nodes_of (hl_heap q) is c @ (if c = b then [i] else [])" for c
    unfolding nodes_of_def val using new by (auto intro!: filter_cong)
  show "index_ok q' (is @ [i])"
    using assms(2) by (auto simp: index_ok_def nodes idx update_conv distinct_update dict_get_def)
qed

lemma hl_iter_inv: "hl_inv q \<Longrightarrow> \<exists>is. dll q is \<and> index_ok q is \<and> hl_iter q = map (node_val (hl_heap q)) is \<and>
    metrics q = metrics_of (hl_iter q)"
  by (auto simp: hl_inv_def dll_iter)

lemma hl_remove_first:
  assumes "hl_inv q" and "b \<in> set (hl_iter q)"
  shows "\<exists>xs ys q'. hl_iter q = xs @ b # ys \<and> b \<notin> set xs \<and> hl_remove b q = Inr (b, q') \<and> hl_inv q' \<and>
    hl_iter q' = xs @ ys"
proof -
  obtain "is" where is_: "dll q is" "index_ok q is" "hl_iter q = map (node_val (hl_heap q)) is"
      "metrics q = metrics_of (hl_iter q)"
    using hl_iter_inv [OF assms(1)] by blast
  have "b \<in> node_val (hl_heap q) ` set is" using assms(2) is_(3) by simp
  then obtain xs i ys q' where r: "is = xs @ i # ys" "node_val (hl_heap q) i = b"
      "\<forall>x\<in>set xs. node_val (hl_heap q) x \<noteq> b" "hl_remove_inner b q = Inr (b, q')" "dll q' (xs @ ys)"
      "index_ok q' (xs @ ys)" "metrics q' = metrics q" "node_val (hl_heap q') = node_val (hl_heap q)"
    using remove_inner_first [OF is_(1,2)] by blast
  let ?xs = "map (node_val (hl_heap q)) xs" and ?ys = "map (node_val (hl_heap q)) ys"
  let ?q = "on_dequeue_bundle b q'"
  have it: "hl_iter q = ?xs @ b # ?ys" using is_(3) r(1,2) by simp
  have "metrics ?q = metrics_of (?xs @ ?ys)"
    using metrics_on_dequeue [of q' ?xs b ?ys] r(7) is_(4) it by simp
  moreover have "dll ?q (xs @ ys)" "index_ok ?q (xs @ ys)" using r by simp_all
  ultimately have "hl_inv ?q" unfolding hl_inv_def by (intro exI [of _ "xs @ ys"]) (simp add: r(8))
  moreover have "hl_iter ?q = ?xs @ ?ys" using dll_iter [OF \<open>dll ?q (xs @ ys)\<close>] by (simp add: r(8))
  moreover have "hl_remove b q = Inr (b, ?q)" using r(4) by (simp add: hl_remove_def)
  ultimately show ?thesis using it r(3) by (intro exI [of _ ?xs] exI [of _ ?ys] exI [of _ ?q]) auto
qed

interpretation hashed_queue: bundle_queue hl_inv hl_iter metrics hl_add hl_get_next hl_peek_next hl_has_next hl_clear
proof
  fix q b bs
  assume inv: "hl_inv q"
  obtain "is" where is_: "dll q is" "index_ok q is" "hl_iter q = map (node_val (hl_heap q)) is"
      "metrics q = metrics_of (hl_iter q)"
    using hl_iter_inv [OF inv] by blast
  let ?q = "on_enqueue_bundle b q"
  have d: "dll ?q is" "index_ok ?q is" using is_ by simp_all
  note a = add_inner_last [OF d, of b]
  have m: "metrics (hl_add b q) = metrics_of (hl_iter q @ [b])"
    using a(3) metrics_on_enqueue [OF is_(4)] by (simp add: hl_add_def)
  show it: "hl_iter (hl_add b q) = hl_iter q @ [b]"
    using dll_iter [OF a(1)] a(4) is_(3) by (simp add: hl_add_def)
  show "hl_inv (hl_add b q)"
    unfolding hl_inv_def using a(1,2) m is_(3) unfolding a(4) [symmetric, unfolded hl_metrics_frame]
    by (intro exI [of _ "is @ [hl_fresh ?q]"]) (simp add: hl_add_def a(4) del: map_append)
  have head: "hl_head q = (case is of [] \<Rightarrow> None | i # _ \<Rightarrow> Some i)" using is_(1) by (simp add: dll_def first_or_def)
  show "hl_iter q = [] \<Longrightarrow> \<exists>e. hl_get_next q = Inl e" using head is_(3) by (simp add: hl_get_next_def)
  show "\<exists>q'. hl_get_next q = Inr (b, q') \<and> hl_inv q' \<and> hl_iter q' = bs" if cons: "hl_iter q = b # bs"
  proof -
    obtain i js where i: "is = i # js" "node_val (hl_heap q) i = b" using cons is_(3) by (cases "is") auto
    obtain xs ys q' where r: "hl_iter q = xs @ b # ys" "b \<notin> set xs" "hl_remove b q = Inr (b, q')" "hl_inv q'" "hl_iter q' = xs @ ys"
      using hl_remove_first [OF inv, of b] cons by auto
    have "xs = []" using r(1,2) cons by (cases xs) auto
    moreover have "hl_get_next q = Inr (b, q')"
      using r(3) head i by (auto simp: hl_get_next_def hl_remove_def rbind_eq_Inr)
    ultimately show ?thesis using r cons by simp
  qed
  show "hl_peek_next q = (case hl_iter q of [] \<Rightarrow> None | b # _ \<Rightarrow> Some b)"
    using head is_(3) by (cases "is") (simp_all add: hl_peek_next_def)
  show "hl_has_next q \<longleftrightarrow> hl_iter q \<noteq> []"
    using metrics_num_bundles [OF is_(4)] by (simp add: hl_has_next_def)
  have c: "dll (hl_clear q) []" by (simp add: dll_def hl_clear_def)
  then show "hl_iter (hl_clear q) = []" using dll_iter [OF c] by simp
  show "hl_inv (hl_clear q)"
    unfolding hl_inv_def using c metrics_reset [of q]
    by (intro exI [of _ "[]"]) (simp add: index_ok_def nodes_of_def hl_clear_def)
  show "metrics q = metrics_of (hl_iter q)" by (rule is_(4))
qed

interpretation hashed_removal: queue_with_removal hl_inv hl_iter metrics hl_add hl_get_next hl_peek_next hl_has_next hl_clear
  hl_remove hl_contains
proof
  fix q b
  assume inv: "hl_inv q"
  obtain "is" where is_: "index_ok q is" "hl_iter q = map (node_val (hl_heap q)) is"
    using hl_iter_inv [OF inv] by blast
  have none: "nodes_of (hl_heap q) is b = [] \<longleftrightarrow> b \<notin> set (hl_iter q)" using is_(2) by (auto simp: nodes_of_def filter_empty_conv)
  show "\<exists>q'. hl_remove b q = Inr (b, q') \<and> hl_inv q' \<and> hl_iter q' = remove1 b (hl_iter q)" if "b \<in> set (hl_iter q)"
    using hl_remove_first [OF inv that] by (auto simp: remove1_append)
  show "hl_remove b q = Inl (ValueError ''The bundle is not in the queue.'')" if "b \<notin> set (hl_iter q)"
    using that is_(1) none by (simp add: hl_remove_def hl_remove_inner_def index_ok_def)
  show "hl_contains b q \<longleftrightarrow> b \<in> set (hl_iter q)" using is_(1) none by (simp add: hl_contains_def index_ok_def)
qed

lemma hl_init_inv: "hl_inv hl_init" and hl_init_iter: "hl_iter hl_init = []"
proof -
  have "dll hl_init []" by (simp add: dll_def hl_init_def)
  then show "hl_iter hl_init = []" using dll_iter by fastforce
  show "hl_inv hl_init"
    unfolding hl_inv_def using \<open>dll hl_init []\<close>
    by (intro exI [of _ "[]"]) (simp add: index_ok_def nodes_of_def hl_init_def metrics_of_def queue_metrics.defs)
qed

abbreviation hl_step :: "removal_op \<Rightarrow> hash_linked \<Rightarrow> hash_linked \<times> removal_out" where
  "hl_step \<equiv> removal_step (queue_step hl_add hl_get_next hl_peek_next hl_has_next hl_clear) hl_remove hl_contains hl_iter"

text \<open>C27: for every sequence of operations (adding, taking the next bundle, peeking, asking for a next one,
  removing a bundle, asking whether a bundle is contained, iterating and clearing) the doubly linked
  queue with its hash index answers exactly as a list whose head is popped first and from which
  \<open>remove\<close> deletes the first occurrence of a bundle, refusing one that is not there, and its metrics
  are those of its contents.\<close>

theorem hash_linked_refines_list:
  assumes "queue_run hl_step ops hl_init = (q, outs)"
  shows "queue_run removal_spec_step ops [] = (hl_iter q, outs) \<and> metrics q = metrics_of (hl_iter q)"
  using hashed_removal.removal_run_simulates [OF hl_init_inv assms] by (simp add: hl_init_iter)

theorem hash_linked_refines_list_witness:
  "\<exists>q. queue_run hl_step
     [QueueOp (OpAdd (sample_bundle 1 3)), QueueOp (OpAdd (sample_bundle 2 4)), QueueOp (OpAdd (sample_bundle 3 5)),
      OpRemove (sample_bundle 2 4), OpContains (sample_bundle 2 4), QueueOp OpGet, QueueOp OpPeek] hl_init =
       (q, [QueueOut OutUnit, QueueOut OutUnit, QueueOut OutUnit, OutRemoved (sample_bundle 2 4), OutContains False,
            QueueOut (OutBundle (sample_bundle 1 3)), QueueOut (OutPeek (Some (sample_bundle 3 5)))])"
proof -
  let ?ops = "[QueueOp (OpAdd (sample_bundle 1 3)), QueueOp (OpAdd (sample_bundle 2 4)), QueueOp (OpAdd (sample_bundle 3 5)),
      OpRemove (sample_bundle 2 4), OpContains (sample_bundle 2 4), QueueOp OpGet, QueueOp OpPeek]"
  obtain q outs where r: "queue_run hl_step ?ops hl_init = (q, outs)" by fastforce
  have "sample_bundle 1 3 \<noteq> sample_bundle 2 4" "sample_bundle 3 5 \<noteq> sample_bundle 2 4" by (simp_all add: sample_bundle_def)
  with hash_linked_refines_list [OF r] r show ?thesis by auto
qed

end
