(* ===== verification/Reordering.thy ===== *)
theory Reordering
  imports Bundle_Queues
begin

section \<open>Ray Data: the reordering bundle queue\<close>

text \<open>
  Models \<open>ray/python/ray/data/_internal/execution/bundle_queue/reordering.py\<close>: bundles are
  added under keys and come out in key order, the queue moving on to the next key when the
  current one is finalized and drained. \<open>has_next\<close> moves the key, so it returns the new queue
  too. The dict of deques has a default, so it is a function from keys.
\<close>

record reorder_queue = queue_metrics +
  ro_inner :: "int \<Rightarrow> ref_bundle list"
  ro_current_key :: int
  ro_finalized_keys :: "int list"

definition ro_init :: reorder_queue where
  "ro_init = \<lparr>q_nbytes = 0, q_num_blocks = 0, q_num_bundles = 0, q_num_rows = 0,
     ro_inner = (\<lambda>_. []), ro_current_key = 0, ro_finalized_keys = []\<rparr>"

text \<open>The loop of \<open>has_next\<close>: one \<open>_move_to_next_key\<close> for each finalized and drained key.\<close>

function ro_advance :: "int list \<Rightarrow> (int \<Rightarrow> ref_bundle list) \<Rightarrow> int \<Rightarrow> int" where
  "ro_advance fin inner cur =
     (if cur \<in> set fin \<and> length (inner cur) = 0 then ro_advance fin inner (cur + 1) else cur)"
  by pat_completeness auto
termination
proof (relation "measure (\<lambda>(fin, inner, cur). card {k \<in> set fin. cur \<le> k})", goal_cases)
  case (2 fin inner cur)
  then have "cur \<in> {k \<in> set fin. cur \<le> k}" "cur \<notin> {k \<in> set fin. cur + 1 \<le> k}" by simp_all
  moreover have "{k \<in> set fin. cur + 1 \<le> k} \<subseteq> {k \<in> set fin. cur \<le> k}" by auto
  ultimately have "{k \<in> set fin. cur + 1 \<le> k} \<subset> {k \<in> set fin. cur \<le> k}" by blast
  then have "card {k \<in> set fin. cur + 1 \<le> k} < card {k \<in> set fin. cur \<le> k}"
    by (rule psubset_card_mono [rotated]) simp
  then show ?case by simp
qed simp

declare ro_advance.simps [simp del]

definition ro_has_next :: "reorder_queue \<Rightarrow> bool \<times> reorder_queue" where
  "ro_has_next q =
     (let q' = q\<lparr>ro_current_key := ro_advance (ro_finalized_keys q) (ro_inner q) (ro_current_key q)\<rparr>
      in (length (ro_inner q' (ro_current_key q')) > 0, q'))"

definition ro_add :: "ref_bundle \<Rightarrow> int \<Rightarrow> reorder_queue \<Rightarrow> reorder_queue" where
  "ro_add b key q =
     (let q1 = on_enqueue_bundle b q
      in q1\<lparr>ro_inner := (ro_inner q1)(key := ro_inner q1 key @ [b])\<rparr>)"

definition ro_get_next :: "reorder_queue \<Rightarrow> (ref_bundle \<times> reorder_queue) result" where
  "ro_get_next q =
     (let (ok, q1) = ro_has_next q; key = ro_current_key q1
      in if \<not> ok then Inl (ValueError ''Cannot pop from empty queue.'')
         else (let b = hd (ro_inner q1 key); q2 = q1\<lparr>ro_inner := (ro_inner q1)(key := tl (ro_inner q1 key))\<rparr>
               in Inr (b, on_dequeue_bundle b q2)))"

definition ro_peek_next :: "reorder_queue \<Rightarrow> ref_bundle option \<times> reorder_queue" where
  "ro_peek_next q =
     (let (ok, q1) = ro_has_next q
      in if \<not> ok then (None, q1) else (Some (hd (ro_inner q1 (ro_current_key q1))), q1))"

definition ro_finalize :: "int \<Rightarrow> reorder_queue \<Rightarrow> reorder_queue result" where
  "ro_finalize key q =
     (if \<not> key \<ge> ro_current_key q then Inl (AssertionError ''key >= current_key'')
      else Inr (q\<lparr>ro_finalized_keys := (if key \<in> set (ro_finalized_keys q) then ro_finalized_keys q
                                        else key # ro_finalized_keys q)\<rparr>))"

definition ro_clear :: "reorder_queue \<Rightarrow> reorder_queue" where
  "ro_clear q = (reset_metrics q)\<lparr>ro_inner := (\<lambda>_. []), ro_finalized_keys := [], ro_current_key := 0\<rparr>"

subsection \<open>Runs that keep the documented use\<close>

text \<open>
  The states a client can reach that adds bundles only under non-negative keys it has not
  finalized, with everything added so far under each key and everything taken out so far.
\<close>

inductive ro_reach :: "reorder_queue \<Rightarrow> (int \<Rightarrow> ref_bundle list) \<Rightarrow> ref_bundle list \<Rightarrow> bool" where
  start: "ro_reach ro_init (\<lambda>_. []) []"
| add: "ro_reach q hist out \<Longrightarrow> 0 \<le> key \<Longrightarrow> key \<notin> set (ro_finalized_keys q) \<Longrightarrow>
    ro_reach (ro_add b key q) (hist(key := hist key @ [b])) out"
| finalize: "ro_reach q hist out \<Longrightarrow> ro_finalize key q = Inr q' \<Longrightarrow> ro_reach q' hist out"
| has_next: "ro_reach q hist out \<Longrightarrow> ro_has_next q = (r, q') \<Longrightarrow> ro_reach q' hist out"
| peek: "ro_reach q hist out \<Longrightarrow> ro_peek_next q = (r, q') \<Longrightarrow> ro_reach q' hist out"
| get: "ro_reach q hist out \<Longrightarrow> ro_get_next q = Inr (b, q') \<Longrightarrow> ro_reach q' hist (out @ [b])"
| clear: "ro_reach q hist out \<Longrightarrow> ro_reach (ro_clear q) (\<lambda>_. []) []"

definition ro_inv :: "reorder_queue \<Rightarrow> (int \<Rightarrow> ref_bundle list) \<Rightarrow> ref_bundle list \<Rightarrow> bool" where
  "ro_inv q hist out \<longleftrightarrow> 0 \<le> ro_current_key q \<and>
     (\<forall>k. 0 \<le> k \<and> k < ro_current_key q \<longrightarrow> k \<in> set (ro_finalized_keys q) \<and> ro_inner q k = []) \<and>
     (\<forall>k > ro_current_key q. ro_inner q k = hist k) \<and>
     out @ ro_inner q (ro_current_key q) = concat (map hist [0..ro_current_key q]) \<and>
     (\<exists>N. \<forall>k\<ge>N. ro_inner q k = []) \<and>
     (\<forall>N \<ge> ro_current_key q. (\<forall>k\<ge>N. ro_inner q k = []) \<longrightarrow>
        metrics q = metrics_of (concat (map (ro_inner q) [ro_current_key q..N - 1])))"

lemma metrics_ro [simp]:
  "metrics (q\<lparr>ro_inner := f\<rparr>) = metrics q" "metrics (q\<lparr>ro_current_key := k\<rparr>) = metrics q"
  "metrics (q\<lparr>ro_finalized_keys := ks\<rparr>) = metrics q"
  by (simp_all add: queue_metrics.defs)

lemma ro_metrics_frame [simp]:
  "ro_inner (on_enqueue_bundle b q) = ro_inner q" "ro_inner (on_dequeue_bundle b q) = ro_inner q"
  "ro_current_key (on_enqueue_bundle b q) = ro_current_key q" "ro_current_key (on_dequeue_bundle b q) = ro_current_key q"
  "ro_finalized_keys (on_enqueue_bundle b q) = ro_finalized_keys q"
  "ro_finalized_keys (on_dequeue_bundle b q) = ro_finalized_keys q"
  by (simp_all add: on_enqueue_bundle_def on_dequeue_bundle_def)

lemma ro_invD:
  assumes "ro_inv q hist out"
  shows "0 \<le> ro_current_key q"
    and "0 \<le> k \<Longrightarrow> k < ro_current_key q \<Longrightarrow> k \<in> set (ro_finalized_keys q)"
    and "0 \<le> k \<Longrightarrow> k < ro_current_key q \<Longrightarrow> ro_inner q k = []"
    and "ro_current_key q < k \<Longrightarrow> ro_inner q k = hist k"
    and "out @ ro_inner q (ro_current_key q) = concat (map hist [0..ro_current_key q])"
    and "\<exists>N. \<forall>k\<ge>N. ro_inner q k = []"
    and "ro_current_key q \<le> N \<Longrightarrow> \<forall>k\<ge>N. ro_inner q k = [] \<Longrightarrow>
      metrics q = metrics_of (concat (map (ro_inner q) [ro_current_key q..N - 1]))"
  using assms by (simp_all add: ro_inv_def)

text \<open>One move of the key keeps the invariant, so the whole loop does.\<close>

lemma ro_inv_move:
  assumes "ro_inv q hist out" and "ro_current_key q \<in> set (ro_finalized_keys q)"
    and "ro_inner q (ro_current_key q) = []"
  shows "ro_inv (q\<lparr>ro_current_key := ro_current_key q + 1\<rparr>) hist out"
proof -
  let ?c = "ro_current_key q"
  note D = ro_invD [OF assms(1)]
  have prefix: "out @ ro_inner q (?c + 1) = concat (map hist [0..?c + 1])"
    using D(1,5) D(4) [of "?c + 1"] assms(3) upto_rec2 [of 0 "?c + 1"] by simp
  have m: "metrics q = metrics_of (concat (map (ro_inner q) [?c + 1..N - 1]))"
    if "N \<ge> ?c + 1" "\<forall>k\<ge>N. ro_inner q k = []" for N
  proof -
    have "metrics q = metrics_of (concat (map (ro_inner q) [?c..N - 1]))" using D(7) that by simp
    with that(1) assms(3) upto_rec1 [of ?c "N - 1"] show ?thesis by simp
  qed
  have fin: "k \<in> set (ro_finalized_keys q) \<and> ro_inner q k = []" if "0 \<le> k" "k < ?c + 1" for k
    using that D(2,3) [of k] assms(2,3) by (cases "k = ?c") auto
  show ?thesis unfolding ro_inv_def using D(1,4,6) prefix m fin by simp
qed

lemma ro_inv_advance:
  assumes "ro_inv q hist out"
  shows "ro_inv (q\<lparr>ro_current_key := ro_advance (ro_finalized_keys q) (ro_inner q) (ro_current_key q)\<rparr>) hist out"
proof -
  have "ro_inv (q\<lparr>ro_current_key := ro_advance fin inner cur\<rparr>) hist out"
    if "ro_inv (q\<lparr>ro_current_key := cur\<rparr>) hist out" "fin = ro_finalized_keys q" "inner = ro_inner q" for fin inner cur
    using that
  proof (induction fin inner cur rule: ro_advance.induct)
    case (1 fin inner cur)
    show ?case
    proof (cases "cur \<in> set fin \<and> length (inner cur) = 0")
      case True
      with 1 ro_inv_move [OF "1.prems"(1)] have "ro_inv (q\<lparr>ro_current_key := cur + 1\<rparr>) hist out" by simp
      from "1.IH" [OF True this "1.prems"(2,3)] True show ?thesis by (subst ro_advance.simps) simp
    next
      case False
      then have "ro_advance fin inner cur = cur" by (subst ro_advance.simps) auto
      then show ?thesis using "1.prems"(1) by simp
    qed
  qed
  then show ?thesis using assms by simp
qed

lemma ro_has_next_inv: "ro_inv q hist out \<Longrightarrow> ro_has_next q = (r, q') \<Longrightarrow> ro_inv q' hist out"
  using ro_inv_advance by (auto simp: ro_has_next_def Let_def)

lemma ro_inv_add:
  assumes "ro_inv q hist out" and "0 \<le> key" and "key \<notin> set (ro_finalized_keys q)"
  shows "ro_inv (ro_add b key q) (hist(key := hist key @ [b])) out"
proof -
  let ?c = "ro_current_key q" and ?hist = "hist(key := hist key @ [b])"
  let ?inner = "(ro_inner q)(key := ro_inner q key @ [b])"
  note D = ro_invD [OF assms(1)]
  have key: "?c \<le> key" using D(2) [of key] assms(2,3) by force
  have fields: "ro_inner (ro_add b key q) = ?inner" "ro_current_key (ro_add b key q) = ?c"
    "ro_finalized_keys (ro_add b key q) = ro_finalized_keys q"
    "metrics (ro_add b key q) = metrics (on_enqueue_bundle b q)"
    by (simp_all add: ro_add_def Let_def)
  have later: "map ?hist [0..?c - 1] = map hist [0..?c - 1]" using key by simp
  have prefix: "out @ ?inner ?c = concat (map ?hist [0..?c])"
    using D(1,5) key later upto_rec2 [of 0 ?c] by (cases "key = ?c") auto
  have m: "metrics (on_enqueue_bundle b q) = metrics_of (concat (map ?inner [?c..N - 1]))"
    if N: "N \<ge> ?c" "\<forall>k\<ge>N. ?inner k = []" for N
  proof -
    have lt: "key < N" using N(2) by (metis append_is_Nil_conv fun_upd_same list.distinct(1) not_le)
    then have "\<forall>k\<ge>N. ro_inner q k = []" using N(2) by auto
    then have "metrics (on_enqueue_bundle b q) = metrics_of (concat (map (ro_inner q) [?c..N - 1]) @ [b])"
      using D(7) N(1) by (intro metrics_on_enqueue) simp
    also have "\<dots> = metrics_of (concat (map ?inner [?c..N - 1]))"
    proof (rule metrics_of_perm)
      have "[?c..N - 1] = [?c..key - 1] @ key # [key + 1..N - 1]"
        using upto_split3 [of ?c key "N - 1"] key lt by simp
      moreover have "map ?inner [?c..key - 1] = map (ro_inner q) [?c..key - 1]"
        "map ?inner [key + 1..N - 1] = map (ro_inner q) [key + 1..N - 1]" by simp_all
      ultimately show "mset (concat (map (ro_inner q) [?c..N - 1]) @ [b]) = mset (concat (map ?inner [?c..N - 1]))"
        by (simp del: map_eq_conv)
    qed
    finally show ?thesis .
  qed
  have bound: "\<exists>N. \<forall>k\<ge>N. ?inner k = []"
  proof -
    obtain N where "\<forall>k\<ge>N. ro_inner q k = []" using D(6) by blast
    then show ?thesis by (intro exI [of _ "max N (key + 1)"]) simp
  qed
  show ?thesis unfolding ro_inv_def fields using D(1-4) key prefix m bound by simp
qed

lemma ro_inv_get:
  assumes "ro_inv q hist out" and "ro_get_next q = Inr (b, q')"
  shows "ro_inv q' hist (out @ [b])"
proof -
  obtain r q1 where h: "ro_has_next q = (r, q1)" by fastforce
  let ?c = "ro_current_key q1"
  have inv: "ro_inv q1 hist out" by (rule ro_has_next_inv [OF assms(1) h])
  note D = ro_invD [OF inv]
  have r: "r" using assms(2) h by (simp add: ro_get_next_def Let_def split: if_splits)
  then have ne: "ro_inner q1 ?c \<noteq> []" using h by (auto simp: ro_has_next_def Let_def)
  then obtain bs where bs: "ro_inner q1 ?c = b # bs"
    and q': "q' = on_dequeue_bundle b (q1\<lparr>ro_inner := (ro_inner q1)(?c := bs)\<rparr>)"
    using assms(2) h r by (cases "ro_inner q1 ?c") (simp_all add: ro_get_next_def Let_def)
  let ?inner = "(ro_inner q1)(?c := bs)"
  have m: "metrics q' = metrics_of (concat (map ?inner [?c..N - 1]))"
    if N: "N \<ge> ?c" "\<forall>k\<ge>N. ?inner k = []" for N
  proof (cases "N = ?c")
    case True
    then have all: "\<forall>k\<ge>?c + 1. ro_inner q1 k = []" and b: "bs = []"
      using N(2) by (auto split: if_splits) (metis add_le_same_cancel1 dual_order.trans not_one_le_zero zle_add1_eq_le le_add_same_cancel1 zero_le_one)
    have "metrics q1 = metrics_of (concat (map (ro_inner q1) [?c..?c]))" using D(7) [of "?c + 1"] all by simp
    then have "metrics q1 = metrics_of ([] @ b # [])" using bs b by simp
    then show ?thesis using metrics_on_dequeue [of "q1\<lparr>ro_inner := ?inner\<rparr>" "[]" b "[]"] True q' by simp
  next
    case False
    then have N': "?c < N" "\<forall>k\<ge>N. ro_inner q1 k = []" using N by (auto split: if_splits)
    have up: "[?c..N - 1] = ?c # [?c + 1..N - 1]" using N'(1) by (simp add: upto_rec1)
    have "metrics q1 = metrics_of ([] @ b # (bs @ concat (map (ro_inner q1) [?c + 1..N - 1])))"
      using D(7) [of N] N' bs by (simp add: up)
    then have "metrics q' = metrics_of ([] @ bs @ concat (map (ro_inner q1) [?c + 1..N - 1]))"
      using metrics_on_dequeue [of "q1\<lparr>ro_inner := ?inner\<rparr>" "[]" b] q' by simp
    moreover have "map ?inner [?c + 1..N - 1] = map (ro_inner q1) [?c + 1..N - 1]" by simp
    ultimately show ?thesis by (simp add: up del: map_eq_conv)
  qed
  have "\<exists>N. \<forall>k\<ge>N. ?inner k = []"
  proof -
    obtain N where "\<forall>k\<ge>N. ro_inner q1 k = []" using D(6) by blast
    then show ?thesis by (intro exI [of _ "max N (?c + 1)"]) simp
  qed
  moreover have fields: "ro_inner q' = ?inner" "ro_current_key q' = ?c" "ro_finalized_keys q' = ro_finalized_keys q1"
    by (simp_all add: q')
  ultimately show ?thesis
    unfolding ro_inv_def fields using D(1-5) bs m by simp
qed

lemma concat_map_Nil [simp]: "concat (map (\<lambda>_. []) xs) = []"
  by (induction xs) auto

lemma ro_reach_inv: "ro_reach q hist out \<Longrightarrow> ro_inv q hist out"
proof (induction rule: ro_reach.induct)
  case start
  show ?case by (simp add: ro_inv_def ro_init_def metrics_of_def queue_metrics.defs)
next
  case (finalize q hist out key q')
  then have "q' = q\<lparr>ro_finalized_keys := (if key \<in> set (ro_finalized_keys q) then ro_finalized_keys q
      else key # ro_finalized_keys q)\<rparr>" by (simp add: ro_finalize_def split: if_splits)
  with finalize show ?case by (simp add: ro_inv_def)
next
  case (peek q hist out r q')
  obtain r1 q1 where h: "ro_has_next q = (r1, q1)" by fastforce
  with peek have "q' = q1" by (auto simp: ro_peek_next_def split: if_splits)
  with ro_has_next_inv [OF peek(3) h] show ?case by simp
next
  case (clear q hist out)
  show ?case using metrics_reset [of q] by (simp add: ro_inv_def ro_clear_def)
qed (blast intro: ro_inv_add ro_inv_get ro_has_next_inv)+

subsection \<open>Properties\<close>

lemma ro_inv_rest:
  assumes "ro_inv q hist out" and "ro_current_key q \<le> N"
  shows "concat (map hist [0..N]) = out @ concat (map (ro_inner q) [ro_current_key q..N])"
proof -
  let ?c = "ro_current_key q"
  note D = ro_invD [OF assms(1)]
  have "[0..N] = [0..?c] @ [?c + 1..N]" using D(1) assms(2) upto_split2 [of 0 ?c N] by simp
  moreover have "map hist [?c + 1..N] = map (ro_inner q) [?c + 1..N]" using D(4) by simp
  moreover have "[?c..N] = ?c # [?c + 1..N]" using assms(2) by (simp add: upto_rec1)
  ultimately show ?thesis using D(5) by (simp del: map_eq_conv flip: append_assoc)
qed

text \<open>C28: in every state reached by adding bundles only under keys not yet finalized, what has been taken
  out so far followed by what is still inside, read in key order and insertion order within a
  key, is everything that was added: nothing is lost, repeated or taken out of order, and the
  metrics are those of what is still inside.\<close>

theorem reordering_key_order:
  assumes "ro_reach q hist out" and "ro_current_key q \<le> N" and "\<forall>k>N. hist k = []"
  shows "concat (map hist [0..N]) = out @ concat (map (ro_inner q) [ro_current_key q..N]) \<and>
    metrics q = metrics_of (concat (map (ro_inner q) [ro_current_key q..N]))"
proof -
  note inv = ro_reach_inv [OF assms(1)]
  note D = ro_invD [OF inv]
  have "\<forall>k\<ge>N + 1. ro_inner q k = []" using D(4) assms(2,3) by auto
  with D(7) [of "N + 1"] ro_inv_rest [OF inv assms(2)] assms(2) show ?thesis by simp
qed

lemma ro_example_reach:
  "\<exists>q. ro_get_next (ro_add (sample_bundle 2 4) 0 (ro_add (sample_bundle 1 3) 1 ro_init)) = Inr (sample_bundle 2 4, q) \<and>
     ro_current_key q = 0 \<and>
     ro_reach q ((\<lambda>_. [])(1 := [sample_bundle 1 3], 0 := [sample_bundle 2 4])) [sample_bundle 2 4]"
proof -
  let ?q = "ro_add (sample_bundle 2 4) 0 (ro_add (sample_bundle 1 3) 1 ro_init)"
  have "ro_reach ?q ((\<lambda>_. [])(1 := [sample_bundle 1 3], 0 := [sample_bundle 2 4])) []"
    using ro_reach.add [OF ro_reach.add [OF ro_reach.start, of 1 "sample_bundle 1 3"], of 0 "sample_bundle 2 4"]
    by (simp add: ro_add_def ro_init_def on_enqueue_bundle_def)
  moreover have fields: "ro_inner ?q 0 = [sample_bundle 2 4]" "ro_current_key ?q = 0" "ro_finalized_keys ?q = []"
    by (simp_all add: ro_add_def ro_init_def on_enqueue_bundle_def)
  moreover have "\<exists>q. ro_get_next ?q = Inr (sample_bundle 2 4, q) \<and> ro_current_key q = 0"
    using fields by (simp add: ro_get_next_def ro_has_next_def Let_def ro_advance.simps)
  ultimately show ?thesis using ro_reach.get by fastforce
qed

theorem reordering_key_order_witness:
  "\<exists>q. ro_get_next (ro_add (sample_bundle 2 4) 0 (ro_add (sample_bundle 1 3) 1 ro_init)) = Inr (sample_bundle 2 4, q) \<and>
     [sample_bundle 2 4, sample_bundle 1 3] = [sample_bundle 2 4] @ concat (map (ro_inner q) [0..1])"
proof -
  obtain q where q: "ro_get_next (ro_add (sample_bundle 2 4) 0 (ro_add (sample_bundle 1 3) 1 ro_init)) = Inr (sample_bundle 2 4, q)"
    "ro_current_key q = 0" "ro_reach q ((\<lambda>_. [])(1 := [sample_bundle 1 3], 0 := [sample_bundle 2 4])) [sample_bundle 2 4]"
    using ro_example_reach by blast
  have "[0..1::int] = [0, 1]" by code_simp
  with reordering_key_order [OF q(3), of 1] q(1,2) show ?thesis by simp
qed

lemma ro_advance_stops: "ro_advance fin inner cur \<notin> set fin \<or> inner (ro_advance fin inner cur) \<noteq> []"
proof (induction fin inner cur rule: ro_advance.induct)
  case (1 fin inner cur)
  show ?case
  proof (cases "cur \<in> set fin \<and> length (inner cur) = 0")
    case True
    then have "ro_advance fin inner cur = ro_advance fin inner (cur + 1)" by (subst ro_advance.simps) simp
    with "1.IH" [OF True] show ?thesis by simp
  next
    case False
    then have "ro_advance fin inner cur = cur" by (subst ro_advance.simps) auto
    with False show ?thesis by auto
  qed
qed

text \<open>C29: once every used key has been finalized the queue is never stuck: \<open>has_next\<close> holds exactly as
  long as some added bundle has not been taken out.\<close>

theorem reordering_never_stuck:
  assumes "ro_reach q hist out" and "\<forall>k>N. hist k = []" and "\<forall>k. 0 \<le> k \<and> k \<le> N \<longrightarrow> k \<in> set (ro_finalized_keys q)"
    and "ro_has_next q = (r, q')"
  shows "r \<longleftrightarrow> out \<noteq> concat (map hist [0..N])"
proof -
  let ?c = "ro_current_key q'"
  have inv: "ro_inv q' hist out" using ro_has_next_inv [OF ro_reach_inv [OF assms(1)] assms(4)] .
  note D = ro_invD [OF inv]
  have f: "ro_finalized_keys q' = ro_finalized_keys q" "r \<longleftrightarrow> ro_inner q' ?c \<noteq> []"
    using assms(4) by (auto simp: ro_has_next_def Let_def)
  have stop: "?c \<notin> set (ro_finalized_keys q') \<or> ro_inner q' ?c \<noteq> []"
    using ro_advance_stops assms(4) by (auto simp: ro_has_next_def Let_def)
  show ?thesis
  proof (cases "?c \<le> N")
    case True
    then have ne: "ro_inner q' ?c \<noteq> []" using stop assms(3) D(1) f(1) by auto
    moreover have "concat (map hist [0..N]) = out @ ro_inner q' ?c @ concat (map (ro_inner q') [?c + 1..N])"
      using ro_inv_rest [OF inv True] True by (simp add: upto_rec1)
    ultimately show ?thesis using f(2) by simp
  next
    case False
    have "concat (map hist [0..?c]) = concat (map hist [0..N])"
    proof (cases "0 \<le> N")
      case True
      then have "[0..?c] = [0..N] @ [N + 1..?c]" using upto_split2 [of 0 N ?c] False by simp
      then show ?thesis using assms(2) by simp
    qed (use assms(2) in auto)
    then have "out @ ro_inner q' ?c = concat (map hist [0..N])" using D(5) by simp
    then show ?thesis using f(2) by auto
  qed
qed

theorem reordering_never_stuck_witness:
  "\<exists>q1 q2 r q3. ro_finalize 0 (ro_add (sample_bundle 1 3) 1 ro_init) = Inr q1 \<and> ro_finalize 1 q1 = Inr q2 \<and>
     ro_has_next q2 = (r, q3) \<and> r"
proof -
  let ?q = "ro_add (sample_bundle 1 3) 1 ro_init"
  have fields: "ro_current_key ?q = 0" "ro_finalized_keys ?q = []"
    by (simp_all add: ro_add_def ro_init_def on_enqueue_bundle_def)
  have "ro_reach ?q ((\<lambda>_. [])(1 := [sample_bundle 1 3])) []"
    using ro_reach.add [OF ro_reach.start, of 1 "sample_bundle 1 3"] by (simp add: ro_init_def)
  moreover obtain q1 where q1: "ro_finalize 0 ?q = Inr q1" "ro_current_key q1 = 0" "ro_finalized_keys q1 = [0]"
    using fields by (simp add: ro_finalize_def)
  moreover obtain q2 where q2: "ro_finalize 1 q1 = Inr q2" "ro_finalized_keys q2 = [1, 0]"
    using q1 by (simp add: ro_finalize_def)
  ultimately have reach: "ro_reach q2 ((\<lambda>_. [])(1 := [sample_bundle 1 3])) []" using ro_reach.finalize by blast
  obtain r q3 where h: "ro_has_next q2 = (r, q3)" by fastforce
  have "k \<in> set (ro_finalized_keys q2)" if "0 \<le> k \<and> k \<le> 1" for k
    using that q2(2) by auto
  then have "r \<longleftrightarrow> [] \<noteq> concat (map ((\<lambda>_. [])(1 := [sample_bundle 1 3])) [0..1::int])"
    using reordering_never_stuck [OF reach, of 1 r q3] h by simp
  moreover have "[0..1::int] = [0, 1]" by code_simp
  ultimately show ?thesis using q1(1) q2(1) h by auto
qed

end
