(* ===== verification/Rebundle.thy ===== *)
theory Rebundle
  imports Bundle_Queues
begin

section \<open>Ray Data: rebundling queue\<close>

text \<open>
  Models \<open>ray/python/ray/data/_internal/execution/bundle_queue/bundler.py\<close>: the two
  rebundling strategies and the queue that merges and slices pending bundles into ready
  ones. Every assertion of the code is an error branch; the theorems show that for bundles
  of known size none of them is taken.
\<close>

subsection \<open>Strategies\<close>

datatype strategy = EstimateSize "int option" | ExactMultipleSize int

definition estimate_size_init :: "int option \<Rightarrow> strategy result" where
  "estimate_size_init m =
     (if m = None \<or> the m \<ge> 0 then Inr (EstimateSize m)
      else Inl (AssertionError ''Min rows per bundle has to be non-negative''))"

definition exact_multiple_init :: "int \<Rightarrow> strategy result" where
  "exact_multiple_init t =
     (if t > 0 then Inr (ExactMultipleSize t)
      else Inl (AssertionError ''target_num_rows_per_block must be positive''))"

fun can_build_ready_bundle :: "strategy \<Rightarrow> int \<Rightarrow> bool" where
  "can_build_ready_bundle (EstimateSize m) num_pending_rows =
     (num_pending_rows > 0 \<and> (case m of None \<Rightarrow> True | Some k \<Rightarrow> num_pending_rows \<ge> k))"
| "can_build_ready_bundle (ExactMultipleSize t) num_pending_rows = (num_pending_rows \<ge> t)"

fun rows_needed_from_last :: "strategy \<Rightarrow> int \<Rightarrow> ref_bundle \<Rightarrow> int result" where
  "rows_needed_from_last (EstimateSize m) total_pending b = Inr (rows_or_0 b)"
| "rows_needed_from_last (ExactMultipleSize t) total_pending b =
     (let pending_rows = rows_or_0 b; extra_rows = total_pending mod t
      in if \<not> total_pending - pending_rows < t then Inl (AssertionError ''Total pending rows should be less than target'')
         else if \<not> extra_rows < pending_rows then Inl (AssertionError ''extra_rows < pending_rows'')
         else Inr (pending_rows - extra_rows))"

subsection \<open>The queue\<close>

record rebundle_queue = queue_metrics +
  rb_strategy :: strategy
  rb_pending :: "ref_bundle list"
  rb_ready :: "ref_bundle list"
  rb_curr_consumed :: "ref_bundle list"
  rb_consumed_list :: "ref_bundle list list"
  rb_total_pending :: int

definition rb_init :: "strategy \<Rightarrow> rebundle_queue" where
  "rb_init s = \<lparr>q_nbytes = 0, q_num_blocks = 0, q_num_bundles = 0, q_num_rows = 0, rb_strategy = s,
     rb_pending = [], rb_ready = [], rb_curr_consumed = [], rb_consumed_list = [], rb_total_pending = 0\<rparr>"

definition merge_bundles :: "rebundle_queue \<Rightarrow> rebundle_queue result" where
  "merge_bundles q =
     rbind (merge_ref_bundles (rb_pending q)) (\<lambda>m.
       let q1 = on_enqueue_bundle m (q\<lparr>rb_ready := rb_ready q @ [m]\<rparr>);
           q2 = fold on_dequeue_bundle (rb_pending q1) q1
       in Inr (q2\<lparr>rb_pending := [], rb_total_pending := 0\<rparr>))"

text \<open>The last pending bundle is kept, or sliced with its rest put back in front.\<close>

definition build_from_last :: "rebundle_queue \<Rightarrow> rebundle_queue result" where
  "build_from_last q =
     (let lst = last (rb_pending q); q1 = q\<lparr>rb_pending := butlast (rb_pending q)\<rparr>
      in rbind (rows_needed_from_last (rb_strategy q) (rb_total_pending q) lst) (\<lambda>rows_needed.
           if \<not> rows_needed > 0 then Inl (AssertionError ''A refbundle has zero row-count but triggered building a ready bundle'')
           else if rows_needed < rows_or_0 lst
           then rbind (bundle_slice lst rows_needed) (\<lambda>(sliced, remaining).
                  let q2 = on_enqueue_bundle sliced (on_dequeue_bundle lst q1)
                  in rbind (merge_bundles (q2\<lparr>rb_pending := rb_pending q2 @ [sliced]\<rparr>)) (\<lambda>q3.
                       Inr (on_enqueue_bundle remaining
                         (q3\<lparr>rb_pending := remaining # rb_pending q3,
                             rb_total_pending := rb_total_pending q3 + rows_or_0 remaining\<rparr>))))
           else if rows_needed \<noteq> rows_or_0 lst then Inl (AssertionError ''rows_needed == last_num_rows'')
           else merge_bundles (q1\<lparr>rb_pending := rb_pending q1 @ [lst]\<rparr>)))"

definition try_build_ready_bundle :: "bool \<Rightarrow> rebundle_queue \<Rightarrow> (rebundle_queue \<times> nat) result" where
  "try_build_ready_bundle flush_remaining q =
     rbind (if rb_pending q \<noteq> [] \<and> can_build_ready_bundle (rb_strategy q) (rb_total_pending q)
            then rbind (build_from_last q) (\<lambda>q'. Inr (q', 1)) else Inr (q, 0))
       (\<lambda>(q1, built).
          if flush_remaining \<and> rb_pending q1 \<noteq> []
          then rbind (merge_bundles q1) (\<lambda>q2. Inr (q2, built + 1)) else Inr (q1, built))"

definition close_consumed :: "rebundle_queue \<Rightarrow> rebundle_queue" where
  "close_consumed q = q\<lparr>rb_consumed_list := rb_consumed_list q @ [rb_curr_consumed q], rb_curr_consumed := []\<rparr>"

definition rb_add :: "ref_bundle \<Rightarrow> rebundle_queue \<Rightarrow> rebundle_queue result" where
  "rb_add b q =
     (let n = rows_or_0 b
      in if n = 0 then
           (if rb_pending q \<noteq> [] then
              (let lst = last (rb_pending q);
                   q1 = on_dequeue_bundle lst (q\<lparr>rb_pending := butlast (rb_pending q)\<rparr>)
               in rbind (merge_ref_bundles [lst, b]) (\<lambda>m.
                    Inr (on_enqueue_bundle m (q1\<lparr>rb_pending := rb_pending q1 @ [m]\<rparr>))))
            else Inr (on_enqueue_bundle b (q\<lparr>rb_pending := rb_pending q @ [b]\<rparr>)))
         else
           (let q1 = on_enqueue_bundle b (q\<lparr>rb_total_pending := rb_total_pending q + n, rb_pending := rb_pending q @ [b]\<rparr>);
                q2 = q1\<lparr>rb_curr_consumed := rb_curr_consumed q1 @ [b]\<rparr>
            in rbind (try_build_ready_bundle False q2) (\<lambda>(q3, built).
                 if built > 0 then (if built \<noteq> 1 then Inl (AssertionError ''ready_bundles_built == 1'') else Inr (close_consumed q3))
                 else Inr q3)))"

definition rb_has_next :: "rebundle_queue \<Rightarrow> bool" where
  "rb_has_next q \<longleftrightarrow> length (rb_ready q) > 0"

definition rb_get_next_with_original :: "rebundle_queue \<Rightarrow> ((ref_bundle \<times> ref_bundle list) \<times> rebundle_queue) result" where
  "rb_get_next_with_original q =
     (case rb_ready q of
        [] \<Rightarrow> Inl (ValueError ''pop from empty queue'')
      | r # rs \<Rightarrow>
          (let q1 = on_dequeue_bundle r (q\<lparr>rb_ready := rs\<rparr>)
           in case rb_consumed_list q1 of
                [] \<Rightarrow> Inl IndexError
              | c # cs \<Rightarrow> Inr ((r, c), q1\<lparr>rb_consumed_list := cs\<rparr>)))"

text \<open>\<open>get_next\<close> of the base class, over \<open>_get_next_inner\<close>, which discards the originals.\<close>

definition rb_get_next :: "rebundle_queue \<Rightarrow> (ref_bundle \<times> rebundle_queue) result" where
  "rb_get_next q =
     (case rb_ready q of
        [] \<Rightarrow> Inl (ValueError ''pop from empty queue'')
      | r # rs \<Rightarrow>
          (case rb_consumed_list q of
             [] \<Rightarrow> Inl IndexError
           | c # cs \<Rightarrow> Inr (r, on_dequeue_bundle r (q\<lparr>rb_ready := rs, rb_consumed_list := cs\<rparr>))))"

definition rb_peek_next :: "rebundle_queue \<Rightarrow> ref_bundle option" where
  "rb_peek_next q = (case rb_ready q of [] \<Rightarrow> None | r # _ \<Rightarrow> Some r)"

definition rb_finalize :: "rebundle_queue \<Rightarrow> rebundle_queue result" where
  "rb_finalize q =
     (if length (rb_pending q) > 0
      then rbind (try_build_ready_bundle True q) (\<lambda>(q1, built).
             if built \<noteq> 1 then Inl (AssertionError ''ready_bundles_built == 1'') else Inr (close_consumed q1))
      else Inr q)"

definition rb_clear :: "rebundle_queue \<Rightarrow> rebundle_queue" where
  "rb_clear q = (reset_metrics q)\<lparr>rb_pending := [], rb_ready := [], rb_curr_consumed := [],
     rb_consumed_list := [], rb_total_pending := 0\<rparr>"

subsection \<open>Frame lemmas\<close>

lemma rb_metrics_frame [simp]:
  "rb_strategy (on_enqueue_bundle b q) = rb_strategy q" "rb_strategy (on_dequeue_bundle b q) = rb_strategy q"
  "rb_pending (on_enqueue_bundle b q) = rb_pending q" "rb_pending (on_dequeue_bundle b q) = rb_pending q"
  "rb_ready (on_enqueue_bundle b q) = rb_ready q" "rb_ready (on_dequeue_bundle b q) = rb_ready q"
  "rb_curr_consumed (on_enqueue_bundle b q) = rb_curr_consumed q" "rb_curr_consumed (on_dequeue_bundle b q) = rb_curr_consumed q"
  "rb_consumed_list (on_enqueue_bundle b q) = rb_consumed_list q" "rb_consumed_list (on_dequeue_bundle b q) = rb_consumed_list q"
  "rb_total_pending (on_enqueue_bundle b q) = rb_total_pending q" "rb_total_pending (on_dequeue_bundle b q) = rb_total_pending q"
  by (simp_all add: on_enqueue_bundle_def on_dequeue_bundle_def)

lemma metrics_rb [simp]:
  "metrics (q\<lparr>rb_pending := x\<rparr>) = metrics q" "metrics (q\<lparr>rb_ready := x\<rparr>) = metrics q"
  "metrics (q\<lparr>rb_curr_consumed := x\<rparr>) = metrics q" "metrics (q\<lparr>rb_consumed_list := y\<rparr>) = metrics q"
  "metrics (q\<lparr>rb_total_pending := n\<rparr>) = metrics q"
  by (simp_all add: queue_metrics.defs)

lemma dequeue_all_frame [simp]:
  "rb_strategy (fold on_dequeue_bundle bs q) = rb_strategy q"
  "rb_ready (fold on_dequeue_bundle bs q) = rb_ready q"
  "rb_curr_consumed (fold on_dequeue_bundle bs q) = rb_curr_consumed q"
  "rb_consumed_list (fold on_dequeue_bundle bs q) = rb_consumed_list q"
  by (induction bs arbitrary: q) simp_all

lemma metrics_dequeue_all:
  "metrics q = metrics_of (xs @ ys) \<Longrightarrow> metrics (fold on_dequeue_bundle ys q) = metrics_of xs"
proof (induction ys arbitrary: q)
  case (Cons y ys)
  then show ?case using metrics_on_dequeue [of q xs y ys] by simp
qed simp

subsection \<open>The invariant\<close>

abbreviation known :: "ref_bundle \<Rightarrow> bool" where
  "known b \<equiv> num_rows b \<noteq> None"

lemma rows_or_0_length: "valid_bundle b \<Longrightarrow> known b \<Longrightarrow> rows_or_0 b = int (length (bundle_rows b))"
  using num_rows_length [of b] by (auto simp: rows_or_0_def)

lemma sum_rows_length:
  "list_all valid_bundle bs \<Longrightarrow> list_all known bs \<Longrightarrow>
   sum_list (map rows_or_0 bs) = int (length (concat (map bundle_rows bs)))"
  by (induction bs) (simp_all add: rows_or_0_length)

fun strategy_ok :: "strategy \<Rightarrow> bool" where
  "strategy_ok (EstimateSize m) = (case m of None \<Rightarrow> True | Some k \<Rightarrow> 0 \<le> k)"
| "strategy_ok (ExactMultipleSize t) = (0 < t)"

text \<open>What the strategy promises of a ready bundle.\<close>

fun ready_size :: "strategy \<Rightarrow> ref_bundle \<Rightarrow> bool" where
  "ready_size (EstimateSize m) b \<longleftrightarrow> 0 < rows_or_0 b \<and> (case m of None \<Rightarrow> True | Some k \<Rightarrow> k \<le> rows_or_0 b)"
| "ready_size (ExactMultipleSize t) b \<longleftrightarrow> t \<le> rows_or_0 b \<and> t dvd rows_or_0 b"

definition pending_ok :: "rebundle_queue \<Rightarrow> bool" where
  "pending_ok q \<longleftrightarrow> strategy_ok (rb_strategy q) \<and> list_all valid_bundle (rb_ready q @ rb_pending q) \<and>
     list_all known (rb_ready q @ rb_pending q) \<and> rb_total_pending q = sum_list (map rows_or_0 (rb_pending q)) \<and>
     metrics q = metrics_of (rb_ready q @ rb_pending q)"

definition rb_inv :: "rebundle_queue \<Rightarrow> bool" where
  "rb_inv q \<longleftrightarrow> pending_ok q \<and> \<not> can_build_ready_bundle (rb_strategy q) (rb_total_pending q) \<and>
     length (rb_consumed_list q) = length (rb_ready q)"

abbreviation rows_of :: "ref_bundle list \<Rightarrow> row_unit list" where
  "rows_of bs \<equiv> concat (map bundle_rows bs)"

lemma merge_bundles_ok:
  assumes "pending_ok q" and "rb_pending q \<noteq> []"
  shows "\<exists>m q'. merge_bundles q = Inr q' \<and> pending_ok q' \<and> rb_ready q' = rb_ready q @ [m] \<and> rb_pending q' = [] \<and>
    rb_total_pending q' = 0 \<and> bundle_rows m = rows_of (rb_pending q) \<and> rows_or_0 m = rb_total_pending q \<and>
    rb_strategy q' = rb_strategy q \<and> rb_consumed_list q' = rb_consumed_list q \<and> rb_curr_consumed q' = rb_curr_consumed q"
proof -
  let ?p = "rb_pending q"
  have v: "list_all valid_bundle ?p" "list_all known ?p" using assms(1) by (simp_all add: pending_ok_def)
  obtain m where m: "merge_ref_bundles ?p = Inr m" "valid_bundle m" "bundle_rows m = rows_of ?p"
    using merge_ok [OF assms(2) v(1)] by blast
  have nr: "num_rows m = Some (rb_total_pending q)"
    using merge_num_rows [OF m(1) v(1) assms(2) v(2)] assms(1) by (simp add: pending_ok_def)
  let ?q1 = "on_enqueue_bundle m (q\<lparr>rb_ready := rb_ready q @ [m]\<rparr>)"
  let ?q = "(fold on_dequeue_bundle ?p ?q1)\<lparr>rb_pending := [], rb_total_pending := 0\<rparr>"
  have "metrics ?q1 = metrics_of ((rb_ready q @ ?p) @ [m])"
    using assms(1) by (intro metrics_on_enqueue) (simp add: pending_ok_def)
  also have "\<dots> = metrics_of ((rb_ready q @ [m]) @ ?p)" by (rule metrics_of_perm) simp
  finally have "metrics ?q1 = metrics_of ((rb_ready q @ [m]) @ ?p)" .
  from metrics_dequeue_all [OF this] have mets: "metrics ?q = metrics_of (rb_ready q @ [m])" by simp
  have "merge_bundles q = Inr ?q" using m(1) by (simp add: merge_bundles_def Let_def)
  moreover have "pending_ok ?q" using assms(1) m(2) nr mets by (simp add: pending_ok_def)
  ultimately show ?thesis using m nr by (intro exI [of _ m] exI [of _ ?q]) (simp add: rows_or_0_def)
qed

text \<open>Merging does not read the count of pending rows.\<close>

lemma total_commute:
  "on_enqueue_bundle b (q\<lparr>rb_total_pending := t\<rparr>) = (on_enqueue_bundle b q)\<lparr>rb_total_pending := t\<rparr>"
  "on_dequeue_bundle b (q\<lparr>rb_total_pending := t\<rparr>) = (on_dequeue_bundle b q)\<lparr>rb_total_pending := t\<rparr>"
  by (cases q; simp add: on_enqueue_bundle_def on_dequeue_bundle_def)+

lemma dequeue_all_total:
  "fold on_dequeue_bundle bs (q\<lparr>rb_total_pending := t\<rparr>) = (fold on_dequeue_bundle bs q)\<lparr>rb_total_pending := t\<rparr>"
  by (induction bs arbitrary: q) (simp_all add: total_commute)

lemma merge_bundles_total: "merge_bundles (q\<lparr>rb_total_pending := t\<rparr>) = merge_bundles q"
proof -
  have "on_enqueue_bundle m (q\<lparr>rb_total_pending := t, rb_ready := r\<rparr>) =
      (on_enqueue_bundle m (q\<lparr>rb_ready := r\<rparr>))\<lparr>rb_total_pending := t\<rparr>" for m r
    unfolding total_commute [symmetric] by (cases q) simp
  then show ?thesis
    by (cases "merge_ref_bundles (rb_pending q)")
      (simp_all add: merge_bundles_def Let_def dequeue_all_total)
qed

text \<open>Before the last bundle arrived no ready bundle could be built, now one can.\<close>

lemma rows_needed_ok:
  assumes "strategy_ok s" and "0 < n" and "rows_or_0 b = n" and "\<not> can_build_ready_bundle s prev"
    and "can_build_ready_bundle s (prev + n)" and "0 \<le> prev"
  shows "\<exists>k. rows_needed_from_last s (prev + n) b = Inr k \<and> 0 < k \<and> k \<le> n \<and>
    \<not> can_build_ready_bundle s (n - k) \<and>
    (case s of EstimateSize m \<Rightarrow> k = n | ExactMultipleSize t \<Rightarrow> t dvd prev + k \<and> t \<le> prev + k)"
proof (cases s)
  case (EstimateSize m)
  then show ?thesis using assms by simp
next
  case (ExactMultipleSize t)
  let ?x = "(prev + n) mod t"
  have t: "0 < t" "prev < t" "t \<le> prev + n" using assms ExactMultipleSize by simp_all
  have x: "0 \<le> ?x" "?x < t" using t(1) by simp_all
  have d: "t dvd prev + n - ?x" by (rule dvd_minus_mod)
  have "0 < prev + n - ?x" using x t(3) by linarith
  then have le: "t \<le> prev + n - ?x" using d by (rule zdvd_imp_le [rotated])
  then have "?x < n" using t(2) by linarith
  moreover have "rows_needed_from_last s (prev + n) b = Inr (n - ?x)"
    using ExactMultipleSize assms(3) t(2) \<open>?x < n\<close> by simp
  moreover have "prev + (n - ?x) = prev + n - ?x" by simp
  moreover have "\<not> can_build_ready_bundle s (n - (n - ?x))" using ExactMultipleSize x(2) by simp
  ultimately show ?thesis
    using ExactMultipleSize x(1) d le by (intro exI [of _ "n - ?x"]) (simp only: strategy.case, simp)
qed

lemma build_from_last_ok:
  assumes "pending_ok q" and "rb_pending q = ps @ [b]" and "0 < rows_or_0 b"
    and "\<not> can_build_ready_bundle (rb_strategy q) (rb_total_pending q - rows_or_0 b)"
    and "can_build_ready_bundle (rb_strategy q) (rb_total_pending q)"
  shows "\<exists>m q'. build_from_last q = Inr q' \<and> pending_ok q' \<and> rb_ready q' = rb_ready q @ [m] \<and>
    \<not> can_build_ready_bundle (rb_strategy q) (rb_total_pending q') \<and> ready_size (rb_strategy q) m \<and>
    bundle_rows m @ rows_of (rb_pending q') = rows_of (rb_pending q) \<and> rb_strategy q' = rb_strategy q \<and>
    rb_consumed_list q' = rb_consumed_list q \<and> rb_curr_consumed q' = rb_curr_consumed q"
proof -
  let ?n = "rows_or_0 b" and ?prev = "sum_list (map rows_or_0 ps)" and ?s = "rb_strategy q"
  have ok: "strategy_ok ?s" "list_all valid_bundle (ps @ [b])" "list_all known (ps @ [b])"
    "rb_total_pending q = ?prev + ?n" "list_all valid_bundle (rb_ready q)" "list_all known (rb_ready q)"
    "metrics q = metrics_of (rb_ready q @ ps @ [b])"
    using assms(1,2) by (simp_all add: pending_ok_def)
  have "0 \<le> ?prev" using sum_rows_length [of ps] ok(2,3) by simp
  then obtain k where k: "rows_needed_from_last ?s (?prev + ?n) b = Inr k" "0 < k" "k \<le> ?n"
      "\<not> can_build_ready_bundle ?s (?n - k)"
      "case ?s of EstimateSize m \<Rightarrow> k = ?n | ExactMultipleSize t \<Rightarrow> t dvd ?prev + k \<and> t \<le> ?prev + k"
    using rows_needed_ok [OF ok(1) assms(3) refl, of ?prev] assms(4,5) ok(4) by auto
  have size: "ready_size ?s m" if "rows_or_0 m = ?prev + k" for m
    using that k(5) assms(5) ok(4) by (cases ?s) (auto split: option.splits)
  show ?thesis
  proof (cases "k < ?n")
    case False
    then have kn: "k = ?n" using k(3) by simp
    have q: "q\<lparr>rb_pending := ps @ [b]\<rparr> = q" using assms(2) by (cases q) simp
    have "build_from_last q = merge_bundles (q\<lparr>rb_pending := ps @ [b]\<rparr>)"
      using k(1,2) kn assms(2) ok(4) by (simp add: build_from_last_def Let_def)
    then have "build_from_last q = merge_bundles q" unfolding q .
    moreover obtain m q' where m: "merge_bundles q = Inr q'" "pending_ok q'" "rb_ready q' = rb_ready q @ [m]"
        "rb_pending q' = []" "rb_total_pending q' = 0" "bundle_rows m = rows_of (rb_pending q)"
        "rows_or_0 m = rb_total_pending q" "rb_strategy q' = ?s" "rb_consumed_list q' = rb_consumed_list q"
        "rb_curr_consumed q' = rb_curr_consumed q"
      using merge_bundles_ok [OF assms(1)] assms(2) by auto
    ultimately show ?thesis
      using k(4) kn size [of m] ok(4) by (intro exI [of _ m] exI [of _ q']) simp
  next
    case True
    obtain n where n: "num_rows b = Some n" "?n = n" using ok(3) by (auto simp: rows_or_0_def)
    obtain s r where sr: "bundle_slice b k = Inr (s, r)" "valid_bundle s" "valid_bundle r"
        "bundle_rows s = take (nat k) (bundle_rows b)" "bundle_rows r = drop (nat k) (bundle_rows b)"
        "num_rows s = Some k" "num_rows r = Some (n - k)"
      using bundle_slice_ok [of b n k] ok(2) n k(2) True by auto
    let ?q2 = "(on_enqueue_bundle s (on_dequeue_bundle b (q\<lparr>rb_pending := ps\<rparr>)))\<lparr>rb_pending := ps @ [s]\<rparr>"
    let ?q3 = "?q2\<lparr>rb_total_pending := ?prev + k\<rparr>"
    have mets: "metrics ?q2 = metrics_of (rb_ready q @ ps @ [s])"
      using metrics_on_enqueue [OF metrics_on_dequeue [of "q\<lparr>rb_pending := ps\<rparr>" "rb_ready q @ ps" b "[]"], of s] ok(7) by simp
    have p3: "pending_ok ?q3"
      using ok sr(2,6) mets by (simp add: pending_ok_def rows_or_0_def)
    have same: "merge_bundles ?q2 = merge_bundles ?q3" by (simp add: merge_bundles_total)
    obtain m q' where m: "merge_bundles ?q3 = Inr q'" "pending_ok q'" "rb_ready q' = rb_ready q @ [m]"
        "rb_pending q' = []" "rb_total_pending q' = 0" "bundle_rows m = rows_of (ps @ [s])"
        "rows_or_0 m = ?prev + k" "rb_strategy q' = ?s" "rb_consumed_list q' = rb_consumed_list q"
        "rb_curr_consumed q' = rb_curr_consumed q"
      using merge_bundles_ok [OF p3] by auto
    let ?q' = "on_enqueue_bundle r (q'\<lparr>rb_pending := [r], rb_total_pending := ?n - k\<rparr>)"
    have "build_from_last q = Inr ?q'"
      using k(1,2) True assms(2) ok(4) sr(1,7) m(1,4,5) same n
      by (simp add: build_from_last_def Let_def rows_or_0_def)
    moreover have "pending_ok ?q'"
      using m(2-5,8) sr(3,7) n metrics_on_enqueue [of q' "rb_ready q'" r]
        metrics_on_enqueue [of "q'\<lparr>rb_pending := [r], rb_total_pending := ?n - k\<rparr>" "rb_ready q'" r]
      by (simp add: pending_ok_def rows_or_0_def)
    moreover have "bundle_rows m @ rows_of [r] = rows_of (rb_pending q)"
      using m(6) sr(4,5) assms(2) by simp
    ultimately show ?thesis
      using m k(4) size [of m] by (intro exI [of _ m] exI [of _ ?q']) simp
  qed
qed

lemma close_consumed_fields [simp]:
  "rb_ready (close_consumed q) = rb_ready q" "rb_pending (close_consumed q) = rb_pending q"
  "rb_strategy (close_consumed q) = rb_strategy q" "rb_total_pending (close_consumed q) = rb_total_pending q"
  "length (rb_consumed_list (close_consumed q)) = Suc (length (rb_consumed_list q))"
  "pending_ok (close_consumed q) = pending_ok q"
  by (simp_all add: close_consumed_def pending_ok_def)

definition added_ok :: "rebundle_queue \<Rightarrow> ref_bundle \<Rightarrow> rebundle_queue \<Rightarrow> bool" where
  "added_ok q b q' \<longleftrightarrow> rb_inv q' \<and> rb_strategy q' = rb_strategy q \<and>
     (\<exists>new. rb_ready q' = rb_ready q @ new \<and> list_all (ready_size (rb_strategy q)) new \<and>
        rows_of new @ rows_of (rb_pending q') = rows_of (rb_pending q) @ bundle_rows b)"

lemma rb_add_empty:
  assumes "rb_inv q" and "valid_bundle b" and "known b" and "rows_or_0 b = 0"
  shows "\<exists>q'. rb_add b q = Inr q' \<and> added_ok q b q'"
proof -
  have rows: "bundle_rows b = []" using rows_or_0_length [OF assms(2,3)] assms(4) by simp
  have p: "pending_ok q" using assms(1) by (simp add: rb_inv_def)
  show ?thesis
  proof (cases "rb_pending q" rule: rev_cases)
    case Nil
    let ?q = "on_enqueue_bundle b (q\<lparr>rb_pending := [b]\<rparr>)"
    have "metrics ?q = metrics_of (rb_ready q @ [b])"
      using metrics_on_enqueue [of "q\<lparr>rb_pending := [b]\<rparr>" "rb_ready q" b] p Nil by (simp add: pending_ok_def)
    moreover have "rb_add b q = Inr ?q" using assms(4) Nil by (simp add: rb_add_def Let_def)
    ultimately show ?thesis
      using assms p Nil rows by (auto simp: added_ok_def rb_inv_def pending_ok_def)
  next
    case (snoc ps l)
    have l: "valid_bundle l" "known l" "list_all valid_bundle ps" "list_all known ps"
      using p snoc by (auto simp: pending_ok_def)
    obtain m where m: "merge_ref_bundles [l, b] = Inr m" "valid_bundle m" "bundle_rows m = bundle_rows l"
      using merge_ok [of "[l, b]"] l(1) assms(2) rows by auto
    have nm: "num_rows m = Some (rows_or_0 l)"
      using merge_num_rows [OF m(1)] l assms(2-4) by simp
    let ?q1 = "on_dequeue_bundle l (q\<lparr>rb_pending := ps\<rparr>)"
    let ?q = "on_enqueue_bundle m (?q1\<lparr>rb_pending := ps @ [m]\<rparr>)"
    have "metrics ?q1 = metrics_of ((rb_ready q @ ps) @ [])"
      using p snoc by (intro metrics_on_dequeue) (simp add: pending_ok_def)
    then have mets: "metrics ?q = metrics_of (rb_ready q @ ps @ [m])"
      using metrics_on_enqueue [of "?q1\<lparr>rb_pending := ps @ [m]\<rparr>" "rb_ready q @ ps" m] by simp
    have "rb_add b q = Inr ?q" using assms(4) snoc m(1) by (simp add: rb_add_def Let_def)
    then show ?thesis
      using assms(1) snoc m(2,3) nm mets rows by (auto simp: added_ok_def rb_inv_def pending_ok_def rows_or_0_def)
  qed
qed

lemma rb_add_rows:
  assumes "rb_inv q" and "valid_bundle b" and "known b" and "0 < rows_or_0 b"
  shows "\<exists>q'. rb_add b q = Inr q' \<and> added_ok q b q'"
proof -
  let ?n = "rows_or_0 b"
  have p: "pending_ok q" and nc: "\<not> can_build_ready_bundle (rb_strategy q) (rb_total_pending q)"
    and len: "length (rb_consumed_list q) = length (rb_ready q)"
    using assms(1) by (simp_all add: rb_inv_def)
  let ?q1 = "on_enqueue_bundle b (q\<lparr>rb_total_pending := rb_total_pending q + ?n, rb_pending := rb_pending q @ [b]\<rparr>)"
  let ?q2 = "?q1\<lparr>rb_curr_consumed := rb_curr_consumed q @ [b]\<rparr>"
  have "metrics ?q2 = metrics_of ((rb_ready q @ rb_pending q) @ [b])"
    using p metrics_on_enqueue [of "q\<lparr>rb_total_pending := rb_total_pending q + ?n, rb_pending := rb_pending q @ [b]\<rparr>"]
    by (simp add: pending_ok_def)
  then have p2: "pending_ok ?q2" using p assms(2,3) by (simp add: pending_ok_def)
  have add: "rb_add b q = rbind (try_build_ready_bundle False ?q2) (\<lambda>(q3, built).
      if built > 0 then (if built \<noteq> 1 then Inl (AssertionError ''ready_bundles_built == 1'') else Inr (close_consumed q3))
      else Inr q3)"
    using assms(4) by (simp add: rb_add_def Let_def)
  show ?thesis
  proof (cases "can_build_ready_bundle (rb_strategy q) (rb_total_pending q + ?n)")
    case False
    then have "rb_add b q = Inr ?q2" unfolding add by (simp add: try_build_ready_bundle_def)
    moreover have "added_ok q b ?q2" using p2 False len by (simp add: added_ok_def rb_inv_def)
    ultimately show ?thesis by blast
  next
    case True
    obtain m q' where b: "build_from_last ?q2 = Inr q'" "pending_ok q'" "rb_ready q' = rb_ready q @ [m]"
        "\<not> can_build_ready_bundle (rb_strategy q) (rb_total_pending q')" "ready_size (rb_strategy q) m"
        "bundle_rows m @ rows_of (rb_pending q') = rows_of (rb_pending q @ [b])" "rb_strategy q' = rb_strategy q"
        "rb_consumed_list q' = rb_consumed_list q"
      using build_from_last_ok [OF p2, of "rb_pending q" b] assms(4) nc True by auto
    have "rb_add b q = Inr (close_consumed q')"
      unfolding add using b(1) True by (simp add: try_build_ready_bundle_def)
    moreover have "added_ok q b (close_consumed q')"
      unfolding added_ok_def using b len by (simp add: rb_inv_def)
    ultimately show ?thesis by blast
  qed
qed

lemma rb_add_ok:
  "rb_inv q \<Longrightarrow> valid_bundle b \<Longrightarrow> known b \<Longrightarrow> \<exists>q'. rb_add b q = Inr q' \<and> added_ok q b q'"
  using rb_add_empty [of q b] rb_add_rows [of q b] rows_or_0_length [of b] by (cases "rows_or_0 b = 0") auto

lemma rb_get_ok:
  assumes "rb_inv q" and "rb_get_next q = Inr (b, q')"
  shows "rb_inv q'" and "rb_ready q = b # rb_ready q'" and "rb_pending q' = rb_pending q"
    and "rb_strategy q' = rb_strategy q"
proof -
  obtain rs c cs where c: "rb_ready q = b # rs" "rb_consumed_list q = c # cs"
      "q' = on_dequeue_bundle b (q\<lparr>rb_ready := rs, rb_consumed_list := cs\<rparr>)"
    using assms(2) by (auto simp: rb_get_next_def split: list.splits)
  then show fields: "rb_ready q = b # rb_ready q'" "rb_pending q' = rb_pending q" "rb_strategy q' = rb_strategy q" by simp_all
  have "metrics q' = metrics_of ([] @ rs @ rb_pending q)"
    unfolding c(3) using assms(1) c(1) by (intro metrics_on_dequeue) (simp add: rb_inv_def pending_ok_def)
  then show "rb_inv q'"
    using assms(1) c by (auto simp: rb_inv_def pending_ok_def)
qed

lemma rb_finalize_ok:
  assumes "rb_inv q"
  shows "\<exists>q' new. rb_finalize q = Inr q' \<and> rb_inv q' \<and> rb_strategy q' = rb_strategy q \<and> rb_pending q' = [] \<and> rb_ready q' = rb_ready q @ new \<and>
    length new \<le> 1 \<and> rows_of new = rows_of (rb_pending q) \<and> list_all (\<lambda>m. rows_or_0 m = rb_total_pending q) new"
proof (cases "rb_pending q = []")
  case True
  then show ?thesis using assms by (auto simp: rb_finalize_def)
next
  case False
  have p: "pending_ok q" and nc: "\<not> can_build_ready_bundle (rb_strategy q) (rb_total_pending q)"
    using assms by (simp_all add: rb_inv_def)
  obtain m q' where m: "merge_bundles q = Inr q'" "pending_ok q'" "rb_ready q' = rb_ready q @ [m]"
      "rb_pending q' = []" "rb_total_pending q' = 0" "bundle_rows m = rows_of (rb_pending q)"
      "rows_or_0 m = rb_total_pending q" "rb_strategy q' = rb_strategy q" "rb_consumed_list q' = rb_consumed_list q"
    using merge_bundles_ok [OF p False] by blast
  have "\<not> can_build_ready_bundle (rb_strategy q) 0"
    using p by (cases "rb_strategy q") (auto simp: pending_ok_def)
  moreover have "rb_finalize q = Inr (close_consumed q')"
    using False nc m(1) by (simp add: rb_finalize_def try_build_ready_bundle_def)
  ultimately show ?thesis
    using m assms by (intro exI [of _ "close_consumed q'"] exI [of _ "[m]"]) (simp add: rb_inv_def)
qed

lemma rb_get_original: "rb_get_next q = map_sum id (\<lambda>((r, _), q'). (r, q')) (rb_get_next_with_original q)"
  by (cases q) (simp add: rb_get_next_def rb_get_next_with_original_def on_dequeue_bundle_def Let_def split: list.split)

lemma rb_clear_ok: "rb_inv q \<Longrightarrow> rb_inv (rb_clear q) \<and> rb_strategy (rb_clear q) = rb_strategy q \<and> rb_ready (rb_clear q) = [] \<and> rb_pending (rb_clear q) = []"
proof -
  assume inv: "rb_inv q"
  have s: "rb_strategy (rb_clear q) = rb_strategy q" by (simp add: rb_clear_def reset_metrics_def)
  have "metrics (rb_clear q) = metrics_of []" using metrics_reset [of q] by (simp add: rb_clear_def)
  moreover have "strategy_ok (rb_strategy q)" using inv by (simp add: rb_inv_def pending_ok_def)
  moreover from this have "\<not> can_build_ready_bundle (rb_strategy q) 0" by (cases "rb_strategy q") auto
  ultimately show ?thesis by (simp add: rb_inv_def pending_ok_def s) (simp add: rb_clear_def)
qed

subsection \<open>Runs\<close>

text \<open>The states reached by any sequence of operations with valid bundles of known size, with the rows added
  and not cleared away, the bundles taken out so far and the number of calls of \<open>finalize\<close>.\<close>

inductive rb_run :: "strategy \<Rightarrow> rebundle_queue \<Rightarrow> row_unit list \<Rightarrow> ref_bundle list \<Rightarrow> nat \<Rightarrow> bool" for s where
  start: "strategy_ok s \<Longrightarrow> rb_run s (rb_init s) [] [] 0"
| add: "rb_run s q added out n \<Longrightarrow> valid_bundle b \<Longrightarrow> known b \<Longrightarrow> rb_add b q = Inr q' \<Longrightarrow>
    rb_run s q' (added @ bundle_rows b) out n"
| get: "rb_run s q added out n \<Longrightarrow> rb_get_next q = Inr (b, q') \<Longrightarrow> rb_run s q' added (out @ [b]) n"
| get_with_original: "rb_run s q added out n \<Longrightarrow> rb_get_next_with_original q = Inr ((b, bs), q') \<Longrightarrow> rb_run s q' added (out @ [b]) n"
| finalize: "rb_run s q added out n \<Longrightarrow> rb_finalize q = Inr q' \<Longrightarrow> rb_run s q' added out (Suc n)"
| clear: "rb_run s q added out n \<Longrightarrow> rb_run s (rb_clear q) (concat (map bundle_rows out)) out n"

lemma rb_init_inv: "strategy_ok s \<Longrightarrow> rb_inv (rb_init s)"
  by (cases s) (simp_all add: rb_inv_def pending_ok_def rb_init_def metrics_of_def queue_metrics.defs)

abbreviation odd_sized :: "strategy \<Rightarrow> ref_bundle list \<Rightarrow> ref_bundle list" where
  "odd_sized s bs \<equiv> filter (\<lambda>b. \<not> ready_size s b) bs"

lemma odd_sized_ready: "list_all (ready_size s) bs \<Longrightarrow> odd_sized s bs = []"
  by (simp add: list_all_iff filter_empty_conv)

definition run_ok :: "strategy \<Rightarrow> rebundle_queue \<Rightarrow> row_unit list \<Rightarrow> ref_bundle list \<Rightarrow> nat \<Rightarrow> bool" where
  "run_ok s q added out n \<longleftrightarrow> rb_inv q \<and> rb_strategy q = s \<and> length (odd_sized s (out @ rb_ready q)) \<le> n \<and>
     list_all (\<lambda>b. valid_bundle b \<and> known b) (out @ rb_ready q) \<and>
     added = rows_of out @ rows_of (rb_ready q) @ rows_of (rb_pending q)"

lemma ready_valid: "rb_inv q \<Longrightarrow> list_all (\<lambda>b. valid_bundle b \<and> known b) (rb_ready q)"
  by (auto simp: rb_inv_def pending_ok_def list_all_iff)

lemma rb_run_ok: "rb_run s q added out n \<Longrightarrow> run_ok s q added out n"
proof (induction rule: rb_run.induct)
  case start
  then show ?case by (simp add: run_ok_def rb_init_inv) (simp add: rb_init_def)
next
  case (add q added out n b q')
  then have a: "added_ok q b q'" using rb_add_ok [of q b] by (auto simp: run_ok_def)
  then have "rb_inv q'" by (simp add: added_ok_def)
  then have "list_all (\<lambda>b. valid_bundle b \<and> known b) (rb_ready q')" by (rule ready_valid)
  with add.IH a show ?case by (auto simp: run_ok_def added_ok_def odd_sized_ready)
next
  case (get q added out n b q')
  note g = rb_get_ok [OF _ get(2)]
  from get.IH g show ?case by (auto simp: run_ok_def)
next
  case (get_with_original q added out n b bs q')
  have "rb_get_next q = Inr (b, q')" using get_with_original(2) by (simp add: rb_get_original)
  note g = rb_get_ok [OF _ this]
  from get_with_original.IH g show ?case by (auto simp: run_ok_def)
next
  case (finalize q added out n q')
  obtain new where f: "rb_inv q'" "rb_strategy q' = rb_strategy q" "rb_pending q' = []" "rb_ready q' = rb_ready q @ new" "length new \<le> 1"
      "rows_of new = rows_of (rb_pending q)"
    using rb_finalize_ok [of q] finalize by (auto simp: run_ok_def)
  have "length (odd_sized s new) \<le> 1" using f(5) length_filter_le [of _ new] le_trans by blast
  with finalize.IH f ready_valid [OF f(1)] show ?case by (auto simp: run_ok_def)
next
  case (clear q added out n)
  then show ?case using rb_clear_ok [of q] by (auto simp: run_ok_def)
qed

lemma rb_sample_run:
  "\<exists>q. rb_add (sample_bundle 1 5) (rb_init (ExactMultipleSize 2)) = Inr q \<and>
     rb_run (ExactMultipleSize 2) q (bundle_rows (sample_bundle 1 5)) [] 0"
proof -
  have s: "rb_run (ExactMultipleSize 2) (rb_init (ExactMultipleSize 2)) [] [] 0" by (rule rb_run.start) simp
  obtain q where q: "rb_add (sample_bundle 1 5) (rb_init (ExactMultipleSize 2)) = Inr q"
    using rb_add_ok [of "rb_init (ExactMultipleSize 2)" "sample_bundle 1 5"] by (auto simp: rb_init_inv sample_bundle_valid)
  from rb_run.add [OF s _ _ q] q show ?thesis by (auto simp: sample_bundle_valid)
qed



text \<open>With an exact target, finalizing leaves the whole input cut into bundles of positive multiples
  of the target except for at most one last bundle, whose size is the remainder of the rows.\<close>

lemma rebundle_exact_final:
  assumes "rb_run (ExactMultipleSize t) q added out 0"
  shows "\<exists>q' tail. rb_finalize q = Inr q' \<and> rb_ready q' = rb_ready q @ tail \<and> length tail \<le> 1 \<and>
    rows_of (out @ rb_ready q') = added \<and>
    list_all (\<lambda>b. t \<le> rows_or_0 b \<and> t dvd rows_or_0 b) (out @ rb_ready q) \<and>
    list_all (\<lambda>b. rows_or_0 b = int (length added) mod t) tail"
proof -
  note run = rb_run_ok [OF assms, unfolded run_ok_def]
  then have inv: "rb_inv q" and p: "pending_ok q" and sizes: "list_all (ready_size (ExactMultipleSize t)) (out @ rb_ready q)"
    and rows: "added = rows_of out @ rows_of (rb_ready q) @ rows_of (rb_pending q)"
    by (auto simp: rb_inv_def list_all_iff filter_empty_conv)
  obtain q' new where f: "rb_finalize q = Inr q'" "rb_pending q' = []" "rb_ready q' = rb_ready q @ new" "length new \<le> 1"
      "rows_of new = rows_of (rb_pending q)" "list_all (\<lambda>m. rows_or_0 m = rb_total_pending q) new"
    using rb_finalize_ok [OF inv] by blast
  have dvd: "t dvd int (length (rows_of bs))" if "list_all (\<lambda>b. t dvd int (length (bundle_rows b))) bs" for bs
    using that by (induction bs) simp_all
  have "list_all (\<lambda>b. t dvd int (length (bundle_rows b))) (out @ rb_ready q)"
    using sizes run rows_or_0_length by (auto simp: list_all_iff)
  from dvd [OF this] obtain k where k: "int (length (rows_of (out @ rb_ready q))) = t * k" by (auto elim: dvdE)
  have tot: "rb_total_pending q = int (length (rows_of (rb_pending q)))"
    using sum_rows_length [of "rb_pending q"] p by (simp add: pending_ok_def)
  have "rb_total_pending q < t" using inv run by (simp add: rb_inv_def)
  moreover have "int (length added) = t * k + rb_total_pending q" using rows k tot by simp
  ultimately have "int (length added) mod t = rb_total_pending q" using tot by simp
  moreover have "ready_size (ExactMultipleSize t) = (\<lambda>b. t \<le> rows_or_0 b \<and> t dvd rows_or_0 b)" by (rule ext) simp
  ultimately show ?thesis using f sizes rows by (intro exI [of _ q'] exI [of _ new]) simp
qed

end
