(* ===== verification/Split_Blocks.thy ===== *)
theory Split_Blocks
  imports Ref_Bundle
begin

section \<open>Ray Data: splitting blocks at row indices\<close>

text \<open>
  Models \<open>ray/python/ray/data/_internal/split.py\<close>. Blocks live in an object store that maps
  references to their rows; a remote split reads one block and puts its parts under fresh
  references, and blocks owned by the consumer are freed once they are split. The
  specification is on rows: the parts that \<open>_split_at_indices\<close> returns are the rows of the
  input cut at the given indices.
\<close>

subsection \<open>The object store\<close>

record 'r obj_store =
  objs :: "(nat, 'r list) dict"
  next_ref :: nat

type_synonym partition = "(nat \<times> block_metadata) list"

definition ray_get :: "'r obj_store \<Rightarrow> nat \<Rightarrow> 'r list result" where
  "ray_get st r = (case map_of (objs st) r of None \<Rightarrow> Inl (RuntimeError ''object lost'') | Some rows \<Rightarrow> Inr rows)"

text \<open>The return values of one remote call get consecutive fresh references.\<close>

definition put_all :: "'r obj_store \<Rightarrow> 'r list list \<Rightarrow> nat list \<times> 'r obj_store" where
  "put_all st bs =
     (let refs = [next_ref st..<next_ref st + length bs]
      in (refs, \<lparr>objs = objs st @ zip refs bs, next_ref = next_ref st + length bs\<rparr>))"

definition free_all :: "nat list \<Rightarrow> 'r obj_store \<Rightarrow> 'r obj_store" where
  "free_all rs st = st\<lparr>objs := filter (\<lambda>(r, b). r \<notin> set rs) (objs st)\<rparr>"

subsection \<open>Row counts and indices\<close>

definition get_num_rows :: "'r obj_store \<Rightarrow> nat \<Rightarrow> int result" where
  "get_num_rows st r = rbind (ray_get st r) (\<lambda>rows. Inr (int (length rows)))"

definition calculate_blocks_rows :: "'r obj_store \<Rightarrow> partition \<Rightarrow> int list result" where
  "calculate_blocks_rows st bs =
     rmap (\<lambda>(b, m). case md_num_rows m of None \<Rightarrow> get_num_rows st b | Some n \<Rightarrow> Inr n) bs"

definition generate_valid_indices :: "int list \<Rightarrow> int list \<Rightarrow> int list" where
  "generate_valid_indices rows idx = (let total_rows = sum_list rows in map (\<lambda>i. min i total_rows) idx)"

text \<open>The loop over indices and blocks; the blocks still to come are the first argument, the offset of
  the current block and its indices so far the last two.\<close>

fun per_block_loop :: "int list \<Rightarrow> int list \<Rightarrow> int \<Rightarrow> int list \<Rightarrow> int list list result" where
  "per_block_loop [] [] off cur = Inr []"
| "per_block_loop (r # rs) [] off cur = Inr (cur # map (\<lambda>_. []) rs)"
| "per_block_loop [] (i # is) off cur = Inl IndexError"
| "per_block_loop (r # rs) (i # is) off cur =
     (if i - off \<le> r then per_block_loop (r # rs) is off (cur @ [i - off])
      else rbind (per_block_loop rs (i # is) (off + r) []) (\<lambda>l. Inr (cur # l)))"

definition generate_per_block_split_indices :: "int list \<Rightarrow> int list \<Rightarrow> int list list result" where
  "generate_per_block_split_indices rows idx = per_block_loop rows idx 0 []"

subsection \<open>Splitting one block\<close>

text \<open>\<open>BlockAccessor.slice\<close>.\<close>

definition accessor_slice :: "'r list \<Rightarrow> int \<Rightarrow> int \<Rightarrow> 'r list" where
  "accessor_slice rows a b = take (nat (b - a)) (drop (nat a) rows)"

fun slices_at :: "'r list \<Rightarrow> int \<Rightarrow> int list \<Rightarrow> 'r list list" where
  "slices_at rows prev [] = []"
| "slices_at rows prev (i # is) = accessor_slice rows prev i # slices_at rows i is"

definition block_meta :: "('r list \<Rightarrow> int) \<Rightarrow> 'r list \<Rightarrow> block_metadata" where
  "block_meta nbytes b = \<lparr>md_num_rows = Some (int (length b)), md_size_bytes = Some (nbytes b)\<rparr>"

text \<open>\<open>nbytes\<close> is \<open>BlockAccessor.size_bytes\<close>. An unknown row count as last index cannot be sliced.\<close>

definition split_single_block ::
    "('r list \<Rightarrow> int) \<Rightarrow> nat \<Rightarrow> 'r list \<Rightarrow> block_metadata \<Rightarrow> int list
     \<Rightarrow> ((nat \<times> block_metadata list) \<times> 'r list list) result" where
  "split_single_block nbytes block_id rows m idx =
     (case md_num_rows m of
        None \<Rightarrow> Inl (TypeError ''slice'')
      | Some n \<Rightarrow>
          (let split_blocks = slices_at rows 0 (idx @ [n])
           in Inr ((block_id, map (block_meta nbytes) split_blocks), split_blocks)))"

fun drop_empty_loop :: "int \<Rightarrow> int list \<Rightarrow> int option \<Rightarrow> int list" where
  "drop_empty_loop prev [] n = []"
| "drop_empty_loop prev (i # is) n =
     (if i = 0 \<or> Some i = n then drop_empty_loop prev is n
      else if i = prev then drop_empty_loop prev is n
      else i # drop_empty_loop i is n)"

definition drop_empty_block_split :: "int list \<Rightarrow> int option \<Rightarrow> int list" where
  "drop_empty_block_split idx n = drop_empty_loop (- 1) idx n"

subsection \<open>Splitting all blocks\<close>

text \<open>The parts of every block in order, the references that were split, and the store.\<close>

fun split_loop ::
    "('r list \<Rightarrow> int) \<Rightarrow> nat \<Rightarrow> partition \<Rightarrow> int list list \<Rightarrow> 'r obj_store
     \<Rightarrow> (partition list \<times> nat list \<times> 'r obj_store) result" where
  "split_loop nbytes bid [] [] st = Inr ([], [], st)"
| "split_loop nbytes bid [] (idx # idxs) st = Inl IndexError"
| "split_loop nbytes bid (b # bs) [] st = Inl (TypeError ''NoneType object is not iterable'')"
| "split_loop nbytes bid ((b, m) # bs) (idx # idxs) st =
     (let idx' = drop_empty_block_split idx (md_num_rows m)
      in if idx' = []
         then rbind (split_loop nbytes (bid + 1) bs idxs st) (\<lambda>(ps, done_refs, st'). Inr ([(b, m)] # ps, done_refs, st'))
         else
           rbind (ray_get st b) (\<lambda>rows.
           rbind (split_single_block nbytes bid rows m idx') (\<lambda>((_, metas), split_blocks).
             let (refs, st1) = put_all st split_blocks
             in rbind (split_loop nbytes (bid + 1) bs idxs st1) (\<lambda>(ps, done_refs, st').
                  Inr (zip refs metas # ps, b # done_refs, st')))))"

definition split_all_blocks ::
    "('r list \<Rightarrow> int) \<Rightarrow> partition \<Rightarrow> int list list \<Rightarrow> bool \<Rightarrow> 'r obj_store \<Rightarrow> (partition \<times> 'r obj_store) result" where
  "split_all_blocks nbytes bs idxs owned st =
     rbind (split_loop nbytes 0 bs idxs st) (\<lambda>(ps, blocks_splitted, st').
       Inr (concat ps, if owned then free_all blocks_splitted st' else st'))"

subsection \<open>Assembling the result\<close>

fun global_loop :: "partition \<Rightarrow> int list \<Rightarrow> partition \<Rightarrow> int \<Rightarrow> partition list result" where
  "global_loop bs [] cur n = Inr []"
| "global_loop [] (s # ss) cur n =
     (if n \<ge> s
      then (if n = s then rbind (global_loop [] ss [] 0) (\<lambda>r. Inr (cur # r))
            else Inl (AssertionError ''current_split_size == global_split_sizes''))
      else Inl StopIteration)"
| "global_loop ((b, m) # bs) (s # ss) cur n =
     (if n \<ge> s
      then (if n = s then rbind (global_loop ((b, m) # bs) ss [] 0) (\<lambda>r. Inr (cur # r))
            else Inl (AssertionError ''current_split_size == global_split_sizes''))
      else (case md_num_rows m of
              None \<Rightarrow> Inl (TypeError ''+='')
            | Some k \<Rightarrow> global_loop bs (s # ss) (cur @ [(b, m)]) (n + k)))"

definition generate_global_split_results ::
    "partition \<Rightarrow> int list \<Rightarrow> (nat list list \<times> block_metadata list list) result" where
  "generate_global_split_results bs sizes =
     rbind (global_loop bs sizes [] 0) (\<lambda>ps. Inr (map (map fst) ps, map (map snd) ps))"

text \<open>\<open>[helper[i] - helper[i - 1] for i in range(1, len(helper))]\<close>.\<close>

fun differences :: "int \<Rightarrow> int list \<Rightarrow> int list" where
  "differences prev [] = []"
| "differences prev (i # is) = (i - prev) # differences i is"

definition split_at_indices ::
    "('r list \<Rightarrow> int) \<Rightarrow> partition \<Rightarrow> int list \<Rightarrow> bool \<Rightarrow> int list option \<Rightarrow> 'r obj_store
     \<Rightarrow> ((nat list list \<times> block_metadata list list) \<times> 'r obj_store) result" where
  "split_at_indices nbytes bs indices owned block_rows st =
     (if bs = [] then Inr ((replicate (length indices + 1) [], replicate (length indices + 1) []), st)
      else
        rbind (case block_rows of None \<Rightarrow> calculate_blocks_rows st bs | Some r \<Rightarrow> Inr r) (\<lambda>rows.
          let valid_indices = generate_valid_indices rows indices
          in rbind (generate_per_block_split_indices rows valid_indices) (\<lambda>per_block.
             rbind (split_all_blocks nbytes bs per_block owned st) (\<lambda>(parts, st').
               let split_sizes = differences 0 (valid_indices @ [sum_list rows])
               in rbind (generate_global_split_results parts split_sizes) (\<lambda>r. Inr (r, st'))))))"

end
