(* ===== verification/Split_Props.thy ===== *)
theory Split_Props
  imports Split_Blocks
begin

section \<open>Splitting at indices cuts the rows\<close>

text \<open>
  The three phases of \<open>_split_at_indices\<close> against the rows: the per-block indices name every
  cut point, splitting the blocks keeps the rows and makes every cut point a boundary
  between two parts, and assembling parts up to the cut points then never overshoots.
\<close>

subsection \<open>Rows of a partition\<close>

definition rows_of_ref :: "'r obj_store \<Rightarrow> nat \<Rightarrow> 'r list" where
  "rows_of_ref st b = (case map_of (objs st) b of None \<Rightarrow> [] | Some rows \<Rightarrow> rows)"

definition part_rows :: "'r obj_store \<Rightarrow> partition \<Rightarrow> 'r list" where
  "part_rows st ps = concat (map (rows_of_ref st \<circ> fst) ps)"

definition part_ok :: "'r obj_store \<Rightarrow> nat \<times> block_metadata \<Rightarrow> bool" where
  "part_ok st p \<longleftrightarrow> fst p \<in> fst ` set (objs st) \<and>
     md_num_rows (snd p) = Some (int (length (rows_of_ref st (fst p))))"

definition store_ok :: "'r obj_store \<Rightarrow> bool" where
  "store_ok st \<longleftrightarrow> list_all (\<lambda>(r, b). r < next_ref st) (objs st)"

lemma part_rows_simps [simp]:
  "part_rows st [] = []"
  "part_rows st (p # ps) = rows_of_ref st (fst p) @ part_rows st ps"
  "part_rows st (ps @ qs) = part_rows st ps @ part_rows st qs"
  by (simp_all add: part_rows_def)

lemma ray_get_ok: "part_ok st p \<Longrightarrow> ray_get st (fst p) = Inr (rows_of_ref st (fst p))"
  by (auto simp: part_ok_def ray_get_def rows_of_ref_def map_of_eq_None_iff split: option.splits)

lemma calculate_blocks_rows_ok:
  "list_all (part_ok st) bs \<Longrightarrow>
   calculate_blocks_rows st bs = Inr (map (\<lambda>p. int (length (rows_of_ref st (fst p)))) bs)"
  unfolding calculate_blocks_rows_def
  by (rule rmap_Inr_map) (auto simp: list_all_iff part_ok_def)

lemma part_rows_length: "int (length (part_rows st bs)) = sum_list (map (\<lambda>p. int (length (rows_of_ref st (fst p)))) bs)"
  by (induction bs) auto

subsection \<open>Boundaries\<close>

text \<open>The sums of the prefixes of a list of sizes.\<close>

fun bounds :: "int list \<Rightarrow> int set" where
  "bounds [] = {0}"
| "bounds (x # xs) = insert 0 ((+) x ` bounds xs)"

lemma bounds_0 [simp]: "0 \<in> bounds xs"
  by (cases xs) auto

lemma bounds_append: "bounds (xs @ ys) = bounds xs \<union> (+) (sum_list xs) ` bounds ys"
  by (induction xs) (auto simp: image_Un image_image add.assoc)

lemma bounds_differences: "bounds (differences p xs) = insert 0 ((\<lambda>x. x - p) ` set xs)"
proof (induction xs arbitrary: p)
  case (Cons x xs)
  have "(+) (x - p) ` ((\<lambda>y. y - x) ` set xs) = (\<lambda>y. y - p) ` set xs"
    by (simp add: image_image)
  with Cons show ?case by auto
qed simp

lemma bounds_nonneg: "list_all (\<lambda>x. 0 \<le> x) xs \<Longrightarrow> b \<in> bounds xs \<Longrightarrow> 0 \<le> b"
  by (induction xs arbitrary: b) auto

subsection \<open>Phase 1: indices per block\<close>

fun cut_points :: "int list \<Rightarrow> int list list \<Rightarrow> int set" where
  "cut_points (r # rs) (l # ls) = set l \<union> (+) r ` cut_points rs ls"
| "cut_points _ _ = {}"

definition block_idx_ok :: "int \<Rightarrow> int list \<Rightarrow> bool" where
  "block_idx_ok r l \<longleftrightarrow> sorted l \<and> set l \<subseteq> {0..r}"

lemma sorted_snoc: "sorted xs \<Longrightarrow> \<forall>x\<in>set xs. x \<le> y \<Longrightarrow> sorted (xs @ [y])"
  by (simp add: sorted_append)

lemma per_block_loop_ok:
  assumes "list_all (\<lambda>r. 0 \<le> r) rows" and "sorted idx" and "set idx \<subseteq> {off..off + sum_list rows}"
    and "rows = [] \<longrightarrow> idx = [] \<and> cur = []"
    and "rows \<noteq> [] \<longrightarrow> block_idx_ok (hd rows) cur" and "\<forall>x\<in>set cur. \<forall>i\<in>set idx. x \<le> i - off"
  shows "\<exists>L. per_block_loop rows idx off cur = Inr L \<and> list_all2 block_idx_ok rows L \<and>
    (\<lambda>i. i - off) ` set idx \<union> set cur \<subseteq> cut_points rows L"
  using assms
proof (induction rows idx off cur rule: per_block_loop.induct)
  case (2 r rs off cur)
  have "list_all2 block_idx_ok rs (map (\<lambda>_. []) rs)"
    by (simp add: list_all2_conv_all_nth block_idx_ok_def)
  with 2 show ?case by simp
next
  case (4 r rs i "is" off cur)
  show ?case
  proof (cases "i - off \<le> r")
    case True
    have "\<exists>L. per_block_loop (r # rs) is off (cur @ [i - off]) = Inr L \<and> list_all2 block_idx_ok (r # rs) L \<and>
      (\<lambda>i. i - off) ` set is \<union> set (cur @ [i - off]) \<subseteq> cut_points (r # rs) L"
    proof (rule "4.IH"(1) [OF True])
      show "r # rs \<noteq> [] \<longrightarrow> block_idx_ok (hd (r # rs)) (cur @ [i - off])"
        using "4.prems" True by (auto simp: block_idx_ok_def intro!: sorted_snoc)
    qed (use "4.prems" in auto)
    with True show ?thesis by auto
  next
    case False
    have "\<exists>L. per_block_loop rs (i # is) (off + r) [] = Inr L \<and> list_all2 block_idx_ok rs L \<and>
      (\<lambda>j. j - (off + r)) ` set (i # is) \<union> set [] \<subseteq> cut_points rs L"
    proof (rule "4.IH"(2) [OF False])
      show "rs = [] \<longrightarrow> i # is = [] \<and> [] = ([]::int list)" using "4.prems"(3) False by auto
      show "set (i # is) \<subseteq> {off + r..off + r + sum_list rs}" using "4.prems"(2,3) False by fastforce
    qed (use "4.prems" in \<open>auto simp: block_idx_ok_def\<close>)
    then obtain L where L: "per_block_loop rs (i # is) (off + r) [] = Inr L" "list_all2 block_idx_ok rs L"
        "(\<lambda>j. j - (off + r)) ` set (i # is) \<subseteq> cut_points rs L" by auto
    have "j - off \<in> (+) r ` cut_points rs L" if "j \<in> set (i # is)" for j
      using L(3) that by (force simp: image_iff intro!: bexI [of _ "j - (off + r)"])
    then have "(\<lambda>j. j - off) ` set (i # is) \<subseteq> (+) r ` cut_points rs L" by blast
    with L False "4.prems"(5) show ?thesis by auto
  qed
qed auto

subsection \<open>Phase 2: splitting the blocks\<close>

lemma drop_empty_set:
  "prev \<in> S \<Longrightarrow> 0 \<in> S \<Longrightarrow> n \<in> S \<Longrightarrow> set (drop_empty_loop prev l (Some n)) \<subseteq> S \<Longrightarrow> set l \<subseteq> S"
  by (induction prev l "Some n" rule: drop_empty_loop.induct) (auto split: if_splits)

lemma drop_empty_mem: "set (drop_empty_loop prev l n) \<subseteq> set l"
  by (induction prev l n rule: drop_empty_loop.induct) auto

lemma drop_empty_sorted: "sorted l \<Longrightarrow> sorted (drop_empty_loop prev l n)"
proof (induction prev l n rule: drop_empty_loop.induct)
  case (2 prev i "is" n)
  then show ?case using drop_empty_mem [of i "is" n] by auto
qed simp

lemma slices_at_facts:
  assumes "sorted (p # is)" and "0 \<le> p" and "\<forall>i\<in>set is. i \<le> int (length rows)"
  shows "map (int \<circ> length) (slices_at rows p is) = differences p is \<and>
    concat (slices_at rows p is) = take (nat (last (p # is) - p)) (drop (nat p) rows)"
  using assms
proof (induction "is" arbitrary: p)
  case (Cons i "is")
  have pi: "p \<le> i" "i \<le> int (length rows)" "0 \<le> i" "sorted (i # is)" using Cons.prems by auto
  have IH: "map (int \<circ> length) (slices_at rows i is) = differences i is"
    "concat (slices_at rows i is) = take (nat (last (i # is) - i)) (drop (nat i) rows)"
    using Cons.IH [of i] pi Cons.prems(3) by (simp_all add: comp_def)
  have il: "i \<le> last (i # is)" using pi(4) by (cases "is" rule: rev_cases) (auto simp: sorted_append)
  have "concat (slices_at rows p (i # is)) = take (nat (i - p)) (drop (nat p) rows) @
      take (nat (last (i # is) - i)) (drop (nat i) rows)"
    using IH(2) by (simp add: accessor_slice_def)
  also have "drop (nat i) rows = drop (nat (i - p)) (drop (nat p) rows)"
    using pi Cons.prems(2) by (simp add: nat_diff_distrib)
  also have "take (nat (i - p)) (drop (nat p) rows) @
      take (nat (last (i # is) - i)) (drop (nat (i - p)) (drop (nat p) rows)) =
      take (nat (i - p) + nat (last (i # is) - i)) (drop (nat p) rows)"
    by (simp only: take_add)
  also have "nat (i - p) + nat (last (i # is) - i) = nat (last (p # i # is) - p)"
    using pi il by simp
  finally have "concat (slices_at rows p (i # is)) = take (nat (last (p # i # is) - p)) (drop (nat p) rows)" .
  moreover have "int (length (accessor_slice rows p i)) = i - p"
    using pi Cons.prems(2) by (simp add: accessor_slice_def)
  ultimately show ?case using IH(1) by (simp add: comp_def)
qed simp

lemma split_single_block_ok:
  assumes "block_idx_ok (int (length rows)) l"
  shows "concat (slices_at rows 0 (drop_empty_block_split l (Some (int (length rows))) @ [int (length rows)])) = rows"
    and "set l \<subseteq> bounds (map (int \<circ> length) (slices_at rows 0
      (drop_empty_block_split l (Some (int (length rows))) @ [int (length rows)])))"
proof -
  let ?n = "int (length rows)" let ?d = "drop_empty_block_split l (Some ?n)"
  have d: "sorted ?d" "set ?d \<subseteq> {0..?n}"
    using assms drop_empty_sorted drop_empty_mem unfolding block_idx_ok_def drop_empty_block_split_def
    by (blast, fastforce)
  then have "sorted (0 # ?d @ [?n])" "\<forall>i\<in>set (?d @ [?n]). i \<le> ?n" by (auto simp: sorted_append)
  then have facts: "map (int \<circ> length) (slices_at rows 0 (?d @ [?n])) = differences 0 (?d @ [?n])"
    "concat (slices_at rows 0 (?d @ [?n])) = rows"
    using slices_at_facts [of 0 "?d @ [?n]" rows] by simp_all
  show "concat (slices_at rows 0 (?d @ [?n])) = rows" by (rule facts(2))
  have "set l \<subseteq> insert (- 1) (insert 0 (insert ?n (set ?d)))"
    unfolding drop_empty_block_split_def by (rule drop_empty_set [where prev = "- 1"]) auto
  moreover have "- 1 \<notin> set l" using assms by (auto simp: block_idx_ok_def)
  ultimately show "set l \<subseteq> bounds (map (int \<circ> length) (slices_at rows 0 (?d @ [?n])))"
    unfolding facts(1) bounds_differences by auto
qed

text \<open>One store extends another when only fresh references were added.\<close>

definition extends :: "'r obj_store \<Rightarrow> 'r obj_store \<Rightarrow> bool" where
  "extends st st' \<longleftrightarrow> store_ok st' \<and> next_ref st \<le> next_ref st' \<and>
     (\<forall>r < next_ref st. map_of (objs st') r = map_of (objs st) r)"

lemma extends_refl: "store_ok st \<Longrightarrow> extends st st"
  by (simp add: extends_def)

lemma extends_trans: "extends a b \<Longrightarrow> extends b c \<Longrightarrow> extends a c"
  by (auto simp: extends_def)

lemma part_ok_bound: "store_ok st \<Longrightarrow> part_ok st p \<Longrightarrow> fst p < next_ref st"
  by (auto simp: store_ok_def part_ok_def list_all_iff)

lemma extends_rows: "extends st st' \<Longrightarrow> r < next_ref st \<Longrightarrow> rows_of_ref st' r = rows_of_ref st r"
  by (simp add: extends_def rows_of_ref_def)

lemma extends_part_ok:
  assumes "store_ok st" and "extends st st'" and "part_ok st p"
  shows "part_ok st' p"
proof -
  have r: "fst p < next_ref st" by (rule part_ok_bound [OF assms(1,3)])
  then have "map_of (objs st') (fst p) = map_of (objs st) (fst p)" using assms(2) by (simp add: extends_def)
  then have "fst p \<in> fst ` set (objs st')" using assms(3) unfolding part_ok_def by (metis map_of_eq_None_iff)
  with extends_rows [OF assms(2) r] assms(3) show ?thesis by (simp add: part_ok_def)
qed

lemma put_all_ok:
  assumes "store_ok st" and "put_all st bs = (refs, st1)"
  shows "extends st st1" and "map (rows_of_ref st1) refs = bs" and "length refs = length bs"
    and "\<forall>r\<in>set refs. next_ref st \<le> r \<and> r \<in> fst ` set (objs st1)"
proof -
  from assms(2) have refs: "refs = [next_ref st..<next_ref st + length bs]"
    and st1: "st1 = \<lparr>objs = objs st @ zip refs bs, next_ref = next_ref st + length bs\<rparr>"
    by (auto simp: put_all_def Let_def)
  show len: "length refs = length bs" by (simp add: refs)
  have keys: "fst ` set (objs st1) = fst ` set (objs st) \<union> set refs"
    using len by (simp add: st1 image_Un) (metis list.set_map map_fst_zip)
  show "\<forall>r\<in>set refs. next_ref st \<le> r \<and> r \<in> fst ` set (objs st1)" unfolding keys by (auto simp: refs)
  have "map_of (zip refs bs) r = None" if "r < next_ref st" for r
    using that by (auto simp: map_of_eq_None_iff refs dest: set_zip_leftD)
  then have old: "\<forall>r < next_ref st. map_of (objs st1) r = map_of (objs st) r"
    by (auto simp: st1 map_add_def split: option.splits)
  have "r < next_ref st1" if "r \<in> fst ` set (objs st1)" for r
    using that assms(1) unfolding keys by (auto simp: store_ok_def list_all_iff refs st1)
  then have "store_ok st1" by (force simp: store_ok_def list_all_iff)
  with old show "extends st st1" by (simp add: extends_def st1)
  have "map_of (objs st1) (refs ! k) = Some (bs ! k)" if "k < length bs" for k
  proof -
    have "map_of (zip refs bs) (refs ! k) = Some (bs ! k)"
      using that by (intro map_of_zip_nth) (simp_all add: refs)
    moreover have "map_of (objs st) (refs ! k) = None"
      using assms(1) that by (auto simp: map_of_eq_None_iff store_ok_def list_all_iff refs)
    ultimately show ?thesis by (simp add: st1 map_add_def)
  qed
  then show "map (rows_of_ref st1) refs = bs"
    by (intro nth_equalityI) (simp_all add: len rows_of_ref_def)
qed

abbreviation ref_len :: "'r obj_store \<Rightarrow> nat \<times> block_metadata \<Rightarrow> int" where
  "ref_len st p \<equiv> int (length (rows_of_ref st (fst p)))"

definition sized :: "nat \<times> block_metadata \<Rightarrow> bool" where
  "sized p \<longleftrightarrow> md_size_bytes (snd p) \<noteq> None"

text \<open>What the loop promises about the parts \<open>ps\<close> of the blocks \<open>bs\<close>.\<close>

definition split_result ::
    "'r obj_store \<Rightarrow> partition \<Rightarrow> int list list \<Rightarrow> partition \<times> nat list \<times> 'r obj_store \<Rightarrow> bool" where
  "split_result st bs idxs r \<longleftrightarrow> (case r of (ps, dn, st') \<Rightarrow>
     extends st st' \<and> part_rows st' ps = part_rows st bs \<and> list_all (part_ok st') ps \<and>
     cut_points (map (ref_len st) bs) idxs \<subseteq> bounds (map (ref_len st') ps) \<and>
     set dn \<subseteq> fst ` set bs \<and> (\<forall>p\<in>set ps. fst p \<notin> set dn \<and> (fst p \<in> fst ` set bs \<or> next_ref st \<le> fst p)) \<and>
     (list_all sized bs \<longrightarrow> list_all sized ps))"

lemma split_one_block:
  assumes "store_ok st" and "part_ok st (b, m)" and "block_idx_ok (ref_len st (b, m)) l"
    and "put_all st (slices_at (rows_of_ref st b) 0 (drop_empty_block_split l (md_num_rows m) @ [ref_len st (b, m)])) =
      (refs, st1)"
    and "metas = map (block_meta nbytes)
      (slices_at (rows_of_ref st b) 0 (drop_empty_block_split l (md_num_rows m) @ [ref_len st (b, m)]))"
  shows "extends st st1" and "part_rows st1 (zip refs metas) = rows_of_ref st b"
    and "list_all (part_ok st1) (zip refs metas)" and "set l \<subseteq> bounds (map (ref_len st1) (zip refs metas))"
    and "\<forall>p\<in>set (zip refs metas). next_ref st \<le> fst p" and "list_all sized (zip refs metas)"
proof -
  let ?n = "ref_len st (b, m)" let ?bs = "slices_at (rows_of_ref st b) 0 (drop_empty_block_split l (md_num_rows m) @ [?n])"
  have m: "md_num_rows m = Some ?n" using assms(2) by (simp add: part_ok_def)
  note put = put_all_ok [OF assms(1,4)]
  have fst: "map fst (zip refs metas) = refs" using put(3) by (simp add: assms(5))
  have idx: "block_idx_ok (int (length (rows_of_ref st b))) l" using assms(3) by simp
  note sb = split_single_block_ok [OF idx]
  show "extends st st1" by (rule put(1))
  have rows: "map (rows_of_ref st1 \<circ> fst) (zip refs metas) = ?bs"
    using put(2) fst by (metis map_map)
  then show "part_rows st1 (zip refs metas) = rows_of_ref st b"
    using sb(1) m by (simp add: part_rows_def)
  have "map (ref_len st1) (zip refs metas) = map (int \<circ> length) (map (rows_of_ref st1 \<circ> fst) (zip refs metas))"
    by simp
  also have "\<dots> = map (int \<circ> length) ?bs" unfolding rows ..
  finally have "map (ref_len st1) (zip refs metas) = map (int \<circ> length) ?bs" .
  then show "set l \<subseteq> bounds (map (ref_len st1) (zip refs metas))" using sb(2) m by simp
  show "\<forall>p\<in>set (zip refs metas). next_ref st \<le> fst p" using put(4) by (auto dest: set_zip_leftD)
  show "list_all sized (zip refs metas)"
    by (auto simp: list_all_iff sized_def assms(5) block_meta_def dest!: set_zip_rightD)
  have "part_ok st1 (zip refs metas ! k)" if "k < length (zip refs metas)" for k
  proof -
    have k: "k < length refs" "k < length ?bs" using that by (simp_all add: assms(5))
    have "rows_of_ref st1 (refs ! k) = ?bs ! k" using put(2) k(1) by (metis nth_map)
    moreover have "refs ! k \<in> fst ` set (objs st1)" using put(4) k(1) by (meson nth_mem)
    ultimately show ?thesis using k by (simp add: part_ok_def assms(5) block_meta_def)
  qed
  then show "list_all (part_ok st1) (zip refs metas)" by (simp add: list_all_length)
qed

lemma split_result_cons:
  assumes "store_ok st" and "extends st st1" and "list_all (part_ok st) (b # bs)" and "b \<notin> set bs" and "fst b \<notin> fst ` set bs"
    and "part_rows st1 qs = rows_of_ref st (fst b)" and "list_all (part_ok st1) qs"
    and "set l \<subseteq> bounds (map (ref_len st1) qs)"
    and "\<forall>p\<in>set qs. p = b \<and> dn' = dn \<or> next_ref st \<le> fst p \<and> dn' = fst b # dn"
    and "list_all sized [b] \<longrightarrow> list_all sized qs"
    and r: "split_result st1 bs idxs (ps, dn, st')"
    and "dn' = dn \<or> dn' = fst b # dn"
  shows "split_result st (b # bs) (l # idxs) (qs @ ps, dn', st')"
proof -
  from r have r: "extends st1 st'" "part_rows st' ps = part_rows st1 bs" "list_all (part_ok st') ps"
    "cut_points (map (ref_len st1) bs) idxs \<subseteq> bounds (map (ref_len st') ps)" "set dn \<subseteq> fst ` set bs"
    "\<forall>p\<in>set ps. fst p \<notin> set dn \<and> (fst p \<in> fst ` set bs \<or> next_ref st1 \<le> fst p)"
    "list_all sized bs \<longrightarrow> list_all sized ps"
    by (auto simp: split_result_def)
  have st1: "store_ok st1" using assms(2) by (simp add: extends_def)
  have nx: "next_ref st \<le> next_ref st1" using assms(2) by (simp add: extends_def)
  have old: "fst p < next_ref st" if "p \<in> set (b # bs)" for p
    using part_ok_bound [OF assms(1), of p] assms(3) that by (auto simp: list_all_iff)
  have oldrows: "rows_of_ref st1 (fst p) = rows_of_ref st (fst p)" if "p \<in> set bs" for p
    using extends_rows [OF assms(2)] old that by auto
  then have bs: "part_rows st1 bs = part_rows st bs" "map (ref_len st1) bs = map (ref_len st) bs"
    by (auto simp: part_rows_def intro!: arg_cong [where f = concat])
  have q: "rows_of_ref st' (fst p) = rows_of_ref st1 (fst p)" if "p \<in> set qs" for p
    using extends_rows [OF r(1)] part_ok_bound [OF st1, of p] assms(7) that by (auto simp: list_all_iff)
  then have qs: "part_rows st' qs = part_rows st1 qs" "map (ref_len st') qs = map (ref_len st1) qs"
    by (auto simp: part_rows_def intro!: arg_cong [where f = concat])
  have len: "sum_list (map (ref_len st1) qs) = ref_len st b"
    unfolding part_rows_length [symmetric] assms(6) ..
  have "cut_points (map (ref_len st) (b # bs)) (l # idxs) \<subseteq> bounds (map (ref_len st') (qs @ ps))"
    using assms(8) r(4) unfolding map_append bounds_append qs(2) len bs(2) by auto
  moreover have "\<forall>p\<in>set (qs @ ps). fst p \<notin> set dn' \<and> (fst p \<in> fst ` set (b # bs) \<or> next_ref st \<le> fst p)"
  proof
    fix p assume p: "p \<in> set (qs @ ps)"
    have dnb: "x < next_ref st" if "x \<in> set (fst b # dn)" for x
    proof -
      have "x \<in> fst ` set (b # bs)" using that r(5) by auto
      then show ?thesis using old by (elim imageE) simp
    qed
    from p consider "p \<in> set qs" | "p \<in> set ps" by auto
    then show "fst p \<notin> set dn' \<and> (fst p \<in> fst ` set (b # bs) \<or> next_ref st \<le> fst p)"
    proof cases
      case 1
      with assms(5,9) r(5) dnb show ?thesis by fastforce
    next
      case 2
      moreover have "fst p \<noteq> fst b"
      proof
        assume e: "fst p = fst b"
        have "fst b < next_ref st" using old [of b] by simp
        moreover have "fst p \<in> fst ` set bs \<or> next_ref st1 \<le> fst p" using r(6) 2 by blast
        ultimately show False using nx e assms(5) by simp
      qed
      moreover have "fst p \<notin> set dn" "fst p \<in> fst ` set bs \<or> next_ref st1 \<le> fst p" using r(6) 2 by blast+
      ultimately show ?thesis using nx assms(12) by auto
    qed
  qed
  moreover have "list_all (part_ok st') qs"
    using assms(7) extends_part_ok [OF st1 r(1)] by (simp add: list_all_iff)
  moreover have "set dn' \<subseteq> fst ` set (b # bs)" using r(5) assms(12) by auto
  moreover have "list_all sized (b # bs) \<longrightarrow> list_all sized (qs @ ps)" using r(7) assms(10) by simp
  ultimately show ?thesis
    using r(2,3) assms(6) qs(1) bs(1) extends_trans [OF assms(2) r(1)] by (simp add: split_result_def)
qed

lemma split_loop_ok:
  assumes "list_all (part_ok st) bs" and "distinct (map fst bs)" and "store_ok st"
    and "list_all2 block_idx_ok (map (ref_len st) bs) idxs"
  shows "\<exists>ps dn st'. split_loop nbytes bid bs idxs st = Inr (ps, dn, st') \<and> split_result st bs idxs (concat ps, dn, st')"
  using assms
proof (induction nbytes bid bs idxs st rule: split_loop.induct)
  case (1 nbytes bid st)
  then show ?case by (simp add: split_result_def extends_refl)
next
  case (4 nbytes bid b m bs l idxs st)
  let ?d = "drop_empty_block_split l (md_num_rows m)"
  have b: "part_ok st (b, m)" "block_idx_ok (ref_len st (b, m)) l" "b \<notin> fst ` set bs"
    using "4.prems" by auto
  have m: "md_num_rows m = Some (ref_len st (b, m))" using b(1) by (simp add: part_ok_def)
  have new: "(b, m) \<notin> set bs" using b(3) by force
  show ?case
  proof (cases "?d = []")
    case True
    obtain ps dn st' where IH: "split_loop nbytes (bid + 1) bs idxs st = Inr (ps, dn, st')"
        "split_result st bs idxs (concat ps, dn, st')"
      using "4.IH"(1) [OF refl True] "4.prems" by auto
    have "set l \<subseteq> bounds (map (ref_len st) [(b, m)])"
      using split_single_block_ok [of "rows_of_ref st b" l] b(2) m True by (simp add: accessor_slice_def)
    then have "split_result st ((b, m) # bs) (l # idxs) ([(b, m)] @ concat ps, dn, st')"
      using "4.prems"(1) b(1)
      by (intro split_result_cons [OF "4.prems"(3) extends_refl [OF "4.prems"(3)] _ new _ _ _ _ _ _ IH(2)])
        (simp_all add: b(3))
    with IH(1) True show ?thesis by (simp add: Let_def)
  next
    case False
    let ?sl = "slices_at (rows_of_ref st b) 0 (?d @ [ref_len st (b, m)])"
    obtain refs st1 where put: "put_all st ?sl = (refs, st1)" by fastforce
    let ?metas = "map (block_meta nbytes) ?sl"
    note one = split_one_block [OF "4.prems"(3) b(1,2) put, of ?metas nbytes, OF refl]
    have get: "ray_get st b = Inr (rows_of_ref st b)" using ray_get_ok [OF b(1)] by simp
    have sb: "split_single_block nbytes bid (rows_of_ref st b) m ?d = Inr ((bid, ?metas), ?sl)"
      using m by (simp add: split_single_block_def Let_def)
    have st1: "store_ok st1" using one(1) by (simp add: extends_def)
    have bs1: "list_all (part_ok st1) bs"
      using "4.prems"(1) extends_part_ok [OF "4.prems"(3) one(1)] by (auto simp: list_all_iff)
    have same: "map (ref_len st1) bs = map (ref_len st) bs"
      using extends_rows [OF one(1)] part_ok_bound [OF "4.prems"(3)] "4.prems"(1)
      by (fastforce simp: list_all_iff)
    have l2: "list_all2 block_idx_ok (map (ref_len st1) bs) idxs" unfolding same using "4.prems"(4) by simp
    obtain ps dn st' where IH: "split_loop nbytes (bid + 1) bs idxs st1 = Inr (ps, dn, st')"
        "split_result st1 bs idxs (concat ps, dn, st')"
      using "4.IH"(2) [OF refl False refl put [symmetric] bs1 _ st1 l2] "4.prems"(2) by auto
    have "split_result st ((b, m) # bs) (l # idxs) (zip refs ?metas @ concat ps, b # dn, st')"
      using "4.prems"(1) one
      by (intro split_result_cons [OF "4.prems"(3) one(1) _ new _ _ _ _ _ _ IH(2)]) (simp_all add: b(3))
    with IH(1) False get sb put show ?thesis by (simp add: Let_def)
  qed
qed auto

lemma free_all_rows: "r \<notin> set dn \<Longrightarrow> map_of (objs (free_all dn st)) r = map_of (objs st) r"
proof -
  have "r \<notin> set dn \<Longrightarrow> map_of (filter (\<lambda>(r, b). r \<notin> set dn) xs) r = map_of xs r" for xs :: "(nat \<times> 'a list) list"
    by (induction xs) auto
  then show "r \<notin> set dn \<Longrightarrow> map_of (objs (free_all dn st)) r = map_of (objs st) r" by (simp add: free_all_def)
qed

lemma split_all_blocks_ok:
  assumes "list_all (part_ok st) bs" and "distinct (map fst bs)" and "store_ok st"
    and "list_all2 block_idx_ok (map (ref_len st) bs) idxs"
  shows "\<exists>ps st'. split_all_blocks nbytes bs idxs owned st = Inr (ps, st') \<and>
    part_rows st' ps = part_rows st bs \<and> list_all (part_ok st') ps \<and>
    cut_points (map (ref_len st) bs) idxs \<subseteq> bounds (map (ref_len st') ps) \<and>
    (\<forall>r < next_ref st. r \<notin> fst ` set bs \<longrightarrow> map_of (objs st') r = map_of (objs st) r) \<and>
    (list_all sized bs \<longrightarrow> list_all sized ps)"
proof -
  obtain ps dn st' where r: "split_loop nbytes 0 bs idxs st = Inr (ps, dn, st')"
      "split_result st bs idxs (concat ps, dn, st')" using split_loop_ok [OF assms] by blast
  let ?st = "if owned then free_all dn st' else st'"
  have look: "map_of (objs ?st) k = map_of (objs st') k" if "k \<notin> set dn" for k
    using free_all_rows [OF that, of st'] by simp
  have ps: "rows_of_ref ?st (fst p) = rows_of_ref st' (fst p)" "map_of (objs ?st) (fst p) = map_of (objs st') (fst p)"
    if "p \<in> set (concat ps)" for p
    using look [of "fst p"] r(2) that by (auto simp: split_result_def rows_of_ref_def)
  have rows: "map (rows_of_ref ?st \<circ> fst) (concat ps) = map (rows_of_ref st' \<circ> fst) (concat ps)"
    and lens: "map (ref_len ?st) (concat ps) = map (ref_len st') (concat ps)"
    using ps(1) by auto
  have ok: "list_all (part_ok ?st) (concat ps)"
    unfolding list_all_iff
  proof
    fix p assume p: "p \<in> set (concat ps)"
    with r(2) have "part_ok st' p" by (auto simp: split_result_def list_all_iff)
    with ps [OF p] show "part_ok ?st p" unfolding part_ok_def by (metis map_of_eq_None_iff)
  qed
  have frame: "map_of (objs ?st) k = map_of (objs st) k" if "k < next_ref st" "k \<notin> fst ` set bs" for k
  proof -
    have "k \<notin> set dn" using r(2) that(2) by (auto simp: split_result_def)
    with look [of k] r(2) that(1) show ?thesis by (simp add: split_result_def extends_def)
  qed
  show ?thesis
  proof (intro exI conjI)
    show "split_all_blocks nbytes bs idxs owned st = Inr (concat ps, ?st)"
      using r(1) by (simp add: split_all_blocks_def)
    show "part_rows ?st (concat ps) = part_rows st bs"
      using r(2) unfolding part_rows_def rows by (simp add: split_result_def part_rows_def)
    show "cut_points (map (ref_len st) bs) idxs \<subseteq> bounds (map (ref_len ?st) (concat ps))"
      using r(2) unfolding lens by (simp add: split_result_def)
  qed (use ok frame r(2) in \<open>auto simp: split_result_def\<close>)
qed

subsection \<open>Phase 3: assembling the parts\<close>

fun pieces :: "'r list \<Rightarrow> int \<Rightarrow> int list \<Rightarrow> 'r list list" where
  "pieces xs prev [] = []"
| "pieces xs prev (v # vs) = take (nat (v - prev)) xs # pieces (drop (nat (v - prev)) xs) v vs"

lemma bounds_tail: "b \<in> bounds (k # ks) \<Longrightarrow> b \<noteq> 0 \<Longrightarrow> b - k \<in> bounds ks"
  by auto

lemma global_loop_ok:
  assumes "list_all (part_ok st) bs" and "sorted (prev # vs)" and "int (length (part_rows st cur)) = n"
    and "\<forall>v\<in>set vs. prev + n \<le> v \<and> v - prev - n \<in> bounds (map (ref_len st) bs)"
  shows "\<exists>ps. global_loop bs (differences prev vs) cur n = Inr ps \<and>
    map (part_rows st) ps = pieces (part_rows st cur @ part_rows st bs) prev vs \<and> set (concat ps) \<subseteq> set cur \<union> set bs"
  using assms
proof (induction bs "differences prev vs" cur n arbitrary: prev vs rule: global_loop.induct)
  case (1 bs cur n)
  then have "vs = []" by (cases vs) simp_all
  then show ?case by simp
next
  case (2 s ss cur n)
  then obtain v vs' where vs: "vs = v # vs'" "s = v - prev" "ss = differences v vs'" by (cases vs) auto
  have ns: "n = s" using 2 vs by simp
  have "\<exists>ps. global_loop [] (differences v vs') [] 0 = Inr ps \<and>
      map (part_rows st) ps = pieces (part_rows st [] @ part_rows st []) v vs' \<and> set (concat ps) \<subseteq> set [] \<union> set []"
    using 2 vs ns by (intro "2.hyps"(1)) auto
  then obtain ps where ps: "global_loop [] (differences v vs') [] 0 = Inr ps"
      "map (part_rows st) ps = pieces [] v vs'" "set (concat ps) = {}" by auto
  have "map (part_rows st) (cur # ps) = pieces (part_rows st cur @ part_rows st []) prev vs"
    using ps(2) "2.prems"(3) ns vs(2) unfolding vs(1) pieces.simps by simp
  moreover have "global_loop [] (differences prev vs) cur n = Inr (cur # ps)" using ps(1) ns vs by simp
  moreover have "set (concat (cur # ps)) \<subseteq> set cur \<union> set []" using ps(3) by auto
  ultimately show ?case by blast
next
  case (3 b m bs s ss cur n)
  then obtain v vs' where vs: "vs = v # vs'" "s = v - prev" "ss = differences v vs'" by (cases vs) auto
  have vle: "v \<le> w" if "w \<in> set vs'" for w using "3.prems"(2) vs that by simp
  show ?case
  proof (cases "n \<ge> s")
    case True
    then have ns: "n = s" using 3 vs by simp
    have "\<exists>ps. global_loop ((b, m) # bs) (differences v vs') [] 0 = Inr ps \<and>
        map (part_rows st) ps = pieces (part_rows st [] @ part_rows st ((b, m) # bs)) v vs' \<and>
        set (concat ps) \<subseteq> set [] \<union> set ((b, m) # bs)"
    proof (rule "3.hyps"(1) [OF True ns vs(3)])
      show "\<forall>w\<in>set vs'. v + 0 \<le> w \<and> w - v - 0 \<in> bounds (map (ref_len st) ((b, m) # bs))"
        using "3.prems"(4) vle vs ns by simp
    qed (use "3.prems" vs in auto)
    then obtain ps where ps: "global_loop ((b, m) # bs) (differences v vs') [] 0 = Inr ps"
        "map (part_rows st) ps = pieces (part_rows st ((b, m) # bs)) v vs'"
        "set (concat ps) \<subseteq> set ((b, m) # bs)" by auto
    have len: "length (part_rows st cur) = nat (v - prev)" using "3.prems"(3) ns vs(2) by simp
    have "map (part_rows st) (cur # ps) = pieces (part_rows st cur @ part_rows st ((b, m) # bs)) prev vs"
      using ps(2) len unfolding vs(1) pieces.simps by simp
    moreover have "global_loop ((b, m) # bs) (differences prev vs) cur n = Inr (cur # ps)"
      using ps(1) ns vs by simp
    moreover have "set (concat (cur # ps)) \<subseteq> set cur \<union> set ((b, m) # bs)" using ps(3) by auto
    ultimately show ?thesis by blast
  next
    case False
    let ?k = "ref_len st (b, m)"
    have m: "md_num_rows m = Some ?k" using "3.prems"(1) by (simp add: part_ok_def)
    have nn: "list_all (\<lambda>x. 0 \<le> x) (map (ref_len st) bs)" by (simp add: list_all_iff)
    have step: "prev + (n + ?k) \<le> w \<and> w - prev - (n + ?k) \<in> bounds (map (ref_len st) bs)" if "w \<in> set vs" for w
    proof -
      have "w - prev - n \<in> bounds (?k # map (ref_len st) bs)" using "3.prems"(4) that by simp
      moreover have "w - prev - n \<noteq> 0" using False vs vle that by fastforce
      ultimately have "w - prev - n - ?k \<in> bounds (map (ref_len st) bs)" by (rule bounds_tail)
      with bounds_nonneg [OF nn this] show ?thesis by (simp add: algebra_simps)
    qed
    have "\<exists>ps. global_loop bs (differences prev vs) (cur @ [(b, m)]) (n + ?k) = Inr ps \<and>
        map (part_rows st) ps = pieces (part_rows st (cur @ [(b, m)]) @ part_rows st bs) prev vs \<and>
        set (concat ps) \<subseteq> set (cur @ [(b, m)]) \<union> set bs"
      using "3.hyps"(2) [OF False m, of prev vs] "3.hyps"(3) "3.prems"(1,2,3) step by auto
    then show ?thesis using False m vs by auto
  qed
qed

subsection \<open>The specification: rows cut at indices\<close>

fun cut_rows :: "'r list \<Rightarrow> nat \<Rightarrow> nat list \<Rightarrow> 'r list list" where
  "cut_rows rows prev [] = [drop prev rows]"
| "cut_rows rows prev (i # is) = take (i - prev) (drop prev rows) # cut_rows rows i is"

lemma cut_rows_Nil: "cut_rows [] prev is = replicate (length is + 1) []"
  by (induction "is" arbitrary: prev) auto

lemma concat_cut_rows: "sorted (prev # is) \<Longrightarrow> concat (cut_rows rows prev is) = drop prev rows"
proof (induction "is" arbitrary: prev)
  case (Cons i "is")
  then have "concat (cut_rows rows prev (i # is)) = take (i - prev) (drop prev rows) @ drop (i - prev) (drop prev rows)"
    by simp
  then show ?case by (simp only: append_take_drop_id)
qed simp

lemma pieces_cut_rows:
  assumes "sorted (prev # idx)" and "0 \<le> prev" and "n = int (length rows)"
  shows "pieces (drop (nat prev) rows) (min prev n) (map (\<lambda>i. min i n) idx @ [n]) = cut_rows rows (nat prev) (map nat idx)"
  using assms
proof (induction idx arbitrary: prev)
  case Nil
  then show ?case by simp
next
  case (Cons i idx)
  then have pi: "prev \<le> i" "0 \<le> i" by auto
  have t: "take (nat (min i n - min prev n)) (drop (nat prev) rows) = take (nat i - nat prev) (drop (nat prev) rows)"
    using pi Cons.prems by (cases "i \<le> n") (auto simp: nat_diff_distrib min_def)
  have "drop (nat (min i n - min prev n) + nat prev) rows = drop (nat i) rows"
    using pi Cons.prems by (cases "i \<le> n") (auto simp: min_def nat_add_distrib [symmetric])
  with t pi Cons show ?case by simp
qed

lemma zip_unzip: "map2 zip (map (map fst) ps) (map (map snd) ps) = ps"
  by (induction ps) (simp_all add: zip_map_fst_snd)

lemma split_at_indices_ok:
  assumes "store_ok st" and "list_all (part_ok st) bs" and "distinct (map fst bs)"
    and "sorted idx" and "\<forall>i\<in>set idx. 0 \<le> i"
  shows "\<exists>refs metas st'. split_at_indices nbytes bs idx owned None st = Inr ((refs, metas), st') \<and>
    map (part_rows st') (map2 zip refs metas) = cut_rows (part_rows st bs) 0 (map nat idx) \<and>
    length refs = length metas \<and> list_all (list_all (part_ok st')) (map2 zip refs metas) \<and>
    (\<forall>r < next_ref st. r \<notin> fst ` set bs \<longrightarrow> map_of (objs st') r = map_of (objs st) r) \<and>
    (list_all sized bs \<longrightarrow> list_all (list_all sized) (map2 zip refs metas))"
proof (cases "bs = []")
  case True
  then show ?thesis by (simp add: split_at_indices_def cut_rows_Nil list_all_iff)
next
  case False
  let ?rows = "map (ref_len st) bs" let ?n = "sum_list ?rows"
  let ?v = "map (\<lambda>i. min i ?n) idx"
  have rows: "calculate_blocks_rows st bs = Inr ?rows" by (rule calculate_blocks_rows_ok [OF assms(2)])
  have n: "?n = int (length (part_rows st bs))" by (simp only: part_rows_length)
  have sv: "sorted ?v" using assms(4) by (induction idx) (auto simp: min_def)
  have n0: "0 \<le> ?n" unfolding n by simp
  have rng: "set ?v \<subseteq> {0..0 + sum_list ?rows}" using assms(5) n0 by auto
  obtain L where L: "per_block_loop ?rows ?v 0 [] = Inr L" "list_all2 block_idx_ok ?rows L"
      "(\<lambda>i. i - 0) ` set ?v \<union> set [] \<subseteq> cut_points ?rows L"
    using per_block_loop_ok [OF _ sv rng, of "[]"] False by (auto simp: list_all_iff block_idx_ok_def)
  obtain ps st' where ps: "split_all_blocks nbytes bs L owned st = Inr (ps, st')"
      "part_rows st' ps = part_rows st bs" "list_all (part_ok st') ps"
      "cut_points ?rows L \<subseteq> bounds (map (ref_len st') ps)"
      "\<forall>r < next_ref st. r \<notin> fst ` set bs \<longrightarrow> map_of (objs st') r = map_of (objs st) r"
      "list_all sized bs \<longrightarrow> list_all sized ps"
    using split_all_blocks_ok [OF assms(2,3,1) L(2)] by blast
  have end_bound: "sum_list xs \<in> bounds xs" for xs
    by (induction xs) auto
  have cuts: "\<forall>v\<in>set (?v @ [?n]). 0 + 0 \<le> v \<and> v - 0 - 0 \<in> bounds (map (ref_len st') ps)"
  proof
    fix v assume "v \<in> set (?v @ [?n])"
    then consider "v \<in> set ?v" | "v = ?n" by auto
    then show "0 + 0 \<le> v \<and> v - 0 - 0 \<in> bounds (map (ref_len st') ps)"
    proof cases
      case 1
      then have "v \<in> bounds (map (ref_len st') ps)" using L(3) ps(4) by auto
      moreover have "0 \<le> v" using rng 1 by auto
      ultimately show ?thesis by simp
    next
      case 2
      moreover have "?n = sum_list (map (ref_len st') ps)"
        unfolding part_rows_length [symmetric] ps(2) ..
      ultimately have "v \<in> bounds (map (ref_len st') ps)" using end_bound [of "map (ref_len st') ps"] by simp
      then show ?thesis using 2 n0 by simp
    qed
  qed
  have srt: "sorted (0 # ?v @ [?n])" using sv rng n0 by (auto simp: sorted_append)
  have "int (length (part_rows st' [])) = 0" by simp
  from global_loop_ok [OF ps(3) srt this cuts]
  obtain parts where parts: "global_loop ps (differences 0 (?v @ [?n])) [] 0 = Inr parts"
      "map (part_rows st') parts = pieces (part_rows st bs) 0 (?v @ [?n])" "set (concat parts) \<subseteq> set ps"
    unfolding part_rows_simps(1) append_Nil list.set(1) Un_empty_left ps(2) by blast
  have "pieces (part_rows st bs) 0 (?v @ [?n]) = cut_rows (part_rows st bs) 0 (map nat idx)"
    using pieces_cut_rows [of 0 idx ?n "part_rows st bs"] assms(4,5) n n0 by simp
  moreover have "list_all (list_all (part_ok st')) parts" "list_all sized bs \<longrightarrow> list_all (list_all sized) parts"
    using parts(3) ps(3,6) by (auto simp: list_all_iff)
  moreover have "split_at_indices nbytes bs idx owned None st =
      Inr ((map (map fst) parts, map (map snd) parts), st')"
    using False rows L(1) ps(1) parts(1)
    by (simp add: split_at_indices_def generate_valid_indices_def generate_per_block_split_indices_def
        generate_global_split_results_def Let_def)
  ultimately show ?thesis
    using parts(2) ps(5) by (intro exI [of _ "map (map fst) parts"] exI [of _ "map (map snd) parts"] exI [of _ st'])
      (simp add: zip_unzip)
qed

text \<open>A block with an unknown row count: the count is fetched for the indices only.\<close>

lemma per_block_single:
  "list_all (\<lambda>i. i - off \<le> r) idx \<Longrightarrow> per_block_loop [r] idx off cur = Inr [cur @ map (\<lambda>i. i - off) idx]"
  by (induction idx arbitrary: cur) simp_all

lemma drop_empty_none: "drop_empty_loop prev idx None = [] \<Longrightarrow> prev < 0 \<Longrightarrow> list_all (\<lambda>i. 0 \<le> i) idx \<Longrightarrow> list_all (\<lambda>i. i = 0) idx"
  by (induction idx arbitrary: prev) (auto split: if_splits)

lemma global_loop_unknown:
  assumes "md_num_rows m = None" and "0 < n"
  shows "list_all (\<lambda>i. i = 0) idx \<Longrightarrow> global_loop [(b, m)] (differences 0 (idx @ [n])) [] 0 = Inl (TypeError ''+='')"
  by (induction idx) (use assms in simp_all)

lemma unknown_count_raises:
  assumes "map_of (objs st) b \<noteq> None" and "rows_of_ref st b \<noteq> []" and "md_num_rows m = None" and "list_all (\<lambda>i. 0 \<le> i) idx"
  shows "\<exists>e. split_at_indices nbytes [(b, m)] idx owned None st = Inl (TypeError e)"
proof -
  obtain rows where rows: "map_of (objs st) b = Some rows" "rows \<noteq> []" using assms(1,2) by (auto simp: rows_of_ref_def)
  let ?n = "int (length rows)"
  let ?v = "map (\<lambda>i. min i ?n) idx"
  have v: "list_all (\<lambda>i. 0 \<le> i) ?v" "per_block_loop [?n] ?v 0 [] = Inr [?v]"
    using assms(4) per_block_single [of 0 ?n ?v "[]"] by (simp_all add: list_all_iff)
  have c: "calculate_blocks_rows st [(b, m)] = Inr [?n]"
    by (simp add: calculate_blocks_rows_def assms(3) get_num_rows_def ray_get_def rows(1))
  show ?thesis
  proof (cases "drop_empty_loop (- 1) ?v None = []")
    case True
    then have zero: "list_all (\<lambda>i. i = 0) ?v" using drop_empty_none v(1) by simp
    have "global_loop [(b, m)] (differences 0 (?v @ [?n])) [] 0 = Inl (TypeError ''+='')"
      by (rule global_loop_unknown [OF assms(3) _ zero]) (use rows(2) in simp)
    then show ?thesis using True c v(2) assms(3)
      by (simp add: split_at_indices_def generate_valid_indices_def generate_per_block_split_indices_def Let_def
          split_all_blocks_def drop_empty_block_split_def generate_global_split_results_def)
  next
    case False
    then show ?thesis using c v(2) assms(3) rows(1)
      by (simp add: split_at_indices_def generate_valid_indices_def generate_per_block_split_indices_def Let_def
          split_all_blocks_def drop_empty_block_split_def split_single_block_def ray_get_def)
  qed
qed

subsection \<open>Properties\<close>


definition sample_store :: "nat obj_store" where
  "sample_store = \<lparr>objs = [(0, [10, 11, 12]), (1, [13]), (2, [14, 15, 16, 17])], next_ref = 3\<rparr>"

definition sample_part :: "nat \<Rightarrow> int \<Rightarrow> nat \<times> block_metadata" where
  "sample_part r n = (r, \<lparr>md_num_rows = Some n, md_size_bytes = Some (8 * n)\<rparr>)"


end
