(* ===== verification/Equalize.thy ===== *)
theory Equalize
  imports Split_Props
begin

section \<open>Ray Data: equal splits\<close>

text \<open>
  Models \<open>ray/python/ray/data/_internal/equalize.py\<close>: splits of a dataset are shaved to a
  common size and filled up with the leftover rows, so that every consumer gets exactly the
  same number of rows. The final theorem is about rows: every output has the target size
  and all outputs together take rows of the input at most once.
\<close>

subsection \<open>Shaving\<close>

fun shave_loop :: "((nat \<times> block_metadata) \<times> int) list \<Rightarrow> int \<Rightarrow> int \<Rightarrow> partition \<times> int \<times> partition" where
  "shave_loop [] target_size shaved_rows = ([], shaved_rows, [])"
| "shave_loop ((b, rows) # bs) target_size shaved_rows =
     (if rows + shaved_rows \<le> target_size
      then (let (s, n, l) = shave_loop bs target_size (shaved_rows + rows) in (b # s, n, l))
      else (let (s, n, l) = shave_loop bs target_size shaved_rows in (s, n, b # l)))"

definition shave_one_split :: "partition \<Rightarrow> int list \<Rightarrow> int \<Rightarrow> partition \<times> int \<times> partition" where
  "shave_one_split bs num_rows_per_block target_size =
     (let (shaved, shaved_rows, leftovers) = shave_loop (zip bs num_rows_per_block) target_size 0
      in (shaved, target_size - shaved_rows, leftovers))"

fun shave_all_splits ::
    "(partition \<times> int list) list \<Rightarrow> int \<Rightarrow> partition list \<times> int list \<times> partition" where
  "shave_all_splits [] target_size = ([], [], [])"
| "shave_all_splits ((bs, rows) # rest) target_size =
     (let (shaved, needed, leftovers) = shave_one_split bs rows target_size;
          (ss, ns, ls) = shave_all_splits rest target_size
      in (shaved # ss, needed # ns, leftovers @ ls))"

subsection \<open>Splitting the leftovers\<close>

fun running_sums :: "int \<Rightarrow> int list \<Rightarrow> int list" where
  "running_sums prev [] = []"
| "running_sums prev (n # ns) = (prev + n) # running_sums (prev + n) ns"

definition entries_of :: "ref_bundle \<Rightarrow> partition" where
  "entries_of b = map (\<lambda>e. (entry_ref e, entry_metadata e)) (blocks b)"

definition split_leftovers ::
    "('r list \<Rightarrow> int) \<Rightarrow> ref_bundle \<Rightarrow> int list \<Rightarrow> 'r obj_store \<Rightarrow> (partition list \<times> 'r obj_store) result" where
  "split_leftovers nbytes leftovers per_split_needed_rows st =
     rbind (split_at_indices nbytes (entries_of leftovers) (running_sums 0 per_split_needed_rows)
              (owns_blocks leftovers) None st)
       (\<lambda>((refs, metas), st'). Inr (take (length per_split_needed_rows) (map2 zip refs metas), st'))"

subsection \<open>equalize\<close>

text \<open>\<open>sum([meta.num_rows for _, meta in split])\<close>.\<close>

fun sum_rows :: "partition \<Rightarrow> int result" where
  "sum_rows [] = Inr 0"
| "sum_rows ((b, m) # bs) =
     (case md_num_rows m of
        None \<Rightarrow> Inl (TypeError ''+'')
      | Some n \<Rightarrow> rbind (sum_rows bs) (\<lambda>k. Inr (n + k)))"

definition check_shaved :: "int \<Rightarrow> partition \<times> int \<Rightarrow> unit result" where
  "check_shaved target sn =
     (case sn of (shaved, needed) \<Rightarrow>
       rbind (sum_rows shaved) (\<lambda>n.
         if \<not> n \<le> target then Inl (AssertionError ''num_shaved_rows <= target_split_size'')
         else if \<not> n + needed = target then Inl (AssertionError ''num_shaved_rows + split_needed_row == target_split_size'')
         else Inr ()))"

text \<open>\<open>shaved_splits[i].extend(leftover_split)\<close> with the check after it.\<close>

definition extend_checked :: "int \<Rightarrow> partition \<times> partition \<Rightarrow> partition result" where
  "extend_checked target sl =
     (case sl of (shaved, leftover) \<Rightarrow>
       rbind (sum_rows (shaved @ leftover)) (\<lambda>n.
         if \<not> n = target then Inl (AssertionError ''num_shaved_rows == target_split_size'')
         else Inr (shaved @ leftover)))"

definition bundle_of :: "partition \<Rightarrow> bool \<Rightarrow> schema option \<Rightarrow> ref_bundle result" where
  "bundle_of ps owned sch =
     ref_bundle_init (map (\<lambda>(b, m). \<lparr>entry_ref = b, entry_metadata = m\<rparr>) ps) sch owned None"

definition equalize ::
    "('r list \<Rightarrow> int) \<Rightarrow> ref_bundle list \<Rightarrow> bool \<Rightarrow> 'r obj_store \<Rightarrow> (ref_bundle list \<times> 'r obj_store) result" where
  "equalize nbytes bundles owned st =
     (if bundles = [] then Inr (bundles, st)
      else
        (let parts = map entries_of bundles in
         rbind (rmap (calculate_blocks_rows st) parts) (\<lambda>per_split_num_rows.
           let total_rows = sum_list (map sum_list per_split_num_rows);
               target = total_rows div int (length parts);
               (shaved, needed, leftovers) = shave_all_splits (zip parts per_split_num_rows) target;
               sch = take_first_non_empty_schema (map bundle_schema bundles)
           in rbind (rmap (check_shaved target) (zip shaved needed)) (\<lambda>_.
              rbind (bundle_of leftovers owned sch) (\<lambda>leftover_bundle.
              rbind (split_leftovers nbytes leftover_bundle needed st) (\<lambda>(leftover_splits, st').
              rbind (rmap (extend_checked target) (zip shaved leftover_splits)) (\<lambda>filled.
              rbind (rmap (\<lambda>ps. bundle_of ps owned sch) (filled @ drop (length leftover_splits) shaved))
                (\<lambda>outs. Inr (outs, st')))))))))"

subsection \<open>Shaved splits\<close>

abbreviation rows_len :: "'r obj_store \<Rightarrow> partition \<Rightarrow> int" where
  "rows_len st ps \<equiv> int (length (part_rows st ps))"

lemma shave_loop_ok:
  assumes "shave_loop (zip bs (map (ref_len st) bs)) target acc = (s, k, l)" and "acc \<le> target"
  shows "k = acc + rows_len st s \<and> k \<le> target \<and> mset s + mset l = mset bs"
  using assms
proof (induction bs arbitrary: acc s k l)
  case (Cons b bs)
  let ?r = "ref_len st b" let ?z = "zip bs (map (ref_len st) bs)"
  show ?case
  proof (cases "?r + acc \<le> target")
    case True
    obtain s' k' l' where rec: "shave_loop ?z target (acc + ?r) = (s', k', l')" by (metis prod_cases3)
    with True Cons.prems have "s = b # s'" "k = k'" "l = l'" by simp_all
    with Cons.IH [OF rec] True show ?thesis by simp
  next
    case False
    obtain s' k' l' where rec: "shave_loop ?z target acc = (s', k', l')" by (metis prod_cases3)
    with False Cons.prems have "s = s'" "k = k'" "l = b # l'" by simp_all
    with Cons.IH [OF rec] Cons.prems(2) show ?thesis by simp
  qed
qed simp

text \<open>A shaved split with the rows it still needs.\<close>

definition shaved_ok :: "'r obj_store \<Rightarrow> int \<Rightarrow> partition \<Rightarrow> int \<Rightarrow> bool" where
  "shaved_ok st target s k \<longleftrightarrow> 0 \<le> k \<and> rows_len st s + k = target"

lemma shave_all_splits_ok:
  assumes "0 \<le> target"
    and "shave_all_splits (zip parts (map (map (ref_len st)) parts)) target = (ss, ns, ls)"
  shows "list_all2 (shaved_ok st target) ss ns \<and> length ss = length parts \<and>
    mset (concat ss) + mset ls = mset (concat parts)"
  using assms(2)
proof (induction parts arbitrary: ss ns ls)
  case (Cons bs parts)
  let ?z = "zip parts (map (map (ref_len st)) parts)"
  obtain s k l where one: "shave_loop (zip bs (map (ref_len st) bs)) target 0 = (s, k, l)" by (metis prod_cases3)
  obtain ss' ns' ls' where rec: "shave_all_splits ?z target = (ss', ns', ls')" by (metis prod_cases3)
  from Cons.prems one rec have "ss = s # ss'" "ns = (target - k) # ns'" "ls = l @ ls'"
    by (simp_all add: shave_one_split_def)
  moreover have "k = rows_len st s" "k \<le> target" "mset s + mset l = mset bs"
    using shave_loop_ok [OF one assms(1)] by simp_all
  moreover note Cons.IH [OF rec]
  ultimately show ?case by (simp add: shaved_ok_def) (metis add.assoc add.left_commute)
qed simp

lemma sum_rows_ok: "list_all (part_ok st) ps \<Longrightarrow> sum_rows ps = Inr (rows_len st ps)"
  by (induction ps rule: sum_rows.induct) (auto simp: part_ok_def)

lemma check_shaved_ok:
  "shaved_ok st target s k \<Longrightarrow> list_all (part_ok st) s \<Longrightarrow> check_shaved target (s, k) = Inr ()"
  by (simp add: check_shaved_def sum_rows_ok shaved_ok_def)

lemma rmap_total: "(\<And>x. x \<in> set xs \<Longrightarrow> \<exists>y. f x = Inr y) \<Longrightarrow> \<exists>ys. rmap f xs = Inr ys"
  by (induction xs) force+

lemma bundle_of_ok:
  "list_all sized ps \<Longrightarrow> \<exists>b. bundle_of ps owned sch = Inr b \<and> entries_of b = ps \<and> owns_blocks b = owned \<and>
     bundle_schema b = sch"
  by (auto simp: bundle_of_def ref_bundle_init_def entries_of_def list_ex_iff list_all_iff sized_def comp_def
      case_prod_unfold)

subsection \<open>Cut leftovers\<close>

lemma running_sums_sorted:
  "list_all (\<lambda>n. 0 \<le> n) ns \<Longrightarrow> sorted (prev # running_sums prev ns)"
proof (induction ns arbitrary: prev)
  case (Cons n ns)
  then have "sorted ((prev + n) # running_sums (prev + n) ns)" by simp
  with Cons.prems show ?case by auto
qed simp

lemma length_running_sums [simp]: "length (running_sums prev ns) = length ns"
  by (induction ns arbitrary: prev) auto

lemma cut_rows_lengths:
  assumes "list_all (\<lambda>n. 0 \<le> n) ns" and "0 \<le> prev" and "prev + sum_list ns \<le> int (length xs)"
  shows "map length (take (length ns) (cut_rows xs (nat prev) (map nat (running_sums prev ns)))) = map nat ns"
  using assms
proof (induction ns arbitrary: prev)
  case (Cons n ns)
  have "0 \<le> sum_list ns" using Cons.prems(1) by (simp add: list_all_iff sum_list_nonneg)
  with Cons.IH [of "prev + n"] Cons.prems show ?case by (simp add: nat_add_distrib add.assoc)
qed simp

lemma length_cut_rows [simp]: "length (cut_rows xs prev is) = length is + 1"
  by (induction "is" arbitrary: prev) auto

lemma mset_take_concat: "mset (concat (take k xss)) \<subseteq># mset (concat xss)"
proof -
  have "mset (concat xss) = mset (concat (take k xss)) + mset (concat (drop k xss))"
    by (metis append_take_drop_id concat_append mset_append)
  then show ?thesis by simp
qed

lemma list_all_take: "list_all P xs \<Longrightarrow> list_all P (take k xs)"
  by (auto simp: list_all_iff dest: in_set_takeD)

text \<open>The leftovers, cut to what each split needs.\<close>

lemma split_leftovers_ok:
  assumes "store_ok st" and "list_all (part_ok st) ls" and "distinct (map fst ls)" and "list_all sized ls"
    and "entries_of lb = ls" and "list_all (\<lambda>n. 0 \<le> n) ns" and "sum_list ns \<le> rows_len st ls"
  shows "\<exists>lv st'. split_leftovers nbytes lb ns st = Inr (lv, st') \<and> map (rows_len st') lv = ns \<and>
    mset (concat (map (part_rows st') lv)) \<subseteq># mset (part_rows st ls) \<and>
    list_all (list_all (part_ok st')) lv \<and> list_all (list_all sized) lv \<and>
    (\<forall>r < next_ref st. r \<notin> fst ` set ls \<longrightarrow> map_of (objs st') r = map_of (objs st) r)"
proof -
  let ?idx = "running_sums 0 ns"
  have "sorted (0 # ?idx)" by (rule running_sums_sorted [OF assms(6)])
  then have idx: "sorted ?idx" "\<forall>i\<in>set ?idx. 0 \<le> i" by auto
  from split_at_indices_ok [OF assms(1-3) idx, of nbytes "owns_blocks lb"]
  obtain refs metas st' where r: "split_at_indices nbytes ls ?idx (owns_blocks lb) None st = Inr ((refs, metas), st')"
      "map (part_rows st') (map2 zip refs metas) = cut_rows (part_rows st ls) 0 (map nat ?idx)"
      "list_all (list_all (part_ok st')) (map2 zip refs metas)"
      "\<forall>r < next_ref st. r \<notin> fst ` set ls \<longrightarrow> map_of (objs st') r = map_of (objs st) r"
      "list_all sized ls \<longrightarrow> list_all (list_all sized) (map2 zip refs metas)" by blast
  let ?lv = "take (length ns) (map2 zip refs metas)"
  have rows: "map (part_rows st') ?lv = take (length ns) (cut_rows (part_rows st ls) 0 (map nat ?idx))"
    unfolding r(2) [symmetric] take_map ..
  have "map (length \<circ> part_rows st') ?lv = map length (map (part_rows st') ?lv)" by (simp only: map_map)
  also have "\<dots> = map nat ns"
    unfolding rows using cut_rows_lengths [OF assms(6), of 0 "part_rows st ls"] assms(7) by simp
  finally have "map int (map (length \<circ> part_rows st') ?lv) = map int (map nat ns)" by (rule arg_cong)
  moreover have "map int (map nat ns) = ns"
    using assms(6) by (induction ns) auto
  ultimately have lens: "map (rows_len st') ?lv = ns" by (simp only: map_map comp_def)
  have "mset (concat (map (part_rows st') ?lv)) \<subseteq># mset (concat (cut_rows (part_rows st ls) 0 (map nat ?idx)))"
    unfolding rows by (rule mset_take_concat)
  moreover have "sorted (0 # map nat ?idx)" using idx by (induction ?idx) (auto simp: sorted_map sorted_wrt_map intro: nat_mono sorted_wrt_mono_rel)
  then have "concat (cut_rows (part_rows st ls) 0 (map nat ?idx)) = part_rows st ls"
    using concat_cut_rows [of 0 "map nat ?idx" "part_rows st ls"] by simp
  moreover have "list_all (list_all (part_ok st')) ?lv" "list_all (list_all sized) ?lv"
    using list_all_take r(3,5) assms(4) by blast+
  moreover have "split_leftovers nbytes lb ns st = Inr (?lv, st')"
    using r(1) by (simp add: split_leftovers_def assms(5))
  ultimately show ?thesis using lens r(4) by (intro exI [of _ ?lv] exI [of _ st']) simp
qed

subsection \<open>Equal splits\<close>

definition bundles_ok :: "'r obj_store \<Rightarrow> ref_bundle list \<Rightarrow> bool" where
  "bundles_ok st bundles \<longleftrightarrow> (let es = concat (map entries_of bundles) in
     list_all (part_ok st) es \<and> list_all sized es \<and> distinct (map fst es))"

lemma part_rows_concat: "part_rows st (concat pss) = concat (map (part_rows st) pss)"
  by (induction pss) auto

lemma mset_part_rows: "mset ps = mset qs \<Longrightarrow> mset (part_rows st ps) = mset (part_rows st qs)"
proof -
  assume "mset ps = mset qs"
  moreover have "mset (part_rows st xs) = \<Sum>\<^sub># (image_mset (\<lambda>p. mset (rows_of_ref st (fst p))) (mset xs))" for xs
    by (induction xs) auto
  ultimately show ?thesis by simp
qed

lemma shaved_sum:
  "list_all2 (shaved_ok st target) ss ns \<Longrightarrow> rows_len st (concat ss) + sum_list ns = int (length ss) * target"
  by (induction rule: list_all2_induct) (auto simp: shaved_ok_def algebra_simps)

lemma extend_all_ok:
  assumes "list_all2 (\<lambda>s v. rows_len st s + rows_len st v = target \<and> list_all (part_ok st) (s @ v)) ss lv"
  shows "rmap (extend_checked target) (zip ss lv) = Inr (map2 (@) ss lv)"
proof (rule rmap_Inr_map)
  fix p assume "p \<in> set (zip ss lv)"
  then obtain s v where p: "p = (s, v)" "rows_len st s + rows_len st v = target" "list_all (part_ok st) (s @ v)"
    using assms by (auto simp: list_all2_iff)
  then have "sum_rows (s @ v) = Inr target" using sum_rows_ok [OF p(3)] by simp
  then show "extend_checked target p = Inr (case p of (s, v) \<Rightarrow> s @ v)" by (simp add: extend_checked_def p(1))
qed

text \<open>The rows of a bundle: of every block the rows of its slice, or all of them.\<close>

definition rows_in :: "'r obj_store \<Rightarrow> ref_bundle \<Rightarrow> 'r list" where
  "rows_in st b = concat (map (\<lambda>(e, sl). case sl of None \<Rightarrow> rows_of_ref st (entry_ref e)
     | Some s \<Rightarrow> accessor_slice (rows_of_ref st (entry_ref e)) (start_offset s) (end_offset s)) (zip (blocks b) (slices b)))"

definition whole_blocks :: "ref_bundle \<Rightarrow> bool" where
  "whole_blocks b \<longleftrightarrow> slices b = replicate (length (blocks b)) None"

lemma rows_in_whole: "whole_blocks b \<Longrightarrow> rows_in st b = part_rows st (entries_of b)"
proof -
  assume "whole_blocks b"
  then have "zip (blocks b) (slices b) = map (\<lambda>e. (e, None)) (blocks b)"
    by (simp add: whole_blocks_def zip_replicate2)
  then show ?thesis by (simp add: rows_in_def part_rows_def entries_of_def comp_def)
qed

lemma bundles_of_ok:
  "list_all (list_all sized) pss \<Longrightarrow>
   \<exists>outs. rmap (\<lambda>ps. bundle_of ps owned sch) pss = Inr outs \<and> map entries_of outs = pss \<and> list_all whole_blocks outs"
proof (induction pss)
  case (Cons ps pss)
  moreover obtain b where b: "bundle_of ps owned sch = Inr b" "entries_of b = ps" using bundle_of_ok [of ps owned sch] Cons.prems by auto
  moreover have "whole_blocks b" using b(1) by (auto simp: bundle_of_def ref_bundle_init_def whole_blocks_def split: if_splits)
  ultimately show ?case by auto
qed simp

lemma same_rows_outside:
  assumes "store_ok st" and "list_all (part_ok st) ps" and "fst ` set ps \<inter> fst ` set ls = {}"
    and "\<forall>r < next_ref st. r \<notin> fst ` set ls \<longrightarrow> map_of (objs st') r = map_of (objs st) r"
  shows "part_rows st' ps = part_rows st ps \<and> list_all (part_ok st') ps"
proof -
  have look: "map_of (objs st') (fst p) = map_of (objs st) (fst p)" if "p \<in> set ps" for p
  proof -
    have "part_ok st p" using assms(2) that by (simp add: list_all_iff)
    from part_ok_bound [OF assms(1) this] that assms(3,4) show ?thesis by blast
  qed
  have "part_ok st' p" if "p \<in> set ps" for p
  proof -
    have "part_ok st p" using assms(2) that by (simp add: list_all_iff)
    with look [OF that] show ?thesis unfolding part_ok_def rows_of_ref_def by (metis map_of_eq_None_iff)
  qed
  moreover have "part_rows st' ps = part_rows st ps"
    unfolding part_rows_def by (rule arg_cong [where f = concat]) (use look in \<open>auto simp: rows_of_ref_def\<close>)
  ultimately show ?thesis by (simp add: list_all_iff)
qed

lemma checks_ok:
  assumes "list_all2 (shaved_ok st target) ss ns" and "list_all (part_ok st) (concat ss)"
  shows "\<exists>us. rmap (check_shaved target) (zip ss ns) = Inr us"
proof (rule rmap_total)
  fix p assume p: "p \<in> set (zip ss ns)"
  obtain s k where sk: "p = (s, k)" by (cases p)
  have "shaved_ok st target s k" using assms(1) p sk unfolding list_all2_iff by fastforce
  moreover have "list_all (part_ok st) s" using assms(2) set_zip_leftD [of s k] p sk by (auto simp: list_all_iff)
  ultimately show "\<exists>u. check_shaved target p = Inr u" by (simp add: sk check_shaved_ok)
qed

text \<open>The leftovers have the rows that the shaved splits lack.\<close>

lemma room_for_leftovers:
  assumes "list_all2 (shaved_ok st (rows_len st (concat parts) div int (length parts))) ss ns"
    and "length ss = length parts" and "mset (concat ss @ ls) = mset (concat parts)" and "0 < length parts"
  shows "sum_list ns \<le> rows_len st ls"
proof -
  let ?total = "rows_len st (concat parts)" let ?n = "int (length parts)"
  have "mset (part_rows st (concat ss @ ls)) = mset (part_rows st (concat parts))"
    by (rule mset_part_rows [OF assms(3)])
  then have "?total = rows_len st (concat ss) + rows_len st ls"
    by (metis length_append mset_eq_length of_nat_add part_rows_simps(3))
  moreover have "?n * (?total div ?n) \<le> ?total" 
    unfolding minus_mod_eq_mult_div [symmetric] using assms(4) by simp
  ultimately show ?thesis using shaved_sum [OF assms(1)] assms(2) by simp
qed

lemma fill_ok:
  assumes "list_all2 (shaved_ok st target) ss ns" and "map (rows_len st') lv = ns"
    and "list_all (list_all (part_ok st')) lv"
    and "\<And>s. s \<in> set ss \<Longrightarrow> part_rows st' s = part_rows st s \<and> list_all (part_ok st') s"
  shows "list_all2 (\<lambda>s v. rows_len st' s + rows_len st' v = target \<and> list_all (part_ok st') (s @ v)) ss lv"
  unfolding list_all2_conv_all_nth
proof (intro conjI allI impI)
  show lens: "length ss = length lv" using assms(1,2) by (metis length_map list_all2_lengthD)
  fix i assume i: "i < length ss"
  have "rows_len st' (lv ! i) = ns ! i" using assms(2) i lens by (metis nth_map)
  moreover have "shaved_ok st target (ss ! i) (ns ! i)" using assms(1) i by (simp add: list_all2_conv_all_nth)
  ultimately show "rows_len st' (ss ! i) + rows_len st' (lv ! i) = target"
    using assms(4) [of "ss ! i"] i by (simp add: shaved_ok_def)
  have "list_all (part_ok st') (lv ! i)" using assms(3) i lens by (simp add: list_all_length [of "list_all (part_ok st')"])
  then show "list_all (part_ok st') (ss ! i @ lv ! i)" using assms(4) [of "ss ! i"] i by simp
qed

lemma filled_rows:
  assumes "length ss = length lv" and "\<And>s. s \<in> set ss \<Longrightarrow> part_rows st' s = part_rows st s"
    and "mset (concat (map (part_rows st') lv)) \<subseteq># mset (part_rows st ls)"
  shows "mset (concat (map (part_rows st') (map2 (@) ss lv))) \<subseteq># mset (part_rows st (concat ss @ ls))"
proof -
  have "mset (concat (map (part_rows st') (map2 (@) ss lv))) =
      mset (concat (map (part_rows st') ss)) + mset (concat (map (part_rows st') lv))"
    using assms(1) by (induction ss lv rule: list_induct2) simp_all
  moreover have "map (part_rows st') ss = map (part_rows st) ss" using assms(2) by simp
  ultimately show ?thesis using assms(3) by (simp add: part_rows_concat)
qed

lemma list_all_append_zip:
  "list_all (list_all P) xss \<Longrightarrow> list_all (list_all P) yss \<Longrightarrow> list_all (list_all P) (map2 (@) xss yss)"
proof (induction xss arbitrary: yss)
  case (Cons xs xss)
  then show ?case by (cases yss) simp_all
qed simp

lemma count_all_splits:
  assumes "list_all (part_ok st) (concat parts)"
  shows "rmap (calculate_blocks_rows st) parts = Inr (map (map (ref_len st)) parts)"
    and "sum_list (map sum_list (map (map (ref_len st)) parts)) = rows_len st (concat parts)"
proof -
  show "rmap (calculate_blocks_rows st) parts = Inr (map (map (ref_len st)) parts)"
    by (rule rmap_Inr_map, rule calculate_blocks_rows_ok) (use assms in \<open>auto simp: list_all_iff\<close>)
  show "sum_list (map sum_list (map (map (ref_len st)) parts)) = rows_len st (concat parts)"
    by (induction parts) (simp_all add: part_rows_length [symmetric])
qed

lemma equalize_ok:
  fixes st :: "'r obj_store"
  assumes "store_ok st" and "bundles_ok st bundles" and "bundles \<noteq> []"
  defines "parts \<equiv> map entries_of bundles"
  shows "\<exists>outs st'. equalize nbytes bundles owned st = Inr (outs, st') \<and> length outs = length bundles \<and>
    (\<forall>out\<in>set outs. rows_len st' (entries_of out) = rows_len st (concat parts) div int (length bundles)) \<and>
    mset (concat (map (part_rows st' \<circ> entries_of) outs)) \<subseteq># mset (part_rows st (concat parts)) \<and> list_all whole_blocks outs"
proof -
  let ?target = "rows_len st (concat parts) div int (length parts)"
  let ?sch = "take_first_non_empty_schema (map bundle_schema bundles)"
  have es: "list_all (part_ok st) (concat parts)" "list_all sized (concat parts)" "distinct (map fst (concat parts))"
    using assms(2) by (simp_all add: bundles_ok_def parts_def Let_def)
  have n: "0 < length parts" using assms(3) by (simp add: parts_def)
  obtain ss ns ls where shave: "shave_all_splits (zip parts (map (map (ref_len st)) parts)) ?target = (ss, ns, ls)"
    by (metis prod_cases3)
  have "0 \<le> ?target" using n by (simp add: pos_imp_zdiv_nonneg_iff)
  from shave_all_splits_ok [OF this shave]
  have sh: "list_all2 (shaved_ok st ?target) ss ns" "length ss = length parts"
    "mset (concat ss @ ls) = mset (concat parts)" by simp_all
  have "set (concat ss @ ls) = set (concat parts)" using sh(3) by (rule mset_eq_setD)
  then have ok: "list_all (part_ok st) (concat ss @ ls)" "list_all sized (concat ss @ ls)"
    using es(1,2) unfolding list_all_iff by blast+
  then have okss: "list_all (part_ok st) (concat ss)" "list_all sized (concat ss)"
    and okls: "list_all (part_ok st) ls" "list_all sized ls" by simp_all
  have "distinct (map fst (concat ss @ ls))"
    using es(3) sh(3) by (metis mset_map mset_eq_imp_distinct_iff)
  then have dist: "distinct (map fst ls)" "fst ` set (concat ss) \<inter> fst ` set ls = {}" by auto
  have needs: "list_all (\<lambda>k. 0 \<le> k) ns"
    using sh(1) by (auto simp: list_all2_conv_all_nth list_all_length shaved_ok_def)
  obtain us where checks: "rmap (check_shaved ?target) (zip ss ns) = Inr us" using checks_ok [OF sh(1) okss(1)] by blast
  obtain lb where lb: "bundle_of ls owned ?sch = Inr lb" "entries_of lb = ls"
    using bundle_of_ok [OF okls(2), of owned ?sch] by blast
  obtain lv st' where lv: "split_leftovers nbytes lb ns st = Inr (lv, st')" "map (rows_len st') lv = ns"
      "mset (concat (map (part_rows st') lv)) \<subseteq># mset (part_rows st ls)"
      "list_all (list_all (part_ok st')) lv" "list_all (list_all sized) lv"
      "\<forall>r < next_ref st. r \<notin> fst ` set ls \<longrightarrow> map_of (objs st') r = map_of (objs st) r"
    using split_leftovers_ok [OF assms(1) okls(1) dist(1) okls(2) lb(2) needs room_for_leftovers [OF sh n]] by blast
  have keep: "part_rows st' s = part_rows st s \<and> list_all (part_ok st') s" if "s \<in> set ss" for s
  proof (rule same_rows_outside [OF assms(1) _ _ lv(6)])
    show "list_all (part_ok st) s" using okss(1) that by (auto simp: list_all_iff)
    have "fst ` set s \<subseteq> fst ` set (concat ss)" using that by (intro image_mono) auto
    with dist(2) show "fst ` set s \<inter> fst ` set ls = {}" by blast
  qed
  note fill = fill_ok [OF sh(1) lv(2,4) keep]
  have lens: "length ss = length lv" using fill by (rule list_all2_lengthD)
  let ?f = "map2 (@) ss lv"
  have "list_all (list_all sized) ss" using okss(2) by (auto simp: list_all_iff)
  then have "list_all (list_all sized) ?f" by (rule list_all_append_zip [OF _ lv(5)])
  from bundles_of_ok [OF this, of owned ?sch]
  obtain outs where outs: "rmap (\<lambda>ps. bundle_of ps owned ?sch) ?f = Inr outs" "map entries_of outs = ?f"
    "list_all whole_blocks outs" by blast
  have "equalize nbytes bundles owned st = Inr (outs, st')"
    using assms(3) count_all_splits [OF es(1)] shave checks lb(1) lv(1) extend_all_ok [OF fill] outs(1) lens
    by (simp add: equalize_def Let_def parts_def [symmetric])
  moreover have "length outs = length bundles"
    using arg_cong [OF outs(2), of length] lens sh(2) by (simp add: parts_def)
  moreover have "\<forall>out\<in>set outs. rows_len st' (entries_of out) = ?target"
  proof
    fix out assume "out \<in> set outs"
    then have "entries_of out \<in> set ?f" using outs(2) by (metis image_eqI set_map)
    then show "rows_len st' (entries_of out) = ?target" using fill by (auto simp: list_all2_iff)
  qed
  moreover have "mset (concat (map (part_rows st' \<circ> entries_of) outs)) \<subseteq># mset (part_rows st (concat parts))"
    using filled_rows [OF lens _ lv(3)] keep mset_part_rows [OF sh(3), of st]
    unfolding outs(2) [symmetric] map_map by (simp add: comp_assoc)
  ultimately show ?thesis using outs(3) by (auto simp: parts_def)
qed

text \<open>The slices of the input bundles are not looked at.\<close>

lemma equalize_ignores_slices:
  assumes "bundles \<noteq> []"
  shows "equalize nbytes (map (\<lambda>b. b\<lparr>slices := ss b\<rparr>) bundles) owned st = equalize nbytes bundles owned st"
proof -
  let ?bs = "map (\<lambda>b. b\<lparr>slices := ss b\<rparr>) bundles"
  have "map entries_of ?bs = map entries_of bundles" "map bundle_schema ?bs = map bundle_schema bundles"
    "(?bs = []) = False" "(bundles = []) = False" using assms by (simp_all add: entries_of_def)
  then show ?thesis unfolding equalize_def by (simp only: if_False)
qed

subsection \<open>Properties\<close>

text \<open>C6: for bundles of whole, pairwise different blocks whose row counts are known and true and whose sizes
  are known, equalizing succeeds, every output bundle has exactly the same number of rows (all rows
  of the input divided by the number of splits, rounded down), and together the outputs hold rows of
  the input, each at most once. A bundle with slices is outside the claim: the code reads the whole
  blocks of such a bundle.\<close>

theorem equalize_exact:
  assumes "store_ok st" and "bundles_ok st bundles" and "list_all whole_blocks bundles" and "bundles \<noteq> []"
  shows "\<exists>outs st'. equalize nbytes bundles owned st = Inr (outs, st') \<and> length outs = length bundles \<and>
    (\<forall>out\<in>set outs. int (length (rows_in st' out)) = int (length (concat (map (rows_in st) bundles))) div int (length bundles)) \<and>
    mset (concat (map (rows_in st') outs)) \<subseteq># mset (concat (map (rows_in st) bundles))"
proof -
  have "map (rows_in st) bundles = map (part_rows st) (map entries_of bundles)"
    using assms(3) by (simp add: rows_in_whole list_all_iff)
  then have all: "concat (map (rows_in st) bundles) = part_rows st (concat (map entries_of bundles))"
    unfolding part_rows_concat by (rule arg_cong)
  obtain outs st' where o: "equalize nbytes bundles owned st = Inr (outs, st')" "length outs = length bundles"
    "\<forall>out\<in>set outs. rows_len st' (entries_of out) = rows_len st (concat (map entries_of bundles)) div int (length bundles)"
    "mset (concat (map (part_rows st' \<circ> entries_of) outs)) \<subseteq># mset (part_rows st (concat (map entries_of bundles)))"
    "list_all whole_blocks outs" using equalize_ok [OF assms(1,2,4)] by blast
  have outs: "map (rows_in st') outs = map (part_rows st' \<circ> entries_of) outs"
    using o(5) by (simp add: rows_in_whole list_all_iff)
  have "mset (concat (map (rows_in st') outs)) \<subseteq># mset (concat (map (rows_in st) bundles))" unfolding all outs by (rule o(4))
  moreover have "\<forall>out\<in>set outs. int (length (rows_in st' out)) = int (length (concat (map (rows_in st) bundles))) div int (length bundles)"
    using o(3,5) unfolding all by (simp add: rows_in_whole list_all_iff)
  ultimately show ?thesis using o(1,2) by blast
qed

definition sample_entry :: "nat \<Rightarrow> int \<Rightarrow> block_entry" where
  "sample_entry r n = \<lparr>entry_ref = r, entry_metadata = \<lparr>md_num_rows = Some n, md_size_bytes = Some (8 * n)\<rparr>\<rparr>"

definition sample_splits :: "ref_bundle list" where
  "sample_splits = map (\<lambda>es. \<lparr>blocks = es, bundle_schema = None, owns_blocks = True,
     slices = map (\<lambda>_. None) es, output_split_idx = None\<rparr>)
     [[sample_entry 0 3, sample_entry 2 4], [sample_entry 1 1], []]"

theorem equalize_exact_witness:
  "\<exists>outs st'. equalize (\<lambda>b. int (length b)) sample_splits True sample_store = Inr (outs, st') \<and> length outs = 3 \<and>
     (\<forall>out\<in>set outs. length (rows_in st' out) = 2)"
proof -
  have "store_ok sample_store" by code_simp
  moreover have "bundles_ok sample_store sample_splits" unfolding bundles_ok_def part_ok_def sized_def by code_simp
  moreover have "sample_splits \<noteq> []" "length sample_splits = 3" by (simp_all add: sample_splits_def)
  moreover have "list_all whole_blocks sample_splits" by (simp add: whole_blocks_def sample_splits_def)
  moreover have "length (concat (map (rows_in sample_store) sample_splits)) = 8" by code_simp
  ultimately show ?thesis
    using equalize_exact [of sample_store sample_splits "\<lambda>b. int (length b)" True] by fastforce
qed

end
