(* ===== verification/Batching.thy ===== *)
theory Batching
  imports Split_Blocks
begin

section \<open>Ray Data: from blocks to batches\<close>

text \<open>
  Models the batcher interface of \<open>ray/python/ray/data/_internal/batcher.py\<close> and the iterator of
  \<open>ray/python/ray/data/_internal/block_batching/util.py\<close> that drives a batcher. A block is the list
  of its rows. The methods of a batcher are a record, so that the iterator is written once and
  runs on both batchers; what it may rely on is a locale that each of them interprets.
\<close>

subsection \<open>The interface and the iterator\<close>

record ('b, 'r) batcher_ops =
  op_add :: "'r list \<Rightarrow> 'b \<Rightarrow> 'b"
  op_done_adding :: "'b \<Rightarrow> 'b"
  op_has_batch :: "'b \<Rightarrow> bool"
  op_has_any :: "'b \<Rightarrow> bool"
  op_next_batch :: "'b \<Rightarrow> ('r list \<times> 'b) result"

record ('b, 'r) batching_iterator =
  bi_blocks :: "'r list list"
  bi_drop_last :: bool
  bi_global_counter :: nat
  bi_done_adding :: bool
  bi_batcher :: 'b

definition batching_init :: "'b \<Rightarrow> bool \<Rightarrow> 'r list list \<Rightarrow> ('b, 'r) batching_iterator" where
  "batching_init batcher drop_last bs =
     \<lparr>bi_blocks = bs, bi_drop_last = drop_last, bi_global_counter = 0, bi_done_adding = False, bi_batcher = batcher\<rparr>"

definition can_yield :: "('b, 'r) batcher_ops \<Rightarrow> ('b, 'r) batching_iterator \<Rightarrow> bool" where
  "can_yield ops it \<longleftrightarrow> op_has_batch ops (bi_batcher it) \<or>
     op_has_any ops (bi_batcher it) \<and> bi_done_adding it \<and> \<not> bi_drop_last it"

text \<open>\<open>__next__\<close>: a batch with its index, or the exception, and the iterator afterwards.\<close>

function batching_next ::
    "('b, 'r) batcher_ops \<Rightarrow> ('b, 'r) batching_iterator
     \<Rightarrow> (nat \<times> 'r list) result \<times> ('b, 'r) batching_iterator" where
  "batching_next ops it =
     (if can_yield ops it
      then (case op_next_batch ops (bi_batcher it) of
              Inl e \<Rightarrow> (Inl e, it)
            | Inr (data, b) \<Rightarrow>
                (Inr (bi_global_counter it, data),
                 it\<lparr>bi_batcher := b, bi_global_counter := bi_global_counter it + 1\<rparr>))
      else if \<not> bi_done_adding it
      then (case bi_blocks it of
              block # rest \<Rightarrow>
                batching_next ops (it\<lparr>bi_blocks := rest, bi_batcher := op_add ops block (bi_batcher it)\<rparr>)
            | [] \<Rightarrow> batching_next ops (it\<lparr>bi_batcher := op_done_adding ops (bi_batcher it), bi_done_adding := True\<rparr>))
      else (Inl StopIteration, it))"
  by pat_completeness auto
termination batching_next
  by (relation "measure (\<lambda>(ops, it). length (bi_blocks it) + (if bi_done_adding it then 0 else 1))") auto

declare batching_next.simps [simp del]

text \<open>The batches that at most \<open>n\<close> calls give.\<close>

abbreviation take_batches ::
    "('b, 'r) batcher_ops \<Rightarrow> nat \<Rightarrow> ('b, 'r) batching_iterator \<Rightarrow> (nat \<times> 'r list) list \<times> py_error option" where
  "take_batches ops \<equiv> take_iter (batching_next ops)"

subsection \<open>Full chunks\<close>

text \<open>The chunks that are not short.\<close>

definition full_chunks :: "nat \<Rightarrow> 'r list \<Rightarrow> 'r list list" where
  "full_chunks n xs = filter (\<lambda>c. length c = n) (chunks n xs)"

lemma full_chunks_step: "0 < n \<Longrightarrow> n \<le> length xs \<Longrightarrow> full_chunks n xs = take n xs # full_chunks n (drop n xs)"
  by (cases "xs = []") (auto simp: full_chunks_def chunks_step)

lemma full_chunks_short: "0 < n \<Longrightarrow> length xs < n \<Longrightarrow> full_chunks n xs = []"
  by (cases "xs = []") (auto simp: full_chunks_def chunks_short)

subsection \<open>What the iterator relies on\<close>

text \<open>
  \<open>rows\<close> are the rows a batcher holds, \<open>done\<close> whether \<open>done_adding\<close> was called, \<open>full\<close> what a batch
  promised by \<open>has_batch\<close> looks like, \<open>short\<close> how many rows may be left when there is none. Blocks are added only while there is no batch to take.
\<close>

locale batcher_interface =
  fixes ops :: "('b, 'r) batcher_ops"
    and inv :: "'b \<Rightarrow> bool"
    and rows :: "'b \<Rightarrow> 'r list"
    and closed :: "'b \<Rightarrow> bool"
    and full :: "'r list \<Rightarrow> bool"
    and short :: "nat \<Rightarrow> bool"
  assumes add_inv: "inv b \<Longrightarrow> \<not> closed b \<Longrightarrow> \<not> op_has_batch ops b \<Longrightarrow>
      inv (op_add ops x b) \<and> \<not> closed (op_add ops x b) \<and> mset (rows (op_add ops x b)) = mset (rows b) + mset x"
    and done_inv: "inv b \<Longrightarrow>
      inv (op_done_adding ops b) \<and> closed (op_done_adding ops b) \<and> rows (op_done_adding ops b) = rows b"
    and has_any: "inv b \<Longrightarrow> op_has_any ops b \<longleftrightarrow> rows b \<noteq> []"
    and has_batch: "inv b \<Longrightarrow> op_has_batch ops b \<Longrightarrow> rows b \<noteq> []"
    and next_batch: "inv b \<Longrightarrow> op_has_batch ops b \<or> closed b \<and> rows b \<noteq> [] \<Longrightarrow>
      \<exists>x b'. op_next_batch ops b = Inr (x, b') \<and> inv b' \<and> closed b' = closed b \<and> x \<noteq> [] \<and>
        mset (rows b) = mset x + mset (rows b') \<and>
        (if op_has_batch ops b then full x else rows b' = [])"
    and leftover: "inv b \<Longrightarrow> closed b \<Longrightarrow> \<not> op_has_batch ops b \<Longrightarrow> short (length (rows b))"
begin

definition iter_ok :: "('b, 'r) batching_iterator \<Rightarrow> bool" where
  "iter_ok it \<longleftrightarrow> inv (bi_batcher it) \<and> closed (bi_batcher it) = bi_done_adding it \<and>
     (bi_done_adding it \<longrightarrow> bi_blocks it = [])"

definition pending :: "('b, 'r) batching_iterator \<Rightarrow> 'r multiset" where
  "pending it = mset (rows (bi_batcher it)) + mset (concat (bi_blocks it))"

text \<open>A call first adds blocks until it can yield or the blocks have ended.\<close>

lemma next_settles:
  assumes "iter_ok it" and "batching_next ops it = (r, it')" and "P it"
    and add: "\<And>it x xs. P it \<Longrightarrow> iter_ok it \<Longrightarrow> \<not> bi_done_adding it \<Longrightarrow> \<not> op_has_batch ops (bi_batcher it) \<Longrightarrow>
      bi_blocks it = x # xs \<Longrightarrow> P (it\<lparr>bi_blocks := xs, bi_batcher := op_add ops x (bi_batcher it)\<rparr>)"
    and done_: "\<And>it. P it \<Longrightarrow> iter_ok it \<Longrightarrow> \<not> bi_done_adding it \<Longrightarrow> bi_blocks it = [] \<Longrightarrow>
      P (it\<lparr>bi_batcher := op_done_adding ops (bi_batcher it), bi_done_adding := True\<rparr>)"
  shows "\<exists>it1. P it1 \<and> iter_ok it1 \<and> batching_next ops it1 = (r, it') \<and> (can_yield ops it1 \<or> bi_done_adding it1)"
  using assms(1-3)
proof (induction "length (bi_blocks it) + (if bi_done_adding it then 0 else 1)" arbitrary: it rule: less_induct)
  case less
  have inv: "inv (bi_batcher it)" "closed (bi_batcher it) = bi_done_adding it"
    using less.prems(1) by (simp_all add: iter_ok_def)
  show ?case
  proof (cases "can_yield ops it \<or> bi_done_adding it")
    case True
    then show ?thesis using less.prems by blast
  next
    case False
    obtain it1 where "batching_next ops it1 = (r, it')" "iter_ok it1" "P it1"
        "length (bi_blocks it1) + (if bi_done_adding it1 then 0 else 1) <
         length (bi_blocks it) + (if bi_done_adding it then 0 else 1)"
    proof (cases "bi_blocks it")
      case Nil
      show thesis
        by (rule that [of "it\<lparr>bi_batcher := op_done_adding ops (bi_batcher it), bi_done_adding := True\<rparr>"])
          (use less.prems False Nil done_inv [OF inv(1)] done_ [of it] in
            \<open>simp_all add: batching_next.simps [of ops it] iter_ok_def\<close>)
    next
      case (Cons x xs)
      have nb: "\<not> op_has_batch ops (bi_batcher it)" using False by (simp add: can_yield_def)
      show thesis
        by (rule that [of "it\<lparr>bi_blocks := xs, bi_batcher := op_add ops x (bi_batcher it)\<rparr>"])
          (use less.prems False Cons add_inv [OF inv(1) _ nb, of x] inv(2) add [of it x xs] nb in
            \<open>simp_all add: batching_next.simps [of ops it] iter_ok_def\<close>)
    qed
    then show ?thesis using less.hyps by blast
  qed
qed

lemma next_exhausted:
  assumes "\<not> can_yield ops it" and "bi_done_adding it"
  shows "batching_next ops it = (Inl StopIteration, it)"
  using assms by (simp add: batching_next.simps)

lemma next_yields:
  assumes ok: "iter_ok it" and y: "can_yield ops it"
  obtains x b' where "batching_next ops it =
      (Inr (bi_global_counter it, x), it\<lparr>bi_batcher := b', bi_global_counter := bi_global_counter it + 1\<rparr>)"
    "op_next_batch ops (bi_batcher it) = Inr (x, b')" "inv b'" "closed b' = closed (bi_batcher it)" "x \<noteq> []"
    "mset (rows (bi_batcher it)) = mset x + mset (rows b')"
    "if op_has_batch ops (bi_batcher it) then full x else rows b' = []"
proof -
  have inv: "inv (bi_batcher it)" "closed (bi_batcher it) = bi_done_adding it" using ok by (simp_all add: iter_ok_def)
  have "op_has_batch ops (bi_batcher it) \<or> closed (bi_batcher it) \<and> rows (bi_batcher it) \<noteq> []"
    using inv has_any [OF inv(1)] y by (auto simp: can_yield_def)
  from next_batch [OF inv(1) this] obtain x b' where x:
      "op_next_batch ops (bi_batcher it) = Inr (x, b')" "inv b'" "closed b' = closed (bi_batcher it)" "x \<noteq> []"
      "mset (rows (bi_batcher it)) = mset x + mset (rows b')"
      "if op_has_batch ops (bi_batcher it) then full x else rows b' = []" by blast
  then show thesis using y by (intro that [of x b']) (simp_all add: batching_next.simps)
qed

lemma next_cases:
  assumes "iter_ok it" and "batching_next ops it = (r, it')"
  shows "(r = Inl StopIteration \<and> (\<not> bi_drop_last it \<longrightarrow> pending it = {#}) \<and> short (size (pending it))) \<or>
    (\<exists>x. r = Inr (bi_global_counter it, x) \<and> x \<noteq> [] \<and> pending it = mset x + pending it' \<and> iter_ok it' \<and>
      bi_drop_last it' = bi_drop_last it \<and> bi_global_counter it' = Suc (bi_global_counter it) \<and>
      (full x \<or> \<not> bi_drop_last it \<and> pending it' = {#} \<and> short (length x)))"
proof -
  let ?P = "\<lambda>it1. pending it1 = pending it \<and> bi_drop_last it1 = bi_drop_last it \<and>
    bi_global_counter it1 = bi_global_counter it"
  have "\<exists>it1. ?P it1 \<and> iter_ok it1 \<and> batching_next ops it1 = (r, it') \<and> (can_yield ops it1 \<or> bi_done_adding it1)"
    by (rule next_settles [OF assms]) (simp_all add: pending_def iter_ok_def add_inv done_inv ac_simps)
  then obtain it1 where P: "?P it1" and it1: "iter_ok it1" "batching_next ops it1 = (r, it')"
      "can_yield ops it1 \<or> bi_done_adding it1" by blast
  have inv: "inv (bi_batcher it1)" and d: "bi_done_adding it1 \<longrightarrow> bi_blocks it1 = []"
    using it1(1) by (simp_all add: iter_ok_def)
  show ?thesis
  proof (cases "can_yield ops it1")
    case True
    from next_yields [OF it1(1) True] obtain x b' where x: "batching_next ops it1 =
        (Inr (bi_global_counter it1, x), it1\<lparr>bi_batcher := b', bi_global_counter := bi_global_counter it1 + 1\<rparr>)"
      "inv b'" "closed b' = closed (bi_batcher it1)" "x \<noteq> []" "mset (rows (bi_batcher it1)) = mset x + mset (rows b')"
      "if op_has_batch ops (bi_batcher it1) then full x else rows b' = []" by metis
    have r: "r = Inr (bi_global_counter it, x)"
      "it' = it1\<lparr>bi_batcher := b', bi_global_counter := bi_global_counter it + 1\<rparr>" using it1(2) x(1) P by auto
    have "pending it1 = mset x + pending it'" using x(5) by (simp add: r pending_def)
    then have "pending it = mset x + pending it'" using P by simp
    moreover have "full x \<or> \<not> bi_drop_last it \<and> pending it' = {#} \<and> short (length x)"
    proof (cases "op_has_batch ops (bi_batcher it1)")
      case nb: False
      have y: "bi_done_adding it1" "\<not> bi_drop_last it1" using True nb by (simp_all add: can_yield_def)
      have "mset (rows (bi_batcher it1)) = mset x" using x(5,6) nb by simp
      then have "length x = length (rows (bi_batcher it1))" by (metis mset_eq_length)
      then have "short (length x)" using leftover [OF inv _ nb] it1(1) y by (simp add: iter_ok_def)
      then show ?thesis using x(6) nb y d P by (simp add: r pending_def)
    qed (use x(6) in simp)
    moreover have "iter_ok it'" using x it1(1) by (simp add: r iter_ok_def)
    ultimately show ?thesis using x(4) P by (simp add: r)
  next
    case False
    then have "r = Inl StopIteration" using it1(2,3) next_exhausted by simp
    moreover have "\<not> bi_drop_last it1 \<longrightarrow> pending it1 = {#}"
      using False it1(3) d has_any [OF inv] by (auto simp: can_yield_def pending_def)
    moreover have "short (size (pending it1))"
      using False it1(1,3) d leftover [OF inv] by (auto simp: can_yield_def pending_def iter_ok_def)
    ultimately show ?thesis using P by simp
  qed
qed

text \<open>Enough calls consume the iterator to its end, and every row comes out exactly once.\<close>

lemma take_batches_complete:
  assumes "iter_ok it" and "size (pending it) < n"
  shows "\<exists>bs rest. take_batches ops n it = (bs, Some StopIteration) \<and>
    map fst bs = [bi_global_counter it..<bi_global_counter it + length bs] \<and>
    mset (concat (map snd bs)) + rest = pending it \<and> [] \<notin> snd ` set bs \<and>
    (\<not> bi_drop_last it \<longrightarrow> rest = {#}) \<and> short (size rest) \<and>
    list_all (\<lambda>x. full x \<or> short (length x)) (map snd bs) \<and> list_all full (map snd (if bi_drop_last it then bs else butlast bs))"
  using assms
proof (induction n arbitrary: it)
  case (Suc n)
  obtain r it' where run: "batching_next ops it = (r, it')" by (metis surj_pair)
  from next_cases [OF Suc.prems(1) run]
  consider "r = Inl StopIteration" "\<not> bi_drop_last it \<longrightarrow> pending it = {#}" "short (size (pending it))"
    | x where "r = Inr (bi_global_counter it, x)" "x \<noteq> []" "pending it = mset x + pending it'" "iter_ok it'"
      "bi_drop_last it' = bi_drop_last it" "bi_global_counter it' = Suc (bi_global_counter it)"
      "full x \<or> \<not> bi_drop_last it \<and> pending it' = {#} \<and> short (length x)" by blast
  then show ?case
  proof cases
    case 1
    then show ?thesis by (intro exI [of _ "[]"] exI [of _ "pending it"]) (simp add: run)
  next
    case 2
    have "size (pending it') < n" using Suc.prems(2) 2(2,3) by (cases x) simp_all
    from Suc.IH [OF 2(4) this] obtain bs rest where IH:
        "take_batches ops n it' = (bs, Some StopIteration)"
        "map fst bs = [Suc (bi_global_counter it)..<Suc (bi_global_counter it) + length bs]"
        "mset (concat (map snd bs)) + rest = pending it'" "[] \<notin> snd ` set bs"
        "\<not> bi_drop_last it \<longrightarrow> rest = {#}" "short (size rest)"
        "list_all (\<lambda>x. full x \<or> short (length x)) (map snd bs)"
        "list_all full (map snd (if bi_drop_last it then bs else butlast bs))" unfolding 2(5,6) by blast
    have "list_all full (map snd (if bi_drop_last it then (bi_global_counter it, x) # bs
        else butlast ((bi_global_counter it, x) # bs)))"
    proof (cases "bs = [] \<and> \<not> bi_drop_last it")
      case False
      have "full x"
      proof (cases "bi_drop_last it")
        case no: False
        then obtain y ys where "bs = y # ys" using False by (cases bs) auto
        then have "pending it' \<noteq> {#}" using IH(3,4) by auto
        then show ?thesis using 2(7) by simp
      qed (use 2(7) in simp)
      then show ?thesis using IH(8) False by auto
    qed simp
    moreover have "map fst ((bi_global_counter it, x) # bs) =
        [bi_global_counter it..<bi_global_counter it + length ((bi_global_counter it, x) # bs)]"
      using IH(2) by (simp add: upt_conv_Cons del: upt_Suc)
    moreover have "take_batches ops (Suc n) it = ((bi_global_counter it, x) # bs, Some StopIteration)"
      using IH(1) 2(1) run by simp
    moreover have "full x \<or> short (length x)" using 2(7) by blast
    ultimately show ?thesis
      using IH(3-7) 2(2,3) by (intro exI [of _ "(bi_global_counter it, x) # bs"] exI [of _ rest])
        (simp del: take_iter.simps upt_Suc add: ac_simps)
  qed
qed simp

end

subsection \<open>Batchers that keep the order\<close>

locale ordered_batcher = batcher_interface +
  fixes bs :: nat
  assumes size_pos: "0 < bs"
    and add_rows: "inv b \<Longrightarrow> \<not> closed b \<Longrightarrow> \<not> op_has_batch ops b \<Longrightarrow> rows (op_add ops x b) = rows b @ x"
    and has_batch_iff: "inv b \<Longrightarrow> op_has_batch ops b \<longleftrightarrow> bs \<le> length (rows b)"
    and next_rows: "inv b \<Longrightarrow> op_next_batch ops b = Inr (x, b') \<Longrightarrow> x = take bs (rows b) \<and> rows b' = drop bs (rows b)"
begin

definition all_rows :: "('a, 'b) batching_iterator \<Rightarrow> 'b list" where
  "all_rows it = rows (bi_batcher it) @ concat (bi_blocks it)"

lemma next_ordered:
  assumes "iter_ok it" and "batching_next ops it = (r, it')"
  shows "if bs \<le> length (all_rows it) \<or> \<not> bi_drop_last it \<and> all_rows it \<noteq> []
    then (\<exists>i. r = Inr (i, take bs (all_rows it))) \<and> all_rows it' = drop bs (all_rows it) \<and> iter_ok it' \<and>
      bi_drop_last it' = bi_drop_last it
    else r = Inl StopIteration"
proof -
  let ?P = "\<lambda>it1. all_rows it1 = all_rows it \<and> bi_drop_last it1 = bi_drop_last it"
  have "\<exists>it1. ?P it1 \<and> iter_ok it1 \<and> batching_next ops it1 = (r, it') \<and> (can_yield ops it1 \<or> bi_done_adding it1)"
    by (rule next_settles [OF assms]) (simp_all add: all_rows_def iter_ok_def add_rows done_inv)
  then obtain it1 where P: "?P it1" and it1: "iter_ok it1" "batching_next ops it1 = (r, it')"
      "can_yield ops it1 \<or> bi_done_adding it1" by blast
  have inv: "inv (bi_batcher it1)" and d: "bi_done_adding it1 \<longrightarrow> bi_blocks it1 = []"
    using it1(1) by (simp_all add: iter_ok_def)
  let ?R = "rows (bi_batcher it1)"
  have y: "can_yield ops it1 \<longleftrightarrow> bs \<le> length ?R \<or> ?R \<noteq> [] \<and> bi_done_adding it1 \<and> \<not> bi_drop_last it1"
    using has_any [OF inv] has_batch_iff [OF inv] by (simp add: can_yield_def)
  show ?thesis
  proof (cases "can_yield ops it1")
    case True
    from next_yields [OF it1(1) True] obtain x b' where x: "batching_next ops it1 =
        (Inr (bi_global_counter it1, x), it1\<lparr>bi_batcher := b', bi_global_counter := bi_global_counter it1 + 1\<rparr>)"
      "op_next_batch ops (bi_batcher it1) = Inr (x, b')" "inv b'" "closed b' = closed (bi_batcher it1)" by metis
    note nx = next_rows [OF inv x(2)]
    have "bs \<le> length ?R \<or> bi_blocks it1 = []" using True y d by blast
    then have "take bs (all_rows it1) = x" "drop bs (all_rows it1) = rows b' @ concat (bi_blocks it1)"
      using nx by (auto simp: all_rows_def)
    moreover have "bs \<le> length (all_rows it1) \<or> \<not> bi_drop_last it1 \<and> all_rows it1 \<noteq> []"
      using True y by (auto simp: all_rows_def)
    moreover have "iter_ok it'" "bi_drop_last it' = bi_drop_last it1" "all_rows it' = rows b' @ concat (bi_blocks it1)"
      "r = Inr (bi_global_counter it1, x)"
      using x it1(1,2) by (auto simp: iter_ok_def all_rows_def)
    ultimately show ?thesis using P by (simp only: if_True) auto
  next
    case False
    then have "r = Inl StopIteration" "all_rows it1 = ?R" using it1(2,3) next_exhausted d by (auto simp: all_rows_def)
    moreover have "\<not> (bs \<le> length ?R \<or> \<not> bi_drop_last it1 \<and> ?R \<noteq> [])" using False it1(3) y by blast
    ultimately show ?thesis using P by simp
  qed
qed

lemma take_batches_chunks:
  assumes "iter_ok it" and "length (all_rows it) < n"
  shows "\<exists>xs. take_batches ops n it = (xs, Some StopIteration) \<and>
    map snd xs = (if bi_drop_last it then full_chunks bs (all_rows it) else chunks bs (all_rows it))"
  using assms
proof (induction n arbitrary: it)
  case (Suc n)
  obtain r it' where run: "batching_next ops it = (r, it')" by (metis surj_pair)
  note nx = next_ordered [OF Suc.prems(1) run]
  show ?case
  proof (cases "bs \<le> length (all_rows it) \<or> \<not> bi_drop_last it \<and> all_rows it \<noteq> []")
    case True
    with nx obtain i where r: "r = Inr (i, take bs (all_rows it))" "all_rows it' = drop bs (all_rows it)"
      "iter_ok it'" "bi_drop_last it' = bi_drop_last it" by (simp only: if_True) blast
    have ne: "all_rows it \<noteq> []" using True size_pos by auto
    then have "length (all_rows it') < n" using r(2) Suc.prems(2) size_pos by (cases "all_rows it") auto
    from Suc.IH [OF r(3) this] obtain xs where xs: "take_batches ops n it' = (xs, Some StopIteration)"
        "map snd xs = (if bi_drop_last it then full_chunks bs (all_rows it') else chunks bs (all_rows it'))"
      unfolding r(4) by blast
    have "take_batches ops (Suc n) it = ((i, take bs (all_rows it)) # xs, Some StopIteration)"
      using run r(1) xs(1) by simp
    moreover have "map snd ((i, take bs (all_rows it)) # xs) =
        (if bi_drop_last it then full_chunks bs (all_rows it) else chunks bs (all_rows it))"
      using xs(2) r(2) True ne size_pos by (auto simp: full_chunks_step chunks_step)
    ultimately show ?thesis by blast
  next
    case False
    with nx have "take_batches ops (Suc n) it = ([], Some StopIteration)" using run by (simp only: if_False) simp
    then show ?thesis using False size_pos by (auto simp: full_chunks_short)
  qed
qed simp

end

end
