(* ===== verification/Plain_Batcher.thy ===== *)
theory Plain_Batcher
  imports Batching
begin

section \<open>Ray Data: the batcher that keeps the order\<close>

text \<open>
  Models the class \<open>Batcher\<close> of \<open>ray/python/ray/data/_internal/batcher.py\<close>. Copies and
  de-fragmentation leave the rows of a block as they are. The row count of the buffer may fall
  below zero, as it does when the last, short batch is taken.
\<close>

record 'r batcher =
  bt_batch_size :: "int option"
  bt_buffer :: "'r list list"
  bt_buffer_size :: int
  bt_done_adding :: bool
  bt_ensure_copy :: bool

definition batcher_init :: "int option \<Rightarrow> bool \<Rightarrow> 'r batcher" where
  "batcher_init batch_size ensure_copy =
     \<lparr>bt_batch_size = batch_size, bt_buffer = [], bt_buffer_size = 0, bt_done_adding = False, bt_ensure_copy = ensure_copy\<rparr>"

definition batcher_add :: "'r list \<Rightarrow> 'r batcher \<Rightarrow> 'r batcher" where
  "batcher_add block b =
     (if length block > 0
      then b\<lparr>bt_buffer := bt_buffer b @ [block], bt_buffer_size := bt_buffer_size b + int (length block)\<rparr>
      else b)"

definition batcher_done_adding :: "'r batcher \<Rightarrow> 'r batcher" where
  "batcher_done_adding b = b\<lparr>bt_done_adding := True\<rparr>"

definition batcher_has_any :: "'r batcher \<Rightarrow> bool" where
  "batcher_has_any b \<longleftrightarrow> bt_buffer_size b > 0"

definition batcher_has_batch :: "'r batcher \<Rightarrow> bool" where
  "batcher_has_batch b \<longleftrightarrow> batcher_has_any b \<and>
     (case bt_batch_size b of None \<Rightarrow> True | Some n \<Rightarrow> bt_buffer_size b \<ge> n)"

text \<open>The loop over the buffer: the blocks of the batch and the leftover.\<close>

fun batch_loop :: "int \<Rightarrow> 'r list list \<Rightarrow> 'r list list \<times> 'r list list" where
  "batch_loop needed [] = ([], [])"
| "batch_loop needed (block # bs) =
     (if needed \<le> 0 then (let (out, leftover) = batch_loop needed bs in (out, block # leftover))
      else if int (length block) \<le> needed
      then (let (out, leftover) = batch_loop (needed - int (length block)) bs in (block # out, leftover))
      else (let (out, leftover) = batch_loop 0 bs
            in (accessor_slice block 0 needed # out, accessor_slice block needed (int (length block)) # leftover)))"

definition batcher_next_batch :: "'r batcher \<Rightarrow> ('r list \<times> 'r batcher) result" where
  "batcher_next_batch b =
     (if \<not> (batcher_has_batch b \<or> bt_done_adding b \<and> batcher_has_any b) then Inl (AssertionError ''has_batch'')
      else (case bt_batch_size b of
              None \<Rightarrow>
                (if length (bt_buffer b) \<noteq> 1 then Inl (AssertionError ''len(self._buffer) == 1'')
                 else (let block = hd (bt_buffer b);
                           block' = (if bt_ensure_copy b then accessor_slice block 0 (int (length block)) else block)
                       in Inr (block', b\<lparr>bt_buffer := [], bt_buffer_size := 0\<rparr>)))
            | Some n \<Rightarrow>
                (let (out, leftover) = batch_loop n (bt_buffer b); batch = concat out;
                     batch' = (if bt_ensure_copy b then accessor_slice batch 0 (int (length batch)) else batch)
                 in Inr (batch', b\<lparr>bt_buffer := leftover, bt_buffer_size := bt_buffer_size b - n\<rparr>))))"

definition batcher_methods :: "('r batcher, 'r) batcher_ops" where
  "batcher_methods = \<lparr>op_add = batcher_add, op_done_adding = batcher_done_adding, op_has_batch = batcher_has_batch,
     op_has_any = batcher_has_any, op_next_batch = batcher_next_batch\<rparr>"

subsection \<open>The loop\<close>

lemma slice_whole [simp]: "accessor_slice xs 0 (int (length xs)) = xs"
  by (simp add: accessor_slice_def)

lemma batch_loop_rows:
  "batch_loop n bs = (out, left) \<Longrightarrow> [] \<notin> set bs \<Longrightarrow>
    concat out = take (nat n) (concat bs) \<and> concat left = drop (nat n) (concat bs) \<and> [] \<notin> set left"
proof (induction n bs arbitrary: out left rule: batch_loop.induct)
  case (2 n block bs)
  consider "n \<le> 0" | "0 < n" "int (length block) \<le> n" | "0 < n" "n < int (length block)" by linarith
  then show ?case
  proof cases
    case 1
    then show ?thesis using 2 by (auto split: prod.splits)
  next
    case c: 2
    obtain o' where o: "batch_loop (n - int (length block)) bs = (o', left)" "out = block # o'"
      using 2(4) c by (auto split: prod.splits)
    have "nat n - length block = nat (n - int (length block))" by simp
    then show ?thesis using 2(2) [OF _ c(2) o(1)] 2(5) c by (simp add: o(2))
  next
    case 3
    obtain o' l' where o: "batch_loop 0 bs = (o', l')" "out = accessor_slice block 0 n # o'"
        "left = accessor_slice block n (int (length block)) # l'"
      using 2(4) 3 by (auto split: prod.splits)
    have "concat o' = [] \<and> concat l' = concat bs \<and> [] \<notin> set l'" using 2(3) [OF _ _ o(1)] 2(5) 3 by simp
    then show ?thesis using 3 by (auto simp: o(2,3) accessor_slice_def)
  qed
qed simp

subsection \<open>The contract\<close>

text \<open>The buffer holds non-empty blocks and its row count is theirs, until the short last batch has
  been taken; without a batch size it holds at most one block.\<close>

definition batcher_inv :: "int option \<Rightarrow> 'r batcher \<Rightarrow> bool" where
  "batcher_inv n b \<longleftrightarrow> bt_batch_size b = n \<and> [] \<notin> set (bt_buffer b) \<and>
     (bt_buffer_size b = int (length (concat (bt_buffer b))) \<or> bt_done_adding b \<and> bt_buffer b = [] \<and> bt_buffer_size b < 0) \<and>
     (n = None \<longrightarrow> length (bt_buffer b) \<le> 1)"

definition batcher_rows :: "'r batcher \<Rightarrow> 'r list" where
  "batcher_rows b = concat (bt_buffer b)"

lemma batcher_size_pos:
  assumes "batcher_inv n b"
  shows "bt_buffer_size b > 0 \<longleftrightarrow> batcher_rows b \<noteq> []"
proof -
  have "bt_buffer_size b = int (length (batcher_rows b)) \<or> batcher_rows b = [] \<and> bt_buffer_size b < 0"
    using assms by (auto simp: batcher_inv_def batcher_rows_def)
  then show ?thesis by (auto simp del: length_0_conv)
qed

lemma batcher_has_batch_iff:
  assumes "batcher_inv (Some n) b" and "0 < n"
  shows "batcher_has_batch b \<longleftrightarrow> n \<le> int (length (batcher_rows b))"
proof -
  have "bt_buffer_size b = int (length (batcher_rows b)) \<or> length (batcher_rows b) = 0 \<and> bt_buffer_size b < 0"
    and "bt_batch_size b = Some n"
    using assms by (auto simp: batcher_inv_def batcher_rows_def)
  then show ?thesis using assms(2) by (auto simp: batcher_has_batch_def batcher_has_any_def)
qed

lemma batcher_next_sized:
  assumes inv: "batcher_inv (Some n) b" and "0 < n" and "batcher_next_batch b = Inr (x, b')"
  shows "x = take (nat n) (batcher_rows b) \<and> batcher_rows b' = drop (nat n) (batcher_rows b) \<and>
    batcher_inv (Some n) b' \<and> bt_done_adding b' = bt_done_adding b \<and> batcher_rows b \<noteq> []"
proof -
  obtain out left where l: "batch_loop n (bt_buffer b) = (out, left)" by fastforce
  have bs: "bt_batch_size b = Some n" "[] \<notin> set (bt_buffer b)" using inv by (simp_all add: batcher_inv_def)
  note rl = batch_loop_rows [OF l bs(2)]
  from assms(3) have ok: "batcher_has_batch b \<or> bt_done_adding b \<and> batcher_has_any b"
    and x: "x = concat out" and b': "b' = b\<lparr>bt_buffer := left, bt_buffer_size := bt_buffer_size b - n\<rparr>"
    by (auto simp: batcher_next_batch_def bs(1) l Let_def split: if_splits)
  have ne: "batcher_rows b \<noteq> []"
    using ok batcher_size_pos [OF inv] by (auto simp: batcher_has_batch_def batcher_has_any_def)
  have sz: "bt_buffer_size b = int (length (concat (bt_buffer b)))"
    using inv ne by (auto simp: batcher_inv_def batcher_rows_def)
  have "bt_buffer_size b - n = int (length (concat left)) \<or> bt_done_adding b \<and> left = [] \<and> bt_buffer_size b - n < 0"
  proof (cases "n \<le> bt_buffer_size b")
    case True
    then show ?thesis using rl sz assms(2) by (simp add: of_nat_diff nat_le_iff)
  next
    case False
    then have "bt_done_adding b" using ok by (auto simp: batcher_has_batch_def bs(1))
    moreover have "concat left = []" using rl False sz by simp
    then have "left = []" using rl by (cases left) auto
    ultimately show ?thesis using False by simp
  qed
  then show ?thesis using rl ne bs(1) by (simp add: x b' batcher_rows_def batcher_inv_def)
qed

lemma batcher_add_inv:
  assumes "batcher_inv n b" and "\<not> bt_done_adding b" and "\<not> batcher_has_batch b"
  shows "batcher_inv n (batcher_add x b) \<and> \<not> bt_done_adding (batcher_add x b) \<and>
    batcher_rows (batcher_add x b) = batcher_rows b @ x"
proof -
  have "n = None \<Longrightarrow> bt_buffer b = []"
    using assms batcher_size_pos [OF assms(1)]
    by (cases "bt_buffer b") (auto simp: batcher_has_batch_def batcher_has_any_def batcher_inv_def batcher_rows_def)
  then show ?thesis using assms(1,2) by (auto simp: batcher_add_def batcher_inv_def batcher_rows_def)
qed

lemma batcher_methods_simps [simp]:
  "op_add batcher_methods = batcher_add" "op_done_adding batcher_methods = batcher_done_adding"
  "op_has_batch batcher_methods = batcher_has_batch" "op_has_any batcher_methods = batcher_has_any"
  "op_next_batch batcher_methods = batcher_next_batch"
  by (simp_all add: batcher_methods_def)

lemma batcher_closed_inv:
  "batcher_inv n b \<Longrightarrow> batcher_inv n (batcher_done_adding b) \<and> bt_done_adding (batcher_done_adding b) \<and>
    batcher_rows (batcher_done_adding b) = batcher_rows b"
  by (auto simp: batcher_done_adding_def batcher_inv_def batcher_rows_def)

lemma batcher_next_ok:
  assumes inv: "batcher_inv (Some n) b" and n: "0 < n"
    and ok: "batcher_has_batch b \<or> bt_done_adding b \<and> batcher_rows b \<noteq> []"
  shows "\<exists>x b'. batcher_next_batch b = Inr (x, b')"
proof -
  have "bt_batch_size b = Some n" using inv by (simp add: batcher_inv_def)
  then show ?thesis
    using ok batcher_size_pos [OF inv] by (auto simp: batcher_next_batch_def batcher_has_any_def Let_def split: prod.splits)
qed

interpretation sized: ordered_batcher batcher_methods "batcher_inv (Some (int (Suc n)))" batcher_rows bt_done_adding
    "\<lambda>x. length x = Suc n" "\<lambda>m. m \<le> n" "Suc n" for n
proof (unfold_locales, unfold batcher_methods_simps)
  fix b :: "'a batcher" assume inv: "batcher_inv (Some (int (Suc n))) b"
  note has = batcher_has_batch_iff [OF inv]
  show "batcher_has_any b \<longleftrightarrow> batcher_rows b \<noteq> []" using batcher_size_pos [OF inv] by (simp add: batcher_has_any_def)
  show "batcher_has_batch b \<longleftrightarrow> Suc n \<le> length (batcher_rows b)" using has by auto
  show "batcher_rows b \<noteq> []" if "batcher_has_batch b" using has that by auto
  show "length (batcher_rows b) \<le> n" if "\<not> batcher_has_batch b" using has that by auto
  show "\<exists>x b'. batcher_next_batch b = Inr (x, b') \<and> batcher_inv (Some (int (Suc n))) b' \<and>
      bt_done_adding b' = bt_done_adding b \<and> x \<noteq> [] \<and> mset (batcher_rows b) = mset x + mset (batcher_rows b') \<and>
      (if batcher_has_batch b then length x = Suc n else batcher_rows b' = [])"
    if "batcher_has_batch b \<or> bt_done_adding b \<and> batcher_rows b \<noteq> []"
  proof -
    from batcher_next_ok [OF inv _ that] obtain x b' where x: "batcher_next_batch b = Inr (x, b')" by auto
    from batcher_next_sized [OF inv _ x, unfolded nat_int] have nx: "x = take (Suc n) (batcher_rows b)"
      "batcher_rows b' = drop (Suc n) (batcher_rows b)" "batcher_inv (Some (int (Suc n))) b'"
      "bt_done_adding b' = bt_done_adding b" "batcher_rows b \<noteq> []" by simp_all
    have "mset (batcher_rows b) = mset x + mset (batcher_rows b')"
      unfolding nx(1,2) mset_append [symmetric] append_take_drop_id ..
    moreover have "if batcher_has_batch b then length x = Suc n else batcher_rows b' = []"
      using has nx(1,2) by auto
    ultimately show ?thesis using x nx by auto
  qed
  show "x = take (Suc n) (batcher_rows b) \<and> batcher_rows b' = drop (Suc n) (batcher_rows b)"
    if "batcher_next_batch b = Inr (x, b')" for x b'
    using batcher_next_sized [OF inv _ that, unfolded nat_int] by simp
qed (use batcher_add_inv batcher_closed_inv in \<open>force+\<close>)

subsection \<open>Batches are chunks\<close>

lemma batcher_init_inv [simp]:
  "batcher_inv n (batcher_init n c)" "batcher_rows (batcher_init n c) = []" "\<not> bt_done_adding (batcher_init n c)"
  by (simp_all add: batcher_init_def batcher_inv_def batcher_rows_def)

text \<open>C19: However the rows are spread over blocks, iterating with a batch size of \<open>n\<close> gives the rows in
  order, cut into chunks of \<open>n\<close>: every batch has exactly \<open>n\<close> rows but the last, which is left
  out by \<open>drop_last\<close> when it is short. The batches are numbered from 0, and the iteration ends
  with \<open>StopIteration\<close> after at most one call more than there are rows.\<close>

theorem batches_are_chunks:
  assumes "0 < n" and "length (concat bs) < k"
  shows "\<exists>xs. take_batches batcher_methods k (batching_init (batcher_init (Some (int n)) c) drop_last bs) =
      (xs, Some StopIteration) \<and>
    map snd xs = (if drop_last then full_chunks n (concat bs) else chunks n (concat bs)) \<and>
    map fst xs = [0..<length xs]"
proof -
  obtain m where m: "n = Suc m" using assms(1) by (cases n) auto
  let ?it = "batching_init (batcher_init (Some (int (Suc m))) c) drop_last bs :: ('a batcher, 'a) batching_iterator"
  have ok: "sized.iter_ok m ?it" unfolding sized.iter_ok_def by (simp add: batching_init_def)
  have all: "sized.all_rows ?it = concat bs" by (simp add: sized.all_rows_def batching_init_def)
  have "size (sized.pending ?it) < k" using assms(2) by (simp add: sized.pending_def batching_init_def)
  from sized.take_batches_complete [OF ok this] sized.take_batches_chunks [OF ok, of k] assms(2)
  show ?thesis unfolding all m by (auto simp: batching_init_def)
qed

theorem batches_are_chunks_witness:
  "\<exists>xs. take_batches batcher_methods 9 (batching_init (batcher_init (Some 3) True) False [[1, 2], [], [3, 4, 5, 6::nat], [7]]) =
      (xs, Some StopIteration) \<and> map snd xs = [[1, 2, 3], [4, 5, 6], [7]] \<and> map fst xs = [0..<length xs]"
proof -
  have "chunks 3 (concat [[1, 2], [], [3, 4, 5, 6::nat], [7]]) = [[1, 2, 3], [4, 5, 6], [7]]" by code_simp
  then show ?thesis
    using batches_are_chunks [of 3 "[[1, 2], [], [3, 4, 5, 6::nat], [7]]" 9 True False] by simp
qed

text \<open>Without a batch size every non-empty block is one batch.\<close>

lemma take_batches_unsized:
  "length bs < k \<Longrightarrow>
    take_batches batcher_methods k \<lparr>bi_blocks = bs, bi_drop_last = d, bi_global_counter = i, bi_done_adding = False,
      bi_batcher = batcher_init None c\<rparr> =
    (zip [i..<i + length (filter (\<lambda>b. b \<noteq> []) bs)] (filter (\<lambda>b. b \<noteq> []) bs), Some StopIteration)"
proof (induction bs arbitrary: k i)
  case Nil
  then obtain j where "k = Suc j" by (cases k) auto
  then show ?case
    by (simp add: batching_next.simps can_yield_def batcher_has_batch_def batcher_has_any_def batcher_done_adding_def batcher_init_def)
next
  case (Cons b bs)
  then obtain j where k: "k = Suc j" by (cases k) auto
  let ?it = "\<lambda>bs i. \<lparr>bi_blocks = bs, bi_drop_last = d, bi_global_counter = i, bi_done_adding = False,
      bi_batcher = batcher_init None c\<rparr>"
  have no: "\<not> can_yield batcher_methods (?it (b # bs) i)"
    by (simp add: can_yield_def batcher_has_batch_def batcher_has_any_def batcher_init_def)
  show ?case
  proof (cases "b = []")
    case True
    have "batching_next batcher_methods (?it (b # bs) i) = batching_next batcher_methods (?it bs i)"
      using no unfolding True by (subst batching_next.simps) (simp add: batcher_add_def)
    then show ?thesis using Cons.IH [of "Suc j" i] Cons.prems True by (simp add: k)
  next
    case False
    have "batching_next batcher_methods (?it (b # bs) i) = (Inr (i, b), ?it bs (Suc i))"
    proof -
      let ?one = "(?it bs i)\<lparr>bi_batcher := batcher_add b (batcher_init None c)\<rparr>"
      have "batching_next batcher_methods (?it (b # bs) i) = batching_next batcher_methods ?one"
        using no by (simp add: batching_next.simps [of _ "?it (b # bs) i"])
      also have "\<dots> = (Inr (i, b), ?it bs (Suc i))"
        using False by (simp add: batching_next.simps can_yield_def batcher_has_batch_def batcher_has_any_def
            batcher_add_def batcher_init_def batcher_next_batch_def)
      finally show ?thesis .
    qed
    then show ?thesis using Cons.IH [of j "Suc i"] Cons.prems False by (simp add: k upt_conv_Cons del: upt_Suc)
  qed
qed

end
