(* ===== verification/Shuffling_Batcher.thy ===== *)
theory Shuffling_Batcher
  imports Batching
begin

section \<open>Ray Data: the batcher with a local shuffle buffer\<close>

text \<open>
  Models the class \<open>ShufflingBatcher\<close> of \<open>ray/python/ray/data/_internal/batcher.py\<close>. The random
  generator is a parameter: \<open>permutation\<close> maps its state and a length to an index array and the
  next state. The thresholds are computed with factors 0.5 and 1.5, which is exact on integers
  of up to 52 bits. The memory warning changes no state; the estimate it is based on is modelled.
\<close>

subsection \<open>State\<close>

record ('s, 'r) shuffler =
  sh_batch_size :: int
  sh_rng :: 's
  sh_shuffle_buffer_min_size :: int
  sh_min_rows_to_yield_batch :: int
  sh_min_rows_to_trigger_compaction :: int
  sh_builder :: "'r list list"
  sh_shuffle_buffer :: "'r list option"
  sh_shuffled_indices :: "nat list option"
  sh_batch_head :: int
  sh_done_adding :: bool
  sh_total_num_rows_added :: int
  sh_total_nbytes_added :: int

text \<open>Conversion of a rational to \<open>int\<close> rounds towards zero.\<close>

definition trunc_half :: "int \<Rightarrow> int" where
  "trunc_half x = sgn x * (\<bar>x\<bar> div 2)"

definition shuffler_init :: "int option \<Rightarrow> int \<Rightarrow> 's \<Rightarrow> ('s, 'r) shuffler result" where
  "shuffler_init batch_size min_size rng =
     (case batch_size of
        None \<Rightarrow> Inl (ValueError ''Must specify a batch_size if using a local shuffle.'')
      | Some n \<Rightarrow>
          (let m = (if min_size < n then n else min_size)
           in Inr \<lparr>sh_batch_size = n, sh_rng = rng, sh_shuffle_buffer_min_size = m,
                   sh_min_rows_to_yield_batch = max 1 (trunc_half m),
                   sh_min_rows_to_trigger_compaction = trunc_half (3 * m),
                   sh_builder = [], sh_shuffle_buffer = None, sh_shuffled_indices = None, sh_batch_head = 0,
                   sh_done_adding = False, sh_total_num_rows_added = 0, sh_total_nbytes_added = 0\<rparr>))"

subsection \<open>Operations\<close>

text \<open>\<open>nbytes\<close> is the size of a block in memory.\<close>

definition shuffler_add :: "('r list \<Rightarrow> int) \<Rightarrow> 'r list \<Rightarrow> ('s, 'r) shuffler \<Rightarrow> ('s, 'r) shuffler" where
  "shuffler_add nbytes block b =
     (if length block > 0
      then b\<lparr>sh_builder := sh_builder b @ [block],
             sh_total_num_rows_added := sh_total_num_rows_added b + int (length block),
             sh_total_nbytes_added := sh_total_nbytes_added b + nbytes block\<rparr>
      else b)"

definition average_row_nbytes :: "('s, 'r) shuffler \<Rightarrow> int option" where
  "average_row_nbytes b =
     (if sh_total_num_rows_added b > 0 then Some (sh_total_nbytes_added b div sh_total_num_rows_added b) else None)"

definition estimated_min_nbytes_in_buffers :: "('s, 'r) shuffler \<Rightarrow> int option" where
  "estimated_min_nbytes_in_buffers b =
     (case average_row_nbytes b of None \<Rightarrow> None | Some n \<Rightarrow> Some (n * sh_min_rows_to_trigger_compaction b))"

definition shuffler_done_adding :: "('s, 'r) shuffler \<Rightarrow> ('s, 'r) shuffler" where
  "shuffler_done_adding b = b\<lparr>sh_done_adding := True\<rparr>"

text \<open>The index array is set together with the buffer.\<close>

definition num_compacted_rows :: "('s, 'r) shuffler \<Rightarrow> int" where
  "num_compacted_rows b =
     (case sh_shuffle_buffer b of
        None \<Rightarrow> 0
      | Some _ \<Rightarrow> (case sh_shuffled_indices b of None \<Rightarrow> 0 | Some idx \<Rightarrow> max 0 (int (length idx) - sh_batch_head b)))"

definition num_uncompacted_rows :: "('s, 'r) shuffler \<Rightarrow> int" where
  "num_uncompacted_rows b = int (length (concat (sh_builder b)))"

definition shuffler_num_rows :: "('s, 'r) shuffler \<Rightarrow> int" where
  "shuffler_num_rows b = num_compacted_rows b + num_uncompacted_rows b"

definition shuffler_has_any :: "('s, 'r) shuffler \<Rightarrow> bool" where
  "shuffler_has_any b \<longleftrightarrow> shuffler_num_rows b > 0"

definition shuffler_has_batch :: "('s, 'r) shuffler \<Rightarrow> bool" where
  "shuffler_has_batch b =
     (let num_rows = shuffler_num_rows b
      in if \<not> sh_done_adding b
         then num_rows \<ge> sh_batch_size b \<and>
              (num_compacted_rows b \<ge> sh_min_rows_to_yield_batch b \<or>
               num_rows - sh_batch_size b \<ge> sh_min_rows_to_trigger_compaction b)
         else num_rows \<ge> sh_batch_size b)"

text \<open>Slicing an array: negative bounds count from the end.\<close>

definition py_bound :: "nat \<Rightarrow> int \<Rightarrow> nat" where
  "py_bound n i = (if i < 0 then nat (i + int n) else min (nat i) n)"

definition py_slice :: "'x list \<Rightarrow> int \<Rightarrow> int \<Rightarrow> 'x list" where
  "py_slice xs i j = (let a = py_bound (length xs) i; b = py_bound (length xs) j in take (b - a) (drop a xs))"

definition take_rows :: "'r list \<Rightarrow> nat list \<Rightarrow> 'r list result" where
  "take_rows buf idx = (if list_all (\<lambda>i. i < length buf) idx then Inr (map (\<lambda>i. buf ! i) idx) else Inl IndexError)"

text \<open>Compaction: the rows not yet taken join the builder, which becomes the buffer with a new
  permutation.\<close>

definition compact ::
    "('s \<Rightarrow> nat \<Rightarrow> nat list \<times> 's) \<Rightarrow> ('s, 'r) shuffler \<Rightarrow> ('s, 'r) shuffler result" where
  "compact permutation b =
     rbind
       (case (sh_shuffle_buffer b, sh_shuffled_indices b) of
          (Some buf, Some idx) \<Rightarrow>
            if sh_batch_head b < int (length idx)
            then rbind (take_rows buf (py_slice idx (sh_batch_head b) (int (length idx))))
                   (\<lambda>remaining. Inr (sh_builder b @ [remaining]))
            else Inr (sh_builder b)
        | _ \<Rightarrow> Inr (sh_builder b))
       (\<lambda>builder.
          let buf = concat builder; (idx, rng) = permutation (sh_rng b) (length buf)
          in Inr (b\<lparr>sh_shuffle_buffer := Some buf, sh_shuffled_indices := Some idx, sh_rng := rng,
                    sh_builder := [], sh_batch_head := 0\<rparr>))"

definition shuffler_next_batch ::
    "('s \<Rightarrow> nat \<Rightarrow> nat list \<times> 's) \<Rightarrow> ('s, 'r) shuffler \<Rightarrow> ('r list \<times> ('s, 'r) shuffler) result" where
  "shuffler_next_batch permutation b =
     (if \<not> (shuffler_has_batch b \<or> sh_done_adding b \<and> shuffler_has_any b) then Inl (AssertionError ''has_batch'')
      else rbind
        (if num_uncompacted_rows b > 0 \<and> (sh_done_adding b \<or> num_compacted_rows b \<le> sh_min_rows_to_yield_batch b)
         then compact permutation b else Inr b)
        (\<lambda>b. case (sh_shuffle_buffer b, sh_shuffled_indices b) of
           (Some buf, Some idx) \<Rightarrow>
             (let remaining = int (length idx) - sh_batch_head b;
                  batch_size = min (sh_batch_size b) remaining;
                  batch_indices = py_slice idx (sh_batch_head b) (sh_batch_head b + batch_size)
              in rbind (take_rows buf batch_indices)
                   (\<lambda>rows. Inr (rows, b\<lparr>sh_batch_head := sh_batch_head b + batch_size\<rparr>)))
         | _ \<Rightarrow> Inl (AssertionError ''shuffle buffer'')))"

definition shuffler_methods ::
    "('r list \<Rightarrow> int) \<Rightarrow> ('s \<Rightarrow> nat \<Rightarrow> nat list \<times> 's) \<Rightarrow> (('s, 'r) shuffler, 'r) batcher_ops" where
  "shuffler_methods nbytes permutation =
     \<lparr>op_add = shuffler_add nbytes, op_done_adding = shuffler_done_adding, op_has_batch = shuffler_has_batch,
      op_has_any = shuffler_has_any, op_next_batch = shuffler_next_batch permutation\<rparr>"

lemma shuffler_methods_simps [simp]:
  "op_add (shuffler_methods nbytes permutation) = shuffler_add nbytes"
  "op_done_adding (shuffler_methods nbytes permutation) = shuffler_done_adding"
  "op_has_batch (shuffler_methods nbytes permutation) = shuffler_has_batch"
  "op_has_any (shuffler_methods nbytes permutation) = shuffler_has_any"
  "op_next_batch (shuffler_methods nbytes permutation) = shuffler_next_batch permutation"
  by (simp_all add: shuffler_methods_def)

subsection \<open>The contract\<close>

definition permutes :: "('s \<Rightarrow> nat \<Rightarrow> nat list \<times> 's) \<Rightarrow> bool" where
  "permutes permutation \<longleftrightarrow> (\<forall>s n. mset (fst (permutation s n)) = mset [0..<n])"

text \<open>The rows not yet yielded.\<close>

definition compacted_rows :: "('s, 'r) shuffler \<Rightarrow> 'r list" where
  "compacted_rows b =
     (case (sh_shuffle_buffer b, sh_shuffled_indices b) of
        (Some buf, Some idx) \<Rightarrow> map (\<lambda>i. buf ! i) (drop (nat (sh_batch_head b)) idx) | _ \<Rightarrow> [])"

definition shuffler_rows :: "('s, 'r) shuffler \<Rightarrow> 'r list" where
  "shuffler_rows b = concat (sh_builder b) @ compacted_rows b"

definition shuffler_inv :: "nat \<Rightarrow> ('s, 'r) shuffler \<Rightarrow> bool" where
  "shuffler_inv n b \<longleftrightarrow> sh_batch_size b = int n \<and> 0 < n \<and> 1 \<le> sh_min_rows_to_yield_batch b \<and>
     (case (sh_shuffle_buffer b, sh_shuffled_indices b) of
        (Some buf, Some idx) \<Rightarrow> list_all (\<lambda>i. i < length buf) idx \<and> 0 \<le> sh_batch_head b \<and> sh_batch_head b \<le> int (length idx)
      | (None, None) \<Rightarrow> True | _ \<Rightarrow> False)"

lemma shuffler_counts:
  assumes "shuffler_inv n b"
  shows "num_compacted_rows b = int (length (compacted_rows b))"
    and "shuffler_num_rows b = int (length (shuffler_rows b))"
  using assms
  by (auto simp: shuffler_inv_def num_compacted_rows_def compacted_rows_def shuffler_num_rows_def shuffler_rows_def
      num_uncompacted_rows_def split: option.splits)

lemma py_slice_nat: "0 \<le> i \<Longrightarrow> i \<le> j \<Longrightarrow> j \<le> int (length xs) \<Longrightarrow> py_slice xs i j = take (nat (j - i)) (drop (nat i) xs)"
  by (simp add: py_slice_def py_bound_def Let_def nat_diff_distrib min_def nat_le_iff)

lemma permutation_rows:
  assumes "mset idx = mset [0..<length buf]"
  shows "mset (map (\<lambda>i. buf ! i) idx) = mset buf" and "list_all (\<lambda>i. i < length buf) idx"
proof -
  have "mset (map (\<lambda>i. buf ! i) idx) = mset (map (\<lambda>i. buf ! i) [0..<length buf])"
    unfolding mset_map assms ..
  then show "mset (map (\<lambda>i. buf ! i) idx) = mset buf" by (simp only: map_nth)
  have "set idx = {0..<length buf}" using assms by (metis atLeast_upt set_mset_mset set_upt)
  then show "list_all (\<lambda>i. i < length buf) idx" by (auto simp: list_all_iff)
qed

lemma compact_rows:
  assumes inv: "shuffler_inv n b" and p: "permutes permutation"
  shows "\<exists>b'. compact permutation b = Inr b' \<and> shuffler_inv n b' \<and> sh_builder b' = [] \<and>
    mset (compacted_rows b') = mset (shuffler_rows b) \<and> sh_done_adding b' = sh_done_adding b"
proof -
  obtain builder where bl: "mset (concat builder) = mset (shuffler_rows b)"
    "compact permutation b =
      (let buf = concat builder; (idx, rng) = permutation (sh_rng b) (length buf)
       in Inr (b\<lparr>sh_shuffle_buffer := Some buf, sh_shuffled_indices := Some idx, sh_rng := rng,
                    sh_builder := [], sh_batch_head := 0\<rparr>))"
  proof (cases "\<exists>buf idx. sh_shuffle_buffer b = Some buf \<and> sh_shuffled_indices b = Some idx \<and> sh_batch_head b < int (length idx)")
    case True
    then obtain buf idx where s: "sh_shuffle_buffer b = Some buf" "sh_shuffled_indices b = Some idx"
      "sh_batch_head b < int (length idx)" by blast
    have l: "list_all (\<lambda>i. i < length buf) idx" and h: "0 \<le> sh_batch_head b" using inv s by (auto simp: shuffler_inv_def)
    have "py_slice idx (sh_batch_head b) (int (length idx)) = drop (nat (sh_batch_head b)) idx"
      using h s(3) by (simp add: py_slice_nat)
    moreover have "list_all (\<lambda>i. i < length buf) (drop (nat (sh_batch_head b)) idx)"
      using l by (auto simp: list_all_iff dest: in_set_dropD)
    ultimately show thesis using s
      by (intro that [of "sh_builder b @ [compacted_rows b]"])
        (simp_all add: shuffler_rows_def compact_def take_rows_def compacted_rows_def)
  next
    case False
    then have "compacted_rows b = []" "compact permutation b =
      (let buf = concat (sh_builder b); (idx, rng) = permutation (sh_rng b) (length buf)
       in Inr (b\<lparr>sh_shuffle_buffer := Some buf, sh_shuffled_indices := Some idx, sh_rng := rng,
                    sh_builder := [], sh_batch_head := 0\<rparr>))"
      by (auto simp: compacted_rows_def compact_def split: option.splits)
    then show thesis by (intro that [of "sh_builder b"]) (simp_all add: shuffler_rows_def)
  qed
  obtain idx rng where pr: "permutation (sh_rng b) (length (concat builder)) = (idx, rng)" by fastforce
  have "mset idx = mset [0..<length (concat builder)]" using p pr unfolding permutes_def by (metis fst_conv)
  note pm = permutation_rows [OF this]
  show ?thesis
    using inv pm bl(1) pr unfolding bl(2)
    by (simp add: compacted_rows_def shuffler_inv_def Let_def)
qed

lemma shuffler_take:
  assumes inv: "shuffler_inv n b" and s: "sh_shuffle_buffer b = Some buf" "sh_shuffled_indices b = Some idx"
    and m: "m = min (sh_batch_size b) (int (length idx) - sh_batch_head b)"
  shows "take_rows buf (py_slice idx (sh_batch_head b) (sh_batch_head b + m)) = Inr (take n (compacted_rows b))"
    and "shuffler_inv n (b\<lparr>sh_batch_head := sh_batch_head b + m\<rparr>)"
    and "shuffler_rows (b\<lparr>sh_batch_head := sh_batch_head b + m\<rparr>) = concat (sh_builder b) @ drop n (compacted_rows b)"
proof -
  let ?h = "sh_batch_head b"
  have i: "list_all (\<lambda>i. i < length buf) idx" "0 \<le> ?h" "?h \<le> int (length idx)" "sh_batch_size b = int n"
    using inv by (auto simp: shuffler_inv_def s)
  have c: "compacted_rows b = map (\<lambda>i. buf ! i) (drop (nat ?h) idx)" by (simp add: compacted_rows_def s)
  have m': "0 \<le> m" "?h + m \<le> int (length idx)" "nat m = min n (length idx - nat ?h)"
    using m i by (auto simp: min_def nat_diff_distrib)
  have "py_slice idx ?h (?h + m) = take (nat m) (drop (nat ?h) idx)" using m' i(2) by (simp add: py_slice_nat)
  also have "\<dots> = take n (drop (nat ?h) idx)" unfolding m'(3) by (simp add: min_def)
  finally have sl: "py_slice idx ?h (?h + m) = take n (drop (nat ?h) idx)" .
  have "list_all (\<lambda>i. i < length buf) (take n (drop (nat ?h) idx))"
    using i(1) by (auto simp: list_all_iff dest: in_set_takeD in_set_dropD)
  then show "take_rows buf (py_slice idx ?h (?h + m)) = Inr (take n (compacted_rows b))"
    by (simp add: take_rows_def sl c take_map)
  show "shuffler_inv n (b\<lparr>sh_batch_head := ?h + m\<rparr>)" using inv m' i by (simp add: shuffler_inv_def s)
  have "drop (nat (?h + m)) idx = drop n (drop (nat ?h) idx)"
    using m' i(2) by (simp add: nat_add_distrib min_def add.commute)
  then show "shuffler_rows (b\<lparr>sh_batch_head := ?h + m\<rparr>) = concat (sh_builder b) @ drop n (compacted_rows b)"
    by (simp add: shuffler_rows_def compacted_rows_def s drop_map)
qed

lemma shuffler_next_ok:
  assumes inv: "shuffler_inv n b" and p: "permutes permutation"
    and ok: "shuffler_has_batch b \<or> sh_done_adding b \<and> shuffler_rows b \<noteq> []"
  shows "\<exists>x b'. shuffler_next_batch permutation b = Inr (x, b') \<and> shuffler_inv n b' \<and>
    sh_done_adding b' = sh_done_adding b \<and> x \<noteq> [] \<and> mset (shuffler_rows b) = mset x + mset (shuffler_rows b') \<and>
    length x \<le> n \<and> (\<not> shuffler_has_batch b \<longrightarrow> shuffler_rows b' = [])"
proof -
  note cnt = shuffler_counts [OF inv]
  have n: "sh_batch_size b = int n" "0 < n" "1 \<le> sh_min_rows_to_yield_batch b" using inv by (auto simp: shuffler_inv_def)
  have ne: "shuffler_rows b \<noteq> []"
    using ok n cnt by (auto simp: shuffler_has_batch_def Let_def split: if_splits)
  let ?c = "num_uncompacted_rows b > 0 \<and> (sh_done_adding b \<or> num_compacted_rows b \<le> sh_min_rows_to_yield_batch b)"
  obtain b1 where b1: "(if ?c then compact permutation b else Inr b) = Inr b1" "shuffler_inv n b1"
    "mset (shuffler_rows b1) = mset (shuffler_rows b)" "sh_done_adding b1 = sh_done_adding b" "compacted_rows b1 \<noteq> []"
    "sh_done_adding b \<longrightarrow> sh_builder b1 = [] \<or> concat (sh_builder b1) = []"
  proof (cases ?c)
    case True
    from compact_rows [OF inv p] obtain b' where b': "compact permutation b = Inr b'" "shuffler_inv n b'"
      "sh_builder b' = []" "mset (compacted_rows b') = mset (shuffler_rows b)" "sh_done_adding b' = sh_done_adding b" by blast
    have "compacted_rows b' \<noteq> []" using b'(4) ne by auto
    then show thesis using True b' by (intro that [of b']) (auto simp: shuffler_rows_def)
  next
    case False
    then consider "concat (sh_builder b) = []" | "\<not> sh_done_adding b" "num_compacted_rows b > 0"
      using n by (auto simp: num_uncompacted_rows_def)
    then have "compacted_rows b \<noteq> [] \<and> (sh_done_adding b \<longrightarrow> concat (sh_builder b) = [])"
      using ne cnt(1) by cases (simp_all add: shuffler_rows_def)
    then show thesis using False inv by (intro that [of b]) auto
  qed
  then obtain buf idx where s: "sh_shuffle_buffer b1 = Some buf" "sh_shuffled_indices b1 = Some idx"
    by (auto simp: compacted_rows_def split: option.splits)
  let ?m = "min (sh_batch_size b1) (int (length idx) - sh_batch_head b1)"
  let ?b' = "b1\<lparr>sh_batch_head := sh_batch_head b1 + ?m\<rparr>"
  note tk = shuffler_take [OF b1(2) s refl]
  have "shuffler_has_batch b \<or> sh_done_adding b \<and> shuffler_has_any b" using ok ne cnt by (auto simp: shuffler_has_any_def)
  then have run: "shuffler_next_batch permutation b = Inr (take n (compacted_rows b1), ?b')"
    unfolding shuffler_next_batch_def b1(1) by (simp add: s tk(1) Let_def)
  have "mset (shuffler_rows b) = mset (take n (compacted_rows b1)) + mset (shuffler_rows ?b')"
  proof -
    have "mset (shuffler_rows b) = mset (concat (sh_builder b1)) + mset (take n (compacted_rows b1) @ drop n (compacted_rows b1))"
      unfolding b1(3) [symmetric] append_take_drop_id by (simp add: shuffler_rows_def)
    then show ?thesis unfolding tk(3) by (simp only: mset_append ac_simps)
  qed
  moreover have "shuffler_rows ?b' = []" if nb: "\<not> shuffler_has_batch b"
  proof -
    have d: "sh_done_adding b" and l: "length (shuffler_rows b) < n"
      using nb ok cnt n by (auto simp: shuffler_has_batch_def Let_def)
    have "length (shuffler_rows b1) = length (shuffler_rows b)" by (rule mset_eq_length [OF b1(3)])
    then have "length (compacted_rows b1) < n" using l by (simp add: shuffler_rows_def)
    then show ?thesis using b1(6) d unfolding tk(3) by auto
  qed
  moreover have "take n (compacted_rows b1) \<noteq> []" using b1(5) n(2) by simp
  ultimately show ?thesis using run tk(2) b1(4) by auto
qed

lemma shuffler_has_batch_rows: "shuffler_inv n b \<Longrightarrow> shuffler_has_batch b \<Longrightarrow> shuffler_rows b \<noteq> []"
  using shuffler_counts(2) [of n b] by (auto simp: shuffler_has_batch_def shuffler_inv_def Let_def split: if_splits)

lemma shuffler_add_inv:
  "shuffler_inv n b \<Longrightarrow> shuffler_inv n (shuffler_add nbytes x b) \<and>
    sh_done_adding (shuffler_add nbytes x b) = sh_done_adding b \<and>
    mset (shuffler_rows (shuffler_add nbytes x b)) = mset (shuffler_rows b) + mset x"
  by (simp add: shuffler_add_def shuffler_inv_def shuffler_rows_def compacted_rows_def split: option.splits)

lemma shuffler_contract:
  assumes p: "permutes permutation"
  shows "batcher_interface (shuffler_methods nbytes permutation) (shuffler_inv n) shuffler_rows sh_done_adding
    (\<lambda>x. length x \<le> n) (\<lambda>m. m < n)"
proof (unfold_locales, unfold shuffler_methods_simps)
  fix b :: "('a, 'b) shuffler" assume inv: "shuffler_inv n b"
  note cnt = shuffler_counts(2) [OF inv]
  show "shuffler_has_any b \<longleftrightarrow> shuffler_rows b \<noteq> []" using cnt by (auto simp: shuffler_has_any_def)
  show "shuffler_rows b \<noteq> []" if "shuffler_has_batch b" using shuffler_has_batch_rows [OF inv that] .
  show "length (shuffler_rows b) < n" if "sh_done_adding b" "\<not> shuffler_has_batch b"
    using that cnt inv by (simp add: shuffler_has_batch_def shuffler_inv_def)
  show "\<exists>x b'. shuffler_next_batch permutation b = Inr (x, b') \<and> shuffler_inv n b' \<and>
      sh_done_adding b' = sh_done_adding b \<and> x \<noteq> [] \<and> mset (shuffler_rows b) = mset x + mset (shuffler_rows b') \<and>
      (if shuffler_has_batch b then length x \<le> n else shuffler_rows b' = [])"
    if "shuffler_has_batch b \<or> sh_done_adding b \<and> shuffler_rows b \<noteq> []"
    using shuffler_next_ok [OF inv p that] by auto
  show "shuffler_inv n (shuffler_done_adding b) \<and> sh_done_adding (shuffler_done_adding b) \<and>
      shuffler_rows (shuffler_done_adding b) = shuffler_rows b"
    using inv by (simp add: shuffler_done_adding_def shuffler_inv_def shuffler_rows_def compacted_rows_def split: option.splits)
qed (use shuffler_add_inv in blast)

subsection \<open>Every row once\<close>

text \<open>C20: Iterating with a local shuffle yields every row exactly once, in batches of at least one and at
  most \<open>n\<close> rows, whatever permutations the random generator draws and whatever the size of the
  shuffle buffer. Only \<open>drop_last\<close> leaves rows out, and then fewer than \<open>n\<close>.\<close>

theorem shuffled_batches_once:
  assumes "permutes permutation" and "0 < n" and "shuffler_init (Some (int n)) min_size rng = Inr b"
    and "length (concat bs) < k"
  shows "\<exists>xs rest. take_batches (shuffler_methods nbytes permutation) k (batching_init b drop_last bs) =
      (xs, Some StopIteration) \<and> mset (concat (map snd xs)) + rest = mset (concat bs) \<and>
    (\<not> drop_last \<longrightarrow> rest = {#}) \<and> size rest < n \<and> list_all (\<lambda>x. x \<noteq> [] \<and> length x \<le> n) (map snd xs) \<and>
    map fst xs = [0..<length xs]"
proof -
  let ?it = "batching_init b drop_last bs"
  have b: "shuffler_inv n b" "shuffler_rows b = []" "\<not> sh_done_adding b"
    using assms(2,3) by (auto simp: shuffler_init_def shuffler_inv_def shuffler_rows_def compacted_rows_def Let_def)
  note c = shuffler_contract [OF assms(1), of nbytes n]
  have ok: "batcher_interface.iter_ok (shuffler_inv n) sh_done_adding ?it"
    using b by (simp add: batcher_interface.iter_ok_def [OF c] batching_init_def)
  have pend: "batcher_interface.pending shuffler_rows ?it = mset (concat bs)"
    using b by (simp add: batcher_interface.pending_def [OF c] batching_init_def)
  from batcher_interface.take_batches_complete [OF c ok, of k] assms(4) obtain xs rest where x:
      "take_batches (shuffler_methods nbytes permutation) k ?it = (xs, Some StopIteration)"
      "map fst xs = [0..<length xs]" "mset (concat (map snd xs)) + rest = mset (concat bs)" "[] \<notin> snd ` set xs"
      "\<not> drop_last \<longrightarrow> rest = {#}" "size rest < n"
      "list_all (\<lambda>x. length x \<le> n \<or> length x < n) (map snd xs)"
    unfolding pend by (auto simp: batching_init_def)
  have "list_all (\<lambda>x. x \<noteq> [] \<and> length x \<le> n) (map snd xs)"
    unfolding list_all_iff
  proof
    fix y assume "y \<in> set (map snd xs)"
    then have "y \<in> snd ` set xs" "length y \<le> n" using x(7) by (auto simp: list_all_iff)
    then show "y \<noteq> [] \<and> length y \<le> n" using x(4) by metis
  qed
  then show ?thesis using x by blast
qed

theorem shuffled_batches_once_witness:
  "\<exists>xs. take_batches (shuffler_methods (\<lambda>_. 8) (\<lambda>s n. (rev [0..<n], s + 1))) 9
      (batching_init (the (case shuffler_init (Some (int 2)) 4 (0::nat) of Inr b \<Rightarrow> Some b | Inl _ \<Rightarrow> None))
        False [[1, 2], [3, 4, 5::nat]]) = (xs, Some StopIteration) \<and> mset (concat (map snd xs)) = mset [1, 2, 3, 4, 5]"
proof -
  have "permutes (\<lambda>(s::nat) n. (rev [0..<n], s + 1))" by (simp add: permutes_def)
  moreover obtain b where b: "shuffler_init (Some (int 2)) 4 (0::nat) = Inr (b :: (nat, nat) shuffler)"
    by (simp add: shuffler_init_def Let_def)
  moreover have "length (concat [[1, 2], [3, 4, 5::nat]]) < 9" by simp
  ultimately show ?thesis
    using shuffled_batches_once [of "\<lambda>(s::nat) n. (rev [0..<n], s + 1)" 2 4 0 b "[[1, 2], [3, 4, 5]]" 9 "\<lambda>_. 8" False]
    unfolding b by auto
qed

text \<open>Batches in the middle can be short. With a batch size and a shuffle buffer of 4, blocks of 11, 5
  and 12 rows come out in batches of 4, 4, 3, 4, 4, 4, 4 and 1 rows: the rows waiting in the builder count
  towards the batch that \<open>has_batch\<close> promises, and the batch is then taken from the compacted rows
  alone. The class documents that only the final batch may be short.\<close>

lemma shuffled_batch_short_in_the_middle:
  "map (\<lambda>(i, x). length x) (fst (take_batches (shuffler_methods (\<lambda>_. 0) (\<lambda>s n. ([0..<n], s))) 20
     (batching_init (the (case shuffler_init (Some 4) 4 () of Inr b \<Rightarrow> Some b | Inl _ \<Rightarrow> None))
       False [[0..<11], [11..<16], [16..<28]]))) = [4, 4, 3, 4, 4, 4, 4, 1]"
  by code_simp

end
