(* ===== verification/Output_Buffer.thy ===== *)
theory Output_Buffer
  imports Split_Blocks
begin

section \<open>Ray Data: shaping output blocks\<close>

text \<open>
  Models \<open>ray/python/ray/data/_internal/output_buffer.py\<close> and the two iterators of
  \<open>ray/python/ray/data/_internal/execution/operators/map_transformer.py\<close> that fill the buffer and
  flatten blocks to rows. A block is the list of its rows, a row added alone is a block of one. The
  block builder is the list of blocks added to it. Sizes in memory depend on Arrow and pandas and
  on floating point arithmetic; they are the parameter \<open>mem_sizes\<close>.
\<close>

subsection \<open>Options\<close>

record output_block_size_option =
  target_max_block_size :: "int option"
  target_num_rows_per_block :: "int option"
  disable_block_shaping :: bool

definition option_post_init :: "output_block_size_option \<Rightarrow> output_block_size_option result" where
  "option_post_init opt =
     (if target_max_block_size opt = None \<and> target_num_rows_per_block opt = None \<and> \<not> disable_block_shaping opt
      then Inl (ValueError ''Either target_max_block_size or target_num_rows_per_block must be specified'')
      else Inr opt)"

definition option_of :: "int option \<Rightarrow> int option \<Rightarrow> bool \<Rightarrow> output_block_size_option option result" where
  "option_of max_size rows disable =
     (if max_size = None \<and> rows = None \<and> \<not> disable then Inr None
      else rbind (option_post_init \<lparr>target_max_block_size = max_size, target_num_rows_per_block = rows,
                    disable_block_shaping = disable\<rparr>) (\<lambda>opt. Inr (Some opt)))"

subsection \<open>The buffer\<close>

text \<open>\<open>builder_usage\<close> is the estimate of a builder that holds blocks, \<open>block_nbytes\<close> the size of a block, and \<open>rows_for\<close>
  the number of rows for a target size: \<open>math.ceil(max_bytes / (size / num_rows))\<close>.\<close>

record 'r mem_sizes =
  builder_usage :: "'r list list \<Rightarrow> int"
  block_nbytes :: "'r list \<Rightarrow> int"
  rows_for :: "int \<Rightarrow> int \<Rightarrow> int \<Rightarrow> int"

record 'r output_buffer =
  ob_option :: "output_block_size_option option"
  ob_buffer :: "'r list list"
  ob_finalized :: bool
  ob_has_yielded_blocks :: bool

definition ob_init :: "output_block_size_option option \<Rightarrow> 'r output_buffer" where
  "ob_init opt = \<lparr>ob_option = opt, ob_buffer = [], ob_finalized = False, ob_has_yielded_blocks = False\<rparr>"

text \<open>The builder sets an empty block aside.\<close>

definition builder_add_block :: "'r list \<Rightarrow> 'r list list \<Rightarrow> 'r list list" where
  "builder_add_block block builder = (if block = [] then builder else builder @ [block])"

definition ob_add_block :: "'r list \<Rightarrow> 'r output_buffer \<Rightarrow> 'r output_buffer result" where
  "ob_add_block block s =
     (if ob_finalized s then Inl (AssertionError ''not self._finalized'')
      else Inr (s\<lparr>ob_buffer := builder_add_block block (ob_buffer s)\<rparr>))"

definition ob_add :: "'r \<Rightarrow> 'r output_buffer \<Rightarrow> 'r output_buffer result" where
  "ob_add item s =
     (if ob_finalized s then Inl (AssertionError ''not self._finalized'')
      else Inr (s\<lparr>ob_buffer := ob_buffer s @ [[item]]\<rparr>))"

definition ob_finalize :: "'r output_buffer \<Rightarrow> 'r output_buffer result" where
  "ob_finalize s =
     (if ob_finalized s then Inl (AssertionError ''not self._finalized'') else Inr (s\<lparr>ob_finalized := True\<rparr>))"

definition max_num_rows_per_block :: "'r output_buffer \<Rightarrow> int option" where
  "max_num_rows_per_block s =
     (case ob_option s of
        None \<Rightarrow> None
      | Some opt \<Rightarrow> if disable_block_shaping opt then None else target_num_rows_per_block opt)"

definition max_bytes_per_block :: "'r output_buffer \<Rightarrow> int option" where
  "max_bytes_per_block s =
     (case ob_option s of
        None \<Rightarrow> None
      | Some opt \<Rightarrow> if disable_block_shaping opt then None else target_max_block_size opt)"

definition buffer_num_rows :: "'r output_buffer \<Rightarrow> int" where
  "buffer_num_rows s = int (length (concat (ob_buffer s)))"

definition estimated_memory_usage :: "'r mem_sizes \<Rightarrow> 'r output_buffer \<Rightarrow> int" where
  "estimated_memory_usage m s = (if ob_buffer s = [] then 0 else builder_usage m (ob_buffer s))"

definition exceeded_buffer_row_limit :: "output_block_size_option \<Rightarrow> 'r output_buffer \<Rightarrow> bool" where
  "exceeded_buffer_row_limit opt s =
     (if disable_block_shaping opt then False
      else (case max_num_rows_per_block s of None \<Rightarrow> False | Some n \<Rightarrow> buffer_num_rows s > n))"

definition exceeded_buffer_size_limit :: "'r mem_sizes \<Rightarrow> output_block_size_option \<Rightarrow> 'r output_buffer \<Rightarrow> bool" where
  "exceeded_buffer_size_limit m opt s =
     (if disable_block_shaping opt then False
      else (case max_bytes_per_block s of None \<Rightarrow> False | Some n \<Rightarrow> estimated_memory_usage m s > n))"

definition ob_has_next :: "'r mem_sizes \<Rightarrow> 'r output_buffer \<Rightarrow> bool" where
  "ob_has_next m s =
     (if ob_finalized s then \<not> ob_has_yielded_blocks s \<or> buffer_num_rows s > 0
      else (case ob_option s of
              None \<Rightarrow> False
            | Some opt \<Rightarrow>
                if disable_block_shaping opt then buffer_num_rows s > 0
                else exceeded_buffer_row_limit opt s \<or> exceeded_buffer_size_limit m opt s))"

definition exceeded_block_size_slice_limit :: "'r mem_sizes \<Rightarrow> 'r output_buffer \<Rightarrow> 'r list \<Rightarrow> bool" where
  "exceeded_block_size_slice_limit m s block =
     (case max_bytes_per_block s of None \<Rightarrow> False | Some n \<Rightarrow> 2 * block_nbytes m block \<ge> 3 * n)"

definition exceeded_block_row_slice_limit :: "'r output_buffer \<Rightarrow> 'r list \<Rightarrow> bool" where
  "exceeded_block_row_slice_limit s block =
     (case max_num_rows_per_block s of None \<Rightarrow> False | Some n \<Rightarrow> int (length block) > n)"

text \<open>The number of rows to slice off, if any.\<close>

definition target_rows :: "'r mem_sizes \<Rightarrow> 'r output_buffer \<Rightarrow> 'r list \<Rightarrow> int option result" where
  "target_rows m s block =
     (if exceeded_block_row_slice_limit s block then Inr (max_num_rows_per_block s)
      else if exceeded_block_size_slice_limit m s block
      then (if \<not> length block > 0 then Inl (AssertionError ''Block may not be empty'')
            else if block_nbytes m block = 0 then Inl ZeroDivisionError
            else Inr (case max_bytes_per_block s of
                        None \<Rightarrow> None
                      | Some n \<Rightarrow> Some (max 1 (rows_for m n (block_nbytes m block) (int (length block))))))
      else Inr None)"

definition ob_next :: "'r mem_sizes \<Rightarrow> 'r output_buffer \<Rightarrow> ('r list \<times> 'r output_buffer) result" where
  "ob_next m s =
     (if \<not> ob_has_next m s then Inl (AssertionError ''has_next'')
      else (let block = concat (ob_buffer s)
            in rbind (target_rows m s block) (\<lambda>target.
                 let (out, rest) =
                       (case target of
                          Some t \<Rightarrow>
                            if t < int (length block)
                            then (accessor_slice block 0 t, Some (accessor_slice block t (int (length block))))
                            else (block, None)
                        | None \<Rightarrow> (block, None));
                     builder = (case rest of None \<Rightarrow> [] | Some r \<Rightarrow> builder_add_block r [])
                 in Inr (out, s\<lparr>ob_buffer := builder, ob_has_yielded_blocks := True\<rparr>))))"

subsection \<open>The shaping iterator\<close>

record ('x, 'r) shaping_iterator =
  si_results :: "'x list"
  si_buffer :: "'r output_buffer"
  si_finalized :: bool

definition shaping_init :: "output_block_size_option option \<Rightarrow> 'x list \<Rightarrow> ('x, 'r) shaping_iterator" where
  "shaping_init opt results = \<lparr>si_results = results, si_buffer = ob_init opt, si_finalized = False\<rparr>"

text \<open>\<open>put\<close> is the method the constructor picks for the type of the results: \<open>add_block\<close> for blocks
  and batches, \<open>add\<close> for rows.\<close>

function shaping_next ::
    "('x \<Rightarrow> 'r output_buffer \<Rightarrow> 'r output_buffer result) \<Rightarrow> 'r mem_sizes \<Rightarrow> ('x, 'r) shaping_iterator
     \<Rightarrow> 'r list result \<times> ('x, 'r) shaping_iterator" where
  "shaping_next put m it =
     (if ob_has_next m (si_buffer it)
      then (case ob_next m (si_buffer it) of
              Inl e \<Rightarrow> (Inl e, it)
            | Inr (block, b) \<Rightarrow> (Inr block, it\<lparr>si_buffer := b\<rparr>))
      else if si_finalized it then (Inl StopIteration, it)
      else (case si_results it of
              result # rest \<Rightarrow>
                (case put result (si_buffer it) of
                   Inl e \<Rightarrow> (Inl e, it\<lparr>si_results := rest\<rparr>)
                 | Inr b \<Rightarrow> shaping_next put m (it\<lparr>si_results := rest, si_buffer := b\<rparr>))
            | [] \<Rightarrow>
                (case ob_finalize (si_buffer it) of
                   Inl e \<Rightarrow> (Inl e, it)
                 | Inr b \<Rightarrow> shaping_next put m (it\<lparr>si_buffer := b, si_finalized := True\<rparr>))))"
  by pat_completeness auto
termination shaping_next
  by (relation "measure (\<lambda>(put, m, it). length (si_results it) + (if si_finalized it then 0 else 1))") auto

declare shaping_next.simps [simp del]

subsection \<open>Taking a block\<close>

text \<open>Unless shaping is disabled the targets are positive and a block without rows is below the size at which
  blocks are sliced.\<close>

definition sizes_ok :: "'r mem_sizes \<Rightarrow> output_block_size_option option \<Rightarrow> bool" where
  "sizes_ok m os \<longleftrightarrow>
     (case os of None \<Rightarrow> True
      | Some opt \<Rightarrow> disable_block_shaping opt \<or> (\<forall>t. target_num_rows_per_block opt = Some t \<longrightarrow> t > 0) \<and>
          (\<forall>n. target_max_block_size opt = Some n \<longrightarrow> n > 0 \<and> 2 * block_nbytes m [] < 3 * n))"

definition buffer_rows :: "'r output_buffer \<Rightarrow> 'r list" where
  "buffer_rows s = concat (ob_buffer s)"

lemma target_rows_ok:
  assumes "sizes_ok m (ob_option s)"
  obtains t where "target_rows m s block = Inr t" "\<And>k. t = Some k \<Longrightarrow> k > 0"
    "\<And>n. max_num_rows_per_block s = Some n \<Longrightarrow> int (length block) \<le> n \<or> t = Some n"
proof -
  have rows: "n > 0" if "max_num_rows_per_block s = Some n" for n
    using assms that by (auto simp: sizes_ok_def max_num_rows_per_block_def split: option.splits if_splits)
  have bytes: "n > 0 \<and> 2 * block_nbytes m [] < 3 * n" if "max_bytes_per_block s = Some n" for n
    using assms that by (auto simp: sizes_ok_def max_bytes_per_block_def split: option.splits if_splits)
  show thesis
  proof (cases "exceeded_block_row_slice_limit s block")
    case True
    then show thesis using rows by (intro that [of "max_num_rows_per_block s"]) (auto simp: target_rows_def)
  next
    case no: False
    then have le: "int (length block) \<le> n" if "max_num_rows_per_block s = Some n" for n
      using that by (auto simp: exceeded_block_row_slice_limit_def)
    show thesis
    proof (cases "exceeded_block_size_slice_limit m s block")
      case True
      then obtain n where n: "max_bytes_per_block s = Some n" "2 * block_nbytes m block \<ge> 3 * n"
        by (auto simp: exceeded_block_size_slice_limit_def split: option.splits)
      then have "block \<noteq> []" using bytes by force
      then show thesis
        using no True n bytes [OF n(1)] le
        by (intro that [of "Some (max 1 (rows_for m n (block_nbytes m block) (int (length block))))"])
          (auto simp: target_rows_def)
    next
      case False
      then show thesis using no le by (intro that [of None]) (auto simp: target_rows_def)
    qed
  qed
qed

lemma ob_next_ok:
  assumes ok: "sizes_ok m (ob_option s)" and nxt: "ob_has_next m s"
  shows "\<exists>x s'. ob_next m s = Inr (x, s') \<and> buffer_rows s = x @ buffer_rows s' \<and>
    (buffer_rows s \<noteq> [] \<longrightarrow> x \<noteq> []) \<and> (\<forall>n. max_num_rows_per_block s = Some n \<longrightarrow> int (length x) \<le> n) \<and>
    ob_option s' = ob_option s \<and> ob_finalized s' = ob_finalized s \<and> ob_has_yielded_blocks s' \<and> [] \<notin> set (ob_buffer s')"
proof -
  let ?b = "buffer_rows s"
  from target_rows_ok [OF ok, of ?b] obtain t where t: "target_rows m s ?b = Inr t" "\<And>k. t = Some k \<Longrightarrow> k > 0"
    "\<And>n. max_num_rows_per_block s = Some n \<Longrightarrow> int (length ?b) \<le> n \<or> t = Some n" by blast
  show ?thesis
  proof (cases "\<exists>k. t = Some k \<and> k < int (length ?b)")
    case True
    then obtain k where k: "t = Some k" "k < int (length ?b)" "0 < k" using t(2) by blast
    have "ob_next m s = Inr (take (nat k) ?b, s\<lparr>ob_buffer := [drop (nat k) ?b], ob_has_yielded_blocks := True\<rparr>)"
      using nxt t(1) k by (simp add: ob_next_def buffer_rows_def accessor_slice_def builder_add_block_def Let_def nat_less_iff)
    moreover have "\<forall>n. max_num_rows_per_block s = Some n \<longrightarrow> int (length (take (nat k) ?b)) \<le> n"
      using t(3) k by auto
    ultimately show ?thesis using k by (auto simp: buffer_rows_def)
  next
    case False
    then have "ob_next m s = Inr (?b, s\<lparr>ob_buffer := [], ob_has_yielded_blocks := True\<rparr>)"
      using nxt t(1) by (auto simp: ob_next_def buffer_rows_def Let_def split: option.splits)
    moreover have "\<forall>n. max_num_rows_per_block s = Some n \<longrightarrow> int (length ?b) \<le> n" using t(3) False by fastforce
    ultimately show ?thesis by (simp add: buffer_rows_def)
  qed
qed

text \<open>An empty buffer has a next block only to yield the one empty block of an empty output.\<close>

lemma has_next_empty:
  assumes "sizes_ok m (ob_option s)" and "ob_has_next m s" and "buffer_rows s = []" and "[] \<notin> set (ob_buffer s)"
  shows "ob_finalized s \<and> \<not> ob_has_yielded_blocks s"
proof -
  have "ob_buffer s = []" using assms(3,4) by (cases "ob_buffer s") (auto simp: buffer_rows_def)
  moreover have "n > 0" if "max_num_rows_per_block s = Some n" for n
    using assms(1) that by (auto simp: sizes_ok_def max_num_rows_per_block_def split: option.splits if_splits)
  moreover have "n > 0" if "max_bytes_per_block s = Some n" for n
    using assms(1) that by (auto simp: sizes_ok_def max_bytes_per_block_def split: option.splits if_splits)
  ultimately show ?thesis
    using assms(2)
    by (auto simp: ob_has_next_def exceeded_buffer_row_limit_def exceeded_buffer_size_limit_def
        estimated_memory_usage_def buffer_num_rows_def split: if_splits option.splits)
qed

subsection \<open>The iterator yields every row in order\<close>

text \<open>What the iterator relies on: \<open>put\<close> adds the rows of a result behind those in the buffer.\<close>

locale row_appender =
  fixes put :: "'x \<Rightarrow> 'r output_buffer \<Rightarrow> 'r output_buffer result"
    and rows_of :: "'x \<Rightarrow> 'r list"
  assumes put_rows: "\<not> ob_finalized s \<Longrightarrow> [] \<notin> set (ob_buffer s) \<Longrightarrow> \<exists>s'. put x s = Inr s' \<and> buffer_rows s' = buffer_rows s @ rows_of x \<and>
      ob_option s' = ob_option s \<and> \<not> ob_finalized s' \<and> ob_has_yielded_blocks s' = ob_has_yielded_blocks s \<and>
      [] \<notin> set (ob_buffer s')"
begin

definition shaping_ok :: "'r mem_sizes \<Rightarrow> ('x, 'r) shaping_iterator \<Rightarrow> bool" where
  "shaping_ok m it \<longleftrightarrow> sizes_ok m (ob_option (si_buffer it)) \<and> ob_finalized (si_buffer it) = si_finalized it \<and>
     [] \<notin> set (ob_buffer (si_buffer it)) \<and> (si_finalized it \<longrightarrow> si_results it = [])"

definition remaining :: "('x, 'r) shaping_iterator \<Rightarrow> 'r list" where
  "remaining it = buffer_rows (si_buffer it) @ concat (map rows_of (si_results it))"

definition yielded :: "('x, 'r) shaping_iterator \<Rightarrow> bool" where
  "yielded it = ob_has_yielded_blocks (si_buffer it)"

definition row_limit :: "('x, 'r) shaping_iterator \<Rightarrow> int option" where
  "row_limit it = max_num_rows_per_block (si_buffer it)"

text \<open>One call adds results until the buffer has a block or the results have ended.\<close>

lemma shaping_settles:
  assumes "shaping_ok m it"
  shows "\<exists>it1. shaping_next put m it = shaping_next put m it1 \<and> shaping_ok m it1 \<and> remaining it1 = remaining it \<and>
    yielded it1 = yielded it \<and> ob_option (si_buffer it1) = ob_option (si_buffer it) \<and>
    (ob_has_next m (si_buffer it1) \<or> si_finalized it1)"
  using assms
proof (induction "length (si_results it) + (if si_finalized it then 0 else 1)" arbitrary: it rule: less_induct)
  case less
  show ?case
  proof (cases "ob_has_next m (si_buffer it) \<or> si_finalized it")
    case False
    have nf: "\<not> ob_finalized (si_buffer it)" "[] \<notin> set (ob_buffer (si_buffer it))" using less.prems False by (simp_all add: shaping_ok_def)
    obtain it1 where it1: "shaping_next put m it = shaping_next put m it1" "shaping_ok m it1" "remaining it1 = remaining it"
      "yielded it1 = yielded it" "ob_option (si_buffer it1) = ob_option (si_buffer it)"
      "length (si_results it1) + (if si_finalized it1 then 0 else 1) <
       length (si_results it) + (if si_finalized it then 0 else 1)"
    proof (cases "si_results it")
      case Nil
      let ?it = "it\<lparr>si_buffer := (si_buffer it)\<lparr>ob_finalized := True\<rparr>, si_finalized := True\<rparr>"
      have "ob_finalize (si_buffer it) = Inr ((si_buffer it)\<lparr>ob_finalized := True\<rparr>)" using nf by (simp add: ob_finalize_def)
      then have "shaping_next put m it = shaping_next put m ?it"
        using False Nil by (subst shaping_next.simps) simp
      then show thesis
        using less.prems False Nil by (intro that [of ?it])
          (simp_all add: shaping_ok_def remaining_def yielded_def buffer_rows_def)
    next
      case (Cons x xs)
      from put_rows [OF nf, of x] obtain s' where s': "put x (si_buffer it) = Inr s'"
        "buffer_rows s' = buffer_rows (si_buffer it) @ rows_of x" "ob_option s' = ob_option (si_buffer it)"
        "\<not> ob_finalized s'" "ob_has_yielded_blocks s' = ob_has_yielded_blocks (si_buffer it)" "[] \<notin> set (ob_buffer s')" by blast
      have "shaping_next put m it = shaping_next put m (it\<lparr>si_results := xs, si_buffer := s'\<rparr>)"
        using False Cons s'(1) by (subst shaping_next.simps) simp
      then show thesis
        using less.prems False Cons s' by (intro that [of "it\<lparr>si_results := xs, si_buffer := s'\<rparr>"])
          (simp_all add: shaping_ok_def remaining_def yielded_def)
    qed
    from less.hyps [OF it1(6,2)] it1(1-5) show ?thesis by metis
  qed (use less.prems in blast)
qed

lemma shaping_next_cases:
  assumes "shaping_ok m it" and "shaping_next put m it = (r, it')"
  shows "(r = Inl StopIteration \<and> remaining it = [] \<and> yielded it) \<or>
    (\<exists>x. r = Inr x \<and> remaining it = x @ remaining it' \<and> shaping_ok m it' \<and> yielded it' \<and>
      row_limit it' = row_limit it \<and> (\<forall>n. row_limit it = Some n \<longrightarrow> int (length x) \<le> n) \<and>
      (x = [] \<longrightarrow> remaining it = [] \<and> \<not> yielded it))"
proof -
  from shaping_settles [OF assms(1)] obtain it1 where it1: "shaping_next put m it1 = (r, it')" "shaping_ok m it1"
    "remaining it1 = remaining it" "yielded it1 = yielded it" "ob_option (si_buffer it1) = ob_option (si_buffer it)"
    "ob_has_next m (si_buffer it1) \<or> si_finalized it1" unfolding assms(2) by metis
  let ?s = "si_buffer it1"
  have fin: "ob_finalized ?s = si_finalized it1" "si_finalized it1 \<longrightarrow> si_results it1 = []" "sizes_ok m (ob_option ?s)"
      "[] \<notin> set (ob_buffer ?s)" using it1(2) by (simp_all add: shaping_ok_def)
  show ?thesis
  proof (cases "ob_has_next m ?s")
    case True
    from ob_next_ok [OF fin(3) True] obtain x s' where x: "ob_next m ?s = Inr (x, s')"
      "buffer_rows ?s = x @ buffer_rows s'" "buffer_rows ?s \<noteq> [] \<longrightarrow> x \<noteq> []"
      "\<forall>n. max_num_rows_per_block ?s = Some n \<longrightarrow> int (length x) \<le> n"
      "ob_option s' = ob_option ?s" "ob_finalized s' = ob_finalized ?s" "ob_has_yielded_blocks s'" "[] \<notin> set (ob_buffer s')" by blast
    have r: "r = Inr x" "it' = it1\<lparr>si_buffer := s'\<rparr>"
      using it1(1) True x(1) by (auto simp: shaping_next.simps [of put m it1])
    have lim: "row_limit it' = row_limit it1" "row_limit it1 = row_limit it"
      using x(5) it1(5) by (simp_all add: r row_limit_def max_num_rows_per_block_def)
    have "remaining it = [] \<and> \<not> yielded it" if "x = []"
    proof -
      have e: "buffer_rows ?s = []" using x(3) that by blast
      then have "\<not> ob_has_yielded_blocks ?s \<and> si_finalized it1"
        using has_next_empty [OF fin(3) True _ fin(4)] fin(1) by simp
      then show ?thesis using e fin(2) it1(3,4) by (simp add: remaining_def yielded_def)
    qed
    moreover have "remaining it = x @ remaining it'" unfolding it1(3) [symmetric] by (simp add: remaining_def r x(2))
    moreover have "shaping_ok m it'" "yielded it'" using it1(2) x by (simp_all add: shaping_ok_def yielded_def r)
    ultimately show ?thesis using x(4) lim by (auto simp: r(1) row_limit_def)
  next
    case False
    then have "si_finalized it1" using it1(6) by blast
    then have "r = Inl StopIteration" using False it1(1) by (simp add: shaping_next.simps [of put m it1])
    moreover have "remaining it1 = []" "yielded it1"
      using False fin \<open>si_finalized it1\<close>
      by (auto simp: ob_has_next_def remaining_def yielded_def buffer_num_rows_def buffer_rows_def)
    ultimately show ?thesis using it1(3,4) by simp
  qed
qed

lemma take_shaped:
  assumes "shaping_ok m it" and "length (remaining it) + (if yielded it then 0 else 1) < k"
  shows "\<exists>bs. take_iter (shaping_next put m) k it = (bs, Some StopIteration) \<and> concat bs = remaining it \<and>
    (bs = [] \<longrightarrow> yielded it) \<and> (remaining it \<noteq> [] \<or> yielded it \<longrightarrow> [] \<notin> set bs) \<and>
    (\<forall>n. row_limit it = Some n \<longrightarrow> list_all (\<lambda>b. int (length b) \<le> n) bs)"
  using assms
proof (induction k arbitrary: it)
  case (Suc k)
  obtain r it' where run: "shaping_next put m it = (r, it')" by (metis surj_pair)
  from shaping_next_cases [OF Suc.prems(1) run]
  consider "r = Inl StopIteration" "remaining it = []" "yielded it"
    | x where "r = Inr x" "remaining it = x @ remaining it'" "shaping_ok m it'" "yielded it'"
      "row_limit it' = row_limit it" "\<forall>n. row_limit it = Some n \<longrightarrow> int (length x) \<le> n"
      "x = [] \<longrightarrow> remaining it = [] \<and> \<not> yielded it" by blast
  then show ?case
  proof cases
    case 1
    then show ?thesis by (simp add: run)
  next
    case 2
    have "length (remaining it') + (if yielded it' then 0 else 1) < k"
      using Suc.prems(2) 2(2,4,7) by (cases x) auto
    from Suc.IH [OF 2(3) this] obtain bs where IH: "take_iter (shaping_next put m) k it' = (bs, Some StopIteration)"
        "concat bs = remaining it'" "[] \<notin> set bs" "\<forall>n. row_limit it = Some n \<longrightarrow> list_all (\<lambda>b. int (length b) \<le> n) bs"
      using 2(4,5) by auto
    have "take_iter (shaping_next put m) (Suc k) it = (x # bs, Some StopIteration)" using run 2(1) IH(1) by simp
    then show ?thesis using IH 2 by (intro exI [of _ "x # bs"]) auto
  qed
qed simp

end

interpretation block_put: row_appender ob_add_block "\<lambda>b. b"
  by unfold_locales (simp add: ob_add_block_def builder_add_block_def buffer_rows_def)

interpretation row_put: row_appender ob_add "\<lambda>x. [x]"
  by unfold_locales (simp add: ob_add_def buffer_rows_def)



subsection \<open>Rows of blocks\<close>

record 'r row_iterator =
  ri_blocks :: "'r list list"
  ri_cur :: "'r list option"

definition row_init :: "'r list list \<Rightarrow> 'r row_iterator" where
  "row_init bs = \<lparr>ri_blocks = bs, ri_cur = None\<rparr>"

text \<open>The iterator over the rows of a block is the list of the rows still to come.\<close>

function row_next :: "'r row_iterator \<Rightarrow> 'r result \<times> 'r row_iterator" where
  "row_next it =
     (case ri_cur it of
        Some (x # xs) \<Rightarrow> (Inr x, it\<lparr>ri_cur := Some xs\<rparr>)
      | _ \<Rightarrow>
          (case ri_blocks it of
             [] \<Rightarrow> (Inl StopIteration, it)
           | b # bs \<Rightarrow> row_next (it\<lparr>ri_blocks := bs, ri_cur := Some b\<rparr>)))"
  by pat_completeness auto
termination row_next
  by (relation "measure (\<lambda>it. length (ri_blocks it))") auto

declare row_next.simps [simp del]

definition row_left :: "'r row_iterator \<Rightarrow> 'r list" where
  "row_left it = (case ri_cur it of None \<Rightarrow> [] | Some xs \<Rightarrow> xs) @ concat (ri_blocks it)"

lemma row_next_rows:
  "\<exists>it'. row_next it = (case row_left it of [] \<Rightarrow> Inl StopIteration | x # xs \<Rightarrow> Inr x, it') \<and>
    row_left it' = tl (row_left it)"
proof (induction it rule: row_next.induct)
  case (1 it)
  consider x xs where "ri_cur it = Some (x # xs)" | "ri_cur it = None \<or> ri_cur it = Some []" by (metis list.exhaust option.exhaust)
  then show ?case
  proof cases
    case 1
    then show ?thesis by (simp add: row_next.simps row_left_def)
  next
    case none: 2
    show ?thesis
    proof (cases "ri_blocks it")
      case Nil
      then show ?thesis using none by (auto simp: row_next.simps [of it] row_left_def)
    next
      case (Cons b bs)
      let ?it = "it\<lparr>ri_blocks := bs, ri_cur := Some b\<rparr>"
      have "row_next it = row_next ?it" using Cons none by (auto simp: row_next.simps [of it])
      moreover have "row_left it = row_left ?it" using Cons none by (auto simp: row_left_def)
      moreover have "\<exists>it'. row_next ?it = (case row_left ?it of [] \<Rightarrow> Inl StopIteration | x # xs \<Rightarrow> Inr x, it') \<and>
          row_left it' = tl (row_left ?it)"
        using none Cons by (elim disjE) (rule 1; simp)+
      ultimately show ?thesis by (simp only:)
    qed
  qed
qed

lemma take_rows_all: "length (row_left it) < k \<Longrightarrow> take_iter row_next k it = (row_left it, Some StopIteration)"
proof (induction k arbitrary: it)
  case (Suc k)
  obtain it' where run: "row_next it = (case row_left it of [] \<Rightarrow> Inl StopIteration | x # xs \<Rightarrow> Inr x, it')"
    and left: "row_left it' = tl (row_left it)" using row_next_rows by blast
  show ?case
  proof (cases "row_left it")
    case (Cons x xs)
    then show ?thesis using Suc.IH [of it'] Suc.prems run left by simp
  qed (use run in simp)
qed simp

text \<open>A row transform sees the rows of its input blocks in order, and the shaped blocks it puts out
  hold its results in order: for a function on rows, reading, transforming and shaping is mapping
  it over all rows.\<close>

lemma row_transform_in_order:
  assumes "sizes_ok m opt" and "length (concat bs) + 1 < k"
  shows "take_iter row_next k (row_init bs) = (concat bs, Some StopIteration) \<and>
    (\<exists>out. take_iter (shaping_next ob_add m) k (shaping_init opt (map f (fst (take_iter row_next k (row_init bs))))) =
      (out, Some StopIteration) \<and> concat out = map f (concat bs))"
proof -
  have rows: "take_iter row_next k (row_init bs) = (concat bs, Some StopIteration)"
    using take_rows_all [of "row_init bs" k] assms(2) by (simp add: row_init_def row_left_def)
  let ?it = "shaping_init opt (map f (concat bs)) :: ('a, 'a) shaping_iterator"
  have it: "row_put.shaping_ok m ?it" "row_put.remaining ?it = map f (concat bs)" "\<not> row_put.yielded ?it"
    using assms(1) by (simp_all add: row_put.shaping_ok_def row_put.remaining_def row_put.yielded_def
        shaping_init_def ob_init_def buffer_rows_def comp_def)
  from row_put.take_shaped [OF it(1), of k] it(2,3) assms(2) show ?thesis unfolding rows by (auto simp: rows)
qed

end
