(* ===== verification/Actor_Pool.thy ===== *)
theory Actor_Pool
  imports Prelude "HOL-Library.Multiset"
begin

section \<open>Ray: a pool of actors\<close>

text \<open>
  Models \<open>ray/python/ray/util/actor_pool.py\<close>. A task is a function with its value; calling
  it on an actor starts it and gives a fresh future, so the started tasks are a list and a
  future is a position in it. What \<open>ray.wait\<close> finds finished and what \<open>ray.get\<close> returns are
  arguments. An operation gives its outcome and the new state, because Python keeps the
  changes made before an exception.
\<close>

subsection \<open>State\<close>

record ('a, 't) actor_pool =
  idle_actors :: "'a list"
  future_to_actor :: "(nat, nat \<times> 'a) dict"
  index_to_future :: "(nat, nat) dict"
  next_task_index :: nat
  next_return_index :: nat
  pending_submits :: "'t list"

type_synonym ('a, 't) pool_state = "('a, 't) actor_pool \<times> ('a \<times> 't) list"

definition pool_init :: "'a list \<Rightarrow> ('a, 't) actor_pool" where
  "pool_init actors = \<lparr>idle_actors = actors, future_to_actor = [], index_to_future = [],
     next_task_index = 0, next_return_index = 0, pending_submits = []\<rparr>"

subsection \<open>Operations\<close>

definition submit :: "'t \<Rightarrow> ('a, 't) pool_state \<Rightarrow> ('a, 't) pool_state" where
  "submit task s =
     (case s of (p, started) \<Rightarrow>
       if idle_actors p \<noteq> []
       then (let actor = last (idle_actors p); future = length started
             in (p\<lparr>idle_actors := butlast (idle_actors p),
                   future_to_actor := AList.update future (next_task_index p, actor) (future_to_actor p),
                   index_to_future := AList.update (next_task_index p) future (index_to_future p),
                   next_task_index := next_task_index p + 1\<rparr>,
                 started @ [(actor, task)]))
       else (p\<lparr>pending_submits := pending_submits p @ [task]\<rparr>, started))"

definition pool_has_next :: "('a, 't) pool_state \<Rightarrow> bool" where
  "pool_has_next s \<longleftrightarrow> future_to_actor (fst s) \<noteq> []"

definition return_actor :: "'a \<Rightarrow> ('a, 't) pool_state \<Rightarrow> ('a, 't) pool_state" where
  "return_actor actor s =
     (case s of (p, started) \<Rightarrow>
       let p1 = p\<lparr>idle_actors := idle_actors p @ [actor]\<rparr>
       in case pending_submits p1 of
            [] \<Rightarrow> (p1, started)
          | t # ts \<Rightarrow> submit t (p1\<lparr>pending_submits := ts\<rparr>, started))"

text \<open>\<open>finished\<close> is the result of \<open>ray.wait\<close> with a timeout, \<open>None\<close> a call without one; \<open>val\<close> is
  \<open>ray.get\<close> of a task that ran on an actor.\<close>

definition pool_get_next ::
    "('a \<times> 't \<Rightarrow> 'r result) \<Rightarrow> (nat \<Rightarrow> bool) option \<Rightarrow> bool \<Rightarrow> ('a, 't) pool_state
     \<Rightarrow> 'r result \<times> ('a, 't) pool_state" where
  "pool_get_next val finished ignore_if_timedout s =
     (case s of (p, started) \<Rightarrow>
       if \<not> pool_has_next s then (Inl StopIteration, s)
       else if next_return_index p \<ge> next_task_index p
       then (Inl (ValueError ''It is not allowed to call get_next() after get_next_unordered().''), s)
       else
         (case map_of (index_to_future p) (next_return_index p) of
            None \<Rightarrow> (Inl (KeyError ''index''), s)
          | Some future \<Rightarrow>
              (let timedout = (case finished of None \<Rightarrow> False | Some f \<Rightarrow> \<not> f future)
               in if timedout \<and> \<not> ignore_if_timedout then (Inl (TimeoutError ''Timed out waiting for result''), s)
                  else
                    (let p1 = p\<lparr>index_to_future := AList.delete (next_return_index p) (index_to_future p),
                               next_return_index := next_return_index p + 1\<rparr>
                     in case map_of (future_to_actor p1) future of
                          None \<Rightarrow> (Inl (KeyError ''future''), (p1, started))
                        | Some (i, a) \<Rightarrow>
                            (let s2 = return_actor a
                                   (p1\<lparr>future_to_actor := AList.delete future (future_to_actor p1)\<rparr>, started)
                             in (if timedout then Inl (TimeoutError ''The task has been ignored'')
                                 else val (started ! future), s2))))))"

text \<open>\<open>wait\<close> is \<open>ray.wait(futures, num_returns=1)\<close>: one of the futures, or \<open>None\<close> on a timeout. With
  \<open>ignore_if_timedout\<close> the variable \<open>future\<close> is then read before it is set.\<close>

definition pool_get_next_unordered ::
    "('a \<times> 't \<Rightarrow> 'r result) \<Rightarrow> (nat list \<Rightarrow> nat option) \<Rightarrow> bool \<Rightarrow> ('a, 't) pool_state
     \<Rightarrow> 'r result \<times> ('a, 't) pool_state" where
  "pool_get_next_unordered val wait ignore_if_timedout s =
     (case s of (p, started) \<Rightarrow>
       if \<not> pool_has_next s then (Inl StopIteration, s)
       else
         (case wait (map fst (future_to_actor p)) of
            None \<Rightarrow> (Inl (if \<not> ignore_if_timedout then TimeoutError ''Timed out waiting for result''
                          else UnboundLocalError ''future''), s)
          | Some future \<Rightarrow>
              (case map_of (future_to_actor p) future of
                 None \<Rightarrow> (Inl (KeyError ''future''), s)
               | Some (i, a) \<Rightarrow>
                   (let (p2, started2) = return_actor a
                          (p\<lparr>future_to_actor := AList.delete future (future_to_actor p)\<rparr>, started)
                    in if i \<notin> fst ` set (index_to_future p2) then (Inl (KeyError ''index''), (p2, started2))
                       else (val (started ! future),
                             (p2\<lparr>index_to_future := AList.delete i (index_to_future p2),
                                 next_return_index := max (next_return_index p2) (i + 1)\<rparr>, started2))))))"

definition has_free :: "('a, 't) pool_state \<Rightarrow> bool" where
  "has_free s \<longleftrightarrow> length (idle_actors (fst s)) > 0 \<and> length (pending_submits (fst s)) = 0"

definition pop_idle :: "('a, 't) pool_state \<Rightarrow> 'a option \<times> ('a, 't) pool_state" where
  "pop_idle s =
     (case s of (p, started) \<Rightarrow>
       if has_free s
       then (Some (last (idle_actors p)), (p\<lparr>idle_actors := butlast (idle_actors p)\<rparr>, started))
       else (None, s))"

definition busy_actors :: "('a, 't) actor_pool \<Rightarrow> 'a list" where
  "busy_actors p = map (\<lambda>(f, i, a). a) (future_to_actor p)"

definition push :: "'a \<Rightarrow> ('a, 't) pool_state \<Rightarrow> unit result \<times> ('a, 't) pool_state" where
  "push actor s =
     (if actor \<in> set (idle_actors (fst s)) \<or> actor \<in> set (busy_actors (fst s))
      then (Inl (ValueError ''Actor already belongs to current ActorPool''), s)
      else (Inr (), return_actor actor s))"

subsection \<open>map\<close>

text \<open>The work that is left: running and waiting tasks.\<close>

definition pool_work :: "('a, 't) pool_state \<Rightarrow> nat" where
  "pool_work s = length (future_to_actor (fst s)) + length (pending_submits (fst s))"

lemma length_update_le: "length (AList.update k v d) \<le> Suc (length d)"
  by (induction d) auto

lemma length_delete_less: "map_of d k = Some v \<Longrightarrow> length (AList.delete k d) < length d"
proof -
  assume "map_of d k = Some v"
  then have "\<exists>p\<in>set d. \<not> fst p \<noteq> k" by (force dest: map_of_SomeD)
  then show ?thesis by (auto simp: AList.delete_eq length_filter_less)
qed

lemma submit_work: "pool_work (submit t s) \<le> Suc (pool_work s)"
  using length_update_le [of "length (snd s)" "(next_task_index (fst s), last (idle_actors (fst s)))"
      "future_to_actor (fst s)"]
  by (cases s) (auto simp: submit_def pool_work_def Let_def)

lemma return_actor_work: "pool_work (return_actor a s) \<le> pool_work s"
proof (cases s)
  case (Pair p st)
  then show ?thesis
  proof (cases "pending_submits p")
    case (Cons t ts)
    let ?s = "(p\<lparr>idle_actors := idle_actors p @ [a], pending_submits := ts\<rparr>, st)"
    have "pool_work (return_actor a s) = pool_work (submit t ?s)"
      using Pair Cons by (simp add: return_actor_def Let_def)
    also have "\<dots> \<le> Suc (pool_work ?s)" by (rule submit_work)
    finally show ?thesis using Pair Cons by (simp add: pool_work_def)
  qed (simp add: return_actor_def pool_work_def)
qed

lemma get_next_work:
  assumes "pool_get_next val fin ign s = (r, s')"
    and "(\<exists>x. r = Inr x) \<or> ign \<and> (\<exists>m. r = Inl (TimeoutError m))"
  shows "pool_work s' < pool_work s"
proof -
  obtain p st where s: "s = (p, st)" by (cases s)
  from assms obtain f where f: "map_of (index_to_future p) (next_return_index p) = Some f"
    by (auto simp: s pool_get_next_def split: if_splits option.splits)
  let ?p1 = "p\<lparr>index_to_future := AList.delete (next_return_index p) (index_to_future p),
     next_return_index := next_return_index p + 1\<rparr>"
  from assms f obtain i a where a: "map_of (future_to_actor p) f = Some (i, a)"
      "s' = return_actor a (?p1\<lparr>future_to_actor := AList.delete f (future_to_actor p)\<rparr>, st)"
    by (auto simp: s pool_get_next_def Let_def split: if_splits option.splits)
  have "pool_work s' \<le> pool_work (?p1\<lparr>future_to_actor := AList.delete f (future_to_actor p)\<rparr>, st)"
    unfolding a(2) by (rule return_actor_work)
  also have "\<dots> < pool_work s" using length_delete_less [OF a(1)] by (simp add: s pool_work_def)
  finally show ?thesis .
qed

text \<open>\<open>map\<close> first drops what is left of earlier submissions; \<open>finished\<close> tells which of those tasks are
  done when they are polled.\<close>

fun is_timeout :: "py_error \<Rightarrow> bool" where
  "is_timeout (TimeoutError _) = True"
| "is_timeout _ = False"

lemma is_timeout_iff: "is_timeout e \<longleftrightarrow> (\<exists>m. e = TimeoutError m)"
  by (cases e) simp_all

function drain_ordered ::
    "('a \<times> 't \<Rightarrow> 'r result) \<Rightarrow> (nat \<Rightarrow> bool) \<Rightarrow> ('a, 't) pool_state \<Rightarrow> unit result \<times> ('a, 't) pool_state" where
  "drain_ordered val finished s =
     (if \<not> pool_has_next s then (Inr (), s)
      else (case pool_get_next val (Some finished) True s of
              (Inr _, s') \<Rightarrow> drain_ordered val finished s'
            | (Inl e, s') \<Rightarrow> if is_timeout e then drain_ordered val finished s' else (Inl e, s')))"
  by pat_completeness auto
termination drain_ordered
  by (relation "measure (\<lambda>(val, fin, s). pool_work s)") (auto simp: is_timeout_iff intro: get_next_work [OF sym])

text \<open>The generator that \<open>map\<close> returns, consumed to its end.\<close>

function collect_ordered ::
    "('a \<times> 't \<Rightarrow> 'r result) \<Rightarrow> ('a, 't) pool_state \<Rightarrow> 'r list result \<times> ('a, 't) pool_state" where
  "collect_ordered val s =
     (if \<not> pool_has_next s then (Inr [], s)
      else (case pool_get_next val None False s of
              (Inl e, s') \<Rightarrow> (Inl e, s')
            | (Inr r, s') \<Rightarrow>
                (let (rs, s2) = collect_ordered val s' in (rbind rs (\<lambda>xs. Inr (r # xs)), s2))))"
  by pat_completeness auto
termination collect_ordered
  by (relation "measure (\<lambda>(val, s). pool_work s)") (auto intro: get_next_work [OF sym])

declare drain_ordered.simps [simp del] collect_ordered.simps [simp del]

definition pool_map ::
    "('a \<times> 't \<Rightarrow> 'r result) \<Rightarrow> (nat \<Rightarrow> bool) \<Rightarrow> 't list \<Rightarrow> ('a, 't) pool_state
     \<Rightarrow> 'r list result \<times> ('a, 't) pool_state" where
  "pool_map val finished tasks s =
     (case drain_ordered val finished s of
        (Inl e, s1) \<Rightarrow> (Inl e, s1)
      | (Inr _, s1) \<Rightarrow> collect_ordered val (fold submit tasks s1))"

subsection \<open>map unordered\<close>

text \<open>Unlike \<open>map\<close>, the loop that drops earlier submissions polls until the tasks are done: \<open>polls\<close>
  are the answers of \<open>ray.wait\<close> in turn, and \<open>None\<close> means that the loop still runs when they
  are used up.\<close>

fun drain_unordered ::
    "('a \<times> 't \<Rightarrow> 'r result) \<Rightarrow> (nat list \<Rightarrow> nat option) list \<Rightarrow> ('a, 't) pool_state
     \<Rightarrow> (unit result \<times> ('a, 't) pool_state) option" where
  "drain_unordered val [] s = (if \<not> pool_has_next s then Some (Inr (), s) else None)"
| "drain_unordered val (wait # polls) s =
     (if \<not> pool_has_next s then Some (Inr (), s)
      else (case pool_get_next_unordered val wait False s of
              (Inr _, s') \<Rightarrow> drain_unordered val polls s'
            | (Inl e, s') \<Rightarrow> if is_timeout e then drain_unordered val polls s' else Some (Inl e, s')))"

lemma get_next_unordered_work:
  assumes "pool_get_next_unordered val wait ign s = (Inr x, s')"
  shows "pool_work s' < pool_work s"
proof -
  obtain p st where s: "s = (p, st)" by (cases s)
  let ?q = "\<lambda>f. p\<lparr>future_to_actor := AList.delete f (future_to_actor p)\<rparr>"
  from assms obtain f i a p2 st2 where f: "map_of (future_to_actor p) f = Some (i, a)"
      and ret: "return_actor a (?q f, st) = (p2, st2)" and w: "pool_work s' = pool_work (p2, st2)"
    by (auto simp: s pool_get_next_unordered_def pool_work_def split: if_splits option.splits prod.splits)
  have "pool_work s' \<le> pool_work (?q f, st)" using return_actor_work [of a "(?q f, st)"] ret w by simp
  also have "\<dots> < pool_work s" using length_delete_less [OF f] by (simp add: s pool_work_def)
  finally show ?thesis .
qed

text \<open>The generator that \<open>map_unordered\<close> returns, consumed to its end. \<open>pick\<close> is \<open>ray.wait\<close> without a
  timeout; a future is taken once, so the same futures are never waited for twice.\<close>

function collect_unordered ::
    "('a \<times> 't \<Rightarrow> 'r result) \<Rightarrow> (nat list \<Rightarrow> nat) \<Rightarrow> ('a, 't) pool_state \<Rightarrow> 'r list result \<times> ('a, 't) pool_state" where
  "collect_unordered val pick s =
     (if \<not> pool_has_next s then (Inr [], s)
      else (case pool_get_next_unordered val (\<lambda>fs. Some (pick fs)) False s of
              (Inl e, s') \<Rightarrow> (Inl e, s')
            | (Inr r, s') \<Rightarrow>
                (let (rs, s2) = collect_unordered val pick s' in (rbind rs (\<lambda>xs. Inr (r # xs)), s2))))"
  by pat_completeness auto
termination collect_unordered
  by (relation "measure (\<lambda>(val, pick, s). pool_work s)") (auto intro: get_next_unordered_work [OF sym])

declare collect_unordered.simps [simp del]

definition pool_map_unordered ::
    "('a \<times> 't \<Rightarrow> 'r result) \<Rightarrow> (nat list \<Rightarrow> nat option) list \<Rightarrow> (nat list \<Rightarrow> nat) \<Rightarrow> 't list \<Rightarrow> ('a, 't) pool_state
     \<Rightarrow> ('r list result \<times> ('a, 't) pool_state) option" where
  "pool_map_unordered val polls pick tasks s =
     (case drain_unordered val polls s of
        None \<Rightarrow> None
      | Some (Inl e, s1) \<Rightarrow> Some (Inl e, s1)
      | Some (Inr _, s1) \<Rightarrow> Some (collect_unordered val pick (fold submit tasks s1)))"

subsection \<open>The invariant\<close>

text \<open>
  Actors are idle or run one task each; both dicts list the running tasks in the order of
  their indices; tasks wait only while no actor is idle; \<open>subs\<close> are the tasks submitted so
  far, started in that order.
\<close>

definition running :: "('a, 't) actor_pool \<Rightarrow> nat list" where
  "running p = map (\<lambda>(f, i, a). i) (future_to_actor p)"

definition pool_inv :: "'t list \<Rightarrow> ('a, 't) pool_state \<Rightarrow> bool" where
  "pool_inv subs s \<longleftrightarrow> (case s of (p, started) \<Rightarrow>
     distinct (idle_actors p @ busy_actors p) \<and>
     index_to_future p = map (\<lambda>(f, i, a). (i, f)) (future_to_actor p) \<and>
     list_all (\<lambda>(f, i, a). i = f \<and> f < length started \<and> fst (started ! f) = a) (future_to_actor p) \<and>
     distinct (running p) \<and> next_task_index p = length started \<and>
     (pending_submits p \<noteq> [] \<longrightarrow> idle_actors p = []) \<and> map snd started @ pending_submits p = subs)"

definition pool_actors :: "('a, 't) pool_state \<Rightarrow> 'a set" where
  "pool_actors s = set (idle_actors (fst s) @ busy_actors (fst s))"

definition in_order :: "('a, 't) pool_state \<Rightarrow> bool" where
  "in_order s \<longleftrightarrow> running (fst s) = [next_return_index (fst s)..<next_task_index (fst s)] \<and>
     next_return_index (fst s) \<le> next_task_index (fst s)"

text \<open>The tasks whose results have not been taken, in the order of \<open>get_next\<close>.\<close>

definition outstanding :: "('a, 't) pool_state \<Rightarrow> 't list" where
  "outstanding s = (case s of (p, started) \<Rightarrow> map (\<lambda>i. snd (started ! i)) (running p) @ pending_submits p)"

lemma butlast_last_set: "xs \<noteq> [] \<Longrightarrow> set xs = insert (last xs) (set (butlast xs))"
  by (metis append_butlast_last_id list.simps(15) rotate1.simps(2) set_rotate1)

lemma distinct_move_last:
  "xs \<noteq> [] \<Longrightarrow> distinct (xs @ ys) \<longleftrightarrow> distinct (butlast xs @ ys @ [last xs])"
  by (cases xs rule: rev_cases) auto

lemma submit_start:
  assumes inv: "pool_inv subs (p, started)" and idle: "idle_actors p \<noteq> []"
  shows "submit t (p, started) =
    (p\<lparr>idle_actors := butlast (idle_actors p),
       future_to_actor := future_to_actor p @ [(length started, length started, last (idle_actors p))],
       index_to_future := index_to_future p @ [(length started, length started)],
       next_task_index := Suc (length started)\<rparr>, started @ [(last (idle_actors p), t)])"
proof -
  have "length started \<notin> set (map fst (future_to_actor p))"
    using inv by (fastforce simp: pool_inv_def list_all_iff)
  moreover have "length started \<notin> set (map fst (index_to_future p))"
    using inv by (fastforce simp: pool_inv_def list_all_iff)
  moreover have "next_task_index p = length started" using inv by (simp add: pool_inv_def)
  ultimately show ?thesis
    using idle by (simp add: submit_def Let_def update_fresh)
qed

lemma submit_inv:
  assumes "pool_inv subs s"
  shows "pool_inv (subs @ [t]) (submit t s) \<and> pool_actors (submit t s) = pool_actors s \<and>
    outstanding (submit t s) = outstanding s @ [t] \<and> (in_order s \<longrightarrow> in_order (submit t s)) \<and>
    next_return_index (fst (submit t s)) = next_return_index (fst s)"
proof -
  obtain p started where s: "s = (p, started)" by (cases s)
  show ?thesis
  proof (cases "idle_actors p = []")
    case True
    then show ?thesis
      using assms by (auto simp: s submit_def pool_inv_def pool_actors_def busy_actors_def running_def
          outstanding_def in_order_def)
  next
    case False
    have inv: "pool_inv subs (p, started)" using assms s by simp
    have pend: "pending_submits p = []" using inv False by (simp add: pool_inv_def)
    have nt: "next_task_index p = length started" using inv by (simp add: pool_inv_def)
    have run: "\<forall>i\<in>set (running p). i < length started"
      using inv by (auto simp: pool_inv_def running_def list_all_iff)
    let ?p = "fst (submit t s)" and ?st = "snd (submit t s)"
    have eq: "submit t s = (?p, ?st)" by simp
    note sub = submit_start [OF inv False, of t]
    have run': "running ?p = running p @ [length started]" by (simp add: s sub running_def)
    have busy': "busy_actors ?p = busy_actors p @ [last (idle_actors p)]" by (simp add: s sub busy_actors_def)
    have "distinct (idle_actors ?p @ busy_actors ?p)"
      using inv distinct_move_last [OF False, of "busy_actors p"] unfolding busy'
      by (simp add: s sub pool_inv_def)
    moreover have "list_all (\<lambda>(f, i, a). i = f \<and> f < length ?st \<and> fst (?st ! f) = a) (future_to_actor ?p)"
      using inv by (auto simp: s sub pool_inv_def list_all_iff nth_append)
    moreover have "distinct (running ?p)" using inv run unfolding run' by (auto simp: pool_inv_def)
    ultimately have "pool_inv (subs @ [t]) (submit t s)"
      using inv pend by (simp add: s sub pool_inv_def)
    moreover have "pool_actors (submit t s) = pool_actors s"
      using butlast_last_set [OF False] busy' by (auto simp: pool_actors_def s sub)
    moreover have "map (\<lambda>i. snd (?st ! i)) (running p) = map (\<lambda>i. snd (started ! i)) (running p)"
      using run by (simp add: s sub nth_append)
    then have "outstanding (submit t s) = outstanding s @ [t]"
      using run' pend by (simp add: outstanding_def s sub)
    moreover have "in_order s \<longrightarrow> in_order (submit t s)"
      using run' nt by (simp add: in_order_def s sub)
    ultimately show ?thesis by (simp add: s sub)
  qed
qed

lemma return_actor_inv:
  assumes inv: "pool_inv subs s" and a: "a \<notin> pool_actors s"
  shows "pool_inv subs (return_actor a s) \<and> pool_actors (return_actor a s) = insert a (pool_actors s) \<and>
    outstanding (return_actor a s) = outstanding s \<and> (in_order s \<longrightarrow> in_order (return_actor a s)) \<and>
    next_return_index (fst (return_actor a s)) = next_return_index (fst s)"
proof -
  obtain p st where s: "s = (p, st)" by (cases s)
  show ?thesis
  proof (cases "pending_submits p")
    case Nil
    then show ?thesis
      using inv a by (auto simp: s return_actor_def pool_inv_def pool_actors_def busy_actors_def running_def
          outstanding_def in_order_def)
  next
    case (Cons t ts)
    then have idle: "idle_actors p = []" using inv by (simp add: s pool_inv_def)
    let ?q = "p\<lparr>idle_actors := [a], pending_submits := []\<rparr>"
    have q: "pool_inv (map snd st) (?q, st)"
      using inv a idle by (auto simp: s pool_inv_def pool_actors_def busy_actors_def running_def)
    obtain p' st' where eq: "submit t (?q, st) = (p', st')" by fastforce
    have sub: "pool_inv (map snd st @ [t]) (p', st')" "pool_actors (p', st') = pool_actors (?q, st)"
      "outstanding (p', st') = outstanding (?q, st) @ [t]" "in_order (?q, st) \<longrightarrow> in_order (p', st')"
      "next_return_index p' = next_return_index p"
      using submit_inv [OF q, of t] by (simp_all add: eq)
    have p': "idle_actors p' = []" "pending_submits p' = []"
      using eq by (auto simp: submit_def Let_def)
    have r: "return_actor a s = (p'\<lparr>pending_submits := ts\<rparr>, st')"
      using Cons idle eq by (auto simp: s return_actor_def submit_def Let_def)
    have "subs = map snd st @ [t] @ ts" using inv Cons by (simp add: s pool_inv_def)
    then have "pool_inv subs (return_actor a s)"
      using sub(1) p' by (simp add: r pool_inv_def busy_actors_def running_def)
    moreover have "pool_actors (return_actor a s) = insert a (pool_actors s)"
      unfolding r using sub(2) idle by (simp add: s pool_actors_def busy_actors_def)
    moreover have "outstanding (return_actor a s) = outstanding s"
      unfolding r using sub(3) Cons p' by (simp add: s outstanding_def running_def)
    moreover have "in_order s \<longrightarrow> in_order (return_actor a s)"
      unfolding r using sub(4,5) by (simp add: s in_order_def running_def)
    moreover have "next_return_index (fst (return_actor a s)) = next_return_index (fst s)"
      unfolding r using sub(5) by (simp add: s)
    ultimately show ?thesis by blast
  qed
qed

text \<open>Taking a running task out of both dicts.\<close>

definition pool_remove :: "nat \<Rightarrow> ('a, 't) actor_pool \<Rightarrow> ('a, 't) actor_pool" where
  "pool_remove f p = p\<lparr>index_to_future := AList.delete f (index_to_future p),
     future_to_actor := AList.delete f (future_to_actor p)\<rparr>"

lemma running_entry:
  assumes "pool_inv subs (p, st)" and "f \<in> set (running p)"
  shows "map_of (index_to_future p) f = Some f \<and> map_of (future_to_actor p) f = Some (f, fst (st ! f)) \<and> f < length st"
proof -
  obtain a where a: "(f, f, a) \<in> set (future_to_actor p)" "a = fst (st ! f)" "f < length st"
    using assms by (auto simp: pool_inv_def running_def list_all_iff)
  have keys: "map fst (future_to_actor p) = running p" "map fst (index_to_future p) = running p"
    using assms(1) by (auto simp: pool_inv_def running_def list_all_iff)
  have "distinct (running p)" using assms(1) by (simp add: pool_inv_def)
  moreover have "(f, f) \<in> set (index_to_future p)" using assms(1) a(1) by (force simp: pool_inv_def)
  ultimately show ?thesis using a keys by (simp add: map_of_is_SomeI)
qed

lemma distinct_map_filter_key:
  "distinct (xs @ map g ys) \<Longrightarrow> distinct (xs @ map g (filter P ys))"
  by (auto simp: distinct_map_filter)

lemma pool_remove_inv:
  assumes inv: "pool_inv subs (p, st)" and f: "f \<in> set (running p)"
  shows "pool_inv subs (pool_remove f p, st)" and "running (pool_remove f p) = filter (\<lambda>i. i \<noteq> f) (running p)"
    and "insert (fst (st ! f)) (pool_actors (pool_remove f p, st)) = pool_actors (p, st)"
    and "fst (st ! f) \<notin> pool_actors (pool_remove f p, st)"
proof -
  let ?F = "future_to_actor p" let ?G = "filter (\<lambda>e. fst e \<noteq> f) ?F"
  have keys: "\<forall>(g, i, a)\<in>set ?F. i = g \<and> a = fst (st ! g)" using inv by (auto simp: pool_inv_def list_all_iff)
  have i2f: "AList.delete f (index_to_future p) = map (\<lambda>(g, i, a). (i, g)) ?G"
  proof -
    have "filter (\<lambda>x. f \<noteq> fst (snd x)) ?F = ?G" using keys by (intro filter_cong) auto
    moreover have "index_to_future p = map (\<lambda>(g, i, a). (i, g)) ?F" using inv by (simp add: pool_inv_def)
    ultimately show ?thesis by (simp add: AList.delete_eq filter_map comp_def case_prod_unfold)
  qed
  have f2a: "AList.delete f ?F = ?G" by (auto simp: AList.delete_eq intro!: filter_cong)
  show run: "running (pool_remove f p) = filter (\<lambda>i. i \<noteq> f) (running p)"
    using keys by (auto simp: running_def pool_remove_def f2a filter_map comp_def case_prod_unfold intro!: map_cong filter_cong)
  have busy: "busy_actors (pool_remove f p) = map (\<lambda>(g, i, a). a) ?G" by (simp add: busy_actors_def pool_remove_def f2a)
  have dist: "distinct (idle_actors p @ map (\<lambda>(g, i, a). a) ?F)" using inv by (simp add: pool_inv_def busy_actors_def)
  then have "distinct (idle_actors p @ map (\<lambda>(g, i, a). a) ?G)" by (rule distinct_map_filter_key)
  then show "pool_inv subs (pool_remove f p, st)"
    using inv run i2f unfolding pool_inv_def prod.case busy
    by (simp add: pool_remove_def f2a list_all_iff)
  obtain e where e: "e \<in> set ?F" "fst e = f" "snd (snd e) = fst (st ! f)"
    using f keys by (force simp: running_def)
  have F: "set ?F = insert e (set ?G)"
  proof -
    have "map fst ?F = running p" using keys by (auto simp: running_def)
    then have "distinct (map fst ?F)" using inv by (simp add: pool_inv_def)
    then have "inj_on fst (set ?F)" by (simp add: distinct_map)
    then have one: "x = e" if "x \<in> set ?F" "fst x = f" for x using that e(1,2) by (simp add: inj_on_def)
    show ?thesis
    proof (rule set_eqI)
      fix x show "x \<in> set ?F \<longleftrightarrow> x \<in> insert e (set ?G)"
        using one [of x] e(1,2) by (cases "fst x = f"; simp; blast)
    qed
  qed
  have pa: "pool_actors (pool_remove f p, st) = set (idle_actors p) \<union> (\<lambda>x. snd (snd x)) ` set ?G"
    unfolding pool_actors_def fst_conv set_append busy by (simp add: pool_remove_def case_prod_unfold)
  have "pool_actors (p, st) = set (idle_actors p) \<union> (\<lambda>x. snd (snd x)) ` set ?F"
    by (simp add: pool_actors_def busy_actors_def case_prod_unfold)
  then show "insert (fst (st ! f)) (pool_actors (pool_remove f p, st)) = pool_actors (p, st)"
    unfolding pa F image_insert e(3) by simp
  show "fst (st ! f) \<notin> pool_actors (pool_remove f p, st)"
  proof
    assume "fst (st ! f) \<in> pool_actors (pool_remove f p, st)"
    then consider "fst (st ! f) \<in> set (idle_actors p)" | x where "x \<in> set ?G" "snd (snd x) = fst (st ! f)"
      unfolding pa by (elim UnE imageE) simp_all
    then show False
    proof cases
      case 1
      then show ?thesis using dist e by (force simp: case_prod_unfold)
    next
      case 2
      have "inj_on (\<lambda>(g, i, a). a) (set ?F)" using dist by (simp add: distinct_map)
      then have "x = e" using 2 e(1,3) by (auto simp: inj_on_def case_prod_unfold)
      then show ?thesis using 2(1) e(2) by simp
    qed
  qed
qed

subsection \<open>Results in order\<close>

lemma remove_first_in_order:
  assumes inv: "pool_inv subs (p, st)" and ord: "in_order (p, st)"
    and f: "f = next_return_index p" "f \<in> set (running p)"
  shows "running ((pool_remove f p)\<lparr>next_return_index := Suc f\<rparr>) = [Suc f..<next_task_index p]"
    and "in_order ((pool_remove f p)\<lparr>next_return_index := Suc f\<rparr>, st)"
proof -
  have rn: "running p = [f..<next_task_index p]" using ord f(1) by (simp add: in_order_def)
  then have lt: "f < next_task_index p" using f(2) by simp
  have "running ((pool_remove f p)\<lparr>next_return_index := Suc f\<rparr>) = filter (\<lambda>i. i \<noteq> f) [f..<next_task_index p]"
    using pool_remove_inv(2) [OF inv f(2)] rn by (simp add: running_def)
  then show run: "running ((pool_remove f p)\<lparr>next_return_index := Suc f\<rparr>) = [Suc f..<next_task_index p]"
    using lt by (simp add: upt_conv_Cons filter_id_conv)
  then show "in_order ((pool_remove f p)\<lparr>next_return_index := Suc f\<rparr>, st)"
    using lt by (simp add: in_order_def pool_remove_def)
qed

lemma no_next_outstanding:
  assumes "pool_inv subs s" and "pool_actors s \<noteq> {}" and "\<not> pool_has_next s"
  shows "outstanding s = [] \<and> pending_submits (fst s) = []"
proof -
  obtain p st where s: "s = (p, st)" by (cases s)
  have "busy_actors p = []" "running p = []"
    using assms(3) by (simp_all add: s pool_has_next_def busy_actors_def running_def)
  then show ?thesis using assms(1,2) by (auto simp: s outstanding_def pool_inv_def pool_actors_def)
qed

lemma get_next_ordered:
  assumes inv: "pool_inv subs s" and ord: "in_order s" and nxt: "pool_has_next s"
    and run: "pool_get_next val fin ign s = (r, s')"
    and prog: "ign \<or> fin = None"
  shows "\<exists>a. a \<in> pool_actors s \<and> outstanding s \<noteq> [] \<and>
    (r = val (a, hd (outstanding s)) \<or> (\<exists>m. fin \<noteq> None \<and> r = Inl (TimeoutError m))) \<and>
    pool_inv subs s' \<and> in_order s' \<and> pool_actors s' = pool_actors s \<and> outstanding s' = tl (outstanding s)"
proof -
  obtain p st where s: "s = (p, st)" by (cases s)
  let ?f = "next_return_index p"
  have rn: "running p = [?f..<next_task_index p]" "running p \<noteq> []"
    using ord nxt by (simp add: s in_order_def, simp add: s pool_has_next_def running_def)
  then have lt: "?f < next_task_index p" "?f \<in> set (running p)" by auto
  have tl_run: "running p = ?f # [Suc ?f..<next_task_index p]" using rn(1) lt(1) upt_conv_Cons by simp
  have inv': "pool_inv subs (p, st)" using inv s by simp
  note ent = running_entry [OF inv' lt(2)] and rem = pool_remove_inv [OF inv' lt(2)]
  let ?a = "fst (st ! ?f)"
  let ?p1 = "(pool_remove ?f p)\<lparr>next_return_index := Suc ?f\<rparr>"
  have inv1: "pool_inv subs (?p1, st)" using rem(1) by (simp add: pool_inv_def busy_actors_def running_def)
  have act1: "pool_actors (?p1, st) = pool_actors (pool_remove ?f p, st)" by (simp add: pool_actors_def busy_actors_def)
  have ord': "in_order (p, st)" using ord s by simp
  note run1 = remove_first_in_order(1) [OF inv' ord' refl lt(2)] and ord1 = remove_first_in_order(2) [OF inv' ord' refl lt(2)]
  have new: "?a \<notin> pool_actors (?p1, st)" using rem(4) act1 by simp
  note ret = return_actor_inv [OF inv1 new]
  have out: "outstanding (?p1, st) = tl (outstanding s)" "outstanding s \<noteq> []" "hd (outstanding s) = snd (st ! ?f)"
    unfolding outstanding_def s prod.case run1 by (simp_all add: tl_run pool_remove_def)
  have "p\<lparr>index_to_future := AList.delete ?f (index_to_future p), next_return_index := Suc ?f,
      future_to_actor := AList.delete ?f (future_to_actor p)\<rparr> = ?p1" by (simp add: pool_remove_def)
  with run nxt lt(1) ent prog
  have res: "s' = return_actor ?a (?p1, st)"
      "r = val (st ! ?f) \<or> (\<exists>m. fin \<noteq> None \<and> r = Inl (TimeoutError m))"
    by (auto simp: s pool_get_next_def Let_def split: option.splits if_splits)
  have "val (st ! ?f) = val (?a, hd (outstanding s))" using out(3) by simp
  moreover have "?a \<in> pool_actors s" "pool_actors s' = pool_actors s"
    using rem(3) ret act1 by (auto simp: s res(1))
  ultimately show ?thesis using res(2) ret ord1 out(1,2) unfolding res(1) by auto
qed

lemma drain_ordered_ok:
  assumes "pool_inv subs s" and "in_order s" and "\<And>x. \<exists>y. val x = Inr y"
  shows "\<exists>s'. drain_ordered val fin s = (Inr (), s') \<and> pool_inv subs s' \<and> in_order s' \<and>
    pool_actors s' = pool_actors s \<and> \<not> pool_has_next s'"
  using assms
proof (induction val fin s rule: drain_ordered.induct)
  case (1 val fin s)
  show ?case
  proof (cases "pool_has_next s")
    case True
    obtain r s1 where g: "pool_get_next val (Some fin) True s = (r, s1)" by (metis surj_pair)
    from get_next_ordered [OF "1.prems"(1,2) True g] "1.prems"(3)
    have r: "(\<exists>x. r = Inr x) \<or> (\<exists>m. r = Inl (TimeoutError m))"
      and s1: "pool_inv subs s1" "in_order s1" "pool_actors s1 = pool_actors s" by auto
    have step: "drain_ordered val fin s = drain_ordered val fin s1"
      using r True g by (subst drain_ordered.simps) auto
    have "\<exists>s'. drain_ordered val fin s1 = (Inr (), s') \<and> pool_inv subs s' \<and> in_order s' \<and>
        pool_actors s' = pool_actors s1 \<and> \<not> pool_has_next s'"
      using r "1.IH" [OF _ g [symmetric]] True s1(1,2) "1.prems"(3) by (elim disjE exE) auto
    then show ?thesis unfolding step s1(3) by blast
  next
    case False
    then show ?thesis using "1.prems" by (simp add: drain_ordered.simps)
  qed
qed

lemma collect_ordered_ok:
  assumes "pool_inv subs s" and "in_order s" and "pool_actors s \<noteq> {}"
  shows "\<exists>as s'. collect_ordered (\<lambda>x. Inr (g x)) s = (Inr (map g (zip as (outstanding s))), s') \<and>
    length as = length (outstanding s) \<and> set as \<subseteq> pool_actors s \<and> pool_inv subs s' \<and> in_order s' \<and>
    pool_actors s' = pool_actors s \<and> outstanding s' = []"
  using assms
proof (induction "pool_work s" arbitrary: s rule: less_induct)
  case less
  show ?case
  proof (cases "pool_has_next s")
    case True
    obtain r s1 where n: "pool_get_next (\<lambda>x. Inr (g x)) None False s = (r, s1)" by (metis surj_pair)
    from get_next_ordered [OF less.prems(1,2) True n] obtain a where
        a: "a \<in> pool_actors s" "outstanding s \<noteq> []" "r = Inr (g (a, hd (outstanding s)))"
        "pool_inv subs s1" "in_order s1" "pool_actors s1 = pool_actors s" "outstanding s1 = tl (outstanding s)" by auto
    have "pool_work s1 < pool_work s" by (rule get_next_work [OF n]) (use a(3) in blast)
    from less.hyps [OF this a(4,5)] a(6) less.prems(3) obtain as s' where IH:
        "collect_ordered (\<lambda>x. Inr (g x)) s1 = (Inr (map g (zip as (outstanding s1))), s')"
        "length as = length (outstanding s1)" "set as \<subseteq> pool_actors s1" "pool_inv subs s'" "in_order s'"
        "pool_actors s' = pool_actors s1" "outstanding s' = []" by metis
    obtain t ts where o: "outstanding s = t # ts" using a(2) by (cases "outstanding s") auto
    have "collect_ordered (\<lambda>x. Inr (g x)) s = (Inr (map g (zip (a # as) (outstanding s))), s')"
      using True n a(3,7) IH(1) o by (subst collect_ordered.simps) simp
    then show ?thesis using IH a o by (intro exI [of _ "a # as"] exI [of _ s']) auto
  next
    case False
    have "outstanding s = []" using no_next_outstanding less.prems(1,3) False by blast
    then show ?thesis using False less.prems by (intro exI [of _ "[]"] exI [of _ s]) (simp add: collect_ordered.simps)
  qed
qed

subsection \<open>Every operation keeps the invariant\<close>

lemma get_next_cases:
  assumes "pool_inv subs (p, st)"
  shows "snd (pool_get_next val fin ign (p, st)) = (p, st) \<or>
    (next_return_index p \<in> set (running p) \<and> snd (pool_get_next val fin ign (p, st)) =
      return_actor (fst (st ! next_return_index p))
        ((pool_remove (next_return_index p) p)\<lparr>next_return_index := Suc (next_return_index p)\<rparr>, st))"
proof (cases "map_of (index_to_future p) (next_return_index p)")
  case None
  then show ?thesis by (simp add: pool_get_next_def)
next
  case (Some f)
  let ?r = "next_return_index p"
  from Some assms have r: "?r \<in> set (running p)" by (force simp: pool_inv_def running_def dest: map_of_SomeD)
  note ent = running_entry [OF assms r]
  have "p\<lparr>index_to_future := AList.delete ?r (index_to_future p), next_return_index := Suc ?r,
      future_to_actor := AList.delete ?r (future_to_actor p)\<rparr> = (pool_remove ?r p)\<lparr>next_return_index := Suc ?r\<rparr>"
    by (simp add: pool_remove_def)
  with ent r show ?thesis by (auto simp: pool_get_next_def Let_def)
qed

lemma pool_inv_return_index [simp]:
  "pool_inv subs (p\<lparr>next_return_index := k\<rparr>, st) = pool_inv subs (p, st)"
  "pool_actors (p\<lparr>next_return_index := k\<rparr>, st) = pool_actors (p, st)"
  by (simp_all add: pool_inv_def busy_actors_def running_def pool_actors_def)

lemma get_next_inv:
  assumes "pool_inv subs s"
  shows "pool_inv subs (snd (pool_get_next val fin ign s)) \<and>
    pool_actors (snd (pool_get_next val fin ign s)) = pool_actors s"
proof -
  obtain p st where s: "s = (p, st)" by (cases s)
  let ?r = "next_return_index p"
  from get_next_cases [of subs p st val fin ign] assms s
  consider "snd (pool_get_next val fin ign s) = s"
    | "?r \<in> set (running p)" "snd (pool_get_next val fin ign s) =
      return_actor (fst (st ! ?r)) ((pool_remove ?r p)\<lparr>next_return_index := Suc ?r\<rparr>, st)" by blast
  then show ?thesis
  proof cases
    case 2
    have inv: "pool_inv subs (p, st)" using assms s by simp
    note rem = pool_remove_inv [OF inv 2(1)]
    have "pool_inv subs ((pool_remove ?r p)\<lparr>next_return_index := Suc ?r\<rparr>, st)" using rem(1) by simp
    from return_actor_inv [OF this, of "fst (st ! ?r)"] rem(3,4) show ?thesis unfolding 2(2) unfolding s by simp
  qed (use assms in simp)
qed

lemma delete_update_commute: "k \<noteq> k' \<Longrightarrow> AList.delete k (AList.update k' v d) = AList.update k' v (AList.delete k d)"
  by (induction d) auto

lemma return_actor_late_delete:
  assumes "f \<noteq> next_task_index p" and "return_actor a (p, st) = (p2, st2)"
  shows "return_actor a (p\<lparr>index_to_future := AList.delete f (index_to_future p)\<rparr>, st) =
    (p2\<lparr>index_to_future := AList.delete f (index_to_future p2)\<rparr>, st2)"
  using assms by (auto simp: return_actor_def submit_def Let_def delete_update_commute split: list.splits)

lemma keys_update: "fst ` set (AList.update k v d) = insert k (fst ` set d)"
  by (induction d) auto

lemma return_actor_keys:
  assumes "return_actor a (p, st) = (p2, st2)"
  shows "fst ` set (index_to_future p) \<subseteq> fst ` set (index_to_future p2)"
proof (cases "pending_submits p")
  case Nil
  then show ?thesis using assms by (auto simp: return_actor_def)
next
  case (Cons t ts)
  then have "index_to_future p2 = AList.update (next_task_index p) (length st) (index_to_future p)"
    using assms by (auto simp: return_actor_def submit_def Let_def)
  then show ?thesis by (simp add: keys_update subset_insertI)
qed

lemma future_running:
  assumes "pool_inv subs (p, st)" and "map_of (future_to_actor p) f = Some v"
  shows "f \<in> set (running p)"
proof -
  have "map fst (future_to_actor p) = running p"
    using assms(1) by (auto simp: pool_inv_def running_def list_all_iff)
  then have "set (running p) = fst ` set (future_to_actor p)" by (metis list.set_map)
  then show ?thesis using map_of_SomeD [OF assms(2)] by (simp add: rev_image_eqI)
qed

lemma get_next_unordered_taken:
  assumes inv: "pool_inv subs (p, st)" and run: "f \<in> set (running p)"
    and wait: "wait (map fst (future_to_actor p)) = Some f"
    and ret: "return_actor (fst (st ! f)) (pool_remove f p, st) = (p2, st2)"
  shows "pool_get_next_unordered val wait ign (p, st) =
    (val (st ! f), (p2\<lparr>next_return_index := max (next_return_index p2) (f + 1)\<rparr>, st2))"
proof -
  note ent = running_entry [OF inv run]
  have nxt: "pool_has_next (p, st)" using run by (auto simp: pool_has_next_def running_def)
  let ?a = "fst (st ! f)"
  let ?p1 = "p\<lparr>future_to_actor := AList.delete f (future_to_actor p)\<rparr>"
  obtain p3 st3 where r3: "return_actor ?a (?p1, st) = (p3, st3)" by fastforce
  have nt: "f \<noteq> next_task_index ?p1" using ent inv by (simp add: pool_inv_def)
  have "pool_remove f p = ?p1\<lparr>index_to_future := AList.delete f (index_to_future ?p1)\<rparr>"
    by (cases p) (simp add: pool_remove_def)
  then have late: "p2 = p3\<lparr>index_to_future := AList.delete f (index_to_future p3)\<rparr>" "st2 = st3"
    using return_actor_late_delete [OF nt r3] ret by simp_all
  have "f \<in> fst ` set (index_to_future p)" using ent by (force dest: map_of_SomeD)
  then have "f \<in> fst ` set (index_to_future p3)" using return_actor_keys [OF r3] by auto
  then show ?thesis using nxt wait ent r3 by (simp add: late pool_get_next_unordered_def)
qed

lemma get_next_unordered_same:
  assumes "wait (map fst (future_to_actor p)) = None \<or>
    (\<exists>f. wait (map fst (future_to_actor p)) = Some f \<and> map_of (future_to_actor p) f = None)"
  shows "\<exists>e. pool_get_next_unordered val wait ign (p, st) = (Inl e, (p, st))"
  using assms by (auto simp: pool_get_next_unordered_def split: option.splits)

lemma map_filter_neq_mset:
  "distinct xs \<Longrightarrow> x \<in> set xs \<Longrightarrow>
    add_mset (g x) (mset (map g (filter (\<lambda>y. y \<noteq> x) xs))) = mset (map g xs)"
proof (induction xs)
  case (Cons y xs)
  have "filter (\<lambda>z. z \<noteq> y) xs = xs" using Cons.prems(1) by (auto simp: filter_id_conv)
  then show ?case using Cons by (cases "y = x") (simp_all del: mset_map mset_filter)
qed simp

text \<open>A call of \<open>get_next_unordered\<close> leaves the state as it is and raises, or takes one outstanding task.\<close>

lemma get_next_unordered_cases:
  assumes inv: "pool_inv subs s" and run: "pool_get_next_unordered val wait ign s = (r, s')"
  shows "(s' = s \<and> (\<exists>e. r = Inl e)) \<or>
    (\<exists>a t. r = val (a, t) \<and> a \<in> pool_actors s \<and> mset (outstanding s) = add_mset t (mset (outstanding s')) \<and>
      pool_inv subs s' \<and> pool_actors s' = pool_actors s)"
proof -
  obtain p st where s: "s = (p, st)" by (cases s)
  have inv': "pool_inv subs (p, st)" using inv s by simp
  show ?thesis
  proof (cases "\<exists>f v. wait (map fst (future_to_actor p)) = Some f \<and> map_of (future_to_actor p) f = Some v")
    case True
    then obtain f v where f: "wait (map fst (future_to_actor p)) = Some f" "map_of (future_to_actor p) f = Some v" by blast
    have rn: "f \<in> set (running p)" by (rule future_running [OF inv' f(2)])
    note rem = pool_remove_inv [OF inv' rn]
    obtain p2 st2 where ret: "return_actor (fst (st ! f)) (pool_remove f p, st) = (p2, st2)" by fastforce
    from get_next_unordered_taken [OF inv' rn, of wait p2 st2 val ign] f(1) ret run
    have r: "r = val (st ! f)" "s' = (p2\<lparr>next_return_index := max (next_return_index p2) (f + 1)\<rparr>, st2)"
      by (simp_all add: s)
    from return_actor_inv [OF rem(1,4)] rem(3)
    have q: "pool_inv subs (p2, st2)" "pool_actors (p2, st2) = pool_actors s"
      "outstanding (p2, st2) = outstanding (pool_remove f p, st)" by (simp_all add: ret s)
    have "distinct (running p)" using inv' by (simp add: pool_inv_def)
    from map_filter_neq_mset [OF this rn, of "\<lambda>i. snd (st ! i)"]
    have "mset (outstanding s) = add_mset (snd (st ! f)) (mset (outstanding (pool_remove f p, st)))"
      unfolding s outstanding_def prod.case rem(2) by (simp add: pool_remove_def)
    moreover have "outstanding s' = outstanding (p2, st2)" by (simp add: r(2) outstanding_def running_def)
    moreover have "fst (st ! f) \<in> pool_actors s" using rem(3) s by blast
    ultimately show ?thesis
      using r q by (intro disjI2 exI [of _ "fst (st ! f)"] exI [of _ "snd (st ! f)"]) simp
  next
    case False
    then have "wait (map fst (future_to_actor p)) = None \<or>
        (\<exists>f. wait (map fst (future_to_actor p)) = Some f \<and> map_of (future_to_actor p) f = None)"
      by (metis not_None_eq)
    from get_next_unordered_same [of wait p val ign st, OF this] run show ?thesis by (auto simp: s)
  qed
qed

lemma get_next_unordered_inv:
  assumes "pool_inv subs s"
  shows "pool_inv subs (snd (pool_get_next_unordered val wait ign s)) \<and>
    pool_actors (snd (pool_get_next_unordered val wait ign s)) = pool_actors s"
proof -
  obtain r s' where run: "pool_get_next_unordered val wait ign s = (r, s')" by (metis surj_pair)
  from get_next_unordered_cases [OF assms run] assms show ?thesis unfolding run snd_conv by blast
qed

end
