(* ===== verification/Pool_Props.thy ===== *)
theory Pool_Props
  imports Actor_Pool
begin

section \<open>Ray: what a pool of actors promises\<close>

text \<open>
  The states a pool reaches by any sequence of its operations, as an inductive relation, and
  the states reached without \<open>get_next_unordered\<close>. Over the first, no actor runs two tasks and
  no submitted task is lost; over the second, \<open>map\<close> gives its results in the order of its values.
\<close>

subsection \<open>Reachable states\<close>

text \<open>\<open>ordered\<close> restricts to the operations that keep the order; \<open>A\<close> are the actors of the pool,
  \<open>subs\<close> the tasks submitted so far.\<close>

inductive pool_reach ::
    "bool \<Rightarrow> ('a \<times> 't \<Rightarrow> 'r result) \<Rightarrow> 'a set \<Rightarrow> 't list \<Rightarrow> ('a, 't) pool_state \<Rightarrow> bool"
  for ordered val where
  init: "distinct actors \<Longrightarrow> pool_reach ordered val (set actors) [] (pool_init actors, [])"
| submit: "pool_reach ordered val A subs s \<Longrightarrow> pool_reach ordered val A (subs @ [t]) (submit t s)"
| get_next: "pool_reach ordered val A subs s \<Longrightarrow> pool_get_next val fin ign s = (r, s') \<Longrightarrow>
    pool_reach ordered val A subs s'"
| get_next_unordered: "pool_reach ordered val A subs s \<Longrightarrow> \<not> ordered \<Longrightarrow>
    pool_get_next_unordered val wait ign s = (r, s') \<Longrightarrow> pool_reach ordered val A subs s'"
| pop_idle: "pool_reach ordered val A subs s \<Longrightarrow> pop_idle s = (Some a, s') \<Longrightarrow>
    pool_reach ordered val (A - {a}) subs s'"
| push: "pool_reach ordered val A subs s \<Longrightarrow> push a s = (Inr (), s') \<Longrightarrow>
    pool_reach ordered val (insert a A) subs s'"

lemma init_inv:
  "distinct actors \<Longrightarrow> pool_inv [] (pool_init actors, []) \<and> in_order (pool_init actors, []) \<and>
    pool_actors (pool_init actors, []) = set actors"
  by (simp add: pool_init_def pool_inv_def busy_actors_def running_def in_order_def pool_actors_def)

lemma pop_idle_inv:
  assumes inv: "pool_inv subs s" and pop: "pop_idle s = (Some a, s')"
  shows "pool_inv subs s' \<and> pool_actors s' = pool_actors s - {a} \<and> (in_order s \<longrightarrow> in_order s')"
proof -
  obtain p st where s: "s = (p, st)" by (cases s)
  have free: "has_free s" and a: "a = last (idle_actors p)"
    and s': "s' = (p\<lparr>idle_actors := butlast (idle_actors p)\<rparr>, st)"
    using pop by (auto simp: s pop_idle_def split: if_splits)
  then obtain xs where xs: "idle_actors p = xs @ [a]" "pending_submits p = []"
    by (cases "idle_actors p" rule: rev_cases) (auto simp: s has_free_def)
  show ?thesis
    using inv xs by (auto simp: s s' pool_inv_def pool_actors_def busy_actors_def running_def in_order_def)
qed

lemma push_inv:
  assumes inv: "pool_inv subs s" and push: "push a s = (Inr (), s')"
  shows "pool_inv subs s' \<and> pool_actors s' = insert a (pool_actors s) \<and> (in_order s \<longrightarrow> in_order s')"
proof -
  have "a \<notin> pool_actors s" "s' = return_actor a s"
    using push by (auto simp: push_def pool_actors_def split: if_splits)
  then show ?thesis using return_actor_inv [OF inv] by simp
qed

lemma get_next_in_order:
  assumes inv: "pool_inv subs s" and ord: "in_order s"
  shows "in_order (snd (pool_get_next val fin ign s))"
proof -
  obtain p st where s: "s = (p, st)" by (cases s)
  have inv': "pool_inv subs (p, st)" "in_order (p, st)" using inv ord s by simp_all
  let ?f = "next_return_index p"
  let ?p1 = "(pool_remove ?f p)\<lparr>next_return_index := Suc ?f\<rparr>"
  from get_next_cases [OF inv'(1), of val fin ign]
  consider "snd (pool_get_next val fin ign (p, st)) = (p, st)"
    | "?f \<in> set (running p)" "snd (pool_get_next val fin ign (p, st)) = return_actor (fst (st ! ?f)) (?p1, st)" by blast
  then show ?thesis
  proof cases
    case 1
    then show ?thesis using ord s by simp
  next
    case 2
    note rem = pool_remove_inv [OF inv'(1) 2(1)]
    have "pool_inv subs (?p1, st)" "fst (st ! ?f) \<notin> pool_actors (?p1, st)" using rem(1,4) by simp_all
    from return_actor_inv [OF this] remove_first_in_order(2) [OF inv' refl 2(1)]
    have "in_order (return_actor (fst (st ! ?f)) (?p1, st))" by blast
    then show ?thesis using 2(2) s by simp
  qed
qed

lemma pool_reach_inv:
  "pool_reach ordered val A subs s \<Longrightarrow> pool_inv subs s \<and> pool_actors s = A \<and> (ordered \<longrightarrow> in_order s)"
proof (induction rule: pool_reach.induct)
  case (init actors)
  then show ?case using init_inv by blast
next
  case (submit A subs s t)
  then show ?case using submit_inv [of subs s t] by simp
next
  case (get_next A subs s fin ign r s')
  have "s' = snd (pool_get_next val fin ign s)" using get_next.hyps(2) by simp
  then show ?case using get_next_inv [of subs s val fin ign] get_next_in_order [of subs s val fin ign] get_next.IH by simp
next
  case (get_next_unordered A subs s wait ign r s')
  have "s' = snd (pool_get_next_unordered val wait ign s)" using get_next_unordered.hyps(3) by simp
  then show ?case
    using get_next_unordered_inv [of subs s val wait ign] get_next_unordered.IH get_next_unordered.hyps(2) by simp
next
  case (pop_idle A subs s a s')
  then show ?case using pop_idle_inv [of subs s a s'] by simp
next
  case (push A subs s a s')
  then show ?case using push_inv [of subs s a s'] by simp
qed

subsection \<open>Safety\<close>

lemma busy_entry:
  assumes inv: "pool_inv subs (p, st)" and e: "(f, i, a) \<in> set (future_to_actor p)"
  shows "i < length subs \<and> st ! f = (a, subs ! i)"
proof -
  have l: "i = f" "f < length st" "fst (st ! f) = a" and subs: "map snd st @ pending_submits p = subs"
    using inv e by (auto simp: pool_inv_def list_all_iff)
  have "subs ! f = snd (st ! f)" unfolding subs [symmetric] using l(2) by (simp add: nth_append)
  moreover have "length st \<le> length subs" unfolding subs [symmetric] by simp
  ultimately show ?thesis using l by (metis order_less_le_trans prod.collapse)
qed

text \<open>C22: Whatever sequence of operations a pool goes through, every actor of the pool is either idle
  or runs exactly one task; the task it runs is the submitted one its entry names; tasks are
  started in the order of submission and none is lost; a task waits only while no actor is idle;
  and when a pool with actors has no result to return, no task is waiting.\<close>

theorem actor_pool_safe:
  assumes "pool_reach ordered val A subs (p, started)"
  shows "distinct (idle_actors p @ busy_actors p) \<and> set (idle_actors p @ busy_actors p) = A \<and>
    (\<forall>f i a. (f, i, a) \<in> set (future_to_actor p) \<longrightarrow> i < length subs \<and> started ! f = (a, subs ! i)) \<and>
    map snd started @ pending_submits p = subs \<and> (pending_submits p \<noteq> [] \<longrightarrow> idle_actors p = []) \<and>
    (A \<noteq> {} \<and> \<not> pool_has_next (p, started) \<longrightarrow> map snd started = subs)"
proof -
  from pool_reach_inv [OF assms] have inv: "pool_inv subs (p, started)" and A: "pool_actors (p, started) = A" by auto
  have "A \<noteq> {} \<and> \<not> pool_has_next (p, started) \<longrightarrow> map snd started = subs"
    using no_next_outstanding [OF inv] A inv by (auto simp: pool_inv_def)
  then show ?thesis using inv A busy_entry [OF inv] by (simp add: pool_inv_def pool_actors_def)
qed

theorem actor_pool_safe_witness:
  "\<exists>p st. pool_reach False Inr {1, 2::nat} ''abc'' (p, st) \<and> map snd st = ''abc'' \<and> distinct (idle_actors p @ busy_actors p)"
proof -
  let ?init = "(pool_init [1, 2::nat], [] :: (nat \<times> char) list)"
  let ?three = "submit (CHR ''c'') (submit (CHR ''b'') (submit (CHR ''a'') ?init))"
  let ?s = "snd (pool_get_next_unordered Inr (\<lambda>fs. Some (last fs)) False ?three)"
  have "pool_reach False Inr (set [1, 2]) [] ?init" by (rule pool_reach.init) simp
  then have "pool_reach False Inr (set [1, 2]) ((([] @ [CHR ''a'']) @ [CHR ''b'']) @ [CHR ''c'']) ?three"
    by (intro pool_reach.submit)
  then have r: "pool_reach False Inr {1, 2} ''abc'' ?three" by simp
  have "pool_reach False Inr {1, 2} ''abc'' ?s"
    by (rule pool_reach.get_next_unordered [OF r]) (simp, rule surjective_pairing)
  then have *: "pool_reach False Inr {1, 2} ''abc'' (fst ?s, snd ?s)" by simp
  moreover have "pending_submits (fst ?s) = []" by code_simp
  ultimately show ?thesis using actor_pool_safe [OF *] by (intro exI [of _ "fst ?s"] exI [of _ "snd ?s"]) simp
qed

subsection \<open>map\<close>

lemma fold_submit_inv:
  assumes "pool_inv subs s"
  shows "pool_inv (subs @ ts) (fold submit ts s) \<and> pool_actors (fold submit ts s) = pool_actors s \<and>
    outstanding (fold submit ts s) = outstanding s @ ts \<and> (in_order s \<longrightarrow> in_order (fold submit ts s))"
  using assms
proof (induction ts arbitrary: subs s)
  case (Cons t ts)
  from submit_inv [OF Cons.prems, of t]
  have "pool_inv (subs @ [t]) (submit t s)" "in_order s \<longrightarrow> in_order (submit t s)"
    "pool_actors (submit t s) = pool_actors s" "outstanding (submit t s) = outstanding s @ [t]" by simp_all
  then show ?case using Cons.IH [of "subs @ [t]" "submit t s"] by simp
qed simp

text \<open>C23: In a pool used without \<open>get_next_unordered\<close> that still has an actor, \<open>map\<close> ends and yields one
  result for each value, in the order of the values, each computed on some actor of the pool;
  results of earlier submissions are dropped, whichever of them are finished. Afterwards
  nothing is outstanding and the pool has the same actors.\<close>

theorem pool_map_in_order:
  assumes "pool_reach True (\<lambda>x. Inr (g x)) A subs s" and "A \<noteq> {}"
  shows "\<exists>as s'. pool_map (\<lambda>x. Inr (g x)) fin ts s = (Inr (map g (zip as ts)), s') \<and>
    length as = length ts \<and> set as \<subseteq> A \<and> pool_actors s' = A \<and> outstanding s' = []"
proof -
  from pool_reach_inv [OF assms(1)] have inv: "pool_inv subs s" "pool_actors s = A" "in_order s" by auto
  from drain_ordered_ok [OF inv(1,3), of "\<lambda>x. Inr (g x)" fin] obtain s1 where
      s1: "drain_ordered (\<lambda>x. Inr (g x)) fin s = (Inr (), s1)" "pool_inv subs s1" "in_order s1"
      "pool_actors s1 = A" "\<not> pool_has_next s1" unfolding inv(2) by blast
  have "outstanding s1 = []" using no_next_outstanding [OF s1(2)] s1(4,5) assms(2) by simp
  with fold_submit_inv [OF s1(2), of ts] s1(3,4)
  have f: "pool_inv (subs @ ts) (fold submit ts s1)" "in_order (fold submit ts s1)"
    "pool_actors (fold submit ts s1) = A" "outstanding (fold submit ts s1) = ts" by simp_all
  from collect_ordered_ok [OF f(1,2), of g] f(3,4) assms(2)
  show ?thesis unfolding pool_map_def s1(1) by auto
qed

theorem pool_map_in_order_witness:
  "\<exists>(as :: bool list) s'. pool_map (\<lambda>x. Inr (snd x)) (\<lambda>f. False) [4, 5, 6]
      (submit 9 (pool_init [True, False], [])) = (Inr (map snd (zip as [4::nat, 5, 6])), s') \<and>
    length as = length [4::nat, 5, 6] \<and> outstanding s' = []"
proof -
  have r: "pool_reach True (\<lambda>x. Inr (snd x)) (set [True, False]) ([] @ [9::nat]) (submit 9 (pool_init [True, False], []))"
    by (intro pool_reach.submit pool_reach.init) simp
  have ne: "set [True, False] \<noteq> {}" by simp
  from pool_map_in_order [OF r ne, of "\<lambda>f. False" "[4, 5, 6]"] show ?thesis by blast
qed

subsection \<open>map unordered\<close>

text \<open>A \<open>ray.wait\<close> answers with one of the futures it is given.\<close>

definition listed :: "(nat list \<Rightarrow> nat option) \<Rightarrow> bool" where
  "listed wait \<longleftrightarrow> (\<forall>fs f. wait fs = Some f \<longrightarrow> f \<in> set fs)"

definition answers :: "(nat list \<Rightarrow> nat option) \<Rightarrow> bool" where
  "answers wait \<longleftrightarrow> (\<forall>fs. fs \<noteq> [] \<longrightarrow> wait fs \<noteq> None)"

lemma get_next_unordered_step:
  assumes inv: "pool_inv subs s" and nxt: "pool_has_next s" and l: "listed wait"
    and run: "pool_get_next_unordered (\<lambda>x. Inr (g x)) wait False s = (r, s')"
  shows "(s' = s \<and> \<not> answers wait \<and> (\<exists>m. r = Inl (TimeoutError m))) \<or>
    (\<exists>a t. r = Inr (g (a, t)) \<and> a \<in> pool_actors s \<and> mset (outstanding s) = add_mset t (mset (outstanding s')) \<and>
      pool_inv subs s' \<and> pool_actors s' = pool_actors s)"
proof -
  obtain p st where s: "s = (p, st)" by (cases s)
  show ?thesis
  proof (cases "wait (map fst (future_to_actor p))")
    case None
    moreover have "map fst (future_to_actor p) \<noteq> []" using nxt by (simp add: s pool_has_next_def)
    ultimately have "\<not> answers wait" by (auto simp: answers_def)
    then show ?thesis using None nxt run by (auto simp: s pool_get_next_unordered_def)
  next
    case (Some f)
    then have "f \<in> fst ` set (future_to_actor p)" using l unfolding listed_def by (metis list.set_map)
    then obtain v where v: "map_of (future_to_actor p) f = Some v" by (metis map_of_eq_None_iff not_None_eq)
    have inv': "pool_inv subs (p, st)" using inv s by simp
    obtain p2 st2 where ret: "return_actor (fst (st ! f)) (pool_remove f p, st) = (p2, st2)" by fastforce
    from get_next_unordered_taken [of subs p st f wait p2 st2 "\<lambda>x. Inr (g x)" False, OF inv' future_running [OF inv' v] Some ret] run
    have "r = Inr (g (st ! f))" by (simp add: s)
    then show ?thesis using get_next_unordered_cases [OF inv run] by auto
  qed
qed

lemma drain_unordered_ok:
  assumes "pool_inv subs s" and "pool_actors s \<noteq> {}" and "list_all listed polls"
    and "length (outstanding s) \<le> length (filter answers polls)"
  shows "\<exists>s'. drain_unordered (\<lambda>x. Inr (g x)) polls s = Some (Inr (), s') \<and> pool_inv subs s' \<and>
    pool_actors s' = pool_actors s \<and> \<not> pool_has_next s'"
  using assms
proof (induction polls arbitrary: s)
  case Nil
  then have "\<not> pool_has_next s"
    by (cases s) (auto simp: outstanding_def pool_has_next_def running_def)
  then show ?case using Nil.prems by simp
next
  case (Cons wait polls)
  show ?case
  proof (cases "pool_has_next s")
    case True
    obtain r s1 where g: "pool_get_next_unordered (\<lambda>x. Inr (g x)) wait False s = (r, s1)" by (metis surj_pair)
    have l: "listed wait" using Cons.prems(3) by simp
    from get_next_unordered_step [OF Cons.prems(1) True l g]
    consider "s1 = s" "\<not> answers wait" "\<exists>m. r = Inl (TimeoutError m)"
      | a t where "r = Inr (g (a, t))" "mset (outstanding s) = add_mset t (mset (outstanding s1))"
        "pool_inv subs s1" "pool_actors s1 = pool_actors s" by blast
    then show ?thesis
    proof cases
      case 1
      then show ?thesis using Cons.IH [of s] Cons.prems True g by auto
    next
      case 2
      have "length (outstanding s) = Suc (length (outstanding s1))"
        using arg_cong [OF 2(2), of size] by simp
      then have "length (outstanding s1) \<le> length (filter answers polls)"
        using Cons.prems(4) by (cases "answers wait") simp_all
      then show ?thesis using Cons.IH [OF 2(3)] 2(1,4) Cons.prems(2,3) True g by simp
    qed
  next
    case False
    then show ?thesis using Cons.prems by simp
  qed
qed

lemma collect_unordered_ok:
  assumes "pool_inv subs s" and "pool_actors s \<noteq> {}" and "\<And>fs. fs \<noteq> [] \<Longrightarrow> pick fs \<in> set fs"
  shows "\<exists>zs s'. collect_unordered (\<lambda>x. Inr (g x)) pick s = (Inr (map g zs), s') \<and>
    mset (map snd zs) = mset (outstanding s) \<and> fst ` set zs \<subseteq> pool_actors s \<and> pool_actors s' = pool_actors s \<and>
    outstanding s' = []"
  using assms(1,2)
proof (induction "pool_work s" arbitrary: s rule: less_induct)
  case less
  show ?case
  proof (cases "pool_has_next s")
    case True
    let ?w = "\<lambda>fs. if fs = [] then None else Some (pick fs)"
    obtain p st where s: "s = (p, st)" by (cases s)
    have ne: "future_to_actor p \<noteq> []" using True by (simp add: s pool_has_next_def)
    obtain r s1 where n: "pool_get_next_unordered (\<lambda>x. Inr (g x)) ?w False s = (r, s1)" by (metis surj_pair)
    moreover have "pool_get_next_unordered (\<lambda>x. Inr (g x)) ?w False s =
        pool_get_next_unordered (\<lambda>x. Inr (g x)) (\<lambda>fs. Some (pick fs)) False s"
      using ne by (simp add: s pool_get_next_unordered_def)
    ultimately have n': "pool_get_next_unordered (\<lambda>x. Inr (g x)) (\<lambda>fs. Some (pick fs)) False s = (r, s1)" by simp
    have "listed ?w" "answers ?w" using assms(3) by (simp_all add: listed_def answers_def)
    from get_next_unordered_step [OF less.prems(1) True this(1) n] this(2) obtain a t where
        a: "r = Inr (g (a, t))" "a \<in> pool_actors s" "mset (outstanding s) = add_mset t (mset (outstanding s1))"
        "pool_inv subs s1" "pool_actors s1 = pool_actors s" by blast
    have "pool_work s1 < pool_work s" by (rule get_next_unordered_work [OF n' [unfolded a(1)]])
    from less.hyps [OF this a(4)] a(5) less.prems(2) obtain zs s' where IH:
        "collect_unordered (\<lambda>x. Inr (g x)) pick s1 = (Inr (map g zs), s')" "mset (map snd zs) = mset (outstanding s1)"
        "fst ` set zs \<subseteq> pool_actors s" "pool_actors s' = pool_actors s" "outstanding s' = []" by metis
    have "collect_unordered (\<lambda>x. Inr (g x)) pick s = (Inr (map g ((a, t) # zs)), s')"
      using True n' a(1) IH(1) by (subst collect_unordered.simps) simp
    then show ?thesis using IH a by (intro exI [of _ "(a, t) # zs"] exI [of _ s']) simp
  next
    case False
    have "outstanding s = []" using no_next_outstanding less.prems False by blast
    then show ?thesis
      using False by (intro exI [of _ "[]"] exI [of _ s]) (simp add: collect_unordered.simps)
  qed
qed

text \<open>After any use of a pool that still has an actor, \<open>map_unordered\<close> yields exactly one result for
  each value, in some order, each computed on some actor of the pool, and leaves nothing
  outstanding, provided \<open>ray.wait\<close> answers with futures it was given and the polls that drop
  earlier submissions find a finished task often enough.\<close>

lemma pool_map_unordered_once:
  assumes "pool_reach ordered (\<lambda>x. Inr (g x)) A subs s" and "A \<noteq> {}"
    and "\<And>fs. fs \<noteq> [] \<Longrightarrow> pick fs \<in> set fs" and "list_all listed polls"
    and "length (outstanding s) \<le> length (filter answers polls)"
  shows "\<exists>zs s'. pool_map_unordered (\<lambda>x. Inr (g x)) polls pick ts s = Some (Inr (map g zs), s') \<and>
    mset (map snd zs) = mset ts \<and> fst ` set zs \<subseteq> A \<and> pool_actors s' = A \<and> outstanding s' = []"
proof -
  from pool_reach_inv [OF assms(1)] have inv: "pool_inv subs s" "pool_actors s = A" by auto
  from drain_unordered_ok [OF inv(1), of polls g] inv(2) assms(2,4,5) obtain s1 where
      s1: "drain_unordered (\<lambda>x. Inr (g x)) polls s = Some (Inr (), s1)" "pool_inv subs s1"
      "pool_actors s1 = A" "\<not> pool_has_next s1" by blast
  have "outstanding s1 = []" using no_next_outstanding [OF s1(2)] s1(3,4) assms(2) by simp
  with fold_submit_inv [OF s1(2), of ts] s1(3)
  have f: "pool_inv (subs @ ts) (fold submit ts s1)" "pool_actors (fold submit ts s1) = A"
    "outstanding (fold submit ts s1) = ts" by simp_all
  from collect_unordered_ok [OF f(1), of pick g] f(2,3) assms(2,3)
  show ?thesis unfolding pool_map_unordered_def s1(1) by auto
qed

subsection \<open>A timeout that is to be ignored\<close>

text \<open>The documentation of \<open>get_next_unordered\<close> says that with \<open>ignore_if_timedout\<close> a timeout drops the
  task and raises \<open>TimeoutError\<close>. The code drops nothing and raises \<open>UnboundLocalError\<close>.\<close>

lemma get_next_unordered_ignored_timeout:
  assumes "pool_has_next s" and "wait (map fst (future_to_actor (fst s))) = None"
  shows "pool_get_next_unordered val wait True s = (Inl (UnboundLocalError ''future''), s)"
  using assms by (cases s) (simp add: pool_get_next_unordered_def)

end
