(* ===== verification/Instance_Status.thy ===== *)
theory Instance_Status
  imports Prelude
begin

section \<open>Autoscaler v2: the instance state machine\<close>

text \<open>
  Models \<open>InstanceUtil\<close> of \<open>ray/python/ray/autoscaler/v2/instance_manager/common.py\<close>: the
  valid transitions between instance statuses, the depth-first search for the reachable
  statuses and the predicates over it, creating an instance, changing its status with the
  history, and the status timeout. The statuses and the fields of an instance are those of
  \<open>instance_manager.proto\<close>; the wall clock is an argument.
\<close>

subsection \<open>Statuses and transitions\<close>

datatype instance_status =
    UNKNOWN | QUEUED | REQUESTED | ALLOCATED | RAY_INSTALLING | RAY_RUNNING | RAY_STOP_REQUESTED
  | RAY_STOPPING | RAY_STOPPED | TERMINATING | TERMINATED | ALLOCATION_FAILED | RAY_INSTALL_FAILED
  | TERMINATION_FAILED | ALLOCATION_TIMEOUT

definition all_statuses :: "instance_status list" where
  "all_statuses = [UNKNOWN, QUEUED, REQUESTED, ALLOCATED, RAY_INSTALLING, RAY_RUNNING, RAY_STOP_REQUESTED,
     RAY_STOPPING, RAY_STOPPED, TERMINATING, TERMINATED, ALLOCATION_FAILED, RAY_INSTALL_FAILED,
     TERMINATION_FAILED, ALLOCATION_TIMEOUT]"

lemma UNIV_status: "UNIV = set all_statuses"
proof -
  have "s \<in> set all_statuses" for s by (cases s) (simp_all add: all_statuses_def)
  then show ?thesis by blast
qed

instance instance_status :: finite
  by intro_classes (simp add: UNIV_status)

fun get_valid_transitions :: "instance_status \<Rightarrow> instance_status list" where
  "get_valid_transitions QUEUED = [REQUESTED, TERMINATED]"
| "get_valid_transitions REQUESTED = [ALLOCATED, QUEUED, ALLOCATION_FAILED]"
| "get_valid_transitions ALLOCATED =
     [RAY_INSTALLING, RAY_RUNNING, ALLOCATION_TIMEOUT, RAY_STOPPING, RAY_STOPPED, TERMINATING, TERMINATED]"
| "get_valid_transitions RAY_INSTALLING =
     [RAY_RUNNING, RAY_INSTALL_FAILED, RAY_STOPPED, TERMINATING, TERMINATED]"
| "get_valid_transitions RAY_RUNNING =
     [RAY_STOP_REQUESTED, RAY_STOPPING, RAY_STOPPED, TERMINATING, TERMINATED]"
| "get_valid_transitions RAY_STOP_REQUESTED = [RAY_STOPPING, RAY_STOPPED, RAY_RUNNING, TERMINATED]"
| "get_valid_transitions ALLOCATION_TIMEOUT = [TERMINATING, TERMINATED]"
| "get_valid_transitions RAY_STOPPING = [RAY_STOPPED, TERMINATING, TERMINATED]"
| "get_valid_transitions RAY_STOPPED = [TERMINATING, TERMINATED]"
| "get_valid_transitions TERMINATING = [TERMINATED, TERMINATION_FAILED]"
| "get_valid_transitions TERMINATION_FAILED = [TERMINATING, TERMINATED]"
| "get_valid_transitions TERMINATED = []"
| "get_valid_transitions ALLOCATION_FAILED = []"
| "get_valid_transitions RAY_INSTALL_FAILED = [TERMINATING, TERMINATED]"
| "get_valid_transitions UNKNOWN = []"

subsection \<open>Reachable statuses\<close>

text \<open>
  The recursive search: the loop over the successors with the shared visited set. The
  iteration order of a Python set is not fixed, so the graph is an argument \<open>g\<close>.
\<close>

function (domintros) dfs_loop ::
    "(instance_status \<Rightarrow> instance_status list) \<Rightarrow> instance_status list \<Rightarrow> instance_status list \<Rightarrow> instance_status list" where
  "dfs_loop g [] visited = visited"
| "dfs_loop g (n # ns) visited =
     (if n \<in> set visited then dfs_loop g ns visited
      else dfs_loop g ns (dfs_loop g (g n) (n # visited)))"
  by pat_completeness auto

lemma dfs_visited_grows: "dfs_loop_dom (g, ns, v) \<Longrightarrow> set v \<subseteq> set (dfs_loop g ns v)"
proof (induction g ns v rule: dfs_loop.pinduct)
  case (2 g n ns v)
  then show ?case by (auto simp: dfs_loop.psimps)
qed (simp add: dfs_loop.psimps)

termination dfs_loop
proof (relation "measures [\<lambda>(g, ns, v). card (UNIV - set v), \<lambda>(g, ns, v). length ns]", goal_cases)
  case (3 g n ns v)
  then have "UNIV - set (n # v) \<subset> UNIV - set v" by auto
  then show ?case by (simp add: psubset_card_mono)
next
  case (4 g n ns v)
  then have "UNIV - set (dfs_loop g (g n) (n # v)) \<subset> UNIV - set v"
    using dfs_visited_grows [of g "g n" "n # v"] by auto
  then show ?case by (simp add: psubset_card_mono)
qed simp_all

definition get_reachable_statuses_in ::
    "(instance_status \<Rightarrow> instance_status list) \<Rightarrow> instance_status \<Rightarrow> instance_status list" where
  "get_reachable_statuses_in g s = dfs_loop g (g s) []"

definition get_reachable_statuses :: "instance_status \<Rightarrow> instance_status list" where
  "get_reachable_statuses = get_reachable_statuses_in get_valid_transitions"

definition is_cloud_instance_allocated :: "instance_status \<Rightarrow> bool result" where
  "is_cloud_instance_allocated s =
     (if s = UNKNOWN then Inl (AssertionError ''UNKNOWN'')
      else Inr (s \<in> {ALLOCATED, RAY_INSTALLING, RAY_RUNNING, RAY_STOPPING, RAY_STOP_REQUESTED, RAY_STOPPED,
                     TERMINATING, RAY_INSTALL_FAILED, TERMINATION_FAILED, ALLOCATION_TIMEOUT}))"

definition is_ray_running :: "instance_status \<Rightarrow> bool result" where
  "is_ray_running s =
     (if s = UNKNOWN then Inl (AssertionError ''UNKNOWN'')
      else if s \<in> set (get_reachable_statuses RAY_STOPPING) then Inr False
      else if s \<in> set (get_reachable_statuses RAY_RUNNING) then Inr True
      else Inr False)"

definition is_ray_pending :: "instance_status \<Rightarrow> bool result" where
  "is_ray_pending s =
     (if s = UNKNOWN then Inl (AssertionError ''UNKNOWN'')
      else if RAY_RUNNING \<notin> set (get_reachable_statuses s) then Inr False
      else if s \<in> set (get_reachable_statuses RAY_RUNNING) then Inr False
      else Inr True)"

definition is_ray_running_reachable :: "instance_status \<Rightarrow> bool" where
  "is_ray_running_reachable s \<longleftrightarrow> RAY_RUNNING \<in> set (get_reachable_statuses s)"

subsection \<open>Instances\<close>

datatype node_kind = UNMANAGED | HEAD | WORKER

record status_entry =
  entry_status :: instance_status
  entry_timestamp_ns :: int
  entry_details :: string

text \<open>The fields of the message that the instance manager reads or writes.\<close>

record inst =
  inst_version :: int
  inst_id :: string
  inst_type :: string
  inst_status :: instance_status
  inst_cloud_id :: string
  inst_node_kind :: node_kind
  inst_node_id :: string
  inst_launch_request_id :: string
  inst_history :: "status_entry list"

definition record_status_transition :: "int \<Rightarrow> instance_status \<Rightarrow> string \<Rightarrow> inst \<Rightarrow> inst" where
  "record_status_transition now s details i =
     i\<lparr>inst_history := inst_history i @ [\<lparr>entry_status = s, entry_timestamp_ns = now, entry_details = details\<rparr>]\<rparr>"

definition new_instance :: "int \<Rightarrow> string \<Rightarrow> string \<Rightarrow> instance_status \<Rightarrow> string \<Rightarrow> inst" where
  "new_instance now instance_id instance_type s details =
     record_status_transition now s details
       \<lparr>inst_version = 0, inst_id = instance_id, inst_type = instance_type, inst_status = s, inst_cloud_id = [],
        inst_node_kind = UNMANAGED, inst_node_id = [], inst_launch_request_id = [], inst_history = []\<rparr>"

definition set_status :: "int \<Rightarrow> instance_status \<Rightarrow> string \<Rightarrow> inst \<Rightarrow> bool \<times> inst" where
  "set_status now s details i =
     (if s \<notin> set (get_valid_transitions (inst_status i)) then (False, i)
      else (True, record_status_transition now s details (i\<lparr>inst_status := s\<rparr>)))"

text \<open>A selection of \<open>None\<close> or of \<open>UNKNOWN\<close> (the number zero) selects everything.\<close>

definition get_status_transitions :: "inst \<Rightarrow> instance_status option \<Rightarrow> status_entry list" where
  "get_status_transitions i select =
     filter (\<lambda>u. \<not> (select \<noteq> None \<and> select \<noteq> Some UNKNOWN \<and> Some (entry_status u) \<noteq> select)) (inst_history i)"

definition get_last_status_transition :: "inst \<Rightarrow> instance_status option \<Rightarrow> status_entry option" where
  "get_last_status_transition i select =
     (let history = sort_key entry_timestamp_ns (get_status_transitions i select)
      in if history \<noteq> [] then Some (last history) else None)"

definition get_status_transition_times_ns :: "inst \<Rightarrow> instance_status option \<Rightarrow> int list" where
  "get_status_transition_times_ns i select = map entry_timestamp_ns (get_status_transitions i select)"

definition has_timeout :: "int \<Rightarrow> inst \<Rightarrow> int \<Rightarrow> bool result" where
  "has_timeout now i timeout_s =
     (let times = get_status_transition_times_ns i (Some (inst_status i))
      in if \<not> length times \<ge> 1 then Inl (AssertionError ''instance has no such status'')
         else Inr (\<not> now - last (sort times) \<le> timeout_s * 1000000000))"

subsection \<open>The search is the transitive closure\<close>

lemma dfs_closed:
  "set v \<subseteq> set (dfs_loop g ns v) \<and> set ns \<subseteq> set (dfs_loop g ns v) \<and>
   (\<forall>x\<in>set (dfs_loop g ns v) - set v. set (g x) \<subseteq> set (dfs_loop g ns v))"
proof (induction g ns v rule: dfs_loop.induct)
  case (2 g n ns v)
  show ?case
  proof (cases "n \<in> set v")
    case True
    then show ?thesis using "2.IH"(1) by auto
  next
    case False
    let ?r1 = "dfs_loop g (g n) (n # v)" and ?r = "dfs_loop g ns (dfs_loop g (g n) (n # v))"
    note IH1 = "2.IH"(2) [OF False] and IH2 = "2.IH"(3) [OF False]
    have "set (g x) \<subseteq> set ?r" if "x \<in> set ?r - set v" for x
    proof (cases "x \<in> set ?r1")
      case True
      then have "set (g x) \<subseteq> set ?r1" using IH1 that by (cases "x = n") auto
      then show ?thesis using IH2 by auto
    next
      case False
      then show ?thesis using IH2 that by auto
    qed
    then show ?thesis using IH1 IH2 False by auto
  qed
qed simp

lemma dfs_sound:
  assumes "\<And>x. x \<in> set ns \<union> set v \<Longrightarrow> P x" and "\<And>x y. P x \<Longrightarrow> y \<in> set (g x) \<Longrightarrow> P y"
  shows "x \<in> set (dfs_loop g ns v) \<Longrightarrow> P x"
  using assms
proof (induction g ns v arbitrary: x rule: dfs_loop.induct)
  case (2 g n ns v)
  show ?case
  proof (cases "n \<in> set v")
    case True
    then show ?thesis using "2.IH"(1) "2.prems" by simp
  next
    case False
    have Pn: "P n" using "2.prems"(2) by simp
    have "P y" if "y \<in> set (dfs_loop g (g n) (n # v))" for y
      using "2.IH"(2) [OF False that] "2.prems"(2,3) Pn by (metis Un_iff list.set_intros(2) set_ConsD)
    then show ?thesis using "2.IH"(3) [OF False] "2.prems" False by (metis (full_types) Un_iff dfs_loop.simps(2) list.set_intros(2))
  qed
qed simp

abbreviation status_step :: "instance_status \<Rightarrow> instance_status \<Rightarrow> bool" where
  "status_step s t \<equiv> t \<in> set (get_valid_transitions s)"

lemma reachable_is_closure:
  assumes "\<And>s. set (g s) = set (get_valid_transitions s)"
  shows "set (get_reachable_statuses_in g s) = {t. status_step\<^sup>+\<^sup>+ s t}"
proof (intro set_eqI iffI CollectI; (elim CollectE)?)
  fix t
  assume "t \<in> set (get_reachable_statuses_in g s)"
  then show "status_step\<^sup>+\<^sup>+ s t"
    unfolding get_reachable_statuses_in_def
  proof (rule dfs_sound [rotated 2])
    show "status_step\<^sup>+\<^sup>+ s x" if "x \<in> set (g s) \<union> set []" for x
      using that assms [of s] by (auto intro: tranclp.r_into_trancl)
    show "status_step\<^sup>+\<^sup>+ s y" if "status_step\<^sup>+\<^sup>+ s x" "y \<in> set (g x)" for x y
      using that assms [of x] by (auto intro: tranclp.trancl_into_trancl)
  qed
next
  fix t
  note cl = dfs_closed [of "[]" g "g s"]
  assume "status_step\<^sup>+\<^sup>+ s t"
  then show "t \<in> set (get_reachable_statuses_in g s)"
    unfolding get_reachable_statuses_in_def
  proof (induction rule: tranclp_induct)
    case (base y)
    then show ?case using cl assms [of s] by auto
  next
    case (step y z)
    then show ?case using cl assms [of y] by auto
  qed
qed

subsection \<open>Properties\<close>

text \<open>Whatever order the sets are searched in, the reachable statuses of a status are exactly those
  that one or more valid transitions lead to; the search always ends.\<close>

lemma reachable_statuses_exact:
  assumes "\<And>s. set (g s) = set (get_valid_transitions s)"
  shows "set (get_reachable_statuses_in g s) = {t. status_step\<^sup>+\<^sup>+ s t}"
  by (rule reachable_is_closure [OF assms])

lemma reachable_table:
  "set (get_reachable_statuses RAY_STOPPING) = {RAY_STOPPED, TERMINATING, TERMINATED, TERMINATION_FAILED}"
  "set (get_reachable_statuses RAY_RUNNING) =
     {RAY_RUNNING, RAY_STOP_REQUESTED, RAY_STOPPING, RAY_STOPPED, TERMINATING, TERMINATED, TERMINATION_FAILED}"
  by code_simp+

lemma running_reachable_table:
  "RAY_RUNNING \<in> set (get_reachable_statuses s) \<longleftrightarrow>
     s \<in> {QUEUED, REQUESTED, ALLOCATED, RAY_INSTALLING, RAY_RUNNING, RAY_STOP_REQUESTED}"
  by (cases s) (simp_all, code_simp+)

text \<open>the status predicates computed by reachability are the sets their documentation names: ray runs
  in RAY_RUNNING, RAY_STOP_REQUESTED and RAY_STOPPING, and is pending exactly before that; no
  status is both, and a running or pending instance may still reach TERMINATED.\<close>

lemma status_predicates:
  "s \<noteq> UNKNOWN \<Longrightarrow>
   (is_ray_running s = Inr (s \<in> {RAY_RUNNING, RAY_STOP_REQUESTED, RAY_STOPPING})) \<and>
   (is_ray_pending s = Inr (s \<in> {QUEUED, REQUESTED, ALLOCATED, RAY_INSTALLING})) \<and>
   (s \<notin> {TERMINATED, ALLOCATION_FAILED} \<longrightarrow> TERMINATED \<in> set (get_reachable_statuses s)) \<and>
   (get_reachable_statuses s = [] \<longleftrightarrow> s \<in> {TERMINATED, ALLOCATION_FAILED})"
proof -
  assume s: "s \<noteq> UNKNOWN"
  have "is_ray_running s = Inr (s \<in> {RAY_RUNNING, RAY_STOP_REQUESTED, RAY_STOPPING})"
    using s by (cases s) (simp_all add: is_ray_running_def reachable_table)
  moreover have "is_ray_pending s = Inr (s \<in> {QUEUED, REQUESTED, ALLOCATED, RAY_INSTALLING})"
    using s by (cases s) (simp_all add: is_ray_pending_def reachable_table running_reachable_table)
  moreover have "s \<notin> {TERMINATED, ALLOCATION_FAILED} \<longrightarrow> TERMINATED \<in> set (get_reachable_statuses s)"
    using s by (cases s) (simp_all, code_simp+)
  moreover have "get_reachable_statuses s = [] \<longleftrightarrow> s \<in> {TERMINATED, ALLOCATION_FAILED}"
    using s by (cases s) (simp_all, code_simp+)
  ultimately show ?thesis by blast
qed

end
