(* ===== verification/Instance_Storage.thy ===== *)
theory Instance_Storage
  imports Instance_Status
begin

section \<open>Autoscaler v2: versioned storage\<close>

text \<open>
  Models \<open>InMemoryStorage\<close> of \<open>ray/python/ray/autoscaler/v2/instance_manager/storage.py\<close> and
  \<open>InstanceStorage\<close> of \<open>instance_storage.py\<close>. Each operation of the storage holds its lock, so
  it is one step; the wire format of an instance is generated code, so serialising and
  parsing are the arguments \<open>ser\<close> and \<open>par\<close>. The locale \<open>versioned_storage\<close> is the contract
  of the abstract class \<open>Storage\<close>: optimistic concurrency through version numbers.
\<close>

subsection \<open>InMemoryStorage\<close>

type_synonym store_status = "bool \<times> int"

record 'v mem_storage =
  sto_version :: int
  sto_tables :: "string \<Rightarrow> (string, 'v \<times> int) dict"

definition mem_init :: "'v mem_storage" where
  "mem_init = \<lparr>sto_version = 0, sto_tables = (\<lambda>_. [])\<rparr>"

definition set_table :: "string \<Rightarrow> (string, 'v \<times> int) dict \<Rightarrow> 'v mem_storage \<Rightarrow> 'v mem_storage" where
  "set_table table d s = s\<lparr>sto_tables := (sto_tables s)(table := d)\<rparr>"

definition mem_batch_update ::
    "string \<Rightarrow> (string, 'v) dict \<Rightarrow> string list \<Rightarrow> int option \<Rightarrow> 'v mem_storage \<Rightarrow> store_status \<times> 'v mem_storage" where
  "mem_batch_update table mutation deletion expected s =
     (if expected \<noteq> None \<and> expected \<noteq> Some (sto_version s) then ((False, sto_version s), s)
      else
        (let v = sto_version s + 1;
             kvs = map (\<lambda>(k, x). (k, (x, v))) mutation;
             d = fold AList.delete deletion (dict_update kvs (sto_tables s table))
         in ((True, v), set_table table d (s\<lparr>sto_version := v\<rparr>))))"

definition mem_update ::
    "string \<Rightarrow> string \<Rightarrow> 'v \<Rightarrow> int option \<Rightarrow> int option \<Rightarrow> bool \<Rightarrow> 'v mem_storage \<Rightarrow> store_status \<times> 'v mem_storage" where
  "mem_update table key x expected_entry expected_storage insert_only s =
     (let entry = map_of (sto_tables s table) key;
          version = (case entry of None \<Rightarrow> - 1 | Some (_, n) \<Rightarrow> n)
      in if expected_storage \<noteq> None \<and> expected_storage \<noteq> Some (sto_version s) then ((False, sto_version s), s)
         else if insert_only \<and> entry \<noteq> None then ((False, sto_version s), s)
         else if expected_entry \<noteq> None \<and> expected_entry \<noteq> Some version then ((False, sto_version s), s)
         else
           (let v = sto_version s + 1
            in ((True, v), set_table table (AList.update key (x, v) (sto_tables s table)) (s\<lparr>sto_version := v\<rparr>))))"

definition mem_get_all :: "string \<Rightarrow> 'v mem_storage \<Rightarrow> (string, 'v \<times> int) dict \<times> int" where
  "mem_get_all table s = (sto_tables s table, sto_version s)"

definition mem_get :: "string \<Rightarrow> string list \<Rightarrow> 'v mem_storage \<Rightarrow> (string, 'v \<times> int) dict \<times> int" where
  "mem_get table keys s =
     (if keys = [] then mem_get_all table s
      else (fold (\<lambda>k r. case map_of (sto_tables s table) k of None \<Rightarrow> r | Some e \<Rightarrow> AList.update k e r) keys [],
            sto_version s))"

definition mem_get_version :: "'v mem_storage \<Rightarrow> int" where
  "mem_get_version s = sto_version s"

subsection \<open>The contract of a storage\<close>

locale versioned_storage =
  fixes inv :: "'s \<Rightarrow> bool"
    and lookup :: "string \<Rightarrow> string \<Rightarrow> 's \<Rightarrow> ('v \<times> int) option"
    and version :: "'s \<Rightarrow> int"
    and batch_update :: "string \<Rightarrow> (string, 'v) dict \<Rightarrow> string list \<Rightarrow> int option \<Rightarrow> 's \<Rightarrow> store_status \<times> 's"
    and get :: "string \<Rightarrow> string list \<Rightarrow> 's \<Rightarrow> (string, 'v \<times> int) dict \<times> int"
  assumes stale: "inv s \<Longrightarrow> n \<noteq> version s \<Longrightarrow> batch_update t m d (Some n) s = ((False, version s), s)"
    and fresh: "inv s \<Longrightarrow> e = None \<or> e = Some (version s) \<Longrightarrow> distinct (map fst m) \<Longrightarrow>
      \<exists>s'. batch_update t m d e s = ((True, version s + 1), s') \<and> inv s' \<and> version s' = version s + 1 \<and>
        (\<forall>t' k. lookup t' k s' =
          (if t' \<noteq> t then lookup t' k s else if k \<in> set d then None
           else case map_of m k of None \<Rightarrow> lookup t k s | Some x \<Rightarrow> Some (x, version s + 1)))"
    and get_version: "inv s \<Longrightarrow> snd (get t ks s) = version s"
    and get_entries: "inv s \<Longrightarrow> map_of (fst (get t ks s)) k = (if ks = [] \<or> k \<in> set ks then lookup t k s else None)"
    and entry_version: "inv s \<Longrightarrow> lookup t k s = Some (x, n) \<Longrightarrow> n \<le> version s"
begin

text \<open>Of two writers that read the same version only the first succeeds.\<close>

lemma second_writer_fails:
  assumes "inv s" and "distinct (map fst m1)"
    and "batch_update t m1 d1 (Some (snd (get t1 ks1 s))) s = (st1, s1)"
    and "batch_update t2 m2 d2 (Some (snd (get t3 ks3 s))) s1 = (st2, s2)"
  shows "fst st1 \<and> \<not> fst st2 \<and> s2 = s1"
proof -
  have v: "snd (get t1 ks1 s) = version s" "snd (get t3 ks3 s) = version s"
    using get_version [OF assms(1)] by simp_all
  obtain s' where s': "batch_update t m1 d1 (Some (version s)) s = ((True, version s + 1), s')"
      "inv s'" "version s' = version s + 1"
    using fresh [OF assms(1), of "Some (version s)" m1 t d1] assms(2) by blast
  then have s1: "st1 = (True, version s + 1)" "s1 = s'" using assms(3) v by simp_all
  have "batch_update t2 m2 d2 (Some (version s)) s' = ((False, version s'), s')"
    using stale [OF s'(2), of "version s"] s'(3) by simp
  then show ?thesis using s1 assms(4) v by auto
qed

text \<open>What was written is read back, with the new version.\<close>

lemma read_after_write:
  assumes "inv s" and "distinct (map fst m)" and "batch_update t m [] e s = ((True, n), s')"
    and "map_of m k = Some x" and "e = None \<or> e = Some (version s)"
  shows "map_of (fst (get t [k] s')) k = Some (x, n)"
proof -
  obtain s1 where "batch_update t m [] e s = ((True, version s + 1), s1)" "inv s1"
      "lookup t k s1 = Some (x, version s + 1)"
    using fresh [OF assms(1,5,2), of t "[]"] assms(4) by auto
  with assms(3) get_entries [of s1 t "[k]" k] show ?thesis by simp
qed

end

definition mem_lookup :: "string \<Rightarrow> string \<Rightarrow> 'v mem_storage \<Rightarrow> ('v \<times> int) option" where
  "mem_lookup t k s = map_of (sto_tables s t) k"

definition mem_inv :: "'v mem_storage \<Rightarrow> bool" where
  "mem_inv s \<longleftrightarrow> (\<forall>t k x n. mem_lookup t k s = Some (x, n) \<longrightarrow> n \<le> sto_version s)"

lemma map_of_versioned: "map_of (map (\<lambda>(k, x). (k, (x, v))) m) k = map_option (\<lambda>x. (x, v)) (map_of m k)"
  by (induction m) auto

lemma map_of_rev_distinct: "distinct (map fst xs) \<Longrightarrow> map_of (rev xs) = map_of xs"
  by (subst map_of_inject_set) (simp_all add: rev_map [symmetric])

lemma map_of_fold_delete: "map_of (fold AList.delete ks d) k = (if k \<in> set ks then None else map_of d k)"
  by (induction ks arbitrary: d) (auto simp: delete_conv')

lemma map_of_get_fold:
  "map_of (fold (\<lambda>k r. case map_of d k of None \<Rightarrow> r | Some e \<Rightarrow> AList.update k e r) ks r) k =
   (if k \<in> set ks \<and> map_of d k \<noteq> None then map_of d k else map_of r k)"
  by (induction ks arbitrary: r) (auto simp: update_conv split: option.splits)

interpretation mem: versioned_storage mem_inv mem_lookup mem_get_version mem_batch_update mem_get
proof (unfold_locales, goal_cases)
  case (1 s e t m d)
  then show ?case by (simp add: mem_batch_update_def mem_get_version_def)
next
  case (2 s e m t d)
  let ?v = "sto_version s + 1"
  let ?d = "fold AList.delete d (dict_update (map (\<lambda>(k, x). (k, (x, ?v))) m) (sto_tables s t))"
  let ?s = "set_table t ?d (s\<lparr>sto_version := ?v\<rparr>)"
  have dist: "distinct (map fst (map (\<lambda>(k, x). (k, (x, ?v))) m))"
    using 2(3) by (simp add: comp_def case_prod_unfold)
  have look: "mem_lookup t' k ?s = (if t' \<noteq> t then mem_lookup t' k s else if k \<in> set d then None
      else case map_of m k of None \<Rightarrow> mem_lookup t k s | Some x \<Rightarrow> Some (x, ?v))" for t' k
    by (auto simp: mem_lookup_def set_table_def map_of_fold_delete map_of_dict_update map_add_def
        map_of_rev_distinct [OF dist] map_of_versioned split: option.splits)
  moreover have "mem_inv ?s"
    unfolding mem_inv_def look using 2(1)
    by (auto simp: mem_inv_def set_table_def split: option.splits if_splits) (metis add.commute add_increasing zero_le_one)+
  moreover have "mem_batch_update t m d e s = ((True, ?v), ?s)"
    using 2(2) by (auto simp: mem_batch_update_def mem_get_version_def Let_def)
  ultimately show ?case
    unfolding mem_get_version_def by (intro exI [of _ ?s]) (simp add: set_table_def)
next
  case (3 s t ks)
  then show ?case by (simp add: mem_get_def mem_get_all_def mem_get_version_def)
next
  case (4 s t ks k)
  show ?case
    by (cases "map_of (sto_tables s t) k") (simp_all add: mem_get_def mem_get_all_def mem_lookup_def map_of_get_fold)
next
  case (5 s t k x n)
  then show ?case by (auto simp: mem_inv_def mem_get_version_def)
qed

lemma mem_init_inv: "mem_inv mem_init"
  by (simp add: mem_inv_def mem_init_def mem_lookup_def)

subsection \<open>InstanceStorage\<close>

definition table_name :: "string \<Rightarrow> string" where
  "table_name cluster_id = ''instance_table@'' @ cluster_id"

text \<open>\<open>if expected_storage_version and expected_storage_version != version\<close>: zero counts as not given.\<close>

definition version_refused :: "int option \<Rightarrow> int \<Rightarrow> bool" where
  "version_refused expected version =
     (case expected of None \<Rightarrow> False | Some e \<Rightarrow> e \<noteq> 0 \<and> e \<noteq> version)"

definition batch_upsert_instances ::
    "(inst \<Rightarrow> 'v) \<Rightarrow> string \<Rightarrow> inst list \<Rightarrow> int option \<Rightarrow> 'v mem_storage \<Rightarrow> store_status \<times> 'v mem_storage" where
  "batch_upsert_instances ser cluster_id updates expected s =
     (let version = mem_get_version s
      in if version_refused expected version then ((False, version), s)
         else mem_batch_update (table_name cluster_id)
                (dict_of (map (\<lambda>i. (inst_id i, ser (i\<lparr>inst_version := 0\<rparr>))) updates)) [] expected s)"

definition upsert_instance ::
    "(inst \<Rightarrow> 'v) \<Rightarrow> string \<Rightarrow> inst \<Rightarrow> int option \<Rightarrow> int option \<Rightarrow> 'v mem_storage \<Rightarrow> store_status \<times> 'v mem_storage" where
  "upsert_instance ser cluster_id i expected_instance expected_storage s =
     mem_update (table_name cluster_id) (inst_id i) (ser (i\<lparr>inst_version := 0\<rparr>)) expected_instance expected_storage False s"

definition get_instances ::
    "('v \<Rightarrow> inst) \<Rightarrow> string \<Rightarrow> string list \<Rightarrow> instance_status list \<Rightarrow> 'v mem_storage \<Rightarrow> (string, inst) dict \<times> int" where
  "get_instances par cluster_id instance_ids status_filter s =
     (let (pairs, version) = mem_get (table_name cluster_id) instance_ids s;
          instances = map (\<lambda>(k, (x, n)). (k, (par x)\<lparr>inst_version := n\<rparr>)) pairs
      in (filter (\<lambda>(k, i). \<not> (status_filter \<noteq> [] \<and> inst_status i \<notin> set status_filter)) instances, version))"

definition batch_delete_instances ::
    "string \<Rightarrow> string list \<Rightarrow> int option \<Rightarrow> 'v mem_storage \<Rightarrow> store_status \<times> 'v mem_storage" where
  "batch_delete_instances cluster_id instance_ids expected s =
     (let version = mem_get_version s
      in if version_refused expected version then ((False, version), s)
         else mem_batch_update (table_name cluster_id) [] instance_ids expected s)"

text \<open>An instance as it is read: with the version of its entry.\<close>

definition stored :: "('v \<Rightarrow> inst) \<Rightarrow> string \<Rightarrow> 'v mem_storage \<Rightarrow> string \<Rightarrow> inst option" where
  "stored par cluster_id s k =
     map_option (\<lambda>(x, n). (par x)\<lparr>inst_version := n\<rparr>) (mem_lookup (table_name cluster_id) k s)"

lemma get_instances_stored:
  assumes "mem_inv s"
  shows "snd (get_instances par cid ks [] s) = sto_version s"
    and "map_of (fst (get_instances par cid ks [] s)) k = (if ks = [] \<or> k \<in> set ks then stored par cid s k else None)"
proof -
  have m: "map_of (map (\<lambda>(k, (x, n)). (k, f x n)) d) k = map_option (\<lambda>(x, n). f x n) (map_of d k)"
    for d :: "(string, 'a \<times> int) dict" and f :: "'a \<Rightarrow> int \<Rightarrow> inst"
    by (induction d) auto
  obtain d v where d: "mem_get (table_name cid) ks s = (d, v)" by fastforce
  show "snd (get_instances par cid ks [] s) = sto_version s"
    using mem.get_version [OF assms, of "table_name cid" ks] d by (simp add: get_instances_def mem_get_version_def)
  have "map_of d k = (if ks = [] \<or> k \<in> set ks then mem_lookup (table_name cid) k s else None)"
    using mem.get_entries [OF assms, of "table_name cid" ks k] d by simp
  then show "map_of (fst (get_instances par cid ks [] s)) k = (if ks = [] \<or> k \<in> set ks then stored par cid s k else None)"
    using m [of "\<lambda>x n. (par x)\<lparr>inst_version := n\<rparr>" d] d by (simp add: get_instances_def stored_def)
qed

lemma dict_of_keys: "distinct (map fst (dict_of ps))"
proof (induction ps rule: rev_induct)
  case (snoc p ps)
  then show ?case by (cases p) (simp add: distinct_update)
qed simp

lemma batch_upsert_ok:
  assumes "mem_inv s" and "\<And>i. par (ser i) = i" and "distinct (map inst_id is)"
  shows "\<exists>s'. batch_upsert_instances ser cid is (Some (sto_version s)) s = ((True, sto_version s + 1), s') \<and>
    mem_inv s' \<and> sto_version s' = sto_version s + 1 \<and>
    (\<forall>k. stored par cid s' k =
       (case map_of (map (\<lambda>i. (inst_id i, i)) is) k of
          None \<Rightarrow> stored par cid s k | Some i \<Rightarrow> Some (i\<lparr>inst_version := sto_version s + 1\<rparr>)))"
proof -
  let ?m = "map (\<lambda>i. (inst_id i, ser (i\<lparr>inst_version := 0\<rparr>))) is"
  have d: "distinct (map fst ?m)" using assms(3) by (simp add: comp_def)
  then have m: "dict_of ?m = ?m" by (rule dict_of_distinct)
  have upd: "batch_upsert_instances ser cid is (Some (sto_version s)) s =
      mem_batch_update (table_name cid) ?m [] (Some (sto_version s)) s"
    by (simp add: batch_upsert_instances_def version_refused_def mem_get_version_def m)
  obtain s' where s': "mem_batch_update (table_name cid) ?m [] (Some (sto_version s)) s = ((True, sto_version s + 1), s')"
      "mem_inv s'" "sto_version s' = sto_version s + 1"
      "\<And>k. mem_lookup (table_name cid) k s' = (case map_of ?m k of
         None \<Rightarrow> mem_lookup (table_name cid) k s | Some x \<Rightarrow> Some (x, sto_version s + 1))"
    using mem.fresh [OF assms(1), of "Some (sto_version s)" ?m "table_name cid" "[]"] d
    unfolding mem_get_version_def by fastforce
  have lift: "map_of ?m k = map_option (\<lambda>i. ser (i\<lparr>inst_version := 0\<rparr>)) (map_of (map (\<lambda>i. (inst_id i, i)) is) k)" for k
    by (induction "is") auto
  have "stored par cid s' k = (case map_of (map (\<lambda>i. (inst_id i, i)) is) k of
      None \<Rightarrow> stored par cid s k | Some i \<Rightarrow> Some (i\<lparr>inst_version := sto_version s + 1\<rparr>))" for k
    unfolding stored_def s'(4) lift by (simp add: assms(2) split: option.splits)
  with upd s' show ?thesis by auto
qed

text \<open>The storage is optimistically concurrent: when two writers read the storage at the same
  version and both pass the version they read, the first succeeds and the second is refused
  without changing anything.\<close>

lemma storage_second_writer_fails:
  assumes "mem_inv s" and "distinct (map fst m1)"
    and "mem_batch_update t m1 d1 (Some (snd (mem_get t1 ks1 s))) s = (st1, s1)"
    and "mem_batch_update t2 m2 d2 (Some (snd (mem_get t3 ks3 s))) s1 = (st2, s2)"
  shows "fst st1 \<and> \<not> fst st2 \<and> s2 = s1"
  by (rule mem.second_writer_fails [OF assms])

end
