(* ===== verification/Instance_Manager.thy ===== *)
theory Instance_Manager
  imports Instance_Storage
begin

section \<open>Autoscaler v2: the instance manager\<close>

text \<open>
  Models \<open>InstanceManager\<close> of \<open>ray/python/ray/autoscaler/v2/instance_manager/instance_manager.py\<close>:
  creating and updating instances from update events with the assertions of \<open>_apply_update\<close>,
  and the handler that reads the instances, checks the version, writes the batch and notifies
  the subscribers. A failed assertion is an exception: no storage is returned, because
  nothing was written.
\<close>

subsection \<open>Update events\<close>

text \<open>Unset optional strings read as empty, the unset node kind as \<open>UNMANAGED\<close>.\<close>

record update_event =
  upd_instance_id :: string
  upd_new_status :: instance_status
  upd_details :: string
  upd_upsert :: bool
  upd_instance_type :: string
  upd_cloud_id :: string
  upd_node_kind :: node_kind
  upd_ray_node_id :: string
  upd_launch_request_id :: string

definition apply_update :: "update_event \<Rightarrow> inst \<Rightarrow> inst result" where
  "apply_update u i =
     (if upd_new_status u = ALLOCATED then
        (if upd_cloud_id u = [] then Inl (AssertionError ''ALLOCATED update must have cloud_instance_id'')
         else if upd_node_kind u \<notin> {WORKER, HEAD} then Inl (AssertionError ''ALLOCATED update must have node_kind as WORKER or HEAD'')
         else if upd_instance_type u = [] then Inl (AssertionError ''ALLOCATED update must have instance_type'')
         else Inr (i\<lparr>inst_cloud_id := upd_cloud_id u, inst_node_kind := upd_node_kind u,
                     inst_type := upd_instance_type u, inst_node_id := upd_ray_node_id u\<rparr>))
      else if upd_new_status u = RAY_RUNNING then
        (if upd_ray_node_id u = [] then Inl (AssertionError ''RAY_RUNNING update must have ray_node_id'')
         else Inr (i\<lparr>inst_node_id := upd_ray_node_id u\<rparr>))
      else if upd_new_status u = REQUESTED then
        (if upd_launch_request_id u = [] then Inl (AssertionError ''REQUESTED update must have launch_request_id'')
         else if upd_instance_type u = [] then Inl (AssertionError ''REQUESTED update must have instance_type'')
         else Inr (i\<lparr>inst_launch_request_id := upd_launch_request_id u, inst_type := upd_instance_type u\<rparr>))
      else if upd_new_status u = TERMINATING then
        (if upd_cloud_id u = [] then Inl (AssertionError ''TERMINATING update must have cloud instance id'')
         else Inr i)
      else Inr i)"

definition create_instance :: "int \<Rightarrow> update_event \<Rightarrow> inst result" where
  "create_instance now u =
     (if \<not> upd_upsert u then Inl (AssertionError ''upsert must be true for creating new instance.'')
      else if upd_new_status u \<notin> {ALLOCATED, QUEUED, TERMINATING}
      then Inl (AssertionError ''Invalid status for new instance'')
      else apply_update u (new_instance now (upd_instance_id u) (upd_instance_type u) (upd_new_status u) (upd_details u)))"

definition update_instance :: "int \<Rightarrow> inst \<Rightarrow> update_event \<Rightarrow> inst result" where
  "update_instance now i u =
     (let (ok, i') = set_status now (upd_new_status u) [] i
      in if \<not> ok then Inl (AssertionError ''Invalid status transition'') else apply_update u i')"

subsection \<open>The handlers\<close>

datatype status_code = STATUS_OK | VERSION_MISMATCH | UNKNOWN_ERRORS

record update_reply =
  reply_code :: status_code
  reply_version :: int

record update_request =
  req_expected_version :: int
  req_updates :: "update_event list"

text \<open>The instance an update event leads to: an update of the stored one, or a new one.\<close>

definition updated_instance :: "int \<Rightarrow> (string, inst) dict \<Rightarrow> string \<times> update_event \<Rightarrow> inst result" where
  "updated_instance now found p =
     (case p of (k, u) \<Rightarrow>
        (case map_of found k of Some i \<Rightarrow> update_instance now i u | None \<Rightarrow> create_instance now u))"

text \<open>The write of the batch under the version that was read, and the reply.\<close>

definition commit_updates ::
    "(inst \<Rightarrow> 'v) \<Rightarrow> string \<Rightarrow> int \<Rightarrow> update_event list \<Rightarrow> inst list \<Rightarrow> 'v mem_storage
     \<Rightarrow> update_reply \<times> update_event list \<times> 'v mem_storage" where
  "commit_updates ser cluster_id version updates to_upsert s =
     (let ((success, v), s') = batch_upsert_instances ser cluster_id to_upsert (Some version) s
      in if \<not> success
         then (\<lparr>reply_code = (if v \<noteq> version then VERSION_MISMATCH else UNKNOWN_ERRORS), reply_version = v\<rparr>, [], s')
         else (\<lparr>reply_code = STATUS_OK, reply_version = v\<rparr>, updates, s'))"

definition update_instance_manager_state ::
    "(inst \<Rightarrow> 'v) \<Rightarrow> ('v \<Rightarrow> inst) \<Rightarrow> string \<Rightarrow> int \<Rightarrow> update_request \<Rightarrow> 'v mem_storage
     \<Rightarrow> (update_reply \<times> update_event list \<times> 'v mem_storage) result" where
  "update_instance_manager_state ser par cluster_id now req s =
     (let ids_to_updates = dict_of (map (\<lambda>u. (upd_instance_id u, u)) (req_updates req));
          (found, version) = get_instances par cluster_id (map fst ids_to_updates) [] s
      in if req_expected_version req \<ge> 0 \<and> req_expected_version req \<noteq> version
         then Inr (\<lparr>reply_code = VERSION_MISMATCH, reply_version = version\<rparr>, [], s)
         else
           rbind (rmap (updated_instance now found) ids_to_updates) (\<lambda>to_upsert.
             Inr (commit_updates ser cluster_id version (req_updates req) to_upsert s)))"

definition get_instance_manager_state :: "('v \<Rightarrow> inst) \<Rightarrow> string \<Rightarrow> 'v mem_storage \<Rightarrow> inst list \<times> int" where
  "get_instance_manager_state par cluster_id s =
     (let (instances, version) = get_instances par cluster_id [] [] s in (map snd instances, version))"

subsection \<open>Life cycles\<close>

text \<open>A history that starts like a new instance and follows valid transitions.\<close>

fun valid_path :: "instance_status list \<Rightarrow> bool" where
  "valid_path (s # t # ss) \<longleftrightarrow> t \<in> set (get_valid_transitions s) \<and> valid_path (t # ss)"
| "valid_path _ \<longleftrightarrow> True"

definition life_ok :: "inst \<Rightarrow> bool" where
  "life_ok i \<longleftrightarrow> inst_history i \<noteq> [] \<and> entry_status (hd (inst_history i)) \<in> {ALLOCATED, QUEUED, TERMINATING} \<and>
     valid_path (map entry_status (inst_history i)) \<and> entry_status (last (inst_history i)) = inst_status i"

lemma valid_path_snoc:
  "valid_path ss \<Longrightarrow> (ss \<noteq> [] \<Longrightarrow> t \<in> set (get_valid_transitions (last ss))) \<Longrightarrow> valid_path (ss @ [t])"
  by (induction ss rule: valid_path.induct) auto

lemma apply_update_frame:
  assumes "apply_update u i = Inr i'"
  shows "inst_status i' = inst_status i \<and> inst_history i' = inst_history i \<and> inst_id i' = inst_id i"
  using assms by (auto simp: apply_update_def split: if_splits)

lemma create_instance_life:
  "create_instance now u = Inr i \<Longrightarrow> life_ok i \<and> inst_id i = upd_instance_id u \<and> inst_status i = upd_new_status u \<and>
     length (inst_history i) = 1"
  by (auto simp: create_instance_def life_ok_def new_instance_def record_status_transition_def
      dest!: apply_update_frame split: if_splits)

lemma update_instance_life:
  assumes "update_instance now i u = Inr i'" and "life_ok i"
  shows "life_ok i' \<and> inst_id i' = inst_id i \<and> upd_new_status u \<in> set (get_valid_transitions (inst_status i)) \<and>
    inst_status i' = upd_new_status u \<and> (\<exists>e. inst_history i' = inst_history i @ [e])"
proof -
  obtain i1 where i1: "set_status now (upd_new_status u) [] i = (True, i1)" "apply_update u i1 = Inr i'"
    using assms(1) by (auto simp: update_instance_def Let_def split: prod.splits if_splits)
  then have step: "upd_new_status u \<in> set (get_valid_transitions (inst_status i))"
    and h: "inst_history i1 = inst_history i @ [\<lparr>entry_status = upd_new_status u, entry_timestamp_ns = now, entry_details = []\<rparr>]"
    and s: "inst_status i1 = upd_new_status u" "inst_id i1 = inst_id i"
    by (auto simp: set_status_def record_status_transition_def split: if_splits)
  have "valid_path (map entry_status (inst_history i1))"
    unfolding h map_append list.map using assms(2) step
    by (intro valid_path_snoc) (auto simp: life_ok_def last_map)
  with h s step apply_update_frame [OF i1(2)] assms(2) show ?thesis by (auto simp: life_ok_def)
qed

definition store_ok :: "('v \<Rightarrow> inst) \<Rightarrow> string \<Rightarrow> 'v mem_storage \<Rightarrow> bool" where
  "store_ok par cid s \<longleftrightarrow> mem_inv s \<and> (\<forall>k i. stored par cid s k = Some i \<longrightarrow> life_ok i \<and> inst_id i = k)"

lemma rmap_all2: "rmap f xs = Inr ys \<Longrightarrow> list_all2 (\<lambda>x y. f x = Inr y) xs ys"
  by (induction xs arbitrary: ys) (auto simp: rbind_eq_Inr)

text \<open>The last update event for an instance in a request, as the dict keeps it.\<close>

definition last_update :: "update_event list \<Rightarrow> string \<Rightarrow> update_event option" where
  "last_update us k = map_of (rev (map (\<lambda>u. (upd_instance_id u, u)) us)) k"

lemma ids_to_updates:
  fixes us :: "update_event list"
  defines "d \<equiv> dict_of (map (\<lambda>u. (upd_instance_id u, u)) us)"
  shows "map_of d k = last_update us k" and "distinct (map fst d)"
    and "(k, u) \<in> set d \<Longrightarrow> upd_instance_id u = k"
proof -
  show m: "map_of d k = last_update us k" for k by (simp add: d_def last_update_def map_of_dict_update)
  show dist: "distinct (map fst d)" unfolding d_def by (rule dict_of_keys)
  show "upd_instance_id u = k" if "(k, u) \<in> set d"
  proof -
    have "last_update us k = Some u" using that dist m [of k] by simp
    then show ?thesis unfolding last_update_def by (auto dest!: map_of_SomeD)
  qed
qed

text \<open>What a request does to the instance under one id.\<close>

definition instance_effect :: "int \<Rightarrow> update_event option \<Rightarrow> int \<Rightarrow> inst option \<Rightarrow> inst option \<Rightarrow> bool" where
  "instance_effect now u v before after \<longleftrightarrow>
     (case u of
        None \<Rightarrow> after = before
      | Some e \<Rightarrow>
          (case before of
             None \<Rightarrow> (\<exists>i. create_instance now e = Inr i \<and> after = Some (i\<lparr>inst_version := v\<rparr>))
           | Some b \<Rightarrow> (\<exists>i. update_instance now b e = Inr i \<and> after = Some (i\<lparr>inst_version := v\<rparr>))))"

lemma life_ok_version [simp]: "life_ok (i\<lparr>inst_version := v\<rparr>) = life_ok i"
  by (simp add: life_ok_def)

lemma list_all2_map_of:
  "list_all2 (\<lambda>(k, u) i. inst_id i = k \<and> P k u i) d is \<Longrightarrow>
   (case map_of d k of None \<Rightarrow> map_of (map (\<lambda>i. (inst_id i, i)) is) k = None
    | Some u \<Rightarrow> \<exists>i. map_of (map (\<lambda>i. (inst_id i, i)) is) k = Some i \<and> inst_id i = k \<and> P k u i)"
  by (induction rule: list_all2_induct) (auto split: option.splits)

lemma handler_ok:
  assumes "store_ok par cid s" and "\<And>i. par (ser i) = i"
    and "update_instance_manager_state ser par cid now req s = Inr (r, notified, s')"
    and "\<not> (req_expected_version req \<ge> 0 \<and> req_expected_version req \<noteq> sto_version s)"
  shows "reply_code r = STATUS_OK \<and> notified = req_updates req \<and> reply_version r = sto_version s + 1 \<and>
    sto_version s' = sto_version s + 1 \<and> mem_inv s' \<and>
    (\<forall>k. instance_effect now (last_update (req_updates req) k) (sto_version s') (stored par cid s k) (stored par cid s' k))"
proof -
  let ?d = "dict_of (map (\<lambda>u. (upd_instance_id u, u)) (req_updates req))"
  let ?P = "\<lambda>k u i. (case stored par cid s k of None \<Rightarrow> create_instance now u = Inr i | Some b \<Rightarrow> update_instance now b u = Inr i)"
  have inv: "mem_inv s" and life: "\<And>k i. stored par cid s k = Some i \<Longrightarrow> life_ok i \<and> inst_id i = k"
    using assms(1) by (auto simp: store_ok_def)
  obtain found version where g: "get_instances par cid (map fst ?d) [] s = (found, version)" by fastforce
  have version: "version = sto_version s"
    and found: "map_of found k = (if map fst ?d = [] \<or> k \<in> set (map fst ?d) then stored par cid s k else None)" for k
    using get_instances_stored [OF inv, of par cid "map fst ?d"] g by simp_all
  obtain ups where ups: "rmap (updated_instance now found) ?d = Inr ups"
    and res: "commit_updates ser cid version (req_updates req) ups s = (r, notified, s')"
    using assms(3,4) g version by (auto simp: update_instance_manager_state_def rbind_eq_Inr Let_def)
  have each: "inst_id i = k \<and> ?P k u i" if "(k, u) \<in> set ?d" "updated_instance now found (k, u) = Inr i" for k u i
  proof -
    have "map_of found k = stored par cid s k" using found [of k] that(1) by force
    then show ?thesis
      using that life [of k] ids_to_updates(3) [OF that(1)]
      by (auto simp: updated_instance_def split: option.splits dest: create_instance_life update_instance_life)
  qed
  have all: "list_all2 (\<lambda>(k, u) i. inst_id i = k \<and> ?P k u i) ?d ups"
    using rmap_all2 [OF ups] by (rule list.rel_mono_strong) (use each in auto)
  have "map inst_id ups = map fst ?d"
    using all by (induction rule: list_all2_induct) auto
  then have "distinct (map inst_id ups)" using ids_to_updates(2) by metis
  from batch_upsert_ok [OF inv assms(2) this, of cid] obtain s1 where
    s1: "batch_upsert_instances ser cid ups (Some (sto_version s)) s = ((True, sto_version s + 1), s1)" "mem_inv s1"
      "sto_version s1 = sto_version s + 1"
      "\<And>k. stored par cid s1 k = (case map_of (map (\<lambda>i. (inst_id i, i)) ups) k of
         None \<Rightarrow> stored par cid s k | Some i \<Rightarrow> Some (i\<lparr>inst_version := sto_version s + 1\<rparr>))"
    by blast
  have eq: "r = \<lparr>reply_code = STATUS_OK, reply_version = sto_version s + 1\<rparr>" "notified = req_updates req" "s' = s1"
    using res s1(1) version by (auto simp: commit_updates_def)
  have "instance_effect now (last_update (req_updates req) k) (sto_version s + 1) (stored par cid s k) (stored par cid s1 k)" for k
    using list_all2_map_of [OF all, of k] s1(4) [of k] ids_to_updates(1) [of "req_updates req" k]
    by (auto simp: instance_effect_def split: option.splits)
  with eq s1(2,3) show ?thesis by simp
qed

lemma handler_mismatch:
  assumes "mem_inv s" and "req_expected_version req \<ge> 0 \<and> req_expected_version req \<noteq> sto_version s"
  shows "update_instance_manager_state ser par cid now req s =
    Inr (\<lparr>reply_code = VERSION_MISMATCH, reply_version = sto_version s\<rparr>, [], s)"
proof -
  let ?ks = "map fst (dict_of (map (\<lambda>u. (upd_instance_id u, u)) (req_updates req)))"
  obtain found version where g: "get_instances par cid ?ks [] s = (found, version)" by fastforce
  have "version = sto_version s" using get_instances_stored(1) [OF assms(1), of par cid ?ks] g by simp
  then show ?thesis using assms(2) g by (simp add: update_instance_manager_state_def Let_def)
qed

lemma instance_effect_life:
  assumes "instance_effect now (last_update us k) v before after"
    and "\<And>i. before = Some i \<Longrightarrow> life_ok i \<and> inst_id i = k"
  shows "after = Some i \<Longrightarrow> life_ok i \<and> inst_id i = k"
proof -
  assume a: "after = Some i"
  have id: "upd_instance_id e = k" if "last_update us k = Some e" for e
    using that unfolding last_update_def by (auto dest!: map_of_SomeD)
  show ?thesis
    using assms a id
    by (auto simp: instance_effect_def split: option.splits dest: create_instance_life update_instance_life)
qed

lemma handler_store_ok:
  assumes "store_ok par cid s" and "\<And>i. par (ser i) = i"
    and "update_instance_manager_state ser par cid now req s = Inr (r, notified, s')"
  shows "store_ok par cid s'"
proof (cases "req_expected_version req \<ge> 0 \<and> req_expected_version req \<noteq> sto_version s")
  case True
  have "mem_inv s" using assms(1) by (simp add: store_ok_def)
  from handler_mismatch [OF this True] assms(1,3) show ?thesis by simp
next
  case False
  note h = handler_ok [OF assms False]
  have "life_ok i \<and> inst_id i = k" if i: "stored par cid s' k = Some i" for k i
  proof (rule instance_effect_life [OF _ _ i])
    show "instance_effect now (last_update (req_updates req) k) (sto_version s') (stored par cid s k) (stored par cid s' k)"
      using h by blast
    show "life_ok j \<and> inst_id j = k" if "stored par cid s k = Some j" for j
      using that assms(1) by (auto simp: store_ok_def)
  qed
  with h show ?thesis by (simp add: store_ok_def)
qed

text \<open>The storages that update requests can lead to.\<close>

inductive im_reach :: "(inst \<Rightarrow> 'v) \<Rightarrow> ('v \<Rightarrow> inst) \<Rightarrow> string \<Rightarrow> 'v mem_storage \<Rightarrow> bool" for ser par cid where
  start: "im_reach ser par cid mem_init"
| request: "im_reach ser par cid s \<Longrightarrow>
    update_instance_manager_state ser par cid now req s = Inr (r, notified, s') \<Longrightarrow> im_reach ser par cid s'"

lemma im_reach_store_ok: "im_reach ser par cid s \<Longrightarrow> (\<And>i. par (ser i) = i) \<Longrightarrow> store_ok par cid s"
proof (induction rule: im_reach.induct)
  case start
  show ?case using mem_init_inv by (simp add: store_ok_def stored_def mem_lookup_def mem_init_def)
next
  case (request s now req r notified s')
  then show ?case using handler_store_ok by blast
qed

subsection \<open>Properties\<close>

text \<open>C30: after any sequence of update requests, every stored instance was created as ALLOCATED, QUEUED
  or TERMINATING and has only made valid transitions; its history ends in its status, its version
  is at most the storage's, and asking for a status timeout never fails its assertion.\<close>

theorem stored_instance_life_cycle:
  assumes "im_reach ser par cid s" and "\<And>i. par (ser i) = i" and "stored par cid s k = Some i"
  shows "inst_id i = k \<and> entry_status (hd (inst_history i)) \<in> {ALLOCATED, QUEUED, TERMINATING} \<and>
    valid_path (map entry_status (inst_history i)) \<and> entry_status (last (inst_history i)) = inst_status i \<and>
    inst_version i \<le> sto_version s \<and> (\<exists>b. has_timeout now i timeout_s = Inr b)"
proof -
  have ok: "mem_inv s" "life_ok i" "inst_id i = k"
    using im_reach_store_ok [OF assms(1,2)] assms(3) by (auto simp: store_ok_def)
  obtain x n where x: "mem_lookup (table_name cid) k s = Some (x, n)" "inst_version i = n"
    using assms(3) by (auto simp: stored_def)
  have "last (inst_history i) \<in> set (get_status_transitions i (Some (inst_status i)))"
    using ok(2) by (simp add: get_status_transitions_def life_ok_def)
  then have "get_status_transition_times_ns i (Some (inst_status i)) \<noteq> []"
    by (auto simp: get_status_transition_times_ns_def)
  then have "\<exists>b. has_timeout now i timeout_s = Inr b" by (cases "get_status_transition_times_ns i (Some (inst_status i))")
    (simp_all add: has_timeout_def Let_def)
  moreover have "inst_version i \<le> sto_version s"
    using mem.entry_version [OF ok(1) x(1)] x(2) by (simp add: mem_get_version_def)
  ultimately show ?thesis using ok by (simp add: life_ok_def)
qed

definition queue_request :: update_request where
  "queue_request = \<lparr>req_expected_version = 0, req_updates = [\<lparr>upd_instance_id = ''i'', upd_new_status = QUEUED,
     upd_details = [], upd_upsert = True, upd_instance_type = ''t'', upd_cloud_id = [], upd_node_kind = UNMANAGED,
     upd_ray_node_id = [], upd_launch_request_id = []\<rparr>]\<rparr>"

lemma queue_request_runs:
  "\<exists>r n s. update_instance_manager_state (\<lambda>i. i) (\<lambda>i. i) ''c'' 5 queue_request mem_init = Inr (r, n, s)"
proof -
  have "case update_instance_manager_state (\<lambda>i. i) (\<lambda>i. i) ''c'' 5 queue_request mem_init of Inl _ \<Rightarrow> False | Inr _ \<Rightarrow> True"
    by code_simp
  then show ?thesis by (auto split: sum.splits)
qed

theorem stored_instance_life_cycle_witness:
  "\<exists>r n s i. update_instance_manager_state (\<lambda>i. i) (\<lambda>i. i) ''c'' 5 queue_request mem_init = Inr (r, n, s) \<and>
     stored (\<lambda>i. i) ''c'' s ''i'' = Some i \<and> inst_id i = ''i''"
proof -
  obtain r n s where r: "update_instance_manager_state (\<lambda>i. i) (\<lambda>i. i) ''c'' 5 queue_request mem_init = Inr (r, n, s)"
    using queue_request_runs by blast
  have reach: "im_reach (\<lambda>i. i) (\<lambda>i. i) ''c'' s" by (rule im_reach.request [OF im_reach.start r])
  have "store_ok (\<lambda>i. i) ''c'' (mem_init :: inst mem_storage)" by (rule im_reach_store_ok [OF im_reach.start]) simp
  moreover have "\<not> (req_expected_version queue_request \<ge> 0 \<and> req_expected_version queue_request \<noteq> sto_version mem_init)"
    by (simp add: queue_request_def mem_init_def)
  ultimately have "\<forall>k. instance_effect 5 (last_update (req_updates queue_request) k) (sto_version s) (stored (\<lambda>i. i) ''c'' mem_init k) (stored (\<lambda>i. i) ''c'' s k)"
    using handler_ok [OF _ refl r] by blast
  then have "instance_effect 5 (last_update (req_updates queue_request) ''i'') (sto_version s) (stored (\<lambda>i. i) ''c'' mem_init ''i'') (stored (\<lambda>i. i) ''c'' s ''i'')" by blast
  moreover have "stored (\<lambda>i. i) ''c'' mem_init ''i'' = None" by (simp add: stored_def mem_lookup_def mem_init_def)
  ultimately obtain i where i: "stored (\<lambda>i. i) ''c'' s ''i'' = Some i"
    by (auto simp: instance_effect_def last_update_def queue_request_def)
  from stored_instance_life_cycle [OF reach refl i] r i show ?thesis by blast
qed

text \<open>A request whose expected version is negative or current and whose assertions hold is applied as
  one batch: the version grows by exactly one, the subscribers get all its events, an instance
  with an event gets the effect of its last event in the request and every other is unchanged.\<close>

lemma update_request_applied:
  assumes "im_reach ser par cid s" and "\<And>i. par (ser i) = i"
    and "update_instance_manager_state ser par cid now req s = Inr (r, notified, s')"
    and "req_expected_version req < 0 \<or> req_expected_version req = sto_version s"
  shows "reply_code r = STATUS_OK \<and> notified = req_updates req \<and> reply_version r = sto_version s + 1 \<and>
    sto_version s' = sto_version s + 1 \<and>
    (\<forall>k. instance_effect now (last_update (req_updates req) k) (sto_version s') (stored par cid s k) (stored par cid s' k))"
  using handler_ok [OF im_reach_store_ok [OF assms(1,2)] assms(2,3)] assms(4) by auto

text \<open>A request with a stale expected version changes nothing and notifies nobody, and one that
  updates an instance in a terminal status is refused with an exception before anything is written.\<close>

lemma update_request_refused:
  assumes "im_reach ser par cid s" and "\<And>i. par (ser i) = i"
  shows "(req_expected_version req \<ge> 0 \<and> req_expected_version req \<noteq> sto_version s \<longrightarrow>
      update_instance_manager_state ser par cid now req s =
        Inr (\<lparr>reply_code = VERSION_MISMATCH, reply_version = sto_version s\<rparr>, [], s)) \<and>
    (req_expected_version req = sto_version s \<and> last_update (req_updates req) k = Some u \<and>
     stored par cid s k = Some i \<and> inst_status i \<in> {TERMINATED, ALLOCATION_FAILED} \<longrightarrow>
      (\<exists>e. update_instance_manager_state ser par cid now req s = Inl e))"
proof (intro conjI impI)
  have ok: "store_ok par cid s" by (rule im_reach_store_ok [OF assms])
  then have inv: "mem_inv s" by (simp add: store_ok_def)
  show "update_instance_manager_state ser par cid now req s =
      Inr (\<lparr>reply_code = VERSION_MISMATCH, reply_version = sto_version s\<rparr>, [], s)"
    if "req_expected_version req \<ge> 0 \<and> req_expected_version req \<noteq> sto_version s"
    using handler_mismatch [OF inv that] .
  assume h: "req_expected_version req = sto_version s \<and> last_update (req_updates req) k = Some u \<and>
     stored par cid s k = Some i \<and> inst_status i \<in> {TERMINATED, ALLOCATION_FAILED}"
  show "\<exists>e. update_instance_manager_state ser par cid now req s = Inl e"
  proof (rule ccontr)
    assume "\<nexists>e. update_instance_manager_state ser par cid now req s = Inl e"
    then obtain r n s' where r: "update_instance_manager_state ser par cid now req s = Inr (r, n, s')"
      by (metis prod_cases3 sum.exhaust)
    from handler_ok [OF ok assms(2) r] h obtain i' where i': "update_instance now i u = Inr i'"
      by (auto simp: instance_effect_def dest!: spec [of _ k])
    have "life_ok i" using ok h by (auto simp: store_ok_def)
    from update_instance_life [OF i' this] h show False by auto
  qed
qed

end
