(* ===== verification/Sample_Batch.thy ===== *)
theory Sample_Batch
  imports Prelude
begin

section \<open>RLlib: sample batches and their slices\<close>

text \<open>
  Models the slicing methods of \<open>ray/rllib/policy/sample_batch.py\<close>. The columns of a batch are
  one list of time steps; flags tell which of the columns the methods look at are present.
  Batches are not zero-padded. A loop that may run forever gives \<open>None\<close>.
\<close>

record 'd time_step =
  ts_eps_id :: int
  ts_t :: int
  ts_terminated :: bool
  ts_truncated :: bool
  ts_data :: 'd

record 'd sample_batch =
  sb_steps :: "'d time_step list"
  sb_seq_lens :: "nat list option"
  sb_has_eps_id :: bool
  sb_has_t :: bool
  sb_has_terminateds :: bool
  sb_has_truncateds :: bool

text \<open>\<open>attempt_count_timesteps\<close>, which the constructor stores as \<open>count\<close>.\<close>

definition sb_count :: "'d sample_batch \<Rightarrow> nat" where
  "sb_count b =
     (case sb_seq_lens b of
        None \<Rightarrow> length (sb_steps b)
      | Some ls \<Rightarrow> if ls \<noteq> [] then sum_list ls else length (sb_steps b))"

subsection \<open>Slicing\<close>

text \<open>For every time step the sequence it lies in and where that sequence begins.\<close>

fun slice_map_from :: "nat \<Rightarrow> nat \<Rightarrow> nat list \<Rightarrow> (nat \<times> nat) list" where
  "slice_map_from i s [] = [(i, s)]"
| "slice_map_from i s (l # ls) = replicate l (i, s) @ slice_map_from (i + 1) (s + l) ls"

definition seg :: "'x list \<Rightarrow> nat \<Rightarrow> nat \<Rightarrow> 'x list" where
  "seg xs a b = take (b - a) (drop a xs)"

text \<open>\<open>batch[start:stop]\<close>. A stop of 0 is taken as missing.\<close>

definition sb_slice :: "nat \<Rightarrow> nat \<Rightarrow> 'd sample_batch \<Rightarrow> 'd sample_batch result" where
  "sb_slice start stop b =
     (let n = sb_count b; stop' = (if stop = 0 then n else min stop n)
      in case sb_seq_lens b of
           Some (l # ls) \<Rightarrow>
             (let m = slice_map_from 0 0 (l # ls)
              in rbind (py_get m (int start)) (\<lambda>(start_seq, start_unpadded).
                   rbind (py_get m (int stop')) (\<lambda>(stop_seq, stop_unpadded).
                     Inr (b\<lparr>sb_steps := seg (sb_steps b) start_unpadded stop_unpadded,
                            sb_seq_lens := Some (seg (l # ls) start_seq stop_seq)\<rparr>))))
         | _ \<Rightarrow> Inr (b\<lparr>sb_steps := seg (sb_steps b) start stop'\<rparr>))"

subsection \<open>Time slices\<close>

text \<open>\<open>timeslices\<close> with a size: the loop runs while \<open>left\<close>, an integer, is not 0.\<close>

partial_function (option) timeslices_loop ::
    "'d sample_batch \<Rightarrow> nat \<Rightarrow> int \<Rightarrow> nat \<Rightarrow> 'd sample_batch list \<Rightarrow> 'd sample_batch list result option" where
  "timeslices_loop b sz left start slices =
     (if left = 0 then Some (Inr slices)
      else (case sb_slice start (start + sz) b of
              Inl e \<Rightarrow> Some (Inl e)
            | Inr s \<Rightarrow> timeslices_loop b sz (left - int sz) (start + sz) (slices @ [s])))"

definition timeslices :: "nat \<Rightarrow> 'd sample_batch \<Rightarrow> 'd sample_batch list result option" where
  "timeslices sz b = timeslices_loop b sz (int (sb_count b)) 0 []"

text \<open>\<open>timeslices\<close> with a number of slices, of which \<open>todo\<close> are still to be made.\<close>

fun timeslices_num_loop :: "'d sample_batch \<Rightarrow> nat \<Rightarrow> nat \<Rightarrow> nat \<Rightarrow> 'd sample_batch list result" where
  "timeslices_num_loop b todo 0 start = Inr []"
| "timeslices_num_loop b 0 (Suc left) start = Inl ZeroDivisionError"
| "timeslices_num_loop b (Suc todo) (Suc left) start =
     (let len = Suc left div Suc todo
      in rbind (sb_slice start (start + len) b) (\<lambda>s.
           rbind (timeslices_num_loop b todo (Suc left - len) (start + len)) (\<lambda>rest. Inr (s # rest))))"

definition timeslices_num :: "nat \<Rightarrow> 'd sample_batch \<Rightarrow> 'd sample_batch list result" where
  "timeslices_num num_slices b = timeslices_num_loop b num_slices (sb_count b) 0"

subsection \<open>Episodes\<close>

text \<open>The loop over the indices from \<open>i\<close>; \<open>n\<close> indices are left.\<close>

fun eps_id_loop :: "'d sample_batch \<Rightarrow> nat \<Rightarrow> nat \<Rightarrow> nat \<Rightarrow> int \<Rightarrow> 'd sample_batch list result" where
  "eps_id_loop b 0 i offset cur = rbind (sb_slice offset (sb_count b) b) (\<lambda>s. Inr [s])"
| "eps_id_loop b (Suc n) i offset cur =
     rbind (py_get (sb_steps b) (int i)) (\<lambda>x.
       if ts_eps_id x \<noteq> cur
       then rbind (sb_slice offset i b) (\<lambda>s. rbind (eps_id_loop b n (i + 1) i (ts_eps_id x)) (\<lambda>rest. Inr (s # rest)))
       else eps_id_loop b n (i + 1) offset cur)"

definition slice_by_eps_id :: "'d sample_batch \<Rightarrow> 'd sample_batch list result" where
  "slice_by_eps_id b =
     rbind (py_get (sb_steps b) 0) (\<lambda>x. eps_id_loop b (sb_count b) 0 0 (ts_eps_id x))"

fun done_loop :: "'d sample_batch \<Rightarrow> nat \<Rightarrow> nat \<Rightarrow> nat \<Rightarrow> 'd sample_batch list result" where
  "done_loop b 0 i offset =
     (if offset \<noteq> sb_count b then rbind (sb_slice offset (sb_count b) b) (\<lambda>s. Inr [s]) else Inr [])"
| "done_loop b (Suc n) i offset =
     (if \<not> sb_has_terminateds b then Inl (KeyError ''terminateds'')
      else rbind (py_get (sb_steps b) (int i)) (\<lambda>x.
        if ts_terminated x \<or> sb_has_truncateds b \<and> ts_truncated x
        then rbind (sb_slice offset (i + 1) b) (\<lambda>s. rbind (done_loop b n (i + 1) (i + 1)) (\<lambda>rest. Inr (s # rest)))
        else done_loop b n (i + 1) offset))"

definition slice_by_terminateds_or_truncateds :: "'d sample_batch \<Rightarrow> 'd sample_batch list result" where
  "slice_by_terminateds_or_truncateds b = done_loop b (sb_count b) 0 0"

definition split_by_episode :: "'d sample_batch \<Rightarrow> 'd sample_batch list result" where
  "split_by_episode b =
     rbind (if sb_has_eps_id b then slice_by_eps_id b else slice_by_terminateds_or_truncateds b) (\<lambda>slices.
       if sum_list (map sb_count slices) = sb_count b then Inr slices else Inl (AssertionError ''split_by_episode''))"

subsection \<open>Slices of plain batches\<close>

definition sub_batch :: "'d sample_batch \<Rightarrow> 'd time_step list \<Rightarrow> 'd sample_batch" where
  "sub_batch b xs = b\<lparr>sb_steps := xs\<rparr>"

lemma sub_batch_simps [simp]:
  "sb_steps (sub_batch b xs) = xs" "sb_seq_lens (sub_batch b xs) = sb_seq_lens b"
  "sb_seq_lens b = None \<Longrightarrow> sb_count (sub_batch b xs) = length xs"
  by (simp_all add: sub_batch_def sb_count_def)

definition plain :: "'d sample_batch \<Rightarrow> bool" where
  "plain b \<longleftrightarrow> sb_seq_lens b \<in> {None, Some []}"

lemma plain_None: "sb_seq_lens b = None \<Longrightarrow> plain b"
  by (simp add: plain_def)

lemma plain_slice:
  assumes "plain b" and "0 < stop" and "stop \<le> length (sb_steps b)"
  shows "sb_slice start stop b = Inr (sub_batch b (seg (sb_steps b) start stop))"
  using assms by (auto simp: plain_def sb_slice_def sub_batch_def sb_count_def)

lemma timeslices_loop_chunks:
  assumes b: "plain b" and s: "0 < sz"
  shows "start + left = length (sb_steps b) \<Longrightarrow> sz dvd left \<Longrightarrow>
    timeslices_loop b sz (int left) start acc =
    Some (Inr (acc @ map (sub_batch b) (chunks sz (drop start (sb_steps b)))))"
proof (induction left arbitrary: start acc rule: less_induct)
  case (less left)
  show ?case
  proof (cases "left = 0")
    case True
    then show ?thesis using less.prems by (simp add: timeslices_loop.simps)
  next
    case False
    then have le: "sz \<le> left" using less.prems(2) by (simp add: dvd_imp_le)
    let ?xs = "drop start (sb_steps b)"
    have "sb_slice start (start + sz) b = Inr (sub_batch b (take sz ?xs))"
      using plain_slice [OF b, of "start + sz" start] s le less.prems(1) by (simp add: seg_def)
    then have "timeslices_loop b sz (int left) start acc =
        timeslices_loop b sz (int (left - sz)) (start + sz) (acc @ [sub_batch b (take sz ?xs)])"
      using False le by (subst timeslices_loop.simps) (simp add: of_nat_diff)
    also have "\<dots> = Some (Inr ((acc @ [sub_batch b (take sz ?xs)]) @ map (sub_batch b) (chunks sz (drop (start + sz) (sb_steps b)))))"
      using less.prems le s by (intro less.IH) (auto simp: dvd_diff_nat)
    also have "chunks sz ?xs = take sz ?xs # chunks sz (drop (start + sz) (sb_steps b))"
      using s False less.prems(1) by (subst chunks_step) (auto simp: add.commute)
    then have "(acc @ [sub_batch b (take sz ?xs)]) @ map (sub_batch b) (chunks sz (drop (start + sz) (sb_steps b))) =
        acc @ map (sub_batch b) (chunks sz ?xs)" by simp
    finally show ?thesis .
  qed
qed

lemma timeslices_loop_returns:
  assumes "timeslices_loop b sz left start acc = Some r" and "plain b"
  shows "int sz dvd left"
proof -
  have "plain b \<longrightarrow> int sz dvd left"
  proof (rule timeslices_loop.raw_induct
      [where P = "\<lambda>b sz left start acc r. plain b \<longrightarrow> int sz dvd left", OF _ assms(1)], rule impI)
    fix f and b :: "'a sample_batch" and sz left start acc r
    assume IH: "\<And>b sz left start acc r. f b sz left start acc = Some r \<Longrightarrow> plain b \<longrightarrow> int sz dvd left"
      and body: "(if left = 0 then Some (Inr acc) else case sb_slice start (start + sz) b of Inl e \<Rightarrow> Some (Inl e)
          | Inr s \<Rightarrow> f b sz (left - int sz) (start + sz) (acc @ [s])) = Some r"
      and b: "plain b"
    obtain s where "sb_slice start (start + sz) b = Inr s" using b by (auto simp: plain_def sb_slice_def Let_def)
    then have "left = 0 \<or> f b sz (left - int sz) (start + sz) (acc @ [s]) = Some r"
      using body by (auto split: if_splits)
    then have "left = 0 \<or> int sz dvd left - int sz" using IH b by blast
    then show "int sz dvd left" by (metis diff_add_cancel dvd_0_right dvd_add dvd_refl)
  qed
  then show ?thesis using assms(2) by blast
qed

text \<open>Slices of a batch with sequences. The sequence a time step lies in, and the sequences from that of one
  step up to that of another, without the latter.\<close>

fun seq_at :: "nat list \<Rightarrow> nat \<Rightarrow> nat" where
  "seq_at [] i = 0"
| "seq_at (l # ls) i = (if i < l then 0 else Suc (seq_at ls (i - l)))"

definition whole_sequences :: "nat list \<Rightarrow> 'd sample_batch \<Rightarrow> nat \<Rightarrow> nat \<Rightarrow> 'd sample_batch" where
  "whole_sequences ls b i j =
     b\<lparr>sb_steps := seg (sb_steps b) (sum_list (take (seq_at ls i) ls)) (sum_list (take (seq_at ls j) ls)),
       sb_seq_lens := Some (seg ls (seq_at ls i) (seq_at ls j))\<rparr>"

lemma length_slice_map: "length (slice_map_from k s ls) = Suc (sum_list ls)"
  by (induction ls arbitrary: k s) simp_all

lemma slice_map_nth:
  "i \<le> sum_list ls \<Longrightarrow> slice_map_from k s ls ! i = (k + seq_at ls i, s + sum_list (take (seq_at ls i) ls))"
  by (induction ls arbitrary: k s i) (auto simp: nth_append)

lemma sequence_slice:
  assumes "sb_seq_lens b = Some ls" and "ls \<noteq> []" and "0 < stop"
  shows "sb_slice start stop b =
    (if start \<le> sum_list ls then Inr (whole_sequences ls b start (min stop (sum_list ls))) else Inl IndexError)"
proof -
  have n: "sb_count b = sum_list ls" using assms by (simp add: sb_count_def)
  let ?m = "slice_map_from 0 0 ls"
  have get: "py_get ?m (int i) = (if i \<le> sum_list ls then Inr (seq_at ls i, sum_list (take (seq_at ls i) ls)) else Inl IndexError)" for i
    by (simp add: py_get_def py_index_def length_slice_map slice_map_nth)
  have "sb_slice start stop b = rbind (py_get ?m (int start)) (\<lambda>(start_seq, start_unpadded).
      rbind (py_get ?m (int (min stop (sum_list ls)))) (\<lambda>(stop_seq, stop_unpadded).
        Inr (b\<lparr>sb_steps := seg (sb_steps b) start_unpadded stop_unpadded, sb_seq_lens := Some (seg ls start_seq stop_seq)\<rparr>)))"
    using assms by (cases ls) (simp_all add: sb_slice_def n Let_def)
  then show ?thesis unfolding get by (simp add: whole_sequences_def)
qed

lemma timeslices_loop_sequences:
  assumes b: "sb_seq_lens b = Some ls" "ls \<noteq> []" and s: "0 < sz"
  shows "k * sz \<le> sum_list ls + sz \<Longrightarrow> timeslices_loop b sz (int (sum_list ls) - int (k * sz)) (k * sz) acc =
    (if sz dvd sum_list ls \<and> k * sz \<le> sum_list ls
     then Some (Inr (acc @ map (\<lambda>i. whole_sequences ls b (i * sz) (Suc i * sz)) [k..<sum_list ls div sz])) else Some (Inl IndexError))"
proof (induction "sum_list ls + sz - k * sz" arbitrary: k acc rule: less_induct)
  case less
  let ?n = "sum_list ls"
  consider "k * sz = ?n" | "?n < k * sz" | "k * sz < ?n" by linarith
  then show ?case
  proof cases
    case 1
    have "sz dvd ?n" unfolding 1 [symmetric] by simp
    moreover have "?n div sz = k" unfolding 1 [symmetric] using s by simp
    ultimately show ?thesis using 1 by (simp add: timeslices_loop.simps)
  next
    case 2
    then show ?thesis using sequence_slice [OF b, of "k * sz + sz" "k * sz"] s
      by (subst timeslices_loop.simps) (simp flip: of_nat_mult)
  next
    case 3
    have sl: "sb_slice (k * sz) (k * sz + sz) b = Inr (whole_sequences ls b (k * sz) (min (Suc k * sz) ?n))"
      using sequence_slice [OF b, of "k * sz + sz" "k * sz"] s 3 by (simp add: add.commute)
    have "timeslices_loop b sz (int ?n - int (k * sz)) (k * sz) acc =
        timeslices_loop b sz (int ?n - int (Suc k * sz)) (Suc k * sz) (acc @ [whole_sequences ls b (k * sz) (min (Suc k * sz) ?n)])"
    proof -
      have "int ?n - int (k * sz) \<noteq> 0" using 3 by linarith
      moreover have "int ?n - int (k * sz) - int sz = int ?n - int (Suc k * sz)" by simp
      moreover have "k * sz + sz = Suc k * sz" by simp
      ultimately show ?thesis using sl by (subst timeslices_loop.simps) (simp only: if_False sum.case simp_thms)
    qed
    also have "\<dots> = (if sz dvd ?n \<and> Suc k * sz \<le> ?n
       then Some (Inr ((acc @ [whole_sequences ls b (k * sz) (min (Suc k * sz) ?n)]) @
         map (\<lambda>i. whole_sequences ls b (i * sz) (Suc i * sz)) [Suc k..<?n div sz])) else Some (Inl IndexError))"
      by (rule less.hyps) (use 3 s in auto)
    finally show ?thesis
    proof (rule trans)
      have "Suc k * sz \<le> ?n \<and> k < ?n div sz" if d: "sz dvd ?n"
      proof -
        obtain m where m: "?n = m * sz" using d by (metis dvd_div_mult_self)
        then show ?thesis using 3 s by (simp add: Suc_le_eq del: mult_Suc)
      qed
      then show "(if sz dvd ?n \<and> Suc k * sz \<le> ?n
         then Some (Inr ((acc @ [whole_sequences ls b (k * sz) (min (Suc k * sz) ?n)]) @
           map (\<lambda>i. whole_sequences ls b (i * sz) (Suc i * sz)) [Suc k..<?n div sz])) else Some (Inl IndexError)) =
        (if sz dvd ?n \<and> k * sz \<le> ?n
         then Some (Inr (acc @ map (\<lambda>i. whole_sequences ls b (i * sz) (Suc i * sz)) [k..<?n div sz])) else Some (Inl IndexError))"
        using 3 by (auto simp: upt_conv_Cons min_absorb1 simp del: mult_Suc)
    qed
  qed
qed

text \<open>C39: \<open>timeslices\<close> with a positive size, on batches that are not zero-padded. Without \<open>seq_lens\<close> it cuts a
  batch into consecutive slices of that size, and returns at all only if the size divides the number
  of time steps: otherwise the counter of what is left passes zero and the loop never ends. With
  non-empty \<open>seq_lens\<close> it raises an IndexError if the size does not divide the number of time steps, and
  otherwise the slices are cut at sequence boundaries: each holds the whole sequences from the one its
  first step lies in up to, but without, the one the next slice's first step lies in.\<close>

theorem timeslices_chunks_or_diverges:
  assumes "0 < sz"
  shows "timeslices sz b =
    (case sb_seq_lens b of
       None \<Rightarrow> if sz dvd length (sb_steps b) then Some (Inr (map (sub_batch b) (chunks sz (sb_steps b)))) else None
     | Some [] \<Rightarrow> if sz dvd length (sb_steps b) then Some (Inr (map (sub_batch b) (chunks sz (sb_steps b)))) else None
     | Some ls \<Rightarrow> if sz dvd sum_list ls
         then Some (Inr (map (\<lambda>i. whole_sequences ls b (i * sz) (Suc i * sz)) [0..<sum_list ls div sz])) else Some (Inl IndexError))"
proof (cases "plain b")
  case p: True
  have n: "sb_count b = length (sb_steps b)" using p by (auto simp: plain_def sb_count_def)
  have "timeslices sz b = (if sz dvd length (sb_steps b) then Some (Inr (map (sub_batch b) (chunks sz (sb_steps b)))) else None)"
  proof (cases "sz dvd length (sb_steps b)")
    case True
    then show ?thesis
      using timeslices_loop_chunks [OF p assms, of 0 "sb_count b" "[]"] by (simp add: timeslices_def n)
  next
    case False
    then have "timeslices_loop b sz (int (sb_count b)) 0 [] \<noteq> Some r" for r
      using timeslices_loop_returns [OF _ p, of sz "int (sb_count b)" 0 "[]"] by (auto simp: n)
    then have "timeslices_loop b sz (int (sb_count b)) 0 [] = None" by (metis not_None_eq)
    then show ?thesis using False by (simp add: timeslices_def)
  qed
  then show ?thesis using p by (auto simp: plain_def)
next
  case False
  then obtain l ls where ls: "sb_seq_lens b = Some (l # ls)" by (auto simp: plain_def neq_Nil_conv)
  then have "sb_count b = sum_list (l # ls)" by (simp add: sb_count_def)
  then show ?thesis
    using timeslices_loop_sequences [OF ls _ assms, of 0 "[]"] ls by (simp add: timeslices_def)
qed

theorem timeslices_chunks_or_diverges_witness:
  "timeslices 2 \<lparr>sb_steps = replicate 3 \<lparr>ts_eps_id = 0, ts_t = 0, ts_terminated = False, ts_truncated = False, ts_data = ()\<rparr>,
     sb_seq_lens = None, sb_has_eps_id = True, sb_has_t = True, sb_has_terminateds = True, sb_has_truncateds = True\<rparr> = None"
  by (subst timeslices_chunks_or_diverges) simp_all

lemma timeslices_one: "sb_seq_lens b = None \<Longrightarrow> timeslices 1 b = Some (Inr (map (\<lambda>x. sub_batch b [x]) (sb_steps b)))"
proof -
  assume b: "sb_seq_lens b = None"
  have "chunks 1 xs = map (\<lambda>x. [x]) xs" for xs :: "'a time_step list"
  proof (induction xs)
    case (Cons x xs)
    then show ?case by (subst chunks_step) simp_all
  qed simp
  then show ?thesis
    using timeslices_loop_chunks [OF plain_None [OF b], of 1 0 "sb_count b" "[]"] b by (simp add: timeslices_def sb_count_def comp_def)
qed

text \<open>Single time steps of a batch with one sequence: all slices but the last are empty, and the last is the
  whole batch.\<close>

lemma timeslices_one_sequence:
  assumes "sb_seq_lens b = Some [length (sb_steps b)]" and "sb_steps b \<noteq> []"
  shows "\<exists>ss. timeslices 1 b = Some (Inr ss) \<and> map sb_steps ss = replicate (length (sb_steps b) - 1) [] @ [sb_steps b]"
proof -
  let ?n = "length (sb_steps b)"
  let ?ss = "map (\<lambda>i. whole_sequences [?n] b i (Suc i)) [0..<?n]"
  have "timeslices 1 b = Some (Inr ?ss)"
    using timeslices_loop_sequences [OF assms(1), of 1 0 "[]"] assms by (simp add: timeslices_def sb_count_def)
  moreover have "map sb_steps ?ss = replicate (?n - 1) [] @ [sb_steps b]"
    by (rule nth_equalityI) (use assms(2) in \<open>auto simp: whole_sequences_def seg_def nth_append less_Suc_eq_le\<close>)
  ultimately show ?thesis by blast
qed

subsection \<open>A number of slices\<close>

lemma balanced_step:
  fixes l n :: nat
  assumes "0 < n"
  shows "l div Suc n \<le> (l - l div Suc n) div n" and "(l - l div Suc n + n - 1) div n \<le> (l + n) div Suc n"
proof -
  define q r where "q = l div Suc n" and "r = l mod Suc n"
  have l: "l - q = q * n + r" and l': "l = q * Suc n + r" and r: "r \<le> n"
    using div_mult_mod_eq [of l "Suc n"] by (simp_all add: q_def r_def less_Suc_eq_le [symmetric])
  have "(q * n + r) div n = q + r div n" using assms by simp
  then show "l div Suc n \<le> (l - l div Suc n) div n" unfolding q_def [symmetric] l by simp
  have "q * n + r + n - 1 = (r + n - 1) + q * n" using assms by simp
  then have up: "(q * n + r + n - 1) div n = q + (r + n - 1) div n" using assms by (simp only: div_mult_self1)
  have low: "(l + n) div Suc n = q + (r + n) div Suc n" unfolding l' by (simp add: add.assoc del: mult_Suc_right)
  have "(r + n - 1) div n \<le> (r + n) div Suc n"
  proof (cases "r = 0")
    case False
    have "(r + n - 1) div n < 2" using r assms False by (intro less_mult_imp_div_less) linarith
    moreover have "1 \<le> (r + n) div Suc n" using div_le_mono [of "Suc n" "r + n" "Suc n"] False by simp
    ultimately show ?thesis by linarith
  qed (use assms in simp)
  then show "(l - l div Suc n + n - 1) div n \<le> (l + n) div Suc n" unfolding q_def [symmetric] l up low by simp
qed

lemma timeslices_num_loop_ok:
  "sb_seq_lens b = None \<Longrightarrow> todo \<le> left \<Longrightarrow> start + left = length (sb_steps b) \<Longrightarrow> 0 < todo \<or> left = 0 \<Longrightarrow>
    \<exists>ss. timeslices_num_loop b todo left start = Inr ss \<and> length ss = todo \<and>
      concat (map sb_steps ss) = drop start (sb_steps b) \<and>
      list_all (\<lambda>s. left div todo \<le> sb_count s \<and> sb_count s \<le> (left + todo - 1) div todo) ss"
proof (induction b todo left start rule: timeslices_num_loop.induct)
  case (3 b todo left start)
  let ?n = "Suc todo" and ?l = "Suc left"
  let ?len = "?l div ?n"
  have len: "0 < ?len" "?len \<le> ?l" using "3.prems"(2) by (simp_all add: div_greater_zero_iff)
  let ?s = "sub_batch b (take ?len (drop start (sb_steps b)))"
  have sl: "sb_slice start (start + ?len) b = Inr ?s"
    using plain_slice [OF plain_None [OF "3.prems"(1)], of "start + ?len" start] len "3.prems"(3) by (simp add: seg_def)
  have cnt: "sb_count ?s = ?len" 
  proof -
    have "length (sb_steps b) - start = ?l" using "3.prems"(3) by simp
    then show ?thesis using "3.prems"(1) len(2) by (simp del: div_le_dividend)
  qed
  have up: "?len \<le> (?l + ?n - 1) div ?n" by (rule div_le_mono) simp
  show ?case
  proof (cases "todo = 0")
    case True
    then show ?thesis using "3.prems" sl cnt by simp
  next
    case False
    have left: "todo \<le> ?l - ?len"
    proof -
      have "?len * todo + ?len \<le> ?l" using div_times_less_eq_dividend [of ?l ?n] by (simp add: algebra_simps)
      moreover have "1 * todo \<le> ?len * todo" using len(1) by (intro mult_le_mono1) simp
      ultimately show ?thesis by linarith
    qed
    from "3.IH" [OF refl "3.prems"(1) left] "3.prems"(3) len False obtain ss where ss:
      "timeslices_num_loop b todo (?l - ?len) (start + ?len) = Inr ss" "length ss = todo"
      "concat (map sb_steps ss) = drop (start + ?len) (sb_steps b)"
      "list_all (\<lambda>s. (?l - ?len) div todo \<le> sb_count s \<and> sb_count s \<le> (?l - ?len + todo - 1) div todo) ss" by auto
    have "timeslices_num_loop b ?n ?l start = Inr (?s # ss)" using sl ss(1) by (simp add: Let_def)
    moreover have "concat (map sb_steps (?s # ss)) = drop start (sb_steps b)"
    proof -
      have "drop (start + ?len) (sb_steps b) = drop ?len (drop start (sb_steps b))" by (simp add: add.commute)
      then show ?thesis unfolding list.map concat.simps sub_batch_simps ss(3) by (simp only: append_take_drop_id)
    qed
    moreover have "list_all (\<lambda>s. ?len \<le> sb_count s \<and> sb_count s \<le> (?l + ?n - 1) div ?n) (?s # ss)"
    proof -
      have b1: "?len \<le> (?l - ?len) div todo" by (rule balanced_step(1)) (use False in simp)
      have b2: "(?l - ?len + todo - 1) div todo \<le> (?l + ?n - 1) div ?n"
        using balanced_step(2) [of todo ?l] False by simp
      have "list_all (\<lambda>s. ?len \<le> sb_count s \<and> sb_count s \<le> (?l + ?n - 1) div ?n) ss"
        using ss(4) unfolding list_all_iff by (meson b1 b2 order_trans)
      then show ?thesis unfolding list.pred_inject(2) cnt using up by blast
    qed
    moreover have "length (?s # ss) = ?n" using ss(2) by simp
    ultimately show ?thesis by (intro exI [of _ "?s # ss"] conjI)
  qed
qed simp_all

text \<open>\<open>timeslices\<close> with a number of slices not above the number of time steps makes exactly that many,
  which put together are the batch and whose sizes differ by at most one.\<close>

lemma timeslices_num_balanced:
  assumes "sb_seq_lens b = None" and "0 < n" and "n \<le> sb_count b"
  shows "\<exists>ss. timeslices_num n b = Inr ss \<and> length ss = n \<and> concat (map sb_steps ss) = sb_steps b \<and>
    list_all (\<lambda>s. sb_count b div n \<le> sb_count s \<and> sb_count s \<le> (sb_count b + n - 1) div n) ss"
  using timeslices_num_loop_ok [OF assms(1,3), of 0] assms by (simp add: timeslices_num_def sb_count_def)

text \<open>With more slices than time steps the first slices are empty ranges that end at 0, and a stop of 0
  means the end of the batch: a batch of one step asked for two slices comes back twice.\<close>

lemma timeslices_num_repeats:
  "timeslices_num 2 (b\<lparr>sb_steps := [x], sb_seq_lens := None\<rparr>) =
    Inr [b\<lparr>sb_steps := [x], sb_seq_lens := None\<rparr>, b\<lparr>sb_steps := [x], sb_seq_lens := None\<rparr>]"
  by (simp add: timeslices_num_def sb_count_def sb_slice_def seg_def numeral_2_eq_2)

subsection \<open>Splitting into episodes\<close>

text \<open>Maximal runs of steps of one episode.\<close>

fun runs :: "int \<Rightarrow> 'd time_step list \<Rightarrow> 'd time_step list \<Rightarrow> 'd time_step list list" where
  "runs cur acc [] = [acc]"
| "runs cur acc (x # xs) =
     (if ts_eps_id x \<noteq> cur then acc # runs (ts_eps_id x) [x] xs else runs cur (acc @ [x]) xs)"

lemma seg_snoc: "offset \<le> i \<Longrightarrow> i < length xs \<Longrightarrow> seg xs offset (Suc i) = seg xs offset i @ [xs ! i]"
  by (simp add: seg_def Suc_diff_le take_Suc_conv_app_nth)

lemma eps_id_loop_runs:
  assumes b: "sb_seq_lens b = None" and pos: "sb_steps b \<noteq> []"
  shows "i + n = length (sb_steps b) \<Longrightarrow> offset \<le> i \<Longrightarrow> (offset < i \<or> i = 0 \<and> cur = ts_eps_id (hd (sb_steps b))) \<Longrightarrow>
    eps_id_loop b n i offset cur = Inr (map (sub_batch b) (runs cur (seg (sb_steps b) offset i) (drop i (sb_steps b))))"
proof (induction n arbitrary: i offset cur)
  case 0
  have "sb_slice offset (sb_count b) b = Inr (sub_batch b (seg (sb_steps b) offset i))"
    using plain_slice [OF plain_None [OF b], of "sb_count b" offset] b pos 0 by (simp add: sb_count_def)
  then show ?case using 0 by simp
next
  case (Suc n)
  let ?xs = "sb_steps b"
  have i: "i < length ?xs" using Suc.prems(1) by simp
  have d: "drop i ?xs = ?xs ! i # drop (Suc i) ?xs" using i by (rule Cons_nth_drop_Suc [symmetric])
  show ?case
  proof (cases "ts_eps_id (?xs ! i) = cur")
    case True
    have "offset < Suc i" using Suc.prems(2) by simp
    from Suc.IH [of "Suc i" offset cur] this Suc.prems(1,2) True i d show ?thesis
      by (simp add: seg_snoc)
  next
    case False
    then have oi: "offset < i" using Suc.prems(3) pos by (auto simp: hd_conv_nth)
    then have "sb_slice offset i b = Inr (sub_batch b (seg ?xs offset i))" using plain_slice [OF plain_None [OF b], of i offset] i by simp
    moreover have "seg ?xs i (Suc i) = [?xs ! i]" using seg_snoc [of i i ?xs] i by (simp add: seg_def)
    ultimately show ?thesis using Suc.IH [of "Suc i" i "ts_eps_id (?xs ! i)"] Suc.prems(1) False i d by simp
  qed
qed

definition one_episode :: "'d time_step list \<Rightarrow> bool" where
  "one_episode xs \<longleftrightarrow> xs \<noteq> [] \<and> list_all (\<lambda>x. ts_eps_id x = ts_eps_id (hd xs)) xs"

lemma runs_hd:
  "acc \<noteq> [] \<and> ts_eps_id (hd acc) = cur \<or> acc = [] \<and> xs \<noteq> [] \<and> ts_eps_id (hd xs) = cur \<Longrightarrow>
    runs cur acc xs \<noteq> [] \<and> ts_eps_id (hd (hd (runs cur acc xs))) = cur"
proof (induction xs arbitrary: acc)
  case (Cons x xs)
  then show ?case using Cons.IH [of "acc @ [x]"] by (cases acc) simp_all
qed simp

lemma concat_runs: "concat (runs cur acc xs) = acc @ xs"
  by (induction cur acc xs rule: runs.induct) simp_all

lemma runs_episodes:
  assumes "acc \<noteq> [] \<or> xs \<noteq> [] \<and> ts_eps_id (hd xs) = cur" and "list_all (\<lambda>y. ts_eps_id y = cur) acc"
  shows "list_all one_episode (runs cur acc xs) \<and>
    successively (\<lambda>r s. ts_eps_id (hd r) \<noteq> ts_eps_id (hd s)) (runs cur acc xs)"
  using assms
proof (induction cur acc xs rule: runs.induct)
  case (1 cur acc)
  then show ?case by (cases acc) (simp_all add: one_episode_def list_all_iff)
next
  case (2 cur acc x xs)
  show ?case
  proof (cases "ts_eps_id x = cur")
    case True
    then show ?thesis using 2 by simp
  next
    case False
    then obtain y ys where acc: "acc = y # ys" using "2.prems"(1) by (cases acc) auto
    have "one_episode acc" "ts_eps_id (hd acc) = cur" using "2.prems"(2) acc by (auto simp: one_episode_def list_all_iff)
    moreover have "list_all one_episode (runs (ts_eps_id x) [x] xs) \<and>
        successively (\<lambda>r s. ts_eps_id (hd r) \<noteq> ts_eps_id (hd s)) (runs (ts_eps_id x) [x] xs)"
      using "2.IH"(1) False by simp
    moreover obtain r rs where "runs (ts_eps_id x) [x] xs = r # rs" "ts_eps_id (hd r) = ts_eps_id x"
      using runs_hd [of "[x]" "ts_eps_id x" xs] by (cases "runs (ts_eps_id x) [x] xs") simp_all
    ultimately show ?thesis using False by simp
  qed
qed

lemma sum_counts: "sb_seq_lens b = None \<Longrightarrow> sum_list (map sb_count (map (sub_batch b) rs)) = length (concat rs)"
  by (induction rs) simp_all

text \<open>Splitting a non-empty batch by its episode ids gives consecutive slices that put together are the
  batch; every slice is non-empty and of one episode, and neighbours are of different episodes.\<close>

lemma split_by_episode_runs:
  assumes "sb_seq_lens b = None" and "sb_has_eps_id b" and "sb_steps b \<noteq> []"
  shows "\<exists>ss. split_by_episode b = Inr ss \<and> concat (map sb_steps ss) = sb_steps b \<and>
    list_all (\<lambda>s. one_episode (sb_steps s)) ss \<and>
    successively (\<lambda>s t. ts_eps_id (hd (sb_steps s)) \<noteq> ts_eps_id (hd (sb_steps t))) ss"
proof -
  let ?cur = "ts_eps_id (hd (sb_steps b))" and ?rs = "runs (ts_eps_id (hd (sb_steps b))) [] (sb_steps b)"
  have r: "concat ?rs = sb_steps b" "list_all one_episode ?rs"
    "successively (\<lambda>r s. ts_eps_id (hd r) \<noteq> ts_eps_id (hd s)) ?rs"
    using concat_runs [of ?cur "[]"] runs_episodes [of "[]" "sb_steps b" ?cur] assms(3) by simp_all
  have "py_get (sb_steps b) 0 = Inr (hd (sb_steps b))"
    using py_get_nat [of 0 "sb_steps b"] assms(3) by (simp add: hd_conv_nth)
  then have "slice_by_eps_id b = Inr (map (sub_batch b) ?rs)"
    using eps_id_loop_runs [OF assms(1,3), of 0 "sb_count b" 0 ?cur] assms(1)
    by (simp add: slice_by_eps_id_def sb_count_def seg_def)
  moreover have "sum_list (map sb_count (map (sub_batch b) ?rs)) = sb_count b"
    unfolding sum_counts [OF assms(1)] using r(1) assms(1) by (simp add: sb_count_def)
  ultimately have run: "split_by_episode b = Inr (map (sub_batch b) ?rs)"
    using assms(2) by (simp add: split_by_episode_def)
  have "list_all (\<lambda>s. one_episode (sb_steps s)) (map (sub_batch b) ?rs)"
    using r(2) by (simp add: list.pred_map comp_def)
  moreover have "successively (\<lambda>s t. ts_eps_id (hd (sb_steps s)) \<noteq> ts_eps_id (hd (sb_steps t))) (map (sub_batch b) ?rs)"
    using r(3) by (simp add: successively_map)
  moreover have "concat (map sb_steps (map (sub_batch b) ?rs)) = sb_steps b" using r(1) by (simp add: comp_def)
  ultimately show ?thesis using run by blast
qed

end
