(* ===== verification/Replay_Buffer.thy ===== *)
theory Replay_Buffer
  imports Sample_Batch
begin

section \<open>RLlib: replay buffers\<close>

text \<open>
  Models \<open>ray/rllib/utils/replay_buffers/replay_buffer.py\<close> and the push of \<open>ray/rllib/utils/metrics/window_stat.py\<close>. The stored items
  are of any type; the number of time steps of an item and its size in bytes are the arguments
  \<open>cnt\<close> and \<open>nbytes\<close>. Random draws are arguments too. Warnings about memory change no state.
\<close>

subsection \<open>Window statistics\<close>

record 'x window_stat =
  ws_items :: "'x option list"
  ws_idx :: nat
  ws_count :: nat

definition window_init :: "nat \<Rightarrow> 'x window_stat" where
  "window_init n = \<lparr>ws_items = replicate n None, ws_idx = 0, ws_count = 0\<rparr>"

definition window_push :: "'x \<Rightarrow> 'x window_stat \<Rightarrow> 'x window_stat" where
  "window_push x w =
     \<lparr>ws_items = (ws_items w)[ws_idx w := Some x], ws_idx = (ws_idx w + 1) mod length (ws_items w), ws_count = ws_count w + 1\<rparr>"

subsection \<open>State\<close>

datatype storage_unit = Timesteps | Sequences | Episodes | Fragments

record 'i replay_buffer =
  rp_storage_unit :: storage_unit
  rp_storage :: "'i list"
  rp_capacity :: int
  rp_next_idx :: nat
  rp_hit_count :: "nat list"
  rp_eviction_started :: bool
  rp_num_timesteps_added :: nat
  rp_num_timesteps_added_wrap :: nat
  rp_num_timesteps_sampled :: nat
  rp_evicted_hit_stats :: "nat window_stat"
  rp_est_size_bytes :: int

definition storage_unit_of :: "string \<Rightarrow> storage_unit result" where
  "storage_unit_of s =
     (if s = ''timesteps'' then Inr Timesteps
      else if s = ''sequences'' then Inr Sequences
      else if s = ''episodes'' then Inr Episodes
      else if s = ''fragments'' then Inr Fragments
      else Inl (ValueError ''storage_unit''))"

definition replay_init :: "int \<Rightarrow> string \<Rightarrow> 'i replay_buffer result" where
  "replay_init capacity unit_name =
     rbind (storage_unit_of unit_name) (\<lambda>u.
       if capacity \<le> 0 then Inl (ValueError ''Capacity of replay buffer has to be greater than zero'')
       else Inr \<lparr>rp_storage_unit = u, rp_storage = [], rp_capacity = capacity, rp_next_idx = 0,
         rp_hit_count = replicate (nat capacity) 0, rp_eviction_started = False, rp_num_timesteps_added = 0,
         rp_num_timesteps_added_wrap = 0, rp_num_timesteps_sampled = 0, rp_evicted_hit_stats = window_init 1000,
         rp_est_size_bytes = 0\<rparr>)"

subsection \<open>Adding\<close>

definition add_single_batch :: "('i \<Rightarrow> nat) \<Rightarrow> ('i \<Rightarrow> int) \<Rightarrow> 'i \<Rightarrow> 'i replay_buffer \<Rightarrow> 'i replay_buffer result" where
  "add_single_batch cnt nbytes item b =
     (let b1 = b\<lparr>rp_num_timesteps_added := rp_num_timesteps_added b + cnt item,
                 rp_num_timesteps_added_wrap := rp_num_timesteps_added_wrap b + cnt item\<rparr>;
          i = rp_next_idx b1;
          b2 = (if i \<ge> length (rp_storage b1)
                then b1\<lparr>rp_storage := rp_storage b1 @ [item], rp_est_size_bytes := rp_est_size_bytes b1 + nbytes item\<rparr>
                else b1\<lparr>rp_storage := (rp_storage b1)[i := item],
                        rp_est_size_bytes := rp_est_size_bytes b1 - nbytes (rp_storage b1 ! i) + nbytes item\<rparr>)
      in rbind (if rp_eviction_started b2
                then rbind (py_get (rp_hit_count b2) (int i)) (\<lambda>h.
                       rbind (py_set (rp_hit_count b2) (int i) 0) (\<lambda>hs.
                         Inr (b2\<lparr>rp_evicted_hit_stats := window_push h (rp_evicted_hit_stats b2), rp_hit_count := hs\<rparr>)))
                else Inr b2)
           (\<lambda>b3. Inr (if int (rp_num_timesteps_added_wrap b3) \<ge> rp_capacity b3
                      then b3\<lparr>rp_eviction_started := True, rp_num_timesteps_added_wrap := 0, rp_next_idx := 0\<rparr>
                      else b3\<lparr>rp_next_idx := rp_next_idx b3 + 1\<rparr>)))"

text \<open>\<open>add\<close> splits a batch by the storage unit and adds each part with the method \<open>add1\<close> of the class.
  \<open>None\<close>: the loop over time slices does not end.\<close>

fun add_sequences ::
    "('d sample_batch \<Rightarrow> 's \<Rightarrow> 's result) \<Rightarrow> 'd sample_batch \<Rightarrow> nat list \<Rightarrow> nat \<Rightarrow> 's \<Rightarrow> 's result" where
  "add_sequences add1 b [] start s = Inr s"
| "add_sequences add1 b (l # ls) start s =
     rbind (sb_slice start (start + l) b) (\<lambda>part. rbind (add1 part s) (\<lambda>s'. add_sequences add1 b ls (start + l) s'))"

definition full_episode :: "'d sample_batch \<Rightarrow> bool result" where
  "full_episode eps =
     rbind (if sb_has_t eps then rbind (py_get (sb_steps eps) 0) (\<lambda>x. Inr (ts_t x)) else Inr 0) (\<lambda>t.
       if t \<noteq> 0 then Inr False
       else rbind (if sb_has_terminateds eps then rbind (py_get (sb_steps eps) (-1)) (\<lambda>x. Inr (ts_terminated x)) else Inr True)
         (\<lambda>te. if te then Inr True
               else if sb_has_truncateds eps then rbind (py_get (sb_steps eps) (-1)) (\<lambda>x. Inr (ts_truncated x)) else Inr False))"

definition add_episode :: "('d sample_batch \<Rightarrow> 's \<Rightarrow> 's result) \<Rightarrow> 'd sample_batch \<Rightarrow> 's \<Rightarrow> 's result" where
  "add_episode add1 eps s = rbind (full_episode eps) (\<lambda>full. if full then add1 eps s else Inr s)"

definition replay_add ::
    "storage_unit \<Rightarrow> ('d sample_batch \<Rightarrow> 's \<Rightarrow> 's result) \<Rightarrow> 'd sample_batch \<Rightarrow> 's \<Rightarrow> 's result option" where
  "replay_add u add1 batch s =
     (if \<not> sb_count batch > 0 then Some (Inr s)
      else (case u of
              Timesteps \<Rightarrow>
                (case timeslices 1 batch of
                   None \<Rightarrow> None
                 | Some r \<Rightarrow> Some (rbind r (\<lambda>slices. rfold add1 slices s)))
            | Sequences \<Rightarrow>
                Some (case sb_seq_lens batch of
                        None \<Rightarrow> Inl (TypeError ''NoneType object is not iterable'')
                      | Some ls \<Rightarrow> add_sequences add1 batch ls 0 s)
            | Episodes \<Rightarrow> Some (rbind (split_by_episode batch) (\<lambda>eps. rfold (add_episode add1) eps s))
            | Fragments \<Rightarrow> Some (add1 batch s)))"

subsection \<open>Sampling\<close>

text \<open>The samples at the given indices, before they are concatenated.\<close>

fun encode_sample :: "nat list \<Rightarrow> 'i replay_buffer \<Rightarrow> ('i list \<times> 'i replay_buffer) result" where
  "encode_sample [] b = Inr ([], b)"
| "encode_sample (i # is) b =
     rbind (py_get (rp_hit_count b) (int i)) (\<lambda>h.
       rbind (py_set (rp_hit_count b) (int i) (h + 1)) (\<lambda>hs.
         rbind (py_get (rp_storage b) (int i)) (\<lambda>x.
           rbind (encode_sample is (b\<lparr>rp_hit_count := hs\<rparr>)) (\<lambda>(xs, b'). Inr (x # xs, b')))))"

definition replay_sample :: "('i \<Rightarrow> nat) \<Rightarrow> nat list \<Rightarrow> 'i replay_buffer \<Rightarrow> ('i list \<times> 'i replay_buffer) result" where
  "replay_sample cnt idxes b =
     (if rp_storage b = [] then Inl (ValueError ''Trying to sample from an empty buffer.'')
      else rbind (encode_sample idxes b) (\<lambda>(xs, b').
        Inr (xs, b'\<lparr>rp_num_timesteps_sampled := rp_num_timesteps_sampled b' + sum_list (map cnt xs)\<rparr>)))"

subsection \<open>State dictionaries\<close>

record 'i replay_state =
  rs_storage :: "'i list"
  rs_next_idx :: nat
  rs_added_count :: nat
  rs_added_count_wrapped :: nat
  rs_eviction_started :: bool
  rs_sampled_count :: nat
  rs_est_size_bytes :: int
  rs_num_entries :: nat

definition replay_get_state :: "'i replay_buffer \<Rightarrow> 'i replay_state" where
  "replay_get_state b =
     \<lparr>rs_storage = rp_storage b, rs_next_idx = rp_next_idx b, rs_added_count = rp_num_timesteps_added b,
      rs_added_count_wrapped = rp_num_timesteps_added_wrap b, rs_eviction_started = rp_eviction_started b,
      rs_sampled_count = rp_num_timesteps_sampled b, rs_est_size_bytes = rp_est_size_bytes b,
      rs_num_entries = length (rp_storage b)\<rparr>"

definition replay_set_state :: "'i replay_state \<Rightarrow> 'i replay_buffer \<Rightarrow> 'i replay_buffer" where
  "replay_set_state s b =
     b\<lparr>rp_storage := rs_storage s, rp_next_idx := rs_next_idx s, rp_num_timesteps_added := rs_added_count s,
       rp_num_timesteps_added_wrap := rs_added_count_wrapped s, rp_eviction_started := rs_eviction_started s,
       rp_num_timesteps_sampled := rs_sampled_count s, rp_est_size_bytes := rs_est_size_bytes s\<rparr>"

subsection \<open>The invariant\<close>

definition replay_inv :: "('i \<Rightarrow> int) \<Rightarrow> 'i replay_buffer \<Rightarrow> bool" where
  "replay_inv nbytes b \<longleftrightarrow> 0 < rp_capacity b \<and> int (length (rp_hit_count b)) = rp_capacity b \<and>
     rp_next_idx b \<le> length (rp_storage b) \<and> rp_next_idx b \<le> rp_num_timesteps_added_wrap b \<and>
     int (rp_num_timesteps_added_wrap b) < rp_capacity b \<and> int (length (rp_storage b)) \<le> rp_capacity b \<and>
     rp_est_size_bytes b = sum_list (map nbytes (rp_storage b))"

lemma sum_list_update_int: "i < length xs \<Longrightarrow> sum_list (xs[i := x]) = sum_list xs - xs ! i + (x :: int)"
  by (induction xs arbitrary: i) (auto split: nat.splits)

lemma replay_init_inv: "replay_init c u = Inr b \<Longrightarrow> replay_inv nbytes b \<and> rp_storage b = [] \<and> rp_capacity b = c"
  by (auto simp: replay_init_def replay_inv_def rbind_eq_Inr split: if_splits)

lemma add_single_inv:
  assumes inv: "replay_inv nbytes b" and c: "0 < cnt item"
  shows "\<exists>b'. add_single_batch cnt nbytes item b = Inr b' \<and> replay_inv nbytes b' \<and> rp_capacity b' = rp_capacity b \<and>
    rp_storage b' = (if rp_next_idx b < length (rp_storage b) then (rp_storage b)[rp_next_idx b := item]
                     else rp_storage b @ [item]) \<and>
    rp_num_timesteps_added b' = rp_num_timesteps_added b + cnt item \<and>
    (if rp_capacity b \<le> int (rp_num_timesteps_added_wrap b + cnt item)
     then rp_eviction_started b' \<and> rp_num_timesteps_added_wrap b' = 0 \<and> rp_next_idx b' = 0
     else rp_eviction_started b' = rp_eviction_started b \<and>
       rp_num_timesteps_added_wrap b' = rp_num_timesteps_added_wrap b + cnt item \<and> rp_next_idx b' = rp_next_idx b + 1)"
proof -
  let ?i = "rp_next_idx b" and ?w = "rp_num_timesteps_added_wrap b + cnt item"
  have i: "?i < length (rp_hit_count b)" "?i \<le> length (rp_storage b)" using inv by (auto simp: replay_inv_def)
  have len: "int ?i + 1 \<le> rp_capacity b" using inv by (auto simp: replay_inv_def)
  have est: "sum_list (map nbytes ((rp_storage b)[?i := item])) =
      sum_list (map nbytes (rp_storage b)) - nbytes (rp_storage b ! ?i) + nbytes item" if "?i < length (rp_storage b)"
    using that by (simp add: map_update sum_list_update_int)
  show ?thesis
    using inv c i len est
    by (cases "rp_eviction_started b"; cases "rp_capacity b \<le> int ?w"; cases "?i < length (rp_storage b)")
      (simp_all add: add_single_batch_def Let_def replay_inv_def)
qed

definition add_items :: "('i \<Rightarrow> nat) \<Rightarrow> ('i \<Rightarrow> int) \<Rightarrow> 'i list \<Rightarrow> 'i replay_buffer \<Rightarrow> 'i replay_buffer result" where
  "add_items cnt nbytes items b = rfold (add_single_batch cnt nbytes) items b"

text \<open>Items of any positive numbers of time steps can be added in any number without an error. The buffer
  never holds more items than its capacity, every stored item was added, the size estimate is the
  sum of the sizes of the stored items, and all added time steps are counted.\<close>

lemma replay_buffer_bounded:
  assumes "replay_init c u = Inr b" and "\<forall>x\<in>set items. 0 < cnt x"
  shows "\<exists>b'. add_items cnt nbytes items b = Inr b' \<and> int (length (rp_storage b')) \<le> c \<and>
    set (rp_storage b') \<subseteq> set items \<and> rp_est_size_bytes b' = sum_list (map nbytes (rp_storage b')) \<and>
    rp_num_timesteps_added b' = sum_list (map cnt items)"
proof -
  have step: "\<exists>b'. add_items cnt nbytes xs b = Inr b' \<and> replay_inv nbytes b' \<and> rp_capacity b' = rp_capacity b \<and>
      set (rp_storage b') \<subseteq> set (rp_storage b) \<union> set xs \<and>
      rp_num_timesteps_added b' = rp_num_timesteps_added b + sum_list (map cnt xs)"
    if "replay_inv nbytes b" "\<forall>x\<in>set xs. 0 < cnt x" for xs b
    using that
  proof (induction xs arbitrary: b)
    case (Cons x xs)
    from add_single_inv [OF Cons.prems(1), of cnt x] Cons.prems(2) obtain b1 where b1:
      "add_single_batch cnt nbytes x b = Inr b1" "replay_inv nbytes b1" "rp_capacity b1 = rp_capacity b"
      "rp_storage b1 = (if rp_next_idx b < length (rp_storage b) then (rp_storage b)[rp_next_idx b := x] else rp_storage b @ [x])"
      "rp_num_timesteps_added b1 = rp_num_timesteps_added b + cnt x" by auto
    have "set (rp_storage b1) \<subseteq> insert x (set (rp_storage b))"
      unfolding b1(4) using set_update_subset_insert [of "rp_storage b"] by auto
    then show ?case using Cons.IH [OF b1(2)] Cons.prems(2) b1(1,3,5) by (fastforce simp: add_items_def)
  qed (auto simp: add_items_def)
  have b: "replay_inv nbytes b" "rp_storage b = []" "rp_capacity b = c" "rp_num_timesteps_added b = 0"
    using assms(1) by (auto simp: replay_init_def replay_inv_def rbind_eq_Inr split: if_splits)
  from step [OF b(1) assms(2)] b show ?thesis by (auto simp: replay_inv_def)
qed

subsection \<open>A ring of single time steps\<close>

lemma rotate_update:
  assumes "j < length s"
  shows "rotate (Suc j) (s[j := x]) = tl (rotate j s) @ [x]"
proof -
  have s: "s[j := x] = (take j s @ [x]) @ drop (Suc j) s" using assms by (simp add: upd_conv_take_nth_drop)
  have "length (take j s @ [x]) = Suc j" using assms by simp
  then have "rotate (Suc j) (s[j := x]) = drop (Suc j) s @ (take j s @ [x])"
    unfolding s by (metis rotate_append)
  moreover have "rotate j s = drop j s @ take j s" using assms by (simp add: rotate_drop_take)
  moreover have "drop j s = s ! j # drop (Suc j) s" using assms by (simp add: Cons_nth_drop_Suc)
  ultimately show ?thesis by simp
qed

definition ring_ok :: "'i list \<Rightarrow> 'i replay_buffer \<Rightarrow> bool" where
  "ring_ok xs b \<longleftrightarrow> (let c = nat (rp_capacity b); n = length xs
     in rp_next_idx b = n mod c \<and> rp_num_timesteps_added_wrap b = n mod c \<and> rp_eviction_started b = (n \<ge> c) \<and>
        rotate (rp_next_idx b) (rp_storage b) = drop (n - c) xs)"

lemma rotate_length_eq: "length s = n \<Longrightarrow> rotate n s = s"
  by simp

lemma ring_step:
  assumes inv: "replay_inv nbytes b" and ring: "ring_ok xs b" and c: "cnt x = 1"
  shows "\<exists>b'. add_single_batch cnt nbytes x b = Inr b' \<and> replay_inv nbytes b' \<and> ring_ok (xs @ [x]) b' \<and>
    rp_capacity b' = rp_capacity b"
proof -
  let ?c = "nat (rp_capacity b)" and ?n = "length xs" and ?s = "rp_storage b"
  have cp: "0 < ?c" and cap: "rp_capacity b = int ?c" using inv by (simp_all add: replay_inv_def)
  have r: "rp_next_idx b = ?n mod ?c" "rp_num_timesteps_added_wrap b = ?n mod ?c" "rp_eviction_started b = (?n \<ge> ?c)"
    "rotate (rp_next_idx b) ?s = drop (?n - ?c) xs" using ring unfolding ring_ok_def Let_def by blast+
  have ls: "length ?s = min ?n ?c" using arg_cong [OF r(4), of length] by (simp add: min_def)
  let ?j = "?n mod ?c" and ?s' = "if ?n mod ?c < length ?s then ?s[?n mod ?c := x] else ?s @ [x]"
  from add_single_inv [OF inv, of cnt x] c obtain b' where b': "add_single_batch cnt nbytes x b = Inr b'"
    "replay_inv nbytes b'" "rp_capacity b' = rp_capacity b" "rp_storage b' = ?s'"
    "if rp_capacity b \<le> int (?j + 1)
     then rp_eviction_started b' \<and> rp_num_timesteps_added_wrap b' = 0 \<and> rp_next_idx b' = 0
     else rp_eviction_started b' = (?n \<ge> ?c) \<and> rp_num_timesteps_added_wrap b' = ?j + 1 \<and> rp_next_idx b' = ?j + 1"
    unfolding r(1-3) by auto
  have j: "?j < ?c" using cp by simp
  have mod: "Suc ?n mod ?c = (if Suc ?j = ?c then 0 else Suc ?j)" using cp by (simp add: mod_Suc)
  have wrap: "rp_capacity b \<le> int (?j + 1) \<longleftrightarrow> Suc ?j = ?c" using j cap by linarith
  have ge: "?c \<le> Suc ?n" if "Suc ?j = ?c" using that mod_less_eq_dividend [of ?n ?c] by linarith
  have "(?c \<le> Suc ?n) = (?c \<le> ?n)" if "Suc ?j \<noteq> ?c" using that by (cases "Suc ?n = ?c") auto
  then have idx: "rp_next_idx b' = Suc ?n mod ?c" "rp_num_timesteps_added_wrap b' = Suc ?n mod ?c"
    "rp_eviction_started b' = (Suc ?n \<ge> ?c)" using b'(5) ge unfolding wrap mod by (auto split: if_splits)
  have "rotate (Suc ?n mod ?c) ?s' = drop (Suc ?n - ?c) (xs @ [x])"
  proof (cases "?n < ?c")
    case True
    then have s: "?s = xs" "length ?s = ?n" using r(1,4) ls by simp_all
    have "rotate (Suc ?n mod ?c) (xs @ [x]) = xs @ [x]"
      using True rotate_length_eq [of "xs @ [x]" "Suc ?n"] by (cases "Suc ?n = ?c") (simp_all del: rotate_Suc)
    then show ?thesis using True s by simp
  next
    case False
    then have len: "length ?s = ?c" using ls by simp
    have "rotate (Suc ?n mod ?c) (?s[?j := x]) = rotate (Suc ?j) (?s[?j := x])"
      unfolding mod using rotate_length_eq [of "?s[?j := x]" ?c] len by (auto simp del: rotate_Suc)
    also have "\<dots> = tl (rotate ?j ?s) @ [x]" using j len by (intro rotate_update) simp
    also have "\<dots> = drop (Suc ?n - ?c) (xs @ [x])"
      using r(1,4) False cp by (simp add: Suc_diff_le tl_drop drop_Suc)
    finally show ?thesis using j len by simp
  qed
  then show ?thesis using b' idx by (auto simp: ring_ok_def Let_def)
qed

lemma ring_items:
  assumes "replay_init c u = Inr b" and "\<forall>x\<in>set xs. cnt x = 1"
  shows "\<exists>b'. add_items cnt nbytes xs b = Inr b' \<and> replay_inv nbytes b' \<and> ring_ok xs b' \<and> rp_capacity b' = c"
proof -
  have b: "replay_inv nbytes b" "rp_capacity b = c" "ring_ok [] b"
    using assms(1) by (auto simp: replay_init_def replay_inv_def ring_ok_def rbind_eq_Inr split: if_splits)
  show ?thesis
    using assms(2)
  proof (induction xs rule: rev_induct)
    case Nil
    then show ?case using b by (simp add: add_items_def)
  next
    case (snoc x xs)
    then obtain b1 where b1: "add_items cnt nbytes xs b = Inr b1" "replay_inv nbytes b1" "ring_ok xs b1" "rp_capacity b1 = c" by auto
    from ring_step [OF b1(2,3), of cnt x] snoc.prems b1(4) obtain b2 where
      "add_single_batch cnt nbytes x b1 = Inr b2" "replay_inv nbytes b2" "ring_ok (xs @ [x]) b2" "rp_capacity b2 = c" by auto
    then show ?case using b1(1) by (simp add: add_items_def rfold_append)
  qed
qed

text \<open>An item as long as the capacity goes to the first slot and leaves the next index there.\<close>

lemma wrapping_items:
  assumes "replay_inv nbytes b" and "rp_next_idx b = 0" and "rp_storage b = y # ys" and "rp_capacity b \<le> int (cnt x)" and "0 < cnt x"
  shows "\<exists>b'. add_items cnt nbytes (replicate (Suc n) x) b = Inr b' \<and> rp_storage b' = x # ys"
  using assms
proof (induction n arbitrary: b y)
  case 0
  then show ?case using add_single_inv [OF 0(1), of cnt x] by (auto simp: add_items_def)
next
  case (Suc n)
  from add_single_inv [OF Suc.prems(1), of cnt x] Suc.prems(2-5) obtain b1 where b1:
    "add_single_batch cnt nbytes x b = Inr b1" "replay_inv nbytes b1" "rp_capacity b1 = rp_capacity b"
    "rp_storage b1 = x # ys" "rp_next_idx b1 = 0" by (auto split: if_splits)
  from Suc.IH [OF b1(2,5,4)] Suc.prems(4,5) b1(1,3) show ?case by (simp add: add_items_def)
qed

text \<open>With items of different lengths the capacity is not a bound on the stored time steps, and old items can
  stay forever: after four single steps, every item of four steps wraps the buffer around at once and
  lands in the first slot. The buffer of capacity 4 holds 7 steps, among them the second oldest
  item, however many are added later.\<close>

lemma replay_capacity_exceeded:
  "\<exists>b b'. replay_init 4 ''fragments'' = Inr b \<and>
    add_items length (\<lambda>x. 0) ([''a'', ''b'', ''c'', ''d''] @ replicate (Suc n) ''wxyz'') b = Inr b' \<and>
    rp_storage b' = [''wxyz'', ''b'', ''c'', ''d''] \<and> sum_list (map length (rp_storage b')) = 7"
proof -
  obtain b where b: "replay_init 4 ''fragments'' = Inr (b :: string replay_buffer)"
    by (simp add: replay_init_def storage_unit_of_def)
  have "\<forall>x\<in>set [''a'', ''b'', ''c'', ''d'']. length x = 1" by simp
  from ring_items [OF b this, of "\<lambda>x. 0"] obtain b4 where
    b4: "add_items length (\<lambda>x. 0) [''a'', ''b'', ''c'', ''d''] b = Inr b4" "replay_inv (\<lambda>x. 0) b4"
      "rp_storage b4 = [''a'', ''b'', ''c'', ''d'']" "rp_next_idx b4 = 0" "rp_capacity b4 = 4"
    by (auto simp: ring_ok_def Let_def)
  have "\<exists>b'. add_items length (\<lambda>x. 0) (replicate (Suc n) ''wxyz'') b4 = Inr b' \<and> rp_storage b' = [''wxyz'', ''b'', ''c'', ''d'']"
    by (rule wrapping_items [OF b4(2,4,3)]) (simp_all add: b4(5))
  then obtain b' where b': "add_items length (\<lambda>x. 0) (replicate (Suc n) ''wxyz'') b4 = Inr b'"
    "rp_storage b' = [''wxyz'', ''b'', ''c'', ''d'']" by blast
  have "add_items length (\<lambda>x. 0) ([''a'', ''b'', ''c'', ''d''] @ replicate (Suc n) ''wxyz'') b = Inr b'"
    using b4(1) b'(1) unfolding add_items_def rfold_append by simp
  then show ?thesis using b b'(2) by (intro exI [of _ b] exI [of _ b']) simp
qed

subsection \<open>Batches of time steps\<close>

text \<open>Adding batches one after the other.\<close>

fun add_batches ::
    "('d sample_batch \<Rightarrow> int) \<Rightarrow> 'd sample_batch list \<Rightarrow> 'd sample_batch replay_buffer \<Rightarrow> 'd sample_batch replay_buffer result option" where
  "add_batches nbytes [] b = Some (Inr b)"
| "add_batches nbytes (x # xs) b =
     (case replay_add (rp_storage_unit b) (add_single_batch sb_count nbytes) x b of
        None \<Rightarrow> None
      | Some (Inl e) \<Rightarrow> Some (Inl e)
      | Some (Inr b') \<Rightarrow> add_batches nbytes xs b')"

definition single_steps :: "'d sample_batch \<Rightarrow> 'd sample_batch list" where
  "single_steps b = map (\<lambda>x. sub_batch b [x]) (sb_steps b)"

lemma replay_add_timesteps:
  assumes "sb_seq_lens batch = None"
  shows "replay_add Timesteps add1 batch s = Some (rfold add1 (single_steps batch) s)"
  using assms timeslices_one [OF assms]
  by (cases "sb_steps batch") (simp_all add: replay_add_def single_steps_def sb_count_def)

lemma add_single_unit: "add_single_batch cnt nbytes x b = Inr b' \<Longrightarrow> rp_storage_unit b' = rp_storage_unit b"
  by (auto simp: add_single_batch_def Let_def rbind_eq_Inr split: if_splits)

lemma add_items_unit: "add_items cnt nbytes xs b = Inr b' \<Longrightarrow> rp_storage_unit b' = rp_storage_unit b"
  by (induction xs arbitrary: b) (auto simp: add_items_def rbind_eq_Inr dest!: add_single_unit)

lemma add_items_append: "add_items cnt nbytes (xs @ ys) b = rbind (add_items cnt nbytes xs b) (add_items cnt nbytes ys)"
  unfolding add_items_def [abs_def] by (rule rfold_append)

lemma add_batches_items:
  assumes "\<forall>x\<in>set bs. sb_seq_lens x = None" and "rp_storage_unit b = Timesteps"
  shows "add_batches nbytes bs b = Some (add_items sb_count nbytes (concat (map single_steps bs)) b)"
  using assms
proof (induction bs arbitrary: b)
  case (Cons x xs)
  have run: "replay_add (rp_storage_unit b) (add_single_batch sb_count nbytes) x b = Some (add_items sb_count nbytes (single_steps x) b)"
    using Cons.prems replay_add_timesteps [of x] by (simp add: add_items_def)
  show ?case
  proof (cases "add_items sb_count nbytes (single_steps x) b")
    case (Inr b1)
    then have "rp_storage_unit b1 = Timesteps" using add_items_unit Cons.prems(2) by metis
    then show ?thesis using Cons.IH [of b1] Cons.prems(1) run Inr by (simp add: add_items_append)
  qed (simp add: run add_items_append)
qed (simp add: add_items_def)

text \<open>C38: A buffer that stores single time steps keeps the newest ones. For batches without \<open>seq_lens\<close>, however
  the steps are spread over them (batches with \<open>seq_lens\<close> are stored by whole sequences instead), adding ends without an error; while fewer steps than the capacity \<open>c\<close> were added
  the buffer holds all of them, and from then on exactly the last \<open>c\<close>, oldest first when read
  from the next index to be overwritten.\<close>

theorem replay_keeps_newest_steps:
  assumes "replay_init c ''timesteps'' = Inr b" and "\<forall>x\<in>set bs. sb_seq_lens x = None"
  shows "\<exists>b'. add_batches nbytes bs b = Some (Inr b') \<and>
    rotate (rp_next_idx b') (rp_storage b') =
      drop (length (concat (map sb_steps bs)) - nat c) (concat (map single_steps bs)) \<and>
    rp_eviction_started b' = (length (concat (map sb_steps bs)) \<ge> nat c)"
proof -
  let ?xs = "concat (map single_steps bs)"
  have unit: "rp_storage_unit b = Timesteps"
    using assms(1) by (auto simp: replay_init_def storage_unit_of_def split: if_splits)
  have len: "length ?xs = length (concat (map sb_steps bs))" by (induction bs) (simp_all add: single_steps_def)
  have "\<forall>x\<in>set ?xs. sb_count x = 1" using assms(2) by (auto simp: single_steps_def)
  from ring_items [OF assms(1) this, of nbytes] add_batches_items [OF assms(2) unit, of nbytes]
  show ?thesis unfolding ring_ok_def Let_def len [symmetric] by (metis (no_types, lifting))
qed

definition demo_batch :: "int list \<Rightarrow> unit sample_batch" where
  "demo_batch ts = \<lparr>sb_steps = map (\<lambda>t. \<lparr>ts_eps_id = 0, ts_t = t, ts_terminated = False, ts_truncated = False, ts_data = ()\<rparr>) ts,
     sb_seq_lens = None, sb_has_eps_id = True, sb_has_t = True, sb_has_terminateds = True, sb_has_truncateds = True\<rparr>"

theorem replay_keeps_newest_steps_witness:
  "\<exists>b b'. replay_init 3 ''timesteps'' = Inr b \<and> add_batches (\<lambda>x. 8) [demo_batch [1, 2], demo_batch [3, 4, 5]] b = Some (Inr b') \<and>
    map (\<lambda>s. map ts_t (sb_steps s)) (rotate (rp_next_idx b') (rp_storage b')) = [[3], [4], [5]]"
proof -
  obtain b where b: "replay_init 3 ''timesteps'' = Inr (b :: unit sample_batch replay_buffer)"
    by (simp add: replay_init_def storage_unit_of_def)
  have "\<forall>x\<in>set [demo_batch [1, 2], demo_batch [3, 4, 5]]. sb_seq_lens x = None" by (simp add: demo_batch_def)
  from replay_keeps_newest_steps [OF b this, of "\<lambda>x. 8"] b show ?thesis
    by (auto simp: demo_batch_def single_steps_def)
qed

subsection \<open>Sampling\<close>

lemma encode_sample_ok:
  assumes "length (rp_storage b) \<le> length (rp_hit_count b)" and "\<forall>i\<in>set idxes. i < length (rp_storage b)"
  shows "\<exists>hs. encode_sample idxes b = Inr (map (\<lambda>i. rp_storage b ! i) idxes, b\<lparr>rp_hit_count := hs\<rparr>) \<and>
    length hs = length (rp_hit_count b)"
  using assms
proof (induction idxes arbitrary: b)
  case Nil
  then show ?case by (intro exI [of _ "rp_hit_count b"]) simp
next
  case (Cons i idxes)
  let ?hs = "(rp_hit_count b)[i := rp_hit_count b ! i + 1]"
  have i: "i < length (rp_storage b)" "i < length (rp_hit_count b)" using Cons.prems by auto
  from Cons.IH [of "b\<lparr>rp_hit_count := ?hs\<rparr>"] Cons.prems i show ?case by auto
qed

text \<open>Sampling valid indices returns the stored items at those indices.\<close>

lemma replay_sample_ok:
  assumes "replay_inv nbytes b" and "rp_storage b \<noteq> []" and "\<forall>i\<in>set idxes. i < length (rp_storage b)"
  shows "\<exists>b'. replay_sample cnt idxes b = Inr (map (\<lambda>i. rp_storage b ! i) idxes, b') \<and> replay_inv nbytes b' \<and>
    rp_storage b' = rp_storage b"
proof -
  have "length (rp_storage b) \<le> length (rp_hit_count b)" using assms(1) by (auto simp: replay_inv_def)
  from encode_sample_ok [OF this assms(3)] assms(1,2) show ?thesis
    by (auto simp: replay_sample_def replay_inv_def)
qed

text \<open>A restored buffer behaves as the saved one, but for the hit counts of its items.\<close>

lemma replay_state_roundtrip:
  assumes "rp_capacity b' = rp_capacity b" and "rp_storage_unit b' = rp_storage_unit b"
  shows "replay_set_state (replay_get_state b) b' =
    b\<lparr>rp_hit_count := rp_hit_count b', rp_evicted_hit_stats := rp_evicted_hit_stats b'\<rparr>"
  using assms by (cases b; cases b') (simp add: replay_set_state_def replay_get_state_def)

end
