(* ===== verification/Segment_Tree.thy ===== *)
theory Segment_Tree
  imports Prelude Complex_Main
begin

unbundle bit_operations_syntax

section \<open>RLlib: segment trees\<close>

text \<open>
  Models \<open>ray/rllib/execution/segment_tree.py\<close>: a complete binary tree in an array of twice the
  capacity, whose inner nodes hold the operation applied to their children. The specification is
  on the list of leaves: \<open>reduce\<close> is the operation folded over a range, and the prefix-sum search
  finds the leaf in which a given mass falls. Floats are rationals, extended by the two infinities
  where the minimum needs them.
\<close>

subsection \<open>Numbers with infinities\<close>

datatype pfloat = NegInf | Fin rat | PosInf

instantiation pfloat :: linorder
begin

fun less_eq_pfloat :: "pfloat \<Rightarrow> pfloat \<Rightarrow> bool" where
  "less_eq_pfloat NegInf _ = True"
| "less_eq_pfloat _ PosInf = True"
| "less_eq_pfloat (Fin x) (Fin y) = (x \<le> y)"
| "less_eq_pfloat _ _ = False"

definition less_pfloat :: "pfloat \<Rightarrow> pfloat \<Rightarrow> bool" where
  "less_pfloat x y \<longleftrightarrow> x \<le> y \<and> \<not> y \<le> (x :: pfloat)"

instance
proof
  fix x y z :: pfloat
  show "x < y \<longleftrightarrow> x \<le> y \<and> \<not> y \<le> x" by (rule less_pfloat_def)
  show "x \<le> x" by (cases x) simp_all
  show "x \<le> z" if "x \<le> y" "y \<le> z" using that by (cases x; cases y; cases z) simp_all
  show "x = y" if "x \<le> y" "y \<le> x" using that by (cases x; cases y) simp_all
  show "x \<le> y \<or> y \<le> x" by (cases x; cases y) auto
qed

end

lemma min_PosInf [simp]: "min x PosInf = x" "min PosInf x = x"
  by (cases x; simp add: min_def)+

subsection \<open>The tree\<close>

record 'v segment_tree =
  st_capacity :: int
  st_neutral :: 'v
  st_value :: "'v list"
  st_operation :: "'v \<Rightarrow> 'v \<Rightarrow> 'v"

definition tree_init :: "int \<Rightarrow> ('v \<Rightarrow> 'v \<Rightarrow> 'v) \<Rightarrow> 'v \<Rightarrow> 'v segment_tree result" where
  "tree_init capacity operation neutral =
     (if \<not> (capacity > 0 \<and> capacity AND (capacity - 1) = 0)
      then Inl (AssertionError ''Capacity must be positive and a power of 2!'')
      else Inr \<lparr>st_capacity = capacity, st_neutral = neutral, st_value = replicate (nat (2 * capacity)) neutral,
                st_operation = operation\<rparr>)"

text \<open>One round of the loop of \<open>reduce\<close>.\<close>

definition reduce_step :: "('v \<Rightarrow> 'v \<Rightarrow> 'v) \<Rightarrow> 'v list \<Rightarrow> int \<Rightarrow> int \<Rightarrow> 'v \<Rightarrow> (int \<times> int \<times> 'v) result" where
  "reduce_step f vs start stop res =
     rbind (if odd start then rbind (py_get vs start) (\<lambda>v. Inr (start + 1, f res v)) else Inr (start, res))
       (\<lambda>(start, res).
          rbind (if odd stop then rbind (py_get vs (stop - 1)) (\<lambda>v. Inr (stop - 1, f res v)) else Inr (stop, res))
            (\<lambda>(stop, res). Inr (start div 2, stop div 2, res)))"

lemma reduce_step_bounds:
  "reduce_step f vs start stop res = Inr (a, b, r) \<Longrightarrow> a = (start + 1) div 2 \<and> b = stop div 2"
  by (auto simp: reduce_step_def rbind_eq_Inr split: if_splits elim!: oddE evenE)

function reduce_loop :: "('v \<Rightarrow> 'v \<Rightarrow> 'v) \<Rightarrow> 'v list \<Rightarrow> int \<Rightarrow> int \<Rightarrow> 'v \<Rightarrow> 'v result" where
  "reduce_loop f vs start stop res =
     (if start < stop
      then (case reduce_step f vs start stop res of
              Inl e \<Rightarrow> Inl e
            | Inr (start', stop', res') \<Rightarrow> reduce_loop f vs start' stop' res')
      else Inr res)"
  by pat_completeness auto
termination reduce_loop
  by (relation "measure (\<lambda>(f, vs, start, stop, res). nat (stop - start))")
    (auto dest!: sym [of "Inr _"] reduce_step_bounds)

declare reduce_loop.simps [simp del]

definition tree_reduce :: "int \<Rightarrow> int option \<Rightarrow> 'v segment_tree \<Rightarrow> 'v result" where
  "tree_reduce start stop t =
     (let stop' = (case stop of None \<Rightarrow> st_capacity t | Some e \<Rightarrow> if e < 0 then e + st_capacity t else e)
      in reduce_loop (st_operation t) (st_value t) (start + st_capacity t) (stop' + st_capacity t) (st_neutral t))"

text \<open>The loop of \<open>__setitem__\<close>, from a leaf's parent up to the root.\<close>

function set_loop :: "('v \<Rightarrow> 'v \<Rightarrow> 'v) \<Rightarrow> nat \<Rightarrow> 'v list \<Rightarrow> 'v list result" where
  "set_loop f idx vs =
     (if idx \<ge> 1
      then (case rbind (py_get vs (2 * int idx)) (\<lambda>a. rbind (py_get vs (2 * int idx + 1)) (\<lambda>b. py_set vs (int idx) (f a b))) of
              Inl e \<Rightarrow> Inl e
            | Inr vs' \<Rightarrow> set_loop f (idx div 2) vs')
      else Inr vs)"
  by pat_completeness auto
termination set_loop
  by (relation "measure (\<lambda>(f, idx, vs). idx)") auto

declare set_loop.simps [simp del]

definition tree_set :: "int \<Rightarrow> 'v \<Rightarrow> 'v segment_tree \<Rightarrow> 'v segment_tree result" where
  "tree_set idx val t =
     (if \<not> (0 \<le> idx \<and> idx < st_capacity t) then Inl (AssertionError ''idx'')
      else rbind (py_set (st_value t) (idx + st_capacity t) val)
        (\<lambda>vs. rbind (set_loop (st_operation t) (nat (idx + st_capacity t) div 2) vs)
          (\<lambda>vs'. Inr (t\<lparr>st_value := vs'\<rparr>))))"

definition tree_get :: "int \<Rightarrow> 'v segment_tree \<Rightarrow> 'v result" where
  "tree_get idx t =
     (if \<not> (0 \<le> idx \<and> idx < st_capacity t) then Inl (AssertionError ''idx'')
      else py_get (st_value t) (idx + st_capacity t))"

definition tree_get_state :: "'v segment_tree \<Rightarrow> 'v list" where
  "tree_get_state t = st_value t"

definition tree_set_state :: "'v list \<Rightarrow> 'v segment_tree \<Rightarrow> 'v segment_tree result" where
  "tree_set_state state t =
     (if int (length state) \<noteq> st_capacity t * 2 then Inl (AssertionError ''state'') else Inr (t\<lparr>st_value := state\<rparr>))"

subsection \<open>Sum and minimum\<close>

definition sum_tree_init :: "int \<Rightarrow> rat segment_tree result" where
  "sum_tree_init capacity = tree_init capacity (+) 0"

definition tree_sum :: "int \<Rightarrow> int option \<Rightarrow> rat segment_tree \<Rightarrow> rat result" where
  "tree_sum start stop t = tree_reduce start stop t"

definition min_tree_init :: "int \<Rightarrow> pfloat segment_tree result" where
  "min_tree_init capacity = tree_init capacity min PosInf"

definition tree_min :: "int \<Rightarrow> int option \<Rightarrow> pfloat segment_tree \<Rightarrow> pfloat result" where
  "tree_min start stop t = tree_reduce start stop t"

text \<open>The descent of \<open>find_prefixsum_idx\<close>. A node below the root has an index of at least one.\<close>

function find_loop :: "rat list \<Rightarrow> nat \<Rightarrow> nat \<Rightarrow> rat \<Rightarrow> nat result" where
  "find_loop vs capacity idx p =
     (if 0 < idx \<and> idx < capacity
      then (case py_get vs (2 * int idx) of
              Inl e \<Rightarrow> Inl e
            | Inr v \<Rightarrow> if v > p then find_loop vs capacity (2 * idx) p else find_loop vs capacity (2 * idx + 1) (p - v))
      else Inr idx)"
  by pat_completeness auto
termination find_loop
  by (relation "measure (\<lambda>(vs, capacity, idx, p). capacity - idx)") auto

declare find_loop.simps [simp del]

definition find_prefixsum_idx :: "rat \<Rightarrow> rat segment_tree \<Rightarrow> int result" where
  "find_prefixsum_idx prefixsum t =
     rbind (tree_sum 0 None t) (\<lambda>s.
       if \<not> (0 \<le> prefixsum \<and> prefixsum \<le> s + 1 / 100000) then Inl (AssertionError ''prefixsum'')
       else rbind (py_get (st_value t) 1) (\<lambda>root.
         let p = (if prefixsum \<ge> root then root - 1 / 100000 else prefixsum)
         in rbind (find_loop (st_value t) (nat (st_capacity t)) 1 p) (\<lambda>idx. Inr (int idx - st_capacity t))))"

subsection \<open>Capacities\<close>

lemma power_of_two_iff:
  fixes c :: int
  assumes "c > 0" and "c AND (c - 1) = 0"
  shows "\<exists>k. c = 2 ^ k"
  using assms
proof (induction "nat c" arbitrary: c rule: less_induct)
  case less
  show ?case
  proof (cases "even c")
    case True
    then obtain m where m: "c = 2 * m" by (rule evenE)
    have "c AND (c - 1) = 2 * (m AND (m - 1))"
    proof -
      have "(2 * m - 1) div 2 = m - 1" by linarith
      then show ?thesis unfolding m by (subst and_int_rec) simp
    qed
    then have "m AND (m - 1) = 0" "m > 0" using less.prems m by simp_all
    from less.hyps [OF _ this(2,1)] m \<open>m > 0\<close> obtain k where "m = 2 ^ k" by auto
    then show ?thesis using m by (intro exI [of _ "Suc k"]) simp
  next
    case False
    then obtain m where m: "c = 2 * m + 1" by (rule oddE)
    have "c AND (c - 1) = 2 * m" using m by (subst and_int_rec) simp
    then show ?thesis using less.prems m by (intro exI [of _ 0]) simp
  qed
qed

subsection \<open>The array the tree stands for\<close>

definition node_ok :: "('v \<Rightarrow> 'v \<Rightarrow> 'v) \<Rightarrow> 'v list \<Rightarrow> nat \<Rightarrow> bool" where
  "node_ok f vs i \<longleftrightarrow> vs ! i = f (vs ! (2 * i)) (vs ! (2 * i + 1))"

definition tree_inv :: "('v \<Rightarrow> 'v \<Rightarrow> 'v) \<Rightarrow> 'v \<Rightarrow> nat \<Rightarrow> 'v segment_tree \<Rightarrow> bool" where
  "tree_inv f e k t \<longleftrightarrow> st_operation t = f \<and> st_neutral t = e \<and> st_capacity t = 2 ^ k \<and>
     length (st_value t) = 2 * 2 ^ k \<and> (\<forall>i. 0 < i \<and> i < 2 ^ k \<longrightarrow> node_ok f (st_value t) i)"

definition leaves :: "'v segment_tree \<Rightarrow> 'v list" where
  "leaves t = drop (nat (st_capacity t)) (st_value t)"

lemma nat_two_power [simp]: "nat (2 ^ k) = 2 ^ k"
  by (simp add: nat_power_eq)

lemma py_get_child [simp]:
  "2 * i + 1 < length xs \<Longrightarrow> py_get xs (2 * int i) = Inr (xs ! (2 * i))"
  "2 * i + 1 < length xs \<Longrightarrow> py_get xs (2 * int i + 1) = Inr (xs ! (2 * i + 1))"
  using py_get_nat [of "2 * i" xs] py_get_nat [of "2 * i + 1" xs] by (simp_all add: add.commute)

text \<open>Every node that is not on the path above \<open>j\<close> is right before the loop, every node after it.\<close>

lemma set_loop_ok:
  assumes "j < c" and "length vs = 2 * c"
    and "\<And>i. 0 < i \<Longrightarrow> i < c \<Longrightarrow> (\<forall>d. i \<noteq> j div 2 ^ d) \<Longrightarrow> node_ok f vs i"
  shows "\<exists>vs'. set_loop f j vs = Inr vs' \<and> length vs' = length vs \<and> drop c vs' = drop c vs \<and>
    (\<forall>i. 0 < i \<and> i < c \<longrightarrow> node_ok f vs' i)"
  using assms
proof (induction j arbitrary: vs rule: less_induct)
  case (less j)
  show ?case
  proof (cases "j = 0")
    case True
    then show ?thesis using less.prems by (simp add: set_loop.simps)
  next
    case False
    let ?vs = "vs[j := f (vs ! (2 * j)) (vs ! (2 * j + 1))]"
    have step: "set_loop f j vs = set_loop f (j div 2) ?vs"
      using False less.prems(1,2) by (subst set_loop.simps) simp
    have ok: "node_ok f ?vs i" if i: "0 < i" "i < c" "\<forall>d. i \<noteq> (j div 2) div 2 ^ d" for i
    proof (cases "i = j")
      case True
      then show ?thesis using less.prems(1,2) False by (simp add: node_ok_def)
    next
      case no: False
      have "i \<noteq> j div 2" using i(3) by (metis div_by_1 power_0)
      then have "2 * i \<noteq> j" "2 * i + 1 \<noteq> j" by auto
      moreover have "i \<noteq> j div 2 ^ d" for d
        using no i(3) by (cases d) (simp_all add: div_mult2_eq)
      then have "node_ok f vs i" using less.prems(3) i(1,2) by blast
      ultimately show ?thesis using no by (simp add: node_ok_def)
    qed
    have "j div 2 < j" "j div 2 < c" "length ?vs = 2 * c" using False less.prems(1,2) by auto
    from less.IH [OF this ok] obtain vs' where "set_loop f (j div 2) ?vs = Inr vs'" "length vs' = length ?vs"
      "drop c vs' = drop c ?vs" "\<forall>i. 0 < i \<and> i < c \<longrightarrow> node_ok f vs' i" by blast
    then show ?thesis using step less.prems(1) by simp
  qed
qed

lemma tree_set_ok:
  assumes inv: "tree_inv f e k t" and idx: "0 \<le> idx" "idx < 2 ^ k"
  shows "\<exists>t'. tree_set idx v t = Inr t' \<and> tree_inv f e k t' \<and> leaves t' = (leaves t)[nat idx := v]"
proof -
  let ?c = "2 ^ k :: nat" and ?i = "nat idx"
  have t: "st_operation t = f" "st_capacity t = int ?c" "length (st_value t) = 2 * ?c"
    "\<forall>i. 0 < i \<and> i < ?c \<longrightarrow> node_ok f (st_value t) i" using inv by (simp_all add: tree_inv_def)
  have i: "idx = int ?i" "?i < ?c" using idx by (simp_all add: nat_less_iff)
  let ?vs = "(st_value t)[?i + ?c := v]" and ?j = "(?i + ?c) div 2"
  have set: "py_set (st_value t) (idx + st_capacity t) v = Inr ?vs"
    using py_set_nat [of "?i + ?c" "st_value t" v] i t(2,3) by simp
  have ok: "node_ok f ?vs m" if m: "0 < m" "m < ?c" "\<forall>d. m \<noteq> ?j div 2 ^ d" for m
  proof -
    have "m \<noteq> ?j" using m(3) by (metis div_by_1 power_0)
    then have "2 * m \<noteq> ?i + ?c" "2 * m + 1 \<noteq> ?i + ?c" "m \<noteq> ?i + ?c" using m(2) by auto
    then show ?thesis using t(4) m(1,2) by (simp add: node_ok_def)
  qed
  have "?j < ?c" using i(2) by linarith
  have len: "length ?vs = 2 * ?c" using t(3) by simp
  from set_loop_ok [OF \<open>?j < ?c\<close> len ok] obtain vs' where vs': "set_loop f ?j ?vs = Inr vs'" "length vs' = 2 * ?c"
    "drop ?c vs' = drop ?c ?vs" "\<forall>m. 0 < m \<and> m < ?c \<longrightarrow> node_ok f vs' m" unfolding len by blast
  have "nat (idx + st_capacity t) = ?i + ?c" using i t(2) by linarith
  then have run: "tree_set idx v t = Inr (t\<lparr>st_value := vs'\<rparr>)"
    using set vs'(1) idx t(1,2) by (simp add: tree_set_def)
  have "drop ?c ?vs = (drop ?c (st_value t))[?i := v]" using t(3) by (simp add: drop_update_swap)
  then have "leaves (t\<lparr>st_value := vs'\<rparr>) = (leaves t)[?i := v]" using vs'(3) t(2) by (simp add: leaves_def)
  moreover have "tree_inv f e k (t\<lparr>st_value := vs'\<rparr>)" using inv vs'(2,4) by (simp add: tree_inv_def)
  ultimately show ?thesis using run by blast
qed

lemma tree_init_ok:
  assumes "tree_init c f e = Inr t" and "f e e = e"
  shows "\<exists>k. c = 2 ^ k \<and> tree_inv f e k t \<and> leaves t = replicate (2 ^ k) e"
proof -
  have c: "c > 0" "c AND (c - 1) = 0"
    and t: "t = \<lparr>st_capacity = c, st_neutral = e, st_value = replicate (nat (2 * c)) e, st_operation = f\<rparr>"
    using assms(1) by (auto simp: tree_init_def split: if_splits)
  from power_of_two_iff [OF c] obtain k where k: "c = 2 ^ k" by blast
  have "nat (2 * c) = 2 * 2 ^ k" unfolding k by (simp add: nat_mult_distrib)
  then show ?thesis using assms(2) by (intro exI [of _ k]) (simp add: t k tree_inv_def leaves_def node_ok_def)
qed

subsection \<open>Reducing a range\<close>

text \<open>What the operation has to satisfy. The class asks for a group, but neither inverses nor anything
  less than commutativity would do: right parts of the range are added in reverse.\<close>

locale reduction =
  fixes f :: "'v \<Rightarrow> 'v \<Rightarrow> 'v" and e :: 'v
  assumes assoc: "f (f x y) z = f x (f y z)" and commute: "f x y = f y x" and neutral: "f e x = x"
begin

lemma neutral_right: "f x e = x"
  by (subst commute) (rule neutral)

lemma left_commute: "f x (f y z) = f y (f x z)"
  by (metis assoc commute)

lemma foldr_join: "foldr f (xs @ ys) e = f (foldr f xs e) (foldr f ys e)"
  by (induction xs) (simp_all add: neutral assoc)

lemma foldr_pairs:
  "foldr f (map v [2 * a..<2 * b]) e = foldr f (map (\<lambda>i. f (v (2 * i)) (v (2 * i + 1))) [a..<b]) e"
proof (induction b)
  case (Suc b)
  show ?case
  proof (cases "a \<le> b")
    case True
    then have "[2 * a..<2 * Suc b] = [2 * a..<2 * b] @ [2 * b, 2 * b + 1]" by simp
    moreover have "[a..<Suc b] = [a..<b] @ [b]" using True by simp
    ultimately show ?thesis using Suc by (simp only: map_append foldr_join) (simp add: neutral_right)
  qed simp
qed simp

lemma range_split:
  assumes "s < (t::nat)"
  shows "[s..<t] = (if odd s then [s] else []) @ [2 * ((s + 1) div 2)..<2 * (t div 2)] @ (if odd t then [t - 1] else [])"
proof -
  have a: "[s..<t] = (if odd s then [s] else []) @ [2 * ((s + 1) div 2)..<t]"
    using assms by (auto simp: upt_conv_Cons elim!: oddE evenE)
  have "[u..<t] = [u..<2 * (t div 2)] @ (if odd t then [t - 1] else [])" if "u \<le> 2 * (t div 2)" for u
    using that by (auto elim!: oddE evenE)
  then show ?thesis unfolding a using assms by (auto elim!: oddE evenE)
qed

lemma reduce_loop_ok:
  assumes "length vs = 2 * c" and "\<And>i. 0 < i \<Longrightarrow> i < c \<Longrightarrow> node_ok f vs i" and "0 < s" and "t \<le> 2 * c"
  shows "reduce_loop f vs (int s) (int t) res = Inr (f res (foldr f (map (\<lambda>i. vs ! i) [s..<t]) e))"
  using assms(3,4)
proof (induction "t - s" arbitrary: s t res rule: less_induct)
  case less
  show ?case
  proof (cases "s < t")
    case True
    let ?s = "(s + 1) div 2" and ?t = "t div 2"
    let ?v = "\<lambda>i. vs ! i"
    let ?l = "if odd s then f res (?v s) else res"
    let ?r = "if odd t then f ?l (?v (t - 1)) else ?l"
    have g: "py_get vs (int s) = Inr (?v s)" "py_get vs (int t - 1) = Inr (?v (t - 1))"
      using True less.prems assms(1) py_get_nat [of "t - 1" vs] by (simp_all add: of_nat_diff)
    have "int (s + 1) div 2 = int ?s" "int t div 2 = int ?t" "odd s \<or> int s div 2 = int ?s" "even t \<or> (int t - 1) div 2 = int ?t"
      by presburger+
    then have "reduce_step f vs (int s) (int t) res = Inr (int ?s, int ?t, ?r)"
      using g by (auto simp: reduce_step_def)
    then have "reduce_loop f vs (int s) (int t) res = reduce_loop f vs (int ?s) (int ?t) ?r"
      using True by (subst reduce_loop.simps) simp
    also have "\<dots> = Inr (f ?r (foldr f (map ?v [?s..<?t]) e))"
      using less.hyps [of ?t ?s ?r] less.prems True by simp
    also have "foldr f (map ?v [?s..<?t]) e = foldr f (map (\<lambda>i. f (?v (2 * i)) (?v (2 * i + 1))) [?s..<?t]) e"
    proof -
      have "f (?v (2 * i)) (?v (2 * i + 1)) = ?v i" if "i \<in> set [?s..<?t]" for i
      proof -
        have "0 < i" "i < c" using that less.prems by auto
        then show ?thesis using assms(2) [of i] by (simp add: node_ok_def)
      qed
      then have "map (\<lambda>i. f (?v (2 * i)) (?v (2 * i + 1))) [?s..<?t] = map ?v [?s..<?t]" by (intro map_cong) auto
      then show ?thesis by (simp only:)
    qed
    also have "\<dots> = foldr f (map ?v [2 * ?s..<2 * ?t]) e" by (rule foldr_pairs [symmetric])
    also have "f ?r \<dots> = f res (foldr f (map ?v [s..<t]) e)"
      unfolding range_split [OF True] map_append foldr_join
      by (simp add: neutral neutral_right assoc commute left_commute)
    finally show ?thesis .
  qed (simp add: reduce_loop.simps neutral_right)
qed

lemma tree_reduce_ok:
  assumes inv: "tree_inv f e k t" and r: "s \<le> u" "u \<le> length (leaves t)"
  shows "tree_reduce (int s) (Some (int u)) t = Inr (foldr f (take (u - s) (drop s (leaves t))) e)"
proof -
  let ?c = "2 ^ k :: nat" and ?vs = "st_value t"
  have t: "st_operation t = f" "st_neutral t = e" "st_capacity t = int ?c" "length ?vs = 2 * ?c"
    "\<And>i. 0 < i \<Longrightarrow> i < ?c \<Longrightarrow> node_ok f ?vs i" using inv by (simp_all add: tree_inv_def)
  have u: "u \<le> ?c" using r(2) t(3,4) by (simp add: leaves_def)
  have "tree_reduce (int s) (Some (int u)) t = reduce_loop f ?vs (int (s + ?c)) (int (u + ?c)) e"
    using t(1-3) by (simp add: tree_reduce_def)
  also have "\<dots> = Inr (f e (foldr f (map (\<lambda>i. ?vs ! i) [s + ?c..<u + ?c]) e))"
    using u by (intro reduce_loop_ok [OF t(4,5)]) auto
  also have "map (\<lambda>i. ?vs ! i) [s + ?c..<u + ?c] = take (u - s) (drop s (leaves t))"
    using r u t(3,4) by (intro nth_equalityI) (simp_all add: leaves_def add_ac)
  finally show ?thesis by (simp only: neutral)
qed

end

interpretation sum_op: reduction "(+)" "0 :: rat"
  by unfold_locales simp_all

interpretation min_op: reduction min PosInf
  by unfold_locales (simp_all add: ac_simps)

subsection \<open>A tree is an array\<close>

text \<open>Writing a sequence of values to a tree and to an array.\<close>

definition tree_sets :: "(int \<times> 'v) list \<Rightarrow> 'v segment_tree \<Rightarrow> 'v segment_tree result" where
  "tree_sets ups t = rfold (\<lambda>(i, v). tree_set i v) ups t"

definition array_sets :: "(int \<times> 'v) list \<Rightarrow> 'v list \<Rightarrow> 'v list" where
  "array_sets ups xs = fold (\<lambda>(i, v) xs. xs[nat i := v]) ups xs"

lemma length_array_sets [simp]: "length (array_sets ups xs) = length xs"
  by (induction ups arbitrary: xs) (auto simp: array_sets_def)

lemma tree_sets_ok:
  assumes "tree_inv f e k t" and "\<forall>(i, v)\<in>set ups. 0 \<le> i \<and> i < 2 ^ k"
  shows "\<exists>t'. tree_sets ups t = Inr t' \<and> tree_inv f e k t' \<and> leaves t' = array_sets ups (leaves t)"
  using assms
proof (induction ups arbitrary: t)
  case (Cons u ups)
  obtain i v where u: "u = (i, v)" by (cases u)
  have i: "0 \<le> i" "i < 2 ^ k" using Cons.prems(2) u by simp_all
  from tree_set_ok [OF Cons.prems(1) i, of v] obtain t1 where
    t1: "tree_set i v t = Inr t1" "tree_inv f e k t1" "leaves t1 = (leaves t)[nat i := v]" by blast
  have "\<forall>(i, v)\<in>set ups. 0 \<le> i \<and> i < 2 ^ k" using Cons.prems(2) by simp
  from Cons.IH [OF t1(2) this] t1 show ?case by (simp add: u tree_sets_def array_sets_def)
qed (simp add: tree_sets_def array_sets_def)

lemma tree_get_ok:
  assumes "tree_inv f e k t" and "i < length (leaves t)"
  shows "tree_get (int i) t = Inr (leaves t ! i)"
proof -
  have t: "st_capacity t = int (2 ^ k)" "length (st_value t) = 2 * 2 ^ k" using assms(1) by (simp_all add: tree_inv_def)
  then have "i < 2 ^ k" using assms(2) by (simp add: leaves_def)
  then show ?thesis
    using t py_get_nat [of "i + 2 ^ k" "st_value t"] by (simp add: tree_get_def leaves_def add.commute)
qed

text \<open>C34: A segment tree behaves as an array with range reductions. After any writes in range to a new
  tree, reading an index gives the value last written there and reducing a range gives the
  operation folded over that range of the array, for every operation that is associative and
  commutative with the given neutral element. All writes and reads succeed.\<close>

theorem segment_tree_is_array:
  assumes "\<And>x y z. f (f x y) z = f x (f y z)" and "\<And>x y. f x y = f y x" and "\<And>x. f e x = x"
    and "tree_init c f e = Inr t" and "\<forall>(i, v)\<in>set ups. 0 \<le> i \<and> i < c"
  shows "\<exists>t'. tree_sets ups t = Inr t' \<and>
    (\<forall>i. 0 \<le> i \<and> i < c \<longrightarrow> tree_get i t' = Inr (array_sets ups (replicate (nat c) e) ! nat i)) \<and>
    (\<forall>s u. 0 \<le> s \<and> s \<le> u \<and> u \<le> c \<longrightarrow> tree_reduce s (Some u) t' =
      Inr (foldr f (take (nat (u - s)) (drop (nat s) (array_sets ups (replicate (nat c) e)))) e))"
proof -
  have red: "reduction f e" using assms(1-3) by unfold_locales
  from tree_init_ok [OF assms(4)] assms(3) obtain k where k: "c = 2 ^ k" "tree_inv f e k t" "leaves t = replicate (2 ^ k) e" by blast
  from tree_sets_ok [OF k(2)] assms(5) k(1) obtain t' where
    t': "tree_sets ups t = Inr t'" "tree_inv f e k t'" "leaves t' = array_sets ups (replicate (2 ^ k) e)" unfolding k(3) by blast
  have c: "nat c = 2 ^ k" "length (leaves t') = 2 ^ k" using k(1) t'(3) by simp_all
  have "tree_get i t' = Inr (leaves t' ! nat i)" if "0 \<le> i" "i < c" for i
  proof -
    have "nat i < length (leaves t')" using that k(1) c by (simp add: nat_less_iff)
    from tree_get_ok [OF t'(2) this] that show ?thesis by simp
  qed
  moreover have "tree_reduce s (Some u) t' = Inr (foldr f (take (nat (u - s)) (drop (nat s) (leaves t'))) e)"
    if "0 \<le> s" "s \<le> u" "u \<le> c" for s u
  proof -
    have "nat s \<le> nat u" "nat u \<le> length (leaves t')" using that k(1) c by (simp_all add: nat_le_iff)
    from reduction.tree_reduce_ok [OF red t'(2) this] that show ?thesis by (simp add: nat_diff_distrib)
  qed
  ultimately show ?thesis using t'(1) unfolding t'(3) c by blast
qed

theorem segment_tree_is_array_witness:
  "\<exists>t t'. min_tree_init 4 = Inr t \<and> tree_sets [(2, Fin 3), (0, Fin 5), (2, Fin 1)] t = Inr t' \<and>
    tree_reduce 0 (Some 3) t' = Inr (Fin 1) \<and> tree_get 2 t' = Inr (Fin 1)"
proof -
  obtain t where t: "tree_init 4 min PosInf = Inr t" by (simp add: tree_init_def and_int_rec)
  have "\<exists>t'. tree_sets [(2, Fin 3), (0, Fin 5), (2, Fin 1)] t = Inr t' \<and>
      tree_get 2 t' = Inr (array_sets [(2, Fin 3), (0, Fin 5), (2, Fin 1)] (replicate (nat 4) PosInf) ! nat 2) \<and>
      tree_reduce 0 (Some 3) t' = Inr (foldr min (take (nat (3 - 0)) (drop (nat 0)
        (array_sets [(2, Fin 3), (0, Fin 5), (2, Fin 1)] (replicate (nat 4) PosInf)))) PosInf)"
    using segment_tree_is_array [of min PosInf 4 t "[(2, Fin 3), (0, Fin 5), (2, Fin 1)]"] t
    by (auto simp: ac_simps)
  moreover have "array_sets [(2, Fin 3), (0, Fin 5), (2, Fin 1)] (replicate (nat 4) PosInf) ! nat 2 = Fin 1" by code_simp
  moreover have "foldr min (take (nat (3 - 0)) (drop (nat 0)
      (array_sets [(2, Fin 3), (0, Fin 5), (2, Fin 1)] (replicate (nat 4) PosInf)))) PosInf = Fin 1" by code_simp
  ultimately show ?thesis using t by (auto simp: min_tree_init_def)
qed

subsection \<open>Finding a prefix sum\<close>

text \<open>The mass of the array cells of the tree from \<open>a\<close> to \<open>b\<close>.\<close>

definition mass :: "rat list \<Rightarrow> nat \<Rightarrow> nat \<Rightarrow> rat" where
  "mass vs a b = sum_list (map (\<lambda>i. vs ! i) [a..<b])"

lemma mass_split: "a \<le> b \<Longrightarrow> b \<le> d \<Longrightarrow> mass vs a d = mass vs a b + mass vs b d"
proof -
  assume "a \<le> b" "b \<le> d"
  then have "[a..<d] = [a..<b] @ [b..<d]" by (metis le_add_diff_inverse upt_add_eq_append)
  then show ?thesis by (simp add: mass_def)
qed

lemma le_times_power: "(n :: nat) \<le> n * 2 ^ h"
  using mult_le_mono2 [of 1 "2 ^ h" n] by simp

lemma node_mass:
  assumes ok: "\<And>i. 0 < i \<Longrightarrow> i < c \<Longrightarrow> node_ok (+) vs i"
  shows "0 < i \<Longrightarrow> (i + 1) * 2 ^ h \<le> 2 * c \<Longrightarrow> vs ! i = mass vs (i * 2 ^ h) ((i + 1) * 2 ^ h)"
proof (induction h arbitrary: i)
  case 0
  then show ?case by (simp add: mass_def)
next
  case (Suc h)
  have "i + 1 \<le> (i + 1) * 2 ^ h" by (rule le_times_power)
  also have "\<dots> \<le> c" using Suc.prems(2) by simp
  finally have "vs ! i = vs ! (2 * i) + vs ! (2 * i + 1)" using ok Suc.prems(1) by (simp add: node_ok_def)
  also have "vs ! (2 * i) = mass vs (2 * i * 2 ^ h) ((2 * i + 1) * 2 ^ h)"
    using Suc.prems by (intro Suc.IH) (simp_all add: algebra_simps)
  also have "vs ! (2 * i + 1) = mass vs ((2 * i + 1) * 2 ^ h) ((2 * i + 1 + 1) * 2 ^ h)"
    using Suc.prems by (intro Suc.IH) (simp_all add: algebra_simps)
  also have "mass vs (2 * i * 2 ^ h) ((2 * i + 1) * 2 ^ h) + mass vs ((2 * i + 1) * 2 ^ h) ((2 * i + 1 + 1) * 2 ^ h) =
      mass vs (2 * i * 2 ^ h) ((2 * i + 1 + 1) * 2 ^ h)" by (rule mass_split [symmetric]) simp_all
  finally show ?case by (simp add: algebra_simps)
qed

lemma find_loop_ok:
  assumes ok: "\<And>i. 0 < i \<Longrightarrow> i < c \<Longrightarrow> node_ok (+) vs i" and len: "length vs = 2 * c"
  shows "0 < i \<Longrightarrow> c \<le> i * 2 ^ h \<Longrightarrow> (i + 1) * 2 ^ h \<le> 2 * c \<Longrightarrow> 0 \<le> p \<Longrightarrow> p < vs ! i \<Longrightarrow>
    \<exists>r. find_loop vs c i p = Inr r \<and> i * 2 ^ h \<le> r \<and> r < (i + 1) * 2 ^ h \<and>
      mass vs (i * 2 ^ h) r \<le> p \<and> p < mass vs (i * 2 ^ h) (r + 1)"
proof (induction h arbitrary: i p)
  case 0
  then show ?case by (intro exI [of _ i]) (simp add: find_loop.simps mass_def)
next
  case (Suc h)
  have "i + 1 \<le> (i + 1) * 2 ^ h" by (rule le_times_power)
  also have "\<dots> \<le> c" using Suc.prems(3) by simp
  finally have i: "i < c" by simp
  have g: "py_get vs (2 * int i) = Inr (vs ! (2 * i))" using i len by simp
  have le: "(2 * i + 1) * 2 ^ h \<le> 2 * c" using Suc.prems(3) by (simp add: algebra_simps)
  have left: "vs ! (2 * i) = mass vs (2 * i * 2 ^ h) ((2 * i + 1) * 2 ^ h)"
    by (rule node_mass [OF ok _ le]) (use Suc.prems(1) in simp_all)
  show ?case
  proof (cases "vs ! (2 * i) > p")
    case True
    then have "find_loop vs c i p = find_loop vs c (2 * i) p" using g i Suc.prems(1) by (subst find_loop.simps) simp
    moreover from Suc.IH [of "2 * i" p] Suc.prems True obtain r where
      "find_loop vs c (2 * i) p = Inr r" "2 * i * 2 ^ h \<le> r" "r < (2 * i + 1) * 2 ^ h"
      "mass vs (2 * i * 2 ^ h) r \<le> p" "p < mass vs (2 * i * 2 ^ h) (r + 1)" by (auto simp: algebra_simps)
    ultimately show ?thesis by (intro exI [of _ r]) (simp add: algebra_simps)
  next
    case False
    have "vs ! i = vs ! (2 * i) + vs ! (2 * i + 1)" using ok [of i] i Suc.prems(1) by (simp add: node_ok_def)
    then have p: "0 \<le> p - vs ! (2 * i)" "p - vs ! (2 * i) < vs ! (2 * i + 1)" using False Suc.prems(5) by linarith+
    have "find_loop vs c i p = find_loop vs c (2 * i + 1) (p - vs ! (2 * i))"
      using g i False Suc.prems(1) by (subst find_loop.simps) simp
    moreover from Suc.IH [of "2 * i + 1", OF _ _ _ p] Suc.prems(1-3) obtain r where
      r: "find_loop vs c (2 * i + 1) (p - vs ! (2 * i)) = Inr r" "(2 * i + 1) * 2 ^ h \<le> r" "r < (2 * i + 1 + 1) * 2 ^ h"
      "mass vs ((2 * i + 1) * 2 ^ h) r \<le> p - vs ! (2 * i)" "p - vs ! (2 * i) < mass vs ((2 * i + 1) * 2 ^ h) (r + 1)"
      by (auto simp: algebra_simps)
    moreover have "mass vs (2 * i * 2 ^ h) x = vs ! (2 * i) + mass vs ((2 * i + 1) * 2 ^ h) x" if "(2 * i + 1) * 2 ^ h \<le> x" for x
      unfolding left by (rule mass_split) (use that in simp_all)
    from this [of r] this [of "r + 1"] r have "mass vs (2 * i * 2 ^ h) r \<le> p" "p < mass vs (2 * i * 2 ^ h) (r + 1)" by auto
    ultimately show ?thesis by (intro exI [of _ r]) (simp add: algebra_simps)
  qed
qed

lemma mass_leaves:
  assumes "tree_inv f e k t" and "i \<le> 2 ^ k"
  shows "mass (st_value t) (2 ^ k) (2 ^ k + i) = sum_list (take i (leaves t))"
proof -
  have t: "st_capacity t = int (2 ^ k)" "length (st_value t) = 2 * 2 ^ k" using assms(1) by (simp_all add: tree_inv_def)
  have "map (\<lambda>j. st_value t ! j) [2 ^ k..<2 ^ k + i] = take i (leaves t)"
    using assms(2) t by (intro nth_equalityI) (simp_all add: leaves_def)
  then show ?thesis by (simp only: mass_def)
qed

lemma foldr_plus: "foldr (+) xs 0 = (sum_list xs :: rat)"
  by (induction xs) simp_all

lemma find_prefixsum_ok:
  assumes inv: "tree_inv (+) 0 k t" and p: "0 \<le> p" "p < sum_list (leaves t)"
  shows "\<exists>i. find_prefixsum_idx p t = Inr (int i) \<and> i < length (leaves t) \<and>
    sum_list (take i (leaves t)) \<le> p \<and> p < sum_list (take (i + 1) (leaves t))"
proof -
  let ?c = "2 ^ k :: nat" and ?vs = "st_value t"
  have t: "st_capacity t = int ?c" "length ?vs = 2 * ?c" "\<And>i. 0 < i \<Longrightarrow> i < ?c \<Longrightarrow> node_ok (+) ?vs i"
    using inv by (simp_all add: tree_inv_def)
  have len: "length (leaves t) = ?c" using t by (simp add: leaves_def)
  have sum: "tree_sum 0 None t = Inr (sum_list (leaves t))"
    using sum_op.tree_reduce_ok [OF inv, of 0 "length (leaves t)"] len t(1)
    by (simp add: tree_sum_def tree_reduce_def foldr_plus)
  have root: "?vs ! 1 = sum_list (leaves t)"
    using node_mass [OF t(3), where i = 1 and h = k] mass_leaves [OF inv, of "?c"] len by (simp add: mult_2)
  have "1 < length ?vs" using t(2) one_le_power [of "2 :: nat" k] by linarith
  then have "py_get ?vs 1 = Inr (?vs ! 1)" using py_get_nat [of 1 ?vs] by simp
  moreover from find_loop_ok [OF t(3,2), where i = 1 and h = k and p = p] p root obtain r where
    r: "find_loop ?vs ?c 1 p = Inr r" "?c \<le> r" "r < 2 * ?c" "mass ?vs ?c r \<le> p" "p < mass ?vs ?c (r + 1)"
    by (auto simp: mult_2)
  ultimately have "find_prefixsum_idx p t = Inr (int (r - ?c))"
    using p sum root t(1) by (simp add: find_prefixsum_idx_def Let_def of_nat_diff)
  moreover have "r - ?c < length (leaves t)" using r(2,3) len by simp
  moreover have "sum_list (take (r - ?c) (leaves t)) \<le> p" "p < sum_list (take (r - ?c + 1) (leaves t))"
    using r mass_leaves [OF inv, of "r - ?c"] mass_leaves [OF inv, of "r - ?c + 1"] by simp_all
  ultimately show ?thesis by blast
qed

text \<open>C35: \<open>find_prefixsum_idx\<close> on a sum tree returns the cell in which the mass \<open>p\<close> falls: the values
  before it sum up to at most \<open>p\<close>, and with its own value the sum exceeds \<open>p\<close>. So a cell is
  found with a probability proportional to its value, and a cell with value 0 never.\<close>

theorem find_prefixsum_correct:
  assumes "sum_tree_init c = Inr t" and "\<forall>(i, v)\<in>set ups. 0 \<le> i \<and> i < c"
    and "0 \<le> p" and "p < sum_list (array_sets ups (replicate (nat c) 0))"
  shows "\<exists>t' i. tree_sets ups t = Inr t' \<and> find_prefixsum_idx p t' = Inr (int i) \<and> int i < c \<and>
    sum_list (take i (array_sets ups (replicate (nat c) 0))) \<le> p \<and>
    p < sum_list (take (i + 1) (array_sets ups (replicate (nat c) 0)))"
proof -
  from tree_init_ok [OF assms(1) [unfolded sum_tree_init_def]] obtain k where
    k: "c = 2 ^ k" "tree_inv (+) 0 k t" "leaves t = replicate (2 ^ k) 0" by auto
  from tree_sets_ok [OF k(2)] assms(2) k(1) obtain t' where
    t': "tree_sets ups t = Inr t'" "tree_inv (+) 0 k t'" "leaves t' = array_sets ups (replicate (2 ^ k) 0)"
    unfolding k(3) by blast
  have n: "nat c = 2 ^ k" using k(1) by simp
  from find_prefixsum_ok [OF t'(2) assms(3)] assms(4) obtain i where
    i: "find_prefixsum_idx p t' = Inr (int i)" "i < length (leaves t')" "sum_list (take i (leaves t')) \<le> p"
      "p < sum_list (take (i + 1) (leaves t'))" unfolding t'(3) n by blast
  have "int i < c" using i(2) n k(1) by (simp add: t'(3))
  then show ?thesis using t'(1) i unfolding t'(3) n by blast
qed

theorem find_prefixsum_correct_witness:
  "\<exists>t t' i. sum_tree_init 4 = Inr t \<and> tree_sets [(0, 2), (2, 3), (3, 1/2)] t = Inr t' \<and>
    find_prefixsum_idx (7/2) t' = Inr (int i) \<and> sum_list (take i [2, 0, 3, 1/2 :: rat]) \<le> 7/2 \<and>
    7/2 < sum_list (take (i + 1) [2, 0, 3, 1/2 :: rat])"
proof -
  obtain t where t: "sum_tree_init 4 = Inr t" by (simp add: sum_tree_init_def tree_init_def and_int_rec)
  have a: "array_sets [(0, 2), (2, 3), (3, 1/2)] (replicate (nat 4) 0) = [2, 0, 3, 1/2 :: rat]"
    by (simp add: array_sets_def numeral_eq_Suc)
  from find_prefixsum_correct [OF t, of "[(0, 2), (2, 3), (3, 1/2)]" "7/2"] show ?thesis
    unfolding a using t by auto
qed

end
