(* ===== verification/Prioritized_Replay.thy ===== *)
theory Prioritized_Replay
  imports Replay_Buffer Segment_Tree
begin

section \<open>RLlib: prioritized replay\<close>

text \<open>
  Models \<open>ray/rllib/utils/replay_buffers/prioritized_replay_buffer.py\<close> on top of the replay buffer and
  the segment trees. Powers of floats are arguments: \<open>powa\<close> is \<open>w ** alpha\<close>, \<open>npow\<close> is \<open>x ** (-beta)\<close>,
  where the theorems assume what every positive exponent gives. Random numbers are arguments.
\<close>

subsection \<open>State and operations\<close>

record 'i prio_buffer =
  pr_base :: "'i replay_buffer"
  pr_it_sum :: "rat segment_tree"
  pr_it_min :: "pfloat segment_tree"
  pr_max_priority :: rat
  pr_change_stats :: "rat window_stat"

text \<open>The loop that finds a power of two of at least the capacity.\<close>

function pow2_from :: "nat \<Rightarrow> nat \<Rightarrow> nat" where
  "pow2_from it capacity = (if 0 < it \<and> it < capacity then pow2_from (it * 2) capacity else it)"
  by pat_completeness auto
termination pow2_from
  by (relation "measure (\<lambda>(it, capacity). capacity - it)") auto

declare pow2_from.simps [simp del]

definition prio_init :: "int \<Rightarrow> string \<Rightarrow> rat \<Rightarrow> 'i prio_buffer result" where
  "prio_init capacity unit_name alpha =
     rbind (replay_init capacity unit_name) (\<lambda>b.
       if \<not> alpha > 0 then Inl (AssertionError ''alpha > 0'')
       else (let it_capacity = int (pow2_from 1 (nat (rp_capacity b)))
             in rbind (sum_tree_init it_capacity) (\<lambda>s.
                  rbind (min_tree_init it_capacity) (\<lambda>m.
                    Inr \<lparr>pr_base = b, pr_it_sum = s, pr_it_min = m, pr_max_priority = 1,
                         pr_change_stats = window_init 1000\<rparr>))))"

definition prio_add_single ::
    "(rat \<Rightarrow> rat) \<Rightarrow> ('i \<Rightarrow> nat) \<Rightarrow> ('i \<Rightarrow> int) \<Rightarrow> rat option \<Rightarrow> 'i \<Rightarrow> 'i prio_buffer \<Rightarrow> 'i prio_buffer result" where
  "prio_add_single powa cnt nbytes weight item b =
     (let w = (case weight of None \<Rightarrow> pr_max_priority b | Some w \<Rightarrow> w); i = int (rp_next_idx (pr_base b))
      in rbind (tree_set i (powa w) (pr_it_sum b)) (\<lambda>s.
           rbind (tree_set i (Fin (powa w)) (pr_it_min b)) (\<lambda>m.
             rbind (add_single_batch cnt nbytes item (pr_base b)) (\<lambda>base.
               Inr (b\<lparr>pr_base := base, pr_it_sum := s, pr_it_min := m\<rparr>)))))"

definition sample_proportional :: "rat list \<Rightarrow> 'i prio_buffer \<Rightarrow> int list result" where
  "sample_proportional rnd b =
     rmap (\<lambda>r. rbind (tree_sum 0 (Some (int (length (rp_storage (pr_base b))))) (pr_it_sum b)) (\<lambda>s.
       find_prefixsum_idx (r * s) (pr_it_sum b))) rnd"

definition fdiv :: "rat \<Rightarrow> rat \<Rightarrow> rat result" where
  "fdiv x y = (if y = 0 then Inl ZeroDivisionError else Inr (x / y))"

text \<open>The weight of each sampled index before it is repeated for the steps of the item.\<close>

definition sample_weights :: "(rat \<Rightarrow> rat) \<Rightarrow> int list \<Rightarrow> 'i prio_buffer \<Rightarrow> rat list result" where
  "sample_weights npow idxes b =
     (let n = of_nat (length (rp_storage (pr_base b)))
      in rbind (tree_min 0 None (pr_it_min b)) (\<lambda>mn.
           case mn of
             Fin m \<Rightarrow>
               rbind (tree_sum 0 None (pr_it_sum b)) (\<lambda>s.
                 rbind (fdiv m s) (\<lambda>p_min.
                   let max_weight = npow (p_min * n)
                   in rmap (\<lambda>idx. rbind (tree_get idx (pr_it_sum b)) (\<lambda>v.
                        rbind (fdiv v s) (\<lambda>p_sample. fdiv (npow (p_sample * n)) max_weight))) idxes))
           | _ \<Rightarrow> Inl (Unsupported ''infinite minimum'')))"

definition prio_sample ::
    "(rat \<Rightarrow> rat) \<Rightarrow> ('i \<Rightarrow> nat) \<Rightarrow> rat \<Rightarrow> rat list \<Rightarrow> 'i prio_buffer
     \<Rightarrow> (('i list \<times> rat list \<times> int list) \<times> 'i prio_buffer) result" where
  "prio_sample npow cnt beta rnd b =
     (if \<not> beta \<ge> 0 then Inl (AssertionError ''beta >= 0.0'')
      else if rp_storage (pr_base b) = [] then Inl (ValueError ''Trying to sample from an empty buffer.'')
      else rbind (sample_proportional rnd b) (\<lambda>idxes.
        rbind (sample_weights npow idxes b) (\<lambda>ws.
          rbind (rmap (\<lambda>i. rbind (py_get (rp_storage (pr_base b)) i) (\<lambda>x. Inr (cnt x))) idxes) (\<lambda>cs.
            let base = (pr_base b)\<lparr>rp_num_timesteps_sampled := rp_num_timesteps_sampled (pr_base b) + sum_list cs\<rparr>
            in rbind (encode_sample (map nat idxes) base) (\<lambda>(xs, base').
                 Inr ((xs, concat (map2 replicate cs ws), concat (map2 replicate cs idxes)), b\<lparr>pr_base := base'\<rparr>))))))"

text \<open>One round of \<open>update_priorities\<close>.\<close>

definition update_priority :: "(rat \<Rightarrow> rat) \<Rightarrow> int \<times> rat \<Rightarrow> 'i prio_buffer \<Rightarrow> 'i prio_buffer result" where
  "update_priority powa ip b =
     (case ip of (idx, priority) \<Rightarrow>
       if \<not> priority > 0 then Inl (AssertionError ''priority > 0'')
       else if \<not> (0 \<le> idx \<and> idx < int (length (rp_storage (pr_base b)))) then Inl (AssertionError ''idx'')
       else rbind (tree_get idx (pr_it_sum b)) (\<lambda>old.
         rbind (tree_set idx (powa priority) (pr_it_sum b)) (\<lambda>s.
           rbind (tree_set idx (Fin (powa priority)) (pr_it_min b)) (\<lambda>m.
             Inr (b\<lparr>pr_it_sum := s, pr_it_min := m, pr_max_priority := max (pr_max_priority b) priority,
                    pr_change_stats := window_push (powa priority - old) (pr_change_stats b)\<rparr>)))))"

definition update_priorities :: "(rat \<Rightarrow> rat) \<Rightarrow> int list \<Rightarrow> rat list \<Rightarrow> 'i prio_buffer \<Rightarrow> 'i prio_buffer result" where
  "update_priorities powa idxes priorities b =
     (if length idxes \<noteq> length priorities then Inl (AssertionError ''len(idxes) == len(priorities)'')
      else rfold (update_priority powa) (zip idxes priorities) b)"

record 'i prio_state =
  ps_base :: "'i replay_state"
  ps_sum_segment_tree :: "rat list"
  ps_min_segment_tree :: "pfloat list"
  ps_max_priority :: rat

definition prio_get_state :: "'i prio_buffer \<Rightarrow> 'i prio_state" where
  "prio_get_state b =
     \<lparr>ps_base = replay_get_state (pr_base b), ps_sum_segment_tree = tree_get_state (pr_it_sum b),
      ps_min_segment_tree = tree_get_state (pr_it_min b), ps_max_priority = pr_max_priority b\<rparr>"

definition prio_set_state :: "'i prio_state \<Rightarrow> 'i prio_buffer \<Rightarrow> 'i prio_buffer result" where
  "prio_set_state st b =
     rbind (tree_set_state (ps_sum_segment_tree st) (pr_it_sum b)) (\<lambda>s.
       rbind (tree_set_state (ps_min_segment_tree st) (pr_it_min b)) (\<lambda>m.
         Inr (b\<lparr>pr_base := replay_set_state (ps_base st) (pr_base b), pr_it_sum := s, pr_it_min := m,
                pr_max_priority := ps_max_priority st\<rparr>)))"

subsection \<open>The invariant\<close>

text \<open>The trees hold the same positive priority for every stored item and the neutral elements elsewhere.\<close>

definition slots_ok :: "nat \<Rightarrow> rat list \<Rightarrow> pfloat list \<Rightarrow> bool" where
  "slots_ok n S M \<longleftrightarrow> length S = length M \<and> n \<le> length S \<and>
     (\<forall>i < length S. if i < n then S ! i > 0 \<and> M ! i = Fin (S ! i) else S ! i = 0 \<and> M ! i = PosInf)"

definition prio_inv :: "('i \<Rightarrow> int) \<Rightarrow> nat \<Rightarrow> 'i prio_buffer \<Rightarrow> bool" where
  "prio_inv nbytes k b \<longleftrightarrow> replay_inv nbytes (pr_base b) \<and> tree_inv (+) 0 k (pr_it_sum b) \<and> tree_inv min PosInf k (pr_it_min b) \<and>
     rp_capacity (pr_base b) \<le> 2 ^ k \<and> pr_max_priority b > 0 \<and>
     slots_ok (length (rp_storage (pr_base b))) (leaves (pr_it_sum b)) (leaves (pr_it_min b))"

lemma pow2_from_ok: "0 < it \<Longrightarrow> \<exists>j. pow2_from it c = it * 2 ^ j \<and> c \<le> it * 2 ^ j"
proof (induction it c rule: pow2_from.induct)
  case (1 it c)
  show ?case
  proof (cases "it < c")
    case True
    with 1 obtain j where "pow2_from (it * 2) c = it * 2 * 2 ^ j" "c \<le> it * 2 * 2 ^ j" by auto
    then show ?thesis using True "1.prems" by (intro exI [of _ "Suc j"]) (simp add: pow2_from.simps [of it c] mult.assoc)
  next
    case False
    then show ?thesis by (intro exI [of _ 0]) (simp add: pow2_from.simps [of it c])
  qed
qed

lemma tree_inv_length: "tree_inv f e k t \<Longrightarrow> length (leaves t) = 2 ^ k"
  by (simp add: tree_inv_def leaves_def)

lemma power_two_cancel: "(2::int) ^ k = 2 ^ j \<Longrightarrow> k = j"
  by simp

lemma prio_init_inv:
  assumes "prio_init c u alpha = Inr b"
  shows "\<exists>k. prio_inv nbytes k b \<and> rp_storage (pr_base b) = []"
proof -
  obtain base s m where b: "replay_init c u = Inr base" "sum_tree_init (int (pow2_from 1 (nat (rp_capacity base)))) = Inr s"
    "min_tree_init (int (pow2_from 1 (nat (rp_capacity base)))) = Inr m"
    "b = \<lparr>pr_base = base, pr_it_sum = s, pr_it_min = m, pr_max_priority = 1, pr_change_stats = window_init 1000\<rparr>"
    using assms by (auto simp: prio_init_def rbind_eq_Inr Let_def split: if_splits)
  have base: "replay_inv nbytes base" "rp_storage base = []" using replay_init_inv [OF b(1)] by simp_all
  obtain j where j: "pow2_from 1 (nat (rp_capacity base)) = 2 ^ j" "nat (rp_capacity base) \<le> 2 ^ j"
    using pow2_from_ok [of 1 "nat (rp_capacity base)"] by auto
  from tree_init_ok [OF b(2) [unfolded sum_tree_init_def]] j(1) have s: "tree_inv (+) 0 j s" "leaves s = replicate (2 ^ j) 0" by auto
  from tree_init_ok [OF b(3) [unfolded min_tree_init_def]] j(1) have m: "tree_inv min PosInf j m" "leaves m = replicate (2 ^ j) PosInf" by auto
  have "rp_capacity base \<le> 2 ^ j" using j(2) by (simp add: nat_le_iff)
  then have "prio_inv nbytes j b" using base s m by (simp add: b(4) prio_inv_def slots_ok_def)
  then show ?thesis using base(2) b(4) by auto
qed

lemma slots_update:
  assumes "slots_ok n S M" and "i \<le> n" and "i < length S" and "v > 0"
  shows "slots_ok (if i < n then n else Suc n) (S[i := v]) (M[i := Fin v])"
  using assms by (auto simp: slots_ok_def nth_list_update less_Suc_eq)

lemma trees_set:
  assumes inv: "prio_inv nbytes k b" and i: "0 \<le> i" "i < 2 ^ k" "nat i \<le> length (rp_storage (pr_base b))" and v: "v > 0"
  shows "\<exists>s m. tree_set i v (pr_it_sum b) = Inr s \<and> tree_set i (Fin v) (pr_it_min b) = Inr m \<and>
    tree_inv (+) 0 k s \<and> tree_inv min PosInf k m \<and>
    slots_ok (if nat i < length (rp_storage (pr_base b)) then length (rp_storage (pr_base b)) else Suc (length (rp_storage (pr_base b))))
      (leaves s) (leaves m)"
proof -
  have t: "tree_inv (+) 0 k (pr_it_sum b)" "tree_inv min PosInf k (pr_it_min b)"
    "slots_ok (length (rp_storage (pr_base b))) (leaves (pr_it_sum b)) (leaves (pr_it_min b))"
    using inv by (simp_all add: prio_inv_def)
  from tree_set_ok [OF t(1) i(1,2), of v] obtain s where s: "tree_set i v (pr_it_sum b) = Inr s" "tree_inv (+) 0 k s"
    "leaves s = (leaves (pr_it_sum b))[nat i := v]" by blast
  from tree_set_ok [OF t(2) i(1,2), of "Fin v"] obtain m where m: "tree_set i (Fin v) (pr_it_min b) = Inr m"
    "tree_inv min PosInf k m" "leaves m = (leaves (pr_it_min b))[nat i := Fin v]" by blast
  have "nat i < length (leaves (pr_it_sum b))" using tree_inv_length [OF t(1)] i(1,2) by (simp add: nat_less_iff)
  from slots_update [OF t(3) i(3) this v] s m show ?thesis by auto
qed

lemma prio_add_inv:
  assumes inv: "prio_inv nbytes k b" and c: "0 < cnt item" and p: "\<And>w. w > 0 \<Longrightarrow> powa w > 0"
    and w: "\<And>x. weight = Some x \<Longrightarrow> x > 0"
  shows "\<exists>b'. prio_add_single powa cnt nbytes weight item b = Inr b' \<and> prio_inv nbytes k b' \<and> rp_storage (pr_base b') \<noteq> []"
proof -
  let ?base = "pr_base b" and ?i = "int (rp_next_idx (pr_base b))"
  let ?w = "case weight of None \<Rightarrow> pr_max_priority b | Some w \<Rightarrow> w"
  have base: "replay_inv nbytes ?base" "rp_capacity ?base \<le> 2 ^ k" "pr_max_priority b > 0" using inv by (simp_all add: prio_inv_def)
  have "?i < rp_capacity ?base" "nat ?i \<le> length (rp_storage ?base)"
    using base(1) unfolding replay_inv_def by linarith+
  then have i: "?i < 2 ^ k" "nat ?i \<le> length (rp_storage ?base)" using base(2) by linarith+
  have "powa ?w > 0" using w base(3) by (intro p) (simp split: option.splits)
  from trees_set [OF inv _ i this] obtain s m where sm: "tree_set ?i (powa ?w) (pr_it_sum b) = Inr s"
    "tree_set ?i (Fin (powa ?w)) (pr_it_min b) = Inr m" "tree_inv (+) 0 k s" "tree_inv min PosInf k m"
    "slots_ok (if nat ?i < length (rp_storage ?base) then length (rp_storage ?base) else Suc (length (rp_storage ?base)))
      (leaves s) (leaves m)" by auto
  from add_single_inv [OF base(1), of cnt item] c obtain base' where b': "add_single_batch cnt nbytes item ?base = Inr base'"
    "replay_inv nbytes base'" "rp_capacity base' = rp_capacity ?base"
    "rp_storage base' = (if rp_next_idx ?base < length (rp_storage ?base) then (rp_storage ?base)[rp_next_idx ?base := item]
                     else rp_storage ?base @ [item])" by auto
  have len: "length (rp_storage base') = (if nat ?i < length (rp_storage ?base) then length (rp_storage ?base) else Suc (length (rp_storage ?base)))"
    unfolding b'(4) by simp
  have "prio_add_single powa cnt nbytes weight item b = Inr (b\<lparr>pr_base := base', pr_it_sum := s, pr_it_min := m\<rparr>)"
    using sm(1,2) b'(1) by (simp add: prio_add_single_def Let_def)
  moreover have "prio_inv nbytes k (b\<lparr>pr_base := base', pr_it_sum := s, pr_it_min := m\<rparr>)"
    using inv b'(2,3) sm(3-5) by (simp add: prio_inv_def len)
  moreover have "rp_storage base' \<noteq> []" using len by (metis length_0_conv nat.distinct(1) not_less_zero)
  ultimately show ?thesis by simp
qed

lemma update_priority_inv:
  assumes inv: "prio_inv nbytes k b" and p: "\<And>w. w > 0 \<Longrightarrow> powa w > 0" and run: "update_priority powa ip b = Inr b'"
  shows "prio_inv nbytes k b' \<and> pr_base b' = pr_base b"
proof -
  obtain idx pr where ip: "ip = (idx, pr)" by (cases ip)
  have ok: "pr > 0" "0 \<le> idx" "idx < int (length (rp_storage (pr_base b)))"
    using run by (auto simp: ip update_priority_def split: if_splits)
  have le: "int (length (rp_storage (pr_base b))) \<le> 2 ^ k"
    using inv unfolding prio_inv_def replay_inv_def by linarith
  have i: "idx < 2 ^ k" "nat idx \<le> length (rp_storage (pr_base b))" "nat idx < length (rp_storage (pr_base b))"
    using ok(2,3) le by linarith+
  from trees_set [OF inv ok(2) i(1,2) p [OF ok(1)]] i(3) obtain s m where sm: "tree_set idx (powa pr) (pr_it_sum b) = Inr s"
    "tree_set idx (Fin (powa pr)) (pr_it_min b) = Inr m" "tree_inv (+) 0 k s" "tree_inv min PosInf k m"
    "slots_ok (length (rp_storage (pr_base b))) (leaves s) (leaves m)" by auto
  have "pr_base b' = pr_base b \<and> pr_it_sum b' = s \<and> pr_it_min b' = m \<and> pr_max_priority b' = max (pr_max_priority b) pr"
    using run sm(1,2) by (auto simp: ip update_priority_def rbind_eq_Inr split: if_splits)
  then show ?thesis using inv sm(3-5) by (simp add: prio_inv_def max_def)
qed

subsection \<open>Sampling\<close>

lemma slots_sum:
  assumes "slots_ok n S M"
  shows "sum_list S = sum_list (take n S)" and "n > 0 \<Longrightarrow> 0 < sum_list S"
proof -
  have "drop n S = replicate (length S - n) 0"
    using assms by (intro nth_equalityI) (auto simp: slots_ok_def)
  then show eq: "sum_list S = sum_list (take n S)"
    by (metis add.right_neutral append_take_drop_id sum_list_append sum_list_replicate mult_zero_right)
  have pos: "\<forall>x\<in>set (take n S). x > 0" using assms by (auto simp: slots_ok_def in_set_conv_nth)
  show "0 < sum_list S" if n: "n > 0"
  proof -
    have "length (take n S) = n" using assms by (simp add: slots_ok_def)
    then obtain x xs where t: "take n S = x # xs" using n by (cases "take n S") auto
    then have "0 \<le> sum_list xs" using pos by (intro sum_list_nonneg) auto
    then show ?thesis unfolding eq t using pos t by simp
  qed
qed

lemma foldr_min_le: "x \<in> set xs \<Longrightarrow> foldr min xs PosInf \<le> x"
  by (induction xs) (auto simp: min_le_iff_disj)

lemma foldr_min_in: "foldr min xs PosInf = PosInf \<or> foldr min xs PosInf \<in> set xs"
proof (induction xs)
  case (Cons x xs)
  then show ?case by (cases "x \<le> foldr min xs PosInf") (auto simp: min_def)
qed simp

lemma slots_min:
  assumes ok: "slots_ok n S M" and n: "n > 0"
  shows "\<exists>m. foldr min M PosInf = Fin m \<and> m > 0 \<and> (\<forall>i<n. m \<le> S ! i)"
proof -
  have l: "n \<le> length M" "n \<le> length S" using ok by (simp_all add: slots_ok_def)
  have M: "M ! i = Fin (S ! i)" "S ! i > 0" if "i < n" for i using ok that l by (auto simp: slots_ok_def)
  have le: "foldr min M PosInf \<le> Fin (S ! i)" if "i < n" for i
    using foldr_min_le [of "M ! i" M] M(1) [OF that] nth_mem [of i M] that l by simp
  have "foldr min M PosInf \<noteq> PosInf" using le [OF n] by auto
  then have "foldr min M PosInf \<in> set M" using foldr_min_in by blast
  then obtain j where j: "j < length M" "foldr min M PosInf = M ! j" by (auto simp: in_set_conv_nth)
  then have "M ! j \<noteq> PosInf" "j < length S" using ok \<open>foldr min M PosInf \<noteq> PosInf\<close> by (simp_all add: slots_ok_def)
  then have "j < n" using ok unfolding slots_ok_def by (metis (full_types))
  then show ?thesis using j(2) M le by (intro exI [of _ "S ! j"]) auto
qed

lemma tree_whole:
  assumes "reduction f e" and "tree_inv f e k t"
  shows "tree_reduce 0 None t = Inr (foldr f (leaves t) e)"
proof -
  have "st_capacity t = int (length (leaves t))"
    using tree_inv_length [OF assms(2)] assms(2) by (simp add: tree_inv_def)
  then have "tree_reduce 0 None t = tree_reduce (int 0) (Some (int (length (leaves t)))) t" by (simp add: tree_reduce_def)
  then show ?thesis using reduction.tree_reduce_ok [OF assms, of 0 "length (leaves t)"] by simp
qed

lemma sample_index_ok:
  assumes inv: "prio_inv nbytes k b" and ne: "rp_storage (pr_base b) \<noteq> []" and r: "0 \<le> r" "r < 1"
  shows "\<exists>i. rbind (tree_sum 0 (Some (int (length (rp_storage (pr_base b))))) (pr_it_sum b))
      (\<lambda>s. find_prefixsum_idx (r * s) (pr_it_sum b)) = Inr (int i) \<and> i < length (rp_storage (pr_base b))"
proof -
  let ?n = "length (rp_storage (pr_base b))" and ?S = "leaves (pr_it_sum b)"
  have t: "tree_inv (+) 0 k (pr_it_sum b)" and ok: "slots_ok ?n ?S (leaves (pr_it_min b))"
    using inv by (simp_all add: prio_inv_def)
  have n: "?n \<le> length ?S" "?n > 0" using ok ne by (simp_all add: slots_ok_def)
  have s: "tree_sum 0 (Some (int ?n)) (pr_it_sum b) = Inr (sum_list ?S)"
    using sum_op.tree_reduce_ok [OF t, of 0 ?n] n(1) slots_sum(1) [OF ok] by (simp add: tree_sum_def foldr_plus)
  have "0 \<le> r * sum_list ?S" "r * sum_list ?S < sum_list ?S" using slots_sum(2) [OF ok n(2)] r by simp_all
  from find_prefixsum_ok [OF t this] obtain i where i: "find_prefixsum_idx (r * sum_list ?S) (pr_it_sum b) = Inr (int i)"
    "i < length ?S" "sum_list (take i ?S) \<le> r * sum_list ?S" "r * sum_list ?S < sum_list (take (i + 1) ?S)" by blast
  have "?S ! i > 0" using i(2-4) by (simp add: take_Suc_conv_app_nth)
  then have "i < ?n" using ok i(2) by (auto simp: slots_ok_def split: if_splits)
  then show ?thesis using s i(1) by auto
qed

lemma sample_proportional_ok:
  assumes "prio_inv nbytes k b" and "rp_storage (pr_base b) \<noteq> []" and "\<forall>r\<in>set rnd. 0 \<le> r \<and> r < 1"
  shows "\<exists>is. sample_proportional rnd b = Inr (map int is) \<and> length is = length rnd \<and>
    (\<forall>i\<in>set is. i < length (rp_storage (pr_base b)))"
  using assms(3)
proof (induction rnd)
  case (Cons r rnd)
  obtain i where i: "rbind (tree_sum 0 (Some (int (length (rp_storage (pr_base b))))) (pr_it_sum b))
      (\<lambda>s. find_prefixsum_idx (r * s) (pr_it_sum b)) = Inr (int i)" "i < length (rp_storage (pr_base b))"
    using sample_index_ok [OF assms(1,2), of r] Cons.prems by auto
  from Cons obtain "is" where "sample_proportional rnd b = Inr (map int is)" "length is = length rnd"
    "\<forall>i\<in>set is. i < length (rp_storage (pr_base b))" by auto
  then show ?case using i by (intro exI [of _ "i # is"]) (simp add: sample_proportional_def)
qed (simp add: sample_proportional_def)

lemma sample_weights_ok:
  assumes inv: "prio_inv nbytes k b" and ne: "rp_storage (pr_base b) \<noteq> []"
    and i: "\<forall>i\<in>set is. i < length (rp_storage (pr_base b))"
    and pos: "\<And>x. x > 0 \<Longrightarrow> npow x > 0" and anti: "\<And>x y. 0 < x \<Longrightarrow> x \<le> y \<Longrightarrow> npow y \<le> npow x"
  shows "\<exists>ws. sample_weights npow (map int is) b = Inr ws \<and> length ws = length is \<and> (\<forall>w\<in>set ws. 0 < w \<and> w \<le> 1)"
proof -
  let ?n = "length (rp_storage (pr_base b))" and ?S = "leaves (pr_it_sum b)" and ?M = "leaves (pr_it_min b)"
  have t: "tree_inv (+) 0 k (pr_it_sum b)" "tree_inv min PosInf k (pr_it_min b)" and ok: "slots_ok ?n ?S ?M"
    using inv by (simp_all add: prio_inv_def)
  have n: "?n \<le> length ?S" "?n > 0" using ok ne by (simp_all add: slots_ok_def)
  obtain m where m: "foldr min ?M PosInf = Fin m" "m > 0" "\<forall>i<?n. m \<le> ?S ! i" using slots_min [OF ok n(2)] by blast
  have mn: "tree_min 0 None (pr_it_min b) = Inr (Fin m)"
    using tree_whole [OF min_op.reduction_axioms t(2)] m(1) by (simp add: tree_min_def)
  have sm: "tree_sum 0 None (pr_it_sum b) = Inr (sum_list ?S)"
    using tree_whole [OF sum_op.reduction_axioms t(1)] by (simp add: tree_sum_def foldr_plus)
  define s where "s = sum_list ?S"
  define N where "N = (of_nat ?n :: rat)"
  have s: "s > 0" using slots_sum(2) [OF ok n(2)] by (simp add: s_def)
  have N: "N > 0" using n(2) by (simp add: N_def)
  let ?w = "\<lambda>i. npow (?S ! i / s * N) / npow (m / s * N)"
  have mx: "npow (m / s * N) > 0" using pos m(2) s N by simp
  have w: "0 < ?w i \<and> ?w i \<le> 1" if "i < ?n" for i
  proof -
    have le: "m \<le> ?S ! i" and "0 < ?S ! i" using m(2,3) that by auto
    then have "m / s * N \<le> ?S ! i / s * N" using s N by (simp add: divide_right_mono)
    then have "npow (?S ! i / s * N) \<le> npow (m / s * N)" using m(2) s N by (intro anti) simp_all
    moreover have "0 < npow (?S ! i / s * N)" using \<open>0 < ?S ! i\<close> s N by (intro pos) simp
    ultimately show ?thesis using mx by simp
  qed
  have get: "tree_get (int i) (pr_it_sum b) = Inr (?S ! i)" if "i < ?n" for i
    using tree_get_ok [OF t(1)] that n(1) by simp
  have "rmap (\<lambda>idx. rbind (tree_get idx (pr_it_sum b)) (\<lambda>v. rbind (fdiv v s) (\<lambda>p. fdiv (npow (p * N)) (npow (m / s * N))))) (map int is) =
      Inr (map ?w is)"
    using i
  proof (induction "is")
    case (Cons i "is")
    then show ?case using get s mx by (simp add: fdiv_def)
  qed simp
  then have "sample_weights npow (map int is) b = Inr (map ?w is)"
    using mn sm s unfolding sample_weights_def Let_def s_def [symmetric] N_def [symmetric]
    by (simp add: fdiv_def [of m s])
  then show ?thesis using w i by (intro exI [of _ "map ?w is"]) auto
qed

subsection \<open>Reachable buffers\<close>

text \<open>What a program does with a buffer: adding items of at least one time step with positive weights,
  updating priorities, sampling. Saving and restoring goes through a buffer of the same capacity.\<close>

inductive prio_reach ::
    "(rat \<Rightarrow> rat) \<Rightarrow> ('i \<Rightarrow> nat) \<Rightarrow> ('i \<Rightarrow> int) \<Rightarrow> 'i prio_buffer \<Rightarrow> bool"
  for powa cnt nbytes where
  init: "prio_init c u alpha = Inr b \<Longrightarrow> prio_reach powa cnt nbytes b"
| add: "prio_reach powa cnt nbytes b \<Longrightarrow> 0 < cnt item \<Longrightarrow> (\<And>w. weight = Some w \<Longrightarrow> w > 0) \<Longrightarrow>
    prio_add_single powa cnt nbytes weight item b = Inr b' \<Longrightarrow> prio_reach powa cnt nbytes b'"
| update: "prio_reach powa cnt nbytes b \<Longrightarrow> update_priorities powa idxes priorities b = Inr b' \<Longrightarrow> prio_reach powa cnt nbytes b'"
| sample: "prio_reach powa cnt nbytes b \<Longrightarrow> prio_sample npow cnt beta rnd b = Inr (res, b') \<Longrightarrow> prio_reach powa cnt nbytes b'"

lemma encode_sample_storage:
  "encode_sample is b = Inr (xs, b') \<Longrightarrow> \<exists>hs. b' = b\<lparr>rp_hit_count := hs\<rparr> \<and> length hs = length (rp_hit_count b)"
proof (induction "is" b arbitrary: xs b' rule: encode_sample.induct)
  case (1 b)
  then show ?case by (intro exI [of _ "rp_hit_count b"]) simp
next
  case (2 i "is" b)
  from "2.prems" obtain h hs x ys where s: "py_get (rp_hit_count b) (int i) = Inr h"
    "py_set (rp_hit_count b) (int i) (h + 1) = Inr hs" "py_get (rp_storage b) (int i) = Inr x"
    "encode_sample is (b\<lparr>rp_hit_count := hs\<rparr>) = Inr (ys, b')" by (auto simp: rbind_eq_Inr)
  have "length hs = length (rp_hit_count b)" using s(2) by (auto simp: py_set_def rbind_eq_Inr)
  then show ?case using "2.IH" [OF s(4)] by auto
qed

lemma prio_sample_inv:
  assumes inv: "prio_inv nbytes k b" and run: "prio_sample npow cnt beta rnd b = Inr (res, b')"
  shows "prio_inv nbytes k b'"
proof -
  obtain is' s xs base' where e: "encode_sample is' ((pr_base b)\<lparr>rp_num_timesteps_sampled := s\<rparr>) = Inr (xs, base')"
    and b': "b' = b\<lparr>pr_base := base'\<rparr>"
    using run by (auto simp: prio_sample_def rbind_eq_Inr Let_def split: if_splits prod.splits)
  from encode_sample_storage [OF e] inv show ?thesis by (auto simp: b' prio_inv_def replay_inv_def)
qed

lemma prio_reach_inv:
  assumes "prio_reach powa cnt nbytes b" and p: "\<And>w. w > 0 \<Longrightarrow> powa w > 0"
  shows "\<exists>k. prio_inv nbytes k b"
  using assms(1)
proof (induction rule: prio_reach.induct)
  case (init c u alpha b)
  then show ?case using prio_init_inv by blast
next
  case (add b item weight b')
  then obtain k where "prio_inv nbytes k b" by blast
  from prio_add_inv [OF this, of cnt item powa weight] add.hyps p show ?case by auto
next
  case (update b idxes priorities b')
  then obtain k where k: "prio_inv nbytes k b" by blast
  have "rfold (update_priority powa) (zip idxes priorities) b = Inr b'"
    using update.hyps by (simp add: update_priorities_def split: if_splits)
  then have "prio_inv nbytes k b'"
    by (rule rfold_invariant [where P = "prio_inv nbytes k", OF _ k]) (use update_priority_inv p in blast)
  then show ?case by blast
next
  case (sample b npow beta rnd res b')
  then show ?case using prio_sample_inv by blast
qed

text \<open>C36: In every state a prioritized buffer reaches, an item of positive length can be added without an
  error, with any positive weight or none, after which the buffer is not empty; and a non-empty buffer
  can be sampled with any non-negative \<open>beta\<close>: each random number in [0, 1) leads to the index of a
  stored item, the returned items are the stored ones at those indices, and all importance weights
  lie between 0 and 1, for every positive exponent of the priorities and every power function
  that is positive and does not increase.\<close>

theorem prioritized_sample_valid:
  assumes "prio_reach powa cnt nbytes b" and "\<And>w. w > 0 \<Longrightarrow> powa w > 0"
    and "\<forall>r\<in>set rnd. 0 \<le> r \<and> r < 1" and "0 \<le> beta"
    and "\<And>x. x > 0 \<Longrightarrow> npow x > 0" and "\<And>x y. 0 < x \<Longrightarrow> x \<le> y \<Longrightarrow> npow y \<le> npow x"
  shows "(\<forall>item weight. 0 < cnt item \<and> (\<forall>w. weight = Some w \<longrightarrow> w > 0) \<longrightarrow>
      (\<exists>b'. prio_add_single powa cnt nbytes weight item b = Inr b' \<and> rp_storage (pr_base b') \<noteq> [])) \<and>
    (rp_storage (pr_base b) \<noteq> [] \<longrightarrow> (\<exists>is ws b'. prio_sample npow cnt beta rnd b =
      Inr ((map (\<lambda>i. rp_storage (pr_base b) ! i) is,
        concat (map2 (\<lambda>i w. replicate (cnt (rp_storage (pr_base b) ! i)) w) is ws),
        concat (map (\<lambda>i. replicate (cnt (rp_storage (pr_base b) ! i)) (int i)) is)), b') \<and>
    length is = length rnd \<and> length ws = length rnd \<and> (\<forall>i\<in>set is. i < length (rp_storage (pr_base b))) \<and>
    (\<forall>w\<in>set ws. 0 < w \<and> w \<le> 1)))"
proof (intro conjI impI)
  obtain k where inv: "prio_inv nbytes k b" using prio_reach_inv [OF assms(1,2)] by blast
  show "\<forall>item weight. 0 < cnt item \<and> (\<forall>w. weight = Some w \<longrightarrow> w > 0) \<longrightarrow>
      (\<exists>b'. prio_add_single powa cnt nbytes weight item b = Inr b' \<and> rp_storage (pr_base b') \<noteq> [])"
  proof (intro allI impI)
    fix item :: 'a and weight :: "rat option"
    assume a: "0 < cnt item \<and> (\<forall>w. weight = Some w \<longrightarrow> w > 0)"
    show "\<exists>b'. prio_add_single powa cnt nbytes weight item b = Inr b' \<and> rp_storage (pr_base b') \<noteq> []"
      using prio_add_inv [OF inv, of cnt item powa weight] a assms(2) by auto
  qed
  assume st: "rp_storage (pr_base b) \<noteq> []"
  let ?st = "rp_storage (pr_base b)"
  from sample_proportional_ok [OF inv st assms(3)] obtain "is" where i: "sample_proportional rnd b = Inr (map int is)"
    "length is = length rnd" "\<forall>i\<in>set is. i < length ?st" by blast
  have "\<exists>ws. sample_weights npow (map int is) b = Inr ws \<and> length ws = length is \<and> (\<forall>w\<in>set ws. 0 < w \<and> w \<le> 1)"
    by (rule sample_weights_ok [OF inv st i(3)]) (use assms(5,6) in simp_all)
  then obtain ws where w: "sample_weights npow (map int is) b = Inr ws"
    "length ws = length is" "\<forall>w\<in>set ws. 0 < w \<and> w \<le> 1" by blast
  have cs: "rmap (\<lambda>i. rbind (py_get ?st i) (\<lambda>x. Inr (cnt x))) (map int is) = Inr (map (\<lambda>i. cnt (?st ! i)) is)"
    using i(3) by (induction "is") simp_all
  let ?base = "(pr_base b)\<lparr>rp_num_timesteps_sampled := rp_num_timesteps_sampled (pr_base b) + sum_list (map (\<lambda>i. cnt (?st ! i)) is)\<rparr>"
  have "length (rp_storage ?base) \<le> length (rp_hit_count ?base)"
    using inv by (auto simp: prio_inv_def replay_inv_def)
  from encode_sample_ok [OF this, of "is"] i(3) obtain hs where
    e: "encode_sample is ?base = Inr (map (\<lambda>i. ?st ! i) is, ?base\<lparr>rp_hit_count := hs\<rparr>)" by auto
  have "map nat (map int is) = is" by (simp add: comp_def)
  then have "prio_sample npow cnt beta rnd b =
      Inr ((map (\<lambda>i. ?st ! i) is, concat (map2 replicate (map (\<lambda>i. cnt (?st ! i)) is) ws),
        concat (map2 replicate (map (\<lambda>i. cnt (?st ! i)) is) (map int is))), b\<lparr>pr_base := ?base\<lparr>rp_hit_count := hs\<rparr>\<rparr>)"
    using st assms(4) i(1) w(1) cs e by (simp add: prio_sample_def Let_def)
  moreover have "map2 replicate (map (\<lambda>i. cnt (?st ! i)) is) ws = map2 (\<lambda>i w. replicate (cnt (?st ! i)) w) is ws"
    by (simp add: zip_map1 case_prod_unfold comp_def)
  moreover have "map2 replicate (map (\<lambda>i. cnt (?st ! i)) is) (map int is) = map (\<lambda>i. replicate (cnt (?st ! i)) (int i)) is"
    by (simp add: zip_map_map zip_same_conv_map)
  ultimately show "\<exists>is ws b'. prio_sample npow cnt beta rnd b =
      Inr ((map (\<lambda>i. ?st ! i) is, concat (map2 (\<lambda>i w. replicate (cnt (?st ! i)) w) is ws),
        concat (map (\<lambda>i. replicate (cnt (?st ! i)) (int i)) is)), b') \<and>
    length is = length rnd \<and> length ws = length rnd \<and> (\<forall>i\<in>set is. i < length ?st) \<and> (\<forall>w\<in>set ws. 0 < w \<and> w \<le> 1)"
    using i w by (metis (no_types, lifting))
qed

theorem prioritized_sample_valid_witness:
  "\<exists>(b :: string prio_buffer) is ws b'. prio_reach (\<lambda>w. w) length (\<lambda>x. 8) b \<and>
    prio_sample (\<lambda>x. 1 / x) length 1 [1/2] b = Inr ((map (\<lambda>i. rp_storage (pr_base b) ! i) is, ws, map int is), b') \<and>
    is = [0 :: nat]"
proof -
  have p: "pow2_from 1 2 = 2" by code_simp
  have a: "(2 :: int) AND 1 = 0" by code_simp
  obtain base :: "string replay_buffer" where base: "replay_init 2 ''fragments'' = Inr base" "rp_capacity base = 2"
    by (simp add: replay_init_def storage_unit_of_def)
  have cap: "int (pow2_from 1 (nat (rp_capacity base))) = 2" using p base(2) by simp
  obtain b0 where b0: "prio_init 2 ''fragments'' 1 = Inr (b0 :: string prio_buffer)"
    unfolding prio_init_def base(1) rbind_simps Let_def cap
    by (simp add: sum_tree_init_def min_tree_init_def tree_init_def a)
  have r0: "prio_reach (\<lambda>w. w) length (\<lambda>x. 8) b0" by (rule prio_reach.init [OF b0])
  obtain k where "prio_inv (\<lambda>x. 8) k b0" "rp_storage (pr_base b0) = []" using prio_init_inv [OF b0] by blast
  from prio_add_inv [OF this(1), of length "''a''" "\<lambda>w. w" None] obtain b where
    b: "prio_add_single (\<lambda>w. w) length (\<lambda>x. 8) None ''a'' b0 = Inr b" "rp_storage (pr_base b) \<noteq> []" by auto
  have r: "prio_reach (\<lambda>w. w) length (\<lambda>x. 8) b" by (rule prio_reach.add [OF r0 _ _ b(1)]) simp_all
  have "rp_storage (pr_base b) = [''a'']"
  proof -
    obtain base' where base': "add_single_batch length (\<lambda>x. 8) ''a'' (pr_base b0) = Inr base'" "pr_base b = base'"
      using b(1) by (auto simp: prio_add_single_def rbind_eq_Inr Let_def)
    have "rp_storage base' = [''a'']" using base'(1) \<open>rp_storage (pr_base b0) = []\<close>
      by (auto simp: add_single_batch_def Let_def rbind_eq_Inr split: if_splits)
    then show ?thesis using base'(2) by simp
  qed
  moreover have "\<exists>is ws b'. prio_sample (\<lambda>x. 1 / x) length 1 [1/2] b =
      Inr ((map (\<lambda>i. rp_storage (pr_base b) ! i) is,
        concat (map2 (\<lambda>i w. replicate (length (rp_storage (pr_base b) ! i)) w) is ws),
        concat (map (\<lambda>i. replicate (length (rp_storage (pr_base b) ! i)) (int i)) is)), b') \<and>
      length is = length [1/2 :: rat] \<and> length ws = length [1/2 :: rat] \<and> (\<forall>i\<in>set is. i < length (rp_storage (pr_base b))) \<and>
      (\<forall>w\<in>set ws. 0 < w \<and> w \<le> 1)"
    by (rule prioritized_sample_valid [OF r, THEN conjunct2, rule_format, OF _ _ _ _ _ b(2)]) (simp_all add: frac_le)
  ultimately show ?thesis using r by - (rule exI [of _ b], rule exI [of _ "[0]"], auto simp: length_Suc_conv)
qed

end
