(* ===== verification/Reservoir_Replay.thy ===== *)
theory Reservoir_Replay
  imports Replay_Buffer Complex_Main
begin

section \<open>RLlib: reservoir and queue buffers\<close>

text \<open>
  Models \<open>ray/rllib/utils/replay_buffers/reservoir_replay_buffer.py\<close> and \<open>fifo_replay_buffer.py\<close> on
  top of \<open>Replay_Buffer\<close>. The number drawn by \<open>random.randint\<close> in an addition is an argument; what
  holds with equal chances is counted over all sequences of draws.
\<close>

subsection \<open>Reservoir\<close>

record 'i reservoir_buffer =
  rv_base :: "'i replay_buffer"
  rv_num_add_calls :: nat
  rv_num_evicted :: nat

definition reservoir_init :: "int \<Rightarrow> string \<Rightarrow> 'i reservoir_buffer result" where
  "reservoir_init capacity unit_name =
     rbind (replay_init capacity unit_name) (\<lambda>b. Inr \<lparr>rv_base = b, rv_num_add_calls = 0, rv_num_evicted = 0\<rparr>)"

text \<open>Pushes the hit count of slot \<open>i\<close> to the statistics of evicted items and clears it.\<close>

definition evict_hit :: "nat \<Rightarrow> 'i replay_buffer \<Rightarrow> 'i replay_buffer result" where
  "evict_hit i b =
     rbind (py_get (rp_hit_count b) (int i)) (\<lambda>h.
       rbind (py_set (rp_hit_count b) (int i) 0) (\<lambda>hs.
         Inr (b\<lparr>rp_evicted_hit_stats := window_push h (rp_evicted_hit_stats b), rp_hit_count := hs\<rparr>)))"

definition reservoir_replace ::
    "('i \<Rightarrow> nat) \<Rightarrow> ('i \<Rightarrow> int) \<Rightarrow> nat \<Rightarrow> 'i \<Rightarrow> 'i replay_buffer \<Rightarrow> 'i replay_buffer result" where
  "reservoir_replace cnt nbytes idx item b =
     rbind (evict_hit idx b) (\<lambda>b1.
       rbind (evict_hit idx (b1\<lparr>rp_next_idx := idx\<rparr>)) (\<lambda>b2.
         rbind (py_get (rp_storage b2) (int idx)) (\<lambda>old.
           if cnt item > 0
           then Inr (b2\<lparr>rp_storage := (rp_storage b2)[idx := item],
                       rp_est_size_bytes := rp_est_size_bytes b2 - nbytes old + nbytes item\<rparr>)
           else Inl (AssertionError ''item.count > 0''))))"

definition reservoir_add_single ::
    "('i \<Rightarrow> nat) \<Rightarrow> ('i \<Rightarrow> int) \<Rightarrow> 'i \<times> nat \<Rightarrow> 'i reservoir_buffer \<Rightarrow> 'i reservoir_buffer result" where
  "reservoir_add_single cnt nbytes = (\<lambda>(item, idx) r.
     let b = rv_base r;
         b1 = b\<lparr>rp_num_timesteps_added := rp_num_timesteps_added b + cnt item,
                rp_num_timesteps_added_wrap := rp_num_timesteps_added_wrap b + cnt item\<rparr>;
         r1 = r\<lparr>rv_num_add_calls := rv_num_add_calls r + 1\<rparr>
     in if int (rp_num_timesteps_added b1) < rp_capacity b1
        then Inr (r1\<lparr>rv_base := b1\<lparr>rp_storage := rp_storage b1 @ [item],
                                  rp_est_size_bytes := rp_est_size_bytes b1 + nbytes item\<rparr>\<rparr>)
        else (let b2 = b1\<lparr>rp_eviction_started := True\<rparr>
              in if idx < length (rp_storage b2)
                 then rbind (reservoir_replace cnt nbytes idx item b2) (\<lambda>b3.
                        Inr (r1\<lparr>rv_base := b3, rv_num_evicted := rv_num_evicted r1 + 1\<rparr>))
                 else Inr (r1\<lparr>rv_base := b2\<rparr>)))"

record 'i reservoir_state =
  vs_base :: "'i replay_state"
  vs_num_evicted :: nat
  vs_num_add_calls :: nat

definition reservoir_get_state :: "'i reservoir_buffer \<Rightarrow> 'i reservoir_state" where
  "reservoir_get_state r =
     \<lparr>vs_base = replay_get_state (rv_base r), vs_num_evicted = rv_num_evicted r, vs_num_add_calls = rv_num_add_calls r\<rparr>"

definition reservoir_set_state :: "'i reservoir_state \<Rightarrow> 'i reservoir_buffer \<Rightarrow> 'i reservoir_buffer" where
  "reservoir_set_state s r =
     r\<lparr>rv_num_evicted := vs_num_evicted s, rv_num_add_calls := vs_num_add_calls s,
       rv_base := replay_set_state (vs_base s) (rv_base r)\<rparr>"

subsection \<open>Queue\<close>

text \<open>The queue is a list of batches beside an unused base buffer of capacity 1. An empty queue is
  answered with an empty batch (\<open>None\<close>); a batch gets a column of weights 1.0.\<close>

record 'i fifo_replay =
  fr_base :: "'i replay_buffer"
  fr_queue :: "'i list"

definition fifo_replay_init :: "'i fifo_replay result" where
  "fifo_replay_init = rbind (replay_init 1 ''fragments'') (\<lambda>b. Inr \<lparr>fr_base = b, fr_queue = []\<rparr>)"

definition fifo_replay_add :: "'i \<Rightarrow> 'i fifo_replay \<Rightarrow> 'i fifo_replay" where
  "fifo_replay_add batch q = q\<lparr>fr_queue := fr_queue q @ [batch]\<rparr>"

definition fifo_replay_sample :: "('i \<Rightarrow> nat) \<Rightarrow> 'i fifo_replay \<Rightarrow> ('i \<times> rat list) option \<times> 'i fifo_replay" where
  "fifo_replay_sample len q =
     (case fr_queue q of
        [] \<Rightarrow> (None, q)
      | batch # rest \<Rightarrow> (Some (batch, replicate (len batch) 1), q\<lparr>fr_queue := rest\<rparr>))"

subsection \<open>The reservoir invariant\<close>

definition reservoir_inv :: "('i \<Rightarrow> int) \<Rightarrow> 'i reservoir_buffer \<Rightarrow> bool" where
  "reservoir_inv nbytes r \<longleftrightarrow> (let b = rv_base r in
     0 < rp_capacity b \<and> int (length (rp_hit_count b)) = rp_capacity b \<and>
     int (length (rp_storage b)) < rp_capacity b \<and> length (rp_storage b) \<le> rp_num_timesteps_added b \<and>
     length (rp_storage b) \<le> rv_num_add_calls r \<and>
     rp_est_size_bytes b = sum_list (map nbytes (rp_storage b)))"

lemma evict_hit_ok:
  assumes "i < length (rp_hit_count b)"
  shows "\<exists>w hs. evict_hit i b = Inr (b\<lparr>rp_evicted_hit_stats := w, rp_hit_count := hs\<rparr>) \<and> length hs = length (rp_hit_count b)"
  using assms
  by (intro exI [of _ "window_push (rp_hit_count b ! i) (rp_evicted_hit_stats b)"] exI [of _ "(rp_hit_count b)[i := 0]"])
    (simp add: evict_hit_def)

lemma reservoir_replace_ok:
  assumes "i < length (rp_hit_count b)" and "i < length (rp_storage b)" and "0 < cnt item"
  shows "\<exists>w hs. reservoir_replace cnt nbytes i item b =
    Inr (b\<lparr>rp_evicted_hit_stats := w, rp_hit_count := hs, rp_next_idx := i, rp_storage := (rp_storage b)[i := item],
          rp_est_size_bytes := rp_est_size_bytes b - nbytes (rp_storage b ! i) + nbytes item\<rparr>) \<and>
    length hs = length (rp_hit_count b)"
proof -
  obtain w hs where 1: "evict_hit i b = Inr (b\<lparr>rp_evicted_hit_stats := w, rp_hit_count := hs\<rparr>)"
    "length hs = length (rp_hit_count b)" using evict_hit_ok [OF assms(1)] by blast
  let ?b1 = "b\<lparr>rp_evicted_hit_stats := w, rp_hit_count := hs, rp_next_idx := i\<rparr>"
  obtain w' hs' where 2: "evict_hit i ?b1 = Inr (?b1\<lparr>rp_evicted_hit_stats := w', rp_hit_count := hs'\<rparr>)"
    "length hs' = length (rp_hit_count ?b1)" using evict_hit_ok [of i ?b1] assms(1) 1(2) by auto
  show ?thesis using 1 2 assms(2,3)
    by (intro exI [of _ w'] exI [of _ hs']) (simp add: reservoir_replace_def)
qed

text \<open>What one addition does to the stored items: appended below the capacity, then replacing a slot
  or dropped.\<close>

lemma reservoir_add_ok:
  assumes inv: "reservoir_inv nbytes r" and c: "0 < cnt item"
  shows "\<exists>r'. reservoir_add_single cnt nbytes (item, idx) r = Inr r' \<and> reservoir_inv nbytes r' \<and>
    rp_capacity (rv_base r') = rp_capacity (rv_base r) \<and>
    rv_num_add_calls r' = rv_num_add_calls r + 1 \<and>
    rp_num_timesteps_added (rv_base r') = rp_num_timesteps_added (rv_base r) + cnt item \<and>
    rp_storage (rv_base r') =
      (if int (rp_num_timesteps_added (rv_base r) + cnt item) < rp_capacity (rv_base r)
       then rp_storage (rv_base r) @ [item] else (rp_storage (rv_base r))[idx := item])"
proof -
  let ?b = "rv_base r"
  let ?full = "\<not> int (rp_num_timesteps_added ?b + cnt item) < rp_capacity ?b"
  show ?thesis
  proof (cases "?full \<and> idx < length (rp_storage ?b)")
    case True
    let ?b2 = "?b\<lparr>rp_num_timesteps_added := rp_num_timesteps_added ?b + cnt item,
                rp_num_timesteps_added_wrap := rp_num_timesteps_added_wrap ?b + cnt item, rp_eviction_started := True\<rparr>"
    have "idx < length (rp_hit_count ?b2)" "idx < length (rp_storage ?b2)"
      using inv True by (auto simp: reservoir_inv_def Let_def)
    from reservoir_replace_ok [where cnt = cnt and nbytes = nbytes and item = item, OF this c] obtain w hs where
      b3: "reservoir_replace cnt nbytes idx item ?b2 =
        Inr (?b2\<lparr>rp_evicted_hit_stats := w, rp_hit_count := hs, rp_next_idx := idx, rp_storage := (rp_storage ?b2)[idx := item],
          rp_est_size_bytes := rp_est_size_bytes ?b2 - nbytes (rp_storage ?b2 ! idx) + nbytes item\<rparr>)"
      "length hs = length (rp_hit_count ?b2)" by blast
    then show ?thesis using inv True c
      by (simp add: reservoir_add_single_def Let_def reservoir_inv_def map_update sum_list_update_int)
  next
    case False
    then show ?thesis using inv c by (auto simp: reservoir_add_single_def Let_def reservoir_inv_def list_update_beyond)
  qed
qed

definition reservoir_adds ::
    "('i \<Rightarrow> nat) \<Rightarrow> ('i \<Rightarrow> int) \<Rightarrow> 'i list \<Rightarrow> nat list \<Rightarrow> 'i reservoir_buffer \<Rightarrow> 'i reservoir_buffer result" where
  "reservoir_adds cnt nbytes items draws r = rfold (reservoir_add_single cnt nbytes) (zip items draws) r"

subsection \<open>Reservoir sampling of single steps\<close>

text \<open>The abstract algorithm: the first \<open>k\<close> items fill the reservoir, each later item goes to the drawn
  slot if that exists.\<close>

definition reservoir_step :: "nat \<Rightarrow> 'i \<times> nat \<Rightarrow> 'i list \<Rightarrow> 'i list" where
  "reservoir_step k = (\<lambda>(x, d) s. if length s < k then s @ [x] else s[d := x])"

definition reservoir_spec :: "nat \<Rightarrow> 'i list \<Rightarrow> nat list \<Rightarrow> 'i list" where
  "reservoir_spec k xs ds = fold (reservoir_step k) (zip xs ds) []"

text \<open>The draws of \<open>n\<close> additions: the \<open>i\<close>-th is a number from 0 to \<open>i\<close>.\<close>

definition draws :: "nat \<Rightarrow> nat list set" where
  "draws n = {ds. length ds = n \<and> (\<forall>i<n. ds ! i \<le> i)}"

lemma reservoir_spec_snoc:
  "length xs = length ds \<Longrightarrow> reservoir_spec k (xs @ [x]) (ds @ [d]) = reservoir_step k (x, d) (reservoir_spec k xs ds)"
  by (simp add: reservoir_spec_def)

lemma reservoir_spec_shape:
  assumes "length xs = length ds"
  shows "length (reservoir_spec k xs ds) = min (length xs) k \<and> set (reservoir_spec k xs ds) \<subseteq> set xs \<and>
    (distinct xs \<longrightarrow> distinct (reservoir_spec k xs ds)) \<and> (length xs \<le> k \<longrightarrow> reservoir_spec k xs ds = xs)"
  using assms
proof (induction xs arbitrary: ds rule: rev_induct)
  case (snoc x xs)
  then obtain ds' d where d: "ds = ds' @ [d]" "length xs = length ds'" by (cases ds rule: rev_cases) auto
  let ?s = "reservoir_spec k xs ds'"
  have IH: "length ?s = min (length xs) k" "set ?s \<subseteq> set xs" "distinct xs \<Longrightarrow> distinct ?s" "length xs \<le> k \<Longrightarrow> ?s = xs"
    using snoc.IH [OF d(2)] by auto
  have eq: "reservoir_spec k (xs @ [x]) ds = (if length xs < k then xs @ [x] else ?s[d := x])"
    unfolding d(1) reservoir_spec_snoc [OF d(2)] using IH by (auto simp: reservoir_step_def)
  have "distinct (?s[d := x])" if "distinct (xs @ [x])" using IH that by (intro distinct_list_update) auto
  then show ?case unfolding eq using IH set_update_subset_insert [of ?s d x] by auto
qed (simp add: reservoir_spec_def)

lemma draws_Suc: "draws (Suc n) = (\<lambda>(ds, d). ds @ [d]) ` (draws n \<times> {..n})"
proof (rule set_eqI)
  fix ds
  show "ds \<in> draws (Suc n) \<longleftrightarrow> ds \<in> (\<lambda>(ds, d). ds @ [d]) ` (draws n \<times> {..n})"
    by (cases ds rule: rev_cases) (auto simp: draws_def nth_append less_Suc_eq image_iff)
qed

lemma inj_snoc: "inj_on (\<lambda>(ds, d). ds @ [d]) A"
  by (auto simp: inj_on_def)

lemma draws_card: "finite (draws n) \<and> card (draws n) = fact n"
proof (induction n)
  case 0
  have "draws 0 = {[]}" by (auto simp: draws_def)
  then show ?case by simp
next
  case (Suc n)
  then show ?case by (simp add: draws_Suc card_image [OF inj_snoc] card_cartesian_product algebra_simps)
qed

lemma snoc_count:
  assumes "\<And>ds d. ds \<in> draws n \<Longrightarrow> d \<le> n \<Longrightarrow> P (ds @ [d]) \<longleftrightarrow> ds \<in> A \<and> d \<in> D ds" and "A \<subseteq> draws n"
    and "\<And>ds. ds \<in> A \<Longrightarrow> D ds \<subseteq> {..n} \<and> card (D ds) = m"
  shows "card {ds \<in> draws (Suc n). P ds} = card A * m"
proof -
  have "{ds \<in> draws (Suc n). P ds} = (\<lambda>(ds, d). ds @ [d]) ` (SIGMA ds:A. D ds)"
  proof (intro subset_antisym subsetI)
    fix ds assume "ds \<in> (\<lambda>(ds, d). ds @ [d]) ` (SIGMA ds:A. D ds)"
    then obtain a d where "ds = a @ [d]" "a \<in> A" "d \<in> D a" by auto
    moreover from this have "a \<in> draws n" "d \<le> n" using assms(2,3) by blast+
    ultimately show "ds \<in> {ds \<in> draws (Suc n). P ds}" using assms(1) by (auto simp: draws_Suc)
  qed (use assms(1) in \<open>auto simp: draws_Suc image_iff\<close>)
  moreover have "card (SIGMA ds:A. D ds) = card A * m"
  proof (subst card_SigmaI)
    show "finite A" using assms(2) draws_card [of n] by (auto intro: finite_subset)
    show "\<forall>ds\<in>A. finite (D ds)" using assms(3) finite_atMost [of n] by (meson finite_subset)
  qed (use assms(3) in simp)
  ultimately show ?thesis by (simp add: card_image [OF inj_snoc])
qed

lemma mem_update_distinct:
  "distinct s \<Longrightarrow> y \<noteq> x \<Longrightarrow> y \<in> set (s[d := x]) \<longleftrightarrow> y \<in> set s \<and> \<not> (d < length s \<and> s ! d = y)"
  by (cases "d < length s") (auto simp: set_update_distinct list_update_beyond)

lemma reservoir_spec_uniform:
  assumes "distinct xs" and "k \<le> length xs" and "y \<in> set xs"
  shows "length xs * card {ds \<in> draws (length xs). y \<in> set (reservoir_spec k xs ds)} = k * fact (length xs)"
  using assms
proof (induction xs rule: rev_induct)
  case (snoc x xs)
  let ?n = "length xs" and ?P = "\<lambda>ds. y \<in> set (reservoir_spec k (xs @ [x]) ds)"
  show ?case
  proof (cases "?n < k")
    case True
    then have "?P ds" if "ds \<in> draws (Suc ?n)" for ds
      using reservoir_spec_shape [of "xs @ [x]" ds k] snoc.prems that by (auto simp: draws_def)
    then have "{ds \<in> draws (Suc ?n). ?P ds} = draws (Suc ?n)" by auto
    moreover have "k = Suc ?n" using True snoc.prems(2) by simp
    ultimately show ?thesis using draws_card [of "Suc ?n"] by simp
  next
    case False
    define S where "S = reservoir_spec k xs"
    have S: "length (S ds) = k" "set (S ds) \<subseteq> set xs" "distinct (S ds)"
      "reservoir_spec k (xs @ [x]) (ds @ [d]) = (S ds)[d := x]" if "ds \<in> draws ?n" for ds d
      using that False snoc.prems(1) reservoir_spec_shape [of xs ds k] reservoir_spec_snoc [of xs ds k x d]
      by (auto simp: draws_def S_def reservoir_step_def)
    show ?thesis
    proof (cases "y = x")
      case True
      have "?P (ds @ [d]) \<longleftrightarrow> ds \<in> draws ?n \<and> d \<in> {..<k}" if "ds \<in> draws ?n" for ds d
        using S [OF that] True snoc.prems(1) that by (cases "d < k") (auto simp: set_update_memI list_update_beyond)
      then have "card {ds \<in> draws (Suc ?n). ?P ds} = card (draws ?n) * k"
        using False by (intro snoc_count [where D = "\<lambda>_. {..<k}"]) auto
      then show ?thesis using draws_card [of ?n] by (simp add: algebra_simps)
    next
      case y: False
      let ?A = "{ds \<in> draws ?n. y \<in> set (S ds)}" and ?D = "\<lambda>ds. {..?n} - {d. d < k \<and> S ds ! d = y}"
      have P: "?P (ds @ [d]) \<longleftrightarrow> ds \<in> ?A \<and> d \<in> ?D ds" if "ds \<in> draws ?n" "d \<le> ?n" for ds d
        using S [OF that(1)] that y by (auto simp: mem_update_distinct)
      have D: "?D ds \<subseteq> {..?n} \<and> card (?D ds) = ?n" if "ds \<in> ?A" for ds
      proof -
        from that S obtain p where p: "p < k" "S ds ! p = y" by (auto simp: in_set_conv_nth)
        have "{d. d < k \<and> S ds ! d = y} = {p}" using that p S [of ds] by (auto simp: nth_eq_iff_index_eq)
        then show ?thesis using p False by simp
      qed
      have "card {ds \<in> draws (Suc ?n). ?P ds} = card ?A * ?n"
        by (rule snoc_count [where D = ?D, OF P _ D]) auto
      moreover have "?n * card ?A = k * fact ?n" using snoc y False by (simp add: S_def)
      ultimately show ?thesis by (simp add: algebra_simps)
    qed
  qed
qed simp

lemma reservoir_adds_refine:
  assumes "reservoir_inv nbytes r" and "\<forall>x\<in>set items. cnt x = 1" and "length items = length ds"
    and "length (rp_storage (rv_base r)) = min (rp_num_timesteps_added (rv_base r)) (nat (rp_capacity (rv_base r) - 1))"
  shows "\<exists>r'. reservoir_adds cnt nbytes items ds r = Inr r' \<and> reservoir_inv nbytes r' \<and>
    rp_storage (rv_base r') = fold (reservoir_step (nat (rp_capacity (rv_base r) - 1))) (zip items ds) (rp_storage (rv_base r))"
  using assms(3,1,2,4)
proof (induction items ds arbitrary: r rule: list_induct2)
  case (Cons x items d ds)
  have "0 < cnt x" using Cons.prems(2) by simp
  from reservoir_add_ok [where cnt = cnt and item = x, OF Cons.prems(1) this, of d] Cons.prems(2) obtain r1 where r1:
    "reservoir_add_single cnt nbytes (x, d) r = Inr r1" "reservoir_inv nbytes r1"
    "rp_capacity (rv_base r1) = rp_capacity (rv_base r)"
    "rp_num_timesteps_added (rv_base r1) = rp_num_timesteps_added (rv_base r) + 1"
    "rp_storage (rv_base r1) = (if int (rp_num_timesteps_added (rv_base r) + 1) < rp_capacity (rv_base r)
       then rp_storage (rv_base r) @ [x] else (rp_storage (rv_base r))[d := x])" by auto
  let ?k = "nat (rp_capacity (rv_base r) - 1)"
  have full: "int (rp_num_timesteps_added (rv_base r) + 1) < rp_capacity (rv_base r) \<longleftrightarrow> length (rp_storage (rv_base r)) < ?k"
    using Cons.prems(3) by linarith
  have st: "rp_storage (rv_base r1) = reservoir_step ?k (x, d) (rp_storage (rv_base r))"
    using r1(5) full by (simp add: reservoir_step_def)
  have "length (rp_storage (rv_base r1)) = min (rp_num_timesteps_added (rv_base r1)) (nat (rp_capacity (rv_base r1) - 1))"
    using Cons.prems(3) r1(3,4) st by (auto simp: reservoir_step_def)
  from Cons.IH [OF r1(2) _ this] Cons.prems(2) show ?case using r1(1,3) st by (simp add: reservoir_adds_def)
qed (simp add: reservoir_adds_def)

lemma reservoir_init_inv:
  "reservoir_init c u = Inr r \<Longrightarrow>
    reservoir_inv nbytes r \<and> rp_storage (rv_base r) = [] \<and> rp_capacity (rv_base r) = c \<and> rp_num_timesteps_added (rv_base r) = 0"
  by (auto simp: reservoir_init_def replay_init_def reservoir_inv_def rbind_eq_Inr split: if_splits)

text \<open>C37: A reservoir buffer keeps a uniform sample of the single steps added to it. For every number \<open>n\<close> of
  different items, at least one less than the capacity \<open>c\<close>, and every sequence of draws, the additions
  succeed and \<open>c - 1\<close> items are stored; and each item is stored in exactly the fraction \<open>(c - 1) / n\<close> of
  the sequences of draws. The documented maximum of \<open>c\<close> stored steps is never reached.\<close>

theorem reservoir_uniform:
  assumes "reservoir_init c u = Inr r" and "\<forall>x\<in>set items. cnt x = 1" and "distinct items"
    and "c - 1 \<le> int (length items)"
  shows "(\<forall>ds\<in>draws (length items). \<exists>r'. reservoir_adds cnt nbytes items ds r = Inr r' \<and>
      int (length (rp_storage (rv_base r'))) = c - 1 \<and> distinct (rp_storage (rv_base r')) \<and> set (rp_storage (rv_base r')) \<subseteq> set items) \<and>
    (\<forall>x\<in>set items. int (length items) *
        int (card {ds \<in> draws (length items). \<exists>r'. reservoir_adds cnt nbytes items ds r = Inr r' \<and> x \<in> set (rp_storage (rv_base r'))}) =
      (c - 1) * int (card (draws (length items))))"
proof -
  let ?n = "length items" and ?k = "nat (c - 1)"
  have inv: "reservoir_inv nbytes r" "rp_storage (rv_base r) = []" "rp_capacity (rv_base r) = c" "rp_num_timesteps_added (rv_base r) = 0"
    using reservoir_init_inv [OF assms(1)] by auto
  have c: "0 < c" using inv(1,3) by (simp add: reservoir_inv_def Let_def)
  have run: "\<exists>r'. reservoir_adds cnt nbytes items ds r = Inr r' \<and> rp_storage (rv_base r') = reservoir_spec ?k items ds"
    if "length ds = ?n" for ds
    using reservoir_adds_refine [OF inv(1) assms(2) that [symmetric]] inv by (auto simp: reservoir_spec_def)
  have "int (length (reservoir_spec ?k items ds)) = c - 1 \<and> distinct (reservoir_spec ?k items ds) \<and> set (reservoir_spec ?k items ds) \<subseteq> set items"
    if "length ds = ?n" for ds
    using reservoir_spec_shape [OF that [symmetric], of ?k] assms(3,4) c by auto
  then have 1: "\<forall>ds\<in>draws ?n. \<exists>r'. reservoir_adds cnt nbytes items ds r = Inr r' \<and>
      int (length (rp_storage (rv_base r'))) = c - 1 \<and> distinct (rp_storage (rv_base r')) \<and> set (rp_storage (rv_base r')) \<subseteq> set items"
    using run by (fastforce simp: draws_def)
  have "int ?n * int (card {ds \<in> draws ?n. \<exists>r'. reservoir_adds cnt nbytes items ds r = Inr r' \<and> x \<in> set (rp_storage (rv_base r'))}) =
      (c - 1) * int (card (draws ?n))" if "x \<in> set items" for x
  proof -
    have "{ds \<in> draws ?n. \<exists>r'. reservoir_adds cnt nbytes items ds r = Inr r' \<and> x \<in> set (rp_storage (rv_base r'))} =
        {ds \<in> draws ?n. x \<in> set (reservoir_spec ?k items ds)}"
      using run by (fastforce simp: draws_def)
    moreover have "?n * card {ds \<in> draws ?n. x \<in> set (reservoir_spec ?k items ds)} = ?k * card (draws ?n)"
      using reservoir_spec_uniform [OF assms(3) _ that, of ?k] assms(4) c draws_card [of ?n] by simp
    moreover have "c - 1 = int ?k" using c by simp
    ultimately show ?thesis by (metis of_nat_mult)
  qed
  then show ?thesis using 1 by blast
qed

theorem reservoir_uniform_witness:
  "\<exists>r. reservoir_init 3 ''timesteps'' = Inr r \<and>
    4 * int (card {ds \<in> draws 4. \<exists>r'. reservoir_adds (\<lambda>x. 1) (\<lambda>x. 8) [10, 20, 30, 40 :: nat] ds r = Inr r' \<and>
      30 \<in> set (rp_storage (rv_base r'))}) = 2 * 24"
proof -
  obtain r :: "nat reservoir_buffer" where r: "reservoir_init 3 ''timesteps'' = Inr r"
    by (simp add: reservoir_init_def replay_init_def storage_unit_of_def)
  have "card (draws 4) = 24" using draws_card [of 4] by (simp add: fact_numeral)
  moreover have "4 * int (card {ds \<in> draws 4. \<exists>r'. reservoir_adds (\<lambda>x. 1) (\<lambda>x. 8) xs ds r = Inr r' \<and>
      30 \<in> set (rp_storage (rv_base r'))}) = (3 - 1) * int (card (draws 4))" if xs: "xs = [10, 20, 30, 40]" for xs
  proof -
    have 1: "\<forall>x\<in>set xs. (\<lambda>x. 1) x = (1 :: nat)" "distinct xs" "3 - 1 \<le> int (length xs)" "30 \<in> set xs"
      by (simp_all add: xs)
    have 2: "length xs = 4" "int (length xs) = 4" by (simp_all add: xs)
    show ?thesis
      using reservoir_uniform [where cnt = "\<lambda>x. 1", OF r 1(1-3), of "\<lambda>x. 8", THEN conjunct2] 1(4) unfolding 2 of_nat_numeral by blast
  qed
  ultimately show ?thesis using r by (intro exI [of _ r] conjI) simp_all
qed

subsection \<open>Saved buffers and the queue\<close>

lemma reservoir_state_roundtrip:
  "\<exists>w h c u. reservoir_set_state (reservoir_get_state r) r' =
    r\<lparr>rv_base := (rv_base r)\<lparr>rp_evicted_hit_stats := w, rp_hit_count := h, rp_capacity := c, rp_storage_unit := u\<rparr>\<rparr>"
  by (intro exI [of _ "rp_evicted_hit_stats (rv_base r')"] exI [of _ "rp_hit_count (rv_base r')"]
      exI [of _ "rp_capacity (rv_base r')"] exI [of _ "rp_storage_unit (rv_base r')"])
    (simp add: reservoir_set_state_def reservoir_get_state_def replay_set_state_def replay_get_state_def)

fun fifo_drain :: "('i \<Rightarrow> nat) \<Rightarrow> nat \<Rightarrow> 'i fifo_replay \<Rightarrow> ('i \<times> rat list) option list" where
  "fifo_drain len 0 q = []"
| "fifo_drain len (Suc n) q = (case fifo_replay_sample len q of (x, q') \<Rightarrow> x # fifo_drain len n q')"

lemma fifo_replay_in_order:
  "fr_queue (fold fifo_replay_add xs q) = fr_queue q @ xs"
  "fifo_drain len (length (fr_queue q)) q = map (\<lambda>x. Some (x, replicate (len x) 1)) (fr_queue q)"
proof -
  show "fr_queue (fold fifo_replay_add xs q) = fr_queue q @ xs"
    by (induction xs arbitrary: q) (simp_all add: fifo_replay_add_def)
  show "fifo_drain len (length (fr_queue q)) q = map (\<lambda>x. Some (x, replicate (len x) 1)) (fr_queue q)"
  proof (induction "fr_queue q" arbitrary: q)
    case (Cons x xs)
    have "fifo_drain len (length xs) (q\<lparr>fr_queue := xs\<rparr>) = map (\<lambda>x. Some (x, replicate (len x) 1)) xs"
      using Cons.hyps(1) [of "q\<lparr>fr_queue := xs\<rparr>"] by simp
    then show ?case by (simp add: Cons.hyps(2) [symmetric] fifo_replay_sample_def)
  qed simp
qed

end
