(* ===== verification/Sched_Node.thy ===== *)
theory Sched_Node
  imports Instance_Status Complex_Main "HOL-Library.Product_Lexorder" "HOL-Library.Sublist"
begin

section \<open>Autoscaler v2: requests and scheduling nodes\<close>

text \<open>
  Models the data and the node operations of \<open>ray/python/ray/autoscaler/v2/scheduler.py\<close>, the
  resource arithmetic of \<open>autoscaler/_private/resource_demand_scheduler.py\<close>, the in-place resize
  status of \<open>autoscaler/v2/schema.py\<close> and the request helpers of \<open>autoscaler/v2/utils.py\<close>. Resource
  amounts are rationals. Of the protobuf messages the fields that the scheduler reads or writes
  are kept; the random ids and the texts of termination requests are left out.
\<close>

subsection \<open>Resources\<close>

type_synonym resources = "(string, rat) dict"

definition implicit_resource_prefix :: string where
  "implicit_resource_prefix = ''node:__internal_implicit_resource_''"

definition is_implicit :: "string \<Rightarrow> bool" where
  "is_implicit k \<longleftrightarrow> prefix implicit_resource_prefix k"

definition fits :: "resources \<Rightarrow> resources \<Rightarrow> bool" where
  "fits node req \<longleftrightarrow> list_all (\<lambda>(k, v). \<not> v > dict_get node k (if is_implicit k then 1 else 0)) req"

definition subtract_one :: "string \<times> rat \<Rightarrow> resources \<Rightarrow> resources result" where
  "subtract_one = (\<lambda>(k, v) node.
     if v = 0 then Inr node
     else rbind (case map_of node k of
                   Some w \<Rightarrow> Inr w
                 | None \<Rightarrow> if is_implicit k then Inr 1 else Inl (AssertionError k))
       (\<lambda>w. if w - v \<ge> 0 then Inr (AList.update k (w - v) node) else Inl (AssertionError k)))"

definition inplace_subtract :: "resources \<Rightarrow> resources \<Rightarrow> resources result" where
  "inplace_subtract node req = rfold subtract_one req node"

subsection \<open>Requests\<close>

datatype label_operator = LABEL_OPERATOR_UNSPECIFIED | LABEL_OPERATOR_IN | LABEL_OPERATOR_NOT_IN

record label_constraint =
  lc_key :: string
  lc_operator :: label_operator
  lc_values :: "string list"

type_synonym label_selector = "label_constraint list"

text \<open>A placement constraint has two optional parts, each a label name and value.\<close>

record placement_constraint =
  pc_anti_affinity :: "(string \<times> string) option"
  pc_affinity :: "(string \<times> string) option"

record resource_request =
  rq_bundle :: resources
  rq_constraints :: "placement_constraint list"
  rq_selectors :: "label_selector list"

record gang_request =
  gr_bundle_selectors :: "resource_request list list"
  gr_requests :: "resource_request list"

definition ungroup_by_count :: "(resource_request \<times> nat) list \<Rightarrow> resource_request list" where
  "ungroup_by_count rs = concat (map (\<lambda>(r, n). replicate n r) rs)"

text \<open>Requests with the same affinity and the same label selectors are merged into one.\<close>

definition label_selector_key :: "label_selector list \<Rightarrow> (string \<times> label_operator \<times> string list) list list" where
  "label_selector_key = map (map (\<lambda>c. (lc_key c, lc_operator c, sort (lc_values c))))"

type_synonym affinity_key = "string \<times> string \<times> (string \<times> label_operator \<times> string list) list list"

definition group_affinity ::
    "resource_request \<Rightarrow> resource_request list \<times> (affinity_key, resource_request list) dict \<Rightarrow>
     (resource_request list \<times> (affinity_key, resource_request list) dict) result" where
  "group_affinity r = (\<lambda>(combined, groups).
     case rq_constraints r of
       [] \<Rightarrow> Inr (combined @ [r], groups)
     | [c] \<Rightarrow>
         Inr (case pc_affinity c of
                Some (name, val) \<Rightarrow>
                  (let key = (name, val, label_selector_key (rq_selectors r))
                   in (combined, AList.update key (dict_get groups key [] @ [r]) groups))
              | None \<Rightarrow> if pc_anti_affinity c \<noteq> None then (combined @ [r], groups) else (combined, groups))
     | _ \<Rightarrow> Inl (AssertionError ''There should be at most 1 placement constraint''))"

definition merge_bundles_into :: "resource_request \<Rightarrow> resources \<Rightarrow> resources" where
  "merge_bundles_into r d = fold (\<lambda>(k, v) d. AList.update k (dict_get d k 0 + v) d) (rq_bundle r) d"

definition combined_request :: "affinity_key \<times> resource_request list \<Rightarrow> resource_request" where
  "combined_request = (\<lambda>((name, val, _), rs).
     \<lparr>rq_bundle = fold merge_bundles_into rs [],
      rq_constraints = [\<lparr>pc_anti_affinity = None, pc_affinity = Some (name, val)\<rparr>],
      rq_selectors = rq_selectors (hd rs)\<rparr>)"

definition combine_requests_with_affinity :: "resource_request list \<Rightarrow> resource_request list result" where
  "combine_requests_with_affinity rs =
     rbind (rfold group_affinity rs ([], [])) (\<lambda>(combined, groups). Inr (combined @ map combined_request groups))"

subsection \<open>In-place pod resize\<close>

record ippr_spec =
  ip_min_cpu :: rat
  ip_max_cpu :: rat
  ip_min_memory :: rat
  ip_max_memory :: rat
  ip_resize_timeout :: int

record ippr_status =
  is_cloud_id :: string
  is_spec :: ippr_spec
  is_current_cpu :: rat
  is_current_memory :: rat
  is_desired_cpu :: rat
  is_desired_memory :: rat
  is_resizing_at :: "int option"
  is_k8s_status :: "string option"
  is_k8s_message :: "string option"
  is_suggested_max_cpu :: "rat option"
  is_suggested_max_memory :: "rat option"
  is_last_failed_at :: "int option"
  is_raylet_id :: "string option"

definition queue_resize_request :: "rat option \<Rightarrow> rat option \<Rightarrow> ippr_status \<Rightarrow> bool \<times> ippr_status" where
  "queue_resize_request cpu mem s =
     (let (u1, s1) = (case cpu of
                        Some c \<Rightarrow> if c \<noteq> is_desired_cpu s then (True, s\<lparr>is_desired_cpu := c\<rparr>) else (False, s)
                      | None \<Rightarrow> (False, s));
          (u2, s2) = (case mem of
                        Some m \<Rightarrow> if m \<noteq> is_desired_memory s1 then (True, s1\<lparr>is_desired_memory := m\<rparr>) else (u1, s1)
                      | None \<Rightarrow> (u1, s1))
      in (u2, if u2 then s2\<lparr>is_resizing_at := None, is_k8s_status := Some ''new'', is_k8s_message := None\<rparr> else s2))"

definition has_resize_request_to_send :: "ippr_status \<Rightarrow> bool" where
  "has_resize_request_to_send s \<longleftrightarrow> is_raylet_id s \<noteq> None \<and> is_k8s_status s = Some ''new''"

definition is_in_progress :: "ippr_status \<Rightarrow> bool" where
  "is_in_progress s \<longleftrightarrow> is_resizing_at s \<noteq> None \<or> has_resize_request_to_send s"

definition is_k8s_resize_finished :: "ippr_status \<Rightarrow> bool" where
  "is_k8s_resize_finished s \<longleftrightarrow> is_k8s_status s = None"

definition is_raylet_synced :: "ippr_status \<Rightarrow> bool" where
  "is_raylet_synced s \<longleftrightarrow> is_resizing_at s = None"

definition max_cpu :: "ippr_status \<Rightarrow> rat" where
  "max_cpu s = (case is_suggested_max_cpu s of Some c \<Rightarrow> c | None \<Rightarrow> ip_max_cpu (is_spec s))"

definition max_memory :: "ippr_status \<Rightarrow> rat" where
  "max_memory s = (case is_suggested_max_memory s of Some c \<Rightarrow> c | None \<Rightarrow> ip_max_memory (is_spec s))"

definition can_resize_up :: "ippr_status \<Rightarrow> bool" where
  "can_resize_up s \<longleftrightarrow> is_last_failed_at s = None \<and> is_k8s_resize_finished s \<and> is_raylet_synced s \<and>
     (is_current_cpu s < max_cpu s \<or> is_current_memory s < max_memory s)"

subsection \<open>Nodes\<close>

datatype sched_status = To_Launch | Schedulable | To_Terminate
datatype request_source = Pending_Demand | Cluster_Resource_Constraint
datatype termination_cause = Idle | Max_Num_Node_Per_Type | Max_Num_Nodes | Outdated

record termination_request =
  tr_instance_id :: "string option"
  tr_ray_node_id :: string
  tr_cause :: termination_cause
  tr_instance_type :: string
  tr_instance_status :: "instance_status option"
  tr_max_num_nodes :: "int option"
  tr_max_num_nodes_per_type :: "int option"
  tr_idle_duration_ms :: "int option"

text \<open>\<open>sn_ref\<close> is the identity of the Python object: list entries with the same number are one object, and
  an assignment to one of them is seen in all.\<close>

record sched_node =
  sn_ref :: nat
  sn_type :: string
  sn_status :: sched_status
  sn_requests_demand :: "resource_request list"
  sn_requests_constraint :: "resource_request list"
  sn_avail_demand :: resources
  sn_avail_constraint :: resources
  sn_total :: resources
  sn_ippr_status :: "ippr_status option"
  sn_ippr_spec :: "ippr_spec option"
  sn_labels :: "(string, string) dict"
  sn_termination :: "termination_request option"
  sn_im_instance_id :: "string option"
  sn_im_status :: "instance_status option"
  sn_ray_node_id :: string
  sn_idle_ms :: int
  sn_launch_hash :: string
  sn_kind :: node_kind
  sn_priority :: int

definition get_available_resources :: "request_source \<Rightarrow> sched_node \<Rightarrow> resources" where
  "get_available_resources src n =
     (case src of Pending_Demand \<Rightarrow> sn_avail_demand n | Cluster_Resource_Constraint \<Rightarrow> sn_avail_constraint n)"

definition set_available_resources :: "request_source \<Rightarrow> resources \<Rightarrow> sched_node \<Rightarrow> sched_node" where
  "set_available_resources src d n =
     (case src of Pending_Demand \<Rightarrow> n\<lparr>sn_avail_demand := d\<rparr> | Cluster_Resource_Constraint \<Rightarrow> n\<lparr>sn_avail_constraint := d\<rparr>)"

definition get_sched_requests :: "request_source \<Rightarrow> sched_node \<Rightarrow> resource_request list" where
  "get_sched_requests src n =
     (case src of Pending_Demand \<Rightarrow> sn_requests_demand n | Cluster_Resource_Constraint \<Rightarrow> sn_requests_constraint n)"

definition add_sched_request :: "request_source \<Rightarrow> resource_request \<Rightarrow> sched_node \<Rightarrow> sched_node" where
  "add_sched_request src r n =
     (case src of
        Pending_Demand \<Rightarrow> n\<lparr>sn_requests_demand := sn_requests_demand n @ [r]\<rparr>
      | Cluster_Resource_Constraint \<Rightarrow> n\<lparr>sn_requests_constraint := sn_requests_constraint n @ [r]\<rparr>)"

definition adjust_available :: "string \<Rightarrow> rat \<Rightarrow> resources \<Rightarrow> resources" where
  "adjust_available k delta d = AList.update k (max 0 (dict_get d k 0 + delta)) d"

definition update_total_resource :: "string \<times> rat \<Rightarrow> sched_node \<Rightarrow> sched_node" where
  "update_total_resource = (\<lambda>(k, new_total) n.
     let delta = new_total - dict_get (sn_total n) k 0
     in n\<lparr>sn_total := AList.update k (max 0 new_total) (sn_total n),
          sn_avail_demand := adjust_available k delta (sn_avail_demand n),
          sn_avail_constraint := adjust_available k delta (sn_avail_constraint n)\<rparr>)"

definition update_total_resources :: "resources \<Rightarrow> sched_node \<Rightarrow> sched_node" where
  "update_total_resources new_totals n = fold update_total_resource new_totals n"

subsection \<open>Creating nodes\<close>

text \<open>The fields of a node type configuration; its constructor refuses wrong numbers of workers.\<close>

record node_type_config =
  nc_name :: string
  nc_min_workers :: int
  nc_max_workers :: int
  nc_idle_timeout_s :: "rat option"
  nc_priority :: int
  nc_resources :: resources
  nc_labels :: "(string, string) dict"
  nc_launch_hash :: string

definition config_ok :: "node_type_config \<Rightarrow> bool" where
  "config_ok c \<longleftrightarrow> nc_min_workers c \<le> nc_max_workers c \<and> nc_min_workers c \<ge> 0"

record ray_node =
  ry_total :: resources
  ry_available :: resources
  ry_labels :: "(string, string) dict"
  ry_dynamic_labels :: "(string, string) dict"
  ry_idle_ms :: int

record im_instance = inst +
  inst_launch_hash :: string

record autoscaler_instance =
  ai_cloud_id :: "string option"
  ai_ray_node :: "ray_node option"
  ai_im_instance :: "im_instance option"

definition new_node ::
    "string \<Rightarrow> resources \<Rightarrow> resources \<Rightarrow> (string, string) dict \<Rightarrow> sched_status \<Rightarrow> string option \<Rightarrow> instance_status option \<Rightarrow>
     string \<Rightarrow> int \<Rightarrow> string \<Rightarrow> node_kind \<Rightarrow> termination_request option \<Rightarrow> int \<Rightarrow> sched_node" where
  "new_node ty tot available labels st iid ist rid idle hash kind trm prio =
     \<lparr>sn_ref = 0, sn_type = ty, sn_status = st, sn_requests_demand = [], sn_requests_constraint = [],
      sn_avail_demand = available, sn_avail_constraint = tot, sn_total = tot, sn_ippr_status = None, sn_ippr_spec = None,
      sn_labels = labels, sn_termination = trm, sn_im_instance_id = iid, sn_im_status = ist, sn_ray_node_id = rid,
      sn_idle_ms = idle, sn_launch_hash = hash, sn_kind = kind, sn_priority = prio\<rparr>"

definition from_node_config ::
    "node_type_config \<Rightarrow> sched_status \<Rightarrow> node_kind \<Rightarrow> string option \<Rightarrow> instance_status option \<Rightarrow> sched_node" where
  "from_node_config c st kind iid ist =
     new_node (nc_name c) (nc_resources c) (nc_resources c) (nc_labels c) st iid ist [] 0 [] kind None (nc_priority c)"

definition is_schedulable :: "autoscaler_instance \<Rightarrow> bool" where
  "is_schedulable a \<longleftrightarrow>
     (case ai_im_instance a of None \<Rightarrow> False | Some i \<Rightarrow> is_ray_running_reachable (inst_status i))"

definition sched_node_new ::
    "autoscaler_instance \<Rightarrow> (string, node_type_config) dict \<Rightarrow> bool \<Rightarrow> sched_node option" where
  "sched_node_new a configs disable_check =
     (if \<not> is_schedulable a then None
      else (case ai_im_instance a of
              None \<Rightarrow> None
            | Some i \<Rightarrow>
                (let node_config = map_of configs (inst_type i)
                 in if inst_status i = RAY_RUNNING
                    then (case ai_ray_node a of
                            None \<Rightarrow> None
                          | Some ry \<Rightarrow>
                              Some (new_node (inst_type i) (ry_total ry) (ry_available ry)
                                (dict_update (ry_dynamic_labels ry) (dict_of (ry_labels ry))) Schedulable
                                (Some (inst_id i)) (Some (inst_status i)) (inst_node_id i) (ry_idle_ms ry) (inst_launch_hash i)
                                (inst_node_kind i) None (case node_config of Some c \<Rightarrow> nc_priority c | None \<Rightarrow> 0)))
                    else (case node_config of
                            None \<Rightarrow>
                              if disable_check then None
                              else Some (new_node (inst_type i) [] [] [] To_Terminate (Some (inst_id i)) (Some (inst_status i)) [] 0 []
                                WORKER
                                (Some \<lparr>tr_instance_id = Some (inst_id i), tr_ray_node_id = [], tr_cause = Outdated,
                                   tr_instance_type = inst_type i, tr_instance_status = Some (inst_status i),
                                   tr_max_num_nodes = None, tr_max_num_nodes_per_type = None, tr_idle_duration_ms = None\<rparr>) 0)
                          | Some c \<Rightarrow>
                              Some (from_node_config c Schedulable (inst_node_kind i) (Some (inst_id i)) (Some (inst_status i)))))))"

subsection \<open>Labels\<close>

definition constraint_ok :: "(string, string) dict \<Rightarrow> label_constraint \<Rightarrow> bool" where
  "constraint_ok labels c =
     (let node_val = map_of labels (lc_key c)
      in case lc_operator c of
           LABEL_OPERATOR_IN \<Rightarrow> node_val \<in> Some ` set (lc_values c)
         | LABEL_OPERATOR_NOT_IN \<Rightarrow> node_val \<notin> Some ` set (lc_values c)
         | LABEL_OPERATOR_UNSPECIFIED \<Rightarrow> False)"

text \<open>The number of selectors from the first satisfied one on, 0 if none is.\<close>

fun selector_rank :: "(string, string) dict \<Rightarrow> label_selector list \<Rightarrow> nat" where
  "selector_rank labels [] = 0"
| "selector_rank labels (s # ss) = (if list_all (constraint_ok labels) s then length (s # ss) else selector_rank labels ss)"

fun satisfies_label_constraints :: "(string, string) dict \<Rightarrow> resource_request list \<Rightarrow> nat" where
  "satisfies_label_constraints labels [] = 0"
| "satisfies_label_constraints labels (r # rs) =
     (let k = selector_rank labels (rq_selectors r)
      in if k > 0 then k else satisfies_label_constraints labels rs)"

definition add_label :: "string \<times> string \<Rightarrow> (string, string) dict \<Rightarrow> (string, string) dict result" where
  "add_label = (\<lambda>(name, val) labels.
     if map_of labels name = None \<or> map_of labels name = Some val then Inr (AList.update name val labels)
     else Inl (AssertionError name))"

subsection \<open>Scheduling on one node\<close>

definition anti_affinities :: "resource_request \<Rightarrow> (string \<times> string) list" where
  "anti_affinities r = List.map_filter pc_anti_affinity (rq_constraints r)"

text \<open>The guards of \<open>_try_schedule_one\<close>, in the order of the code.\<close>

definition can_schedule :: "(string, string) dict \<Rightarrow> resources \<Rightarrow> resource_request \<Rightarrow> bool" where
  "can_schedule labels avail r \<longleftrightarrow>
     (if rq_selectors r \<noteq> [] \<and> satisfies_label_constraints labels [r] = 0 then False
      else if list_ex (\<lambda>(name, val). map_of labels name = Some val) (anti_affinities r) then False
      else fits avail (rq_bundle r))"

definition try_schedule_one :: "request_source \<Rightarrow> resource_request \<Rightarrow> sched_node \<Rightarrow> (bool \<times> sched_node) result" where
  "try_schedule_one src r n =
     (if \<not> can_schedule (sn_labels n) (get_available_resources src n) r then Inr (False, n)
      else rbind (inplace_subtract (get_available_resources src n) (rq_bundle r)) (\<lambda>avail.
             let n1 = add_sched_request src r (set_available_resources src avail n)
             in rbind (rfold add_label (anti_affinities r) (sn_labels n1)) (\<lambda>labels.
                  Inr (True, n1\<lparr>sn_labels := labels\<rparr>))))"

text \<open>The cache of requests that did not fit. Its keys are the deterministic serializations of the
  requests, which list the resources by name; the memo of the last key is left out.\<close>

definition shape_key :: "resource_request \<Rightarrow> (string \<times> rat) list \<times> placement_constraint list \<times> label_selector list" where
  "shape_key r = (sort (rq_bundle r), rq_constraints r, rq_selectors r)"

type_synonym shape_cache = "((string \<times> rat) list \<times> placement_constraint list \<times> label_selector list) list"

fun try_schedule_loop ::
    "request_source \<Rightarrow> resource_request list \<Rightarrow> shape_cache \<Rightarrow> sched_node \<Rightarrow> (resource_request list \<times> sched_node) result" where
  "try_schedule_loop src [] cache n = Inr ([], n)"
| "try_schedule_loop src (r # rs) cache n =
     (if shape_key r \<in> set cache
      then rbind (try_schedule_loop src rs cache n) (\<lambda>(un, n'). Inr (r # un, n'))
      else rbind (try_schedule_one src r n) (\<lambda>(ok, n1).
             if \<not> ok then rbind (try_schedule_loop src rs (shape_key r # cache) n1) (\<lambda>(un, n'). Inr (r # un, n'))
             else try_schedule_loop src rs (if length (sn_labels n1) > length (sn_labels n) then [] else cache) n1))"

type_synonym utilization_score = "nat \<times> bool \<times> nat \<times> rat \<times> rat"

definition sched_resource_types :: "resource_request list \<Rightarrow> string list" where
  "sched_resource_types rs = remdups (map fst (filter (\<lambda>(k, v). v > 0) (concat (map rq_bundle rs))))"

fun util_by_resources :: "resources \<Rightarrow> resources \<Rightarrow> rat list result" where
  "util_by_resources avail [] = Inr []"
| "util_by_resources avail ((k, v) # tot) =
     (if v = 0 then util_by_resources avail tot
      else (case map_of avail k of
              None \<Rightarrow> util_by_resources avail tot
            | Some a \<Rightarrow>
                (let util = (v - a) / v
                 in if util \<ge> 0 \<and> util \<le> 1
                    then rbind (util_by_resources avail tot) (\<lambda>us. Inr (v * util ^ 3 # us))
                    else Inl (AssertionError ''Invalid utilization''))))"

definition compute_score :: "bool \<Rightarrow> request_source \<Rightarrow> sched_node \<Rightarrow> utilization_score result" where
  "compute_score conserve_gpu src n =
     (let rs = get_sched_requests src n;
          avail = get_available_resources src n;
          num_matching = length (filter (\<lambda>k. k \<in> fst ` set (sn_total n)) (sched_resource_types rs))
      in rbind (util_by_resources avail (sn_total n)) (\<lambda>us.
           let gpu_ok = \<not> (conserve_gpu \<and> dict_get (sn_total n) ''GPU'' 0 > 0 \<and>
                            \<not> list_ex (\<lambda>r. ''GPU'' \<in> fst ` set (rq_bundle r)) rs)
           in Inr (satisfies_label_constraints (sn_labels n) rs, gpu_ok, num_matching,
                   if us \<noteq> [] then Min (set us) else 0,
                   if us \<noteq> [] then sum_list us / of_nat (length us) else 0)))"

definition try_schedule ::
    "bool \<Rightarrow> request_source \<Rightarrow> resource_request list \<Rightarrow> sched_node \<Rightarrow> (resource_request list \<times> utilization_score \<times> sched_node) result" where
  "try_schedule conserve_gpu src rs n =
     rbind (try_schedule_loop src rs [] n) (\<lambda>(un, n').
       rbind (compute_score conserve_gpu src n') (\<lambda>score. Inr (un, score, n')))"

end
