(* ===== verification/Sched_Node_Props.thy ===== *)
theory Sched_Node_Props
  imports Sched_Node
begin

section \<open>Scheduling requests on one node\<close>

text \<open>
  The cache of requests that did not fit changes no result, no resource is given away twice, and
  the assertions of the node operations hold for sane resources and labels.
\<close>

subsection \<open>Resource arithmetic\<close>

definition amount :: "resources \<Rightarrow> string \<Rightarrow> rat" where
  "amount d k = dict_get d k (if is_implicit k then 1 else 0)"

definition bundle_ok :: "resource_request \<Rightarrow> bool" where
  "bundle_ok r \<longleftrightarrow> distinct (map fst (rq_bundle r)) \<and> (\<forall>k v. (k, v) \<in> set (rq_bundle r) \<longrightarrow> 0 \<le> v)"

definition demand_of :: "resource_request \<Rightarrow> string \<Rightarrow> rat" where
  "demand_of r k = dict_get (rq_bundle r) k 0"

definition nonneg :: "resources \<Rightarrow> bool" where
  "nonneg d \<longleftrightarrow> (\<forall>k a. map_of d k = Some a \<longrightarrow> 0 \<le> a)"

text \<open>What is available is not negative and at most the total.\<close>

definition res_ok :: "resources \<Rightarrow> resources \<Rightarrow> bool" where
  "res_ok tot avail \<longleftrightarrow> distinct (map fst tot) \<and> nonneg tot \<and> nonneg avail \<and> (\<forall>k. amount avail k \<le> amount tot k)"

lemma amount_update [simp]: "amount (AList.update k v d) k' = (if k' = k then v else amount d k')"
  by (simp add: amount_def dict_get_def map_of_update)

lemma fits_iff: "fits d b \<longleftrightarrow> (\<forall>k v. (k, v) \<in> set b \<longrightarrow> v \<le> amount d k)"
  by (auto simp: fits_def amount_def list_all_iff not_less)

lemma amount_nonneg: "nonneg d \<Longrightarrow> 0 \<le> amount d k"
  by (auto simp: nonneg_def amount_def dict_get_def split: option.splits)

lemma subtract_one_ok:
  assumes "0 \<le> v" and "v \<le> amount d k"
  shows "\<exists>d'. subtract_one (k, v) d = Inr d' \<and> (\<forall>k'. amount d' k' = amount d k' - (if k' = k then v else 0)) \<and>
    (nonneg d \<longrightarrow> nonneg d')"
proof (cases "v = 0")
  case False
  obtain w where w: "(case map_of d k of Some w \<Rightarrow> Inr w | None \<Rightarrow> if is_implicit k then Inr 1 else Inl (AssertionError k)) = Inr w"
    "amount d k = w"
    using assms False by (auto simp: amount_def dict_get_def split: option.splits if_splits)
  then have "subtract_one (k, v) d = Inr (AList.update k (w - v) d)"
    using assms(2) False by (simp add: subtract_one_def)
  then show ?thesis using w assms by (auto simp: nonneg_def map_of_update split: if_splits)
qed (simp add: subtract_one_def)

lemma inplace_subtract_ok:
  assumes "distinct (map fst b)" and "\<forall>k v. (k, v) \<in> set b \<longrightarrow> 0 \<le> v" and "fits d b"
  shows "\<exists>d'. inplace_subtract d b = Inr d' \<and> (\<forall>k. amount d' k = amount d k - dict_get b k 0) \<and>
    (nonneg d \<longrightarrow> nonneg d')"
  using assms
proof (induction b arbitrary: d)
  case (Cons p b)
  obtain k v where p: "p = (k, v)" by (cases p)
  from Cons.prems have k: "0 \<le> v" "v \<le> amount d k" "k \<notin> fst ` set b" by (auto simp: p fits_iff)
  from subtract_one_ok [OF k(1,2)] obtain d1 where d1: "subtract_one (k, v) d = Inr d1"
    "\<forall>k'. amount d1 k' = amount d k' - (if k' = k then v else 0)"
    "nonneg d \<longrightarrow> nonneg d1" by blast
  have "fits d1 b" unfolding fits_iff
  proof (intro allI impI)
    fix k' v' assume b: "(k', v') \<in> set b"
    then have "k' \<noteq> k" using k(3) by force
    then show "v' \<le> amount d1 k'" using Cons.prems(3) d1(2) b by (auto simp: fits_iff p)
  qed
  with Cons.IH [of d1] Cons.prems obtain d2 where d2: "inplace_subtract d1 b = Inr d2"
    "\<forall>k. amount d2 k = amount d1 k - dict_get b k 0"
    "nonneg d1 \<longrightarrow> nonneg d2" by auto
  have "map_of b k = None" using k(3) by (simp add: map_of_eq_None_iff)
  then have "\<forall>k'. amount d2 k' = amount d k' - dict_get (p # b) k' 0" using d1(2) d2(2) by (simp add: p dict_get_def)
  then show ?case using d1 d2 by (simp add: p inplace_subtract_def)
qed (simp add: inplace_subtract_def dict_get_def)

subsection \<open>Labels\<close>

lemma length_dict_store: "length (AList.update k v d) = (if k \<in> fst ` set d then length d else Suc (length d))"
  by (induction d) auto

lemma add_label_map:
  "add_label (name, val) l = Inr l' \<Longrightarrow> map_of l' = (map_of l)(name \<mapsto> val) \<and>
    length l' = (if name \<in> fst ` set l then length l else Suc (length l))"
  unfolding add_label_def by (cases "map_of l name = None \<or> map_of l name = Some val")
    (auto simp only: prod.case if_True if_False sum.inject sum.distinct map_of_update length_dict_store)

lemma add_labels_same:
  assumes "rfold add_label as l = Inr l'"
  shows "length l \<le> length l' \<and> (length l' = length l \<longrightarrow> map_of l' = map_of l)"
  using assms
proof (induction as arbitrary: l)
  case (Cons a as)
  obtain name val where a: "a = (name, val)" by (cases a)
  from Cons.prems obtain l1 where l1: "add_label (name, val) l = Inr l1" "rfold add_label as l1 = Inr l'"
    by (auto simp: a rbind_eq_Inr)
  have m: "map_of l1 = (map_of l)(name \<mapsto> val)" "length l1 = (if name \<in> fst ` set l then length l else Suc (length l))"
    using add_label_map [OF l1(1)] by auto
  have same: "map_of l1 = map_of l" if "name \<in> fst ` set l"
  proof -
    have "map_of l name = Some val" using l1(1) that by (auto simp: add_label_def map_of_eq_None_iff split: if_splits)
    then show ?thesis unfolding m(1) by (simp add: fun_upd_idem)
  qed
  show ?case using Cons.IH [OF l1(2)] m(2) same by (auto split: if_splits)
qed simp

text \<open>Every label name that the requests use for anti-affinity has one value.\<close>

definition label_consistent :: "(string \<Rightarrow> string) \<Rightarrow> resource_request list \<Rightarrow> (string, string) dict \<Rightarrow> bool" where
  "label_consistent f rs labels \<longleftrightarrow>
     (\<forall>r\<in>set rs. \<forall>name val. (name, val) \<in> set (anti_affinities r) \<longrightarrow> val = f name \<and> map_of labels name \<in> {None, Some (f name)})"

lemma add_labels_ok:
  assumes "\<forall>name val. (name, val) \<in> set as \<longrightarrow> val = f name \<and> map_of l name \<in> {None, Some (f name)}"
  shows "\<exists>l'. rfold add_label as l = Inr l' \<and> (\<forall>name. map_of l' name = (if name \<in> fst ` set as then Some (f name) else map_of l name))"
  using assms
proof (induction as arbitrary: l)
  case (Cons a as)
  obtain name val where a: "a = (name, val)" by (cases a)
  from Cons.prems have ok: "val = f name" "map_of l name \<in> {None, Some (f name)}" by (auto simp: a)
  let ?l1 = "AList.update name val l"
  have 1: "add_label a l = Inr ?l1" using ok by (auto simp: a add_label_def)
  have "\<forall>n v. (n, v) \<in> set as \<longrightarrow> v = f n \<and> map_of ?l1 n \<in> {None, Some (f n)}"
    using Cons.prems ok(1) by (metis fun_upd_apply insertCI list.set_intros(2) map_of_update)
  from Cons.IH [OF this] 1 show ?case using ok by (auto simp: a map_of_update)
qed simp

lemma label_consistent_head:
  "label_consistent f (r # rs) l \<Longrightarrow> \<forall>name val. (name, val) \<in> set (anti_affinities r) \<longrightarrow> val = f name \<and> map_of l name \<in> {None, Some (f name)}"
  unfolding label_consistent_def by (meson list.set_intros(1))

lemma label_consistent_mono:
  assumes "label_consistent f rs l" and "set rs' \<subseteq> set rs" and "\<And>name. map_of l' name = map_of l name \<or> map_of l' name = Some (f name)"
  shows "label_consistent f rs' l'"
  unfolding label_consistent_def
proof (intro ballI allI impI)
  fix r name val assume "r \<in> set rs'" "(name, val) \<in> set (anti_affinities r)"
  with assms(1,2) have "val = f name \<and> map_of l name \<in> {None, Some (f name)}" unfolding label_consistent_def by blast
  then show "val = f name \<and> map_of l' name \<in> {None, Some (f name)}" using assms(3) [of name] by auto
qed

subsection \<open>One request\<close>

lemma can_schedule_mono:
  assumes "\<not> can_schedule l d r" and "map_of l' = map_of l" and "\<And>k. amount d' k \<le> amount d k"
  shows "\<not> can_schedule l' d' r"
proof -
  have c: "constraint_ok l' = constraint_ok l" using assms(2) by (simp add: fun_eq_iff constraint_ok_def)
  have s: "selector_rank l' ss = selector_rank l ss" for ss by (induction ss) (simp_all add: c)
  have f: "fits d b" if "fits d' b" for b using that assms(3) unfolding fits_iff by (meson order_trans)
  show ?thesis using assms(1) f by (auto simp: can_schedule_def s assms(2) Let_def split: if_splits)
qed

lemma can_schedule_shape: "shape_key r = shape_key r' \<Longrightarrow> can_schedule l d r = can_schedule l d r'"
proof -
  assume k: "shape_key r = shape_key r'"
  then have "set (rq_bundle r) = set (rq_bundle r')" by (metis shape_key_def prod.inject set_sort)
  then have "fits d (rq_bundle r) = fits d (rq_bundle r')" by (simp add: fits_iff)
  then show ?thesis using k by (simp add: can_schedule_def shape_key_def anti_affinities_def)
qed

text \<open>The fields of a node that scheduling does not touch.\<close>

definition node_core :: "sched_node \<Rightarrow> sched_node" where
  "node_core n = n\<lparr>sn_requests_demand := [], sn_requests_constraint := [], sn_avail_demand := [], sn_avail_constraint := [],
     sn_labels := []\<rparr>"

lemma node_core_fields:
  assumes "node_core n' = node_core n"
  shows "sn_ref n' = sn_ref n" "sn_type n' = sn_type n" "sn_status n' = sn_status n" "sn_total n' = sn_total n"
    "sn_ippr_status n' = sn_ippr_status n" "sn_termination n' = sn_termination n" "sn_kind n' = sn_kind n"
    "sn_ray_node_id n' = sn_ray_node_id n" "sn_im_instance_id n' = sn_im_instance_id n" "sn_idle_ms n' = sn_idle_ms n"
  using assms by (cases n; cases n'; simp add: node_core_def)+

lemmas source_defs = get_available_resources_def set_available_resources_def get_sched_requests_def add_sched_request_def

lemma try_schedule_one_False: "\<not> can_schedule (sn_labels n) (get_available_resources src n) r \<Longrightarrow> try_schedule_one src r n = Inr (False, n)"
  by (simp add: try_schedule_one_def)

lemma try_schedule_one_Inr:
  assumes "try_schedule_one src r n = Inr (ok, n')" and "bundle_ok r"
  shows "(if ok
     then (\<forall>k. amount (get_available_resources src n') k = amount (get_available_resources src n) k - demand_of r k) \<and>
       (nonneg (get_available_resources src n) \<longrightarrow> nonneg (get_available_resources src n')) \<and>
       get_sched_requests src n' = get_sched_requests src n @ [r] \<and>
       rfold add_label (anti_affinities r) (sn_labels n) = Inr (sn_labels n')
     else n' = n \<and> \<not> can_schedule (sn_labels n) (get_available_resources src n) r) \<and>
    node_core n' = node_core n \<and>
    (\<forall>s. s \<noteq> src \<longrightarrow> get_available_resources s n' = get_available_resources s n \<and> get_sched_requests s n' = get_sched_requests s n)"
proof (cases "can_schedule (sn_labels n) (get_available_resources src n) r")
  case True
  let ?d = "get_available_resources src n"
  have "fits ?d (rq_bundle r)" using True by (auto simp: can_schedule_def split: if_splits)
  with assms(2) inplace_subtract_ok [of "rq_bundle r" ?d] obtain d' where d': "inplace_subtract ?d (rq_bundle r) = Inr d'"
    "\<forall>k. amount d' k = amount ?d k - demand_of r k" "nonneg ?d \<longrightarrow> nonneg d'"
    by (auto simp: bundle_ok_def demand_of_def)
  have lab: "sn_labels (add_sched_request src r (set_available_resources src d' n)) = sn_labels n"
    by (simp add: source_defs split: request_source.splits)
  from assms(1) True obtain l where l: "rfold add_label (anti_affinities r) (sn_labels n) = Inr l" "ok"
    "n' = (add_sched_request src r (set_available_resources src d' n))\<lparr>sn_labels := l\<rparr>"
    by (auto simp: try_schedule_one_def d'(1) Let_def rbind_eq_Inr lab)
  have "get_available_resources src n' = d'" "get_sched_requests src n' = get_sched_requests src n @ [r]" "sn_labels n' = l"
    "node_core n' = node_core n"
    "\<forall>s. s \<noteq> src \<longrightarrow> get_available_resources s n' = get_available_resources s n \<and> get_sched_requests s n' = get_sched_requests s n"
    unfolding l(3) by (simp_all add: source_defs node_core_def split: request_source.splits)
  then show ?thesis using l d' by simp
next
  case False
  then show ?thesis using assms(1) by (simp add: try_schedule_one_False)
qed

lemma demand_nonneg: "bundle_ok r \<Longrightarrow> 0 \<le> demand_of r k"
  by (auto simp: bundle_ok_def demand_of_def dict_get_def split: option.splits dest: map_of_SomeD)

subsection \<open>The cache is transparent\<close>

fun try_schedule_plain ::
    "request_source \<Rightarrow> resource_request list \<Rightarrow> sched_node \<Rightarrow> (resource_request list \<times> sched_node) result" where
  "try_schedule_plain src [] n = Inr ([], n)"
| "try_schedule_plain src (r # rs) n =
     rbind (try_schedule_one src r n) (\<lambda>(ok, n1).
       rbind (try_schedule_plain src rs n1) (\<lambda>(un, n'). Inr (if ok then un else r # un, n')))"

definition cache_ok :: "shape_cache \<Rightarrow> request_source \<Rightarrow> sched_node \<Rightarrow> bool" where
  "cache_ok cache src n \<longleftrightarrow>
     (\<forall>r. shape_key r \<in> set cache \<longrightarrow> \<not> can_schedule (sn_labels n) (get_available_resources src n) r)"

lemma rbind_Inr_id: "rbind x Inr = x"
  by (cases x) auto

lemma try_schedule_loop_plain:
  assumes "\<forall>r\<in>set rs. bundle_ok r" and "cache_ok cache src n"
  shows "try_schedule_loop src rs cache n = try_schedule_plain src rs n"
  using assms
proof (induction rs arbitrary: cache n)
  case (Cons r rs)
  show ?case
  proof (cases "shape_key r \<in> set cache")
    case True
    then have "try_schedule_one src r n = Inr (False, n)"
      using Cons.prems(2) by (intro try_schedule_one_False) (auto simp: cache_ok_def)
    then show ?thesis using True Cons by simp
  next
    case False
    show ?thesis
    proof (cases "try_schedule_one src r n")
      case (Inr p)
      obtain ok n1 where p: "p = (ok, n1)" by (cases p)
      have one: "try_schedule_one src r n = Inr (ok, n1)" using Inr p by simp
      note step = try_schedule_one_Inr [OF one]
      have b: "bundle_ok r" using Cons.prems(1) by simp
      show ?thesis
      proof (cases ok)
        case True
        have mono: "amount (get_available_resources src n1) k \<le> amount (get_available_resources src n) k" for k
          using step [OF b] True demand_nonneg [OF b, of k] by simp
        have lab: "length (sn_labels n) \<le> length (sn_labels n1)"
          "length (sn_labels n1) = length (sn_labels n) \<Longrightarrow> map_of (sn_labels n1) = map_of (sn_labels n)"
          using step [OF b] True add_labels_same [of "anti_affinities r" "sn_labels n" "sn_labels n1"] by auto
        have "cache_ok (if length (sn_labels n1) > length (sn_labels n) then [] else cache) src n1"
        proof (cases "length (sn_labels n1) > length (sn_labels n)")
          case F: False
          then have same: "map_of (sn_labels n1) = map_of (sn_labels n)" using lab by simp
          have "\<not> can_schedule (sn_labels n1) (get_available_resources src n1) r'" if "shape_key r' \<in> set cache" for r'
            by (rule can_schedule_mono [OF _ same mono]) (use Cons.prems(2) that in \<open>auto simp: cache_ok_def\<close>)
          then show ?thesis using F by (simp add: cache_ok_def)
        qed (simp add: cache_ok_def)
        then show ?thesis using False True one Cons by (simp add: rbind_Inr_id)
      next
        case F: False
        then have n: "n1 = n" "\<not> can_schedule (sn_labels n) (get_available_resources src n) r" using step [OF b] by auto
        have "cache_ok (shape_key r # cache) src n1"
          unfolding cache_ok_def
        proof (intro allI impI)
          fix r' assume "shape_key r' \<in> set (shape_key r # cache)"
          then show "\<not> can_schedule (sn_labels n1) (get_available_resources src n1) r'"
            using Cons.prems(2) n can_schedule_shape [of r' r] by (auto simp: cache_ok_def)
        qed
        then show ?thesis using False F one Cons by simp
      qed
    qed (use False in simp)
  qed
qed simp

lemma cache_ok_Nil [simp]: "cache_ok [] src n"
  by (simp add: cache_ok_def)

subsection \<open>No resource is given away twice\<close>

definition total_demand :: "resource_request list \<Rightarrow> string \<Rightarrow> rat" where
  "total_demand rs k = sum_list (map (\<lambda>r. demand_of r k) rs)"

definition node_ok :: "request_source \<Rightarrow> sched_node \<Rightarrow> bool" where
  "node_ok src n \<longleftrightarrow> res_ok (sn_total n) (get_available_resources src n)"

lemma try_schedule_one_ok:
  assumes "bundle_ok r" and "label_consistent f (r # rs) (sn_labels n)"
  shows "\<exists>ok n'. try_schedule_one src r n = Inr (ok, n') \<and> label_consistent f rs (sn_labels n')"
proof (cases "can_schedule (sn_labels n) (get_available_resources src n) r")
  case True
  let ?d = "get_available_resources src n"
  have "fits ?d (rq_bundle r)" using True by (auto simp: can_schedule_def split: if_splits)
  with assms(1) inplace_subtract_ok [of "rq_bundle r" ?d] obtain d' where d': "inplace_subtract ?d (rq_bundle r) = Inr d'"
    by (auto simp: bundle_ok_def)
  have lab: "sn_labels (add_sched_request src r (set_available_resources src d' n)) = sn_labels n"
    by (simp add: source_defs split: request_source.splits)
  from add_labels_ok [OF label_consistent_head [OF assms(2)]] obtain l where
    l: "rfold add_label (anti_affinities r) (sn_labels n) = Inr l"
    "\<forall>name. map_of l name = (if name \<in> fst ` set (anti_affinities r) then Some (f name) else map_of (sn_labels n) name)"
    by blast
  have "label_consistent f rs l" using l(2) by (intro label_consistent_mono [OF assms(2)]) auto
  then show ?thesis using True d' l(1) lab
    by (intro exI [of _ True] exI [of _ "(add_sched_request src r (set_available_resources src d' n))\<lparr>sn_labels := l\<rparr>"])
      (simp add: try_schedule_one_def Let_def)
next
  case False
  have "label_consistent f rs (sn_labels n)" by (rule label_consistent_mono [OF assms(2)]) auto
  then show ?thesis using try_schedule_one_False [OF False] by blast
qed

lemma res_ok_decrease:
  "res_ok tot d \<Longrightarrow> (\<And>k. amount d' k \<le> amount d k) \<Longrightarrow> nonneg d' \<Longrightarrow> res_ok tot d'"
  unfolding res_ok_def by (meson order_trans)

lemma res_ok_total: "res_ok tot avail \<Longrightarrow> (k, v) \<in> set tot \<Longrightarrow> 0 \<le> v \<and> amount avail k \<le> v"
proof -
  assume r: "res_ok tot avail" "(k, v) \<in> set tot"
  then have "map_of tot k = Some v" by (simp add: res_ok_def)
  then have "0 \<le> v" "amount tot k = v" using r(1) by (auto simp: res_ok_def nonneg_def amount_def dict_get_def)
  then show ?thesis using r(1) by (metis res_ok_def)
qed

text \<open>What a run over the requests leaves behind.\<close>

lemma try_schedule_plain_ok:
  assumes "\<forall>r\<in>set rs. bundle_ok r" and "label_consistent f rs (sn_labels n)" and "node_ok src n"
  shows "\<exists>un n' placed. try_schedule_plain src rs n = Inr (un, n') \<and> mset rs = mset placed + mset un \<and>
    get_sched_requests src n' = get_sched_requests src n @ placed \<and>
    (\<forall>k. amount (get_available_resources src n') k = amount (get_available_resources src n) k - total_demand placed k) \<and>
    node_ok src n' \<and> node_core n' = node_core n \<and>
    (\<forall>s. s \<noteq> src \<longrightarrow> get_available_resources s n' = get_available_resources s n \<and> get_sched_requests s n' = get_sched_requests s n) \<and>
    (placed = [] \<longrightarrow> n' = n \<and> (\<forall>r\<in>set rs. \<not> can_schedule (sn_labels n) (get_available_resources src n) r)) \<and>
    (\<forall>name. map_of (sn_labels n') name = map_of (sn_labels n) name \<or>
       (\<exists>r\<in>set rs. name \<in> fst ` set (anti_affinities r) \<and> map_of (sn_labels n') name = Some (f name)))"
  using assms
proof (induction rs arbitrary: n)
  case (Cons r rs)
  have b: "bundle_ok r" using Cons.prems(1) by simp
  from try_schedule_one_ok [OF b Cons.prems(2)] obtain ok n1 where
    one: "try_schedule_one src r n = Inr (ok, n1)" "label_consistent f rs (sn_labels n1)" by blast
  note step = try_schedule_one_Inr [OF one(1) b]
  let ?av = "get_available_resources src"
  have core: "node_core n1 = node_core n" using step by (elim conjE)
  note total = node_core_fields(4) [OF core]
  have dec: "amount (?av n1) k = amount (?av n) k - (if ok then demand_of r k else 0)" for k using step by (cases ok) auto
  have nn: "nonneg (?av n1)" using step Cons.prems(3) by (cases ok) (auto simp: node_ok_def res_ok_def)
  have "amount (?av n1) k \<le> amount (?av n) k" for k using dec [of k] demand_nonneg [OF b, of k] by (cases ok) auto
  then have n1: "node_ok src n1" using res_ok_decrease [of _ "?av n" "?av n1"] Cons.prems(3) nn total by (simp add: node_ok_def)
  from Cons.IH [OF _ one(2) n1] Cons.prems(1) obtain un n' placed where IH:
    "try_schedule_plain src rs n1 = Inr (un, n')" "mset rs = mset placed + mset un"
    "get_sched_requests src n' = get_sched_requests src n1 @ placed"
    "\<forall>k. amount (?av n') k = amount (?av n1) k - total_demand placed k" "node_ok src n'" "node_core n' = node_core n1"
    "\<forall>s. s \<noteq> src \<longrightarrow> get_available_resources s n' = get_available_resources s n1 \<and> get_sched_requests s n' = get_sched_requests s n1"
    "placed = [] \<longrightarrow> n' = n1 \<and> (\<forall>r\<in>set rs. \<not> can_schedule (sn_labels n1) (?av n1) r)"
    "\<forall>name. map_of (sn_labels n') name = map_of (sn_labels n1) name \<or>
       (\<exists>r\<in>set rs. name \<in> fst ` set (anti_affinities r) \<and> map_of (sn_labels n') name = Some (f name))" by auto
  have lab: "map_of (sn_labels n1) name = map_of (sn_labels n) name \<or>
      name \<in> fst ` set (anti_affinities r) \<and> map_of (sn_labels n1) name = Some (f name)" for name
  proof (cases ok)
    case True
    then have "rfold add_label (anti_affinities r) (sn_labels n) = Inr (sn_labels n1)" using step by simp
    then show ?thesis using add_labels_ok [OF label_consistent_head [OF Cons.prems(2)]] by auto
  qed (use step in simp)
  have labs: "map_of (sn_labels n') name = map_of (sn_labels n) name \<or>
       (\<exists>r'\<in>set (r # rs). name \<in> fst ` set (anti_affinities r') \<and> map_of (sn_labels n') name = Some (f name))" for name
    using lab [of name] spec [OF IH(9), of name] by auto
  let ?p = "if ok then r # placed else placed" and ?u = "if ok then un else r # un"
  have "try_schedule_plain src (r # rs) n = Inr (?u, n')" using one(1) IH(1) by simp
  moreover have "mset (r # rs) = mset ?p + mset ?u" using IH(2) by simp
  moreover have "get_sched_requests src n' = get_sched_requests src n @ ?p" using step IH(3) by (cases ok) auto
  moreover have "\<forall>k. amount (?av n') k = amount (?av n) k - total_demand ?p k" using dec IH(4) by (cases ok) (auto simp: total_demand_def)
  moreover have "node_core n' = node_core n" using step IH(6) by simp
  moreover have "\<forall>s. s \<noteq> src \<longrightarrow> get_available_resources s n' = get_available_resources s n \<and> get_sched_requests s n' = get_sched_requests s n"
    using step IH(7) by simp
  moreover have "?p = [] \<longrightarrow> n' = n \<and> (\<forall>r'\<in>set (r # rs). \<not> can_schedule (sn_labels n) (?av n) r')"
    using step IH(8) by (cases ok) auto
  ultimately show ?case using IH(5) labs by blast
qed (simp add: total_demand_def)

lemma util_by_resources_ok:
  assumes "\<forall>k v. (k, v) \<in> set tot \<longrightarrow> 0 \<le> v \<and> amount avail k \<le> v" and "nonneg avail"
  shows "\<exists>us. util_by_resources avail tot = Inr us"
  using assms(1)
proof (induction tot)
  case (Cons p tot)
  obtain k v where p: "p = (k, v)" by (cases p)
  from Cons obtain us where us: "util_by_resources avail tot = Inr us" by auto
  show ?case
  proof (cases "v = 0 \<or> map_of avail k = None")
    case False
    then obtain a where a: "map_of avail k = Some a" "v \<noteq> 0" by auto
    then have "0 \<le> a" "a \<le> v" "0 < v" using Cons.prems assms(2) by (auto simp: p nonneg_def amount_def dict_get_def order_less_le)
    then have "0 \<le> (v - a) / v \<and> (v - a) / v \<le> 1" by simp
    then show ?thesis using a us by (simp add: p Let_def)
  qed (use us in \<open>auto simp: p\<close>)
qed simp

lemma compute_score_ok: "node_ok src n \<Longrightarrow> \<exists>sc. compute_score cg src n = Inr sc"
proof -
  assume r: "node_ok src n"
  then have "\<forall>k v. (k, v) \<in> set (sn_total n) \<longrightarrow> 0 \<le> v \<and> amount (get_available_resources src n) k \<le> v"
    "nonneg (get_available_resources src n)" using res_ok_total by (auto simp: node_ok_def res_ok_def)
  from util_by_resources_ok [OF this] show ?thesis by (auto simp: compute_score_def Let_def)
qed

lemma try_schedule_ok:
  assumes "\<forall>r\<in>set rs. bundle_ok r" and "label_consistent f rs (sn_labels n)" and "node_ok src n"
  shows "\<exists>un sc n' placed. try_schedule cg src rs n = Inr (un, sc, n') \<and> mset rs = mset placed + mset un \<and>
    get_sched_requests src n' = get_sched_requests src n @ placed \<and>
    (\<forall>k. amount (get_available_resources src n') k = amount (get_available_resources src n) k - total_demand placed k) \<and>
    node_ok src n' \<and> node_core n' = node_core n \<and>
    (\<forall>s. s \<noteq> src \<longrightarrow> get_available_resources s n' = get_available_resources s n \<and> get_sched_requests s n' = get_sched_requests s n) \<and>
    (placed = [] \<longrightarrow> n' = n \<and> (\<forall>r\<in>set rs. \<not> can_schedule (sn_labels n) (get_available_resources src n) r)) \<and>
    (\<forall>name. map_of (sn_labels n') name = map_of (sn_labels n) name \<or>
       (\<exists>r\<in>set rs. name \<in> fst ` set (anti_affinities r) \<and> map_of (sn_labels n') name = Some (f name)))"
proof -
  obtain un n' placed where p: "try_schedule_plain src rs n = Inr (un, n')" "mset rs = mset placed + mset un"
    "get_sched_requests src n' = get_sched_requests src n @ placed"
    "\<forall>k. amount (get_available_resources src n') k = amount (get_available_resources src n) k - total_demand placed k"
    "node_ok src n'" "node_core n' = node_core n"
    "\<forall>s. s \<noteq> src \<longrightarrow> get_available_resources s n' = get_available_resources s n \<and> get_sched_requests s n' = get_sched_requests s n"
    "placed = [] \<longrightarrow> n' = n \<and> (\<forall>r\<in>set rs. \<not> can_schedule (sn_labels n) (get_available_resources src n) r)"
    "\<forall>name. map_of (sn_labels n') name = map_of (sn_labels n) name \<or>
       (\<exists>r\<in>set rs. name \<in> fst ` set (anti_affinities r) \<and> map_of (sn_labels n') name = Some (f name))"
    using try_schedule_plain_ok [OF assms] by blast
  obtain sc where sc: "compute_score cg src n' = Inr sc" using compute_score_ok [OF p(5)] by blast
  have "try_schedule cg src rs n = Inr (un, sc, n')"
    using p(1) sc try_schedule_loop_plain [OF assms(1) cache_ok_Nil] by (simp add: try_schedule_def)
  with p show ?thesis by blast
qed

text \<open>C17: Trying requests on a node gives away no resource twice. For requests with non-negative amounts and
  consistent anti-affinity labels, on a node whose available resources lie between zero and the
  totals, no assertion fails; every request is either placed or returned; and what remains
  available is exactly what was available less the sum of what the placed requests ask for, and
  again lies between zero and the totals.\<close>

theorem try_schedule_conserves:
  assumes "\<forall>r\<in>set rs. bundle_ok r" and "label_consistent f rs (sn_labels n)" and "node_ok src n"
  shows "\<exists>un sc n' placed. try_schedule cg src rs n = Inr (un, sc, n') \<and> mset rs = mset placed + mset un \<and>
    get_sched_requests src n' = get_sched_requests src n @ placed \<and> node_ok src n' \<and>
    (\<forall>k. amount (get_available_resources src n') k = amount (get_available_resources src n) k - total_demand placed k) \<and>
    (\<forall>k. 0 \<le> amount (get_available_resources src n') k)"
proof -
  have "0 \<le> amount (get_available_resources src m) k" if "node_ok src m" for m k
    using that by (intro amount_nonneg) (simp add: node_ok_def res_ok_def)
  then show ?thesis using try_schedule_ok [OF assms, of cg] by meson
qed

text \<open>C18: The cache of requests that did not fit is an optimisation only: with it a node places and refuses
  exactly the requests, and fails with exactly the errors, of the plain loop that tries every request.\<close>

theorem try_schedule_cache_transparent:
  assumes "\<forall>r\<in>set rs. bundle_ok r"
  shows "try_schedule_loop src rs [] n = try_schedule_plain src rs n"
  by (rule try_schedule_loop_plain [OF assms cache_ok_Nil])

definition demo_node :: "resources \<Rightarrow> sched_node" where
  "demo_node tot = new_node ''cpu'' tot tot [] Schedulable (Some ''i1'') (Some RAY_RUNNING) ''r1'' 0 [] WORKER None 0"

definition demo_request :: "rat \<Rightarrow> resource_request" where
  "demo_request c = \<lparr>rq_bundle = [(''CPU'', c)], rq_constraints = [], rq_selectors = []\<rparr>"

lemma demo_request_ok: "0 \<le> c \<Longrightarrow> bundle_ok (demo_request c)" "anti_affinities (demo_request c) = []"
  by (auto simp: bundle_ok_def demo_request_def anti_affinities_def List.map_filter_simps)

lemma demo_node_ok: "0 \<le> c \<Longrightarrow> node_ok src (demo_node [(''CPU'', c)])"
  by (cases src) (auto simp: node_ok_def res_ok_def demo_node_def new_node_def source_defs amount_def dict_get_def nonneg_def
      split: if_splits)

theorem try_schedule_conserves_witness:
  "\<exists>un sc n'. try_schedule True Pending_Demand [demo_request 3, demo_request 2] (demo_node [(''CPU'', 4)]) = Inr (un, sc, n') \<and>
    (\<forall>k. 0 \<le> amount (get_available_resources Pending_Demand n') k)"
proof -
  have "label_consistent (\<lambda>_. []) [demo_request 3, demo_request 2] (sn_labels (demo_node [(''CPU'', 4)]))"
    by (simp add: label_consistent_def demo_request_ok)
  then show ?thesis
    using try_schedule_conserves [of "[demo_request 3, demo_request 2]" "\<lambda>_. []" "demo_node [(''CPU'', 4)]" Pending_Demand True]
      demo_request_ok demo_node_ok by fastforce
qed

theorem try_schedule_cache_transparent_witness:
  "try_schedule_loop Pending_Demand [demo_request 3, demo_request 3] [] (demo_node [(''CPU'', 4)]) =
    try_schedule_plain Pending_Demand [demo_request 3, demo_request 3] (demo_node [(''CPU'', 4)])"
  by (rule try_schedule_cache_transparent) (simp add: demo_request_ok)

end
