(* ===== verification/Sched_Context.thy ===== *)
theory Sched_Context
  imports Sched_Node_Props
begin

section \<open>Autoscaler v2: the scheduling context\<close>

text \<open>
  Models \<open>ScheduleContext\<close> of \<open>ray/python/ray/autoscaler/v2/scheduler.py\<close> and the steps of the
  scheduler that only count nodes: outdated nodes, the minimal and maximal numbers of workers and
  idle termination. A step returns the context with its new nodes.
\<close>

subsection \<open>Context\<close>

record sched_context =
  cx_configs :: "(string, node_type_config) dict"
  cx_disable_check :: bool
  cx_max_nodes :: "int option"
  cx_idle_timeout_s :: "rat option"
  cx_nodes :: "sched_node list"
  cx_available :: "(string, int) dict"
  cx_ippr_specs :: "(string, ippr_spec) dict option"
  cx_cloud_availability :: "(string, rat) dict"
  cx_recoverable_availability :: "(string, rat) dict"

record sched_request =
  sq_disable_check :: bool
  sq_configs :: "(string, node_type_config) dict"
  sq_max_nodes :: "int option"
  sq_idle_timeout_s :: "rat option"
  sq_resource_requests :: "(resource_request \<times> nat) list"
  sq_gang_requests :: "gang_request list"
  sq_constraints :: "(resource_request \<times> nat) list list"
  sq_instances :: "autoscaler_instance list"
  sq_cloud_availability :: "(string, rat) dict"
  sq_recoverable_availability :: "(string, rat) dict"
  sq_ippr_specs :: "(string, ippr_spec) dict option"
  sq_ippr_statuses :: "(string, ippr_status) dict"

definition count_type :: "string \<Rightarrow> sched_node list \<Rightarrow> nat" where
  "count_type t ns = length (filter (\<lambda>n. sn_type n = t) ns)"

definition compute_available_node_types :: "sched_node list \<Rightarrow> (string, node_type_config) dict \<Rightarrow> (string, int) dict" where
  "compute_available_node_types ns configs = map (\<lambda>(t, c). (t, nc_max_workers c - int (count_type t ns))) configs"

definition context_update :: "sched_node list \<Rightarrow> sched_context \<Rightarrow> sched_context" where
  "context_update ns cx = cx\<lparr>cx_nodes := ns, cx_available := compute_available_node_types ns (cx_configs cx)\<rparr>"

definition attach_ippr :: "sched_request \<Rightarrow> autoscaler_instance \<Rightarrow> sched_node \<Rightarrow> sched_node" where
  "attach_ippr q a n =
     (case (sq_ippr_specs q, ai_cloud_id a) of
        (Some groups, Some cid) \<Rightarrow>
          (case (map_of (sq_ippr_statuses q) cid, map_of groups (sn_type n)) of
             (Some st, Some spec) \<Rightarrow>
               n\<lparr>sn_ippr_spec := Some spec,
                 sn_ippr_status := Some (if sn_ray_node_id n \<noteq> [] then st\<lparr>is_raylet_id := Some (sn_ray_node_id n)\<rparr> else st)\<rparr>
           | _ \<Rightarrow> n)
      | _ \<Rightarrow> n)"

text \<open>The nodes are different objects, numbered from 0.\<close>

definition from_schedule_request :: "sched_request \<Rightarrow> sched_context" where
  "from_schedule_request q =
     (let ns0 = List.map_filter (\<lambda>a. map_option (attach_ippr q a) (sched_node_new a (sq_configs q) (sq_disable_check q)))
                  (sq_instances q);
          ns = map2 (\<lambda>i n. n\<lparr>sn_ref := i\<rparr>) [0..<length ns0] ns0
      in \<lparr>cx_configs = sq_configs q, cx_disable_check = sq_disable_check q, cx_max_nodes = sq_max_nodes q,
          cx_idle_timeout_s = sq_idle_timeout_s q, cx_nodes = ns,
          cx_available = compute_available_node_types ns (sq_configs q), cx_ippr_specs = sq_ippr_specs q,
          cx_cloud_availability = sq_cloud_availability q, cx_recoverable_availability = sq_recoverable_availability q\<rparr>)"

definition terminating :: "sched_node \<Rightarrow> bool" where
  "terminating n \<longleftrightarrow> sn_status n = To_Terminate"

definition cluster_shape :: "sched_node list \<Rightarrow> string \<Rightarrow> nat" where
  "cluster_shape ns t = count_type t (filter (\<lambda>n. \<not> terminating n) ns)"

definition get_cluster_resources :: "sched_context \<Rightarrow> resources" where
  "get_cluster_resources cx =
     fold (\<lambda>n d. fold (\<lambda>(k, v) d. AList.update k (dict_get d k 0 + v) d) (sn_total n) d)
       (filter (\<lambda>n. \<not> terminating n) (cx_nodes cx)) []"

definition get_ippr_requests :: "sched_context \<Rightarrow> ippr_status list" where
  "get_ippr_requests cx = filter has_resize_request_to_send (List.map_filter sn_ippr_status (cx_nodes cx))"

definition get_launch_requests :: "sched_context \<Rightarrow> (string, nat) dict" where
  "get_launch_requests cx =
     fold (\<lambda>n d. AList.update (sn_type n) (dict_get d (sn_type n) 0 + 1) d)
       (filter (\<lambda>n. sn_status n = To_Launch) (cx_nodes cx)) []"

definition get_terminate_requests :: "sched_context \<Rightarrow> termination_request list" where
  "get_terminate_requests cx = List.map_filter sn_termination (cx_nodes cx)"

subsection \<open>Termination\<close>

definition terminate_node ::
    "termination_cause \<Rightarrow> int option \<Rightarrow> int option \<Rightarrow> int option \<Rightarrow> sched_node \<Rightarrow> sched_node" where
  "terminate_node cause max_nodes max_per_type idle n =
     n\<lparr>sn_status := To_Terminate,
       sn_termination := Some \<lparr>tr_instance_id = sn_im_instance_id n, tr_ray_node_id = sn_ray_node_id n, tr_cause = cause,
         tr_instance_type = sn_type n, tr_instance_status = sn_im_status n, tr_max_num_nodes = max_nodes,
         tr_max_num_nodes_per_type = max_per_type, tr_idle_duration_ms = idle\<rparr>\<rparr>"

definition is_outdated :: "(string, node_type_config) dict \<Rightarrow> sched_node \<Rightarrow> bool" where
  "is_outdated configs n \<longleftrightarrow>
     sn_status n = Schedulable \<and> sn_kind n \<noteq> HEAD \<and>
     (case map_of configs (sn_type n) of
        None \<Rightarrow> True
      | Some c \<Rightarrow> nc_launch_hash c \<noteq> [] \<and> nc_launch_hash c \<noteq> sn_launch_hash n)"

definition terminate_outdated_nodes :: "sched_context \<Rightarrow> sched_context" where
  "terminate_outdated_nodes cx =
     (if cx_disable_check cx then cx
      else context_update
        (map (\<lambda>n. if is_outdated (cx_configs cx) n then terminate_node Outdated None None None n else n) (cx_nodes cx)) cx)"

text \<open>The key by which nodes are sorted for termination.\<close>

definition sort_nodes_for_termination :: "sched_node \<Rightarrow> bool \<times> int \<times> rat" where
  "sort_nodes_for_termination n =
     (let utils = map (\<lambda>(k, v). (v - dict_get (sn_avail_demand n) k 0) / v) (filter (\<lambda>(k, v). v > 0) (sn_total n))
      in (sn_ray_node_id n \<noteq> [], - sn_idle_ms n, if utils \<noteq> [] then sum_list utils / of_nat (length utils) else 0))"

fun pop_head :: "sched_node list \<Rightarrow> sched_node list \<times> sched_node list" where
  "pop_head [] = ([], [])"
| "pop_head (n # ns) = (if sn_kind n = HEAD then ([n], ns) else (let (h, r) = pop_head ns in (h, n # r)))"

text \<open>The fields of the selected nodes are assigned in place, so every list entry that is the same
  object changes.\<close>

definition select_nodes_to_terminate ::
    "sched_node list \<Rightarrow> nat \<Rightarrow> termination_cause \<Rightarrow> int option \<Rightarrow> int option \<Rightarrow> sched_node list \<times> sched_node list" where
  "select_nodes_to_terminate ns num cause max_nodes max_per_type =
     (let (hd, candidates) = pop_head (sort_key sort_nodes_for_termination ns);
          selected = take num candidates;
          remained = drop num candidates @ hd;
          assign = (\<lambda>n. if sn_ref n \<in> sn_ref ` set selected then terminate_node cause max_nodes max_per_type None n else n)
      in (map assign selected, map assign remained))"

subsection \<open>Minimal and maximal numbers of workers\<close>

text \<open>The list \<open>[node] * n\<close> has one object \<open>n\<close> times; \<open>ref\<close> is its number.\<close>

fun min_workers_nodes :: "(string \<Rightarrow> nat) \<Rightarrow> nat \<Rightarrow> (string, node_type_config) dict \<Rightarrow> sched_node list" where
  "min_workers_nodes shape ref [] = []"
| "min_workers_nodes shape ref ((t, c) # configs) =
     (let cur = int (shape t)
      in (if cur < nc_min_workers c
          then replicate (nat (nc_min_workers c - cur)) ((from_node_config c To_Launch WORKER None None)\<lparr>sn_ref := ref\<rparr>)
          else []) @ min_workers_nodes shape (ref + 1) configs)"

definition enforce_min_workers_per_type :: "sched_context \<Rightarrow> sched_context" where
  "enforce_min_workers_per_type cx =
     (let ref = Suc (Max (insert 0 (sn_ref ` set (cx_nodes cx))))
      in context_update (min_workers_nodes (cluster_shape (cx_nodes cx)) ref (cx_configs cx) @ cx_nodes cx) cx)"

definition group_by_type :: "sched_node list \<Rightarrow> (string, sched_node list) dict" where
  "group_by_type ns = fold (\<lambda>n d. AList.update (sn_type n) (dict_get d (sn_type n) [] @ [n]) d) ns []"

fun max_per_type_loop ::
    "(string, node_type_config) dict \<Rightarrow> (string, sched_node list) dict \<Rightarrow> sched_node list \<Rightarrow>
     (sched_node list \<times> sched_node list) result" where
  "max_per_type_loop configs [] trm = Inr (trm, [])"
| "max_per_type_loop configs ((t, ns) # groups) trm =
     (case map_of configs t of
        None \<Rightarrow> Inl (KeyError t)
      | Some c \<Rightarrow>
          (let extra = int (length ns) - nc_max_workers c;
               (to_term, remained) =
                 (if extra \<le> 0 then ([], ns)
                  else select_nodes_to_terminate ns (nat extra) Max_Num_Node_Per_Type None (Some (nc_max_workers c)))
           in rbind (max_per_type_loop configs groups (trm @ to_term)) (\<lambda>(trm', non_term).
                Inr (trm', remained @ non_term))))"

definition enforce_max_workers_per_type :: "sched_context \<Rightarrow> sched_context result" where
  "enforce_max_workers_per_type cx =
     (let all_nodes = cx_nodes cx
      in rbind (max_per_type_loop (cx_configs cx) (group_by_type (filter (\<lambda>n. \<not> terminating n) all_nodes))
                  (filter terminating all_nodes)) (\<lambda>(trm, non_term).
           if length all_nodes = length (trm @ non_term) then Inr (context_update (trm @ non_term) cx)
           else Inl (AssertionError ''The number of nodes should be the same after enforcing max nodes per type.'')))"

definition enforce_max_workers_global :: "sched_context \<Rightarrow> sched_context result" where
  "enforce_max_workers_global cx =
     (let all_nodes = cx_nodes cx;
          trm = filter terminating all_nodes;
          non_term = filter (\<lambda>n. \<not> terminating n) all_nodes;
          num = (case cx_max_nodes cx of
                   None \<Rightarrow> 0
                 | Some m \<Rightarrow> if m \<noteq> 0 then max (int (length non_term) - m) 0 else 0)
      in if num \<le> 0 then Inr cx
         else (let (to_term, remained) = select_nodes_to_terminate non_term (nat num) Max_Num_Nodes (cx_max_nodes cx) None
               in if int (length to_term) \<noteq> num then Inl (AssertionError ''failed to terminate'')
                  else if length all_nodes \<noteq> length (trm @ to_term @ remained)
                  then Inl (AssertionError ''The number of nodes should be the same after enforcing max nodes.'')
                  else Inr (context_update (trm @ to_term @ remained) cx)))"

subsection \<open>Idle termination\<close>

definition idle_timeout :: "sched_context \<Rightarrow> string \<Rightarrow> rat option" where
  "idle_timeout cx t =
     (case map_of (cx_configs cx) t of
        Some c \<Rightarrow> (case nc_idle_timeout_s c of Some s \<Rightarrow> Some s | None \<Rightarrow> cx_idle_timeout_s cx)
      | None \<Rightarrow> cx_idle_timeout_s cx)"

definition idle_too_long :: "sched_context \<Rightarrow> sched_node \<Rightarrow> bool" where
  "idle_too_long cx n \<longleftrightarrow>
     sn_status n = Schedulable \<and> sn_kind n \<noteq> HEAD \<and>
     (case idle_timeout cx (sn_type n) of None \<Rightarrow> False | Some s \<Rightarrow> \<not> of_int (sn_idle_ms n) \<le> s * 1000) \<and>
     sn_requests_demand n = [] \<and> sn_requests_constraint n = []"

fun idle_loop :: "sched_context \<Rightarrow> (string \<Rightarrow> nat) \<Rightarrow> (string, nat) dict \<Rightarrow> sched_node list \<Rightarrow> sched_node list" where
  "idle_loop cx shape stopped [] = []"
| "idle_loop cx shape stopped (n # ns) =
     (let t = sn_type n;
          min_count = (case map_of (cx_configs cx) t of Some c \<Rightarrow> nc_min_workers c | None \<Rightarrow> 0)
      in if idle_too_long cx n \<and> \<not> int (shape t) - int (dict_get stopped t 0) \<le> min_count
         then terminate_node Idle None None (Some (sn_idle_ms n)) n #
              idle_loop cx shape (AList.update t (dict_get stopped t 0 + 1) stopped) ns
         else n # idle_loop cx shape stopped ns)"

definition enforce_idle_termination :: "sched_context \<Rightarrow> sched_context" where
  "enforce_idle_termination cx = context_update (idle_loop cx (cluster_shape (cx_nodes cx)) [] (cx_nodes cx)) cx"

end
