(* ===== verification/Sched_Pack.thy ===== *)
theory Sched_Pack
  imports Sched_Context
begin

section \<open>Autoscaler v2: packing requests onto nodes\<close>

text \<open>
  Models \<open>NodeStateCache\<close>, \<open>_sched_best_node\<close>, \<open>_try_schedule\<close>, the handling of constraints, gang and
  plain requests and \<open>schedule\<close> of \<open>ray/python/ray/autoscaler/v2/scheduler.py\<close>. The flag \<open>cg\<close> is the setting
  \<open>AUTOSCALER_CONSERVE_GPU_NODES\<close>.
\<close>

subsection \<open>The best node\<close>

definition state_key ::
    "request_source \<Rightarrow> sched_node \<Rightarrow> string \<times> node_kind \<times> (string \<times> rat) set \<times> (string \<times> rat) set \<times> (string \<times> string) set" where
  "state_key src n =
     (sn_type n, sn_kind n, set (sn_total n), set (get_available_resources src n), set (sn_labels n))"

record sched_result =
  sr_node :: sched_node
  sr_infeasible :: "resource_request list"
  sr_idx :: nat
  sr_score :: utilization_score

type_synonym state_cache = "(string \<times> node_kind \<times> (string \<times> rat) set \<times> (string \<times> rat) set \<times> (string \<times> string) set) list"

fun best_node_loop ::
    "bool \<Rightarrow> request_source \<Rightarrow> resource_request list \<Rightarrow> state_cache \<Rightarrow> nat \<Rightarrow> sched_node list \<Rightarrow> sched_result list result" where
  "best_node_loop cg src rs seen idx [] = Inr []"
| "best_node_loop cg src rs seen idx (n # ns) =
     (if sn_im_status n \<noteq> Some RAY_RUNNING \<and> state_key src n \<in> set seen
      then best_node_loop cg src rs seen (idx + 1) ns
      else (let seen' = (if sn_im_status n = Some RAY_RUNNING then seen else state_key src n # seen)
            in rbind (try_schedule cg src rs n) (\<lambda>(remaining, score, n').
                 rbind (best_node_loop cg src rs seen' (idx + 1) ns) (\<lambda>results.
                   Inr (if length remaining = length rs then results
                        else \<lparr>sr_node = n', sr_infeasible = remaining, sr_idx = idx, sr_score = score\<rparr> # results)))))"

definition result_key ::
    "(string, rat) dict \<Rightarrow> (string, rat) dict \<Rightarrow> sched_result \<Rightarrow> utilization_score \<times> rat \<times> int \<times> rat" where
  "result_key recoverable cloud r =
     (sr_score r, dict_get recoverable (sn_type (sr_node r)) 1, sn_priority (sr_node r), dict_get cloud (sn_type (sr_node r)) 1)"

text \<open>\<open>sorted(xs, key=key, reverse=True)\<close>: equal keys keep their order.\<close>

definition sorted_desc :: "('x \<Rightarrow> 'k::linorder) \<Rightarrow> 'x list \<Rightarrow> 'x list" where
  "sorted_desc key xs = rev (sort_key key (rev xs))"

definition remove_nth :: "nat \<Rightarrow> 'x list \<Rightarrow> 'x list" where
  "remove_nth i xs = take i xs @ drop (Suc i) xs"

definition sched_best_node ::
    "bool \<Rightarrow> request_source \<Rightarrow> sched_context \<Rightarrow> resource_request list \<Rightarrow> sched_node list \<Rightarrow>
     (sched_node option \<times> resource_request list \<times> sched_node list) result" where
  "sched_best_node cg src cx rs ns =
     rbind (best_node_loop cg src rs [] 0 ns) (\<lambda>results.
       case sorted_desc (result_key (cx_recoverable_availability cx) (cx_cloud_availability cx)) results of
         [] \<Rightarrow> Inr (None, rs, ns)
       | best # _ \<Rightarrow> Inr (Some (sr_node best), sr_infeasible best, remove_nth (sr_idx best) ns))"

lemma best_node_loop_bounds:
  "best_node_loop cg src rs seen i ns = Inr results \<Longrightarrow>
    \<forall>r\<in>set results. i \<le> sr_idx r \<and> sr_idx r < i + length ns \<and> length (sr_infeasible r) \<noteq> length rs"
  by (induction ns arbitrary: seen i results)
    (fastforce simp: Let_def rbind_eq_Inr split: if_splits prod.splits)+

lemma try_schedule_loop_length:
  "try_schedule_loop src rs cache n = Inr (un, n') \<Longrightarrow> length un \<le> length rs"
proof (induction rs arbitrary: cache n un)
  case (Cons r rs)
  from Cons.prems obtain cache1 n1 un1 where
    "try_schedule_loop src rs cache1 n1 = Inr (un1, n')" "un = un1 \<or> un = r # un1"
    by (auto simp: rbind_eq_Inr split: if_splits prod.splits)
  then show ?case using Cons.IH by fastforce
qed simp

lemma sched_best_node_Some:
  assumes "sched_best_node cg src cx rs ns = Inr (Some n, rs', ns')"
  obtains results best where "best_node_loop cg src rs [] 0 ns = Inr results" "best \<in> set results"
    "n = sr_node best" "rs' = sr_infeasible best" "ns' = remove_nth (sr_idx best) ns"
proof -
  let ?key = "result_key (cx_recoverable_availability cx) (cx_cloud_availability cx)"
  from assms obtain results where r: "best_node_loop cg src rs [] 0 ns = Inr results"
    by (auto simp: sched_best_node_def rbind_eq_Inr)
  show thesis
  proof (cases "sorted_desc ?key results")
    case Nil
    then show ?thesis using assms r by (simp add: sched_best_node_def)
  next
    case (Cons best more)
    then have "best \<in> set results" by (metis list.set_intros(1) set_rev set_sort sorted_desc_def)
    then show ?thesis using that assms r Cons by (simp add: sched_best_node_def)
  qed
qed

lemma sched_best_node_shrinks:
  assumes "sched_best_node cg src cx rs ns = Inr (Some n, rs', ns')"
  shows "length ns' < length ns" and "length rs' < length rs"
proof -
  obtain results best where r: "best_node_loop cg src rs [] 0 ns = Inr results" "best \<in> set results"
    "rs' = sr_infeasible best" "ns' = remove_nth (sr_idx best) ns"
    using sched_best_node_Some [OF assms] by metis
  have b: "sr_idx best < length ns" "length (sr_infeasible best) \<noteq> length rs" using best_node_loop_bounds [OF r(1)] r(2) by auto
  then show "length ns' < length ns" by (simp add: r(4) remove_nth_def)
  have "length (sr_infeasible x) \<le> length rs" if "x \<in> set results" for x
  proof -
    have "\<forall>x\<in>set results. length (sr_infeasible x) \<le> length rs"
      if "best_node_loop cg src rs seen i ns = Inr results" for seen i ns results
      using that
    proof (induction ns arbitrary: seen i results)
      case (Cons n ns)
      then show ?case
        by (fastforce simp: Let_def rbind_eq_Inr try_schedule_def dest: try_schedule_loop_length split: if_splits prod.splits)
    qed simp
    then show ?thesis using r(1) that by blast
  qed
  then show "length rs' < length rs" using b(2) r(2,3) by (metis le_neq_implies_less)
qed

subsection \<open>Existing nodes, resized nodes, new nodes\<close>

definition request_key :: "resource_request \<Rightarrow> nat \<times> nat \<times> nat \<times> rat \<times> (string \<times> rat) list" where
  "request_key r =
     (length (rq_constraints r), case rq_selectors r of [] \<Rightarrow> 0 | s # _ \<Rightarrow> length s, length (rq_bundle r),
      sum_list (map snd (rq_bundle r)), sort (rq_bundle r))"

function existing_loop ::
    "bool \<Rightarrow> request_source \<Rightarrow> sched_context \<Rightarrow> resource_request list \<Rightarrow> sched_node list \<Rightarrow> sched_node list \<Rightarrow>
     (sched_node list \<times> resource_request list \<times> sched_node list) result" where
  "existing_loop cg src cx rs ns target =
     (if rs \<noteq> [] \<and> ns \<noteq> []
      then (case sched_best_node cg src cx rs ns of
              Inl e \<Rightarrow> Inl e
            | Inr (None, rs', ns') \<Rightarrow> Inr (target, rs', ns')
            | Inr (Some n, rs', ns') \<Rightarrow> existing_loop cg src cx rs' ns' (target @ [n]))
      else Inr (target, rs, ns))"
  by pat_completeness auto
termination existing_loop
  by (relation "measure (\<lambda>(cg, src, cx, rs, ns, target). length ns)") (auto dest: sched_best_node_shrinks)

declare existing_loop.simps [simp del]

definition cpu_memory :: "rat \<Rightarrow> rat \<Rightarrow> resources" where
  "cpu_memory c m = [(''CPU'', c), (''memory'', m)]"

definition expose_desired :: "sched_node \<Rightarrow> sched_node" where
  "expose_desired n =
     (case sn_ippr_status n of
        Some s \<Rightarrow> if is_in_progress s then update_total_resources (cpu_memory (is_desired_cpu s) (is_desired_memory s)) n else n
      | None \<Rightarrow> n)"

definition expose_maximum :: "sched_node \<Rightarrow> sched_node" where
  "expose_maximum n =
     (case sn_ippr_status n of
        Some s \<Rightarrow> update_total_resources (cpu_memory (max_cpu s) (max_memory s)) n
      | None \<Rightarrow> n)"

definition resize_candidate :: "sched_node \<Rightarrow> bool" where
  "resize_candidate n \<longleftrightarrow> (case sn_ippr_status n of Some s \<Rightarrow> can_resize_up s | None \<Rightarrow> False)"

definition cloud_id :: "sched_node \<Rightarrow> string" where
  "cloud_id n = (case sn_ippr_status n of Some s \<Rightarrow> is_cloud_id s | None \<Rightarrow> [])"

definition queue_resize :: "sched_node \<Rightarrow> sched_node" where
  "queue_resize n =
     (case sn_ippr_status n of
        Some s \<Rightarrow> n\<lparr>sn_ippr_status := Some (snd (queue_resize_request (Some (max_cpu s)) (Some (max_memory s)) s))\<rparr>
      | None \<Rightarrow> n)"

function ippr_loop ::
    "bool \<Rightarrow> request_source \<Rightarrow> sched_context \<Rightarrow> resource_request list \<Rightarrow> sched_node list \<Rightarrow> sched_node list \<Rightarrow>
     (string, sched_node) dict \<Rightarrow> (sched_node list \<times> resource_request list \<times> (string, sched_node) dict) result" where
  "ippr_loop cg src cx rs ns target originals =
     (if rs \<noteq> [] \<and> ns \<noteq> []
      then (case sched_best_node cg src cx rs ns of
              Inl e \<Rightarrow> Inl e
            | Inr (None, rs', ns') \<Rightarrow> Inr (target, rs', originals)
            | Inr (Some n, rs', ns') \<Rightarrow>
                ippr_loop cg src cx rs' ns' (target @ [queue_resize n]) (AList.delete (cloud_id n) originals))
      else Inr (target, rs, originals))"
  by pat_completeness auto
termination ippr_loop
  by (relation "measure (\<lambda>(cg, src, cx, rs, ns, target, originals). length ns)") (auto dest: sched_best_node_shrinks)

declare ippr_loop.simps [simp del]

definition to_launch_node :: "sched_context \<Rightarrow> string \<Rightarrow> sched_node result" where
  "to_launch_node cx t =
     (case map_of (cx_configs cx) t of
        None \<Rightarrow> Inl (KeyError t)
      | Some c \<Rightarrow>
          (let n = from_node_config c To_Launch WORKER None None
           in Inr (case cx_ippr_specs cx of
                     None \<Rightarrow> n
                   | Some groups \<Rightarrow>
                       (case map_of groups t of
                          None \<Rightarrow> n
                        | Some g \<Rightarrow> update_total_resources
                            (cpu_memory (max (ip_max_cpu g) (dict_get (sn_total n) ''CPU'' 0))
                               (max (ip_max_memory g) (dict_get (sn_total n) ''memory'' 0))) n))))"

function launch_loop ::
    "bool \<Rightarrow> request_source \<Rightarrow> sched_context \<Rightarrow> resource_request list \<Rightarrow> sched_node list \<Rightarrow> (string, int) dict \<Rightarrow>
     sched_node list \<Rightarrow> (sched_node list \<times> resource_request list) result" where
  "launch_loop cg src cx rs pools avail target =
     (if rs \<noteq> [] \<and> pools \<noteq> []
      then (if (case cx_max_nodes cx of None \<Rightarrow> False | Some m \<Rightarrow> int (length target) \<ge> m) then Inr (target, rs)
            else (case sched_best_node cg src cx rs pools of
                    Inl e \<Rightarrow> Inl e
                  | Inr (None, rs', pools') \<Rightarrow> Inr (target, rs')
                  | Inr (Some n, rs', pools') \<Rightarrow>
                      (let left = dict_get avail (sn_type n) 0 - 1;
                           avail' = AList.update (sn_type n) left avail
                       in if left > 0
                          then (case to_launch_node cx (sn_type n) of
                                  Inl e \<Rightarrow> Inl e
                                | Inr m \<Rightarrow> launch_loop cg src cx rs' (pools' @ [m]) avail' (target @ [n]))
                          else launch_loop cg src cx rs' pools' avail' (target @ [n]))))
      else Inr (target, rs))"
  by pat_completeness auto
termination launch_loop
  by (relation "measure (\<lambda>(cg, src, cx, rs, pools, avail, target). length rs)") (auto dest: sched_best_node_shrinks)

declare launch_loop.simps [simp del]

definition try_schedule_requests ::
    "bool \<Rightarrow> sched_context \<Rightarrow> resource_request list \<Rightarrow> request_source \<Rightarrow> (sched_node list \<times> resource_request list) result" where
  "try_schedule_requests cg cx requests src =
     (let rs0 = sorted_desc request_key requests;
          existing = map expose_desired (cx_nodes cx)
      in rbind (existing_loop cg src cx rs0 existing []) (\<lambda>(target1, rs1, rest).
           let all_existing = target1 @ rest;
               candidates = filter resize_candidate all_existing;
               target2 = filter (\<lambda>n. \<not> resize_candidate n) all_existing;
               originals = dict_of (map (\<lambda>n. (cloud_id n, n)) candidates)
           in rbind (ippr_loop cg src cx rs1 (map expose_maximum candidates) target2 originals) (\<lambda>(target3, rs2, left).
                rbind (rmap (to_launch_node cx) (map fst (filter (\<lambda>(t, k). k > 0) (cx_available cx)))) (\<lambda>pools.
                  launch_loop cg src cx rs2 pools (cx_available cx) (target3 @ map snd left)))))"

subsection \<open>Scheduling\<close>

definition enforce_resource_constraints ::
    "bool \<Rightarrow> (resource_request \<times> nat) list list \<Rightarrow> sched_context \<Rightarrow>
     ((resource_request \<times> nat) list list \<times> sched_context) result" where
  "enforce_resource_constraints cg constraints cx =
     (case constraints of
        [] \<Rightarrow> Inr ([], cx)
      | [c] \<Rightarrow>
          rbind (try_schedule_requests cg cx (ungroup_by_count c) Cluster_Resource_Constraint) (\<lambda>(ns, infeasible).
            Inr (if infeasible \<noteq> [] then ([c], cx) else ([], context_update ns cx)))
      | _ \<Rightarrow> Inl (AssertionError ''Max 1 cluster resource constraint is supported.''))"

definition sched_resource_requests ::
    "bool \<Rightarrow> resource_request list \<Rightarrow> sched_context \<Rightarrow> (resource_request list \<times> sched_context) result" where
  "sched_resource_requests cg rs cx =
     rbind (try_schedule_requests cg cx rs Pending_Demand) (\<lambda>(ns, infeasible). Inr (infeasible, context_update ns cx))"

definition gang_key :: "gang_request \<Rightarrow> nat \<times> nat" where
  "gang_key g = (sum_list (map (\<lambda>r. length (rq_constraints r)) (gr_requests g)), length (gr_requests g))"

definition sched_gang ::
    "bool \<Rightarrow> gang_request \<Rightarrow> gang_request list \<times> sched_context \<Rightarrow> (gang_request list \<times> sched_context) result" where
  "sched_gang cg g = (\<lambda>(infeasible_gangs, cx).
     rbind (combine_requests_with_affinity (case gr_bundle_selectors g of [] \<Rightarrow> gr_requests g | b # _ \<Rightarrow> b)) (\<lambda>rs.
       rbind (try_schedule_requests cg cx rs Pending_Demand) (\<lambda>(ns, infeasible).
         Inr (if infeasible \<noteq> [] then (infeasible_gangs @ [g], cx) else (infeasible_gangs, context_update ns cx)))))"

definition sched_gang_resource_requests ::
    "bool \<Rightarrow> gang_request list \<Rightarrow> sched_context \<Rightarrow> (gang_request list \<times> sched_context) result" where
  "sched_gang_resource_requests cg gangs cx = rfold (sched_gang cg) (sorted_desc gang_key gangs) ([], cx)"

record sched_reply =
  sy_to_launch :: "(string, nat) dict"
  sy_to_ippr :: "ippr_status list"
  sy_to_terminate :: "termination_request list"
  sy_cluster_resources :: resources
  sy_infeasible_requests :: "resource_request list"
  sy_infeasible_gangs :: "gang_request list"
  sy_infeasible_constraints :: "(resource_request \<times> nat) list list"

text \<open>The contexts of \<open>schedule\<close> before and after the requests are placed, and the reply.\<close>

definition schedule_limits :: "sched_request \<Rightarrow> sched_context result" where
  "schedule_limits q =
     rbind (enforce_max_workers_per_type (enforce_min_workers_per_type (terminate_outdated_nodes (from_schedule_request q))))
       enforce_max_workers_global"

definition schedule :: "bool \<Rightarrow> sched_request \<Rightarrow> (sched_reply \<times> sched_context) result" where
  "schedule cg q =
     rbind (schedule_limits q) (\<lambda>cx0.
       rbind (enforce_resource_constraints cg (sq_constraints q) cx0) (\<lambda>(infeasible_constraints, cx1).
         rbind (sched_gang_resource_requests cg (sq_gang_requests q) cx1) (\<lambda>(infeasible_gangs, cx2).
           rbind (sched_resource_requests cg (ungroup_by_count (sq_resource_requests q)) cx2) (\<lambda>(infeasible, cx3).
             let cx = enforce_idle_termination cx3
             in Inr (\<lparr>sy_to_launch = get_launch_requests cx, sy_to_ippr = get_ippr_requests cx,
                      sy_to_terminate = get_terminate_requests cx, sy_cluster_resources = get_cluster_resources cx,
                      sy_infeasible_requests = infeasible, sy_infeasible_gangs = infeasible_gangs,
                      sy_infeasible_constraints = infeasible_constraints\<rparr>, cx)))))"

end
