(* ===== verification/Sched_Limits.thy ===== *)
theory Sched_Limits
  imports Sched_Pack
begin

section \<open>Limits on the number of nodes\<close>

text \<open>
  What the counting steps of the scheduler guarantee: the numbers of workers after the maxima are
  enforced, the head node is never selected for termination, idle termination respects the minima.
\<close>

definition worker_of :: "string \<Rightarrow> sched_node \<Rightarrow> bool" where
  "worker_of t n \<longleftrightarrow> sn_type n = t \<and> sn_kind n \<noteq> HEAD \<and> \<not> terminating n"

definition workers :: "string \<Rightarrow> sched_node list \<Rightarrow> nat" where
  "workers t ns = length (filter (worker_of t) ns)"

definition live :: "sched_node list \<Rightarrow> nat" where
  "live ns = length (filter (\<lambda>n. \<not> terminating n) ns)"

text \<open>The parts of a node that termination leaves alone.\<close>

definition shape :: "sched_node \<Rightarrow> nat \<times> string \<times> node_kind" where
  "shape n = (sn_ref n, sn_type n, sn_kind n)"

lemma workers_simps [simp]:
  "workers t [] = 0"
  "workers t (n # ns) = (if worker_of t n then Suc (workers t ns) else workers t ns)"
  "workers t (ns @ ms) = workers t ns + workers t ms"
  by (simp_all add: workers_def)

lemma live_simps [simp]:
  "live [] = 0"
  "live (n # ns) = (if terminating n then live ns else Suc (live ns))"
  "live (ns @ ms) = live ns + live ms"
  by (simp_all add: live_def)

lemma workers_mset: "mset ns = mset ms \<Longrightarrow> workers t ns = workers t ms"
  unfolding workers_def by (metis mset_filter size_mset)

lemma live_mset: "mset ns = mset ms \<Longrightarrow> live ns = live ms"
  unfolding live_def by (metis mset_filter size_mset)

lemma workers_le_length: "workers t ns \<le> length ns"
  by (simp add: workers_def)

lemma live_le_length: "live ns \<le> length ns"
  by (simp add: live_def)

lemma terminate_node_simps [simp]:
  "sn_ref (terminate_node c a b i n) = sn_ref n" "sn_type (terminate_node c a b i n) = sn_type n"
  "sn_kind (terminate_node c a b i n) = sn_kind n" "terminating (terminate_node c a b i n)"
  "shape (terminate_node c a b i n) = shape n"
  by (simp_all add: terminate_node_def terminating_def shape_def)

text \<open>Marking some nodes for termination only lowers the counts.\<close>

definition marked :: "sched_node list \<Rightarrow> sched_node list \<Rightarrow> bool" where
  "marked ns ms \<longleftrightarrow> list_all2 (\<lambda>n m. m = n \<or> (\<exists>c a b i. m = terminate_node c a b i n)) ns ms"

lemma marked_counts:
  assumes "marked ns ms"
  shows "length ms = length ns" "workers t ms \<le> workers t ns" "live ms \<le> live ns" "map shape ms = map shape ns"
proof -
  have "length ms = length ns \<and> workers t ms \<le> workers t ns \<and> live ms \<le> live ns \<and> map shape ms = map shape ns"
    using assms unfolding marked_def
  proof (induction rule: list_all2_induct)
    case (Cons n ns m ms)
    from Cons(1) consider "m = n" | c a b i where "m = terminate_node c a b i n" by blast
    then show ?case using Cons(3) by cases (auto simp: worker_of_def)
  qed simp
  then show "length ms = length ns" "workers t ms \<le> workers t ns" "live ms \<le> live ns" "map shape ms = map shape ns" by auto
qed

lemma marked_map: "(\<And>n. n \<in> set ns \<Longrightarrow> f n = n \<or> (\<exists>c a b i. f n = terminate_node c a b i n)) \<Longrightarrow> marked ns (map f ns)"
  by (simp add: marked_def list_all2_map2 list.rel_refl_strong)

subsection \<open>Selecting nodes to terminate\<close>

lemma pop_head_split:
  "pop_head ns = (hs, cs) \<Longrightarrow> mset ns = mset cs + mset hs \<and> length hs \<le> 1 \<and> (\<forall>n\<in>set hs. sn_kind n = HEAD) \<and>
    (hs = [] \<longrightarrow> (\<forall>n\<in>set ns. sn_kind n \<noteq> HEAD)) \<and> length cs + length hs = length ns"
  by (induction ns arbitrary: hs cs) (auto split: if_splits prod.splits)

lemma select_nodes:
  assumes "select_nodes_to_terminate ns num cause a b = (tt, rem)"
  obtains hs cs where "pop_head (sort_key sort_nodes_for_termination ns) = (hs, cs)" "mset ns = mset cs + mset hs"
    "length hs \<le> 1" "\<forall>n\<in>set hs. sn_kind n = HEAD" "length cs + length hs = length ns"
    "marked (take num cs) tt" "live tt = 0" "marked (drop num cs @ hs) rem"
    "rem = map (\<lambda>n. if sn_ref n \<in> sn_ref ` set (take num cs) then terminate_node cause a b None n else n) (drop num cs @ hs)"
proof -
  obtain hs cs where p: "pop_head (sort_key sort_nodes_for_termination ns) = (hs, cs)" by fastforce
  let ?f = "\<lambda>n. if sn_ref n \<in> sn_ref ` set (take num cs) then terminate_node cause a b None n else n"
  have t: "tt = map ?f (take num cs)" "rem = map ?f (drop num cs @ hs)"
    using assms p by (simp_all add: select_nodes_to_terminate_def Let_def)
  have "live (map ?f xs) = 0" if "set xs \<subseteq> set (take num cs)" for xs using that by (induction xs) auto
  then have "live tt = 0" unfolding t by blast
  moreover have "marked (take num cs) tt" "marked (drop num cs @ hs) rem" unfolding t by (rule marked_map; auto)+
  ultimately show thesis using that p pop_head_split [OF p] t by simp
qed

lemma select_counts:
  assumes "select_nodes_to_terminate ns num cause a b = (tt, rem)"
  shows "length tt + length rem = length ns" and "live tt = 0" and "workers t tt = 0"
    and "workers t rem \<le> workers t ns" and "live rem \<le> live ns" and "mset (map shape (tt @ rem)) = mset (map shape ns)"
    and "num \<le> length tt \<Longrightarrow> live (tt @ rem) + num \<le> length ns"
    and "num + 1 \<le> length ns \<Longrightarrow> length tt = num"
    and "workers t rem + num \<le> length ns \<or> workers t rem = 0"
proof -
  obtain hs cs where s: "mset ns = mset cs + mset hs"
    "length hs \<le> 1" "\<forall>n\<in>set hs. sn_kind n = HEAD" "length cs + length hs = length ns"
    "marked (take num cs) tt" "live tt = 0" "marked (drop num cs @ hs) rem"
    by (rule select_nodes [OF assms]) blast
  note m1 = marked_counts [OF s(5)] and m2 = marked_counts [OF s(7)]
  have ms: "mset (take num cs) + mset (drop num cs @ hs) = mset ns"
    unfolding s(1) by (metis add.assoc append_take_drop_id mset_append)
  show "live tt = 0" by (rule s(6))
  have "workers t tt \<le> live tt" by (induction tt) (auto simp: worker_of_def)
  then show "workers t tt = 0" using s(6) by simp
  have len: "length (take num cs) + length (drop num cs @ hs) = length ns" using s(4) by simp
  then show "length tt + length rem = length ns" using m1(1) m2(1) by simp
  have w: "workers t ns = workers t (take num cs) + workers t (drop num cs @ hs)"
    using workers_mset [of ns "take num cs @ drop num cs @ hs" t] ms by simp
  then show "workers t rem \<le> workers t ns" using m2(2) [of t] by simp
  have "live ns = live (take num cs) + live (drop num cs @ hs)"
    using live_mset [of ns "take num cs @ drop num cs @ hs"] ms by simp
  then show "live rem \<le> live ns" using m2(3) by simp
  show "mset (map shape (tt @ rem)) = mset (map shape ns)"
    using arg_cong [OF ms, of "image_mset shape"] m1(4) m2(4) by (simp flip: mset_map)
  show "live (tt @ rem) + num \<le> length ns" if "num \<le> length tt"
    using that m1(1) m2(1,3) live_le_length [of rem] len s(6) by simp
  show "length tt = num" if "num + 1 \<le> length ns" using that m1(1) s(2,4) by simp
  have "workers t hs = 0" using s(3) by (induction hs) (auto simp: worker_of_def)
  then have "workers t rem \<le> length (drop num cs)" using m2(2) [of t] workers_le_length [of t "drop num cs"] by simp
  then show "workers t rem + num \<le> length ns \<or> workers t rem = 0" using s(4) by (cases "num \<le> length cs") auto
qed

subsection \<open>Nodes by type\<close>

lemma mset_concat_update:
  assumes "distinct (map fst d)"
  shows "mset (concat (map snd (AList.update k (dict_get d k [] @ [x]) d))) = add_mset x (mset (concat (map snd d)))"
  using assms
proof (induction d)
  case (Cons p d)
  obtain a b where p: "p = (a, b)" by (cases p)
  show ?case
  proof (cases "a = k")
    case False
    then have "dict_get (p # d) k [] = dict_get d k []" by (simp add: dict_get_def p)
    then show ?thesis using Cons False by (simp add: p)
  qed (use p in \<open>simp add: dict_get_def\<close>)
qed (simp add: dict_get_def)

definition groups_typed :: "(string, sched_node list) dict \<Rightarrow> bool" where
  "groups_typed d \<longleftrightarrow> (\<forall>t ms n. (t, ms) \<in> set d \<longrightarrow> n \<in> set ms \<longrightarrow> sn_type n = t)"

lemma groups_typed_update:
  assumes "groups_typed d" and "distinct (map fst d)"
  shows "groups_typed (AList.update (sn_type n) (dict_get d (sn_type n) [] @ [n]) d)" (is "groups_typed ?d")
  unfolding groups_typed_def
proof (intro allI impI)
  fix t ms m assume t: "(t, ms) \<in> set ?d" and m: "m \<in> set ms"
  have "map_of ?d t = Some ms" using t distinct_update [OF assms(2)] by simp
  then have "(if t = sn_type n then Some (dict_get d (sn_type n) [] @ [n]) else map_of d t) = Some ms"
    by (simp only: map_of_update fun_upd_apply)
  then consider "t = sn_type n" "ms = dict_get d t [] @ [n]" | "map_of d t = Some ms" by (metis option.inject)
  then show "sn_type m = t"
  proof cases
    case 1
    show ?thesis
    proof (cases "m = n")
      case False
      then have "m \<in> set (dict_get d t [])" using 1 m by simp
      then obtain ms' where "map_of d t = Some ms'" "m \<in> set ms'" by (cases "map_of d t") (auto simp: dict_get_def)
      then show ?thesis using assms(1) map_of_SomeD unfolding groups_typed_def by metis
    qed (use 1 in simp)
  next
    case 2
    then show ?thesis using assms(1) m map_of_SomeD [OF 2] unfolding groups_typed_def by blast
  qed
qed

lemma group_by_type_split:
  "distinct (map fst (group_by_type ns)) \<and> mset (concat (map snd (group_by_type ns))) = mset ns \<and> groups_typed (group_by_type ns)"
proof -
  let ?f = "\<lambda>n d. AList.update (sn_type n) (dict_get d (sn_type n) [] @ [n]) d"
  have "distinct (map fst (fold ?f ns d)) \<and> mset (concat (map snd (fold ?f ns d))) = mset (concat (map snd d)) + mset ns \<and>
      groups_typed (fold ?f ns d)" if "distinct (map fst d)" "groups_typed d" for d
    using that
  proof (induction ns arbitrary: d)
    case (Cons n ns)
    note IH = Cons.IH [OF distinct_update [OF Cons.prems(1)] groups_typed_update [OF Cons.prems(2,1)]]
    have "mset (concat (map snd (fold ?f ns (?f n d)))) = mset (concat (map snd d)) + mset (n # ns)"
      unfolding IH [THEN conjunct2, THEN conjunct1] mset_concat_update [OF Cons.prems(1)] by simp
    then show ?case unfolding fold_simps
      by (intro conjI IH [THEN conjunct1] IH [THEN conjunct2, THEN conjunct2])
  qed simp
  moreover have "groups_typed []" by (simp add: groups_typed_def)
  ultimately show ?thesis using mset.simps(1) unfolding group_by_type_def by fastforce
qed

lemma update_nonempty: "\<forall>p\<in>set d. snd p \<noteq> [] \<Longrightarrow> \<forall>p\<in>set (AList.update k (xs @ [x]) d). snd p \<noteq> []"
  by (induction d) auto

lemma group_by_type_nonempty: "\<forall>p\<in>set (group_by_type ns). snd p \<noteq> []"
proof -
  let ?f = "\<lambda>n d. AList.update (sn_type n) (dict_get d (sn_type n) [] @ [n]) d"
  have "\<forall>p\<in>set (fold ?f ns d). snd p \<noteq> []" if "\<forall>p\<in>set d. snd p \<noteq> []" for d
    using that
  proof (induction ns arbitrary: d)
    case (Cons n ns)
    show ?case unfolding fold_simps by (rule Cons.IH [OF update_nonempty [OF Cons.prems]])
  qed simp
  note all = this
  show ?thesis unfolding group_by_type_def by (rule all) simp
qed

text \<open>At most one node is the head, it is no other object, and it is not to be terminated.\<close>

definition head_safe :: "sched_node list \<Rightarrow> bool" where
  "head_safe ns \<longleftrightarrow> (\<forall>n\<in>set ns. sn_kind n = HEAD \<longrightarrow> \<not> terminating n \<and> sn_termination n = None)"

definition one_head :: "(nat \<times> string \<times> node_kind) multiset \<Rightarrow> bool" where
  "one_head S \<longleftrightarrow> size (filter_mset (\<lambda>(r, t, k). k = HEAD) S) \<le> 1 \<and>
     (\<forall>r t r' t' k. (r, t, HEAD) \<in># S \<longrightarrow> (r', t', k) \<in># S \<longrightarrow> r' = r \<longrightarrow> k = HEAD)"

lemma one_head_sub: "one_head S \<Longrightarrow> T \<subseteq># S \<Longrightarrow> one_head T"
  unfolding one_head_def
proof (elim conjE, intro conjI)
  assume "T \<subseteq># S" "size {#(r, t, k) \<in># S. k = HEAD#} \<le> 1"
  then show "size {#(r, t, k) \<in># T. k = HEAD#} \<le> 1" by (meson multiset_filter_mono order_trans size_mset_mono)
qed (blast dest: mset_subset_eqD)

lemma head_safe_append [simp]: "head_safe (ns @ ms) \<longleftrightarrow> head_safe ns \<and> head_safe ms"
  by (auto simp: head_safe_def)

lemma select_head_safe:
  assumes sel: "select_nodes_to_terminate ns num cause a b = (tt, rem)" and "head_safe ns"
    and one: "one_head (mset (map shape ns))"
  shows "head_safe tt \<and> head_safe rem"
proof -
  obtain hs cs where s: "pop_head (sort_key sort_nodes_for_termination ns) = (hs, cs)" "mset ns = mset cs + mset hs"
    "length hs \<le> 1" "\<forall>n\<in>set hs. sn_kind n = HEAD" "marked (take num cs) tt"
    "rem = map (\<lambda>n. if sn_ref n \<in> sn_ref ` set (take num cs) then terminate_node cause a b None n else n) (drop num cs @ hs)"
    by (rule select_nodes [OF sel]) blast
  have sets: "set ns = set cs \<union> set hs" using s(2) by (metis set_mset_mset set_mset_union)
  have cs: "sn_kind n \<noteq> HEAD" if "n \<in> set cs" for n
  proof
    assume h: "sn_kind n = HEAD"
    have "hs \<noteq> []" using pop_head_split [OF s(1)] h that sets by auto
    then obtain m where m: "hs = [m]" "sn_kind m = HEAD" using s(3,4) by (cases hs) auto
    from that have "n \<in># mset cs" by simp
    then obtain C where C: "mset cs = add_mset n C" by (rule mset_add)
    have "mset (map shape ns) = add_mset (shape n) (add_mset (shape m) (image_mset shape C))"
      using s(2) C m by simp
    then show False using one h m(2) by (simp add: one_head_def shape_def)
  qed
  have "head_safe tt"
  proof -
    have "map shape tt = map shape (take num cs)" using marked_counts(4) [OF s(5)] .
    then have "sn_kind n \<noteq> HEAD" if "n \<in> set tt" for n
    proof -
      from that have "shape n \<in> set (map shape tt)" by simp
      then have "shape n \<in> shape ` set (take num cs)" unfolding \<open>map shape tt = map shape (take num cs)\<close> by simp
      then obtain c where "c \<in> set cs" "shape n = shape c" by (auto dest: in_set_takeD)
      then show ?thesis using cs by (simp add: shape_def)
    qed
    then show ?thesis by (simp add: head_safe_def)
  qed
  moreover have "head_safe rem" unfolding head_safe_def
  proof (intro ballI impI)
    fix n assume n: "n \<in> set rem" "sn_kind n = HEAD"
    from n(1) obtain m where m': "m \<in> set (drop num cs @ hs)"
      "n = (if sn_ref m \<in> sn_ref ` set (take num cs) then terminate_node cause a b None m else m)"
      unfolding s(6) set_map by blast
    then have "sn_kind m = HEAD" using n(2) by (metis terminate_node_simps(3))
    note m = m'(1) this m'(2)
    have hm: "m \<in> set hs" using m cs in_set_dropD by fastforce
    have "sn_ref m \<notin> sn_ref ` set (take num cs)"
    proof
      assume "sn_ref m \<in> sn_ref ` set (take num cs)"
      then obtain c where c: "c \<in> set cs" "sn_ref c = sn_ref m" using in_set_takeD by fastforce
      have "shape m \<in># mset (map shape ns)" "shape c \<in># mset (map shape ns)" using hm c sets by auto
      then have "(sn_ref m, sn_type m, HEAD) \<in># mset (map shape ns)" "(sn_ref m, sn_type c, sn_kind c) \<in># mset (map shape ns)"
        by (simp_all only: shape_def m(2) c(2))
      then show False using one cs [OF c(1)] unfolding one_head_def by blast
    qed
    then have "n = m" using m(3) by simp
    moreover have "m \<in> set ns" using hm sets by simp
    ultimately show "\<not> terminating n \<and> sn_termination n = None" using assms(2) m(2) by (simp add: head_safe_def)
  qed
  ultimately show ?thesis by simp
qed

lemma workers_other: "(\<And>n. n \<in> set ns \<Longrightarrow> sn_type n \<noteq> t) \<Longrightarrow> workers t ns = 0"
  by (induction ns) (auto simp: worker_of_def)

lemma shapes_types:
  assumes "mset (map shape ms) = mset (map shape ns)"
  shows "sn_type ` set ms = sn_type ` set ns"
proof -
  have "(\<lambda>(r, t, k). t) ` set_mset (mset (map shape ms)) = (\<lambda>(r, t, k). t) ` set_mset (mset (map shape ns))"
    by (simp only: assms)
  then show ?thesis by (simp add: image_image shape_def)
qed

lemma max_per_type_loop_ok:
  assumes "groups_typed gs" and "distinct (map fst gs)" and "\<forall>t\<in>fst ` set gs. map_of configs t \<noteq> None"
    and "\<forall>t c. map_of configs t = Some c \<longrightarrow> 0 \<le> nc_max_workers c"
    and "head_safe (concat (map snd gs))" and "one_head (mset (map shape (concat (map snd gs))))"
  shows "\<exists>tts non. max_per_type_loop configs gs acc = Inr (acc @ tts, non) \<and> live tts = 0 \<and>
    mset (map shape (tts @ non)) = mset (map shape (concat (map snd gs))) \<and> head_safe (tts @ non) \<and>
    live non \<le> live (concat (map snd gs)) \<and> sn_type ` set non \<subseteq> fst ` set gs \<and>
    (\<forall>t c. map_of configs t = Some c \<longrightarrow> int (workers t non) \<le> nc_max_workers c)"
  using assms(1-3,5,6)
proof (induction gs arbitrary: acc)
  case (Cons p gs)
  obtain t ns where p: "p = (t, ns)" by (cases p)
  obtain c where c: "map_of configs t = Some c" using Cons.prems(3) by (auto simp: p)
  have typed: "groups_typed gs" "\<forall>n\<in>set ns. sn_type n = t" using Cons.prems(1) unfolding groups_typed_def p by (meson list.set_intros)+
  have hs: "head_safe ns" "head_safe (concat (map snd gs))" using Cons.prems(4) by (simp_all add: p)
  have oh: "one_head (mset (map shape ns))" "one_head (mset (map shape (concat (map snd gs))))"
    using one_head_sub [OF Cons.prems(5)] by (simp_all add: p)
  define extra where "extra = int (length ns) - nc_max_workers c"
  obtain tt rem where sel: "(if extra \<le> 0 then ([], ns)
      else select_nodes_to_terminate ns (nat extra) Max_Num_Node_Per_Type None (Some (nc_max_workers c))) = (tt, rem)" by fastforce
  have part: "live tt = 0 \<and> mset (map shape (tt @ rem)) = mset (map shape ns) \<and> head_safe tt \<and> head_safe rem \<and> live rem \<le> live ns \<and>
    int (workers t rem) \<le> nc_max_workers c"
  proof (cases "extra \<le> 0")
    case True
    then have eq: "tt = []" "rem = ns" using sel by simp_all
    have "int (workers t ns) \<le> nc_max_workers c" using True workers_le_length [of t ns] by (simp add: extra_def)
    then show ?thesis using hs(1) unfolding eq by (simp add: head_safe_def)
  next
    case False
    then have s: "select_nodes_to_terminate ns (nat extra) Max_Num_Node_Per_Type None (Some (nc_max_workers c)) = (tt, rem)" using sel by simp
    have "int (workers t rem) \<le> nc_max_workers c"
      using select_counts(9) [OF s, of t] False assms(4) c by (auto simp: extra_def)
    then show ?thesis using select_counts(2,5,6) [OF s] select_head_safe [OF s hs(1) oh(1)] by simp
  qed
  have "\<forall>t\<in>fst ` set gs. map_of configs t \<noteq> None" "distinct (map fst gs)" using Cons.prems(2,3) by auto
  from Cons.IH [OF typed(1) this(2,1) hs(2) oh(2), of "acc @ tt"] obtain tts non where
    IH: "max_per_type_loop configs gs (acc @ tt) = Inr ((acc @ tt) @ tts, non)" "live tts = 0"
    "mset (map shape (tts @ non)) = mset (map shape (concat (map snd gs)))" "head_safe (tts @ non)"
    "live non \<le> live (concat (map snd gs))" "sn_type ` set non \<subseteq> fst ` set gs"
    "\<forall>t c. map_of configs t = Some c \<longrightarrow> int (workers t non) \<le> nc_max_workers c" by blast
  have loop: "max_per_type_loop configs (p # gs) acc = Inr (acc @ tt @ tts, rem @ non)"
    using c sel IH(1) by (simp add: p Let_def extra_def [symmetric])
  have "sn_type ` set tt \<union> sn_type ` set rem = sn_type ` set ns" using shapes_types [of "tt @ rem" ns] part by (simp add: image_Un)
  then have "sn_type ` set rem \<subseteq> sn_type ` set ns" by blast
  then have tys: "sn_type n = t" if "n \<in> set rem" for n using typed(2) that by fastforce
  have wk: "int (workers t' (rem @ non)) \<le> nc_max_workers c'" if c': "map_of configs t' = Some c'" for t' c'
  proof (cases "t' = t")
    case True
    have "t \<notin> fst ` set gs" using Cons.prems(2) by (simp add: p)
    then have "workers t non = 0" using IH(6) by (intro workers_other) blast
    then show ?thesis using part c c' True by simp
  next
    case False
    then have "workers t' rem = 0" using tys by (intro workers_other) blast
    then show ?thesis using IH(7) c' by simp
  qed
  have "mset (map shape ((tt @ tts) @ rem @ non)) = mset (map shape (concat (map snd (p # gs))))"
    using part IH(3) by (simp add: p) (metis (no_types, lifting) add.assoc add.left_commute)
  then show ?case using loop wk part IH(2,4,5,6) tys by (intro exI [of _ "tt @ tts"] exI [of _ "rem @ non"]) (auto simp: p)
qed (simp add: head_safe_def assms(4))

subsection \<open>The limits are enforced\<close>

definition configs_ok :: "(string, node_type_config) dict \<Rightarrow> bool" where
  "configs_ok configs \<longleftrightarrow> distinct (map fst configs) \<and> (\<forall>t c. (t, c) \<in> set configs \<longrightarrow> nc_name c = t \<and> config_ok c)"

text \<open>What the counting steps keep: the maxima per type and overall, and the head.\<close>

definition within_type_limits :: "sched_context \<Rightarrow> bool" where
  "within_type_limits cx \<longleftrightarrow> (\<forall>t c. map_of (cx_configs cx) t = Some c \<longrightarrow> int (workers t (cx_nodes cx)) \<le> nc_max_workers c)"

definition within_max_nodes :: "sched_context \<Rightarrow> bool" where
  "within_max_nodes cx \<longleftrightarrow> (\<forall>m. cx_max_nodes cx = Some m \<longrightarrow> 0 < m \<longrightarrow> int (live (cx_nodes cx)) \<le> m)"

lemma workers_terminating: "live ns = 0 \<Longrightarrow> workers t ns = 0"
  by (induction ns) (auto simp: worker_of_def split: if_splits)

lemma live_filter [simp]: "live (filter terminating ns) = 0" "live (filter (\<lambda>n. \<not> terminating n) ns) = live ns"
  by (induction ns) auto

lemma workers_filter [simp]: "workers t (filter (\<lambda>n. \<not> terminating n) ns) = workers t ns"
  by (induction ns) (auto simp: worker_of_def)

lemma mset_filter_split: "mset (filter P ns) + mset (filter (\<lambda>n. \<not> P n) ns) = mset ns"
  by (induction ns) auto

lemma enforce_max_workers_per_type_ok:
  assumes "configs_ok (cx_configs cx)" and "\<forall>n\<in>set (cx_nodes cx). terminating n \<or> map_of (cx_configs cx) (sn_type n) \<noteq> None"
    and "head_safe (cx_nodes cx)" and "one_head (mset (map shape (cx_nodes cx)))"
  shows "\<exists>ns. enforce_max_workers_per_type cx = Inr (context_update ns cx) \<and> mset (map shape ns) = mset (map shape (cx_nodes cx)) \<and>
    head_safe ns \<and> live ns \<le> live (cx_nodes cx) \<and>
    (\<forall>t c. map_of (cx_configs cx) t = Some c \<longrightarrow> int (workers t ns) \<le> nc_max_workers c) \<and>
    (\<forall>n\<in>set ns. terminating n \<or> map_of (cx_configs cx) (sn_type n) \<noteq> None)"
proof -
  let ?all = "cx_nodes cx" and ?cs = "cx_configs cx"
  let ?non = "filter (\<lambda>n. \<not> terminating n) ?all" and ?trm = "filter terminating ?all"
  define gs where "gs = group_by_type ?non"
  have gs: "distinct (map fst gs)" "mset (concat (map snd gs)) = mset ?non" "groups_typed gs"
    using group_by_type_split [of ?non] by (simp_all only: gs_def)
  have shapes: "mset (map shape (concat (map snd gs))) = mset (map shape ?non)" using gs(2) by (metis mset_map)
  have sets: "set (concat (map snd gs)) = set ?non" using gs(2) by (metis set_mset_mset)
  have "map_of ?cs t \<noteq> None" if t: "t \<in> fst ` set gs" "\<forall>p\<in>set gs. snd p \<noteq> []" for t
  proof -
    from t obtain ns n where n: "(t, ns) \<in> set gs" "n \<in> set ns" by (metis (no_types, lifting) imageE list.set_sel(1) prod.collapse)
    then have "n \<in> set ?non" using sets by force
    moreover have "sn_type n = t" using gs(3) n unfolding groups_typed_def by blast
    ultimately show ?thesis using assms(2) by auto
  qed
  moreover have "\<forall>p\<in>set gs. snd p \<noteq> []" unfolding gs_def by (rule group_by_type_nonempty)
  ultimately have known: "\<forall>t\<in>fst ` set gs. map_of ?cs t \<noteq> None" by blast
  have maxs: "\<forall>t c. map_of ?cs t = Some c \<longrightarrow> 0 \<le> nc_max_workers c"
  proof (intro allI impI)
    fix t c assume "map_of ?cs t = Some c"
    then have "(t, c) \<in> set ?cs" by (rule map_of_SomeD)
    then have "config_ok c" using assms(1) unfolding configs_ok_def by blast
    then show "0 \<le> nc_max_workers c" by (simp add: config_ok_def)
  qed
  have heads: "head_safe (concat (map snd gs))" "one_head (mset (map shape (concat (map snd gs))))"
  proof -
    show "head_safe (concat (map snd gs))" using assms(3) sets unfolding head_safe_def by auto
    have "mset (map shape ?non) \<subseteq># mset (map shape ?all)" by (simp add: image_mset_subseteq_mono)
    then show "one_head (mset (map shape (concat (map snd gs))))" using one_head_sub [OF assms(4)] shapes by simp
  qed
  from max_per_type_loop_ok [where acc = ?trm, OF gs(3,1) known maxs heads] obtain tts non where
    l: "max_per_type_loop ?cs gs ?trm = Inr (?trm @ tts, non)" "live tts = 0"
    "mset (map shape (tts @ non)) = mset (map shape (concat (map snd gs)))" "head_safe (tts @ non)"
    "live non \<le> live (concat (map snd gs))" "sn_type ` set non \<subseteq> fst ` set gs"
    "\<forall>t c. map_of ?cs t = Some c \<longrightarrow> int (workers t non) \<le> nc_max_workers c" by blast
  let ?ns = "(?trm @ tts) @ non"
  have sh: "mset (map shape ?ns) = mset (map shape ?all)"
  proof -
    have "mset (map shape ?ns) = mset (map shape ?trm) + mset (map shape ?non)" using l(3) shapes by simp
    also have "\<dots> = image_mset shape (mset ?trm + mset ?non)" by (simp only: image_mset_union mset_map)
    also have "mset ?trm + mset ?non = mset ?all" by (rule mset_filter_split)
    finally show ?thesis by simp
  qed
  have "length ?all = length ?ns" using mset_eq_length [OF sh] by simp
  then have "enforce_max_workers_per_type cx = Inr (context_update ?ns cx)"
    using l(1) by (simp add: enforce_max_workers_per_type_def gs_def [symmetric] Let_def)
  moreover have "live ?ns \<le> live ?all" using l(2,5) live_mset [OF gs(2)] by simp
  moreover have "workers t ?ns = workers t non" for t using workers_terminating [of ?trm] workers_terminating [of tts] l(2) by simp
  moreover have "head_safe ?ns" using l(4) assms(3) by (auto simp: head_safe_def)
  moreover have "\<forall>n\<in>set ?ns. terminating n \<or> map_of ?cs (sn_type n) \<noteq> None"
  proof
    fix n assume n: "n \<in> set ?ns"
    have "terminating m" if "m \<in> set tts" for m using l(2) that by (induction tts) (auto split: if_splits)
    moreover have "map_of ?cs (sn_type n) \<noteq> None" if "n \<in> set non" using l(6) known that by blast
    ultimately show "terminating n \<or> map_of ?cs (sn_type n) \<noteq> None" using n by auto
  qed
  ultimately show ?thesis using sh l(7) by (intro exI [of _ ?ns]) simp
qed

lemma enforce_max_workers_global_ok:
  assumes "head_safe (cx_nodes cx)" and "one_head (mset (map shape (cx_nodes cx)))"
    and "\<And>m. cx_max_nodes cx = Some m \<Longrightarrow> 0 \<le> m"
  shows "\<exists>cx'. enforce_max_workers_global cx = Inr cx' \<and> (cx' = cx \<or> (\<exists>ns. cx' = context_update ns cx)) \<and>
    mset (map shape (cx_nodes cx')) = mset (map shape (cx_nodes cx)) \<and> head_safe (cx_nodes cx') \<and>
    (\<forall>t. workers t (cx_nodes cx') \<le> workers t (cx_nodes cx)) \<and> within_max_nodes cx' \<and>
    (\<forall>n\<in>set (cx_nodes cx'). \<not> terminating n \<longrightarrow> (\<exists>m\<in>set (cx_nodes cx). \<not> terminating m \<and> sn_type m = sn_type n))"
proof -
  let ?all = "cx_nodes cx"
  let ?non = "filter (\<lambda>n. \<not> terminating n) ?all" and ?trm = "filter terminating ?all"
  define num where "num = (case cx_max_nodes cx of None \<Rightarrow> 0
    | Some m \<Rightarrow> if m \<noteq> 0 then max (int (length ?non) - m) 0 else 0)"
  have lnon: "length ?non = live ?all" by (simp add: live_def)
  show ?thesis
  proof (cases "num \<le> 0")
    case True
    then have "enforce_max_workers_global cx = Inr cx" by (simp add: enforce_max_workers_global_def num_def Let_def)
    moreover have "within_max_nodes cx" using True assms(3) lnon by (auto simp: within_max_nodes_def num_def)
    ultimately show ?thesis using assms(1) by auto
  next
    case False
    then obtain m where m: "cx_max_nodes cx = Some m" "0 < m" "num = int (length ?non) - m"
      using assms(3) by (auto simp: num_def max_def order_less_le split: option.splits if_splits)
    obtain tt rem where sel: "select_nodes_to_terminate ?non (nat num) Max_Num_Nodes (cx_max_nodes cx) None = (tt, rem)" by fastforce
    have hs: "head_safe ?non" using assms(1) by (auto simp: head_safe_def)
    have "mset (map shape ?non) \<subseteq># mset (map shape ?all)" by (simp add: image_mset_subseteq_mono)
    then have oh: "one_head (mset (map shape ?non))" by (rule one_head_sub [OF assms(2)])
    have ltt: "length tt = nat num" by (rule select_counts(8) [OF sel]) (use m False in linarith)
    let ?ns = "?trm @ tt @ rem"
    have sh: "mset (map shape ?ns) = mset (map shape ?all)"
    proof -
      have "mset (map shape ?ns) = mset (map shape ?trm) + mset (map shape ?non)" using select_counts(6) [OF sel] by simp
      also have "\<dots> = image_mset shape (mset ?trm + mset ?non)" by (simp only: image_mset_union mset_map)
      also have "mset ?trm + mset ?non = mset ?all" by (rule mset_filter_split)
      finally show ?thesis by simp
    qed
    have len: "length ?all = length ?ns" using mset_eq_length [OF sh] by simp
    have run: "enforce_max_workers_global cx = Inr (context_update ?ns cx)"
      using False ltt sel len by (simp add: enforce_max_workers_global_def num_def [symmetric] Let_def)
    have w: "workers t ?ns \<le> workers t ?all" for t
      using select_counts(3,4) [OF sel, of t] workers_terminating [of ?trm t] by simp
    have "live (tt @ rem) + nat num \<le> length ?non" by (rule select_counts(7) [OF sel]) (use ltt in simp)
    then have lim: "within_max_nodes (context_update ?ns cx)"
      using m False lnon by (simp add: within_max_nodes_def context_update_def)
    have ty: "\<exists>m\<in>set ?all. \<not> terminating m \<and> sn_type m = sn_type n" if "n \<in> set ?ns" "\<not> terminating n" for n
    proof -
      have "n \<in> set (tt @ rem)" using that by simp
      then have "sn_type n \<in> sn_type ` set ?non" using shapes_types [OF select_counts(6) [OF sel]] by blast
      then show ?thesis by auto
    qed
    have hn: "head_safe ?ns" using select_head_safe [OF sel hs oh] assms(1) by (auto simp: head_safe_def)
    show ?thesis
      by (intro exI [of _ "context_update ?ns cx"] conjI run lim allI ballI impI)
        (use w ty sh hn in \<open>auto simp: context_update_def\<close>)
  qed
qed

subsection \<open>The nodes of a request\<close>

definition head_instances :: "sched_request \<Rightarrow> nat" where
  "head_instances q =
     length (filter (\<lambda>a. case ai_im_instance a of Some i \<Rightarrow> inst_node_kind i = HEAD | None \<Rightarrow> False) (sq_instances q))"

text \<open>The types of the head and, unless outdated nodes are terminated, of all instances are configured.\<close>

definition types_known :: "sched_request \<Rightarrow> bool" where
  "types_known q \<longleftrightarrow> (\<forall>a i. a \<in> set (sq_instances q) \<longrightarrow> ai_im_instance a = Some i \<longrightarrow>
     sq_disable_check q \<or> inst_node_kind i = HEAD \<longrightarrow> map_of (sq_configs q) (inst_type i) \<noteq> None)"

lemma new_node_simps [simp]:
  "sn_type (new_node ty tot av lb st iid ist rid idle hash kind tr prio) = ty"
  "sn_status (new_node ty tot av lb st iid ist rid idle hash kind tr prio) = st"
  "sn_kind (new_node ty tot av lb st iid ist rid idle hash kind tr prio) = kind"
  "sn_termination (new_node ty tot av lb st iid ist rid idle hash kind tr prio) = tr"
  "sn_ippr_status (new_node ty tot av lb st iid ist rid idle hash kind tr prio) = None"
  by (simp_all add: new_node_def)

lemma attach_ippr_simps [simp]:
  "sn_type (attach_ippr q a n) = sn_type n" "sn_status (attach_ippr q a n) = sn_status n" "sn_kind (attach_ippr q a n) = sn_kind n"
  "sn_termination (attach_ippr q a n) = sn_termination n"
  by (simp_all add: attach_ippr_def split: option.splits)

text \<open>A head node comes from a head instance of a known type and is not terminated.\<close>

lemma sched_node_new_Some:
  assumes "sched_node_new a configs chk = Some n"
  obtains (running) i ry where "ai_im_instance a = Some i" "ai_ray_node a = Some ry" "inst_status i = RAY_RUNNING"
    "n = new_node (inst_type i) (ry_total ry) (ry_available ry) (dict_update (ry_dynamic_labels ry) (dict_of (ry_labels ry))) Schedulable
      (Some (inst_id i)) (Some (inst_status i)) (inst_node_id i) (ry_idle_ms ry) (inst_launch_hash i) (inst_node_kind i) None
      (case map_of configs (inst_type i) of Some c \<Rightarrow> nc_priority c | None \<Rightarrow> 0)"
  | (gone) i tr where "ai_im_instance a = Some i" "map_of configs (inst_type i) = None" "\<not> chk"
    "n = new_node (inst_type i) [] [] [] To_Terminate (Some (inst_id i)) (Some (inst_status i)) [] 0 [] WORKER (Some tr) 0"
  | (pending) i c where "ai_im_instance a = Some i" "map_of configs (inst_type i) = Some c"
    "n = from_node_config c Schedulable (inst_node_kind i) (Some (inst_id i)) (Some (inst_status i))"
proof -
  obtain i where i: "ai_im_instance a = Some i" "is_schedulable a"
    using assms by (cases "ai_im_instance a") (auto simp: sched_node_new_def split: if_splits)
  show thesis
  proof (cases "inst_status i = RAY_RUNNING")
    case True
    then show ?thesis using assms i running by (cases "ai_ray_node a") (simp_all add: sched_node_new_def Let_def)
  next
    case False
    show ?thesis
    proof (cases "map_of configs (inst_type i)")
      case None
      then have "\<not> chk" "\<exists>tr. n = new_node (inst_type i) [] [] [] To_Terminate (Some (inst_id i)) (Some (inst_status i)) [] 0 [] WORKER (Some tr) 0"
        using assms i False by (auto simp: sched_node_new_def Let_def split: if_splits)
      then show ?thesis using gone [OF i(1) None] by blast
    next
      case (Some c)
      then show ?thesis using assms i False pending by (simp add: sched_node_new_def Let_def)
    qed
  qed
qed

lemma from_node_config_simps [simp]:
  "sn_type (from_node_config c st k iid ist) = nc_name c" "sn_status (from_node_config c st k iid ist) = st"
  "sn_kind (from_node_config c st k iid ist) = k" "sn_termination (from_node_config c st k iid ist) = None"
  "sn_ippr_status (from_node_config c st k iid ist) = None"
  by (simp_all add: from_node_config_def)

lemma head_origin:
  assumes "sched_node_new a configs chk = Some n" and "sn_kind n = HEAD"
  shows "\<exists>i. ai_im_instance a = Some i \<and> inst_node_kind i = HEAD \<and> sn_status n = Schedulable \<and> sn_termination n = None"
  using assms(1) by (cases rule: sched_node_new_Some) (use assms(2) in auto)

lemma length_map_filter: "length (List.map_filter f xs) \<le> length xs"
  by (induction xs) (auto simp: List.map_filter_simps split: option.splits)

definition request_nodes :: "sched_request \<Rightarrow> sched_node list" where
  "request_nodes q =
     List.map_filter (\<lambda>a. map_option (attach_ippr q a) (sched_node_new a (sq_configs q) (sq_disable_check q))) (sq_instances q)"

lemma from_schedule_request_nodes:
  "cx_nodes (from_schedule_request q) = map2 (\<lambda>i n. n\<lparr>sn_ref := i\<rparr>) [0..<length (request_nodes q)] (request_nodes q)"
  "cx_configs (from_schedule_request q) = sq_configs q" "cx_max_nodes (from_schedule_request q) = sq_max_nodes q"
  "cx_disable_check (from_schedule_request q) = sq_disable_check q"
  by (simp_all add: from_schedule_request_def Let_def request_nodes_def)

lemma request_node_origin:
  assumes "n \<in> set (request_nodes q)"
  obtains a m where "a \<in> set (sq_instances q)" "sched_node_new a (sq_configs q) (sq_disable_check q) = Some m" "n = attach_ippr q a m"
  using assms that by (auto simp: request_nodes_def List.map_filter_def)

lemma context_node_origin:
  assumes "n \<in> set (cx_nodes (from_schedule_request q))"
  obtains m i where "m \<in> set (request_nodes q)" "n = m\<lparr>sn_ref := i\<rparr>"
proof -
  from assms obtain p where "p \<in> set (zip [0..<length (request_nodes q)] (request_nodes q))" "n = (snd p)\<lparr>sn_ref := fst p\<rparr>"
    by (auto simp: from_schedule_request_nodes)
  then show thesis using that [of "snd p" "fst p"] by (metis in_set_zipE prod.collapse)
qed

lemma request_heads: "length (filter (\<lambda>n. sn_kind n = HEAD) (request_nodes q)) \<le> head_instances q"
proof -
  have "length (filter (\<lambda>n. sn_kind n = HEAD)
      (List.map_filter (\<lambda>a. map_option (attach_ippr q a) (sched_node_new a (sq_configs q) (sq_disable_check q))) as)) \<le>
    length (filter (\<lambda>a. case ai_im_instance a of Some i \<Rightarrow> inst_node_kind i = HEAD | None \<Rightarrow> False) as)" for as
  proof (induction as)
    case (Cons a as)
    show ?case
    proof (cases "sched_node_new a (sq_configs q) (sq_disable_check q)")
      case (Some n)
      have "(case ai_im_instance a of Some i \<Rightarrow> inst_node_kind i = HEAD | None \<Rightarrow> False)" if "sn_kind n = HEAD"
        using head_origin [OF Some that] by auto
      then show ?thesis using Cons Some by (auto simp: List.map_filter_simps)
    qed (use Cons in \<open>auto simp: List.map_filter_simps\<close>)
  qed (simp add: List.map_filter_simps)
  then show ?thesis by (simp add: request_nodes_def head_instances_def)
qed

lemma one_head_refs:
  assumes "distinct (map sn_ref ns)" and "length (filter (\<lambda>n. sn_kind n = HEAD) ns) \<le> 1"
  shows "one_head (mset (map shape ns))"
proof -
  have "size (filter_mset (\<lambda>(r, t, k). k = HEAD) (mset (map shape ns))) = length (filter (\<lambda>n. sn_kind n = HEAD) ns)"
    by (induction ns) (auto simp: shape_def)
  moreover have "k = HEAD" if "(r, t, HEAD) \<in> shape ` set ns" "(r, t', k) \<in> shape ` set ns" for r t t' k
    using that assms(1) by (auto simp: shape_def distinct_map inj_on_def)
  ultimately show ?thesis using assms(2) by (auto simp: one_head_def)
qed

lemma refs_map2: "map sn_ref (map2 (\<lambda>i n. n\<lparr>sn_ref := i\<rparr>) is ns) = take (min (length is) (length ns)) is"
  by (induction "is" ns rule: list_induct2') auto

lemma kinds_map2: "length is = length ns \<Longrightarrow> map sn_kind (map2 (\<lambda>i n. n\<lparr>sn_ref := i\<rparr>) is ns) = map sn_kind ns"
  by (induction "is" ns rule: list_induct2) auto

lemma count_kinds: "length (filter (\<lambda>n. sn_kind n = HEAD) ns) = length (filter (\<lambda>k. k = HEAD) (map sn_kind ns))"
  by (simp add: filter_map comp_def)

lemma request_context_heads:
  assumes "head_instances q \<le> 1"
  shows "one_head (mset (map shape (cx_nodes (from_schedule_request q))))" and "head_safe (cx_nodes (from_schedule_request q))"
proof -
  let ?ns = "cx_nodes (from_schedule_request q)"
  have "distinct (map sn_ref ?ns)" unfolding from_schedule_request_nodes refs_map2 by simp
  moreover have "length (filter (\<lambda>n. sn_kind n = HEAD) ?ns) = length (filter (\<lambda>n. sn_kind n = HEAD) (request_nodes q))"
    unfolding count_kinds from_schedule_request_nodes by (subst kinds_map2) simp_all
  ultimately show "one_head (mset (map shape ?ns))" using one_head_refs request_heads [of q] assms by simp
  show "head_safe ?ns" unfolding head_safe_def
  proof (intro ballI impI)
    fix n assume n: "n \<in> set ?ns" "sn_kind n = HEAD"
    obtain m i where m: "m \<in> set (request_nodes q)" "n = m\<lparr>sn_ref := i\<rparr>" by (rule context_node_origin [OF n(1)])
    obtain a k where k: "sched_node_new a (sq_configs q) (sq_disable_check q) = Some k" "m = attach_ippr q a k"
      by (rule request_node_origin [OF m(1)])
    have "sn_kind k = HEAD" using n(2) m k by simp
    then have "sn_status k = Schedulable \<and> sn_termination k = None" using head_origin [OF k(1)] by auto
    then show "\<not> terminating n \<and> sn_termination n = None" using m k by (simp add: terminating_def)
  qed
qed

subsection \<open>Outdated nodes and minimal numbers\<close>

lemma context_update_simps [simp]:
  "cx_nodes (context_update ns cx) = ns" "cx_configs (context_update ns cx) = cx_configs cx"
  "cx_max_nodes (context_update ns cx) = cx_max_nodes cx" "cx_idle_timeout_s (context_update ns cx) = cx_idle_timeout_s cx"
  "cx_available (context_update ns cx) = compute_available_node_types ns (cx_configs cx)"
  "cx_ippr_specs (context_update ns cx) = cx_ippr_specs cx"
  by (simp_all add: context_update_def)

lemma terminate_outdated_ok:
  assumes "head_safe (cx_nodes cx)"
  shows "marked (cx_nodes cx) (cx_nodes (terminate_outdated_nodes cx))" "head_safe (cx_nodes (terminate_outdated_nodes cx))"
    "cx_configs (terminate_outdated_nodes cx) = cx_configs cx" "cx_max_nodes (terminate_outdated_nodes cx) = cx_max_nodes cx"
    "\<not> cx_disable_check cx \<Longrightarrow> n \<in> set (cx_nodes (terminate_outdated_nodes cx)) \<Longrightarrow> sn_status n = Schedulable \<Longrightarrow> sn_kind n \<noteq> HEAD \<Longrightarrow>
      map_of (cx_configs cx) (sn_type n) \<noteq> None"
proof -
  let ?f = "\<lambda>n. if is_outdated (cx_configs cx) n then terminate_node Outdated None None None n else n"
  have eq: "cx_nodes (terminate_outdated_nodes cx) = (if cx_disable_check cx then cx_nodes cx else map ?f (cx_nodes cx))"
    by (simp add: terminate_outdated_nodes_def)
  have m: "marked (cx_nodes cx) (map ?f (cx_nodes cx))" by (rule marked_map) auto
  have "marked (cx_nodes cx) (cx_nodes cx)" using marked_map [of "cx_nodes cx" id] by simp
  then show "marked (cx_nodes cx) (cx_nodes (terminate_outdated_nodes cx))" using m by (simp add: eq)
  show "head_safe (cx_nodes (terminate_outdated_nodes cx))" using assms unfolding eq
    by (auto simp: head_safe_def is_outdated_def)
  show "cx_configs (terminate_outdated_nodes cx) = cx_configs cx" "cx_max_nodes (terminate_outdated_nodes cx) = cx_max_nodes cx"
    by (simp_all add: terminate_outdated_nodes_def)
  show "map_of (cx_configs cx) (sn_type n) \<noteq> None"
    if "\<not> cx_disable_check cx" "n \<in> set (cx_nodes (terminate_outdated_nodes cx))" "sn_status n = Schedulable" "sn_kind n \<noteq> HEAD"
    using that unfolding eq by (auto simp: is_outdated_def terminate_node_def split: if_splits option.splits)
qed

lemma min_workers_new:
  assumes "n \<in> set (min_workers_nodes sh ref configs)"
  shows "ref \<le> sn_ref n \<and> sn_kind n = WORKER \<and> sn_status n = To_Launch \<and> sn_termination n = None \<and> sn_ippr_status n = None \<and>
    (\<exists>t c. (t, c) \<in> set configs \<and> n = (from_node_config c To_Launch WORKER None None)\<lparr>sn_ref := sn_ref n\<rparr>)"
  using assms
proof (induction sh ref configs rule: min_workers_nodes.induct)
  case (2 sh ref t c configs)
  consider "n = (from_node_config c To_Launch WORKER None None)\<lparr>sn_ref := ref\<rparr>" | "n \<in> set (min_workers_nodes sh (ref + 1) configs)"
    using "2.prems" by (auto simp: Let_def split: if_splits)
  then show ?case
  proof cases
    case 2
    then show ?thesis using "2.IH" by fastforce
  qed auto
qed simp

lemma no_heads: "(\<And>n. n \<in> set ns \<Longrightarrow> sn_kind n \<noteq> HEAD) \<Longrightarrow> filter_mset (\<lambda>(r, t, k). k = HEAD) (mset (map shape ns)) = {#}"
  by (induction ns) (auto simp: shape_def)

lemma enforce_min_workers_ok:
  assumes "head_safe (cx_nodes cx)" and "one_head (mset (map shape (cx_nodes cx)))"
  shows "head_safe (cx_nodes (enforce_min_workers_per_type cx))"
    "one_head (mset (map shape (cx_nodes (enforce_min_workers_per_type cx))))"
    "cx_configs (enforce_min_workers_per_type cx) = cx_configs cx" "cx_max_nodes (enforce_min_workers_per_type cx) = cx_max_nodes cx"
    "n \<in> set (cx_nodes (enforce_min_workers_per_type cx)) \<Longrightarrow> n \<in> set (cx_nodes cx) \<or>
      (\<exists>t c. (t, c) \<in> set (cx_configs cx) \<and> n = (from_node_config c To_Launch WORKER None None)\<lparr>sn_ref := sn_ref n\<rparr>)"
proof -
  define ref where "ref = Suc (Max (insert 0 (sn_ref ` set (cx_nodes cx))))"
  define new where "new = min_workers_nodes (cluster_shape (cx_nodes cx)) ref (cx_configs cx)"
  have nodes: "cx_nodes (enforce_min_workers_per_type cx) = new @ cx_nodes cx"
    by (simp add: enforce_min_workers_per_type_def new_def ref_def Let_def)
  have new: "ref \<le> sn_ref n \<and> sn_kind n = WORKER \<and>
      (\<exists>t c. (t, c) \<in> set (cx_configs cx) \<and> n = (from_node_config c To_Launch WORKER None None)\<lparr>sn_ref := sn_ref n\<rparr>)"
    if "n \<in> set new" for n using min_workers_new that unfolding new_def by blast
  show "head_safe (cx_nodes (enforce_min_workers_per_type cx))" using assms(1) new by (auto simp: nodes head_safe_def)
  show "cx_configs (enforce_min_workers_per_type cx) = cx_configs cx" "cx_max_nodes (enforce_min_workers_per_type cx) = cx_max_nodes cx"
    by (simp_all add: enforce_min_workers_per_type_def Let_def)
  show "n \<in> set (cx_nodes (enforce_min_workers_per_type cx)) \<Longrightarrow> n \<in> set (cx_nodes cx) \<or>
      (\<exists>t c. (t, c) \<in> set (cx_configs cx) \<and> n = (from_node_config c To_Launch WORKER None None)\<lparr>sn_ref := sn_ref n\<rparr>)"
    using new unfolding nodes by auto
  have old: "sn_ref n < ref" if "n \<in> set (cx_nodes cx)" for n
  proof -
    have "sn_ref n \<le> Max (insert 0 (sn_ref ` set (cx_nodes cx)))" using that by (intro Max_ge) auto
    then show ?thesis by (simp add: ref_def)
  qed
  show "one_head (mset (map shape (cx_nodes (enforce_min_workers_per_type cx))))" unfolding one_head_def
  proof (intro conjI allI impI)
    have e: "filter_mset (\<lambda>(r, t, k). k = HEAD) (mset (map shape new)) = {#}"
      by (rule no_heads) (use new in auto)
    have f: "filter_mset (\<lambda>(r, t, k). k = HEAD) (mset (map shape (new @ cx_nodes cx))) =
        filter_mset (\<lambda>(r, t, k). k = HEAD) (mset (map shape (cx_nodes cx)))"
      unfolding map_append mset_append filter_union_mset e by simp
    show "size (filter_mset (\<lambda>(r, t, k). k = HEAD) (mset (map shape (cx_nodes (enforce_min_workers_per_type cx))))) \<le> 1"
      unfolding nodes f using assms(2) unfolding one_head_def by blast
    fix r t r' t' k
    assume a: "(r, t, HEAD) \<in># mset (map shape (cx_nodes (enforce_min_workers_per_type cx)))"
      "(r', t', k) \<in># mset (map shape (cx_nodes (enforce_min_workers_per_type cx)))" "r' = r"
    obtain n m where nm: "n \<in> set (new @ cx_nodes cx)" "shape n = (r, t, HEAD)" "m \<in> set (new @ cx_nodes cx)" "shape m = (r', t', k)"
      using a unfolding nodes by fastforce
    have "n \<in> set (cx_nodes cx)" using nm(1,2) new by (auto simp: shape_def)
    moreover have "m \<in> set (cx_nodes cx)"
    proof (rule ccontr)
      assume "m \<notin> set (cx_nodes cx)"
      then have "ref \<le> sn_ref m" using nm(3) new by auto
      then show False using old [OF calculation] nm(2,4) a(3) by (simp add: shape_def)
    qed
    ultimately have "(r, t, HEAD) \<in># mset (map shape (cx_nodes cx))" "(r', t', k) \<in># mset (map shape (cx_nodes cx))"
      using nm(2,4) by (metis image_eqI set_map set_mset_mset)+
    then show "k = HEAD" using assms(2) a(3) unfolding one_head_def by blast
  qed
qed

text \<open>The counting steps succeed and establish the limits.\<close>

lemma schedule_limits_ok:
  assumes "configs_ok (sq_configs q)" and "types_known q" and "head_instances q \<le> 1" and "\<forall>m. sq_max_nodes q = Some m \<longrightarrow> 0 \<le> m"
  shows "\<exists>cx. schedule_limits q = Inr cx \<and> within_type_limits cx \<and> within_max_nodes cx \<and> head_safe (cx_nodes cx) \<and>
    cx_configs cx = sq_configs q \<and> cx_max_nodes cx = sq_max_nodes q \<and>
    (\<forall>n\<in>set (cx_nodes cx). terminating n \<or> map_of (sq_configs q) (sn_type n) \<noteq> None)"
proof -
  let ?cx0 = "from_schedule_request q"
  note heads0 = request_context_heads [OF assms(3)]
  let ?cx1 = "terminate_outdated_nodes ?cx0"
  note out = terminate_outdated_ok [OF heads0(2)]
  have shape1: "map shape (cx_nodes ?cx1) = map shape (cx_nodes ?cx0)" by (rule marked_counts(4) [OF out(1)])
  have oh1: "one_head (mset (map shape (cx_nodes ?cx1)))" using heads0(1) shape1 by simp
  have names: "nc_name c = t" if "map_of (sq_configs q) t = Some c" for t c
    using assms(1) map_of_SomeD [OF that] unfolding configs_ok_def by blast
  have origin: "terminating n \<or> map_of (sq_configs q) (sn_type n) \<noteq> None \<or> \<not> sq_disable_check q \<and> sn_kind n \<noteq> HEAD \<and> sn_status n = Schedulable"
    if n0: "n \<in> set (cx_nodes ?cx0)" for n
  proof -
    obtain m i where m: "m \<in> set (request_nodes q)" "n = m\<lparr>sn_ref := i\<rparr>" by (rule context_node_origin [OF n0])
    obtain a k where k: "a \<in> set (sq_instances q)" "sched_node_new a (sq_configs q) (sq_disable_check q) = Some k" "m = attach_ippr q a k"
      by (rule request_node_origin [OF m(1)])
    have n: "sn_type n = sn_type k" "sn_kind n = sn_kind k" "sn_status n = sn_status k" "terminating n = terminating k"
      using m k by (simp_all add: terminating_def)
    from k(2) show ?thesis
    proof (cases rule: sched_node_new_Some)
      case (running i ry)
      then have "sn_type n = inst_type i" "sn_kind n = inst_node_kind i" "sn_status n = Schedulable" using n by simp_all
      moreover have "map_of (sq_configs q) (inst_type i) \<noteq> None" if "sq_disable_check q \<or> inst_node_kind i = HEAD"
        using assms(2) k(1) running(1) that unfolding types_known_def by blast
      ultimately show ?thesis by auto
    next
      case (gone i tr)
      then show ?thesis using n by (simp add: terminating_def)
    next
      case (pending i c)
      then have "sn_type n = inst_type i" using n names [of "inst_type i" c] by simp
      then show ?thesis using pending(2) by simp
    qed
  qed
  have known1: "terminating n \<or> map_of (sq_configs q) (sn_type n) \<noteq> None" if n: "n \<in> set (cx_nodes ?cx1)" for n
  proof (cases "terminating n")
    case F: False
    have "n \<in> set (cx_nodes ?cx0)"
    proof -
      have "list_all2 (\<lambda>n m. m = n \<or> (\<exists>c a b i. m = terminate_node c a b i n)) (cx_nodes ?cx0) (cx_nodes ?cx1)"
        using out(1) unfolding marked_def .
      then obtain m where "m \<in> set (cx_nodes ?cx0)" "n = m \<or> (\<exists>c a b i. n = terminate_node c a b i m)"
        using n unfolding list_all2_conv_all_nth in_set_conv_nth by metis
      then show ?thesis using F by auto
    qed
    then show ?thesis using origin out(5) [OF _ n] F by (auto simp: from_schedule_request_nodes)
  qed simp
  let ?cx2 = "enforce_min_workers_per_type ?cx1"
  note mn = enforce_min_workers_ok [OF out(2) oh1]
  have known2: "\<forall>n\<in>set (cx_nodes ?cx2). terminating n \<or> map_of (cx_configs ?cx2) (sn_type n) \<noteq> None"
  proof
    fix n assume n2: "n \<in> set (cx_nodes ?cx2)"
    have cfg1: "cx_configs ?cx1 = sq_configs q" using out(3) by (simp add: from_schedule_request_nodes)
    consider "n \<in> set (cx_nodes ?cx1)"
      | t c where "(t, c) \<in> set (sq_configs q)" "n = (from_node_config c To_Launch WORKER None None)\<lparr>sn_ref := sn_ref n\<rparr>"
      using mn(5) [OF n2] unfolding cfg1 by blast
    then show "terminating n \<or> map_of (cx_configs ?cx2) (sn_type n) \<noteq> None"
    proof cases
      case 1
      then show ?thesis using known1 mn(3) out(3) by (auto simp: from_schedule_request_nodes)
    next
      case (2 t c)
      then have "sn_type n = nc_name c" by (metis from_node_config_simps(1) sched_node.select_convs(2) sched_node.surjective sched_node.update_convs(1))
      then have "sn_type n = t" using 2(1) assms(1) unfolding configs_ok_def by metis
      then show ?thesis using 2(1) mn(3) out(3) weak_map_of_SomeI by (fastforce simp: from_schedule_request_nodes)
    qed
  qed
  have cfg2: "cx_configs ?cx2 = sq_configs q" "cx_max_nodes ?cx2 = sq_max_nodes q"
    using mn(3,4) out(3,4) by (simp_all add: from_schedule_request_nodes)
  have "configs_ok (cx_configs ?cx2)" using cfg2 assms(1) by simp
  from enforce_max_workers_per_type_ok [OF this known2 mn(1,2)] obtain ns where
    pt: "enforce_max_workers_per_type ?cx2 = Inr (context_update ns ?cx2)" "mset (map shape ns) = mset (map shape (cx_nodes ?cx2))"
    "head_safe ns" "\<forall>t c. map_of (cx_configs ?cx2) t = Some c \<longrightarrow> int (workers t ns) \<le> nc_max_workers c"
    "\<forall>n\<in>set ns. terminating n \<or> map_of (cx_configs ?cx2) (sn_type n) \<noteq> None" by blast
  let ?cx3 = "context_update ns ?cx2"
  have "head_safe (cx_nodes ?cx3)" "one_head (mset (map shape (cx_nodes ?cx3)))" using pt(2,3) mn(2) by simp_all
  moreover have "\<And>m. cx_max_nodes ?cx3 = Some m \<Longrightarrow> 0 \<le> m" using assms(4) cfg2(2) by simp
  ultimately obtain cx4 where g: "enforce_max_workers_global ?cx3 = Inr cx4" "cx4 = ?cx3 \<or> (\<exists>ns. cx4 = context_update ns ?cx3)"
    "head_safe (cx_nodes cx4)" "\<forall>t. workers t (cx_nodes cx4) \<le> workers t ns" "within_max_nodes cx4"
    "\<forall>n\<in>set (cx_nodes cx4). \<not> terminating n \<longrightarrow> (\<exists>m\<in>set ns. \<not> terminating m \<and> sn_type m = sn_type n)"
    using enforce_max_workers_global_ok [of ?cx3] by auto
  have cfg4: "cx_configs cx4 = sq_configs q" "cx_max_nodes cx4 = sq_max_nodes q" using g(2) cfg2 by auto
  have "within_type_limits cx4" unfolding within_type_limits_def
    using pt(4) g(4) cfg4 cfg2 by (metis (no_types, lifting) of_nat_mono order_trans)
  moreover have "\<forall>n\<in>set (cx_nodes cx4). terminating n \<or> map_of (sq_configs q) (sn_type n) \<noteq> None"
    using g(6) pt(5) cfg2 by metis
  ultimately show ?thesis using pt(1) g(1,3,5) cfg4 by (simp add: schedule_limits_def)
qed

end
