(* ===== verification/Sched_Pack_Props.thy ===== *)
theory Sched_Pack_Props
  imports Sched_Limits
begin

section \<open>Packing: nothing is lost, nothing exceeds the limits\<close>

text \<open>
  The greedy packing of requests: it fails no assertion on sane data, places every request once or
  returns it, keeps every existing node, and launches within the limits.
\<close>

subsection \<open>Sane nodes\<close>

definition dicts_ok :: "sched_node \<Rightarrow> bool" where
  "dicts_ok n \<longleftrightarrow> distinct (map fst (sn_labels n)) \<and> distinct (map fst (sn_avail_demand n)) \<and> distinct (map fst (sn_avail_constraint n))"

definition good :: "(string \<Rightarrow> string) \<Rightarrow> resource_request list \<Rightarrow> sched_node \<Rightarrow> bool" where
  "good f RS n \<longleftrightarrow> dicts_ok n \<and> (\<forall>src. node_ok src n) \<and> label_consistent f RS (sn_labels n)"

definition requests_ok :: "resource_request list \<Rightarrow> bool" where
  "requests_ok RS \<longleftrightarrow> (\<forall>r\<in>set RS. bundle_ok r)"

lemma inplace_subtract_distinct: "inplace_subtract d b = Inr d' \<Longrightarrow> distinct (map fst d) \<Longrightarrow> distinct (map fst d')"
  unfolding inplace_subtract_def
  by (rule rfold_invariant [where P = "\<lambda>d. distinct (map fst d)"])
    (auto simp: subtract_one_def rbind_eq_Inr distinct_update split: if_splits prod.splits)

lemma add_labels_distinct: "rfold add_label as l = Inr l' \<Longrightarrow> distinct (map fst l) \<Longrightarrow> distinct (map fst l')"
  by (rule rfold_invariant [where P = "\<lambda>d. distinct (map fst d)"])
    (auto simp: add_label_def distinct_update split: if_splits prod.splits)

lemma try_schedule_one_dicts:
  assumes "try_schedule_one src r n = Inr (ok, n')" and "dicts_ok n"
  shows "dicts_ok n'"
proof (cases "can_schedule (sn_labels n) (get_available_resources src n) r")
  case True
  from assms(1) True obtain d l where d: "inplace_subtract (get_available_resources src n) (rq_bundle r) = Inr d"
    "rfold add_label (anti_affinities r) (sn_labels (add_sched_request src r (set_available_resources src d n))) = Inr l"
    "n' = (add_sched_request src r (set_available_resources src d n))\<lparr>sn_labels := l\<rparr>"
    by (auto simp: try_schedule_one_def Let_def rbind_eq_Inr)
  then have "distinct (map fst d)" "distinct (map fst l)"
    using assms(2) inplace_subtract_distinct [OF d(1)] add_labels_distinct [OF d(2)]
    by (cases src; simp add: dicts_ok_def source_defs)+
  then show ?thesis using assms(2) d(3) by (cases src) (simp_all add: dicts_ok_def source_defs)
qed (use assms in \<open>simp add: try_schedule_one_False\<close>)

lemma try_schedule_plain_dicts: "try_schedule_plain src rs n = Inr (un, n') \<Longrightarrow> dicts_ok n \<Longrightarrow> dicts_ok n'"
proof (induction rs arbitrary: n un)
  case (Cons r rs)
  from Cons.prems(1) obtain ok n1 un1 where "try_schedule_one src r n = Inr (ok, n1)" "try_schedule_plain src rs n1 = Inr (un1, n')"
    by (auto simp: rbind_eq_Inr)
  then show ?case using Cons.IH Cons.prems(2) try_schedule_one_dicts by blast
qed simp

text \<open>The parts of a node that packing keeps.\<close>

definition ident :: "sched_node \<Rightarrow> nat \<times> string \<times> sched_status \<times> node_kind \<times> termination_request option \<times> string option \<times> string \<times> int" where
  "ident n = (sn_ref n, sn_type n, sn_status n, sn_kind n, sn_termination n, sn_im_instance_id n, sn_ray_node_id n, sn_idle_ms n)"

definition other :: "request_source \<Rightarrow> request_source" where
  "other src = (case src of Pending_Demand \<Rightarrow> Cluster_Resource_Constraint | Cluster_Resource_Constraint \<Rightarrow> Pending_Demand)"

lemma other_neq [simp]: "other src \<noteq> src" "src \<noteq> other src"
  by (cases src; simp add: other_def)+

lemma source_cases: "s = src \<or> s = other src"
  by (cases s; cases src; simp add: other_def)

text \<open>One attempt: \<open>m\<close> is \<open>n\<close> with the requests \<open>placed\<close> added.\<close>

definition took :: "request_source \<Rightarrow> sched_node \<Rightarrow> sched_node \<Rightarrow> resource_request list \<Rightarrow> bool" where
  "took src n m placed \<longleftrightarrow> ident m = ident n \<and> sn_ippr_status m = sn_ippr_status n \<and>
     get_sched_requests src m = get_sched_requests src n @ placed \<and>
     get_sched_requests (other src) m = get_sched_requests (other src) n"

lemma try_schedule_took:
  assumes g: "good f RS n" and "requests_ok RS" and "set rs \<subseteq> set RS"
  shows "\<exists>un sc m placed. try_schedule cg src rs n = Inr (un, sc, m) \<and> took src n m placed \<and> mset rs = mset placed + mset un \<and> good f RS m \<and>
    (placed = [] \<longrightarrow> (\<forall>r\<in>set rs. \<not> can_schedule (sn_labels n) (get_available_resources src n) r))"
proof -
  have b: "\<forall>r\<in>set rs. bundle_ok r" using assms(2,3) by (auto simp: requests_ok_def)
  have lc: "label_consistent f rs (sn_labels n)" 
    by (rule label_consistent_mono [of f RS "sn_labels n"]) (use g assms(3) in \<open>simp_all add: good_def\<close>)
  obtain un sc m placed where s: "try_schedule cg src rs n = Inr (un, sc, m)" "mset rs = mset placed + mset un"
    "get_sched_requests src m = get_sched_requests src n @ placed" "node_ok src m" "node_core m = node_core n"
    "\<forall>s. s \<noteq> src \<longrightarrow> get_available_resources s m = get_available_resources s n \<and> get_sched_requests s m = get_sched_requests s n"
    "placed = [] \<longrightarrow> m = n \<and> (\<forall>r\<in>set rs. \<not> can_schedule (sn_labels n) (get_available_resources src n) r)"
    "\<forall>name. map_of (sn_labels m) name = map_of (sn_labels n) name \<or>
       (\<exists>r\<in>set rs. name \<in> fst ` set (anti_affinities r) \<and> map_of (sn_labels m) name = Some (f name))"
    using try_schedule_ok [OF b lc g [unfolded good_def, THEN conjunct2, THEN conjunct1, THEN spec], of cg src] by blast
  note core = node_core_fields [OF s(5)]
  have "node_ok (other src) m" using s(6) core(4) g by (simp add: good_def node_ok_def)
  then have ok: "node_ok s m" for s using s(4) source_cases [of s src] by auto
  have "try_schedule_plain src rs n = Inr (un, m)"
    using s(1) try_schedule_loop_plain [OF b cache_ok_Nil, of src n] by (auto simp: try_schedule_def rbind_eq_Inr)
  then have "dicts_ok m" using try_schedule_plain_dicts g by (auto simp: good_def)
  moreover have "label_consistent f RS (sn_labels m)"
  proof (rule label_consistent_mono [of f RS "sn_labels n"])
    show "label_consistent f RS (sn_labels n)" using g by (simp add: good_def)
    show "map_of (sn_labels m) name = map_of (sn_labels n) name \<or> map_of (sn_labels m) name = Some (f name)" for name
      using spec [OF s(8), of name] by blast
  qed simp
  ultimately have "good f RS m" using ok by (simp add: good_def)
  moreover have "took src n m placed" using core s(3,6) by (simp add: took_def ident_def)
  ultimately show ?thesis using s(1,2,7) by blast
qed

lemma same_state:
  assumes "state_key src n = state_key src m" and "dicts_ok n" and "dicts_ok m"
  shows "can_schedule (sn_labels n) (get_available_resources src n) r = can_schedule (sn_labels m) (get_available_resources src m) r"
proof -
  have d: "distinct (map fst (get_available_resources src k))" if "dicts_ok k" for k
    using that by (cases src) (simp_all add: dicts_ok_def source_defs)
  have l: "map_of (sn_labels n) = map_of (sn_labels m)"
    using assms by (intro map_of_inject_set [THEN iffD2]) (auto simp: dicts_ok_def state_key_def)
  have a: "map_of (get_available_resources src n) = map_of (get_available_resources src m)"
    using assms(1) d [OF assms(2)] d [OF assms(3)] by (intro map_of_inject_set [THEN iffD2]) (auto simp: state_key_def)
  have am: "amount (get_available_resources src n) k = amount (get_available_resources src m) k" for k
    using a by (simp add: amount_def dict_get_def)
  show ?thesis
    using can_schedule_mono [of "sn_labels n" "get_available_resources src n" r "sn_labels m" "get_available_resources src m"]
      can_schedule_mono [of "sn_labels m" "get_available_resources src m" r "sn_labels n" "get_available_resources src n"] l am by auto
qed

subsection \<open>The best node\<close>

definition hopeless :: "request_source \<Rightarrow> resource_request list \<Rightarrow> sched_node \<Rightarrow> bool" where
  "hopeless src rs n \<longleftrightarrow> (\<forall>r\<in>set rs. \<not> can_schedule (sn_labels n) (get_available_resources src n) r)"

lemma best_node_loop_ok:
  assumes "\<forall>n\<in>set ns. good f RS n" and "requests_ok RS" and "set rs \<subseteq> set RS"
  shows "\<exists>results. best_node_loop cg src rs seen i ns = Inr results \<and>
    (\<forall>x\<in>set results. \<exists>j placed. j < length ns \<and> sr_idx x = i + j \<and> took src (ns ! j) (sr_node x) placed \<and> placed \<noteq> [] \<and>
       mset rs = mset placed + mset (sr_infeasible x) \<and> good f RS (sr_node x)) \<and>
    (results = [] \<longrightarrow> (\<forall>n\<in>set ns. state_key src n \<in> set seen \<or> hopeless src rs n))"
  using assms(1)
proof (induction ns arbitrary: seen i)
  case (Cons n ns)
  have step: "\<exists>results. best_node_loop cg src rs seen' (i + 1) ns = Inr results \<and>
    (\<forall>x\<in>set results. \<exists>j placed. j < length ns \<and> sr_idx x = i + 1 + j \<and> took src (ns ! j) (sr_node x) placed \<and> placed \<noteq> [] \<and>
       mset rs = mset placed + mset (sr_infeasible x) \<and> good f RS (sr_node x)) \<and>
    (results = [] \<longrightarrow> (\<forall>n\<in>set ns. state_key src n \<in> set seen' \<or> hopeless src rs n))" for seen'
    using Cons.IH [of seen' "i + 1"] Cons.prems by simp
  show ?case
  proof (cases "sn_im_status n \<noteq> Some RAY_RUNNING \<and> state_key src n \<in> set seen")
    case True
    obtain results where r: "best_node_loop cg src rs seen (i + 1) ns = Inr results"
      "\<forall>x\<in>set results. \<exists>j placed. j < length ns \<and> sr_idx x = i + 1 + j \<and> took src (ns ! j) (sr_node x) placed \<and> placed \<noteq> [] \<and>
       mset rs = mset placed + mset (sr_infeasible x) \<and> good f RS (sr_node x)"
      "results = [] \<longrightarrow> (\<forall>n\<in>set ns. state_key src n \<in> set seen \<or> hopeless src rs n)" using step [of seen] by blast
    have "\<exists>j placed. j < length (n # ns) \<and> sr_idx x = i + j \<and> took src ((n # ns) ! j) (sr_node x) placed \<and> placed \<noteq> [] \<and>
       mset rs = mset placed + mset (sr_infeasible x) \<and> good f RS (sr_node x)" if x: "x \<in> set results" for x
    proof -
      from r(2) x obtain j placed where "j < length ns" "sr_idx x = i + 1 + j" "took src (ns ! j) (sr_node x) placed" "placed \<noteq> []"
        "mset rs = mset placed + mset (sr_infeasible x)" "good f RS (sr_node x)" by blast
      then show ?thesis by (intro exI [of _ "Suc j"] exI [of _ placed]) simp
    qed
    then show ?thesis using True r(1,3) by (intro exI [of _ results]) simp
  next
    case False
    define seen' where "seen' = (if sn_im_status n = Some RAY_RUNNING then seen else state_key src n # seen)"
    obtain results where r: "best_node_loop cg src rs seen' (i + 1) ns = Inr results"
      "\<forall>x\<in>set results. \<exists>j placed. j < length ns \<and> sr_idx x = i + 1 + j \<and> took src (ns ! j) (sr_node x) placed \<and> placed \<noteq> [] \<and>
       mset rs = mset placed + mset (sr_infeasible x) \<and> good f RS (sr_node x)"
      "results = [] \<longrightarrow> (\<forall>n\<in>set ns. state_key src n \<in> set seen' \<or> hopeless src rs n)" using step [of seen'] by blast
    have g: "good f RS n" using Cons.prems by simp
    obtain un sc m placed where t: "try_schedule cg src rs n = Inr (un, sc, m)" "took src n m placed" "mset rs = mset placed + mset un"
      "good f RS m" "placed = [] \<longrightarrow> (\<forall>r\<in>set rs. \<not> can_schedule (sn_labels n) (get_available_resources src n) r)"
      using try_schedule_took [OF g assms(2,3), of cg src] by blast
    have len: "length rs = length placed + length un" using t(3) by (metis length_append mset_append mset_eq_length)
    let ?x = "\<lparr>sr_node = m, sr_infeasible = un, sr_idx = i, sr_score = sc\<rparr>"
    let ?res = "if placed = [] then results else ?x # results"
    have run: "best_node_loop cg src rs seen i (n # ns) = Inr ?res"
      using False t(1) r(1) len by (auto simp: Let_def seen'_def)
    have "\<exists>j placed. j < length (n # ns) \<and> sr_idx x = i + j \<and> took src ((n # ns) ! j) (sr_node x) placed \<and> placed \<noteq> [] \<and>
       mset rs = mset placed + mset (sr_infeasible x) \<and> good f RS (sr_node x)" if x: "x \<in> set ?res" for x
    proof (cases "x \<in> set results")
      case True
      with r(2) obtain j placed where "j < length ns" "sr_idx x = i + 1 + j" "took src (ns ! j) (sr_node x) placed" "placed \<noteq> []"
        "mset rs = mset placed + mset (sr_infeasible x)" "good f RS (sr_node x)" by blast
      then show ?thesis by (intro exI [of _ "Suc j"] exI [of _ placed]) simp
    next
      case False
      then have "x = ?x" "placed \<noteq> []" using x by (auto split: if_splits)
      then show ?thesis using t(2-4) by (intro exI [of _ 0] exI [of _ placed]) simp
    qed
    moreover have "state_key src k \<in> set seen \<or> hopeless src rs k" if res: "?res = []" and k: "k \<in> set (n # ns)" for k
    proof -
      have p: "placed = []" "results = []" using res by (auto split: if_splits)
      then have n: "hopeless src rs n" using t(5) by (simp add: hopeless_def)
      consider "k = n" | "k \<in> set ns" "state_key src k \<in> set seen" | "k \<in> set ns" "state_key src k = state_key src n" | "hopeless src rs k"
        using k r(3) p by (auto simp: seen'_def split: if_splits)
      then show ?thesis
      proof cases
        case 3
        have "dicts_ok k" "dicts_ok n" using 3(1) Cons.prems by (simp_all add: good_def)
        then show ?thesis using n same_state [OF 3(2)] by (simp add: hopeless_def)
      qed (use n in auto)
    qed
    ultimately show ?thesis using run by blast
  qed
qed simp

lemma sched_best_node_ok:
  assumes "\<forall>n\<in>set ns. good f RS n" and "requests_ok RS" and "set rs \<subseteq> set RS"
  obtains (none) "sched_best_node cg src cx rs ns = Inr (None, rs, ns)" "\<forall>n\<in>set ns. hopeless src rs n"
  | (best) m j placed un where "sched_best_node cg src cx rs ns = Inr (Some m, un, remove_nth j ns)" "j < length ns"
    "took src (ns ! j) m placed" "placed \<noteq> []" "mset rs = mset placed + mset un" "good f RS m"
proof -
  obtain results where r: "best_node_loop cg src rs [] 0 ns = Inr results"
    "\<forall>x\<in>set results. \<exists>j placed. j < length ns \<and> sr_idx x = 0 + j \<and> took src (ns ! j) (sr_node x) placed \<and> placed \<noteq> [] \<and>
       mset rs = mset placed + mset (sr_infeasible x) \<and> good f RS (sr_node x)"
    "results = [] \<longrightarrow> (\<forall>n\<in>set ns. state_key src n \<in> set [] \<or> hopeless src rs n)"
    using best_node_loop_ok [OF assms, of cg src "[]" 0] by blast
  let ?key = "result_key (cx_recoverable_availability cx) (cx_cloud_availability cx)"
  show thesis
  proof (cases "sorted_desc ?key results")
    case Nil
    then have "results = []" by (simp add: sorted_desc_def) (metis length_0_conv length_rev length_sort)
    then show ?thesis using none r(1,3) Nil by (simp add: sched_best_node_def)
  next
    case (Cons b more)
    then have "b \<in> set results" by (metis list.set_intros(1) set_rev set_sort sorted_desc_def)
    with r(2) obtain j placed where j: "j < length ns" "sr_idx b = j" "took src (ns ! j) (sr_node b) placed" "placed \<noteq> []"
       "mset rs = mset placed + mset (sr_infeasible b)" "good f RS (sr_node b)" by (metis add_0)
    then show ?thesis using best [of "sr_node b" "sr_infeasible b" j placed] r(1) Cons by (simp add: sched_best_node_def)
  qed
qed

subsection \<open>Accounts\<close>

definition assigned :: "request_source \<Rightarrow> sched_node list \<Rightarrow> resource_request multiset" where
  "assigned src ns = mset (concat (map (get_sched_requests src) ns))"

lemma assigned_simps [simp]:
  "assigned src [] = {#}" "assigned src (n # ns) = mset (get_sched_requests src n) + assigned src ns"
  "assigned src (ns @ ms) = assigned src ns + assigned src ms"
  by (simp_all add: assigned_def)

lemma assigned_mset: "mset ns = mset ms \<Longrightarrow> assigned src ns = assigned src ms"
  by (simp add: assigned_def mset_concat) (metis mset_map sum_mset_sum_list)

lemma mset_remove_nth: "j < length ns \<Longrightarrow> mset ns = add_mset (ns ! j) (mset (remove_nth j ns))"
  by (simp add: remove_nth_def) (metis append_take_drop_id id_take_nth_drop mset.simps(2) mset_append union_mset_add_mset_right)

lemma set_remove_nth: "set (remove_nth j ns) \<subseteq> set ns"
  by (auto simp: remove_nth_def dest: in_set_takeD in_set_dropD)

text \<open>\<open>ms\<close> are the nodes \<open>ns\<close>, in any order, with the requests \<open>rs\<close> placed on them except \<open>rs'\<close>.\<close>

definition keep :: "request_source \<Rightarrow> sched_node \<Rightarrow> _" where
  "keep src n = (ident n, sn_ippr_status n, get_sched_requests (other src) n)"

definition packed :: "request_source \<Rightarrow> sched_node list \<Rightarrow> resource_request list \<Rightarrow> sched_node list \<Rightarrow> resource_request list \<Rightarrow> bool" where
  "packed src ns rs ms rs' \<longleftrightarrow> mset (map (keep src) ms) = mset (map (keep src) ns) \<and>
     assigned src ms + mset rs' = assigned src ns + mset rs"

lemma packed_refl: "packed src ns rs ns rs"
  by (simp add: packed_def)

lemma packed_step:
  assumes "j < length ns" and "took src (ns ! j) m placed" and "mset rs = mset placed + mset un"
    and "packed src (remove_nth j ns) un ms rs'"
  shows "packed src ns rs (m # ms) rs'"
proof -
  have k: "keep src m = keep src (ns ! j)" using assms(2) by (simp add: keep_def took_def)
  have "mset (map (keep src) ns) = add_mset (keep src (ns ! j)) (mset (map (keep src) (remove_nth j ns)))"
    using arg_cong [OF mset_remove_nth [OF assms(1)], of "image_mset (keep src)"] by simp
  moreover have "assigned src ns = mset (get_sched_requests src (ns ! j)) + assigned src (remove_nth j ns)"
    using assigned_mset [of ns "ns ! j # remove_nth j ns" src] mset_remove_nth [OF assms(1)] by simp
  ultimately show ?thesis using assms(2-4) k by (simp add: packed_def took_def ac_simps)
qed

lemma existing_loop_ok:
  assumes "\<forall>n\<in>set ns. good f RS n" and "requests_ok RS" and "set rs \<subseteq> set RS"
  shows "\<exists>new rs' rest. existing_loop cg src cx rs ns target = Inr (target @ new, rs', rest) \<and> (\<forall>n\<in>set (new @ rest). good f RS n) \<and>
    packed src ns rs (new @ rest) rs' \<and> set rs' \<subseteq> set RS \<and> (rs' = [] \<or> (\<forall>n\<in>set rest. hopeless src rs' n))"
  using assms(1,3)
proof (induction "length ns" arbitrary: ns rs target rule: less_induct)
  case less
  show ?case
  proof (cases "rs \<noteq> [] \<and> ns \<noteq> []")
    case False
    then show ?thesis using less.prems packed_refl [of src ns rs]
      by (intro exI [of _ "[]"] exI [of _ rs] exI [of _ ns]) (auto simp: existing_loop.simps)
  next
    case True
    from less.prems(1) assms(2) less.prems(2) show ?thesis
    proof (cases rule: sched_best_node_ok [where cg = cg and src = src and cx = cx])
      case none
      then show ?thesis using True less.prems packed_refl [of src ns rs]
        by (intro exI [of _ "[]"] exI [of _ rs] exI [of _ ns]) (simp add: existing_loop.simps)
    next
      case (best m j placed un)
      have len: "length (remove_nth j ns) < length ns" using best(2) by (simp add: remove_nth_def)
      have g: "\<forall>n\<in>set (remove_nth j ns). good f RS n" using less.prems(1) set_remove_nth [of j ns] by blast
      have "set un \<subseteq> set rs" using arg_cong [OF best(5), of set_mset] by auto
      then have u: "set un \<subseteq> set RS" using less.prems(2) by simp
      from less.hyps [OF len g u, of "target @ [m]"] obtain new rs' rest where
        IH: "existing_loop cg src cx un (remove_nth j ns) (target @ [m]) = Inr ((target @ [m]) @ new, rs', rest)"
        "\<forall>n\<in>set (new @ rest). good f RS n" "packed src (remove_nth j ns) un (new @ rest) rs'" "set rs' \<subseteq> set RS"
        "rs' = [] \<or> (\<forall>n\<in>set rest. hopeless src rs' n)" by blast
      have "packed src ns rs (m # new @ rest) rs'" by (rule packed_step [OF best(2,3,5) IH(3)])
      moreover have "existing_loop cg src cx rs ns target = Inr (target @ m # new, rs', rest)"
        using True best(1) IH(1) by (subst existing_loop.simps) simp
      ultimately show ?thesis using IH(2,4,5) best(6) by (intro exI [of _ "m # new"] exI [of _ rs'] exI [of _ rest]) simp
    qed
  qed
qed

subsection \<open>Resized nodes\<close>

lemma not_implicit [simp]: "\<not> is_implicit ''CPU''" "\<not> is_implicit ''memory''"
  by (simp_all add: is_implicit_def implicit_resource_prefix_def)

lemma nonneg_update: "nonneg d \<Longrightarrow> 0 \<le> v \<Longrightarrow> nonneg (AList.update k v d)"
  by (simp add: nonneg_def map_of_update)

lemma res_ok_resize:
  assumes "res_ok tot d" and "\<not> is_implicit k"
  shows "res_ok (AList.update k (max 0 v) tot) (adjust_available k (v - dict_get tot k 0) d)"
proof -
  have "dict_get d k 0 \<le> dict_get tot k 0" using assms by (simp add: res_ok_def amount_def) (metis assms(2))
  then have "max 0 (dict_get d k 0 + (v - dict_get tot k 0)) \<le> max 0 v" by (simp add: max_def)
  then show ?thesis using assms by (simp add: res_ok_def adjust_available_def distinct_update nonneg_update)
qed

lemma update_total_resource_keeps:
  "ident (update_total_resource kv n) = ident n" "sn_ippr_status (update_total_resource kv n) = sn_ippr_status n"
  "get_sched_requests src (update_total_resource kv n) = get_sched_requests src n"
  "sn_labels (update_total_resource kv n) = sn_labels n"
  by (cases kv; cases src; simp add: update_total_resource_def Let_def ident_def source_defs)+

lemma update_total_resource_good:
  assumes "good f RS n" and "\<not> is_implicit k"
  shows "good f RS (update_total_resource (k, v) n)"
proof -
  have "node_ok src (update_total_resource (k, v) n)" for src
  proof -
    have "res_ok (sn_total n) (get_available_resources src n)" using assms(1) by (simp add: good_def node_ok_def)
    from res_ok_resize [OF this assms(2), of v] show ?thesis
      by (cases src) (simp_all add: node_ok_def source_defs update_total_resource_def Let_def)
  qed
  moreover have "dicts_ok (update_total_resource (k, v) n)"
    using assms(1) by (simp add: good_def dicts_ok_def update_total_resource_def Let_def adjust_available_def distinct_update)
  ultimately show ?thesis using assms(1) by (simp add: good_def update_total_resource_keeps)
qed

lemma resize_keeps:
  "ident (update_total_resources (cpu_memory c m) n) = ident n"
  "sn_ippr_status (update_total_resources (cpu_memory c m) n) = sn_ippr_status n"
  "get_sched_requests src (update_total_resources (cpu_memory c m) n) = get_sched_requests src n"
  "good f RS n \<Longrightarrow> good f RS (update_total_resources (cpu_memory c m) n)"
  by (simp_all add: update_total_resources_def cpu_memory_def update_total_resource_keeps update_total_resource_good)

lemma expose_keeps [simp]:
  "ident (expose_desired n) = ident n" "sn_ippr_status (expose_desired n) = sn_ippr_status n"
  "get_sched_requests src (expose_desired n) = get_sched_requests src n" "good f RS n \<Longrightarrow> good f RS (expose_desired n)"
  "ident (expose_maximum n) = ident n" "sn_ippr_status (expose_maximum n) = sn_ippr_status n"
  "get_sched_requests src (expose_maximum n) = get_sched_requests src n" "good f RS n \<Longrightarrow> good f RS (expose_maximum n)"
  by (simp_all add: expose_desired_def expose_maximum_def resize_keeps split: option.splits)

lemma queue_resize_keeps [simp]:
  "ident (queue_resize n) = ident n" "get_sched_requests src (queue_resize n) = get_sched_requests src n"
  "good f RS n \<Longrightarrow> good f RS (queue_resize n)"
  by (cases src; simp add: queue_resize_def ident_def source_defs good_def dicts_ok_def node_ok_def split: option.splits request_source.splits)+

lemma queue_resize_cloud_id [simp]: "cloud_id (queue_resize n) = cloud_id n" "(sn_ippr_status (queue_resize n) = None) = (sn_ippr_status n = None)"
  by (auto simp: cloud_id_def queue_resize_def queue_resize_request_def Let_def split: option.splits if_splits)

text \<open>The candidates and their copies at the original size have the same identities and requests.\<close>

definition cid :: "sched_node \<Rightarrow> string option" where
  "cid n = map_option is_cloud_id (sn_ippr_status n)"

lemma cid_cloud_id: "cloud_id n = (case cid n of Some c \<Rightarrow> c | None \<Rightarrow> [])"
  by (simp add: cid_def cloud_id_def split: option.splits)

lemma cid_queue_resize [simp]: "cid (queue_resize n) = cid n"
  by (auto simp: cid_def queue_resize_def queue_resize_request_def Let_def split: option.splits if_splits)

definition tag :: "request_source \<Rightarrow> sched_node \<Rightarrow> _" where
  "tag src n = (ident n, cid n, get_sched_requests (other src) n)"

definition twin :: "sched_node \<Rightarrow> _" where
  "twin n = (cid n, ident n, sn_requests_demand n, sn_requests_constraint n)"

definition resized :: "request_source \<Rightarrow> sched_node list \<Rightarrow> resource_request list \<Rightarrow> sched_node list \<Rightarrow> resource_request list \<Rightarrow> bool" where
  "resized src ns rs ms rs' \<longleftrightarrow>
     mset (map (tag src) ms) = mset (map (tag src) ns) \<and>
     assigned src ms + mset rs' = assigned src ns + mset rs"

lemma twin_fields:
  "cid n = fst (twin n)" "ident n = fst (snd (twin n))"
  "get_sched_requests src n = (case src of Pending_Demand \<Rightarrow> fst (snd (snd (twin n))) | Cluster_Resource_Constraint \<Rightarrow> snd (snd (snd (twin n))))"
  by (cases src; simp add: twin_def source_defs)+

lemma assigned_twin: "mset (map twin ns) = mset (map twin ms) \<Longrightarrow> assigned src ns = assigned src ms"
proof -
  assume t: "mset (map twin ns) = mset (map twin ms)"
  let ?r = "\<lambda>x. case src of Pending_Demand \<Rightarrow> fst (snd (snd x)) | Cluster_Resource_Constraint \<Rightarrow> snd (snd (snd x))"
  have "assigned src ns = \<Sum>\<^sub># (image_mset (mset \<circ> ?r) (mset (map twin ns)))" for ns
    by (induction ns) (simp_all add: twin_fields(3))
  then show ?thesis using t by simp
qed

lemma resized_twins: "mset (map twin ms) = mset (map twin ns) \<Longrightarrow> resized src ns rs ms rs"
proof -
  assume t: "mset (map twin ms) = mset (map twin ns)"
  let ?g = "\<lambda>x. (fst (snd x), fst x, case other src of Pending_Demand \<Rightarrow> fst (snd (snd x)) | Cluster_Resource_Constraint \<Rightarrow> snd (snd (snd x)))"
  have "map (tag src) ns = map ?g (map twin ns)" for ns by (simp add: twin_fields tag_def)
  then have "mset (map (tag src) ms) = mset (map (tag src) ns)" using t by (simp only: mset_map)
  then show ?thesis using assigned_twin [OF t] by (simp add: resized_def)
qed

lemma mset_delete:
  assumes "distinct (map fst d)" and "(k, v) \<in> set d"
  shows "mset d = add_mset (k, v) (mset (AList.delete k d))"
  using assms
proof (induction d)
  case (Cons p d)
  obtain a b where p: "p = (a, b)" by (cases p)
  show ?case
  proof (cases "a = k")
    case True
    then have "AList.delete k d = d" using Cons.prems(1) by (intro delete_id) (auto simp: p)
    moreover have "b = v" using Cons.prems True by (force simp: p)
    ultimately show ?thesis using True by (simp add: p)
  next
    case False
    then show ?thesis using Cons by (auto simp: p)
  qed
qed simp

lemma ippr_loop_ok:
  assumes "\<forall>n\<in>set ns. good f RS n" and "requests_ok RS" and "set rs \<subseteq> set RS"
    and "distinct (map fst originals)" and "\<forall>k n. (k, n) \<in> set originals \<longrightarrow> cloud_id n = k \<and> good f RS n"
    and "mset (map (twin \<circ> snd) originals) = mset (map twin ns)"
  shows "\<exists>new rs' left. ippr_loop cg src cx rs ns target originals = Inr (target @ new, rs', left) \<and>
    (\<forall>n\<in>set (new @ map snd left). good f RS n) \<and> resized src ns rs (new @ map snd left) rs' \<and> set rs' \<subseteq> set RS"
  using assms(1,3-6)
proof (induction "length ns" arbitrary: ns rs target originals rule: less_induct)
  case less
  have stop: ?case if "ippr_loop cg src cx rs ns target originals = Inr (target, rs, originals)"
  proof (intro exI conjI)
    show "ippr_loop cg src cx rs ns target originals = Inr (target @ [], rs, originals)" using that by simp
    show "\<forall>n\<in>set ([] @ map snd originals). good f RS n" using less.prems(4) by auto
    show "resized src ns rs ([] @ map snd originals) rs" using less.prems(5) by (intro resized_twins) (simp add: comp_def)
  qed (rule less.prems(2))
  show ?case
  proof (cases "rs \<noteq> [] \<and> ns \<noteq> []")
    case False
    then show ?thesis by (intro stop) (subst ippr_loop.simps, auto)
  next
    case True
    from less.prems(1) assms(2) less.prems(2) show ?thesis
    proof (cases rule: sched_best_node_ok [where cg = cg and src = src and cx = cx])
      case none
      then show ?thesis using True by (intro stop) (subst ippr_loop.simps, simp)
    next
      case (best m j placed un)
      let ?o = "AList.delete (cloud_id m) originals"
      have len: "length (remove_nth j ns) < length ns" using best(2) by (simp add: remove_nth_def)
      have g: "\<forall>n\<in>set (remove_nth j ns). good f RS n" using less.prems(1) set_remove_nth [of j ns] by blast
      have "set un \<subseteq> set rs" using arg_cong [OF best(5), of set_mset] by auto
      then have u: "set un \<subseteq> set RS" using less.prems(2) by simp
      have cid: "cid m = cid (ns ! j)" using best(3) by (simp add: took_def cid_def)
      have "twin (ns ! j) \<in># mset (map twin ns)" using best(2) by simp
      then obtain k v where kv: "(k, v) \<in> set originals" "twin v = twin (ns ! j)"
        unfolding less.prems(5) [symmetric] by fastforce
      have k: "k = cloud_id m" using less.prems(4) kv cid by (metis cid_cloud_id twin_fields(1))
      have mo: "mset originals = add_mset (k, v) (mset ?o)" using mset_delete [OF less.prems(3) kv(1)] k by simp
      have tw: "mset (map (twin \<circ> snd) ?o) = mset (map twin (remove_nth j ns))"
        using arg_cong [OF mo, of "image_mset (twin \<circ> snd)"] arg_cong [OF mset_remove_nth [OF best(2)], of "image_mset twin"]
          less.prems(5) kv(2) by simp
      have o: "distinct (map fst ?o)" "\<forall>k n. (k, n) \<in> set ?o \<longrightarrow> cloud_id n = k \<and> good f RS n"
        by (rule distinct_delete [OF less.prems(3)]) (use less.prems(4) in \<open>auto simp: AList.delete_eq\<close>)
      from less.hyps [OF len g u o tw, of "target @ [queue_resize m]"] obtain new rs' left where
        IH: "ippr_loop cg src cx un (remove_nth j ns) (target @ [queue_resize m]) ?o = Inr ((target @ [queue_resize m]) @ new, rs', left)"
        "\<forall>n\<in>set (new @ map snd left). good f RS n" "resized src (remove_nth j ns) un (new @ map snd left) rs'" "set rs' \<subseteq> set RS" by blast
      let ?q = "tag src"
      have q: "?q (queue_resize m) = ?q (ns ! j)" using best(3) cid by (simp add: took_def tag_def)
      have "mset (map ?q ns) = add_mset (?q (ns ! j)) (mset (map ?q (remove_nth j ns)))"
        using arg_cong [OF mset_remove_nth [OF best(2)], of "image_mset ?q"] by simp
      moreover have "assigned src ns = mset (get_sched_requests src (ns ! j)) + assigned src (remove_nth j ns)"
        using assigned_mset [of ns "ns ! j # remove_nth j ns" src] mset_remove_nth [OF best(2)] by simp
      ultimately have "resized src ns rs (queue_resize m # new @ map snd left) rs'"
        using IH(3) q best(3,5) unfolding resized_def took_def by (simp add: ac_simps)
      moreover have "ippr_loop cg src cx rs ns target originals = Inr (target @ queue_resize m # new, rs', left)"
        using True best(1) IH(1) by (subst ippr_loop.simps) simp
      ultimately show ?thesis using IH(2,4) best(6)
        by (intro exI [of _ "queue_resize m # new"] exI [of _ rs'] exI [of _ left]) simp
    qed
  qed
qed

subsection \<open>New nodes\<close>

definition config_good :: "(string \<Rightarrow> string) \<Rightarrow> resource_request list \<Rightarrow> node_type_config \<Rightarrow> bool" where
  "config_good f RS c \<longleftrightarrow> distinct (map fst (nc_resources c)) \<and> nonneg (nc_resources c) \<and> distinct (map fst (nc_labels c)) \<and>
     label_consistent f RS (nc_labels c)"

definition configs_good :: "(string \<Rightarrow> string) \<Rightarrow> resource_request list \<Rightarrow> (string, node_type_config) dict \<Rightarrow> bool" where
  "configs_good f RS configs \<longleftrightarrow> configs_ok configs \<and> (\<forall>t c. map_of configs t = Some c \<longrightarrow> config_good f RS c)"

definition launched :: "sched_node \<Rightarrow> bool" where
  "launched n \<longleftrightarrow> sn_status n = To_Launch \<and> sn_kind n = WORKER \<and> sn_termination n = None \<and> sn_ippr_status n = None"

lemma from_node_config_good: "config_good f RS c \<Longrightarrow> good f RS (from_node_config c st k iid ist)"
proof -
  assume c: "config_good f RS c"
  have "node_ok src (from_node_config c st k iid ist)" for src
    using c by (cases src) (simp_all add: node_ok_def res_ok_def config_good_def from_node_config_def new_node_def source_defs)
  then show ?thesis using c by (simp add: good_def dicts_ok_def config_good_def from_node_config_def new_node_def)
qed

lemma to_launch_node_ok:
  assumes "configs_good f RS (cx_configs cx)" and "map_of (cx_configs cx) t \<noteq> None"
  shows "\<exists>m. to_launch_node cx t = Inr m \<and> good f RS m \<and> launched m \<and> sn_type m = t \<and> (\<forall>src. get_sched_requests src m = [])"
proof -
  obtain c where c: "map_of (cx_configs cx) t = Some c" using assms(2) by auto
  have cg: "config_good f RS c" using assms(1) c by (auto simp: configs_good_def)
  have name: "nc_name c = t" using assms(1) map_of_SomeD [OF c] unfolding configs_good_def configs_ok_def by blast
  let ?n = "from_node_config c To_Launch WORKER None None"
  have n: "good f RS ?n" by (rule from_node_config_good [OF cg])
  have r: "get_sched_requests src ?n = []" for src by (cases src) (simp_all add: from_node_config_def new_node_def source_defs)
  have same: "sn_type (update_total_resources (cpu_memory a b) m) = sn_type m" "launched (update_total_resources (cpu_memory a b) m) = launched m" for a b m
    using resize_keeps(1,2) [of a b m] by (auto simp: ident_def launched_def)
  have l: "launched ?n" "sn_type ?n = t" using name by (simp_all add: launched_def)
  show ?thesis using c n r l resize_keeps(3,4) same
    by (cases "cx_ippr_specs cx") (auto simp: to_launch_node_def Let_def split: option.splits)
qed

definition pools_ok :: "(string \<Rightarrow> string) \<Rightarrow> resource_request list \<Rightarrow> sched_context \<Rightarrow> (string, int) dict \<Rightarrow> sched_node list \<Rightarrow> bool" where
  "pools_ok f RS cx avail pools \<longleftrightarrow> distinct (map sn_type pools) \<and>
     (\<forall>m\<in>set pools. good f RS m \<and> launched m \<and> (\<forall>src. get_sched_requests src m = []) \<and> dict_get avail (sn_type m) 0 > 0 \<and>
        map_of (cx_configs cx) (sn_type m) \<noteq> None)"

lemma count_type_simps [simp]:
  "count_type t [] = 0" "count_type t (n # ns) = (if sn_type n = t then Suc (count_type t ns) else count_type t ns)"
  "count_type t (ns @ ms) = count_type t ns + count_type t ms"
  by (simp_all add: count_type_def)

declare dict_get_update [simp]

lemma remove_nth_types:
  assumes "distinct (map sn_type ns)" and "j < length ns"
  shows "distinct (map sn_type (remove_nth j ns))" and "sn_type (ns ! j) \<notin> sn_type ` set (remove_nth j ns)"
proof -
  have m: "mset (map sn_type ns) = add_mset (sn_type (ns ! j)) (mset (map sn_type (remove_nth j ns)))"
    using arg_cong [OF mset_remove_nth [OF assms(2)], of "image_mset sn_type"] by simp
  have "distinct (sn_type (ns ! j) # map sn_type (remove_nth j ns))"
    using mset_eq_imp_distinct_iff [of "map sn_type ns" "sn_type (ns ! j) # map sn_type (remove_nth j ns)"] m assms(1) by simp
  then show "distinct (map sn_type (remove_nth j ns))" "sn_type (ns ! j) \<notin> sn_type ` set (remove_nth j ns)" by simp_all
qed

lemma launch_loop_ok:
  assumes "pools_ok f RS cx avail pools" and "requests_ok RS" and "set rs \<subseteq> set RS" and "configs_good f RS (cx_configs cx)"
  shows "\<exists>L rs'. launch_loop cg src cx rs pools avail target = Inr (target @ L, rs') \<and> (\<forall>m\<in>set L. good f RS m \<and> launched m \<and>
      map_of (cx_configs cx) (sn_type m) \<noteq> None) \<and>
    assigned src L + mset rs' = mset rs \<and> assigned (other src) L = {#} \<and> set rs' \<subseteq> set RS \<and>
    (\<forall>t. int (count_type t L) \<le> max 0 (dict_get avail t 0)) \<and>
    (\<forall>M. cx_max_nodes cx = Some M \<longrightarrow> L \<noteq> [] \<longrightarrow> int (length target + length L) \<le> M)"
  using assms(1,3)
proof (induction "length rs" arbitrary: rs pools avail target rule: less_induct)
  case less
  have stop: ?case if "launch_loop cg src cx rs pools avail target = Inr (target, rs)"
    using that less.prems(2) by (intro exI [of _ "[]"] exI [of _ rs]) simp
  let ?full = "case cx_max_nodes cx of None \<Rightarrow> False | Some m \<Rightarrow> int (length target) \<ge> m"
  show ?case
  proof (cases "rs \<noteq> [] \<and> pools \<noteq> [] \<and> \<not> ?full")
    case False
    then show ?thesis by (intro stop) (subst launch_loop.simps, auto)
  next
    case True
    have gp: "\<forall>n\<in>set pools. good f RS n" using less.prems(1) by (simp add: pools_ok_def)
    from gp assms(2) less.prems(2) show ?thesis
    proof (cases rule: sched_best_node_ok [where cg = cg and src = src and cx = cx])
      case none
      then show ?thesis using True by (intro stop) (subst launch_loop.simps, auto)
    next
      case (best m j placed un)
      let ?n = "pools ! j" and ?t = "sn_type m"
      have ty: "sn_type m = sn_type ?n" "launched m = launched ?n" using best(3) by (auto simp: took_def ident_def launched_def)
      have n: "launched ?n" "\<forall>src. get_sched_requests src ?n = []" "dict_get avail (sn_type ?n) 0 > 0" "map_of (cx_configs cx) (sn_type ?n) \<noteq> None"
        using less.prems(1) nth_mem [OF best(2)] unfolding pools_ok_def by blast+
      define left where "left = dict_get avail ?t 0 - 1"
      let ?avail = "AList.update ?t left avail"
      have dp: "distinct (map sn_type pools)" using less.prems(1) by (simp add: pools_ok_def)
      note rem = remove_nth_types [OF dp best(2)]
      have ne: "sn_type k \<noteq> ?t" if "k \<in> set (remove_nth j pools)" for k using rem(2) ty(1) that by (metis image_eqI)
      have rest: "pools_ok f RS cx ?avail (remove_nth j pools)"
        unfolding pools_ok_def using less.prems(1) rem(1) set_remove_nth [of j pools] ne by (auto simp: pools_ok_def)
      obtain m' where m': "to_launch_node cx ?t = Inr m'" "good f RS m'" "launched m'" "sn_type m' = ?t" "\<forall>src. get_sched_requests src m' = []"
        using to_launch_node_ok [OF assms(4), of ?t] n(4) ty(1) by auto
      define pools' where "pools' = (if left > 0 then remove_nth j pools @ [m'] else remove_nth j pools)"
      have "pools_ok f RS cx ?avail pools'"
        using rest m' rem(2) ty(1) n(4) unfolding pools_ok_def pools'_def by (cases "left > 0") simp_all
      moreover have "set un \<subseteq> set rs" using arg_cong [OF best(5), of set_mset] by auto
      then have "set un \<subseteq> set RS" using less.prems(2) by simp
      moreover have "length un < length rs"
        using arg_cong [OF best(5), of size] best(4) by (cases placed) simp_all
      ultimately obtain L rs' where IH: "launch_loop cg src cx un pools' ?avail (target @ [m]) = Inr ((target @ [m]) @ L, rs')"
        "\<forall>m\<in>set L. good f RS m \<and> launched m \<and> map_of (cx_configs cx) (sn_type m) \<noteq> None"
        "assigned src L + mset rs' = mset un" "assigned (other src) L = {#}" "set rs' \<subseteq> set RS"
        "\<forall>t. int (count_type t L) \<le> max 0 (dict_get ?avail t 0)"
        "\<forall>M. cx_max_nodes cx = Some M \<longrightarrow> L \<noteq> [] \<longrightarrow> int (length (target @ [m]) + length L) \<le> M"
        using less.hyps [where rs = un and pools = pools' and avail = ?avail and target = "target @ [m]"] by blast
      have run: "launch_loop cg src cx rs pools avail target = Inr (target @ m # L, rs')"
        using True best(1) IH(1) m'(1) by (subst launch_loop.simps) (simp add: Let_def left_def [symmetric] pools'_def split: if_splits)
      have "get_sched_requests src m = placed" "get_sched_requests (other src) m = []" using best(3) n(2) by (simp_all add: took_def)
      then have acc: "assigned src (m # L) + mset rs' = mset rs" "assigned (other src) (m # L) = {#}"
        using IH(3,4) best(5) by (simp_all add: add.assoc)
      have cnt: "int (count_type t (m # L)) \<le> max 0 (dict_get avail t 0)" for t
        using spec [OF IH(6), of t] n(3) ty(1) by (cases "t = ?t") (auto simp: left_def)
      have mx: "int (length target + length (m # L)) \<le> M" if "cx_max_nodes cx = Some M" for M
        using True IH(7) that by (cases "L = []") auto
      have "good f RS m \<and> launched m \<and> map_of (cx_configs cx) (sn_type m) \<noteq> None" using best(6) ty n(1,4) by simp
      then show ?thesis using run acc cnt mx IH(2,5) by (intro exI [of _ "m # L"] exI [of _ rs']) simp
    qed
  qed
qed

end
