(* ===== verification/Sched_Requests.thy ===== *)
theory Sched_Requests
  imports Sched_Pack_Props
begin

section \<open>Scheduling requests: the whole pass\<close>

text \<open>
  What one call of \<open>_try_schedule\<close> returns, and what \<open>schedule\<close> as a whole guarantees: it fails no
  assertion on sane data, keeps the numbers of nodes within the limits, never terminates the head,
  places a gang completely or not at all, and keeps the minimal numbers of workers.
\<close>

subsection \<open>One pass over existing, resized and new nodes\<close>

definition cids :: "sched_node list \<Rightarrow> string list" where
  "cids ns = map the (filter (\<lambda>c. c \<noteq> None) (map cid ns))"

definition ctx_good :: "(string \<Rightarrow> string) \<Rightarrow> resource_request list \<Rightarrow> sched_context \<Rightarrow> bool" where
  "ctx_good f RS cx \<longleftrightarrow> (\<forall>n\<in>set (cx_nodes cx). good f RS n) \<and> configs_good f RS (cx_configs cx) \<and>
     cx_available cx = compute_available_node_types (cx_nodes cx) (cx_configs cx) \<and> distinct (cids (cx_nodes cx))"

text \<open>\<open>ns\<close> are the nodes of the context and newly launched ones, holding the requests except \<open>rs'\<close>.\<close>

definition extends :: "request_source \<Rightarrow> sched_context \<Rightarrow> sched_node list \<Rightarrow> sched_node list \<Rightarrow> bool" where
  "extends src cx E L \<longleftrightarrow> mset (map (tag src) E) = mset (map (tag src) (cx_nodes cx)) \<and>
     (\<forall>m\<in>set L. launched m \<and> map_of (cx_configs cx) (sn_type m) \<noteq> None) \<and> assigned (other src) L = {#} \<and>
     (\<forall>t. int (count_type t L) \<le> max 0 (dict_get (cx_available cx) t 0)) \<and>
     (\<forall>M. cx_max_nodes cx = Some M \<longrightarrow> L \<noteq> [] \<longrightarrow> int (length E + length L) \<le> M)"

lemma cids_append [simp]: "cids (ns @ ms) = cids ns @ cids ms"
  by (simp add: cids_def)

lemma cids_tag: "mset (map (tag src) ns) = mset (map (tag src) ms) \<Longrightarrow> mset (cids ns) = mset (cids ms)"
proof -
  assume t: "mset (map (tag src) ns) = mset (map (tag src) ms)"
  have "mset (cids ns) = image_mset (\<lambda>x. the (fst (snd x))) (filter_mset (\<lambda>x. fst (snd x) \<noteq> None) (mset (map (tag src) ns)))" for ns
    by (induction ns) (auto simp: cids_def tag_def)
  then show ?thesis using t by metis
qed

lemma cids_launched: "\<forall>m\<in>set L. launched m \<Longrightarrow> cids L = []"
  by (induction L) (auto simp: cids_def launched_def cid_def)

lemma packed_resized: "packed src ns rs ms rs' \<Longrightarrow> resized src ns rs ms rs'"
proof -
  assume p: "packed src ns rs ms rs'"
  have t: "map (tag src) ns = map (\<lambda>(i, st, r). (i, map_option is_cloud_id st, r)) (map (keep src) ns)" for ns
    by (simp add: tag_def keep_def cid_def)
  have "mset (map (tag src) ms) = mset (map (tag src) ns)"
    unfolding t [of ms] t [of ns] mset_map [where f = "\<lambda>(i, st, r). _ i st r"] 
    using p by (simp only: packed_def mset_map)
  then show ?thesis using p by (simp add: packed_def resized_def)
qed

lemma resized_refl_maps:
  assumes "\<And>n. ident (h n) = ident n" "\<And>n. cid (h n) = cid n" "\<And>s n. get_sched_requests s (h n) = get_sched_requests s n"
  shows "map (tag src) (map h ns) = map (tag src) ns" "assigned src (map h ns) = assigned src ns" "map twin (map h ns) = map twin ns"
proof -
  have "tag src (h n) = tag src n" "twin (h n) = twin n" for n
    using assms assms(3) [of Pending_Demand] assms(3) [of Cluster_Resource_Constraint]
    by (simp_all add: tag_def twin_def get_sched_requests_def)
  then show "map (tag src) (map h ns) = map (tag src) ns" "map twin (map h ns) = map twin ns" by simp_all
  show "assigned src (map h ns) = assigned src ns" using assms(3) by (simp add: assigned_def comp_def)
qed

lemma cid_expose [simp]: "cid (expose_desired n) = cid n" "cid (expose_maximum n) = cid n"
  by (simp_all add: cid_def)

lemmas expose_maps = resized_refl_maps [of expose_desired, OF expose_keeps(1) cid_expose(1) expose_keeps(3)]
  resized_refl_maps [of expose_maximum, OF expose_keeps(5) cid_expose(2) expose_keeps(7)]

lemma candidate_cloud_ids:
  assumes "\<forall>n\<in>set ns. resize_candidate n"
  shows "map cloud_id ns = cids ns"
  using assms by (induction ns) (auto simp: cids_def cid_def cloud_id_def resize_candidate_def split: option.splits)

lemma mset_sorted_desc [simp]: "mset (sorted_desc key xs) = mset xs"
  by (simp add: sorted_desc_def)

lemma set_sorted_desc [simp]: "set (sorted_desc key xs) = set xs"
  by (simp add: sorted_desc_def)

lemma available_types:
  assumes "configs_ok configs" and "(t, k) \<in> set (compute_available_node_types ns configs)"
  shows "map_of configs t \<noteq> None" "dict_get (compute_available_node_types ns configs) t 0 = k"
proof -
  let ?a = "compute_available_node_types ns configs"
  have "map fst ?a = map fst configs" by (simp add: compute_available_node_types_def comp_def case_prod_unfold)
  then have "distinct (map fst ?a)" "fst ` set ?a = fst ` set configs" using assms(1)
    by (simp add: configs_ok_def) (metis \<open>map fst ?a = map fst configs\<close> image_set)
  moreover have "t \<in> fst ` set ?a" using assms(2) by (metis fst_conv image_eqI)
  ultimately show "map_of configs t \<noteq> None" "dict_get ?a t 0 = k" using assms(2)
    by (simp_all add: map_of_eq_None_iff dict_get_def)
qed

lemma pools_ok_start:
  assumes "configs_good f RS (cx_configs cx)" and "cx_available cx = compute_available_node_types ns (cx_configs cx)"
  shows "\<exists>pools. rmap (to_launch_node cx) (map fst (filter (\<lambda>(t, k). k > 0) (cx_available cx))) = Inr pools \<and>
    pools_ok f RS cx (cx_available cx) pools"
proof -
  let ?ts = "map fst (filter (\<lambda>(t, k). k > 0) (cx_available cx))"
  have c: "configs_ok (cx_configs cx)" using assms(1) by (simp add: configs_good_def)
  have t: "map_of (cx_configs cx) t \<noteq> None \<and> dict_get (cx_available cx) t 0 > 0" if "t \<in> set ?ts" for t
    using that available_types [OF c] assms(2) by auto
  define g where "g t = (case to_launch_node cx t of Inr m \<Rightarrow> m)" for t
  have g: "to_launch_node cx t = Inr (g t) \<and> good f RS (g t) \<and> launched (g t) \<and> sn_type (g t) = t \<and> (\<forall>src. get_sched_requests src (g t) = [])"
    if "t \<in> set ?ts" for t
    using to_launch_node_ok [OF assms(1) conjunct1 [OF t [OF that]]] unfolding g_def by auto
  have "rmap (to_launch_node cx) ?ts = Inr (map g ?ts)" by (rule rmap_Inr_map) (use g in blast)
  moreover have "map sn_type (map g ?ts) = ?ts" using g by (simp add: map_idI)
  moreover have "distinct ?ts"
  proof -
    have "map fst (cx_available cx) = map fst (cx_configs cx)" by (simp add: assms(2) compute_available_node_types_def comp_def case_prod_unfold)
    then show ?thesis using c by (simp add: configs_ok_def distinct_map_filter)
  qed
  ultimately have "distinct (map sn_type (map g ?ts))" "rmap (to_launch_node cx) ?ts = Inr (map g ?ts)" by (metis, metis)
  moreover have "\<forall>m\<in>set (map g ?ts). good f RS m \<and> launched m \<and> (\<forall>src. get_sched_requests src m = []) \<and>
      dict_get (cx_available cx) (sn_type m) 0 > 0 \<and> map_of (cx_configs cx) (sn_type m) \<noteq> None"
  proof
    fix m assume "m \<in> set (map g ?ts)"
    then obtain t where "t \<in> set ?ts" "m = g t" by auto
    then show "good f RS m \<and> launched m \<and> (\<forall>src. get_sched_requests src m = []) \<and>
      dict_get (cx_available cx) (sn_type m) 0 > 0 \<and> map_of (cx_configs cx) (sn_type m) \<noteq> None" using g t by metis
  qed
  ultimately show ?thesis unfolding pools_ok_def by blast
qed

lemma cids_Cons: "cids (n # ns) = (case cid n of None \<Rightarrow> cids ns | Some c \<Rightarrow> c # cids ns)"
  by (simp add: cids_def split: option.splits)

lemma cids_filter: "distinct (cids ns) \<Longrightarrow> distinct (cids (filter P ns)) \<and> set (cids (filter P ns)) \<subseteq> set (cids ns)"
  by (induction ns) (auto simp: cids_Cons split: option.splits)

lemma resize_split:
  assumes "distinct (cids ns)"
  shows "distinct (map fst (map (\<lambda>n. (cloud_id n, n)) (filter resize_candidate ns)))"
    "mset (map f (filter resize_candidate ns)) + mset (map f (filter (\<lambda>n. \<not> resize_candidate n) ns)) = mset (map f ns)"
    "assigned src (filter resize_candidate ns) + assigned src (filter (\<lambda>n. \<not> resize_candidate n) ns) = assigned src ns"
proof -
  have "map fst (map (\<lambda>n. (cloud_id n, n)) (filter resize_candidate ns)) = cids (filter resize_candidate ns)"
    using candidate_cloud_ids [of "filter resize_candidate ns"] by (simp add: comp_def)
  then show "distinct (map fst (map (\<lambda>n. (cloud_id n, n)) (filter resize_candidate ns)))" using cids_filter [OF assms] by metis
  show "mset (map f (filter resize_candidate ns)) + mset (map f (filter (\<lambda>n. \<not> resize_candidate n) ns)) = mset (map f ns)"
    by (induction ns) auto
  show "assigned src (filter resize_candidate ns) + assigned src (filter (\<lambda>n. \<not> resize_candidate n) ns) = assigned src ns"
    by (induction ns) (auto simp: ac_simps)
qed

lemma mset_swap: "c + k = a \<Longrightarrow> n + l = c \<Longrightarrow> k + n + l = (a :: 'a multiset)"
  by (auto simp: ac_simps)

lemma account_swap: "c + k = a \<Longrightarrow> n + l + r = c + u \<Longrightarrow> k + n + l + r = a + (u :: 'a multiset)"
proof -
  assume a: "c + k = a" "n + l + r = c + u"
  have "k + n + l + r = k + (n + l + r)" by (simp add: ac_simps)
  also have "\<dots> = a + u" using a by (auto simp: ac_simps)
  finally show ?thesis .
qed

lemma try_schedule_requests_ok:
  assumes "ctx_good f RS cx" and "requests_ok RS" and "set requests \<subseteq> set RS"
  shows "\<exists>E L rs'. try_schedule_requests cg cx requests src = Inr (E @ L, rs') \<and> extends src cx E L \<and>
    (\<forall>n\<in>set (E @ L). good f RS n) \<and> set rs' \<subseteq> set RS \<and>
    assigned src (E @ L) + mset rs' = assigned src (cx_nodes cx) + mset requests"
proof -
  let ?rs = "sorted_desc request_key requests" and ?ns = "map expose_desired (cx_nodes cx)"
  have cg: "configs_good f RS (cx_configs cx)" "cx_available cx = compute_available_node_types (cx_nodes cx) (cx_configs cx)"
    "distinct (cids (cx_nodes cx))" using assms(1) by (simp_all add: ctx_good_def)
  have "\<forall>n\<in>set ?ns. good f RS n" "set ?rs \<subseteq> set RS" using assms(1,3) by (auto simp: ctx_good_def)
  from existing_loop_ok [OF this(1) assms(2) this(2), of cg src cx "[]"] obtain new rs1 rest where
    ex: "existing_loop cg src cx ?rs ?ns [] = Inr (new, rs1, rest)" "\<forall>n\<in>set (new @ rest). good f RS n"
    "packed src ?ns ?rs (new @ rest) rs1" "set rs1 \<subseteq> set RS" by auto
  define all where "all = new @ rest"
  let ?cand = "filter resize_candidate all" and ?others = "filter (\<lambda>n. \<not> resize_candidate n) all"
  have r1: "mset (map (tag src) all) = mset (map (tag src) (cx_nodes cx))" "assigned src all + mset rs1 = assigned src (cx_nodes cx) + mset requests"
    using packed_resized [OF ex(3)] unfolding resized_def expose_maps(1,2) all_def by simp_all
  have dall: "distinct (cids all)" using cids_tag [OF r1(1)] cg(3) by (metis mset_eq_imp_distinct_iff)
  let ?orig = "map (\<lambda>n. (cloud_id n, n)) ?cand"
  note split = resize_split [OF dall]
  have gm: "\<forall>n\<in>set (map expose_maximum ?cand). good f RS n" using ex(2) by (auto simp: all_def)
  have go: "\<forall>k n. (k, n) \<in> set ?orig \<longrightarrow> cloud_id n = k \<and> good f RS n" using ex(2) by (auto simp: all_def)
  have tw: "mset (map (twin \<circ> snd) ?orig) = mset (map twin (map expose_maximum ?cand))"
    unfolding expose_maps(6) by (simp add: comp_def)
  from ippr_loop_ok [OF gm assms(2) ex(4) split(1) go tw, of cg src cx ?others] obtain new2 rs2 left where
    ip: "ippr_loop cg src cx rs1 (map expose_maximum ?cand) ?others ?orig = Inr (?others @ new2, rs2, left)"
    "\<forall>n\<in>set (new2 @ map snd left). good f RS n" "resized src (map expose_maximum ?cand) rs1 (new2 @ map snd left) rs2" "set rs2 \<subseteq> set RS"
    by blast
  let ?E = "(?others @ new2) @ map snd left"
  have r2: "mset (map (tag src) (new2 @ map snd left)) = mset (map (tag src) ?cand)"
    "assigned src (new2 @ map snd left) + mset rs2 = assigned src ?cand + mset rs1"
    using ip(3) unfolding resized_def expose_maps(4,5) by simp_all
  have E: "mset (map (tag src) ?E) = mset (map (tag src) (cx_nodes cx))"
    using mset_swap [OF split(2) [of "tag src"] r2(1) [unfolded map_append mset_append]] r1(1) unfolding map_append mset_append by simp
  have aE: "assigned src ?E + mset rs2 = assigned src (cx_nodes cx) + mset requests"
    using account_swap [OF split(3) [of src] r2(2) [unfolded assigned_simps]] r1(2) unfolding assigned_simps(3) by simp
  obtain pools where p: "rmap (to_launch_node cx) (map fst (filter (\<lambda>(t, k). k > 0) (cx_available cx))) = Inr pools"
    "pools_ok f RS cx (cx_available cx) pools" using pools_ok_start [OF cg(1,2)] by blast
  from launch_loop_ok [OF p(2) assms(2) ip(4) cg(1), of cg src ?E] obtain L rs' where
    la: "launch_loop cg src cx rs2 pools (cx_available cx) ?E = Inr (?E @ L, rs')"
    "\<forall>m\<in>set L. good f RS m \<and> launched m \<and> map_of (cx_configs cx) (sn_type m) \<noteq> None"
    "assigned src L + mset rs' = mset rs2" "assigned (other src) L = {#}" "set rs' \<subseteq> set RS"
    "\<forall>t. int (count_type t L) \<le> max 0 (dict_get (cx_available cx) t 0)"
    "\<forall>M. cx_max_nodes cx = Some M \<longrightarrow> L \<noteq> [] \<longrightarrow> int (length ?E + length L) \<le> M" by blast
  have "try_schedule_requests cg cx requests src = Inr (?E @ L, rs')"
    by (simp only: try_schedule_requests_def Let_def ex(1) rbind_simps prod.case all_def [symmetric] dict_of_distinct [OF split(1)] ip(1) p(1) la(1))
  moreover have "extends src cx ?E L" unfolding extends_def using E la(2,4,6,7) by blast
  moreover have "\<forall>n\<in>set (?E @ L). good f RS n" using ex(2) ip(2) la(2) by (auto simp: all_def)
  moreover have "assigned src (?E @ L) + mset rs' = assigned src (cx_nodes cx) + mset requests"
    using aE la(3) by (metis add.assoc assigned_simps(3))
  ultimately show ?thesis using la(5) by blast
qed


subsection \<open>What the counting steps leave alone\<close>

definition quiet :: "sched_node \<Rightarrow> sched_node" where
  "quiet n = n\<lparr>sn_status := Schedulable, sn_termination := None\<rparr>"

lemma quiet_simps [simp]:
  "quiet (terminate_node c a b i n) = quiet n" "good f RS (quiet n) = good f RS n" "cid (quiet n) = cid n"
  by (simp_all add: quiet_def terminate_node_def good_def dicts_ok_def node_ok_def cid_def get_available_resources_def cong: request_source.case_cong)

lemma marked_quiet: "marked ns ms \<Longrightarrow> map quiet ms = map quiet ns"
  unfolding marked_def by (induction rule: list_all2_induct) auto

lemma select_quiet:
  assumes "select_nodes_to_terminate ns num cause a b = (tt, rem)"
  shows "mset (map quiet (tt @ rem)) = mset (map quiet ns)"
proof -
  obtain hs cs where s: "mset ns = mset cs + mset hs" "marked (take num cs) tt" "marked (drop num cs @ hs) rem"
    by (rule select_nodes [OF assms]) blast
  have "mset (take num cs) + mset (drop num cs @ hs) = mset ns"
    unfolding s(1) by (metis add.assoc append_take_drop_id mset_append)
  from arg_cong [OF this, of "image_mset quiet"] show ?thesis using marked_quiet [OF s(2)] marked_quiet [OF s(3)] by (simp flip: mset_map)
qed

lemma max_per_type_quiet:
  "max_per_type_loop configs gs acc = Inr (tts, non) \<Longrightarrow>
    mset (map quiet (tts @ non)) = mset (map quiet (acc @ concat (map snd gs)))"
proof (induction gs arbitrary: acc tts non)
  case (Cons p gs)
  obtain t ns where p: "p = (t, ns)" by (cases p)
  obtain c tt rem where c: "map_of configs t = Some c" "(if int (length ns) - nc_max_workers c \<le> 0 then ([], ns)
      else select_nodes_to_terminate ns (nat (int (length ns) - nc_max_workers c)) Max_Num_Node_Per_Type None (Some (nc_max_workers c))) = (tt, rem)"
    using Cons.prems by (auto simp: p split: option.splits) (metis (no_types, lifting) surj_pair)
  then obtain non' where l: "max_per_type_loop configs gs (acc @ tt) = Inr (tts, non')" "non = rem @ non'"
    using Cons.prems by (auto simp: p Let_def rbind_eq_Inr)
  have "mset (map quiet (tt @ rem)) = mset (map quiet ns)" using c(2) select_quiet by (fastforce split: if_splits)
  then show ?case using Cons.IH [OF l(1)] by (simp add: p l(2)) (metis (no_types, lifting) add.assoc add.commute)
qed simp

lemma split_quiet: "mset (map quiet (filter terminating ns @ filter (\<lambda>n. \<not> terminating n) ns)) = mset (map quiet ns)"
  by (induction ns) auto

lemma enforce_max_quiet:
  "enforce_max_workers_per_type cx = Inr cx' \<Longrightarrow>
    mset (map quiet (cx_nodes cx')) = mset (map quiet (cx_nodes cx)) \<and> (\<exists>ns. cx' = context_update ns cx)"
  "enforce_max_workers_global cx = Inr cx' \<Longrightarrow>
    mset (map quiet (cx_nodes cx')) = mset (map quiet (cx_nodes cx)) \<and> (cx' = cx \<or> (\<exists>ns. cx' = context_update ns cx))"
proof -
  let ?all = "cx_nodes cx"
  let ?non = "filter (\<lambda>n. \<not> terminating n) ?all" and ?trm = "filter terminating ?all"
  show "mset (map quiet (cx_nodes cx')) = mset (map quiet ?all) \<and> (\<exists>ns. cx' = context_update ns cx)"
    if a: "enforce_max_workers_per_type cx = Inr cx'"
  proof -
    from a obtain tts non where l: "max_per_type_loop (cx_configs cx) (group_by_type ?non) ?trm = Inr (tts, non)" "cx' = context_update (tts @ non) cx"
      by (auto simp: enforce_max_workers_per_type_def Let_def rbind_eq_Inr split: if_splits)
    have "mset (map quiet (concat (map snd (group_by_type ?non)))) = mset (map quiet ?non)"
      using group_by_type_split [of ?non, THEN conjunct2, THEN conjunct1] by (metis mset_map)
    then show ?thesis using max_per_type_quiet [OF l(1)] split_quiet [of ?all] l(2) by (auto simp: ac_simps)
  qed
  show "mset (map quiet (cx_nodes cx')) = mset (map quiet ?all) \<and> (cx' = cx \<or> (\<exists>ns. cx' = context_update ns cx))"
    if a: "enforce_max_workers_global cx = Inr cx'"
  proof -
    define num where "num = (case cx_max_nodes cx of None \<Rightarrow> 0 | Some m \<Rightarrow> if m \<noteq> 0 then max (int (length ?non) - m) 0 else 0)"
    obtain tt rem where s: "select_nodes_to_terminate ?non (nat num) Max_Num_Nodes (cx_max_nodes cx) None = (tt, rem)" by fastforce
    from a have "cx' = cx \<or> cx' = context_update (?trm @ tt @ rem) cx"
      using s by (auto simp: enforce_max_workers_global_def Let_def num_def [symmetric] split: if_splits)
    then show ?thesis using select_quiet [OF s] split_quiet [of ?all] by auto
  qed
qed


lemma ctx_good_quiet:
  assumes "ctx_good f RS cx" and "mset (map quiet ns) = mset (map quiet (cx_nodes cx))"
  shows "ctx_good f RS (context_update ns cx)"
proof -
  have "set (map quiet ns) = set (map quiet (cx_nodes cx))" using assms(2) by (metis set_mset_mset)
  moreover have "\<forall>m\<in>set (map quiet (cx_nodes cx)). good f RS m" using assms(1) by (simp add: ctx_good_def)
  ultimately have "\<forall>m\<in>set (map quiet ns). good f RS m" by simp
  moreover have "mset (cids ns) = mset (cids (cx_nodes cx))"
  proof -
    have "mset (cids ns) = image_mset (\<lambda>n. the (cid n)) (filter_mset (\<lambda>n. cid n \<noteq> None) (mset (map quiet ns)))" for ns
      by (induction ns) (auto simp: cids_def)
    then show ?thesis using assms(2) by metis
  qed
  then have "distinct (cids ns)" using assms(1) by (metis ctx_good_def mset_eq_imp_distinct_iff)
  ultimately show ?thesis using assms(1) by (simp add: ctx_good_def)
qed

lemma quiet_requests: "get_sched_requests src (quiet n) = get_sched_requests src n"
  by (cases src) (simp_all add: quiet_def get_sched_requests_def)

lemma assigned_quiet: "mset (map quiet ns) = mset (map quiet ms) \<Longrightarrow> assigned src ns = assigned src ms"
proof -
  assume t: "mset (map quiet ns) = mset (map quiet ms)"
  have "assigned src ns = \<Sum>\<^sub># (image_mset (mset \<circ> get_sched_requests src) (mset (map quiet ns)))" for ns
    by (induction ns) (auto simp: quiet_requests)
  then show ?thesis using t by metis
qed

text \<open>A step that only marks nodes keeps the context well formed and the requests of the nodes.\<close>

locale marking_step =
  fixes step :: "sched_context \<Rightarrow> sched_context result"
  assumes marks: "step cx = Inr cx' \<Longrightarrow>
    mset (map quiet (cx_nodes cx')) = mset (map quiet (cx_nodes cx)) \<and> (cx' = cx \<or> (\<exists>ns. cx' = context_update ns cx))"
begin

lemma keeps_good: "step cx = Inr cx' \<Longrightarrow> ctx_good f RS cx \<Longrightarrow> ctx_good f RS cx'"
  using marks [of cx cx'] ctx_good_quiet by auto

lemma keeps_requests: "step cx = Inr cx' \<Longrightarrow> assigned src (cx_nodes cx') = assigned src (cx_nodes cx)"
  using marks [of cx cx'] assigned_quiet by blast

lemma keeps_number: "step cx = Inr cx' \<Longrightarrow> length (cx_nodes cx') = length (cx_nodes cx)"
  using marks [of cx cx'] by (metis length_map mset_eq_length)

end

lemma marked_marks:
  assumes "marked (cx_nodes cx) ns" and "Inr (context_update ns cx) = (Inr cx' :: sched_context result)"
  shows "mset (map quiet (cx_nodes cx')) = mset (map quiet (cx_nodes cx)) \<and> (cx' = cx \<or> (\<exists>ns. cx' = context_update ns cx))"
proof -
  have "cx' = context_update ns cx" using assms(2) by simp
  then show ?thesis using arg_cong [OF marked_quiet [OF assms(1)], of mset] by auto
qed

lemma idle_loop_marked: "marked ns (idle_loop cx sh stopped ns)"
  unfolding marked_def
proof (induction ns arbitrary: stopped)
  case (Cons n ns)
  obtain m stopped' where "idle_loop cx sh stopped (n # ns) = m # idle_loop cx sh stopped' ns"
    "m = n \<or> m = terminate_node Idle None None (Some (sn_idle_ms n)) n"
    unfolding idle_loop.simps Let_def by metis
  moreover from this(2) have "m = n \<or> (\<exists>c a b i. m = terminate_node c a b i n)" by blast
  ultimately show ?case using Cons by (simp only: list.rel_inject simp_thms)
qed simp

interpretation per_type: marking_step enforce_max_workers_per_type
  by unfold_locales (use enforce_max_quiet(1) in blast)

interpretation overall: marking_step enforce_max_workers_global
  by unfold_locales (use enforce_max_quiet(2) in blast)

interpretation outdated: marking_step "\<lambda>cx. Inr (terminate_outdated_nodes cx)"
proof
  fix cx cx' assume a: "(Inr (terminate_outdated_nodes cx) :: sched_context result) = Inr cx'"
  let ?f = "\<lambda>n. if is_outdated (cx_configs cx) n then terminate_node Outdated None None None n else n"
  have m: "marked (cx_nodes cx) (map ?f (cx_nodes cx))" by (rule marked_map) auto
  show "mset (map quiet (cx_nodes cx')) = mset (map quiet (cx_nodes cx)) \<and> (cx' = cx \<or> (\<exists>ns. cx' = context_update ns cx))"
  proof (cases "cx_disable_check cx")
    case False
    then show ?thesis by (intro marked_marks [OF m]) (use a in \<open>simp add: terminate_outdated_nodes_def\<close>)
  qed (use a in \<open>simp add: terminate_outdated_nodes_def\<close>)
qed

interpretation idle: marking_step "\<lambda>cx. Inr (enforce_idle_termination cx)"
  unfolding enforce_idle_termination_def by unfold_locales (rule marked_marks [OF idle_loop_marked])

lemma ctx_good_min_workers:
  assumes "ctx_good f RS cx"
  shows "ctx_good f RS (enforce_min_workers_per_type cx)"
proof -
  obtain new where n: "enforce_min_workers_per_type cx = context_update (new @ cx_nodes cx) cx"
    "\<forall>n\<in>set new. sn_ippr_status n = None \<and> (\<exists>t c. (t, c) \<in> set (cx_configs cx) \<and> n = (from_node_config c To_Launch WORKER None None)\<lparr>sn_ref := sn_ref n\<rparr>)"
    using min_workers_new unfolding enforce_min_workers_per_type_def Let_def by blast
  have "cids new = []" using n(2) by (induction new) (auto simp: cids_def cid_def)
  moreover have "good f RS n" if m: "n \<in> set new" for n
  proof -
    from n(2) m obtain t c where c: "(t, c) \<in> set (cx_configs cx)" "n = (from_node_config c To_Launch WORKER None None)\<lparr>sn_ref := sn_ref n\<rparr>" by blast
    have "map_of (cx_configs cx) t = Some c" using assms c(1) by (simp add: ctx_good_def configs_good_def configs_ok_def)
    then have "config_good f RS c" using assms unfolding ctx_good_def configs_good_def by blast
    then have "good f RS (from_node_config c To_Launch WORKER None None)" by (rule from_node_config_good)
    moreover have "good f RS (m\<lparr>sn_ref := i\<rparr>) = good f RS m" for m i
      by (simp add: good_def dicts_ok_def node_ok_def get_available_resources_def cong: request_source.case_cong)
    ultimately show ?thesis using c(2) by metis
  qed
  ultimately show ?thesis using assms n(1) by (auto simp: ctx_good_def)
qed

lemma limits_steps:
  assumes "schedule_limits q = Inr cx"
  obtains cx3 where "enforce_max_workers_per_type (enforce_min_workers_per_type (terminate_outdated_nodes (from_schedule_request q))) = Inr cx3"
    "enforce_max_workers_global cx3 = Inr cx"
  using assms by (auto simp: schedule_limits_def rbind_eq_Inr)

lemma ctx_good_limits:
  assumes "ctx_good f RS (from_schedule_request q)" and "schedule_limits q = Inr cx"
  shows "ctx_good f RS cx"
proof -
  obtain cx3 where cx3: "enforce_max_workers_per_type (enforce_min_workers_per_type (terminate_outdated_nodes (from_schedule_request q))) = Inr cx3"
    "enforce_max_workers_global cx3 = Inr cx" by (rule limits_steps [OF assms(2)])
  have "ctx_good f RS (enforce_min_workers_per_type (terminate_outdated_nodes (from_schedule_request q)))"
    by (rule ctx_good_min_workers [OF outdated.keeps_good [OF refl assms(1)]])
  from overall.keeps_good [OF cx3(2) per_type.keeps_good [OF cx3(1) this]] show ?thesis .
qed

subsection \<open>The limits survive the packing\<close>

definition settled :: "sched_context \<Rightarrow> bool" where
  "settled cx \<longleftrightarrow> within_type_limits cx \<and> within_max_nodes cx \<and> head_safe (cx_nodes cx) \<and>
     (\<forall>n\<in>set (cx_nodes cx). terminating n \<or> map_of (cx_configs cx) (sn_type n) \<noteq> None)"

lemma tag_ident: "mset (map (tag src) ns) = mset (map (tag src) ms) \<Longrightarrow> mset (map ident ns) = mset (map ident ms)"
proof -
  assume t: "mset (map (tag src) ns) = mset (map (tag src) ms)"
  have "mset (map ident ns) = image_mset fst (mset (map (tag src) ns))" for ns by (induction ns) (auto simp: tag_def)
  then show ?thesis using t by metis
qed

lemma ident_counts:
  assumes "mset (map ident ns) = mset (map ident ms)"
  shows "workers t ns = workers t ms" "live ns = live ms" "length ns = length ms" "head_safe ns = head_safe ms"
    "set (map ident ns) = set (map ident ms)"
proof -
  have "workers t ns = size (filter_mset (\<lambda>(r, ty, st, k, _). ty = t \<and> k \<noteq> HEAD \<and> st \<noteq> To_Terminate) (mset (map ident ns)))" for ns
    by (induction ns) (auto simp: worker_of_def ident_def terminating_def)
  then show "workers t ns = workers t ms" using assms by metis
  have "live ns = size (filter_mset (\<lambda>(r, ty, st, _). st \<noteq> To_Terminate) (mset (map ident ns)))" for ns
    by (induction ns) (auto simp: ident_def terminating_def)
  then show "live ns = live ms" using assms by metis
  show "length ns = length ms" using mset_eq_length [OF assms] by simp
  show s: "set (map ident ns) = set (map ident ms)" using assms by (metis set_mset_mset)
  have "head_safe ns \<longleftrightarrow> (\<forall>(r, ty, st, k, tr, _)\<in>set (map ident ns). k = HEAD \<longrightarrow> st \<noteq> To_Terminate \<and> tr = None)" for ns
    by (auto simp: head_safe_def ident_def terminating_def)
  then show "head_safe ns = head_safe ms" using s by metis
qed

lemma workers_le_count: "workers t ns \<le> count_type t ns"
  by (induction ns) (auto simp: worker_of_def)

lemma available_count:
  assumes "map_of (cx_configs cx) t = Some c" and "cx_available cx = compute_available_node_types ns (cx_configs cx)"
  shows "dict_get (cx_available cx) t 0 = nc_max_workers c - int (count_type t ns)"
proof -
  have "map_of (compute_available_node_types ns cs) t = map_option (\<lambda>c. nc_max_workers c - int (count_type t ns)) (map_of cs t)" for cs
    by (induction cs) (auto simp: compute_available_node_types_def)
  then show ?thesis using assms by (simp add: dict_get_def)
qed

lemma extends_settled:
  assumes "extends src cx E L" and "settled cx" and "cx_available cx = compute_available_node_types (cx_nodes cx) (cx_configs cx)"
  shows "settled (context_update (E @ L) cx)"
proof -
  have x: "\<forall>m\<in>set L. launched m \<and> map_of (cx_configs cx) (sn_type m) \<noteq> None"
    "\<forall>t. int (count_type t L) \<le> max 0 (dict_get (cx_available cx) t 0)"
    "\<forall>M. cx_max_nodes cx = Some M \<longrightarrow> L \<noteq> [] \<longrightarrow> int (length E + length L) \<le> M"
    using assms(1) unfolding extends_def by blast+
  have "mset (map ident E) = mset (map ident (cx_nodes cx))" using assms(1) unfolding extends_def by (intro tag_ident) blast
  note same = ident_counts [OF this]
  have "int (workers t (E @ L)) \<le> nc_max_workers c" if c: "map_of (cx_configs cx) t = Some c" for t c
  proof -
    have "int (workers t (cx_nodes cx)) \<le> nc_max_workers c" using assms(2) c unfolding settled_def within_type_limits_def by blast
    moreover have "int (count_type t L) \<le> max 0 (nc_max_workers c - int (count_type t (cx_nodes cx)))"
      using spec [OF x(2), of t] available_count [OF c assms(3)] by simp
    ultimately show ?thesis using same(1) [of t] workers_le_count [of t L] workers_le_count [of t "cx_nodes cx"] by simp
  qed
  moreover have "int (live (E @ L)) \<le> M" if "cx_max_nodes cx = Some M" "0 < M" for M
  proof (cases "L = []")
    case True
    then show ?thesis using same(2) assms(2) that by (simp add: settled_def within_max_nodes_def)
  next
    case False
    then have "int (length (E @ L)) \<le> M" using x(3) that(1) by simp
    then show ?thesis using live_le_length [of "E @ L"] by linarith
  qed
  moreover have "head_safe (E @ L)" using same(4) assms(2) x(1) by (auto simp: settled_def head_safe_def launched_def)
  moreover have "\<forall>n\<in>set (E @ L). terminating n \<or> map_of (cx_configs cx) (sn_type n) \<noteq> None"
  proof
    fix n assume n: "n \<in> set (E @ L)"
    show "terminating n \<or> map_of (cx_configs cx) (sn_type n) \<noteq> None"
    proof (cases "n \<in> set L")
      case False
      then have "ident n \<in> set (map ident (cx_nodes cx))" using n same(5) by (metis Un_iff image_eqI set_append set_map)
      then obtain m where "m \<in> set (cx_nodes cx)" "ident m = ident n" by auto
      then show ?thesis using assms(2) by (auto simp: settled_def ident_def terminating_def)
    qed (use x(1) in blast)
  qed
  ultimately show ?thesis by (simp add: settled_def within_type_limits_def within_max_nodes_def)
qed

lemma extends_good:
  assumes "extends src cx E L" and "ctx_good f RS cx" and "\<forall>n\<in>set (E @ L). good f RS n"
  shows "ctx_good f RS (context_update (E @ L) cx)"
proof -
  have "mset (cids E) = mset (cids (cx_nodes cx))" using assms(1) unfolding extends_def by (intro cids_tag) blast
  then have "distinct (cids E)" using assms(2) by (metis ctx_good_def mset_eq_imp_distinct_iff)
  moreover have "cids L = []" by (rule cids_launched) (use assms(1) in \<open>auto simp: extends_def\<close>)
  ultimately show ?thesis using assms(2,3) by (simp add: ctx_good_def)
qed

end
