(* ===== verification/Sched_Props.thy ===== *)
theory Sched_Props
  imports Sched_Requests
begin

section \<open>The scheduler as a whole\<close>

text \<open>
  What \<open>schedule\<close> guarantees on sane requests: it fails no assertion, stays within the numbers of
  nodes, never terminates the head, places each request once and each gang completely or not at
  all, and idle termination leaves busy nodes and the minimal numbers of workers alone.
\<close>

subsection \<open>Sane requests\<close>

definition gang_bundles :: "gang_request \<Rightarrow> resource_request list result" where
  "gang_bundles g = combine_requests_with_affinity (case gr_bundle_selectors g of [] \<Rightarrow> gr_requests g | b # _ \<Rightarrow> b)"

definition gang_requests :: "gang_request \<Rightarrow> resource_request list" where
  "gang_requests g = (case gang_bundles g of Inr rs \<Rightarrow> rs | Inl _ \<Rightarrow> [])"

text \<open>The bundles of a gang as they are requested. A bundle whose one placement constraint has neither part is
  dropped when the bundles are combined.\<close>

definition gang_members :: "gang_request \<Rightarrow> resource_request list" where
  "gang_members g = (case gr_bundle_selectors g of [] \<Rightarrow> gr_requests g | b # _ \<Rightarrow> b)"

definition empty_constraint :: "resource_request \<Rightarrow> bool" where
  "empty_constraint b \<longleftrightarrow> (\<exists>c. rq_constraints b = [c] \<and> pc_affinity c = None \<and> pc_anti_affinity c = None)"

definition amount :: "string \<Rightarrow> resource_request \<Rightarrow> rat" where
  "amount k r = (\<Sum>(l, v)\<leftarrow>rq_bundle r. if l = k then v else 0)"

text \<open>A placed request stands for itself, or for bundles with one affinity label and equal selectors, whose
  amounts it adds up.\<close>

definition stands_for :: "resource_request \<Rightarrow> resource_request list \<Rightarrow> bool" where
  "stands_for r bs \<longleftrightarrow> bs = [r] \<or>
     (\<exists>l. rq_constraints r = [\<lparr>pc_anti_affinity = None, pc_affinity = Some l\<rparr>] \<and>
        (\<forall>b\<in>set bs. (\<exists>c. rq_constraints b = [c] \<and> pc_affinity c = Some l) \<and>
          label_selector_key (rq_selectors b) = label_selector_key (rq_selectors r))) \<and>
     (\<forall>k. amount k r = (\<Sum>b\<leftarrow>bs. amount k b))"

definition places_bundles :: "resource_request list \<Rightarrow> resource_request list \<Rightarrow> bool" where
  "places_bundles bs rs \<longleftrightarrow> (\<exists>parts. list_all2 stands_for rs parts \<and> mset (concat parts) = mset bs)"

definition demands :: "sched_request \<Rightarrow> resource_request list" where
  "demands q = concat (map ungroup_by_count (sq_constraints q)) @ concat (map gang_requests (sq_gang_requests q)) @
     ungroup_by_count (sq_resource_requests q)"

text \<open>
  \<open>f\<close> gives each anti-affinity label its one value. The nodes have resources between zero and their
  totals, the node types are well formed, the cloud ids of resizable nodes differ, the gangs have
  at most one placement constraint per bundle and there is at most one cluster constraint.
\<close>

definition sane :: "(string \<Rightarrow> string) \<Rightarrow> sched_request \<Rightarrow> bool" where
  "sane f q \<longleftrightarrow> ctx_good f (demands q) (from_schedule_request q) \<and> requests_ok (demands q) \<and>
     (\<forall>g\<in>set (sq_gang_requests q). \<exists>rs. gang_bundles g = Inr rs) \<and> length (sq_constraints q) \<le> 1 \<and>
     types_known q \<and> head_instances q \<le> 1 \<and> (\<forall>m. sq_max_nodes q = Some m \<longrightarrow> 0 \<le> m)"

definition fine :: "(string \<Rightarrow> string) \<Rightarrow> sched_request \<Rightarrow> sched_context \<Rightarrow> bool" where
  "fine f q cx \<longleftrightarrow> ctx_good f (demands q) cx \<and> settled cx \<and> cx_configs cx = sq_configs q \<and> cx_max_nodes cx = sq_max_nodes q"

subsection \<open>Combined gangs\<close>

definition groups_ok :: "(affinity_key, resource_request list) dict \<Rightarrow> bool" where
  "groups_ok gs \<longleftrightarrow> distinct (map fst gs) \<and> (\<forall>((n, v, s), bs)\<in>set gs. bs \<noteq> [] \<and>
     (\<forall>b\<in>set bs. (\<exists>c. rq_constraints b = [c] \<and> pc_affinity c = Some (n, v)) \<and> label_selector_key (rq_selectors b) = s))"

lemma update_cases: "e \<in> set (AList.update k v d) \<Longrightarrow> e = (k, v) \<or> e \<in> set d"
  by (induction d) (auto split: if_splits)

lemma dict_get_in: "dict_get d k x = x \<or> (k, dict_get d k x) \<in> set d"
  by (auto simp: dict_get_def split: option.split dest: map_of_SomeD)

lemma group_added:
  assumes "groups_ok gs" and "rq_constraints r = [c]" and "pc_affinity c = Some (n, v)"
  defines "key \<equiv> (n, v, label_selector_key (rq_selectors r))"
  defines "gs' \<equiv> AList.update key (dict_get gs key [] @ [r]) gs"
  shows "groups_ok gs'" "mset (concat (map snd gs')) = mset (concat (map snd gs)) + {#r#}"
proof -
  have "\<forall>b\<in>set (dict_get gs key []). (\<exists>c. rq_constraints b = [c] \<and> pc_affinity c = Some (n, v)) \<and>
      label_selector_key (rq_selectors b) = label_selector_key (rq_selectors r)"
    using dict_get_in [of gs key "[]"] assms(1) by (auto simp: groups_ok_def key_def)
  then show "groups_ok gs'"
    using assms(1-3) unfolding groups_ok_def gs'_def
    by (auto simp: distinct_update key_def dest!: update_cases)
  have "distinct (map fst gs)" using assms(1) by (simp add: groups_ok_def)
  then show "mset (concat (map snd gs')) = mset (concat (map snd gs)) + {#r#}"
    unfolding gs'_def by (induction gs) (auto simp: dict_get_def)
qed

lemma group_affinity_all:
  assumes "rfold group_affinity bs (cs, gs) = Inr (cs', gs')" and "groups_ok gs"
  shows "groups_ok gs' \<and> mset cs' + mset (concat (map snd gs')) =
    mset cs + mset (concat (map snd gs)) + mset (filter (\<lambda>b. \<not> empty_constraint b) bs)"
  using assms
proof (induction bs arbitrary: cs gs)
  case (Cons b bs)
  obtain x y where s: "group_affinity b (cs, gs) = Inr (x, y)" "rfold group_affinity bs (x, y) = Inr (cs', gs')"
    using Cons.prems(1) by (auto simp: rbind_def split: sum.splits)
  have "groups_ok y \<and> mset x + mset (concat (map snd y)) = mset cs + mset (concat (map snd gs)) + mset (filter (\<lambda>b. \<not> empty_constraint b) [b])"
    using s(1) Cons.prems(2) group_added [OF Cons.prems(2)]
    by (auto simp: group_affinity_def empty_constraint_def Let_def split: list.splits option.splits if_splits)
  with Cons.IH [OF s(2)] show ?case by simp
qed simp


lemma merged_amount:
  assumes "distinct (map fst d)"
  shows "distinct (map fst (merge_bundles_into r d)) \<and>
    (\<Sum>(l, v)\<leftarrow>merge_bundles_into r d. if l = k then v else 0) = (\<Sum>(l, v)\<leftarrow>d. if l = k then v else 0) + amount k r"
proof -
  have one: "(\<Sum>(l, v)\<leftarrow>AList.update x (dict_get d x 0 + w) d. if l = k then v else 0) = (\<Sum>(l, v)\<leftarrow>d. if l = k then v else 0) + (if x = k then w else 0)"
    if "distinct (map fst d)" for x w and d :: resources
    using that by (induction d) (auto simp: dict_get_def)
  have "distinct (map fst (fold (\<lambda>(l, v) d. AList.update l (dict_get d l 0 + v) d) es d)) \<and>
    (\<Sum>(l, v)\<leftarrow>fold (\<lambda>(l, v) d. AList.update l (dict_get d l 0 + v) d) es d. if l = k then v else 0) =
      (\<Sum>(l, v)\<leftarrow>d. if l = k then v else 0) + (\<Sum>(l, v)\<leftarrow>es. if l = k then v else 0)" for es
    using assms
  proof (induction es arbitrary: d)
    case (Cons e es)
    show ?case using Cons.IH [of "AList.update (fst e) (dict_get d (fst e) 0 + snd e) d"] one [OF Cons.prems] Cons.prems
      by (cases e) (simp add: distinct_update)
  qed simp
  then show ?thesis by (simp add: merge_bundles_into_def amount_def)
qed

lemma merged_amounts:
  assumes "distinct (map fst d)"
  shows "(\<Sum>(l, v)\<leftarrow>fold merge_bundles_into bs d. if l = k then v else 0) =
    (\<Sum>(l, v)\<leftarrow>d. if l = k then v else 0) + (\<Sum>b\<leftarrow>bs. amount k b)"
  using assms
proof (induction bs arbitrary: d)
  case (Cons b bs)
  show ?case using Cons.IH [of "merge_bundles_into b d"] merged_amount [OF Cons.prems, of b k] by simp
qed simp

lemma combined_stands_for:
  assumes "groups_ok gs" and "e \<in> set gs"
  shows "stands_for (combined_request e) (snd e)"
proof -
  obtain n v s bs where e: "e = ((n, v, s), bs)" by (cases e) auto
  have bs: "bs \<noteq> []" "\<forall>b\<in>set bs. (\<exists>c. rq_constraints b = [c] \<and> pc_affinity c = Some (n, v)) \<and> label_selector_key (rq_selectors b) = s"
    using assms by (auto simp: groups_ok_def e)
  then have "label_selector_key (rq_selectors (hd bs)) = s" by simp
  then show ?thesis
    using bs merged_amounts [where d = "[]" and bs = bs] by (auto simp: stands_for_def e combined_request_def amount_def)
qed

lemma combine_requests_complete:
  assumes "combine_requests_with_affinity bs = Inr rs"
  shows "places_bundles (filter (\<lambda>b. \<not> empty_constraint b) bs) rs"
proof -
  obtain cs gs where c: "rfold group_affinity bs ([], []) = Inr (cs, gs)" "rs = cs @ map combined_request gs"
    using assms by (auto simp: combine_requests_with_affinity_def rbind_def split: sum.splits)
  have g: "groups_ok gs \<and> mset cs + mset (concat (map snd gs)) = mset (filter (\<lambda>b. \<not> empty_constraint b) bs)"
    using group_affinity_all [OF c(1)] by (simp add: groups_ok_def)
  have "list_all2 stands_for (map combined_request gs) (map snd gs)"
    using g by (auto simp: list.rel_map list_all2_same intro: combined_stands_for)
  moreover have "list_all2 stands_for cs (map (\<lambda>r. [r]) cs)" by (simp add: list.rel_map list_all2_same stands_for_def)
  moreover have "mset (concat (map (\<lambda>r. [r]) cs @ map snd gs)) = mset (filter (\<lambda>b. \<not> empty_constraint b) bs)"
    using g by simp
  ultimately show ?thesis unfolding places_bundles_def c(2)
    by (intro exI [of _ "map (\<lambda>r. [r]) cs @ map snd gs"] conjI list_all2_appendI)
qed

lemma gangs_placed:
  assumes "sane f q" and "set placed \<subseteq> set (sq_gang_requests q)"
  shows "list_all2 (\<lambda>g. places_bundles (filter (\<lambda>b. \<not> empty_constraint b) (gang_members g))) placed (map gang_requests placed)"
proof -
  have "places_bundles (filter (\<lambda>b. \<not> empty_constraint b) (gang_members g)) (gang_requests g)" if g: "g \<in> set placed" for g
  proof -
    have "\<forall>g\<in>set (sq_gang_requests q). \<exists>rs. gang_bundles g = Inr rs" using assms(1) unfolding sane_def by (elim conjE)
    then obtain rs where "gang_bundles g = Inr rs" using assms(2) g by blast
    then show ?thesis using combine_requests_complete [of "gang_members g" rs] by (simp add: gang_bundles_def gang_requests_def gang_members_def)
  qed
  then show ?thesis by (auto simp: list.rel_map list_all2_same)
qed

subsection \<open>Placing the requests\<close>

lemma assigned_other:
  assumes "extends src cx E L" and "s \<noteq> src"
  shows "assigned s (E @ L) = assigned s (cx_nodes cx)"
proof -
  have s: "s = other src" using source_cases [of s src] assms(2) by blast
  have "assigned (other src) ns = \<Sum>\<^sub># (image_mset (\<lambda>(_, _, r). mset r) (mset (map (tag src) ns)))" for ns
    by (induction ns) (auto simp: tag_def)
  then have "assigned (other src) E = assigned (other src) (cx_nodes cx)" using assms(1) unfolding extends_def by metis
  then show ?thesis using assms(1) s by (simp add: extends_def)
qed

lemma request_step:
  assumes "fine f q cx" and "sane f q" and "set requests \<subseteq> set (demands q)"
  obtains ns rs' where "try_schedule_requests cg cx requests src = Inr (ns, rs')" "fine f q (context_update ns cx)"
    "assigned src ns + mset rs' = assigned src (cx_nodes cx) + mset requests" "\<forall>s. s \<noteq> src \<longrightarrow> assigned s ns = assigned s (cx_nodes cx)"
proof -
  have c: "ctx_good f (demands q) cx" "requests_ok (demands q)" using assms(1,2) by (simp_all add: fine_def sane_def)
  obtain E L rs' where r: "try_schedule_requests cg cx requests src = Inr (E @ L, rs')" "extends src cx E L"
    "\<forall>n\<in>set (E @ L). good f (demands q) n" "assigned src (E @ L) + mset rs' = assigned src (cx_nodes cx) + mset requests"
    using try_schedule_requests_ok [OF c assms(3), of cg src] by blast
  have "settled (context_update (E @ L) cx)"
    by (rule extends_settled [OF r(2)]) (use assms(1) c in \<open>simp_all add: fine_def ctx_good_def\<close>)
  then have "fine f q (context_update (E @ L) cx)" using extends_good [OF r(2) c(1) r(3)] assms(1) by (simp add: fine_def)
  then show thesis using that r(1,4) assigned_other [OF r(2)] by blast
qed

lemma constraints_step:
  assumes "fine f q cx" and "sane f q"
  obtains un cx' where "enforce_resource_constraints cg (sq_constraints q) cx = Inr (un, cx')" "fine f q cx'"
    "assigned Pending_Demand (cx_nodes cx') = assigned Pending_Demand (cx_nodes cx)"
    "un = sq_constraints q \<and> cx' = cx \<or> un = [] \<and> assigned Cluster_Resource_Constraint (cx_nodes cx') =
       assigned Cluster_Resource_Constraint (cx_nodes cx) + mset (concat (map ungroup_by_count (sq_constraints q)))"
proof (cases "sq_constraints q")
  case Nil
  then show ?thesis using that assms(1) by (simp add: enforce_resource_constraints_def)
next
  case (Cons c cs)
  then have c: "sq_constraints q = [c]" using assms(2) by (simp add: sane_def)
  have "set (ungroup_by_count c) \<subseteq> set (demands q)" by (simp add: demands_def c)
  from request_step [OF assms this, of cg Cluster_Resource_Constraint] obtain ns rs' where
    r: "try_schedule_requests cg cx (ungroup_by_count c) Cluster_Resource_Constraint = Inr (ns, rs')" "fine f q (context_update ns cx)"
    "assigned Cluster_Resource_Constraint ns + mset rs' = assigned Cluster_Resource_Constraint (cx_nodes cx) + mset (ungroup_by_count c)"
    "\<forall>s. s \<noteq> Cluster_Resource_Constraint \<longrightarrow> assigned s ns = assigned s (cx_nodes cx)" by metis
  show ?thesis
  proof (cases "rs' = []")
    case True
    then show ?thesis using that [of "[]" "context_update ns cx"] r c by (simp add: enforce_resource_constraints_def)
  next
    case False
    then show ?thesis using that [of "[c]" cx] r(1) c assms(1) by (simp add: enforce_resource_constraints_def)
  qed
qed

lemma gangs_step:
  assumes "fine f q cx" and "sane f q" and "set gs \<subseteq> set (sq_gang_requests q)"
  shows "\<exists>placed un cx'. rfold (sched_gang cg) gs (no, cx) = Inr (no @ un, cx') \<and> fine f q cx' \<and> mset gs = mset placed + mset un \<and>
    assigned Pending_Demand (cx_nodes cx') = assigned Pending_Demand (cx_nodes cx) + mset (concat (map gang_requests placed)) \<and>
    assigned Cluster_Resource_Constraint (cx_nodes cx') = assigned Cluster_Resource_Constraint (cx_nodes cx)"
  using assms(1,3)
proof (induction gs arbitrary: no cx)
  case Nil
  then show ?case by (intro exI [of _ "[]"] exI [of _ cx]) simp
next
  case (Cons g gs)
  have gs: "set gs \<subseteq> set (sq_gang_requests q)" using Cons.prems(2) by simp
  obtain rs where rs: "gang_bundles g = Inr rs" using assms(2) Cons.prems(2) by (auto simp: sane_def)
  then have gr: "gang_requests g = rs" by (simp add: gang_requests_def)
  have "set rs \<subseteq> set (demands q)" using Cons.prems(2) gr by (auto simp: demands_def)
  from request_step [OF Cons.prems(1) assms(2) this, of cg Pending_Demand] obtain ns rs' where
    r: "try_schedule_requests cg cx rs Pending_Demand = Inr (ns, rs')" "fine f q (context_update ns cx)"
    "assigned Pending_Demand ns + mset rs' = assigned Pending_Demand (cx_nodes cx) + mset rs"
    "\<forall>s. s \<noteq> Pending_Demand \<longrightarrow> assigned s ns = assigned s (cx_nodes cx)" by metis
  have step: "sched_gang cg g (no, cx) = Inr (if rs' \<noteq> [] then (no @ [g], cx) else (no, context_update ns cx))"
    using rs r(1) by (simp add: sched_gang_def gang_bundles_def)
  show ?case
  proof (cases "rs' = []")
    case True
    obtain placed un cx' where IH: "rfold (sched_gang cg) gs (no, context_update ns cx) = Inr (no @ un, cx')" "fine f q cx'"
      "mset gs = mset placed + mset un"
      "assigned Pending_Demand (cx_nodes cx') = assigned Pending_Demand ns + mset (concat (map gang_requests placed))"
      "assigned Cluster_Resource_Constraint (cx_nodes cx') = assigned Cluster_Resource_Constraint ns"
      using Cons.IH [OF r(2) gs, of no] by auto
    show ?thesis
      by (intro exI [of _ "g # placed"] exI [of _ un] exI [of _ cx']) (use step True IH r(3,4) gr in \<open>simp add: ac_simps\<close>)
  next
    case False
    obtain placed un cx' where IH: "rfold (sched_gang cg) gs (no @ [g], cx) = Inr ((no @ [g]) @ un, cx')" "fine f q cx'"
      "mset gs = mset placed + mset un"
      "assigned Pending_Demand (cx_nodes cx') = assigned Pending_Demand (cx_nodes cx) + mset (concat (map gang_requests placed))"
      "assigned Cluster_Resource_Constraint (cx_nodes cx') = assigned Cluster_Resource_Constraint (cx_nodes cx)"
      using Cons.IH [OF Cons.prems(1) gs, of "no @ [g]"] by blast
    show ?thesis
      by (intro exI [of _ placed] exI [of _ "g # un"] exI [of _ cx']) (use step False IH in simp)
  qed
qed


subsection \<open>Idle termination\<close>

lemma idle_loop_head: "head_safe ns \<Longrightarrow> head_safe (idle_loop cx sh stopped ns)"
  by (induction cx sh stopped ns rule: idle_loop.induct) (auto simp: Let_def head_safe_def idle_too_long_def)

lemma idle_loop_idle:
  "m \<in> set (idle_loop cx sh stopped ns) \<Longrightarrow> m \<in> set ns \<or>
    (\<exists>n\<in>set ns. m = terminate_node Idle None None (Some (sn_idle_ms n)) n \<and> idle_too_long cx n)"
  by (induction cx sh stopped ns rule: idle_loop.induct) (auto simp: Let_def split: if_splits)

definition min_count :: "sched_context \<Rightarrow> string \<Rightarrow> int" where
  "min_count cx t = (case map_of (cx_configs cx) t of Some c \<Rightarrow> nc_min_workers c | None \<Rightarrow> 0)"

lemma cluster_shape_simps [simp]:
  "cluster_shape [] t = 0" "cluster_shape (n # ns) t = (if sn_type n = t \<and> \<not> terminating n then 1 else 0) + cluster_shape ns t"
  by (simp_all add: cluster_shape_def)

lemma idle_loop_stops:
  "int (cluster_shape (idle_loop cx sh stopped ns) t) \<ge>
     min (int (cluster_shape ns t)) (min_count cx t - int (sh t) + int (dict_get stopped t 0) + int (cluster_shape ns t))"
proof (induction ns arbitrary: stopped)
  case (Cons n ns)
  show ?case
  proof (cases "idle_too_long cx n \<and> \<not> int (sh (sn_type n)) - int (dict_get stopped (sn_type n) 0) \<le> min_count cx (sn_type n)")
    case False
    then have "idle_loop cx sh stopped (n # ns) = n # idle_loop cx sh stopped ns" by (auto simp: Let_def min_count_def)
    then show ?thesis using Cons [of stopped] by auto
  next
    case True
    let ?stopped = "AList.update (sn_type n) (dict_get stopped (sn_type n) 0 + 1) stopped"
    have step: "idle_loop cx sh stopped (n # ns) =
        terminate_node Idle None None (Some (sn_idle_ms n)) n # idle_loop cx sh ?stopped ns"
      using True by (auto simp: Let_def min_count_def)
    have "\<not> terminating n" using True by (simp add: idle_too_long_def terminating_def)
    then show ?thesis using True Cons [of ?stopped] unfolding step by (cases "sn_type n = t") auto
  qed
qed simp

lemma idle_keeps_minimum:
  "int (cluster_shape (cx_nodes (enforce_idle_termination cx)) t) \<ge> min (int (cluster_shape (cx_nodes cx) t)) (min_count cx t)"
  using idle_loop_stops [where cx = cx and sh = "cluster_shape (cx_nodes cx)" and stopped = "[]" and ns = "cx_nodes cx" and t = t]
  by (simp add: enforce_idle_termination_def dict_get_def)

text \<open>When a worker may go.\<close>

definition unneeded :: "sched_context \<Rightarrow> sched_node \<Rightarrow> bool" where
  "unneeded cx n \<longleftrightarrow> sn_kind n \<noteq> HEAD \<and> sn_status n = Schedulable \<and> (\<forall>src. get_sched_requests src n = []) \<and>
     (\<exists>s. s * 1000 < of_int (sn_idle_ms n) \<and>
        ((\<exists>c. map_of (cx_configs cx) (sn_type n) = Some c \<and> nc_idle_timeout_s c = Some s) \<or>
         (\<forall>c. map_of (cx_configs cx) (sn_type n) = Some c \<longrightarrow> nc_idle_timeout_s c = None) \<and> cx_idle_timeout_s cx = Some s))"

lemma idle_too_long_iff: "idle_too_long cx n \<longleftrightarrow> unneeded cx n"
proof -
  have "(\<forall>src. get_sched_requests src n = []) \<longleftrightarrow> sn_requests_demand n = [] \<and> sn_requests_constraint n = []"
    by (metis get_sched_requests_def request_source.exhaust request_source.simps(3,4))
  then show ?thesis
    unfolding idle_too_long_def unneeded_def idle_timeout_def not_le by (auto split: option.splits)
qed

lemma idle_loop_exact:
  "list_all2 (\<lambda>n m. m = n \<and> (unneeded cx n \<longrightarrow> int (sh (sn_type n)) - int (dict_get stopped (sn_type n) 0) +
       int (cluster_shape (idle_loop cx sh stopped ns) (sn_type n)) - int (cluster_shape ns (sn_type n)) \<le> min_count cx (sn_type n)) \<or>
     unneeded cx n \<and> m = terminate_node Idle None None (Some (sn_idle_ms n)) n) ns (idle_loop cx sh stopped ns)"
proof (induction ns arbitrary: stopped)
  case (Cons n ns)
  have le: "cluster_shape (idle_loop cx sh stopped ns) t \<le> cluster_shape ns t" for stopped ns t
    by (induction ns arbitrary: stopped) (auto simp: Let_def intro: le_SucI)
  show ?case
  proof (cases "unneeded cx n \<and> \<not> int (sh (sn_type n)) - int (dict_get stopped (sn_type n) 0) \<le> min_count cx (sn_type n)")
    case False
    then have step: "idle_loop cx sh stopped (n # ns) = n # idle_loop cx sh stopped ns"
      by (auto simp: Let_def min_count_def idle_too_long_iff)
    show ?thesis using Cons [of stopped] False le [of stopped ns "sn_type n"] unfolding step by (auto elim!: list_all2_mono)
  next
    case True
    let ?stopped = "AList.update (sn_type n) (dict_get stopped (sn_type n) 0 + 1) stopped"
    have step: "idle_loop cx sh stopped (n # ns) =
        terminate_node Idle None None (Some (sn_idle_ms n)) n # idle_loop cx sh ?stopped ns"
      using True by (auto simp: Let_def min_count_def idle_too_long_iff)
    have "\<not> terminating n" using True by (simp add: unneeded_def terminating_def)
    then show ?thesis using True Cons [of ?stopped] unfolding step by (auto elim!: list_all2_mono)
  qed
qed simp

lemma idle_fine:
  assumes "settled cx"
  shows "settled (enforce_idle_termination cx)"
    "assigned src (cx_nodes (enforce_idle_termination cx)) = assigned src (cx_nodes cx)"
proof -
  let ?ns = "idle_loop cx (cluster_shape (cx_nodes cx)) [] (cx_nodes cx)"
  have e: "enforce_idle_termination cx = context_update ?ns cx" by (simp add: enforce_idle_termination_def)
  note m = marked_counts [OF idle_loop_marked [of "cx_nodes cx" cx "cluster_shape (cx_nodes cx)" "[]"]]
  have "int (workers t ?ns) \<le> nc_max_workers c" if "map_of (cx_configs cx) t = Some c" for t c
  proof -
    have "int (workers t (cx_nodes cx)) \<le> nc_max_workers c" using assms that unfolding settled_def within_type_limits_def by blast
    then show ?thesis using m(2) [of t] by linarith
  qed
  moreover have "int (live ?ns) \<le> M" if "cx_max_nodes cx = Some M" "0 < M" for M
  proof -
    have "int (live (cx_nodes cx)) \<le> M" using assms that unfolding settled_def within_max_nodes_def by blast
    then show ?thesis using m(3) by linarith
  qed
  moreover have "head_safe ?ns" using assms by (intro idle_loop_head) (simp add: settled_def)
  moreover have "terminating n \<or> map_of (cx_configs cx) (sn_type n) \<noteq> None" if "n \<in> set ?ns" for n
    using idle_loop_idle [OF that] assms by (auto simp: settled_def)
  ultimately show "settled (enforce_idle_termination cx)"
    by (simp add: e settled_def within_type_limits_def within_max_nodes_def)
  show "assigned src (cx_nodes (enforce_idle_termination cx)) = assigned src (cx_nodes cx)"
    by (rule idle.keeps_requests) simp
qed

subsection \<open>The first context\<close>

lemma assigned_nil: "(\<And>n. n \<in> set ns \<Longrightarrow> get_sched_requests src n = []) \<Longrightarrow> assigned src ns = {#}"
  by (induction ns) auto

lemma new_node_requests [simp]: "get_sched_requests src (new_node ty tot av lb st iid ist rid idle hash kind tr prio) = []"
  by (cases src) (simp_all add: new_node_def get_sched_requests_def)

lemma from_node_config_requests [simp]: "get_sched_requests src (from_node_config c st k iid ist) = []"
  by (simp add: from_node_config_def)

lemma attach_ippr_requests [simp]: "get_sched_requests src (attach_ippr q a n) = get_sched_requests src n"
  by (cases src) (auto simp: attach_ippr_def get_sched_requests_def split: option.splits)

lemma limits_no_requests:
  assumes "schedule_limits q = Inr cx"
  shows "assigned src (cx_nodes cx) = {#}"
proof -
  let ?c0 = "from_schedule_request q"
  let ?c1 = "terminate_outdated_nodes ?c0"
  let ?c2 = "enforce_min_workers_per_type ?c1"
  obtain c3 where c3: "enforce_max_workers_per_type ?c2 = Inr c3" "enforce_max_workers_global c3 = Inr cx"
    by (rule limits_steps [OF assms])
  have z: "get_sched_requests src n = []" if n0: "n \<in> set (cx_nodes ?c0)" for n
  proof -
    obtain m i where m: "m \<in> set (request_nodes q)" "n = m\<lparr>sn_ref := i\<rparr>" by (rule context_node_origin [OF n0])
    obtain a k where k: "sched_node_new a (sq_configs q) (sq_disable_check q) = Some k" "m = attach_ippr q a k"
      by (rule request_node_origin [OF m(1)])
    have "get_sched_requests src k = []" using k(1)
      by (auto simp: sched_node_new_def Let_def split: option.splits if_splits)
    then have "get_sched_requests src m = []" using k(2) by simp
    then show ?thesis using m(2) by (cases src) (simp_all add: get_sched_requests_def)
  qed
  have "assigned src (cx_nodes ?c1) = {#}" using outdated.keeps_requests [of ?c0 ?c1 src] assigned_nil z by simp
  moreover obtain new where new: "cx_nodes ?c2 = new @ cx_nodes ?c1"
    "\<forall>n\<in>set new. \<exists>c. n = (from_node_config c To_Launch WORKER None None)\<lparr>sn_ref := sn_ref n\<rparr>"
    using min_workers_new unfolding enforce_min_workers_per_type_def Let_def context_update_simps by blast
  moreover have "get_sched_requests src n = []" if n: "n \<in> set new" for n
  proof -
    have "get_sched_requests src (m\<lparr>sn_ref := i\<rparr>) = get_sched_requests src m" for m i by (cases src) (simp_all add: get_sched_requests_def)
    then show ?thesis using new(2) n from_node_config_requests by metis
  qed
  ultimately have "assigned src (cx_nodes ?c2) = {#}" by (simp add: assigned_nil)
  then show ?thesis using per_type.keeps_requests [OF c3(1)] overall.keeps_requests [OF c3(2)] by simp
qed


subsection \<open>Scheduling\<close>

lemma limits_step:
  assumes "sane f q"
  obtains cx where "schedule_limits q = Inr cx" "fine f q cx" "\<forall>src. assigned src (cx_nodes cx) = {#}"
proof -
  have s: "ctx_good f (demands q) (from_schedule_request q)" "types_known q" "head_instances q \<le> 1" "\<forall>m. sq_max_nodes q = Some m \<longrightarrow> 0 \<le> m"
    using assms by (simp_all add: sane_def)
  then have "configs_ok (sq_configs q)" by (simp add: ctx_good_def configs_good_def from_schedule_request_nodes)
  from schedule_limits_ok [OF this s(2-4)] obtain cx where cx: "schedule_limits q = Inr cx" "settled cx"
    "cx_configs cx = sq_configs q" "cx_max_nodes cx = sq_max_nodes q" unfolding settled_def by auto
  then have "fine f q cx" using ctx_good_limits [OF s(1) cx(1)] by (simp add: fine_def)
  then show thesis using that cx(1) limits_no_requests [OF cx(1)] by blast
qed

lemma schedule_ok:
  assumes "sane f q"
  shows "\<exists>reply cx placed cx3. schedule cg q = Inr (reply, cx) \<and> settled cx \<and> cx_configs cx = sq_configs q \<and> cx_max_nodes cx = sq_max_nodes q \<and>
    cx = enforce_idle_termination cx3 \<and> sy_to_terminate reply = get_terminate_requests cx \<and> sy_to_launch reply = get_launch_requests cx \<and>
    mset (sq_gang_requests q) = mset placed + mset (sy_infeasible_gangs reply) \<and>
    assigned Pending_Demand (cx_nodes cx) + mset (sy_infeasible_requests reply) =
      mset (ungroup_by_count (sq_resource_requests q)) + mset (concat (map gang_requests placed)) \<and>
    sy_infeasible_constraints reply \<in> {[], sq_constraints q} \<and>
    assigned Cluster_Resource_Constraint (cx_nodes cx) + mset (concat (map ungroup_by_count (sy_infeasible_constraints reply))) =
      mset (concat (map ungroup_by_count (sq_constraints q)))"
proof -
  obtain cx0 where c0: "schedule_limits q = Inr cx0" "fine f q cx0" "\<forall>src. assigned src (cx_nodes cx0) = {#}"
    by (rule limits_step [OF assms])
  obtain un1 cx1 where c1: "enforce_resource_constraints cg (sq_constraints q) cx0 = Inr (un1, cx1)" "fine f q cx1"
    "assigned Pending_Demand (cx_nodes cx1) = assigned Pending_Demand (cx_nodes cx0)"
    "un1 = sq_constraints q \<and> cx1 = cx0 \<or> un1 = [] \<and> assigned Cluster_Resource_Constraint (cx_nodes cx1) =
       assigned Cluster_Resource_Constraint (cx_nodes cx0) + mset (concat (map ungroup_by_count (sq_constraints q)))"
    by (rule constraints_step [OF c0(2) assms])
  have "set (sorted_desc gang_key (sq_gang_requests q)) \<subseteq> set (sq_gang_requests q)" by simp
  from gangs_step [OF c1(2) assms this, of cg "[]"] obtain placed un2 cx2 where
    c2: "sched_gang_resource_requests cg (sq_gang_requests q) cx1 = Inr (un2, cx2)" "fine f q cx2"
    "mset (sq_gang_requests q) = mset placed + mset un2"
    "assigned Pending_Demand (cx_nodes cx2) = assigned Pending_Demand (cx_nodes cx1) + mset (concat (map gang_requests placed))"
    "assigned Cluster_Resource_Constraint (cx_nodes cx2) = assigned Cluster_Resource_Constraint (cx_nodes cx1)"
    unfolding sched_gang_resource_requests_def mset_sorted_desc append_Nil by blast
  have "set (ungroup_by_count (sq_resource_requests q)) \<subseteq> set (demands q)" by (auto simp: demands_def)
  from request_step [OF c2(2) assms this, of cg Pending_Demand] obtain ns un3 where
    c3: "try_schedule_requests cg cx2 (ungroup_by_count (sq_resource_requests q)) Pending_Demand = Inr (ns, un3)"
    "fine f q (context_update ns cx2)"
    "assigned Pending_Demand ns + mset un3 = assigned Pending_Demand (cx_nodes cx2) + mset (ungroup_by_count (sq_resource_requests q))"
    "\<forall>s. s \<noteq> Pending_Demand \<longrightarrow> assigned s ns = assigned s (cx_nodes cx2)" by metis
  let ?cx3 = "context_update ns cx2"
  have st: "settled ?cx3" "cx_configs ?cx3 = sq_configs q" "cx_max_nodes ?cx3 = sq_max_nodes q" using c3(2) by (simp_all add: fine_def)
  let ?cx = "enforce_idle_termination ?cx3"
  note idle = idle_fine [OF st(1)]
  have cfg: "cx_configs ?cx = sq_configs q" "cx_max_nodes ?cx = sq_max_nodes q" using st by (simp_all add: enforce_idle_termination_def)
  have pd: "assigned Pending_Demand (cx_nodes ?cx) + mset un3 =
      mset (ungroup_by_count (sq_resource_requests q)) + mset (concat (map gang_requests placed))"
    using idle(2) [of Pending_Demand] c3(3) c2(4) c1(3) c0(3) by (simp add: ac_simps)
  have "assigned Cluster_Resource_Constraint (cx_nodes ?cx) = assigned Cluster_Resource_Constraint (cx_nodes cx1)"
    using idle(2) [of Cluster_Resource_Constraint] c3(4) c2(5) by simp
  then have cc: "assigned Cluster_Resource_Constraint (cx_nodes ?cx) + mset (concat (map ungroup_by_count un1)) =
      mset (concat (map ungroup_by_count (sq_constraints q)))" "un1 \<in> {[], sq_constraints q}"
    using c1(4) c0(3) by auto
  show ?thesis
    by (intro exI [of _ placed] exI [of _ ?cx3] exI [of _ ?cx] exI [of _ "\<lparr>sy_to_launch = get_launch_requests ?cx, sy_to_ippr = get_ippr_requests ?cx,
        sy_to_terminate = get_terminate_requests ?cx, sy_cluster_resources = get_cluster_resources ?cx,
        sy_infeasible_requests = un3, sy_infeasible_gangs = un2, sy_infeasible_constraints = un1\<rparr>"] conjI)
      (use c0(1) c1(1) c2(1,3) c3(1) idle(1) cfg pd cc in \<open>simp_all add: schedule_def sched_resource_requests_def Let_def\<close>)
qed

text \<open>A node that is picked can take a request.\<close>

lemma plain_hopeless: "hopeless src rs n \<Longrightarrow> try_schedule_plain src rs n = Inr (rs, n)"
  by (induction rs) (simp_all add: hopeless_def try_schedule_one_False)

lemma best_node_loop_takes:
  assumes "\<forall>n\<in>set ns. good f RS n" and "requests_ok RS" and "set rs \<subseteq> set RS" and "\<forall>n\<in>set ns. hopeless src rs n"
  shows "best_node_loop cg src rs seen i ns = Inr []"
  using assms(1,4)
proof (induction ns arbitrary: seen i)
  case (Cons n ns)
  have b: "\<forall>r\<in>set rs. bundle_ok r" using assms(2,3) by (auto simp: requests_ok_def)
  have "try_schedule_loop src rs [] n = Inr (rs, n)"
    using try_schedule_loop_plain [OF b cache_ok_Nil] plain_hopeless Cons.prems(2) by simp
  moreover have "node_ok src n" using Cons.prems(1) by (simp add: good_def)
  then obtain sc where "compute_score cg src n = Inr sc" using compute_score_ok by blast
  ultimately have "try_schedule cg src rs n = Inr (rs, sc, n)" by (simp add: try_schedule_def)
  then show ?case using Cons by (simp add: Let_def)
qed simp

lemma best_node_takes:
  assumes "\<forall>n\<in>set ns. good f RS n" and "requests_ok RS" and "set rs \<subseteq> set RS" and "sched_best_node cg src cx rs ns = Inr (Some m, un, rest)"
  shows "\<exists>n\<in>set ns. \<exists>r\<in>set rs. can_schedule (sn_labels n) (get_available_resources src n) r"
proof (rule ccontr)
  assume "\<not> ?thesis"
  then have "best_node_loop cg src rs [] 0 ns = Inr []" by (intro best_node_loop_takes [OF assms(1-3)]) (auto simp: hopeless_def)
  then show False using assms(4) by (simp add: sched_best_node_def sorted_desc_def)
qed

subsection \<open>A small cluster\<close>

definition demo_config :: "string \<Rightarrow> int \<Rightarrow> node_type_config" where
  "demo_config t mx = \<lparr>nc_name = t, nc_min_workers = 0, nc_max_workers = mx, nc_idle_timeout_s = None, nc_priority = 0,
     nc_resources = [(''CPU'', 4)], nc_labels = [], nc_launch_hash = []\<rparr>"

definition demo_instance :: "string \<Rightarrow> string \<Rightarrow> node_kind \<Rightarrow> autoscaler_instance" where
  "demo_instance iid t kind = \<lparr>ai_cloud_id = Some iid,
     ai_ray_node = Some \<lparr>ry_total = [(''CPU'', 4)], ry_available = [(''CPU'', 4)], ry_labels = [], ry_dynamic_labels = [], ry_idle_ms = 0\<rparr>,
     ai_im_instance = Some \<lparr>inst_version = 0, inst_id = iid, inst_type = t, inst_status = RAY_RUNNING, inst_cloud_id = iid,
       inst_node_kind = kind, inst_node_id = iid, inst_launch_request_id = [], inst_history = [], inst_launch_hash = []\<rparr>\<rparr>"

definition demo_sched :: "autoscaler_instance list \<Rightarrow> (string \<times> int) list \<Rightarrow> int option \<Rightarrow> (resource_request \<times> nat) list \<Rightarrow> sched_request" where
  "demo_sched instances types max_nodes requests =
     \<lparr>sq_disable_check = False, sq_configs = map (\<lambda>(t, mx). (t, demo_config t mx)) types, sq_max_nodes = max_nodes,
      sq_idle_timeout_s = Some 60, sq_resource_requests = requests, sq_gang_requests = [\<lparr>gr_bundle_selectors = [], gr_requests = [demo_request 2, demo_request 1]\<rparr>], sq_constraints = [],
      sq_instances = instances, sq_cloud_availability = [], sq_recoverable_availability = [], sq_ippr_specs = None,
      sq_ippr_statuses = []\<rparr>"

definition demo_cluster :: sched_request where
  "demo_cluster = demo_sched [demo_instance ''1'' ''head'' HEAD, demo_instance ''2'' ''cpu'' WORKER] [(''head'', 1), (''cpu'', 3)] (Some 3)
     [(demo_request 3, 4)]"

lemma demo_good: "good f RS (new_node t [(''CPU'', 4)] [(''CPU'', 4)] [] st iid ist rid idle h k None p)" if "\<forall>r\<in>set RS. anti_affinities r = []"
proof -
  have "node_ok src (new_node t [(''CPU'', 4)] [(''CPU'', 4)] [] st iid ist rid idle h k None p)" for src
    by (cases src) (auto simp: node_ok_def res_ok_def new_node_def source_defs amount_def dict_get_def nonneg_def split: if_splits)
  then show ?thesis using that by (simp add: good_def dicts_ok_def label_consistent_def new_node_def)
qed

lemma good_ref [simp]: "good f RS (n\<lparr>sn_ref := i\<rparr>) = good f RS n"
  by (simp add: good_def dicts_ok_def node_ok_def get_available_resources_def cong: request_source.case_cong)

lemma demo_gang: "gang_bundles \<lparr>gr_bundle_selectors = [], gr_requests = [demo_request a, demo_request b]\<rparr> = Inr [demo_request a, demo_request b]"
  by (simp add: gang_bundles_def combine_requests_with_affinity_def group_affinity_def demo_request_def)

lemma demo_demands: "set (demands (demo_sched ins types mx [(demo_request 3, 4)])) \<subseteq> demo_request ` {1, 2, 3}"
  by (auto simp: demands_def demo_sched_def ungroup_by_count_def gang_requests_def demo_gang)

lemma demo_nodes: "cx_nodes (from_schedule_request demo_cluster) =
  [new_node ''head'' [(''CPU'', 4)] [(''CPU'', 4)] [] Schedulable (Some ''1'') (Some RAY_RUNNING) ''1'' 0 [] HEAD None 0,
   (new_node ''cpu'' [(''CPU'', 4)] [(''CPU'', 4)] [] Schedulable (Some ''2'') (Some RAY_RUNNING) ''2'' 0 [] WORKER None 0)\<lparr>sn_ref := 1\<rparr>]"
  by code_simp

lemma demo_sane: "sane (\<lambda>_. []) demo_cluster"
proof -
  let ?q = demo_cluster
  have d: "set (demands ?q) \<subseteq> demo_request ` {1, 2, 3}" unfolding demo_cluster_def by (rule demo_demands)
  then have aa: "\<forall>r\<in>set (demands ?q). anti_affinities r = []" by (auto simp: demo_request_ok)
  have "\<forall>n\<in>set (cx_nodes (from_schedule_request ?q)). good (\<lambda>_. []) (demands ?q) n" using demo_good [OF aa] by (simp add: demo_nodes)
  moreover have "cids (cx_nodes (from_schedule_request ?q)) = []" by (simp add: demo_nodes cids_def cid_def)
  moreover have "configs_good (\<lambda>_. []) (demands ?q) (sq_configs ?q)"
    using aa by (auto simp: configs_good_def configs_ok_def config_good_def config_ok_def demo_cluster_def demo_sched_def demo_config_def nonneg_def
        label_consistent_def split: if_splits)
  moreover have "cx_available (from_schedule_request ?q) = compute_available_node_types (cx_nodes (from_schedule_request ?q)) (sq_configs ?q)"
    by (simp add: from_schedule_request_def Let_def)
  ultimately have "ctx_good (\<lambda>_. []) (demands ?q) (from_schedule_request ?q)" by (simp add: ctx_good_def from_schedule_request_nodes(2))
  moreover have "requests_ok (demands ?q)" using d by (auto simp: requests_ok_def intro!: demo_request_ok)
  moreover have "types_known ?q" "head_instances ?q \<le> 1"
    by (auto simp: types_known_def head_instances_def demo_cluster_def demo_sched_def demo_instance_def)
  ultimately show ?thesis by (auto simp: sane_def demo_cluster_def demo_sched_def demo_gang)
qed

subsection \<open>Properties\<close>

text \<open>C7: On a sane request \<open>schedule\<close> returns: no assertion fails and no key is missing. In the cluster it plans,
  the workers of no type exceed the configured maximum, the nodes that stay or are launched do not
  exceed a positive \<open>max_num_nodes\<close>, and the head node is never terminated.\<close>

theorem schedule_within_limits:
  assumes "sane f q"
  shows "\<exists>reply cx. schedule cg q = Inr (reply, cx) \<and>
    (\<forall>t c. map_of (sq_configs q) t = Some c \<longrightarrow> int (workers t (cx_nodes cx)) \<le> nc_max_workers c) \<and>
    (\<forall>m. sq_max_nodes q = Some m \<longrightarrow> 0 < m \<longrightarrow> int (live (cx_nodes cx)) \<le> m) \<and>
    (\<forall>n\<in>set (cx_nodes cx). sn_kind n = HEAD \<longrightarrow> \<not> terminating n \<and> sn_termination n = None)"
proof -
  obtain reply cx where s: "schedule cg q = Inr (reply, cx)" "settled cx" "cx_configs cx = sq_configs q" "cx_max_nodes cx = sq_max_nodes q"
    using schedule_ok [OF assms, of cg] by blast
  show ?thesis
    by (intro exI [of _ reply] exI [of _ cx] conjI s(1))
      (use s(2-4) in \<open>simp_all add: settled_def within_type_limits_def within_max_nodes_def head_safe_def\<close>)
qed

text \<open>C8: Every demand is accounted for exactly once. On a sane request \<open>schedule\<close> returns, and afterwards the
  pending requests held by the planned nodes, together with the infeasible ones of the reply, are the
  requested ones plus those of the gangs that are not reported infeasible: a gang is placed completely
  or not at all. The requests placed for a gang stand for its bundles as they were requested, each in
  exactly one of them: a placed request is such a bundle, or has one affinity label and adds up, for
  every resource, the amounts of bundles with this affinity and equal label selectors. The one
  exception are bundles whose placement constraint sets neither affinity nor anti-affinity, which are
  dropped. The cluster resource constraint is either held by the nodes or reported as infeasible.\<close>

theorem schedule_places_once:
  assumes "sane f q"
  shows "\<exists>reply cx placed requests. schedule cg q = Inr (reply, cx) \<and>
    mset (sq_gang_requests q) = mset placed + mset (sy_infeasible_gangs reply) \<and>
    list_all2 (\<lambda>g. places_bundles (filter (\<lambda>b. \<not> empty_constraint b) (gang_members g))) placed requests \<and>
    assigned Pending_Demand (cx_nodes cx) + mset (sy_infeasible_requests reply) =
      mset (ungroup_by_count (sq_resource_requests q)) + mset (concat requests) \<and>
    sy_infeasible_constraints reply \<in> {[], sq_constraints q} \<and>
    assigned Cluster_Resource_Constraint (cx_nodes cx) + mset (concat (map ungroup_by_count (sy_infeasible_constraints reply))) =
      mset (concat (map ungroup_by_count (sq_constraints q)))"
proof -
  obtain reply cx placed where s: "schedule cg q = Inr (reply, cx)" "mset (sq_gang_requests q) = mset placed + mset (sy_infeasible_gangs reply)"
    "assigned Pending_Demand (cx_nodes cx) + mset (sy_infeasible_requests reply) =
      mset (ungroup_by_count (sq_resource_requests q)) + mset (concat (map gang_requests placed))"
    "sy_infeasible_constraints reply \<in> {[], sq_constraints q}"
    "assigned Cluster_Resource_Constraint (cx_nodes cx) + mset (concat (map ungroup_by_count (sy_infeasible_constraints reply))) =
      mset (concat (map ungroup_by_count (sq_constraints q)))"
    using schedule_ok [OF assms, of cg] by blast
  have "set placed \<subseteq> set (sq_gang_requests q)" using s(2) by (metis mset_subset_eq_add_left set_mset_mono set_mset_mset)
  from gangs_placed [OF assms this] s show ?thesis by blast
qed

text \<open>C14: Idle termination is safe and complete. It only terminates workers that can be scheduled, hold neither
  pending requests nor parts of the cluster constraint, and have been idle for longer than the timeout
  of their node type or, where the type has none, that of the cluster. Such a worker is only kept when
  its type has no more nodes left than its configured minimum, and of each type the minimum is left,
  or all nodes when there are fewer.\<close>

theorem idle_termination_safe:
  "list_all2 (\<lambda>n m.
       m = n \<and> (unneeded cx n \<longrightarrow> int (cluster_shape (cx_nodes (enforce_idle_termination cx)) (sn_type n)) \<le> min_count cx (sn_type n)) \<or>
       unneeded cx n \<and> m = terminate_node Idle None None (Some (sn_idle_ms n)) n)
     (cx_nodes cx) (cx_nodes (enforce_idle_termination cx)) \<and>
   min (int (cluster_shape (cx_nodes cx) t)) (min_count cx t) \<le> int (cluster_shape (cx_nodes (enforce_idle_termination cx)) t)"
proof
  show "list_all2 (\<lambda>n m.
       m = n \<and> (unneeded cx n \<longrightarrow> int (cluster_shape (cx_nodes (enforce_idle_termination cx)) (sn_type n)) \<le> min_count cx (sn_type n)) \<or>
       unneeded cx n \<and> m = terminate_node Idle None None (Some (sn_idle_ms n)) n)
     (cx_nodes cx) (cx_nodes (enforce_idle_termination cx))"
    using idle_loop_exact [where cx = cx and sh = "cluster_shape (cx_nodes cx)" and stopped = "[]" and ns = "cx_nodes cx"]
    by (simp add: enforce_idle_termination_def dict_get_def)
qed (rule idle_keeps_minimum)

text \<open>C15: Packing keeps the context well formed: for well-formed requests it returns, and in the context it leads
  to every node again has available resources between zero and its totals for both kinds of demand,
  dictionaries without duplicate keys and consistent labels.\<close>

theorem packing_keeps_context:
  assumes "ctx_good f RS cx" and "requests_ok RS" and "set requests \<subseteq> set RS"
  shows "\<exists>ns rs'. try_schedule_requests cg cx requests src = Inr (ns, rs') \<and> ctx_good f RS (context_update ns cx)"
proof -
  obtain E L rs' where "try_schedule_requests cg cx requests src = Inr (E @ L, rs')" "extends src cx E L" "\<forall>n\<in>set (E @ L). good f RS n"
    using try_schedule_requests_ok [OF assms, of cg src] by blast
  then show ?thesis using extends_good assms(1) by blast
qed

text \<open>C16: Skipping nodes whose state has been seen is an optimisation only: \<open>_sched_best_node\<close> reports that no node
  fits exactly when no node of the list, skipped or not, can take any of the requests.\<close>

theorem best_node_complete:
  assumes "\<forall>n\<in>set ns. good f RS n" and "requests_ok RS" and "set rs \<subseteq> set RS"
  shows "sched_best_node cg src cx rs ns = Inr (None, rs, ns) \<longleftrightarrow>
    (\<forall>n\<in>set ns. \<forall>r\<in>set rs. \<not> can_schedule (sn_labels n) (get_available_resources src n) r)"
  using assms
proof (cases rule: sched_best_node_ok [where cg = cg and src = src and cx = cx])
  case none
  then show ?thesis by (simp add: hopeless_def)
next
  case (best m j placed un)
  then show ?thesis using best_node_takes [OF assms best(1)] by auto
qed

theorem schedule_within_limits_witness:
  "\<exists>reply cx. schedule True demo_cluster = Inr (reply, cx) \<and> int (live (cx_nodes cx)) \<le> 3"
  using schedule_within_limits [OF demo_sane, of True] by (auto simp: demo_cluster_def demo_sched_def)

theorem schedule_places_once_witness:
  "\<exists>reply cx requests. schedule True demo_cluster = Inr (reply, cx) \<and>
    assigned Pending_Demand (cx_nodes cx) + mset (sy_infeasible_requests reply) = mset (replicate 4 (demo_request 3)) + mset (concat requests)"
proof -
  have "ungroup_by_count (sq_resource_requests demo_cluster) = replicate 4 (demo_request 3)"
    by (simp add: demo_cluster_def demo_sched_def ungroup_by_count_def)
  moreover obtain reply cx requests where "schedule True demo_cluster = Inr (reply, cx)"
    "assigned Pending_Demand (cx_nodes cx) + mset (sy_infeasible_requests reply) =
      mset (ungroup_by_count (sq_resource_requests demo_cluster)) + mset (concat requests)"
    using schedule_places_once [OF demo_sane, of True] by (elim exE conjE)
  ultimately show ?thesis by auto
qed

definition demo_worker :: sched_node where
  "demo_worker = new_node ''cpu'' [(''CPU'', 4)] [(''CPU'', 4)] [] Schedulable (Some ''2'') (Some RAY_RUNNING) ''2'' 1500 [] WORKER None 0"

definition demo_idle :: sched_context where
  "demo_idle = (from_schedule_request demo_cluster)\<lparr>cx_idle_timeout_s := Some 1, cx_nodes := [demo_worker]\<rparr>"

theorem idle_termination_safe_witness:
  "unneeded demo_idle demo_worker \<and> min_count demo_idle ''cpu'' = 0 \<and> cx_nodes demo_idle = [demo_worker] \<and>
   cx_nodes (enforce_idle_termination demo_idle) = [terminate_node Idle None None (Some 1500) demo_worker]"
proof -
  have w: "sn_type demo_worker = ''cpu''" "sn_idle_ms demo_worker = 1500" "\<not> terminating demo_worker" "cx_nodes demo_idle = [demo_worker]"
    by (simp_all add: demo_idle_def demo_worker_def new_node_def terminating_def)
  have "idle_too_long demo_idle demo_worker" by code_simp
  then have u: "unneeded demo_idle demo_worker" by (simp add: idle_too_long_iff)
  have m: "min_count demo_idle ''cpu'' = 0" by code_simp
  obtain x where x: "cx_nodes (enforce_idle_termination demo_idle) = [x]"
    "x = demo_worker \<and> int (cluster_shape [x] ''cpu'') \<le> 0 \<or> x = terminate_node Idle None None (Some 1500) demo_worker"
    using idle_termination_safe [of demo_idle, THEN conjunct1] u m w(1,2) unfolding w(4) list_all2_Cons1 by auto
  then have "x = terminate_node Idle None None (Some 1500) demo_worker" using w(1,3) by auto
  then show ?thesis using u m w(4) x(1) by simp
qed

theorem packing_keeps_context_witness:
  "\<exists>ns rs'. try_schedule_requests True (from_schedule_request demo_cluster) (demands demo_cluster) Pending_Demand = Inr (ns, rs') \<and>
    ctx_good (\<lambda>_. []) (demands demo_cluster) (context_update ns (from_schedule_request demo_cluster))"
proof -
  have "ctx_good (\<lambda>_. []) (demands demo_cluster) (from_schedule_request demo_cluster)" "requests_ok (demands demo_cluster)"
    using demo_sane by (simp_all add: sane_def)
  from packing_keeps_context [OF this subset_refl] show ?thesis .
qed

theorem best_node_complete_witness:
  "sched_best_node True Pending_Demand (from_schedule_request demo_cluster) [demo_request 5] (cx_nodes (from_schedule_request demo_cluster)) =
    Inr (None, [demo_request 5], cx_nodes (from_schedule_request demo_cluster))"
proof -
  have "\<forall>n\<in>set (cx_nodes (from_schedule_request demo_cluster)). good (\<lambda>_. []) [demo_request 5] n"
    using demo_good [of "[demo_request 5]"] by (simp add: demo_nodes demo_request_ok)
  moreover have "requests_ok [demo_request 5]" by (simp add: requests_ok_def demo_request_ok)
  moreover have "\<not> can_schedule (sn_labels n) (get_available_resources Pending_Demand n) (demo_request 5)"
    if "n \<in> set (cx_nodes (from_schedule_request demo_cluster))" for n
    using that by (auto simp: demo_nodes can_schedule_def demo_request_def new_node_def get_available_resources_def fits_def dict_get_def)
  ultimately show ?thesis
    using best_node_complete [of "cx_nodes (from_schedule_request demo_cluster)" "\<lambda>_. []" "[demo_request 5]" "[demo_request 5]" True
        Pending_Demand "from_schedule_request demo_cluster"] by simp
qed


definition demo_outdated :: sched_request where
  "demo_outdated = (demo_sched [demo_instance ''1'' ''cpu'' WORKER] [] None [(demo_request 3, 1)])
     \<lparr>sq_configs := [(''cpu'', (demo_config ''cpu'' 3)\<lparr>nc_launch_hash := ''new''\<rparr>)], sq_gang_requests := []\<rparr>"

text \<open>Requests are packed onto nodes that are being terminated. With one outdated node, a request for 3 CPUs and
  room for three nodes, \<open>schedule\<close> terminates the node, counts the request as placed on it and launches
  nothing.\<close>

lemma terminated_node_takes_request:
  "map_sum id (\<lambda>(r, cx). (sy_to_launch r, map tr_cause (sy_to_terminate r), sy_infeasible_requests r,
       map (\<lambda>n. (sn_status n, sn_requests_demand n)) (cx_nodes cx))) (schedule True demo_outdated) =
     Inr ([], [Outdated], [], [(To_Terminate, [demo_request 3])])"
  by code_simp

definition demo_alias :: sched_request where
  "demo_alias = (demo_sched (map (\<lambda>i. demo_instance i ''B'' WORKER) [''1'', ''2'', ''3'', ''4'', ''5'']) [] (Some 6) [])
     \<lparr>sq_configs := [(''A'', (demo_config ''A'' 5)\<lparr>nc_min_workers := 2\<rparr>), (''B'', demo_config ''B'' 9)], sq_gang_requests := []\<rparr>"

text \<open>The nodes added for a minimal number of workers are one object several times. With five running nodes, a
  minimum of two more and at most six nodes, one of the two has to go; \<open>schedule\<close> marks both, asks to
  terminate two instances without an id and plans five nodes although six are allowed.\<close>

lemma min_workers_share_one_object:
  "map_sum id (\<lambda>(r, cx). (sy_to_launch r, map (\<lambda>t. (tr_cause t, tr_instance_id t, tr_instance_type t)) (sy_to_terminate r), live (cx_nodes cx)))
     (schedule True demo_alias) =
   Inr ([], [(Max_Num_Nodes, None, ''A''), (Max_Num_Nodes, None, ''A'')], 5)"
  by code_simp

end
