(* ===== verification/Reconciler.thy ===== *)
theory Reconciler
  imports Instance_Manager Sched_Pack
begin

section \<open>Autoscaler v2: the reconciler\<close>

text \<open>
  Models \<open>Reconciler\<close> of \<open>ray/python/ray/autoscaler/v2/instance_manager/reconciler.py\<close>. A handler reads the
  instances and computes a dict of update events, which the instance manager applies under the
  version that was read; \<open>reconcile\<close> runs the handlers in order. What the cloud provider, the Ray
  cluster and the installers report, the clock and the random ids are arguments. The texts of
  events and the metrics are left out.
\<close>

subsection \<open>What is observed\<close>

record cloud_instance =
  ci_id :: string
  ci_type :: string
  ci_kind :: node_kind
  ci_running :: bool

datatype provider_error = Launch_Node_Error string string | Terminate_Node_Error string

datatype node_status = NS_UNSPECIFIED | NS_RUNNING | NS_DEAD | NS_IDLE | NS_DRAINING

text \<open>The state of a Ray node, with the hexadecimal form of its id.\<close>

record node_state = ray_node +
  ns_node_id :: string
  ns_instance_id :: string
  ns_type_name :: string
  ns_status :: node_status

definition is_head_node :: "node_state \<Rightarrow> bool" where
  "is_head_node n \<longleftrightarrow> ''node:__internal_head__'' \<in> fst ` set (ry_total n)"

datatype provider = PROVIDER_UNKNOWN | ALIYUN | AWS | AZURE | GCP | KUBERAY | LOCAL | READ_ONLY

record reconcile_config =
  request_status_timeout_s :: int
  allocate_status_timeout_s :: int
  ray_install_status_timeout_s :: int
  terminating_status_timeout_s :: int
  ray_stop_requested_status_timeout_s :: int
  max_num_retry_request_to_allocate :: int

text \<open>The values that the getters of \<open>AutoscalingConfig\<close> return.\<close>

record autoscaling_config =
  ac_provider :: provider
  ac_configs :: "(string, node_type_config) dict"
  ac_max_num_nodes :: "int option"
  ac_idle_timeout_s :: "rat option"
  ac_disable_check :: bool
  ac_upscaling_speed :: rat
  ac_max_concurrent_launches :: int
  ac_disable_node_updaters :: bool
  ac_provider_types :: "(string, string) dict"
  ac_reconcile :: reconcile_config

definition get_provider_instance_type :: "autoscaling_config \<Rightarrow> string \<Rightarrow> string result" where
  "get_provider_instance_type config t =
     (if ac_provider config \<in> {AWS, ALIYUN, AZURE, GCP} then Inr (dict_get (ac_provider_types config) t [])
      else if ac_provider config \<in> {KUBERAY, LOCAL, PROVIDER_UNKNOWN} then Inr []
      else Inl (ValueError ''Unknown provider''))"

subsection \<open>Updates\<close>

type_synonym updates = "(string, update_event) dict"

definition event :: "string \<Rightarrow> instance_status \<Rightarrow> update_event" where
  "event iid st = \<lparr>upd_instance_id = iid, upd_new_status = st, upd_details = [], upd_upsert = False, upd_instance_type = [],
     upd_cloud_id = [], upd_node_kind = UNMANAGED, upd_ray_node_id = [], upd_launch_request_id = []\<rparr>"

definition add_event :: "inst \<Rightarrow> update_event \<Rightarrow> updates \<Rightarrow> updates" where
  "add_event i e = AList.update (inst_id i) e"

definition update_instance_manager ::
    "(inst \<Rightarrow> 'v) \<Rightarrow> ('v \<Rightarrow> inst) \<Rightarrow> string \<Rightarrow> int \<Rightarrow> int \<Rightarrow> updates \<Rightarrow> 'v mem_storage \<Rightarrow> (update_event list \<times> 'v mem_storage) result" where
  "update_instance_manager ser par cid now version updates s =
     (if updates = [] then Inr ([], s)
      else rbind (update_instance_manager_state ser par cid now
                    \<lparr>req_expected_version = version, req_updates = map snd updates\<rparr> s) (\<lambda>(reply, notified, s').
             if reply_code reply = STATUS_OK then Inr (notified, s')
             else Inl (AssertionError ''Failed to update instance manager'')))"

type_synonym handler = "inst list \<Rightarrow> updates result"

text \<open>A handler between reading the instances and writing its updates.\<close>

definition run_handler ::
    "(inst \<Rightarrow> 'v) \<Rightarrow> ('v \<Rightarrow> inst) \<Rightarrow> string \<Rightarrow> int \<Rightarrow> handler \<Rightarrow> update_event list \<times> 'v mem_storage \<Rightarrow>
     (update_event list \<times> 'v mem_storage) result" where
  "run_handler ser par cid now h = (\<lambda>(events, s).
     let (instances, version) = get_instance_manager_state par cid s
     in rbind (h instances) (\<lambda>updates.
          rbind (update_instance_manager ser par cid now version updates s) (\<lambda>(notified, s'). Inr (events @ notified, s'))))"

subsection \<open>Cloud instances\<close>

definition active_cloud_ids :: "inst list \<Rightarrow> string list" where
  "active_cloud_ids is = map inst_cloud_id (filter (\<lambda>i. inst_cloud_id i \<noteq> [] \<and> inst_status i \<notin> {TERMINATED, ALLOCATION_FAILED}) is)"

definition group_unassigned :: "(string, cloud_instance) dict \<Rightarrow> string list \<Rightarrow> (string, cloud_instance list) dict" where
  "group_unassigned cloud assigned =
     fold (\<lambda>(k, c) d. if k \<in> set assigned then d else AList.update (ci_type c) (dict_get d (ci_type c) [] @ [c]) d) cloud []"

definition launch_errors_of :: "provider_error list \<Rightarrow> (string, string) dict" where
  "launch_errors_of errors =
     dict_of (List.map_filter (\<lambda>e. case e of Launch_Node_Error rid t \<Rightarrow> Some (rid, t) | Terminate_Node_Error _ \<Rightarrow> None) errors)"

definition try_resolve_pending_allocation ::
    "inst \<Rightarrow> (string, cloud_instance list) dict \<Rightarrow> (string, string) dict \<Rightarrow>
     update_event option \<times> (string, cloud_instance list) dict" where
  "try_resolve_pending_allocation i unassigned launch_errors =
     (case dict_get unassigned (inst_type i) [] of
        [] \<Rightarrow> (if map_of launch_errors (inst_launch_request_id i) = Some (inst_type i)
              then Some (event (inst_id i) ALLOCATION_FAILED) else None, unassigned)
      | cs \<Rightarrow>
          (let c = last cs
           in (Some ((event (inst_id i) ALLOCATED)\<lparr>upd_cloud_id := ci_id c, upd_node_kind := ci_kind c, upd_instance_type := ci_type c\<rparr>),
               AList.update (inst_type i) (butlast cs) unassigned)))"

fun allocation_loop ::
    "(string, string) dict \<Rightarrow> inst list \<Rightarrow> (string, cloud_instance list) dict \<Rightarrow> updates \<Rightarrow> updates" where
  "allocation_loop launch_errors [] unassigned ups = ups"
| "allocation_loop launch_errors (i # is) unassigned ups =
     (case try_resolve_pending_allocation i unassigned launch_errors of
        (None, rest) \<Rightarrow> allocation_loop launch_errors is rest ups
      | (Some e, rest) \<Rightarrow> allocation_loop launch_errors is rest (add_event i e ups))"

definition handle_cloud_instance_allocation :: "(string, cloud_instance) dict \<Rightarrow> provider_error list \<Rightarrow> handler" where
  "handle_cloud_instance_allocation cloud errors instances =
     (let requested = filter (\<lambda>i. inst_status i = REQUESTED) instances
      in if list_ex (\<lambda>i. inst_launch_request_id i = []) requested
         then Inl (AssertionError ''Instance in REQUESTED status should have launch_request_id set.'')
         else Inr (allocation_loop (launch_errors_of errors)
                     (sort_key (\<lambda>i. get_status_transition_times_ns i (Some REQUESTED)) requested)
                     (group_unassigned cloud (active_cloud_ids instances)) []))"

definition handle_cloud_instance_terminated :: "(string, cloud_instance) dict \<Rightarrow> handler" where
  "handle_cloud_instance_terminated cloud instances =
     (let by_cloud_id = dict_of (map (\<lambda>i. (inst_cloud_id i, i))
                          (filter (\<lambda>i. inst_cloud_id i \<noteq> [] \<and> inst_status i \<noteq> TERMINATED) instances))
      in Inr (fold (\<lambda>(cid, i) ups.
                if cid \<in> fst ` set cloud then ups
                else add_event i ((event (inst_id i) TERMINATED)\<lparr>upd_cloud_id := cid\<rparr>) ups) by_cloud_id []))"

definition terminate_errors_of :: "provider_error list \<Rightarrow> (string, unit) dict" where
  "terminate_errors_of errors =
     dict_of (List.map_filter (\<lambda>e. case e of Terminate_Node_Error c \<Rightarrow> Some (c, ()) | Launch_Node_Error _ _ \<Rightarrow> None) errors)"

definition handle_cloud_instance_termination_errors :: "provider_error list \<Rightarrow> handler" where
  "handle_cloud_instance_termination_errors errors instances =
     (let terminating_by_cloud_id = dict_of (map (\<lambda>i. (inst_cloud_id i, i)) (filter (\<lambda>i. inst_status i = TERMINATING) instances))
      in Inr (fold (\<lambda>(cid, _) ups.
                case map_of terminating_by_cloud_id cid of
                  None \<Rightarrow> ups
                | Some i \<Rightarrow> add_event i (event (inst_id i) TERMINATION_FAILED) ups) (terminate_errors_of errors) []))"

text \<open>New instances for cloud instances that nobody manages; \<open>rid k\<close> is the random id drawn for the
  \<open>k\<close>-th element.\<close>

definition handle_extra_from_ray_nodes :: "(nat \<Rightarrow> string) \<Rightarrow> node_state list \<Rightarrow> handler" where
  "handle_extra_from_ray_nodes rid ray_nodes instances =
     (let managed_cloud = map inst_cloud_id (filter (\<lambda>i. inst_cloud_id i \<noteq> [] \<and> inst_node_id i = [] \<and>
                            inst_status i \<notin> {TERMINATED, ALLOCATION_FAILED}) instances);
          managed_nodes = map inst_node_id (filter (\<lambda>i. inst_node_id i \<noteq> []) instances)
      in Inr (fold (\<lambda>(k, n) ups.
                if ns_instance_id n = [] \<or> ns_node_id n \<in> set managed_nodes \<or> ns_instance_id n \<in> set managed_cloud then ups
                else AList.update (ns_node_id n)
                  ((event (rid k) ALLOCATED)\<lparr>upd_cloud_id := ns_instance_id n, upd_node_kind := (if is_head_node n then HEAD else WORKER),
                     upd_ray_node_id := ns_node_id n, upd_instance_type := ns_type_name n, upd_upsert := True\<rparr>) ups)
              (enumerate 0 ray_nodes) []))"

definition handle_extra_from_cloud_provider :: "(nat \<Rightarrow> string) \<Rightarrow> (string, cloud_instance) dict \<Rightarrow> handler" where
  "handle_extra_from_cloud_provider rid cloud instances =
     Inr (fold (\<lambda>(k, cid, c) ups.
            if cid \<in> set (active_cloud_ids instances) then ups
            else AList.update cid
              ((event (rid k) ALLOCATED)\<lparr>upd_cloud_id := cid, upd_node_kind := ci_kind c, upd_instance_type := ci_type c,
                 upd_upsert := True\<rparr>) ups)
          (enumerate 0 cloud) [])"

subsection \<open>Ray nodes\<close>

definition reconciled_im_status_from_ray_status :: "node_status \<Rightarrow> instance_status \<Rightarrow> instance_status result" where
  "reconciled_im_status_from_ray_status ray_status cur =
     rbind (case ray_status of
              NS_RUNNING \<Rightarrow> Inr RAY_RUNNING | NS_IDLE \<Rightarrow> Inr RAY_RUNNING | NS_DEAD \<Rightarrow> Inr RAY_STOPPED
            | NS_DRAINING \<Rightarrow> Inr RAY_STOPPING | NS_UNSPECIFIED \<Rightarrow> Inl (ValueError ''Unknown ray status'')) (\<lambda>st.
       Inr (if cur = st \<or> cur \<in> set (get_reachable_statuses st) then cur else st))"

definition find_im_instance ::
    "bool \<Rightarrow> (string, inst) dict \<Rightarrow> (string, inst) dict \<Rightarrow> node_state \<Rightarrow> inst option result" where
  "find_im_instance read_only by_node_id by_cloud_id n =
     (case map_of by_node_id (ns_node_id n) of
        Some i \<Rightarrow> Inr (Some i)
      | None \<Rightarrow>
          (if read_only then (case map_of by_cloud_id (ns_node_id n) of Some i \<Rightarrow> Inr (Some i) | None \<Rightarrow> Inl (KeyError (ns_node_id n)))
           else if ns_instance_id n \<noteq> []
           then (case map_of by_cloud_id (ns_instance_id n) of Some i \<Rightarrow> Inr (Some i) | None \<Rightarrow> Inl (KeyError (ns_instance_id n)))
           else Inr None))"

definition ray_status_update ::
    "bool \<Rightarrow> (string, inst) dict \<Rightarrow> (string, inst) dict \<Rightarrow> node_state \<Rightarrow> updates \<Rightarrow> updates result" where
  "ray_status_update read_only by_node_id by_cloud_id n ups =
     rbind (find_im_instance read_only by_node_id by_cloud_id n) (\<lambda>found.
       case found of
         None \<Rightarrow> Inr ups
       | Some i \<Rightarrow>
           rbind (reconciled_im_status_from_ray_status (ns_status n) (inst_status i)) (\<lambda>st.
             Inr (if st \<noteq> inst_status i
                  then AList.update (ns_node_id n)
                         ((event (inst_id i) st)\<lparr>upd_ray_node_id := ns_node_id n, upd_instance_type := inst_type i\<rparr>) ups
                  else ups)))"

definition handle_ray_status_transition :: "bool \<Rightarrow> node_state list \<Rightarrow> handler" where
  "handle_ray_status_transition read_only ray_nodes instances =
     (let by_cloud_id = dict_of (map (\<lambda>i. (inst_cloud_id i, i))
                          (filter (\<lambda>i. inst_cloud_id i \<noteq> [] \<and> inst_status i \<notin> {TERMINATED, ALLOCATION_FAILED}) instances));
          by_node_id = dict_of (map (\<lambda>i. (inst_node_id i, i)) (filter (\<lambda>i. inst_node_id i \<noteq> []) instances))
      in rfold (ray_status_update read_only by_node_id by_cloud_id) ray_nodes [])"

definition handle_ray_install_failed :: "string list \<Rightarrow> handler" where
  "handle_ray_install_failed install_errors instances =
     Inr (fold (\<lambda>i ups. if inst_id i \<in> set install_errors then add_event i (event (inst_id i) RAY_INSTALL_FAILED) ups else ups)
            (filter (\<lambda>i. inst_status i = RAY_INSTALLING) instances) [])"

definition stop_failed_update :: "string list \<Rightarrow> (string, node_state) dict \<Rightarrow> inst \<Rightarrow> updates \<Rightarrow> updates result" where
  "stop_failed_update stop_errors nodes i ups =
     (if inst_id i \<notin> set stop_errors then Inr ups
      else if inst_node_id i = [] then Inl (AssertionError ''instance.node_id'')
      else (case map_of nodes (inst_node_id i) of
              None \<Rightarrow> Inl (AssertionError ''There should be a running ray node'')
            | Some n \<Rightarrow>
                if ns_status n \<in> {NS_RUNNING, NS_IDLE}
                then Inr (add_event i ((event (inst_id i) RAY_RUNNING)\<lparr>upd_ray_node_id := inst_node_id i\<rparr>) ups)
                else Inl (AssertionError ''There should be a running ray node'')))"

definition handle_ray_stop_failed :: "string list \<Rightarrow> node_state list \<Rightarrow> handler" where
  "handle_ray_stop_failed stop_errors ray_nodes instances =
     rfold (stop_failed_update stop_errors (dict_of (map (\<lambda>n. (ns_node_id n, n)) ray_nodes)))
       (filter (\<lambda>i. inst_status i = RAY_STOP_REQUESTED) instances) []"

definition handle_missing_ray_nodes :: "node_state list \<Rightarrow> handler" where
  "handle_missing_ray_nodes ray_nodes instances =
     Inr (fold (\<lambda>i ups.
            if inst_node_id i \<in> ns_node_id ` set ray_nodes then ups
            else add_event i ((event (inst_id i) RAY_STOPPED)\<lparr>upd_ray_node_id := inst_node_id i, upd_instance_type := inst_type i\<rparr>) ups)
       (filter (\<lambda>i. inst_status i \<in> {RAY_RUNNING, RAY_STOP_REQUESTED, RAY_STOPPING} \<and> inst_node_kind i \<noteq> HEAD \<and> inst_node_id i \<noteq> [])
         instances) [])"


subsection \<open>Stuck instances\<close>

definition handle_stuck_requested_instance :: "int \<Rightarrow> int \<Rightarrow> int \<Rightarrow> inst \<Rightarrow> update_event option result" where
  "handle_stuck_requested_instance now timeout_s max_retry i =
     rbind (has_timeout now i timeout_s) (\<lambda>late.
       Inr (if \<not> late then None
            else if int (length (get_status_transition_times_ns i (Some REQUESTED))) > max_retry
            then Some (event (inst_id i) ALLOCATION_FAILED)
            else Some (event (inst_id i) QUEUED)))"

definition handle_stuck_instance :: "int \<Rightarrow> int \<Rightarrow> (inst \<Rightarrow> update_event) \<Rightarrow> inst \<Rightarrow> update_event option result" where
  "handle_stuck_instance now timeout_s mk i =
     rbind (has_timeout now i timeout_s) (\<lambda>late. Inr (if \<not> late then None else Some (mk i)))"

definition stuck_update :: "(inst \<Rightarrow> update_event option result) \<Rightarrow> inst \<Rightarrow> updates \<Rightarrow> updates result" where
  "stuck_update f i ups = rbind (f i) (\<lambda>u. Inr (case u of None \<Rightarrow> ups | Some e \<Rightarrow> add_event i e ups))"

definition handle_allocated :: "int \<Rightarrow> int \<Rightarrow> inst \<Rightarrow> update_event option result" where
  "handle_allocated now timeout_s i =
     (if inst_cloud_id i = [] then Inl (AssertionError ''cloud instance id should be set on ALLOCATED instance'')
      else handle_stuck_instance now timeout_s
             (\<lambda>i. (event (inst_id i) ALLOCATION_TIMEOUT)\<lparr>upd_cloud_id := inst_cloud_id i, upd_instance_type := inst_type i\<rparr>) i)"

text \<open>The warnings only print, but assert that the status was recorded.\<close>

definition warn_stuck_instances :: "inst list \<Rightarrow> instance_status \<Rightarrow> unit result" where
  "warn_stuck_instances instances st =
     (if list_ex (\<lambda>i. inst_status i = st \<and> get_status_transition_times_ns i (Some st) = []) instances
      then Inl (AssertionError ''len(status_times_ns) >= 1'') else Inr ())"

definition handle_stuck_instances :: "reconcile_config \<Rightarrow> int \<Rightarrow> handler" where
  "handle_stuck_instances rc now instances =
     (let with_status = (\<lambda>st. filter (\<lambda>i. inst_status i = st) instances)
      in rbind (rfold (stuck_update (handle_stuck_requested_instance now (request_status_timeout_s rc) (max_num_retry_request_to_allocate rc)))
                  (with_status REQUESTED) []) (\<lambda>u1.
         rbind (rfold (stuck_update (handle_allocated now (allocate_status_timeout_s rc))) (with_status ALLOCATED) u1) (\<lambda>u2.
         rbind (rfold (stuck_update (handle_stuck_instance now (ray_install_status_timeout_s rc)
                  (\<lambda>i. event (inst_id i) RAY_INSTALL_FAILED))) (with_status RAY_INSTALLING) u2) (\<lambda>u3.
         rbind (rfold (stuck_update (handle_stuck_instance now (terminating_status_timeout_s rc)
                  (\<lambda>i. event (inst_id i) TERMINATION_FAILED))) (with_status TERMINATING) u3) (\<lambda>u4.
         rbind (rfold (stuck_update (handle_stuck_instance now (ray_stop_requested_status_timeout_s rc)
                  (\<lambda>i. (event (inst_id i) RAY_RUNNING)\<lparr>upd_ray_node_id := inst_node_id i\<rparr>))) (with_status RAY_STOP_REQUESTED) u4) (\<lambda>u5.
         rbind (rmap (warn_stuck_instances instances) [RAY_STOPPING, RAY_INSTALL_FAILED, RAY_STOPPED, TERMINATION_FAILED, QUEUED]) (\<lambda>_.
           Inr u5)))))))"

subsection \<open>Scaling\<close>

record ray_state =
  rs_nodes :: "node_state list"
  rs_requests :: "(resource_request \<times> nat) list"
  rs_gang_requests :: "gang_request list"
  rs_constraints :: "(resource_request \<times> nat) list list"
  rs_version :: int

text \<open>What the resource monitor and a Kubernetes provider report.\<close>

record provider_state =
  ps_cloud_availability :: "(string, rat) dict"
  ps_recoverable_availability :: "(string, rat) dict"
  ps_ippr_specs :: "(string, ippr_spec) dict option"
  ps_ippr_statuses :: "(string, ippr_status) dict"

text \<open>The launch hash of an instance is never written, so it reads as empty.\<close>

definition autoscaler_instance_of :: "(string, node_state) dict \<Rightarrow> inst \<Rightarrow> autoscaler_instance" where
  "autoscaler_instance_of nodes i =
     \<lparr>ai_cloud_id = (if inst_cloud_id i \<noteq> [] then Some (inst_cloud_id i) else None),
      ai_ray_node = map_option ray_node.truncate (map_of nodes (inst_node_id i)),
      ai_im_instance = Some (inst.extend i (im_instance.fields []))\<rparr>"

definition scheduling_request :: "autoscaling_config \<Rightarrow> ray_state \<Rightarrow> provider_state \<Rightarrow> inst list \<Rightarrow> sched_request" where
  "scheduling_request config rs ps instances =
     \<lparr>sq_disable_check = ac_disable_check config, sq_configs = ac_configs config, sq_max_nodes = ac_max_num_nodes config,
      sq_idle_timeout_s = ac_idle_timeout_s config, sq_resource_requests = rs_requests rs, sq_gang_requests = rs_gang_requests rs,
      sq_constraints = rs_constraints rs,
      sq_instances = map (autoscaler_instance_of (dict_of (map (\<lambda>n. (ns_node_id n, n)) (rs_nodes rs)))) instances,
      sq_cloud_availability = ps_cloud_availability ps, sq_recoverable_availability = ps_recoverable_availability ps,
      sq_ippr_specs = ps_ippr_specs ps, sq_ippr_statuses = ps_ippr_statuses ps\<rparr>"

definition is_head_node_running :: "inst list \<Rightarrow> bool" where
  "is_head_node_running = list_ex (\<lambda>i. inst_node_kind i = HEAD \<and> inst_status i = RAY_RUNNING)"

text \<open>In the message of a termination request an unset instance id reads as empty and an unset
  status as \<open>UNKNOWN\<close>.\<close>

definition terminate_update :: "inst list \<Rightarrow> termination_request \<Rightarrow> updates \<Rightarrow> updates result" where
  "terminate_update instances tr ups =
     (let iid = (case tr_instance_id tr of Some k \<Rightarrow> k | None \<Rightarrow> []);
          st = (case tr_instance_status tr of Some s \<Rightarrow> s | None \<Rightarrow> UNKNOWN)
      in if st = QUEUED then Inr (AList.update iid (event iid TERMINATED) ups)
         else if st \<in> {ALLOCATED, RAY_INSTALLING}
         then (case map_of (dict_of (map (\<lambda>i. (inst_id i, i)) (filter (\<lambda>i. inst_id i \<noteq> []) instances))) iid of
                 None \<Rightarrow> Inl (KeyError iid)
               | Some i \<Rightarrow> Inr (AList.update iid ((event iid TERMINATING)\<lparr>upd_cloud_id := inst_cloud_id i\<rparr>) ups))
         else Inr (AList.update iid (event iid RAY_STOP_REQUESTED) ups))"

definition launch_update :: "(nat \<Rightarrow> string) \<Rightarrow> nat \<times> string \<Rightarrow> updates \<Rightarrow> updates" where
  "launch_update rid = (\<lambda>(k, t). AList.update (rid k) ((event (rid k) QUEUED)\<lparr>upd_instance_type := t, upd_upsert := True\<rparr>))"

definition scale_updates :: "(nat \<Rightarrow> string) \<Rightarrow> sched_reply \<Rightarrow> inst list \<Rightarrow> updates result" where
  "scale_updates rid reply instances =
     rbind (rfold (terminate_update instances) (sy_to_terminate reply) []) (\<lambda>ups.
       Inr (fold (launch_update rid) (enumerate 0 (concat (map (\<lambda>(t, k). replicate k t) (sy_to_launch reply)))) ups))"

definition scaling_allowed :: "autoscaling_config \<Rightarrow> inst list \<Rightarrow> bool" where
  "scaling_allowed config instances \<longleftrightarrow> is_head_node_running instances \<and> ac_provider config \<noteq> READ_ONLY"

definition scale_cluster ::
    "bool \<Rightarrow> (nat \<Rightarrow> string) \<Rightarrow> autoscaling_config \<Rightarrow> ray_state \<Rightarrow> provider_state \<Rightarrow> inst list \<Rightarrow> (sched_reply \<times> updates) result" where
  "scale_cluster cg rid config rs ps instances =
     rbind (schedule cg (scheduling_request config rs ps instances)) (\<lambda>(reply, _).
       if \<not> scaling_allowed config instances then Inr (reply, [])
       else rbind (scale_updates rid reply instances) (\<lambda>ups. Inr (reply, ups)))"

subsection \<open>Launching and terminating\<close>

definition group_instances :: "inst list \<Rightarrow> (string, inst list) dict" where
  "group_instances is = fold (\<lambda>i d. AList.update (inst_type i) (dict_get d (inst_type i) [] @ [i]) d) is []"

definition num_desired_to_upscale :: "rat \<Rightarrow> nat \<Rightarrow> int" where
  "num_desired_to_upscale speed running = max 1 \<lceil>speed * of_nat (max running 1)\<rceil>"

fun to_launch_loop ::
    "rat \<Rightarrow> int \<Rightarrow> (string, inst list) dict \<Rightarrow> (string, inst list) dict \<Rightarrow> int \<Rightarrow> (string, inst list) dict" where
  "to_launch_loop speed max_launches running [] requested = []"
| "to_launch_loop speed max_launches running ((t, queued) # groups) requested =
     (let desired = num_desired_to_upscale speed (length (dict_get running t []));
          n = min (int (length queued)) (max 0 (min (max_launches - requested) desired));
          chosen = take (nat n) (sort_key (\<lambda>i. sort (get_status_transition_times_ns i (Some QUEUED))) queued)
      in (t, chosen) # to_launch_loop speed max_launches running groups (requested + n))"

definition compute_to_launch :: "inst list \<Rightarrow> inst list \<Rightarrow> inst list \<Rightarrow> rat \<Rightarrow> int \<Rightarrow> (string, inst list) dict" where
  "compute_to_launch queued requested running speed max_launches =
     to_launch_loop speed max_launches (group_instances running) (group_instances queued) (int (length requested))"

definition handle_instances_launch :: "string \<Rightarrow> autoscaling_config \<Rightarrow> handler" where
  "handle_instances_launch new_launch_request_id config instances =
     (let with_status = (\<lambda>st. filter (\<lambda>i. inst_status i = st) instances);
          to_launch = compute_to_launch (with_status QUEUED) (with_status REQUESTED) (with_status RAY_RUNNING)
                        (ac_upscaling_speed config) (ac_max_concurrent_launches config)
      in Inr (fold (\<lambda>(t, is). fold (\<lambda>i. add_event i ((event (inst_id i) REQUESTED)
                \<lparr>upd_launch_request_id := (if inst_launch_request_id i = [] then new_launch_request_id else inst_launch_request_id i),
                 upd_instance_type := t\<rparr>)) is) to_launch []))"

definition terminate_instances :: handler where
  "terminate_instances instances =
     (let to_terminate = {RAY_STOPPED, ALLOCATION_TIMEOUT, RAY_INSTALL_FAILED, TERMINATION_FAILED};
          active = map inst_cloud_id (filter (\<lambda>i. inst_cloud_id i \<noteq> [] \<and>
                     inst_status i \<notin> to_terminate \<union> {TERMINATED, ALLOCATION_FAILED}) instances)
      in Inr (fold (\<lambda>i ups.
                if inst_status i \<notin> to_terminate then ups
                else if inst_status i = RAY_STOPPED \<and> inst_cloud_id i \<in> set active
                then add_event i (event (inst_id i) TERMINATED) ups
                else add_event i ((event (inst_id i) TERMINATING)\<lparr>upd_cloud_id := inst_cloud_id i\<rparr>) ups) instances []))"

definition install_ray_update :: "(string, cloud_instance) dict \<Rightarrow> inst \<Rightarrow> updates \<Rightarrow> updates result" where
  "install_ray_update cloud i ups =
     (if inst_status i \<noteq> ALLOCATED \<or> inst_node_kind i = HEAD then Inr ups
      else (case map_of cloud (inst_cloud_id i) of
              None \<Rightarrow> Inl (AssertionError ''Cloud instance is not found in non_terminated_cloud_instances.'')
            | Some c \<Rightarrow> Inr (if \<not> ci_running c then ups else add_event i (event (inst_id i) RAY_INSTALLING) ups)))"

definition install_ray :: "(string, cloud_instance) dict \<Rightarrow> handler" where
  "install_ray cloud instances = rfold (install_ray_update cloud) instances []"

subsection \<open>The reported state\<close>

record pending_request =
  pr_instance_type_name :: string
  pr_ray_node_type_name :: string
  pr_count :: nat
  pr_request_ts :: int

record pending_instance =
  pi_instance_id :: string
  pi_instance_type_name :: string
  pi_ray_node_type_name :: string

record failed_request =
  fr_instance_type_name :: string
  fr_ray_node_type_name :: string
  fr_start_ts :: int
  fr_failed_ts :: int

record autoscaling_state =
  as_last_seen_version :: int
  as_version :: int
  as_infeasible_requests :: "resource_request list"
  as_infeasible_gangs :: "gang_request list"
  as_infeasible_constraints :: "(resource_request \<times> nat) list list"
  as_pending_requests :: "pending_request list"
  as_pending_instances :: "pending_instance list"
  as_failed_requests :: "failed_request list"

definition last_time :: "inst \<Rightarrow> instance_status \<Rightarrow> int" where
  "last_time i st = (case get_last_status_transition i (Some st) of Some e \<Rightarrow> entry_timestamp_ns e | None \<Rightarrow> 0)"

definition pending_requests_of :: "autoscaling_config \<Rightarrow> string \<times> inst list \<Rightarrow> pending_request list result" where
  "pending_requests_of config = (\<lambda>(_, is).
     rmap (\<lambda>(t, k). rbind (get_provider_instance_type config t) (\<lambda>p.
         Inr \<lparr>pr_instance_type_name = p, pr_ray_node_type_name = t, pr_count = k,
              pr_request_ts = last_time (hd is) REQUESTED div 1000000000\<rparr>))
       (fold (\<lambda>i d. AList.update (inst_type i) (dict_get d (inst_type i) 0 + 1) d) is []))"

definition pending_instance_of :: "autoscaling_config \<Rightarrow> inst \<Rightarrow> pending_instance result" where
  "pending_instance_of config i =
     rbind (get_provider_instance_type config (inst_type i)) (\<lambda>p.
       if inst_history i = [] then Inl IndexError
       else Inr \<lparr>pi_instance_id = inst_id i, pi_instance_type_name = p, pi_ray_node_type_name = inst_type i\<rparr>)"

definition failed_request_of :: "autoscaling_config \<Rightarrow> inst \<Rightarrow> failed_request result" where
  "failed_request_of config i =
     rbind (get_provider_instance_type config (inst_type i)) (\<lambda>p.
       if get_last_status_transition i (Some ALLOCATION_FAILED) = None then Inl (AttributeError ''details'')
       else Inr \<lparr>fr_instance_type_name = p, fr_ray_node_type_name = inst_type i,
                 fr_start_ts = last_time i REQUESTED div 1000000000, fr_failed_ts = last_time i ALLOCATION_FAILED div 1000000000\<rparr>)"

definition fill_autoscaling_state :: "autoscaling_config \<Rightarrow> sched_reply \<Rightarrow> inst list \<times> int \<Rightarrow> autoscaling_state result" where
  "fill_autoscaling_state config reply = (\<lambda>(instances, version).
     let with_status = (\<lambda>st. filter (\<lambda>i. inst_status i = st) instances);
         by_request = fold (\<lambda>i d. if inst_launch_request_id i = [] then d
                         else AList.update (inst_launch_request_id i) (dict_get d (inst_launch_request_id i) [] @ [i]) d)
                        (with_status REQUESTED @ with_status QUEUED) []
     in rbind (rmap (pending_requests_of config) by_request) (\<lambda>prs.
        rbind (rmap (pending_instance_of config) (with_status ALLOCATED @ with_status RAY_INSTALLING)) (\<lambda>pis.
        rbind (rmap (failed_request_of config) (with_status ALLOCATION_FAILED)) (\<lambda>frs.
          Inr \<lparr>as_last_seen_version = 0, as_version = version, as_infeasible_requests = sy_infeasible_requests reply,
               as_infeasible_gangs = sy_infeasible_gangs reply, as_infeasible_constraints = sy_infeasible_constraints reply,
               as_pending_requests = concat prs, as_pending_instances = pis, as_failed_requests = frs\<rparr>))))"

subsection \<open>One pass\<close>

record observation =
  ob_now :: int
  ob_cloud :: "(string, cloud_instance) dict"
  ob_cloud_errors :: "provider_error list"
  ob_install_errors :: "string list"
  ob_stop_errors :: "string list"
  ob_ray :: ray_state
  ob_provider :: provider_state
  ob_ray_ids :: "nat \<Rightarrow> string"
  ob_cloud_ids :: "nat \<Rightarrow> string"
  ob_new_ids :: "nat \<Rightarrow> string"
  ob_launch_request_id :: string

definition sync_handlers :: "autoscaling_config \<Rightarrow> observation \<Rightarrow> handler list" where
  "sync_handlers config ob =
     [handle_cloud_instance_allocation (ob_cloud ob) (ob_cloud_errors ob),
      handle_cloud_instance_terminated (ob_cloud ob),
      handle_cloud_instance_termination_errors (ob_cloud_errors ob),
      handle_extra_from_ray_nodes (ob_ray_ids ob) (rs_nodes (ob_ray ob)),
      handle_extra_from_cloud_provider (ob_cloud_ids ob) (ob_cloud ob),
      handle_ray_status_transition (ac_provider config = READ_ONLY) (rs_nodes (ob_ray ob)),
      handle_ray_install_failed (ob_install_errors ob),
      handle_ray_stop_failed (ob_stop_errors ob) (rs_nodes (ob_ray ob))]"

definition run_handlers ::
    "(inst \<Rightarrow> 'v) \<Rightarrow> ('v \<Rightarrow> inst) \<Rightarrow> string \<Rightarrow> int \<Rightarrow> handler list \<Rightarrow> update_event list \<times> 'v mem_storage \<Rightarrow>
     (update_event list \<times> 'v mem_storage) result" where
  "run_handlers ser par cid now = rfold (run_handler ser par cid now)"

definition sync_from ::
    "(inst \<Rightarrow> 'v) \<Rightarrow> ('v \<Rightarrow> inst) \<Rightarrow> string \<Rightarrow> autoscaling_config \<Rightarrow> observation \<Rightarrow> update_event list \<times> 'v mem_storage \<Rightarrow>
     (update_event list \<times> 'v mem_storage) result" where
  "sync_from ser par cid config ob = run_handlers ser par cid (ob_now ob) (sync_handlers config ob)"

text \<open>The resize requests go to the provider only when the cluster may be scaled.\<close>

definition step_next ::
    "bool \<Rightarrow> (inst \<Rightarrow> 'v) \<Rightarrow> ('v \<Rightarrow> inst) \<Rightarrow> string \<Rightarrow> autoscaling_config \<Rightarrow> observation \<Rightarrow> update_event list \<times> 'v mem_storage \<Rightarrow>
     (autoscaling_state \<times> ippr_status list \<times> update_event list \<times> 'v mem_storage) result" where
  "step_next cg ser par cid config ob st =
     rbind (run_handlers ser par cid (ob_now ob)
              [handle_missing_ray_nodes (rs_nodes (ob_ray ob)), handle_stuck_instances (ac_reconcile config) (ob_now ob)] st) (\<lambda>(ev1, s1).
       let (instances, version) = get_instance_manager_state par cid s1
       in rbind (scale_cluster cg (ob_new_ids ob) config (ob_ray ob) (ob_provider ob) instances) (\<lambda>(reply, ups).
          rbind (update_instance_manager ser par cid (ob_now ob) version ups s1) (\<lambda>(notified, s2).
          rbind (run_handlers ser par cid (ob_now ob)
                   ([handle_instances_launch (ob_launch_request_id ob) config, terminate_instances] @
                    (if ac_disable_node_updaters config then [] else [install_ray (ob_cloud ob)])) (ev1 @ notified, s2)) (\<lambda>(ev3, s3).
          rbind (fill_autoscaling_state config reply (get_instance_manager_state par cid s3)) (\<lambda>state.
            Inr (state, if scaling_allowed config instances then sy_to_ippr reply else [], ev3, s3))))))"

definition reconcile ::
    "bool \<Rightarrow> (inst \<Rightarrow> 'v) \<Rightarrow> ('v \<Rightarrow> inst) \<Rightarrow> string \<Rightarrow> autoscaling_config \<Rightarrow> observation \<Rightarrow> 'v mem_storage \<Rightarrow>
     (autoscaling_state \<times> ippr_status list \<times> update_event list \<times> 'v mem_storage) result" where
  "reconcile cg ser par cid config ob s =
     rbind (sync_from ser par cid config ob ([], s)) (\<lambda>st.
       rbind (step_next cg ser par cid config ob st) (\<lambda>(state, rest).
         Inr (state\<lparr>as_last_seen_version := rs_version (ob_ray ob)\<rparr>, rest)))"

end
