(* ===== verification/Reconciler_Rows.thy ===== *)
theory Reconciler_Rows
  imports Reconciler
begin

section \<open>Autoscaler v2: the rows the reconciler keeps\<close>

text \<open>
  The instances that a handler reads are exactly the stored ones, each under its own id; what the
  fields of a row tell about its status; and that updates whose events fit the rows are accepted.
  The locale \<open>sound_handler\<close> is the contract between a handler and the instance manager.
\<close>

subsection \<open>The instances that are read\<close>

definition keys_ok :: "string \<Rightarrow> 'v mem_storage \<Rightarrow> bool" where
  "keys_ok cid s \<longleftrightarrow> distinct (map fst (sto_tables s (table_name cid)))"

abbreviation listed :: "('v \<Rightarrow> inst) \<Rightarrow> string \<Rightarrow> 'v mem_storage \<Rightarrow> inst list" where
  "listed par cid s \<equiv> fst (get_instance_manager_state par cid s)"

lemma listed_pairs:
  "listed par cid s = map (\<lambda>(k, x, n). (par x)\<lparr>inst_version := n\<rparr>) (sto_tables s (table_name cid))"
  "snd (get_instance_manager_state par cid s) = sto_version s"
  by (auto simp: get_instance_manager_state_def get_instances_def mem_get_def mem_get_all_def Let_def)

lemma listed_stored:
  assumes "store_ok par cid s" and "keys_ok cid s"
  shows "i \<in> set (listed par cid s) \<longleftrightarrow> stored par cid s (inst_id i) = Some i"
    and "distinct (map inst_id (listed par cid s))"
proof -
  let ?t = "sto_tables s (table_name cid)"
  have st: "stored par cid s k = Some ((par x)\<lparr>inst_version := n\<rparr>)" if "(k, x, n) \<in> set ?t" for k x n
    using that assms(2) by (simp add: stored_def mem_lookup_def keys_ok_def map_of_is_SomeI)
  have id: "inst_id (par x) = k" if "(k, x, n) \<in> set ?t" for k x n
    using st [OF that] assms(1) by (force simp: store_ok_def)
  have "map inst_id (listed par cid s) = map fst ?t"
    unfolding listed_pairs map_map by (rule map_cong) (auto simp: id)
  then show "distinct (map inst_id (listed par cid s))" using assms(2) by (simp add: keys_ok_def)
  show "i \<in> set (listed par cid s) \<longleftrightarrow> stored par cid s (inst_id i) = Some i"
  proof
    assume "i \<in> set (listed par cid s)"
    then obtain k x n where e: "(k, x, n) \<in> set ?t" "i = (par x)\<lparr>inst_version := n\<rparr>" unfolding listed_pairs by auto
    show "stored par cid s (inst_id i) = Some i" using st [OF e(1)] id [OF e(1)] e(2) by simp
  next
    assume "stored par cid s (inst_id i) = Some i"
    then obtain x n where "map_of ?t (inst_id i) = Some (x, n)" "i = (par x)\<lparr>inst_version := n\<rparr>"
      by (auto simp: stored_def mem_lookup_def)
    then show "i \<in> set (listed par cid s)" unfolding listed_pairs by (force dest: map_of_SomeD)
  qed
qed

lemma batch_upsert_keys: "keys_ok cid s \<Longrightarrow> keys_ok cid (snd (batch_upsert_instances ser cid is e s))"
  by (simp add: keys_ok_def batch_upsert_instances_def mem_batch_update_def Let_def set_table_def distinct_dict_update)

lemma handler_keys:
  assumes "keys_ok cid s" and "update_instance_manager_state ser par cid now req s = Inr (r, notified, s')"
  shows "keys_ok cid s'"
proof -
  have "keys_ok cid (snd (snd (commit_updates ser cid v us is s)))" for v us "is"
    using batch_upsert_keys [OF assms(1), of ser "is" "Some v"]
    by (auto simp: commit_updates_def Let_def split: prod.splits)
  then show ?thesis
    using assms by (auto simp: update_instance_manager_state_def Let_def rbind_eq_Inr split: prod.splits if_splits)
      (metis snd_conv)+
qed

subsection \<open>Applying updates\<close>

lemma rmap_Inr_ex: "(\<And>x. x \<in> set xs \<Longrightarrow> \<exists>y. f x = Inr y) \<Longrightarrow> \<exists>ys. rmap f xs = Inr ys"
proof (induction xs)
  case (Cons x xs)
  obtain y ys where "f x = Inr y" "rmap f xs = Inr ys" using Cons by (metis list.set_intros)
  then show ?case by simp
qed simp

text \<open>What updates that were accepted did to every row.\<close>

lemma update_manager_effect:
  assumes ok: "store_ok par cid s" "keys_ok cid s" and ser: "\<And>i. par (ser i) = i"
    and run: "update_instance_manager ser par cid now (sto_version s) ups s = Inr (notified, s')"
  shows "notified = map snd ups" and "store_ok par cid s'" and "keys_ok cid s'"
    and "instance_effect now (last_update (map snd ups) k) (sto_version s') (stored par cid s k) (stored par cid s' k)"
proof -
  let ?req = "\<lparr>req_expected_version = sto_version s, req_updates = map snd ups\<rparr>"
  have "notified = map snd ups \<and> store_ok par cid s' \<and> keys_ok cid s' \<and>
    instance_effect now (last_update (map snd ups) k) (sto_version s') (stored par cid s k) (stored par cid s' k)"
  proof (cases "ups = []")
    case True
    then show ?thesis using run ok by (simp add: update_instance_manager_def instance_effect_def last_update_def)
  next
    case False
    obtain r where r: "update_instance_manager_state ser par cid now ?req s = Inr (r, notified, s')"
      using run False by (auto simp: update_instance_manager_def rbind_eq_Inr split: prod.splits if_splits)
    show ?thesis
      using handler_ok [OF ok(1) ser r] handler_store_ok [OF ok(1) ser r] handler_keys [OF ok(2) r] by auto
  qed
  then show "notified = map snd ups" and "store_ok par cid s'" and "keys_ok cid s'"
    and "instance_effect now (last_update (map snd ups) k) (sto_version s') (stored par cid s k) (stored par cid s' k)"
    by blast+
qed

text \<open>The assertions on the fields of an event.\<close>

definition fields_ok :: "update_event \<Rightarrow> bool" where
  "fields_ok u \<longleftrightarrow> (upd_new_status u \<in> {ALLOCATED, TERMINATING} \<longrightarrow> upd_cloud_id u \<noteq> []) \<and>
     (upd_new_status u \<in> {ALLOCATED, REQUESTED} \<longrightarrow> upd_instance_type u \<noteq> []) \<and>
     (upd_new_status u = ALLOCATED \<longrightarrow> upd_node_kind u \<in> {WORKER, HEAD}) \<and>
     (upd_new_status u = RAY_RUNNING \<longrightarrow> upd_ray_node_id u \<noteq> []) \<and>
     (upd_new_status u = REQUESTED \<longrightarrow> upd_launch_request_id u \<noteq> [])"

lemma apply_update_Inr: "(\<exists>i'. apply_update u i = Inr i') \<longleftrightarrow> fields_ok u"
  by (auto simp: apply_update_def fields_ok_def)

text \<open>An event that fits the rows: a valid transition of the row it names, or a new row.\<close>

definition accepts :: "inst list \<Rightarrow> update_event \<Rightarrow> bool" where
  "accepts is u \<longleftrightarrow> fields_ok u \<and>
     (case find (\<lambda>i. inst_id i = upd_instance_id u) is of
        Some i \<Rightarrow> upd_new_status u \<in> set (get_valid_transitions (inst_status i))
      | None \<Rightarrow> upd_upsert u \<and> upd_new_status u \<in> {ALLOCATED, QUEUED})"

lemma find_row: "distinct (map inst_id is) \<Longrightarrow> i \<in> set is \<Longrightarrow> inst_id i = k \<Longrightarrow> find (\<lambda>j. inst_id j = k) is = Some i"
  by (induction "is") force+

lemma accepts_row:
  assumes "distinct (map inst_id is)" and "i \<in> set is" and "upd_instance_id u = inst_id i" and "fields_ok u"
    and "upd_new_status u \<in> set (get_valid_transitions (inst_status i))"
  shows "accepts is u"
proof -
  have "find (\<lambda>j. inst_id j = upd_instance_id u) is = Some i"
    by (rule find_row) (use assms(1-3) in simp_all)
  then show ?thesis using assms by (simp add: accepts_def)
qed

lemma accepts_new:
  assumes "upd_instance_id u \<notin> inst_id ` set is" and "fields_ok u" and "upd_upsert u" and "upd_new_status u \<in> {ALLOCATED, QUEUED}"
  shows "accepts is u"
proof -
  have "find (\<lambda>j. inst_id j = upd_instance_id u) is = None" using assms(1) by (force simp: find_None_iff)
  then show ?thesis using assms by (simp add: accepts_def)
qed

lemma updates_accepted:
  assumes ok: "store_ok par cid s" "keys_ok cid s" and ser: "\<And>i. par (ser i) = i"
    and acc: "\<And>u. u \<in> snd ` set ups \<Longrightarrow> accepts (listed par cid s) u"
  shows "\<exists>s'. update_instance_manager ser par cid now (sto_version s) ups s = Inr (map snd ups, s')"
proof (cases "ups = []")
  case False
  let ?req = "\<lparr>req_expected_version = sto_version s, req_updates = map snd ups\<rparr>"
  let ?d = "dict_of (map (\<lambda>u. (upd_instance_id u, u)) (map snd ups))"
  obtain found version where g: "get_instances par cid (map fst ?d) [] s = (found, version)" by fastforce
  have inv: "mem_inv s" using ok(1) by (simp add: store_ok_def)
  have version: "version = sto_version s"
    and found: "map_of found k = (if map fst ?d = [] \<or> k \<in> set (map fst ?d) then stored par cid s k else None)" for k
    using get_instances_stored [OF inv, of par cid "map fst ?d"] g by simp_all
  have each: "\<exists>i. updated_instance now found p = Inr i" if "p \<in> set ?d" for p
  proof -
    obtain k u where p: "p = (k, u)" by fastforce
    have u: "u \<in> snd ` set ups" "upd_instance_id u = k" and k: "map_of found k = stored par cid s k"
    proof -
      show "upd_instance_id u = k" using that p ids_to_updates(3) by blast
      have "map_of ?d k = Some u" by (rule map_of_is_SomeI [OF ids_to_updates(2)]) (use that p in blast)
      then have "last_update (map snd ups) k = Some u" unfolding ids_to_updates(1) .
      then show "u \<in> snd ` set ups" unfolding last_update_def by (auto dest!: map_of_SomeD)
      show "map_of found k = stored par cid s k" using found [of k] that p by force
    qed
    have a: "accepts (listed par cid s) u" by (rule acc [OF u(1)])
    show ?thesis
    proof (cases "stored par cid s k")
      case None
      then have "find (\<lambda>i. inst_id i = upd_instance_id u) (listed par cid s) = None"
        using listed_stored(1) [OF ok] u(2) by (force simp: find_None_iff)
      then have "upd_upsert u \<and> upd_new_status u \<in> {ALLOCATED, QUEUED} \<and> fields_ok u" using a by (simp add: accepts_def)
      then show ?thesis using None k p apply_update_Inr [of u] by (auto simp: updated_instance_def create_instance_def)
    next
      case (Some i)
      then have "inst_id i = k" using ok(1) by (auto simp: store_ok_def)
      then have i: "i \<in> set (listed par cid s)" using Some listed_stored(1) [OF ok] by blast
      have "find (\<lambda>j. inst_id j = upd_instance_id u) (listed par cid s) = Some i"
        by (rule find_row [OF listed_stored(2) [OF ok] i]) (simp add: \<open>inst_id i = k\<close> u(2))
      then have "upd_new_status u \<in> set (get_valid_transitions (inst_status i)) \<and> fields_ok u" using a by (simp add: accepts_def)
      then show ?thesis using Some k p apply_update_Inr [of u]
        by (auto simp: updated_instance_def update_instance_def set_status_def Let_def)
    qed
  qed
  obtain is' where "rmap (updated_instance now found) ?d = Inr is'" using rmap_Inr_ex each by meson
  then obtain r n s' where r: "update_instance_manager_state ser par cid now ?req s = Inr (r, n, s')"
    using g version by (simp add: update_instance_manager_state_def Let_def) (metis prod_cases3)
  then show ?thesis using handler_ok [OF ok(1) ser r] False by (simp add: update_instance_manager_def)
qed (simp add: update_instance_manager_def)

subsection \<open>Rows\<close>

text \<open>What the status of a row tells about its other fields.\<close>

definition row_ok :: "inst \<Rightarrow> bool" where
  "row_ok i \<longleftrightarrow>
     (inst_status i \<noteq> TERMINATED \<longrightarrow> is_cloud_instance_allocated (inst_status i) = Inr (inst_cloud_id i \<noteq> [])) \<and>
     (inst_cloud_id i \<noteq> [] \<longrightarrow> inst_node_kind i \<in> {WORKER, HEAD} \<and> inst_type i \<noteq> []) \<and>
     (inst_cloud_id i = [] \<longrightarrow> inst_node_id i = []) \<and>
     (inst_status i = REQUESTED \<longrightarrow> inst_launch_request_id i \<noteq> [] \<and> inst_type i \<noteq> []) \<and>
     (inst_status i \<in> {RAY_RUNNING, RAY_STOP_REQUESTED} \<longrightarrow> inst_node_id i \<noteq> [])"

lemma row_ok_version [simp]: "row_ok (i\<lparr>inst_version := v\<rparr>) = row_ok i"
  by (simp add: row_ok_def)

lemma apply_update_fields:
  assumes "apply_update u j = Inr i"
  shows "fields_ok u" and "inst_status i = inst_status j"
    and "inst_cloud_id i = (if upd_new_status u = ALLOCATED then upd_cloud_id u else inst_cloud_id j)"
    and "inst_node_kind i = (if upd_new_status u = ALLOCATED then upd_node_kind u else inst_node_kind j)"
    and "inst_type i = (if upd_new_status u \<in> {ALLOCATED, REQUESTED} then upd_instance_type u else inst_type j)"
    and "inst_node_id i = (if upd_new_status u \<in> {ALLOCATED, RAY_RUNNING} then upd_ray_node_id u else inst_node_id j)"
    and "inst_launch_request_id i = (if upd_new_status u = REQUESTED then upd_launch_request_id u else inst_launch_request_id j)"
  using assms apply_update_Inr [of u j] by (auto simp: apply_update_def split: if_splits)

lemma update_instance_fields:
  assumes "update_instance now i u = Inr i'"
  shows "fields_ok u" and "upd_new_status u \<in> set (get_valid_transitions (inst_status i))" and "inst_status i' = upd_new_status u"
    and "inst_cloud_id i' = (if upd_new_status u = ALLOCATED then upd_cloud_id u else inst_cloud_id i)"
    and "inst_node_kind i' = (if upd_new_status u = ALLOCATED then upd_node_kind u else inst_node_kind i)"
    and "inst_type i' = (if upd_new_status u \<in> {ALLOCATED, REQUESTED} then upd_instance_type u else inst_type i)"
    and "inst_node_id i' = (if upd_new_status u \<in> {ALLOCATED, RAY_RUNNING} then upd_ray_node_id u else inst_node_id i)"
    and "inst_launch_request_id i' = (if upd_new_status u = REQUESTED then upd_launch_request_id u else inst_launch_request_id i)"
proof -
  let ?j = "record_status_transition now (upd_new_status u) [] (i\<lparr>inst_status := upd_new_status u\<rparr>)"
  have step: "upd_new_status u \<in> set (get_valid_transitions (inst_status i))" and a: "apply_update u ?j = Inr i'"
    using assms by (auto simp: update_instance_def set_status_def Let_def record_status_transition_def split: if_splits)
  show "upd_new_status u \<in> set (get_valid_transitions (inst_status i))" by (rule step)
  show "fields_ok u" "inst_status i' = upd_new_status u"
    "inst_cloud_id i' = (if upd_new_status u = ALLOCATED then upd_cloud_id u else inst_cloud_id i)"
    "inst_node_kind i' = (if upd_new_status u = ALLOCATED then upd_node_kind u else inst_node_kind i)"
    "inst_type i' = (if upd_new_status u \<in> {ALLOCATED, REQUESTED} then upd_instance_type u else inst_type i)"
    "inst_node_id i' = (if upd_new_status u \<in> {ALLOCATED, RAY_RUNNING} then upd_ray_node_id u else inst_node_id i)"
    "inst_launch_request_id i' = (if upd_new_status u = REQUESTED then upd_launch_request_id u else inst_launch_request_id i)"
    using apply_update_fields [OF a] by (simp_all add: record_status_transition_def)
qed

lemma row_step:
  assumes "row_ok i" and "fields_ok u" and "st \<in> set (get_valid_transitions (inst_status i))" and "upd_new_status u = st"
  shows "is_cloud_instance_allocated st = Inr False \<longrightarrow> st \<noteq> TERMINATED \<longrightarrow> inst_cloud_id i = []"
    and "is_cloud_instance_allocated st = Inr True \<longrightarrow> st \<noteq> ALLOCATED \<longrightarrow> inst_cloud_id i \<noteq> []"
    and "st = RAY_STOP_REQUESTED \<longrightarrow> inst_node_id i \<noteq> []" and "st \<noteq> UNKNOWN"
  using assms by (cases "inst_status i"; auto simp: row_ok_def is_cloud_instance_allocated_def)+

lemma update_instance_row:
  assumes "update_instance now i u = Inr i'" and "row_ok i"
  shows "row_ok i'"
proof -
  note f = update_instance_fields [OF assms(1)]
  show ?thesis
    using row_step [OF assms(2) f(1,2) refl] f(1) assms(2)
    unfolding row_ok_def f(3-8) fields_ok_def
    by (cases "upd_new_status u") (simp_all add: is_cloud_instance_allocated_def)
qed

definition creates :: "update_event \<Rightarrow> bool" where
  "creates u \<longleftrightarrow> (upd_upsert u \<longrightarrow> upd_new_status u \<in> {ALLOCATED, QUEUED})"

lemma create_instance_row: "create_instance now u = Inr i \<Longrightarrow> creates u \<Longrightarrow> row_ok i"
  by (auto simp: create_instance_def creates_def apply_update_def row_ok_def is_cloud_instance_allocated_def new_instance_def
      record_status_transition_def split: if_splits)

definition rows_ok :: "inst list \<Rightarrow> bool" where
  "rows_ok is \<longleftrightarrow> distinct (map inst_id is) \<and> (\<forall>i \<in> set is. row_ok i \<and> life_ok i)"

definition table_ok :: "('v \<Rightarrow> inst) \<Rightarrow> string \<Rightarrow> 'v mem_storage \<Rightarrow> bool" where
  "table_ok par cid s \<longleftrightarrow> store_ok par cid s \<and> keys_ok cid s \<and> (\<forall>k i. stored par cid s k = Some i \<longrightarrow> row_ok i)"

lemma table_ok_rows: "table_ok par cid s \<Longrightarrow> rows_ok (listed par cid s)"
  using listed_stored [of par cid s] by (auto simp: table_ok_def rows_ok_def store_ok_def)

lemma table_ok_init: "table_ok par cid mem_init"
  using mem_init_inv by (simp add: table_ok_def keys_ok_def store_ok_def stored_def mem_lookup_def mem_init_def)

definition all_events :: "(update_event \<Rightarrow> bool) \<Rightarrow> updates \<Rightarrow> bool" where
  "all_events P ups \<longleftrightarrow> (\<forall>u \<in> snd ` set ups. P u)"

lemma all_events_Nil [simp]: "all_events P []"
  by (simp add: all_events_def)

lemma last_update_mem: "last_update us k = Some u \<Longrightarrow> u \<in> set us \<and> upd_instance_id u = k"
  unfolding last_update_def by (auto dest!: map_of_SomeD)

lemma update_manager_table:
  assumes "table_ok par cid s" and "\<And>i. par (ser i) = i" and "all_events creates ups"
    and "update_instance_manager ser par cid now (sto_version s) ups s = Inr (notified, s')"
  shows "table_ok par cid s'"
proof -
  have ok: "store_ok par cid s" "keys_ok cid s" and rows: "\<And>k i. stored par cid s k = Some i \<Longrightarrow> row_ok i"
    using assms(1) by (auto simp: table_ok_def)
  note eff = update_manager_effect [OF ok assms(2,4)]
  have "row_ok i" if "stored par cid s' k = Some i" for k i
  proof (cases "last_update (map snd ups) k")
    case None
    then show ?thesis using eff(4) [of k] that rows by (simp add: instance_effect_def)
  next
    case (Some u)
    then have "creates u" using assms(3) last_update_mem by (fastforce simp: all_events_def)
    then show ?thesis using eff(4) [of k] Some that rows [of k]
      by (auto simp: instance_effect_def dest: create_instance_row update_instance_row split: option.splits)
  qed
  then show ?thesis using eff(2,3) by (auto simp: table_ok_def)
qed

subsection \<open>Handlers\<close>

lemma all_events_update: "all_events P ups \<Longrightarrow> P e \<Longrightarrow> all_events P (AList.update k e ups)"
  unfolding all_events_def by (induction ups) auto

lemma all_events_fold:
  "(\<And>x us. x \<in> set xs \<Longrightarrow> all_events P us \<Longrightarrow> all_events P (f x us)) \<Longrightarrow> all_events P ups \<Longrightarrow> all_events P (fold f xs ups)"
  by (induction xs arbitrary: ups) (metis fold_simps(1), metis fold_simps(2) list.set_intros)

lemma all_events_rfold:
  "rfold f xs ups = Inr ups' \<Longrightarrow> all_events P ups \<Longrightarrow>
   (\<And>x us us'. x \<in> set xs \<Longrightarrow> all_events P us \<Longrightarrow> f x us = Inr us' \<Longrightarrow> all_events P us') \<Longrightarrow> all_events P ups'"
  by (rule rfold_invariant [where P = "all_events P"])

locale creating_handler =
  fixes h :: handler
  assumes creates: "h instances = Inr ups \<Longrightarrow> all_events creates ups"
begin

lemma keeps_table:
  assumes "table_ok par cid s" and "\<And>i. par (ser i) = i" and "run_handler ser par cid now h (ev, s) = Inr (ev', s')"
  shows "table_ok par cid s'"
proof -
  obtain ups n where u: "h (listed par cid s) = Inr ups"
    "update_instance_manager ser par cid now (sto_version s) ups s = Inr (n, s')"
    using assms(3) listed_pairs(2) [of par cid s]
    by (auto simp: run_handler_def rbind_eq_Inr split: prod.splits)
  show ?thesis by (rule update_manager_table [OF assms(1,2) creates [OF u(1)] u(2)])
qed

end

locale sound_handler = creating_handler h for h :: handler +
  fixes pre :: "inst list \<Rightarrow> bool"
  assumes runs: "rows_ok instances \<Longrightarrow> pre instances \<Longrightarrow> \<exists>ups. h instances = Inr ups \<and> all_events (accepts instances) ups"
begin

lemma returns:
  assumes "table_ok par cid s" and "\<And>i. par (ser i) = i" and "pre (listed par cid s)"
  shows "\<exists>ups s'. h (listed par cid s) = Inr ups \<and> run_handler ser par cid now h (ev, s) = Inr (ev @ map snd ups, s')"
proof -
  have ok: "store_ok par cid s" "keys_ok cid s" using assms(1) by (simp_all add: table_ok_def)
  obtain ups where u: "h (listed par cid s) = Inr ups" "all_events (accepts (listed par cid s)) ups"
    using runs [OF table_ok_rows [OF assms(1)] assms(3)] by blast
  then obtain s' where "update_instance_manager ser par cid now (sto_version s) ups s = Inr (map snd ups, s')"
    using updates_accepted [OF ok assms(2)] unfolding all_events_def by metis
  then show ?thesis using u(1) listed_pairs(2) [of par cid s]
    by (auto simp: run_handler_def split: prod.splits)
qed

end

end
