(* ===== verification/Reconciler_Handlers.thy ===== *)
theory Reconciler_Handlers
  imports Reconciler_Rows
begin

section \<open>Autoscaler v2: the handlers keep their contracts\<close>

text \<open>
  No handler of the reconciler creates an instance that is already terminating, and the ones that
  only follow the cloud provider, the timeouts and the launch limits send nothing but updates that
  the instance manager accepts: interpretations of \<open>creating_handler\<close> and \<open>sound_handler\<close>.
\<close>

lemmas event_simps = creates_def event_def add_event_def

lemma creates_event [simp]: "upd_upsert e = False \<Longrightarrow> creates e"
  by (simp add: creates_def)

lemma event_fields [simp]:
  "upd_upsert (event k st) = False" "upd_instance_id (event k st) = k" "upd_new_status (event k st) = st"
  by (simp_all add: event_def)

lemma all_events_add: "all_events P ups \<Longrightarrow> P e \<Longrightarrow> all_events P (add_event i e ups)"
  unfolding add_event_def by (rule all_events_update)

lemmas all_events_intros = all_events_fold all_events_add all_events_update

subsection \<open>Cloud instances\<close>

definition cloud_ok :: "(string, cloud_instance) dict \<Rightarrow> bool" where
  "cloud_ok cloud \<longleftrightarrow> distinct (map fst cloud) \<and>
     (\<forall>(k, c) \<in> set cloud. ci_id c = k \<and> k \<noteq> [] \<and> ci_type c \<noteq> [] \<and> ci_kind c \<in> {WORKER, HEAD})"

lemma group_unassigned_get:
  "dict_get (group_unassigned cloud assigned) t [] = map snd (filter (\<lambda>(k, c). k \<notin> set assigned \<and> ci_type c = t) cloud)"
proof -
  have "dict_get (fold (\<lambda>(k, c) d. if k \<in> set assigned then d else AList.update (ci_type c) (dict_get d (ci_type c) [] @ [c]) d) cloud d) t [] =
      dict_get d t [] @ map snd (filter (\<lambda>(k, c). k \<notin> set assigned \<and> ci_type c = t) cloud)" for d
    by (induction cloud arbitrary: d) (auto simp: dict_get_update split: if_splits)
  from this [of "[]"] show ?thesis by (simp add: group_unassigned_def dict_get_def)
qed

text \<open>The cloud instances still to be assigned.\<close>

definition pool_ok :: "(string, cloud_instance) dict \<Rightarrow> string list \<Rightarrow> (string, cloud_instance list) dict \<Rightarrow> bool" where
  "pool_ok cloud assigned pool \<longleftrightarrow> distinct (map fst cloud) \<and> (\<forall>t. distinct (map ci_id (dict_get pool t [])) \<and>
     (\<forall>c \<in> set (dict_get pool t []). (ci_id c, c) \<in> set cloud \<and> ci_type c = t \<and> ci_id c \<notin> set assigned))"

lemma pool_ok_start: "cloud_ok cloud \<Longrightarrow> pool_ok cloud assigned (group_unassigned cloud assigned)"
proof -
  assume ok: "cloud_ok cloud"
  have "map ci_id (map snd (filter P cloud)) = map fst (filter P cloud)" for P
    using ok by (auto simp: cloud_ok_def)
  then have "distinct (map ci_id (map snd (filter P cloud)))" for P
    using ok by (simp only: cloud_ok_def distinct_map_filter)
  then show ?thesis using ok unfolding pool_ok_def group_unassigned_get by (auto simp: cloud_ok_def simp del: map_map)
qed

lemma resolve_cases:
  assumes "try_resolve_pending_allocation i pool errors = (u, rest)" and "pool_ok cloud assigned pool"
  obtains (none) "u = None" "rest = pool"
  | (failed) "u = Some (event (inst_id i) ALLOCATION_FAILED)" "rest = pool"
  | (allocated) c where "u = Some ((event (inst_id i) ALLOCATED)\<lparr>upd_cloud_id := ci_id c, upd_node_kind := ci_kind c, upd_instance_type := ci_type c\<rparr>)"
      "(ci_id c, c) \<in> set cloud" "ci_type c = inst_type i" "ci_id c \<notin> set assigned" "pool_ok cloud (ci_id c # assigned) rest"
proof (cases "dict_get pool (inst_type i) []" rule: rev_cases)
  case Nil
  then show ?thesis using assms(1) none failed by (auto simp: try_resolve_pending_allocation_def split: if_splits)
next
  case (snoc cs c)
  have u: "u = Some ((event (inst_id i) ALLOCATED)\<lparr>upd_cloud_id := ci_id c, upd_node_kind := ci_kind c, upd_instance_type := ci_type c\<rparr>)"
    and rest: "rest = AList.update (inst_type i) cs pool"
    using assms(1) snoc by (auto simp: try_resolve_pending_allocation_def Let_def split: list.splits)
      (metis append_is_Nil_conv list.discI last_snoc butlast_snoc last.simps butlast.simps)+
  have c: "(ci_id c, c) \<in> set cloud" "ci_type c = inst_type i" "ci_id c \<notin> set assigned" "ci_id c \<notin> ci_id ` set cs" "distinct (map ci_id cs)"
    "\<forall>d \<in> set cs. (ci_id d, d) \<in> set cloud \<and> ci_type d = inst_type i \<and> ci_id d \<notin> set assigned"
    using assms(2) snoc unfolding pool_ok_def by (auto dest: spec [of _ "inst_type i"])
  have "pool_ok cloud (ci_id c # assigned) rest"
    unfolding pool_ok_def
  proof (intro conjI allI)
    show dist: "distinct (map fst cloud)" using assms(2) by (simp add: pool_ok_def)
    fix t
    have p: "distinct (map ci_id (dict_get pool t []))"
      "\<forall>d \<in> set (dict_get pool t []). (ci_id d, d) \<in> set cloud \<and> ci_type d = t \<and> ci_id d \<notin> set assigned"
      using assms(2) by (simp_all add: pool_ok_def)
    show "distinct (map ci_id (dict_get rest t []))" using p(1) c(5) by (simp add: rest dict_get_update)
    show "\<forall>d \<in> set (dict_get rest t []). (ci_id d, d) \<in> set cloud \<and> ci_type d = t \<and> ci_id d \<notin> set (ci_id c # assigned)"
    proof (cases "t = inst_type i")
      case True
      have "ci_id d \<noteq> ci_id c" if "d \<in> set cs" for d using that c(4) by (metis imageI)
      then show ?thesis using True c(6) by (auto simp: rest dict_get_update)
    next
      case False
      have "d = c" if "(ci_id d, d) \<in> set cloud" "ci_id d = ci_id c" for d
        using that c(1) dist by (metis eq_key_imp_eq_value)
      then have "ci_id d \<noteq> ci_id c" if "d \<in> set (dict_get pool t [])" for d using that p(2) c(2) False by metis
      then show ?thesis using p(2) False by (auto simp: rest dict_get_update)
    qed
  qed
  then show ?thesis using u c(1-3) allocated by blast
qed

text \<open>What the allocation does with each requested row: every event is for its row, a cloud instance
  is given away at most once and only when no other row had it.\<close>

definition allocation_event :: "(string, cloud_instance) dict \<Rightarrow> inst \<Rightarrow> update_event \<Rightarrow> bool" where
  "allocation_event cloud i e \<longleftrightarrow> e = event (inst_id i) ALLOCATION_FAILED \<or>
     (\<exists>c. (ci_id c, c) \<in> set cloud \<and> ci_type c = inst_type i \<and>
        e = (event (inst_id i) ALLOCATED)\<lparr>upd_cloud_id := ci_id c, upd_node_kind := ci_kind c, upd_instance_type := ci_type c\<rparr>)"

definition given_ids :: "updates \<Rightarrow> string list" where
  "given_ids ups = map (\<lambda>(k, e). upd_cloud_id e) (filter (\<lambda>(k, e). upd_new_status e = ALLOCATED) ups)"

lemma allocation_loop_events:
  assumes "pool_ok cloud assigned pool" and "distinct (map inst_id is)" and "fst ` set ups \<inter> inst_id ` set is = {}"
  shows "\<exists>new. allocation_loop errors is pool ups = ups @ new \<and> distinct (map fst new) \<and> fst ` set new \<subseteq> inst_id ` set is \<and>
    (\<forall>(k, e) \<in> set new. \<exists>i \<in> set is. inst_id i = k \<and> allocation_event cloud i e) \<and>
    distinct (given_ids new) \<and> set (given_ids new) \<inter> set assigned = {}"
  using assms
proof (induction "is" arbitrary: assigned pool ups)
  case (Cons i "is")
  obtain u rest where u: "try_resolve_pending_allocation i pool errors = (u, rest)" by fastforce
  have dist: "distinct (map inst_id is)" "inst_id i \<notin> inst_id ` set is" using Cons.prems(2) by auto
  show ?case
  proof (rule resolve_cases [OF u Cons.prems(1)], goal_cases none failed allocated)
    case none
    then show ?thesis using Cons.IH [OF Cons.prems(1) dist(1), of ups] Cons.prems(3) u by fastforce
  next
    case failed
    let ?e = "event (inst_id i) ALLOCATION_FAILED"
    have ups: "add_event i ?e ups = ups @ [(inst_id i, ?e)]"
      using Cons.prems(3) by (auto simp: add_event_def update_fresh)
    obtain new where new: "allocation_loop errors is pool (ups @ [(inst_id i, ?e)]) = (ups @ [(inst_id i, ?e)]) @ new"
      "distinct (map fst new)" "fst ` set new \<subseteq> inst_id ` set is"
      "\<forall>(k, e) \<in> set new. \<exists>i \<in> set is. inst_id i = k \<and> allocation_event cloud i e"
      "distinct (given_ids new)" "set (given_ids new) \<inter> set assigned = {}"
      using Cons.IH [OF Cons.prems(1) dist(1), of "ups @ [(inst_id i, ?e)]"] Cons.prems(3) dist(2) by auto
    show ?thesis
      using new dist(2) u failed ups
      by (intro exI [of _ "(inst_id i, ?e) # new"]) (auto simp: given_ids_def allocation_event_def)
  next
    case (allocated c)
    let ?e = "(event (inst_id i) ALLOCATED)\<lparr>upd_cloud_id := ci_id c, upd_node_kind := ci_kind c, upd_instance_type := ci_type c\<rparr>"
    have ups: "add_event i ?e ups = ups @ [(inst_id i, ?e)]"
      using Cons.prems(3) by (auto simp: add_event_def update_fresh)
    obtain new where new: "allocation_loop errors is rest (ups @ [(inst_id i, ?e)]) = (ups @ [(inst_id i, ?e)]) @ new"
      "distinct (map fst new)" "fst ` set new \<subseteq> inst_id ` set is"
      "\<forall>(k, e) \<in> set new. \<exists>i \<in> set is. inst_id i = k \<and> allocation_event cloud i e"
      "distinct (given_ids new)" "set (given_ids new) \<inter> set (ci_id c # assigned) = {}"
      using Cons.IH [OF allocated(5) dist(1), of "ups @ [(inst_id i, ?e)]"] Cons.prems(3) dist(2) by auto
    have "allocation_event cloud i ?e" using allocated(2,3) by (auto simp: allocation_event_def)
    then show ?thesis
      using new dist(2) u allocated ups
      by (intro exI [of _ "(inst_id i, ?e) # new"]) (auto simp: given_ids_def)
  qed
qed (simp add: given_ids_def)

lemma handle_allocation_events:
  assumes "cloud_ok cloud" and "distinct (map inst_id instances)"
    and "handle_cloud_instance_allocation cloud errors instances = Inr ups"
  shows "distinct (map fst ups)" and "distinct (given_ids ups)" and "set (given_ids ups) \<inter> set (active_cloud_ids instances) = {}"
    and "(k, e) \<in> set ups \<Longrightarrow> \<exists>i \<in> set instances. inst_id i = k \<and> inst_status i = REQUESTED \<and> allocation_event cloud i e"
proof -
  let ?r = "sort_key (\<lambda>i. get_status_transition_times_ns i (Some REQUESTED)) (filter (\<lambda>i. inst_status i = REQUESTED) instances)"
  have "mset (map inst_id ?r) = mset (map inst_id (filter (\<lambda>i. inst_status i = REQUESTED) instances))" by (simp only: mset_map mset_sort)
  then have d: "distinct (map inst_id ?r)"
    using assms(2) distinct_map_filter mset_eq_imp_distinct_iff by metis
  have "ups = allocation_loop (launch_errors_of errors) ?r (group_unassigned cloud (active_cloud_ids instances)) []"
    using assms(3) by (simp add: handle_cloud_instance_allocation_def Let_def split: if_splits)
  with allocation_loop_events [OF pool_ok_start [OF assms(1), of "active_cloud_ids instances"] d, where ups = "[]"]
  have n: "distinct (map fst ups) \<and> distinct (given_ids ups) \<and> set (given_ids ups) \<inter> set (active_cloud_ids instances) = {} \<and>
    (\<forall>(k, e) \<in> set ups. \<exists>i \<in> set ?r. inst_id i = k \<and> allocation_event cloud i e)" by auto
  show "distinct (map fst ups)" "distinct (given_ids ups)" "set (given_ids ups) \<inter> set (active_cloud_ids instances) = {}" using n by blast+
  show "\<exists>i \<in> set instances. inst_id i = k \<and> inst_status i = REQUESTED \<and> allocation_event cloud i e" if "(k, e) \<in> set ups"
    using n that by fastforce
qed

lemma rows_ok_row:
  assumes "rows_ok is" and "i \<in> set is" and "upd_instance_id u = inst_id i" and "fields_ok u"
    and "upd_new_status u \<in> set (get_valid_transitions (inst_status i))"
  shows "accepts is u"
  using assms accepts_row by (simp add: rows_ok_def)

lemma rows_okD: "rows_ok is \<Longrightarrow> i \<in> set is \<Longrightarrow> row_ok i" "rows_ok is \<Longrightarrow> i \<in> set is \<Longrightarrow> life_ok i"
  by (auto simp: rows_ok_def)

interpretation allocation: sound_handler "handle_cloud_instance_allocation cloud errors" "\<lambda>_. cloud_ok cloud"
  for cloud errors
proof
  show "all_events creates ups" if "handle_cloud_instance_allocation cloud errors instances = Inr ups" for instances ups
  proof -
    have "all_events creates (allocation_loop es is pool us)" if "all_events creates us" for es "is" pool us
      using that
    proof (induction "is" arbitrary: pool us)
      case (Cons i "is")
      obtain u rest where u: "try_resolve_pending_allocation i pool es = (u, rest)" by fastforce
      have "creates e" if "u = Some e" for e
        using u that by (auto simp: try_resolve_pending_allocation_def Let_def split: list.splits if_splits)
      then show ?case
        using Cons.IH [OF Cons.prems, of rest] Cons.IH [OF all_events_add [OF Cons.prems, of _ i], of _ rest] u
        by (cases u) simp_all
    qed simp
    then show ?thesis using that by (auto simp: handle_cloud_instance_allocation_def Let_def split: if_splits)
  qed
  show "\<exists>ups. handle_cloud_instance_allocation cloud errors instances = Inr ups \<and> all_events (accepts instances) ups"
    if r: "rows_ok instances" and c: "cloud_ok cloud" for instances
  proof -
    have "\<not> list_ex (\<lambda>i. inst_launch_request_id i = []) (filter (\<lambda>i. inst_status i = REQUESTED) instances)"
      using rows_okD(1) [OF r] by (auto simp: list_ex_iff row_ok_def)
    then obtain ups where u: "handle_cloud_instance_allocation cloud errors instances = Inr ups"
      by (simp add: handle_cloud_instance_allocation_def Let_def)
    have "accepts instances e" if m: "(k, e) \<in> set ups" for k e
    proof -
      obtain i where i: "i \<in> set instances" "inst_id i = k" "inst_status i = REQUESTED" "allocation_event cloud i e"
        using handle_allocation_events(4) [OF c _ u m] r by (auto simp: rows_ok_def)
      have "fields_ok e" using i(4) c by (auto simp: allocation_event_def fields_ok_def event_def cloud_ok_def)
      then show ?thesis using i by (intro rows_ok_row [OF r i(1)]) (auto simp: allocation_event_def event_def)
    qed
    then show ?thesis using u by (auto simp: all_events_def)
  qed
qed

lemma dict_of_mem: "(k, v) \<in> set (dict_update ps d) \<Longrightarrow> (k, v) \<in> set ps \<or> (k, v) \<in> set d"
proof (induction ps arbitrary: d)
  case (Cons p ps)
  have "set (AList.update a b d) \<subseteq> insert (a, b) (set d)" for a b by (induction d) auto
  then show ?case using Cons by (cases p) fastforce
qed simp

interpretation terminated: sound_handler "handle_cloud_instance_terminated cloud" "\<lambda>_. True"
  for cloud
proof
  let ?rows = "\<lambda>instances. dict_of (map (\<lambda>i. (inst_cloud_id i, i)) (filter (\<lambda>i. inst_cloud_id i \<noteq> [] \<and> inst_status i \<noteq> TERMINATED) instances))"
  show "all_events creates ups" if "handle_cloud_instance_terminated cloud instances = Inr ups" for instances ups
    using that unfolding handle_cloud_instance_terminated_def Let_def
    by (auto intro!: all_events_fold all_events_add split: prod.splits)
  show "\<exists>ups. handle_cloud_instance_terminated cloud instances = Inr ups \<and> all_events (accepts instances) ups"
    if r: "rows_ok instances" for instances
  proof -
    have "accepts instances ((event (inst_id i) TERMINATED)\<lparr>upd_cloud_id := c\<rparr>)" if "(c, i) \<in> set (?rows instances)" for c i
    proof -
      have i: "i \<in> set instances" "inst_cloud_id i \<noteq> []" "inst_status i \<noteq> TERMINATED" using dict_of_mem [OF that] by auto
      then show ?thesis using rows_okD(1) [OF r i(1)] by (intro rows_ok_row [OF r i(1)])
        (cases "inst_status i"; auto simp: row_ok_def is_cloud_instance_allocated_def fields_ok_def event_def)+
    qed
    then show ?thesis unfolding handle_cloud_instance_terminated_def Let_def
      by (auto intro!: all_events_fold all_events_add split: prod.splits)
  qed
qed

interpretation termination_errors: sound_handler "handle_cloud_instance_termination_errors errors" "\<lambda>_. True"
  for errors
proof
  let ?rows = "\<lambda>instances. dict_of (map (\<lambda>i. (inst_cloud_id i, i)) (filter (\<lambda>i. inst_status i = TERMINATING) instances))"
  show "all_events creates ups" if "handle_cloud_instance_termination_errors errors instances = Inr ups" for instances ups
    using that unfolding handle_cloud_instance_termination_errors_def Let_def
    by (auto intro!: all_events_fold all_events_add split: prod.splits option.splits)
  show "\<exists>ups. handle_cloud_instance_termination_errors errors instances = Inr ups \<and> all_events (accepts instances) ups"
    if r: "rows_ok instances" for instances
  proof -
    have "accepts instances (event (inst_id i) TERMINATION_FAILED)" if "map_of (?rows instances) c = Some i" for c i
    proof -
      have i: "i \<in> set instances" "inst_status i = TERMINATING" using dict_of_mem [OF map_of_SomeD [OF that]] by auto
      then show ?thesis by (intro rows_ok_row [OF r i(1)]) (auto simp: fields_ok_def event_def)
    qed
    then show ?thesis unfolding handle_cloud_instance_termination_errors_def Let_def
      by (auto intro!: all_events_fold all_events_add split: prod.splits option.splits)
  qed
qed

definition fresh_ids :: "(nat \<Rightarrow> string) \<Rightarrow> inst list \<Rightarrow> bool" where
  "fresh_ids rid is \<longleftrightarrow> inj rid \<and> range rid \<inter> inst_id ` set is = {}"

interpretation extra_ray: sound_handler "handle_extra_from_ray_nodes rid nodes"
  "\<lambda>is. fresh_ids rid is \<and> (\<forall>n \<in> set nodes. ns_type_name n \<noteq> [])"
  for rid nodes
proof
  show "all_events creates ups" if "handle_extra_from_ray_nodes rid nodes instances = Inr ups" for instances ups
    using that unfolding handle_extra_from_ray_nodes_def Let_def
    by (auto intro!: all_events_fold all_events_update simp: creates_def event_def split: prod.splits)
  show "\<exists>ups. handle_extra_from_ray_nodes rid nodes instances = Inr ups \<and> all_events (accepts instances) ups"
    if "rows_ok instances" and p: "fresh_ids rid instances \<and> (\<forall>n \<in> set nodes. ns_type_name n \<noteq> [])" for instances
  proof -
    have "rid k \<noteq> inst_id i" if "i \<in> set instances" for k i using p that by (metis fresh_ids_def IntI emptyE imageI rangeI)
    moreover have "n \<in> set nodes" if "(k, n) \<in> set (enumerate 0 nodes)" for k n using that by (auto simp: in_set_enumerate_eq)
    ultimately show ?thesis using p unfolding handle_extra_from_ray_nodes_def Let_def
      by (auto intro!: all_events_fold all_events_update accepts_new simp: fields_ok_def event_def split: prod.splits)
  qed
qed

interpretation extra_cloud: sound_handler "handle_extra_from_cloud_provider rid cloud" "\<lambda>is. fresh_ids rid is \<and> cloud_ok cloud"
  for rid cloud
proof
  show "all_events creates ups" if "handle_extra_from_cloud_provider rid cloud instances = Inr ups" for instances ups
    using that unfolding handle_extra_from_cloud_provider_def
    by (auto intro!: all_events_fold all_events_update simp: creates_def event_def split: prod.splits)
  show "\<exists>ups. handle_extra_from_cloud_provider rid cloud instances = Inr ups \<and> all_events (accepts instances) ups"
    if "rows_ok instances" and p: "fresh_ids rid instances \<and> cloud_ok cloud" for instances
  proof -
    have "rid k \<noteq> inst_id i" if "i \<in> set instances" for k i using p that by (metis fresh_ids_def IntI emptyE imageI rangeI)
    moreover have "ci_id c = d \<and> d \<noteq> [] \<and> ci_type c \<noteq> [] \<and> ci_kind c \<in> {WORKER, HEAD}" if "(k, d, c) \<in> set (enumerate 0 cloud)" for k d c
      using that p by (auto simp: cloud_ok_def in_set_enumerate_eq dest!: nth_mem)
    ultimately show ?thesis unfolding handle_extra_from_cloud_provider_def
      by (auto intro!: all_events_fold all_events_update accepts_new simp: fields_ok_def event_def split: prod.splits)
  qed
qed

subsection \<open>Ray nodes\<close>

interpretation install_failed: sound_handler "handle_ray_install_failed errors" "\<lambda>_. True"
  for errors
proof
  show "all_events creates ups" if "handle_ray_install_failed errors instances = Inr ups" for instances ups
    using that unfolding handle_ray_install_failed_def by (auto intro!: all_events_fold all_events_add)
  show "\<exists>ups. handle_ray_install_failed errors instances = Inr ups \<and> all_events (accepts instances) ups"
    if r: "rows_ok instances" for instances
    unfolding handle_ray_install_failed_def
    by (auto intro!: all_events_fold all_events_add rows_ok_row [OF r] simp: fields_ok_def)
qed

interpretation missing_nodes: sound_handler "handle_missing_ray_nodes nodes" "\<lambda>_. True"
  for nodes
proof
  show "all_events creates ups" if "handle_missing_ray_nodes nodes instances = Inr ups" for instances ups
    using that unfolding handle_missing_ray_nodes_def by (auto intro!: all_events_fold all_events_add)
  show "\<exists>ups. handle_missing_ray_nodes nodes instances = Inr ups \<and> all_events (accepts instances) ups"
    if r: "rows_ok instances" for instances
    unfolding handle_missing_ray_nodes_def
    by (auto intro!: all_events_fold all_events_add rows_ok_row [OF r] simp: fields_ok_def)
qed

definition stop_errors_ok :: "string list \<Rightarrow> node_state list \<Rightarrow> inst list \<Rightarrow> bool" where
  "stop_errors_ok errors nodes is \<longleftrightarrow> (\<forall>i \<in> set is. inst_status i = RAY_STOP_REQUESTED \<and> inst_id i \<in> set errors \<longrightarrow>
     (\<exists>n. map_of (dict_of (map (\<lambda>n. (ns_node_id n, n)) nodes)) (inst_node_id i) = Some n \<and> ns_status n \<in> {NS_RUNNING, NS_IDLE}))"

lemma rfold_Inr_ex:
  "(\<And>x s. x \<in> set xs \<Longrightarrow> P s \<Longrightarrow> \<exists>s'. f x s = Inr s' \<and> P s') \<Longrightarrow> P s \<Longrightarrow> \<exists>s'. rfold f xs s = Inr s' \<and> P s'"
proof (induction xs arbitrary: s)
  case (Cons x xs)
  obtain s1 where "f x s = Inr s1" "P s1" using Cons.prems by (meson list.set_intros(1))
  then show ?case using Cons.IH [of s1] Cons.prems(1) by auto
qed simp

interpretation stop_failed: sound_handler "handle_ray_stop_failed errors nodes" "stop_errors_ok errors nodes"
  for errors nodes
proof
  show "all_events creates ups" if "handle_ray_stop_failed errors nodes instances = Inr ups" for instances ups
    using that unfolding handle_ray_stop_failed_def
    by (rule all_events_rfold) (auto simp: stop_failed_update_def intro!: all_events_add split: if_splits option.splits)
  show "\<exists>ups. handle_ray_stop_failed errors nodes instances = Inr ups \<and> all_events (accepts instances) ups"
    if r: "rows_ok instances" and p: "stop_errors_ok errors nodes instances" for instances
    unfolding handle_ray_stop_failed_def
  proof (rule rfold_Inr_ex [where P = "all_events (accepts instances)"])
    fix i us
    assume "i \<in> set (filter (\<lambda>i. inst_status i = RAY_STOP_REQUESTED) instances)" and us: "all_events (accepts instances) us"
    then have i: "i \<in> set instances" "inst_status i = RAY_STOP_REQUESTED" by auto
    have node: "inst_node_id i \<noteq> []" using rows_okD(1) [OF r i(1)] i(2) by (simp add: row_ok_def)
    then have "accepts instances ((event (inst_id i) RAY_RUNNING)\<lparr>upd_ray_node_id := inst_node_id i\<rparr>)"
      using i(2) by (intro rows_ok_row [OF r i(1)]) (simp_all add: fields_ok_def event_def)
    then show "\<exists>us'. stop_failed_update errors (dict_of (map (\<lambda>n. (ns_node_id n, n)) nodes)) i us = Inr us' \<and> all_events (accepts instances) us'"
      using bspec [OF p [unfolded stop_errors_ok_def] i(1)] i(2) node us by (auto simp: stop_failed_update_def intro: all_events_add)
  qed simp
qed

text \<open>A node report that fits the rows: a known status, a row that has the node or its cloud instance unless
  the node is not managed at all, and no row that gave up on Ray before its node reported. For a
  read-only provider the node id is the id of the cloud instance.\<close>

definition reported_cloud_id :: "bool \<Rightarrow> node_state \<Rightarrow> string" where
  "reported_cloud_id read_only n = (if read_only then ns_node_id n else ns_instance_id n)"

definition nodes_ok :: "bool \<Rightarrow> node_state list \<Rightarrow> inst list \<Rightarrow> bool" where
  "nodes_ok read_only nodes is \<longleftrightarrow> (\<forall>n \<in> set nodes. ns_status n \<noteq> NS_UNSPECIFIED \<and>
     (\<not> read_only \<and> ns_instance_id n = [] \<or> (\<exists>i \<in> set is. inst_node_id i \<noteq> [] \<and> inst_node_id i = ns_node_id n) \<or>
      reported_cloud_id read_only n \<in> set (active_cloud_ids is)) \<and>
     (\<forall>i \<in> set is. inst_status i \<in> {ALLOCATION_TIMEOUT, RAY_INSTALL_FAILED} \<or> inst_status i = RAY_INSTALLING \<and> ns_status n = NS_DRAINING \<longrightarrow>
        inst_node_id i \<noteq> ns_node_id n \<and> inst_cloud_id i \<noteq> reported_cloud_id read_only n))"

lemma map_of_dict_of_Some: "map_of (dict_of (map (\<lambda>i. (f i, i)) xs)) k = Some x \<Longrightarrow> x \<in> set xs \<and> f x = k"
  by (drule map_of_SomeD, drule dict_of_mem) auto

lemma map_of_dict_of_ex: "k \<in> f ` set xs \<Longrightarrow> \<exists>x. map_of (dict_of (map (\<lambda>i. (f i, i)) xs)) k = Some x"
proof -
  assume "k \<in> f ` set xs"
  then have "k \<in> fst ` set (dict_of (map (\<lambda>i. (f i, i)) xs))" by (simp add: keys_dict_update image_image)
  then show ?thesis by (metis map_of_eq_None_iff not_Some_eq)
qed

lemma reachable_from_stopped:
  "set (get_reachable_statuses RAY_STOPPED) = {TERMINATING, TERMINATED, TERMINATION_FAILED}"
  by code_simp

lemma find_im_instance_ok:
  assumes "n \<in> set nodes" and "nodes_ok read_only nodes is"
    and "by_node_id = dict_of (map (\<lambda>i. (inst_node_id i, i)) (filter (\<lambda>i. inst_node_id i \<noteq> []) is))"
    and "by_cloud_id = dict_of (map (\<lambda>i. (inst_cloud_id i, i))
           (filter (\<lambda>i. inst_cloud_id i \<noteq> [] \<and> inst_status i \<notin> {TERMINATED, ALLOCATION_FAILED}) is))"
  shows "\<exists>found. find_im_instance read_only by_node_id by_cloud_id n = Inr found \<and>
    (\<forall>i. found = Some i \<longrightarrow> i \<in> set is \<and> (inst_node_id i \<noteq> [] \<or> inst_cloud_id i \<noteq> []) \<and>
       (inst_node_id i = ns_node_id n \<or> inst_cloud_id i = reported_cloud_id read_only n))"
proof (cases "map_of by_node_id (ns_node_id n)")
  case (Some i)
  have "i \<in> set (filter (\<lambda>i. inst_node_id i \<noteq> []) is) \<and> inst_node_id i = ns_node_id n"
    by (rule map_of_dict_of_Some) (use Some assms(3) in simp)
  then show ?thesis using Some by (auto simp: find_im_instance_def)
next
  case None
  have "ns_node_id n \<notin> inst_node_id ` set (filter (\<lambda>i. inst_node_id i \<noteq> []) is)"
  proof
    assume "ns_node_id n \<in> inst_node_id ` set (filter (\<lambda>i. inst_node_id i \<noteq> []) is)"
    from map_of_dict_of_ex [OF this] None show False unfolding assms(3) by simp
  qed
  then have "\<not> (\<exists>i \<in> set is. inst_node_id i \<noteq> [] \<and> inst_node_id i = ns_node_id n)" by force
  then have "\<not> read_only \<and> ns_instance_id n = [] \<or> reported_cloud_id read_only n \<in> set (active_cloud_ids is)"
    using assms(1,2) unfolding nodes_ok_def by blast
  then show ?thesis
  proof
    assume "reported_cloud_id read_only n \<in> set (active_cloud_ids is)"
    then have "reported_cloud_id read_only n \<in> inst_cloud_id ` set (filter (\<lambda>i. inst_cloud_id i \<noteq> [] \<and> inst_status i \<notin> {TERMINATED, ALLOCATION_FAILED}) is)"
      by (simp only: active_cloud_ids_def set_map)
    from map_of_dict_of_ex [OF this] obtain i where i: "map_of by_cloud_id (reported_cloud_id read_only n) = Some i" unfolding assms(4) ..
    have "i \<in> set (filter (\<lambda>i. inst_cloud_id i \<noteq> [] \<and> inst_status i \<notin> {TERMINATED, ALLOCATION_FAILED}) is) \<and> inst_cloud_id i = reported_cloud_id read_only n"
      by (rule map_of_dict_of_Some) (use i assms(4) in simp)
    then show ?thesis using None i by (auto simp: find_im_instance_def reported_cloud_id_def split: if_splits)
  qed (use None in \<open>auto simp: find_im_instance_def\<close>)
qed

lemma reconciled_step:
  assumes "row_ok i" and "inst_node_id i \<noteq> [] \<or> inst_cloud_id i \<noteq> []" and "ns \<noteq> NS_UNSPECIFIED"
    and "\<not> (inst_status i \<in> {ALLOCATION_TIMEOUT, RAY_INSTALL_FAILED} \<or> inst_status i = RAY_INSTALLING \<and> ns = NS_DRAINING)"
  shows "\<exists>st. reconciled_im_status_from_ray_status ns (inst_status i) = Inr st \<and>
    (st = inst_status i \<or> st \<in> {RAY_RUNNING, RAY_STOPPED, RAY_STOPPING} \<and> st \<in> set (get_valid_transitions (inst_status i)))"
proof -
  have c: "inst_cloud_id i \<noteq> []" using assms(1,2) by (cases "inst_cloud_id i = []") (simp_all add: row_ok_def)
  have "inst_status i \<notin> {UNKNOWN, QUEUED, REQUESTED, ALLOCATION_FAILED}"
    using assms(1) c by (cases "inst_status i") (simp_all add: row_ok_def is_cloud_instance_allocated_def)
  then show ?thesis using assms(3,4)
    by (cases "inst_status i"; cases ns) (simp_all add: reconciled_im_status_from_ray_status_def reachable_table reachable_from_stopped)
qed

interpretation ray_status: sound_handler "handle_ray_status_transition read_only nodes"
  "\<lambda>is. nodes_ok read_only nodes is \<and> (\<forall>n \<in> set nodes. ns_node_id n \<noteq> [])"
  for read_only nodes
proof
  show "all_events creates ups" if "handle_ray_status_transition read_only nodes instances = Inr ups" for instances ups
    using that unfolding handle_ray_status_transition_def Let_def
    by (rule all_events_rfold) (auto simp: ray_status_update_def rbind_eq_Inr intro!: all_events_update split: option.splits)
  show "\<exists>ups. handle_ray_status_transition read_only nodes instances = Inr ups \<and> all_events (accepts instances) ups"
    if r: "rows_ok instances" and p: "nodes_ok read_only nodes instances \<and> (\<forall>n \<in> set nodes. ns_node_id n \<noteq> [])" for instances
    unfolding handle_ray_status_transition_def Let_def
  proof (rule rfold_Inr_ex [where P = "all_events (accepts instances)"])
    fix n us
    assume n: "n \<in> set nodes" and us: "all_events (accepts instances) us"
    let ?d = "dict_of (map (\<lambda>i. (inst_node_id i, i)) (filter (\<lambda>i. inst_node_id i \<noteq> []) instances))"
    let ?c = "dict_of (map (\<lambda>i. (inst_cloud_id i, i))
      (filter (\<lambda>i. inst_cloud_id i \<noteq> [] \<and> inst_status i \<notin> {TERMINATED, ALLOCATION_FAILED}) instances))"
    obtain found where f: "find_im_instance read_only ?d ?c n = Inr found"
      "\<forall>i. found = Some i \<longrightarrow> i \<in> set instances \<and> (inst_node_id i \<noteq> [] \<or> inst_cloud_id i \<noteq> []) \<and>
        (inst_node_id i = ns_node_id n \<or> inst_cloud_id i = reported_cloud_id read_only n)"
      using find_im_instance_ok [OF n _ refl refl, of read_only instances] p by blast
    show "\<exists>us'. ray_status_update read_only ?d ?c n us = Inr us' \<and> all_events (accepts instances) us'"
    proof (cases found)
      case None
      then show ?thesis using f(1) p us by (simp add: ray_status_update_def)
    next
      case (Some i)
      with f(2) have i: "i \<in> set instances" "inst_node_id i \<noteq> [] \<or> inst_cloud_id i \<noteq> []"
        "inst_node_id i = ns_node_id n \<or> inst_cloud_id i = reported_cloud_id read_only n" by blast+
      have n': "ns_status n \<noteq> NS_UNSPECIFIED" "\<not> (inst_status i \<in> {ALLOCATION_TIMEOUT, RAY_INSTALL_FAILED} \<or> inst_status i = RAY_INSTALLING \<and> ns_status n = NS_DRAINING)"
        using p n i(1,3) unfolding nodes_ok_def by blast+
      obtain st where st: "reconciled_im_status_from_ray_status (ns_status n) (inst_status i) = Inr st"
        "st = inst_status i \<or> st \<in> {RAY_RUNNING, RAY_STOPPED, RAY_STOPPING} \<and> st \<in> set (get_valid_transitions (inst_status i))"
        using reconciled_step [OF rows_okD(1) [OF r i(1)] i(2) n'] by blast
      have "accepts instances ((event (inst_id i) st)\<lparr>upd_ray_node_id := ns_node_id n, upd_instance_type := inst_type i\<rparr>)" if "st \<noteq> inst_status i"
        using st(2) that p n by (intro rows_ok_row [OF r i(1)]) (auto simp: fields_ok_def)
      then show ?thesis using f(1) p us Some st(1) by (simp add: ray_status_update_def all_events_update)
    qed
  qed simp
qed

subsection \<open>Stuck instances\<close>

lemma life_times: "life_ok i \<Longrightarrow> get_status_transition_times_ns i (Some (inst_status i)) \<noteq> []"
proof -
  assume "life_ok i"
  then have "last (inst_history i) \<in> set (get_status_transitions i (Some (inst_status i)))"
    by (simp add: get_status_transitions_def life_ok_def)
  then show ?thesis by (auto simp: get_status_transition_times_ns_def)
qed

lemma life_timeout: "life_ok i \<Longrightarrow> \<exists>b. has_timeout now i timeout_s = Inr b"
  using life_times [of i] by (cases "get_status_transition_times_ns i (Some (inst_status i))")
    (simp_all add: has_timeout_def Let_def)

lemma warn_ok: "rows_ok is \<Longrightarrow> warn_stuck_instances is st = Inr ()"
  using life_times rows_okD(2) by (fastforce simp: warn_stuck_instances_def list_ex_iff)

text \<open>One round over the instances of a status: an event per instance, or none.\<close>

lemma stuck_round:
  assumes "all_events P us" and "\<And>i. i \<in> set is \<Longrightarrow> \<exists>u. f i = Inr u \<and> (\<forall>e. u = Some e \<longrightarrow> P e)"
  shows "\<exists>us'. rfold (stuck_update f) is us = Inr us' \<and> all_events P us'"
proof (rule rfold_Inr_ex [where P = "all_events P", OF _ assms(1)])
  fix i us
  assume "i \<in> set is" and us: "all_events P us"
  then obtain u where "f i = Inr u" "\<forall>e. u = Some e \<longrightarrow> P e" using assms(2) by blast
  then show "\<exists>us'. stuck_update f i us = Inr us' \<and> all_events P us'"
    using us by (cases u) (simp_all add: stuck_update_def all_events_add)
qed

lemma stuck_creates:
  assumes "all_events creates us" and "\<And>i u. f i = Inr (Some u) \<Longrightarrow> creates u" and "rfold (stuck_update f) is us = Inr us'"
  shows "all_events creates us'"
  using assms(3,1)
  by (rule all_events_rfold) (auto simp: stuck_update_def rbind_eq_Inr intro!: all_events_add assms(2) split: option.splits)

lemma stuck_steps:
  "handle_stuck_requested_instance now t m i = Inr (Some u) \<Longrightarrow> u \<in> {event (inst_id i) ALLOCATION_FAILED, event (inst_id i) QUEUED}"
  "handle_stuck_instance now t mk i = Inr (Some u) \<Longrightarrow> u = mk i"
  "handle_allocated now t i = Inr (Some u) \<Longrightarrow>
     u = (event (inst_id i) ALLOCATION_TIMEOUT)\<lparr>upd_cloud_id := inst_cloud_id i, upd_instance_type := inst_type i\<rparr>"
  by (auto simp: handle_stuck_requested_instance_def handle_stuck_instance_def handle_allocated_def rbind_eq_Inr split: if_splits)

lemma stuck_total:
  assumes "life_ok i" and "row_ok i"
  shows "\<exists>u. handle_stuck_requested_instance now t m i = Inr u" and "\<exists>u. handle_stuck_instance now t mk i = Inr u"
    and "inst_status i = ALLOCATED \<Longrightarrow> \<exists>u. handle_allocated now t i = Inr u"
  using life_timeout [OF assms(1), of now t] assms(2)
  by (auto simp: handle_stuck_requested_instance_def handle_stuck_instance_def handle_allocated_def row_ok_def is_cloud_instance_allocated_def)

lemma stuck_accepts:
  assumes r: "rows_ok is" and us: "all_events (accepts is) us" and total: "\<And>i. i \<in> set is \<Longrightarrow> inst_status i = st \<Longrightarrow> \<exists>u. f i = Inr u"
    and step: "\<And>i e. i \<in> set is \<Longrightarrow> inst_status i = st \<Longrightarrow> f i = Inr (Some e) \<Longrightarrow>
      upd_instance_id e = inst_id i \<and> fields_ok e \<and> upd_new_status e \<in> set (get_valid_transitions st)"
  shows "\<exists>us'. rfold (stuck_update f) (filter (\<lambda>i. inst_status i = st) is) us = Inr us' \<and> all_events (accepts is) us'"
proof (rule stuck_round [OF us])
  fix i
  assume "i \<in> set (filter (\<lambda>i. inst_status i = st) is)"
  then have i: "i \<in> set is" "inst_status i = st" by simp_all
  then obtain u where u: "f i = Inr u" using total by blast
  have "accepts is e" if "u = Some e" for e
    using step [OF i] u that by (intro rows_ok_row [OF r i(1)]) (simp_all add: i(2))
  with u show "\<exists>u. f i = Inr u \<and> (\<forall>e. u = Some e \<longrightarrow> accepts is e)" by blast
qed

lemma rbind_chain: "\<exists>x. m = Inr x \<and> P x \<Longrightarrow> (\<And>x. P x \<Longrightarrow> \<exists>y. f x = Inr y \<and> Q y) \<Longrightarrow> \<exists>y. rbind m f = Inr y \<and> Q y"
  by force

lemma stuck_creates_all: "handle_stuck_instances rc now instances = Inr ups \<Longrightarrow> all_events creates ups"
proof -
  assume "handle_stuck_instances rc now instances = Inr ups"
  then obtain u1 u2 u3 u4 where
    u: "rfold (stuck_update (handle_stuck_requested_instance now (request_status_timeout_s rc) (max_num_retry_request_to_allocate rc)))
         (filter (\<lambda>i. inst_status i = REQUESTED) instances) [] = Inr u1"
      "rfold (stuck_update (handle_allocated now (allocate_status_timeout_s rc))) (filter (\<lambda>i. inst_status i = ALLOCATED) instances) u1 = Inr u2"
      "rfold (stuck_update (handle_stuck_instance now (ray_install_status_timeout_s rc) (\<lambda>i. event (inst_id i) RAY_INSTALL_FAILED)))
         (filter (\<lambda>i. inst_status i = RAY_INSTALLING) instances) u2 = Inr u3"
      "rfold (stuck_update (handle_stuck_instance now (terminating_status_timeout_s rc) (\<lambda>i. event (inst_id i) TERMINATION_FAILED)))
         (filter (\<lambda>i. inst_status i = TERMINATING) instances) u3 = Inr u4"
      "rfold (stuck_update (handle_stuck_instance now (ray_stop_requested_status_timeout_s rc)
           (\<lambda>i. (event (inst_id i) RAY_RUNNING)\<lparr>upd_ray_node_id := inst_node_id i\<rparr>)))
         (filter (\<lambda>i. inst_status i = RAY_STOP_REQUESTED) instances) u4 = Inr ups"
    unfolding handle_stuck_instances_def Let_def rbind_eq_Inr by blast
  have "all_events creates u1" by (rule stuck_creates [OF all_events_Nil _ u(1)]) (auto dest: stuck_steps)
  then have "all_events creates u2" by (rule stuck_creates [OF _ _ u(2)]) (auto dest: stuck_steps)
  then have "all_events creates u3" by (rule stuck_creates [OF _ _ u(3)]) (auto dest: stuck_steps)
  then have "all_events creates u4" by (rule stuck_creates [OF _ _ u(4)]) (auto dest: stuck_steps)
  then show ?thesis by (rule stuck_creates [OF _ _ u(5)]) (auto dest: stuck_steps)
qed

interpretation stuck: sound_handler "handle_stuck_instances rc now" "\<lambda>_. True"
  for rc now
proof
  show "all_events creates ups" if "handle_stuck_instances rc now instances = Inr ups" for instances ups
    by (rule stuck_creates_all [OF that])
  show "\<exists>ups. handle_stuck_instances rc now instances = Inr ups \<and> all_events (accepts instances) ups"
    if r: "rows_ok instances" for instances
  proof -
    note ok = rows_okD [OF r]
    let ?acc = "all_events (accepts instances)"
    let ?round = "\<lambda>f st us. \<exists>us'. rfold (stuck_update f) (filter (\<lambda>i. inst_status i = st) instances) us = Inr us' \<and> ?acc us'"
    have r1: "?round (handle_stuck_requested_instance now t m) REQUESTED us" if "?acc us" for t m us
      by (rule stuck_accepts [OF r that]) (use stuck_total(1) ok in blast, drule stuck_steps, auto simp: fields_ok_def)
    have r2: "?round (handle_allocated now t) ALLOCATED us" if "?acc us" for t us
      by (rule stuck_accepts [OF r that]) (use stuck_total(3) ok in blast, drule stuck_steps, auto simp: fields_ok_def)
    have r3: "?round (handle_stuck_instance now t (\<lambda>i. event (inst_id i) RAY_INSTALL_FAILED)) RAY_INSTALLING us" if "?acc us" for t us
      by (rule stuck_accepts [OF r that]) (use stuck_total(2) ok in blast, drule stuck_steps, auto simp: fields_ok_def)
    have r4: "?round (handle_stuck_instance now t (\<lambda>i. event (inst_id i) TERMINATION_FAILED)) TERMINATING us" if "?acc us" for t us
      by (rule stuck_accepts [OF r that]) (use stuck_total(2) ok in blast, drule stuck_steps, auto simp: fields_ok_def)
    have node: "inst_node_id i \<noteq> []" if "i \<in> set instances" "inst_status i = RAY_STOP_REQUESTED" for i
      using ok(1) [OF that(1)] that(2) by (simp add: row_ok_def)
    have r5: "?round (handle_stuck_instance now t (\<lambda>i. (event (inst_id i) RAY_RUNNING)\<lparr>upd_ray_node_id := inst_node_id i\<rparr>)) RAY_STOP_REQUESTED us"
      if "?acc us" for t us
      by (rule stuck_accepts [OF r that]) (use stuck_total(2) ok in blast, drule stuck_steps, auto simp: fields_ok_def node)
    have w: "rmap (warn_stuck_instances instances) xs = Inr (map (\<lambda>_. ()) xs)" for xs
      by (rule rmap_Inr_map) (rule warn_ok [OF r])
    show ?thesis unfolding handle_stuck_instances_def Let_def w rbind_simps
      by (rule rbind_chain [where P = ?acc], rule r1 [OF all_events_Nil], rule rbind_chain [where P = ?acc], erule r2,
          rule rbind_chain [where P = ?acc], erule r3, rule rbind_chain [where P = ?acc], erule r4,
          rule rbind_chain [where P = ?acc], erule r5) simp
  qed
qed

subsection \<open>Launching and terminating\<close>

lemma group_instances_get: "dict_get (group_instances is) t [] = filter (\<lambda>i. inst_type i = t) is"
proof -
  have "dict_get (fold (\<lambda>i d. AList.update (inst_type i) (dict_get d (inst_type i) [] @ [i]) d) is d) t [] =
      dict_get d t [] @ filter (\<lambda>i. inst_type i = t) is" for d
    by (induction "is" arbitrary: d) (auto simp: dict_get_update)
  from this [of "[]"] show ?thesis by (simp add: group_instances_def dict_get_def)
qed

lemma group_instances_keys: "distinct (map fst (group_instances is))" "fst ` set (group_instances is) = inst_type ` set is"
proof -
  let ?f = "\<lambda>i d. AList.update (inst_type i) (dict_get d (inst_type i) [] @ [i]) d"
  have "distinct (map fst d) \<Longrightarrow> distinct (map fst (fold ?f is d))" for d
    by (induction "is" arbitrary: d) (auto simp: distinct_update)
  then show "distinct (map fst (group_instances is))" by (simp add: group_instances_def)
  have "fst ` set (fold ?f is d) = inst_type ` set is \<union> fst ` set d" for d
    by (induction "is" arbitrary: d) (auto simp: dom_update)
  then show "fst ` set (group_instances is) = inst_type ` set is" by (simp add: group_instances_def)
qed

lemma group_instances_mem: "(t, qs) \<in> set (group_instances is) \<Longrightarrow> qs = filter (\<lambda>i. inst_type i = t) is"
  using group_instances_keys(1) [of "is"] group_instances_get [of "is" t] by (simp add: dict_get_def)

text \<open>What is launched of one type is the head of its queue, oldest first.\<close>

lemma to_launch_loop_mem:
  "(t, chosen) \<in> set (to_launch_loop speed m running groups requested) \<Longrightarrow>
   \<exists>queued k. (t, queued) \<in> set groups \<and> chosen = take k (sort_key (\<lambda>i. sort (get_status_transition_times_ns i (Some QUEUED))) queued)"
proof (induction groups arbitrary: requested)
  case (Cons g groups)
  obtain t' queued where g: "g = (t', queued)" by fastforce
  have "\<exists>k requested'. to_launch_loop speed m running (g # groups) requested =
      (t', take k (sort_key (\<lambda>i. sort (get_status_transition_times_ns i (Some QUEUED))) queued)) # to_launch_loop speed m running groups requested'"
    unfolding g to_launch_loop.simps Let_def by blast
  then show ?case using Cons g by (metis Pair_inject list.set_intros set_ConsD)
qed simp

lemma compute_to_launch_mem:
  assumes "(t, chosen) \<in> set (compute_to_launch queued requested running speed m)" and "i \<in> set chosen"
  shows "i \<in> set queued" and "inst_type i = t"
proof -
  obtain qs k where "(t, qs) \<in> set (group_instances queued)"
    and "chosen = take k (sort_key (\<lambda>i. sort (get_status_transition_times_ns i (Some QUEUED))) qs)"
    using to_launch_loop_mem assms(1) unfolding compute_to_launch_def by blast
  then have "i \<in> set (filter (\<lambda>i. inst_type i = t) queued)"
    using assms(2) group_instances_mem by (metis in_set_takeD set_sort)
  then show "i \<in> set queued" and "inst_type i = t" by simp_all
qed

interpretation instances_launch: sound_handler "handle_instances_launch new_id config"
  "\<lambda>is. new_id \<noteq> [] \<and> (\<forall>i \<in> set is. inst_status i = QUEUED \<longrightarrow> inst_type i \<noteq> [])"
  for new_id config
proof
  show "all_events creates ups" if "handle_instances_launch new_id config instances = Inr ups" for instances ups
    using that unfolding handle_instances_launch_def Let_def
    by (auto intro!: all_events_fold all_events_add split: prod.splits)
  show "\<exists>ups. handle_instances_launch new_id config instances = Inr ups \<and> all_events (accepts instances) ups"
    if r: "rows_ok instances" and p: "new_id \<noteq> [] \<and> (\<forall>i \<in> set instances. inst_status i = QUEUED \<longrightarrow> inst_type i \<noteq> [])" for instances
  proof -
    let ?w = "\<lambda>st. filter (\<lambda>i. inst_status i = st) instances"
    let ?l = "compute_to_launch (?w QUEUED) (?w REQUESTED) (?w RAY_RUNNING) (ac_upscaling_speed config) (ac_max_concurrent_launches config)"
    let ?e = "\<lambda>t i. (event (inst_id i) REQUESTED)\<lparr>upd_launch_request_id := (if inst_launch_request_id i = [] then new_id else inst_launch_request_id i),
      upd_instance_type := t\<rparr>"
    have acc: "accepts instances (?e t i)" if "(t, is) \<in> set ?l" "i \<in> set is" for t "is" i
    proof -
      have i: "i \<in> set instances" "inst_status i = QUEUED" "inst_type i = t" using compute_to_launch_mem [OF that] by simp_all
      show ?thesis using p i by (intro rows_ok_row [OF r i(1)]) (auto simp: fields_ok_def)
    qed
    have "all_events (accepts instances) (fold (\<lambda>(t, is). fold (\<lambda>i. add_event i (?e t i)) is) ?l [])"
    proof (rule all_events_fold)
      fix g us
      assume g: "g \<in> set ?l" and us: "all_events (accepts instances) us"
      obtain t "is" where ti: "g = (t, is)" by fastforce
      have "all_events (accepts instances) (fold (\<lambda>i. add_event i (?e t i)) is us)"
        by (rule all_events_fold [OF _ us]) (rule all_events_add, assumption, rule acc, use g ti in auto)
      then show "all_events (accepts instances) ((case g of (t, is) \<Rightarrow> fold (\<lambda>i. add_event i (?e t i)) is) us)" using ti by simp
    qed simp
    then show ?thesis unfolding handle_instances_launch_def Let_def by blast
  qed
qed

interpretation terminating: sound_handler terminate_instances "\<lambda>_. True"
proof
  show "all_events creates ups" if "terminate_instances instances = Inr ups" for instances ups
    using that unfolding terminate_instances_def Let_def by (auto intro!: all_events_fold all_events_add)
  show "\<exists>ups. terminate_instances instances = Inr ups \<and> all_events (accepts instances) ups" if r: "rows_ok instances" for instances
  proof -
    have "inst_cloud_id i \<noteq> []" if "i \<in> set instances" "inst_status i \<in> {RAY_STOPPED, ALLOCATION_TIMEOUT, RAY_INSTALL_FAILED, TERMINATION_FAILED}" for i
      using rows_okD(1) [OF r that(1)] that(2) by (cases "inst_status i") (simp_all add: row_ok_def is_cloud_instance_allocated_def)
    then show ?thesis unfolding terminate_instances_def Let_def
      by (auto intro!: all_events_fold all_events_add rows_ok_row [OF r] simp: fields_ok_def)
  qed
qed

interpretation installing: sound_handler "install_ray cloud"
  "\<lambda>is. \<forall>i \<in> set is. inst_status i = ALLOCATED \<longrightarrow> inst_cloud_id i \<in> fst ` set cloud"
  for cloud
proof
  show "all_events creates ups" if "install_ray cloud instances = Inr ups" for instances ups
    using that unfolding install_ray_def
    by (rule all_events_rfold) (auto simp: install_ray_update_def intro!: all_events_add split: if_splits option.splits)
  show "\<exists>ups. install_ray cloud instances = Inr ups \<and> all_events (accepts instances) ups"
    if r: "rows_ok instances" and p: "\<forall>i \<in> set instances. inst_status i = ALLOCATED \<longrightarrow> inst_cloud_id i \<in> fst ` set cloud" for instances
    unfolding install_ray_def
  proof (rule rfold_Inr_ex [where P = "all_events (accepts instances)"])
    fix i us
    assume i: "i \<in> set instances" and us: "all_events (accepts instances) us"
    have "accepts instances (event (inst_id i) RAY_INSTALLING)" if "inst_status i = ALLOCATED"
      using that by (intro rows_ok_row [OF r i]) (simp_all add: fields_ok_def)
    moreover have "\<exists>c. map_of cloud (inst_cloud_id i) = Some c" if "inst_status i = ALLOCATED"
      using p i that by (metis map_of_eq_None_iff not_None_eq)
    ultimately show "\<exists>us'. install_ray_update cloud i us = Inr us' \<and> all_events (accepts instances) us'"
      using us by (cases "inst_status i = ALLOCATED") (auto simp: install_ray_update_def intro: all_events_add)
  qed simp
qed

end
