(* ===== verification/Reconciler_Props.thy ===== *)
theory Reconciler_Props
  imports Reconciler_Handlers
begin

section \<open>Autoscaler v2: properties of the reconciler\<close>

text \<open>
  The tables that reconciling can lead to, passes that raised half way included; the rows stay
  consistent in all of them, the handlers raise nothing when what they observe fits the rows, and
  the launches stay within the limits.
\<close>

subsection \<open>Reachable tables\<close>

text \<open>The handlers of a pass, in their order but for scaling.\<close>

definition step_handlers :: "autoscaling_config \<Rightarrow> observation \<Rightarrow> handler list" where
  "step_handlers config ob =
     [handle_missing_ray_nodes (rs_nodes (ob_ray ob)), handle_stuck_instances (ac_reconcile config) (ob_now ob),
      handle_instances_launch (ob_launch_request_id ob) config, terminate_instances, install_ray (ob_cloud ob)]"

inductive rec_reach :: "(inst \<Rightarrow> 'v) \<Rightarrow> ('v \<Rightarrow> inst) \<Rightarrow> string \<Rightarrow> 'v mem_storage \<Rightarrow> bool" for ser par cid where
  start: "rec_reach ser par cid mem_init"
| handler: "rec_reach ser par cid s \<Longrightarrow> h \<in> set (sync_handlers config ob @ step_handlers config ob) \<Longrightarrow>
    run_handler ser par cid now h (ev, s) = Inr (ev', s') \<Longrightarrow> rec_reach ser par cid s'"
| scale: "rec_reach ser par cid s \<Longrightarrow> scale_cluster cg rid config rs ps (listed par cid s) = Inr (reply, ups) \<Longrightarrow>
    update_instance_manager ser par cid now (sto_version s) ups s = Inr (notified, s') \<Longrightarrow> rec_reach ser par cid s'"

lemma pass_handlers_create: "h \<in> set (sync_handlers config ob @ step_handlers config ob) \<Longrightarrow> creating_handler h"
  using allocation.creating_handler_axioms terminated.creating_handler_axioms termination_errors.creating_handler_axioms
    extra_ray.creating_handler_axioms extra_cloud.creating_handler_axioms ray_status.creating_handler_axioms
    install_failed.creating_handler_axioms stop_failed.creating_handler_axioms missing_nodes.creating_handler_axioms
    stuck.creating_handler_axioms instances_launch.creating_handler_axioms terminating.creating_handler_axioms
    installing.creating_handler_axioms
  by (auto simp: sync_handlers_def step_handlers_def)

lemma scale_creates: "scale_cluster cg rid config rs ps instances = Inr (reply, ups) \<Longrightarrow> all_events creates ups"
proof -
  assume s: "scale_cluster cg rid config rs ps instances = Inr (reply, ups)"
  have "all_events creates us" if "rfold (terminate_update instances) trs [] = Inr us" for trs us
    using that by (rule all_events_rfold)
      (auto simp: terminate_update_def Let_def intro!: all_events_update split: if_splits option.splits)
  then have "all_events creates ups" if "scale_updates rid reply instances = Inr ups" for reply ups
    using that by (auto simp: scale_updates_def rbind_eq_Inr launch_update_def creates_def split: prod.splits
        intro!: all_events_fold all_events_update)
  then show ?thesis using s by (auto simp: scale_cluster_def rbind_eq_Inr split: prod.splits if_splits)
qed

lemma rec_reach_table:
  assumes "rec_reach ser par cid s" and "\<And>i. par (ser i) = i"
  shows "table_ok par cid s"
  using assms(1)
proof (induction rule: rec_reach.induct)
  case start
  show ?case by (rule table_ok_init)
next
  case (handler s h config ob now ev ev' s')
  then show ?case using creating_handler.keeps_table [OF pass_handlers_create] assms(2) by blast
next
  case (scale s cg rid config rs ps reply ups now notified s')
  then show ?case using update_manager_table [OF scale.IH assms(2) scale_creates] by blast
qed

lemma run_handlers_reach:
  assumes "run_handlers ser par cid now hs (ev, s) = Inr (ev', s')" and "rec_reach ser par cid s"
    and "set hs \<subseteq> set (sync_handlers config ob @ step_handlers config ob)"
  shows "rec_reach ser par cid s'"
proof -
  have "rec_reach ser par cid (snd (ev', s'))"
    using assms(1) unfolding run_handlers_def
  proof (rule rfold_invariant [where P = "\<lambda>st. rec_reach ser par cid (snd st)"])
    show "rec_reach ser par cid (snd (ev, s))" using assms(2) by simp
    fix h st st'
    assume "h \<in> set hs" "rec_reach ser par cid (snd st)" "run_handler ser par cid now h st = Inr st'"
    then show "rec_reach ser par cid (snd st')"
      using assms(3) rec_reach.handler [of ser par cid "snd st" h config ob now "fst st" "fst st'" "snd st'"] by auto
  qed
  then show ?thesis by simp
qed

lemma reconcile_reach:
  assumes "reconcile cg ser par cid config ob s = Inr (state, ippr, ev, s')" and "rec_reach ser par cid s"
  shows "rec_reach ser par cid s'"
proof -
  obtain ev0 s0 where a: "run_handlers ser par cid (ob_now ob) (sync_handlers config ob) ([], s) = Inr (ev0, s0)"
    and b: "\<exists>state. step_next cg ser par cid config ob (ev0, s0) = Inr (state, ippr, ev, s')"
    using assms(1) by (auto simp: reconcile_def sync_from_def rbind_eq_Inr split: prod.splits)
  from b obtain ev1 s1 reply ups notified s2 ev3 where
    c: "run_handlers ser par cid (ob_now ob) [handle_missing_ray_nodes (rs_nodes (ob_ray ob)), handle_stuck_instances (ac_reconcile config) (ob_now ob)]
         (ev0, s0) = Inr (ev1, s1)"
    and d: "scale_cluster cg (ob_new_ids ob) config (ob_ray ob) (ob_provider ob) (listed par cid s1) = Inr (reply, ups)"
      "update_instance_manager ser par cid (ob_now ob) (snd (get_instance_manager_state par cid s1)) ups s1 = Inr (notified, s2)"
    and e: "run_handlers ser par cid (ob_now ob) ([handle_instances_launch (ob_launch_request_id ob) config, terminate_instances] @
         (if ac_disable_node_updaters config then [] else [install_ray (ob_cloud ob)])) (ev1 @ notified, s2) = Inr (ev3, s')"
    unfolding step_next_def rbind_eq_Inr by (fastforce simp: rbind_eq_Inr Let_def split: prod.splits)
  have "rec_reach ser par cid s0" by (rule run_handlers_reach [OF a assms(2)]) auto
  then have "rec_reach ser par cid s1" by (rule run_handlers_reach [OF c]) (auto simp: step_handlers_def)
  then have "rec_reach ser par cid s2" by (rule rec_reach.scale [OF _ d(1) d(2) [unfolded listed_pairs(2)]])
  then show ?thesis by (rule run_handlers_reach [OF e]) (auto simp: step_handlers_def)
qed

subsection \<open>Consistent rows\<close>

definition lone_node :: "(string, cloud_instance) dict" where
  "lone_node = [(''c1'', \<lparr>ci_id = ''c1'', ci_type = ''worker'', ci_kind = WORKER, ci_running = True\<rparr>)]"

definition quiet_observation :: "(string, cloud_instance) dict \<Rightarrow> observation" where
  "quiet_observation cloud =
     \<lparr>ob_now = 5, ob_cloud = cloud, ob_cloud_errors = [], ob_install_errors = [], ob_stop_errors = [],
      ob_ray = \<lparr>rs_nodes = [], rs_requests = [], rs_gang_requests = [], rs_constraints = [], rs_version = 1\<rparr>,
      ob_provider = \<lparr>ps_cloud_availability = [], ps_recoverable_availability = [], ps_ippr_specs = None, ps_ippr_statuses = []\<rparr>,
      ob_ray_ids = (\<lambda>k. ''r'' @ replicate k CHR ''x''), ob_cloud_ids = (\<lambda>k. ''c'' @ replicate k CHR ''x''),
      ob_new_ids = (\<lambda>k. ''n'' @ replicate k CHR ''x''), ob_launch_request_id = ''lr''\<rparr>"

text \<open>C9: in every table that reconciling can lead to, also after a pass that raised half way, a row
  that is not terminated has a cloud instance exactly when its status says that one is allocated;
  a row with a cloud instance has a node kind and a type, one without has no Ray node; a requested
  row has its launch request and its type; a row in RAY_RUNNING or RAY_STOP_REQUESTED has its Ray
  node (a row in RAY_STOPPING need not); and a pass that returns leads to such a table again.\<close>

theorem reconciled_rows_consistent:
  assumes "rec_reach ser par cid s" and "\<And>i. par (ser i) = i" and "stored par cid s k = Some i"
  shows "inst_id i = k \<and>
    (inst_status i \<noteq> TERMINATED \<longrightarrow> is_cloud_instance_allocated (inst_status i) = Inr (inst_cloud_id i \<noteq> [])) \<and>
    (inst_cloud_id i \<noteq> [] \<longrightarrow> inst_node_kind i \<in> {WORKER, HEAD} \<and> inst_type i \<noteq> []) \<and>
    (inst_cloud_id i = [] \<longrightarrow> inst_node_id i = []) \<and>
    (inst_status i = REQUESTED \<longrightarrow> inst_launch_request_id i \<noteq> [] \<and> inst_type i \<noteq> []) \<and>
    (inst_status i \<in> {RAY_RUNNING, RAY_STOP_REQUESTED} \<longrightarrow> inst_node_id i \<noteq> []) \<and>
    (\<forall>state ippr ev s'. reconcile cg ser par cid config ob s = Inr (state, ippr, ev, s') \<longrightarrow> rec_reach ser par cid s')"
proof -
  have "row_ok i \<and> inst_id i = k" using rec_reach_table [OF assms(1,2)] assms(3) by (simp add: table_ok_def store_ok_def)
  then show ?thesis using reconcile_reach assms(1) unfolding row_ok_def by blast
qed

definition lone_table :: "inst mem_storage" where
  "lone_table = snd (projr (run_handler (\<lambda>i. i) (\<lambda>i. i) ''k'' 5
     (handle_extra_from_cloud_provider (ob_cloud_ids (quiet_observation lone_node)) lone_node) ([], mem_init)))"

definition lone_row :: inst where
  "lone_row = \<lparr>inst_version = 1, inst_id = ''c'', inst_type = ''worker'', inst_status = ALLOCATED, inst_cloud_id = ''c1'',
     inst_node_kind = WORKER, inst_node_id = [], inst_launch_request_id = [],
     inst_history = [\<lparr>entry_status = ALLOCATED, entry_timestamp_ns = 5, entry_details = []\<rparr>]\<rparr>"

lemma lone_table_reach: "rec_reach (\<lambda>i. i) (\<lambda>i. i) ''k'' lone_table"
proof -
  let ?ob = "quiet_observation lone_node"
  let ?h = "handle_extra_from_cloud_provider (ob_cloud_ids ?ob) (ob_cloud ?ob)"
  have "case run_handler (\<lambda>i. i) (\<lambda>i. i) ''k'' 5 ?h ([], mem_init) of Inl _ \<Rightarrow> False | Inr _ \<Rightarrow> True" by code_simp
  then have "run_handler (\<lambda>i. i) (\<lambda>i. i) ''k'' 5 ?h ([], mem_init) = Inr (fst (projr (run_handler (\<lambda>i. i) (\<lambda>i. i) ''k'' 5 ?h ([], mem_init))), lone_table)"
    by (simp add: lone_table_def quiet_observation_def split: sum.splits)
  moreover have "?h \<in> set (sync_handlers config ?ob @ step_handlers config ?ob)" for config by (simp add: sync_handlers_def)
  ultimately show ?thesis using rec_reach.handler [OF rec_reach.start] by blast
qed

lemma lone_table_row: "stored (\<lambda>i. i) ''k'' lone_table ''c'' = Some lone_row" "listed (\<lambda>i. i) ''k'' lone_table = [lone_row]"
  by code_simp+

theorem reconciled_rows_consistent_witness:
  "stored (\<lambda>i. i) ''k'' lone_table ''c'' = Some lone_row \<and> inst_cloud_id lone_row \<noteq> [] \<and> inst_node_kind lone_row \<in> {WORKER, HEAD}"
  using reconciled_rows_consistent [OF lone_table_reach refl lone_table_row(1)] lone_table_row(1)
  by (simp add: lone_row_def)

subsection \<open>Handlers that return\<close>

text \<open>The handlers that need nothing of the rows.\<close>

definition plain_handlers :: "autoscaling_config \<Rightarrow> observation \<Rightarrow> handler list" where
  "plain_handlers config ob =
     [handle_cloud_instance_allocation (ob_cloud ob) (ob_cloud_errors ob), handle_cloud_instance_terminated (ob_cloud ob),
      handle_cloud_instance_termination_errors (ob_cloud_errors ob), handle_ray_install_failed (ob_install_errors ob),
      handle_missing_ray_nodes (rs_nodes (ob_ray ob)), handle_stuck_instances (ac_reconcile config) (ob_now ob), terminate_instances]"

lemma plain_handler_returns:
  assumes "h \<in> set (plain_handlers config ob)" and "cloud_ok (ob_cloud ob)" and "table_ok par cid s" and "\<And>i. par (ser i) = i"
  shows "\<exists>ups s'. h (listed par cid s) = Inr ups \<and> run_handler ser par cid now h (ev, s) = Inr (ev @ map snd ups, s')"
proof -
  have plain: "\<exists>ups s'. h (listed par cid s) = Inr ups \<and> run_handler ser par cid now h (ev, s) = Inr (ev @ map snd ups, s')"
    if "sound_handler h (\<lambda>_. True)" for h
    using sound_handler.returns [OF that assms(3,4)] by blast
  show ?thesis
    using assms(1) allocation.returns [OF assms(3,4,2)] plain [OF terminated.sound_handler_axioms] plain [OF termination_errors.sound_handler_axioms]
      plain [OF install_failed.sound_handler_axioms] plain [OF missing_nodes.sound_handler_axioms] plain [OF stuck.sound_handler_axioms]
      plain [OF terminating.sound_handler_axioms]
    unfolding plain_handlers_def by auto
qed

text \<open>C11: from every table that reconciling can lead to, any sequence of the handlers that follow the
  cloud provider, the installers, the missing nodes and the timeouts returns, in any order and with
  any observations whose cloud instances are well formed: no assertion of a handler or of the
  instance manager fails on the way.\<close>

theorem plain_handlers_return:
  assumes "rec_reach ser par cid s" and "\<And>i. par (ser i) = i"
    and "\<forall>h \<in> set hs. \<exists>config ob. cloud_ok (ob_cloud ob) \<and> h \<in> set (plain_handlers config ob)"
  shows "\<exists>ev' s'. run_handlers ser par cid now hs (ev, s) = Inr (ev', s') \<and> rec_reach ser par cid s'"
  using assms(1,3)
proof (induction hs arbitrary: ev s)
  case (Cons h hs)
  obtain config ob where h: "cloud_ok (ob_cloud ob)" "h \<in> set (plain_handlers config ob)" using Cons.prems(2) by auto
  obtain ev1 s1 where r: "run_handler ser par cid now h (ev, s) = Inr (ev1, s1)"
    using plain_handler_returns [OF h(2,1) rec_reach_table [OF Cons.prems(1) assms(2)] assms(2)] by blast
  have "h \<in> set (sync_handlers config ob @ step_handlers config ob)"
    using h(2) by (auto simp: plain_handlers_def sync_handlers_def step_handlers_def)
  then have "rec_reach ser par cid s1" by (rule rec_reach.handler [OF Cons.prems(1) _ r])
  then show ?case using Cons.IH [of s1 ev1] Cons.prems(2) r by (auto simp: run_handlers_def)
qed (auto simp: run_handlers_def)

theorem plain_handlers_return_witness:
  "\<exists>ev' s'. run_handlers (\<lambda>i. i) (\<lambda>i. i) ''k'' 9
     [handle_cloud_instance_terminated [], terminate_instances, handle_cloud_instance_terminated lone_node] ([], lone_table) = Inr (ev', s') \<and>
     rec_reach (\<lambda>i. i) (\<lambda>i. i) ''k'' s'"
proof (rule plain_handlers_return [OF lone_table_reach refl], rule ballI)
  fix h
  assume "h \<in> set [handle_cloud_instance_terminated [], terminate_instances, handle_cloud_instance_terminated lone_node]"
  moreover have "cloud_ok (ob_cloud (quiet_observation []))" "cloud_ok (ob_cloud (quiet_observation lone_node))"
    by (simp_all add: quiet_observation_def cloud_ok_def lone_node_def)
  moreover have "handle_cloud_instance_terminated [] \<in> set (plain_handlers c (quiet_observation []))"
    "terminate_instances \<in> set (plain_handlers c (quiet_observation []))"
    "handle_cloud_instance_terminated lone_node \<in> set (plain_handlers c (quiet_observation lone_node))" for c
    by (simp_all add: plain_handlers_def quiet_observation_def)
  ultimately show "\<exists>config ob. cloud_ok (ob_cloud ob) \<and> h \<in> set (plain_handlers config ob)"
    by (metis empty_iff empty_set set_ConsD)
qed

text \<open>What a pass observes fits the rows.\<close>

definition fits :: "autoscaling_config \<Rightarrow> observation \<Rightarrow> inst list \<Rightarrow> bool" where
  "fits config ob is \<longleftrightarrow> cloud_ok (ob_cloud ob) \<and> ob_launch_request_id ob \<noteq> [] \<and>
     fresh_ids (ob_ray_ids ob) is \<and> fresh_ids (ob_cloud_ids ob) is \<and>
     (\<forall>n \<in> set (rs_nodes (ob_ray ob)). ns_type_name n \<noteq> [] \<and> ns_node_id n \<noteq> []) \<and>
     nodes_ok (ac_provider config = READ_ONLY) (rs_nodes (ob_ray ob)) is \<and> stop_errors_ok (ob_stop_errors ob) (rs_nodes (ob_ray ob)) is \<and>
     (\<forall>i \<in> set is. (inst_status i = QUEUED \<longrightarrow> inst_type i \<noteq> []) \<and>
        (inst_status i = ALLOCATED \<longrightarrow> inst_cloud_id i \<in> fst ` set (ob_cloud ob)))"

text \<open>C13: when what is observed fits the rows of a table that reconciling can lead to, every handler of a
  pass returns, and the table it leads to is again one that reconciling can lead to. Observations fit
  when the cloud instances are well formed; new ids are fresh and the launch request has a non-empty
  id; every Ray node has a known status, a non-empty id and type name and, unless it names no cloud
  instance and is left alone, a row that has it or its cloud instance, which for a read-only provider
  is the one with the id of the node; no node belongs to a row that gave up on it, and one that drains
  not to a row that is still installing; failed stops are of running nodes; queued rows have a type
  and allocated ones a cloud instance that the provider reports.\<close>

theorem fitting_handlers_return:
  assumes "rec_reach ser par cid s" and "\<And>i. par (ser i) = i" and "fits config ob (listed par cid s)"
    and "h \<in> set (sync_handlers config ob @ step_handlers config ob)"
  shows "\<exists>ups s'. h (listed par cid s) = Inr ups \<and> run_handler ser par cid now h (ev, s) = Inr (ev @ map snd ups, s') \<and> rec_reach ser par cid s'"
proof -
  note t = rec_reach_table [OF assms(1,2)]
  let ?r = "\<lambda>h. \<exists>ups s'. h (listed par cid s) = Inr ups \<and> run_handler ser par cid now h (ev, s) = Inr (ev @ map snd ups, s')"
  have "?r h"
  proof (cases "h \<in> set (plain_handlers config ob)")
    case True
    then show ?thesis using plain_handler_returns [OF True _ t assms(2)] assms(3) by (simp add: fits_def)
  next
    case False
    have f: "?r (handle_extra_from_ray_nodes (ob_ray_ids ob) (rs_nodes (ob_ray ob)))"
      "?r (handle_extra_from_cloud_provider (ob_cloud_ids ob) (ob_cloud ob))"
      "?r (handle_ray_status_transition (ac_provider config = READ_ONLY) (rs_nodes (ob_ray ob)))"
      "?r (handle_ray_stop_failed (ob_stop_errors ob) (rs_nodes (ob_ray ob)))"
      "?r (handle_instances_launch (ob_launch_request_id ob) config)" "?r (install_ray (ob_cloud ob))"
      by (rule extra_ray.returns extra_cloud.returns ray_status.returns stop_failed.returns instances_launch.returns installing.returns,
          rule t, rule assms(2), use assms(3) in \<open>simp add: fits_def\<close>)+
    show ?thesis using assms(4) False f unfolding sync_handlers_def step_handlers_def plain_handlers_def by auto
  qed
  then show ?thesis using rec_reach.handler [OF assms(1,4)] by blast
qed

definition demo_reconcile_config :: autoscaling_config where
  "demo_reconcile_config = \<lparr>ac_provider = AWS, ac_configs = [], ac_max_num_nodes = None, ac_idle_timeout_s = None, ac_disable_check = True,
     ac_upscaling_speed = 1, ac_max_concurrent_launches = 10, ac_disable_node_updaters = False, ac_provider_types = [],
     ac_reconcile = \<lparr>request_status_timeout_s = 600, allocate_status_timeout_s = 300, ray_install_status_timeout_s = 1800,
       terminating_status_timeout_s = 300, ray_stop_requested_status_timeout_s = 300, max_num_retry_request_to_allocate = 3\<rparr>\<rparr>"

lemma replicate_ids: "inj (\<lambda>k. CHR ''r'' # replicate k CHR ''x'')" "inj (\<lambda>k. CHR ''y'' # replicate k CHR ''x'')"
  by (auto intro!: injI)

theorem fitting_handlers_return_witness:
  "\<exists>ups s'. install_ray lone_node [lone_row] = Inr ups \<and>
     run_handler (\<lambda>i. i) (\<lambda>i. i) ''k'' 7 (install_ray lone_node) ([], lone_table) = Inr (map snd ups, s') \<and> rec_reach (\<lambda>i. i) (\<lambda>i. i) ''k'' s'"
proof -
  let ?ob = "quiet_observation lone_node\<lparr>ob_cloud_ids := (\<lambda>k. ''y'' @ replicate k CHR ''x'')\<rparr>"
  have "fits demo_reconcile_config ?ob (listed (\<lambda>i. i) ''k'' lone_table)"
    unfolding lone_table_row(2)
    by (simp add: fits_def quiet_observation_def cloud_ok_def fresh_ids_def replicate_ids nodes_ok_def stop_errors_ok_def
        demo_reconcile_config_def lone_row_def lone_node_def image_iff disjoint_iff)
  moreover have "install_ray lone_node \<in> set (sync_handlers demo_reconcile_config ?ob @ step_handlers demo_reconcile_config ?ob)"
    by (simp add: step_handlers_def quiet_observation_def)
  ultimately show ?thesis
    using fitting_handlers_return [OF lone_table_reach refl, of demo_reconcile_config ?ob "install_ray lone_node" 7 "[]"]
    by (simp add: lone_table_row(2))
qed

subsection \<open>Launch limits\<close>

text \<open>How many instances a round of launches takes, in total and of each type.\<close>

definition launched :: "rat \<Rightarrow> int \<Rightarrow> (string, inst list) dict \<Rightarrow> (string, inst list) dict \<Rightarrow> int \<Rightarrow> int" where
  "launched speed m running groups requested = int (sum_list (map (\<lambda>(t, is). length is) (to_launch_loop speed m running groups requested)))"

lemma to_launch_loop_step:
  fixes m requested :: int
  obtains n c where
    "to_launch_loop speed m running ((t, q) # groups) requested = (t, c) # to_launch_loop speed m running groups (requested + n)"
    "int (length c) = n" "0 \<le> n" "requested + n \<le> max requested m" "n \<le> num_desired_to_upscale speed (length (dict_get running t []))"
    "n = min (int (length q)) (num_desired_to_upscale speed (length (dict_get running t []))) \<or> requested + n \<ge> m"
    "launched speed m running ((t, q) # groups) requested = n + launched speed m running groups (requested + n)"
proof -
  define d where "d = num_desired_to_upscale speed (length (dict_get running t []))"
  define n where "n = min (int (length q)) (max 0 (min (m - requested) d))"
  define c where "c = take (nat n) (sort_key (\<lambda>i. sort (get_status_transition_times_ns i (Some QUEUED))) q)"
  have step: "to_launch_loop speed m running ((t, q) # groups) requested = (t, c) # to_launch_loop speed m running groups (requested + n)"
    by (simp add: Let_def c_def n_def d_def)
  have len: "int (length c) = n" by (auto simp: c_def n_def)
  have d1: "d \<ge> 1" by (simp add: d_def num_desired_to_upscale_def)
  have "0 \<le> n" "requested + n \<le> max requested m" "n \<le> d" "n = min (int (length q)) d \<or> requested + n \<ge> m"
    using d1 unfolding n_def by linarith+
  with step len show ?thesis using that by (simp add: launched_def d_def)
qed

lemma to_launch_loop_bound:
  fixes m requested :: int
  shows "requested + launched speed m running groups requested \<le> max requested m"
proof (induction groups arbitrary: requested)
  case (Cons g groups)
  obtain t q where g: "g = (t, q)" by fastforce
  show ?case unfolding g
  proof (rule to_launch_loop_step [where speed = speed and m = m and running = running and t = t and q = q and groups = groups and requested = requested])
    fix n c
    assume "requested + n \<le> max requested m"
      and "launched speed m running ((t, q) # groups) requested = n + launched speed m running groups (requested + n)"
    then show "requested + launched speed m running ((t, q) # groups) requested \<le> max requested m"
      using Cons.IH [of "requested + n"] by linarith
  qed
qed (simp add: launched_def)

lemma to_launch_loop_quota:
  fixes m requested :: int
  shows "(t, chosen) \<in> set (to_launch_loop speed m running groups requested) \<Longrightarrow>
    int (length chosen) \<le> num_desired_to_upscale speed (length (dict_get running t []))"
proof (induction groups arbitrary: requested)
  case (Cons g groups)
  obtain t' q where g: "g = (t', q)" by fastforce
  obtain n c where s: "to_launch_loop speed m running ((t', q) # groups) requested = (t', c) # to_launch_loop speed m running groups (requested + n)"
    "int (length c) = n" "n \<le> num_desired_to_upscale speed (length (dict_get running t' []))"
    by (rule to_launch_loop_step)
  show ?case using Cons.IH [of "requested + n"] Cons.prems s unfolding g s(1) by auto
qed simp

lemma to_launch_loop_maximal:
  fixes m requested :: int
  shows "(t, queued) \<in> set groups \<Longrightarrow>
    \<exists>chosen. (t, chosen) \<in> set (to_launch_loop speed m running groups requested) \<and>
      (int (length chosen) = min (int (length queued)) (num_desired_to_upscale speed (length (dict_get running t []))) \<or>
       requested + launched speed m running groups requested \<ge> m)"
proof (induction groups arbitrary: requested)
  case (Cons g groups)
  obtain t' q where g: "g = (t', q)" by fastforce
  obtain n c where s: "to_launch_loop speed m running ((t', q) # groups) requested = (t', c) # to_launch_loop speed m running groups (requested + n)"
    "int (length c) = n" "n = min (int (length q)) (num_desired_to_upscale speed (length (dict_get running t' []))) \<or> requested + n \<ge> m"
    "launched speed m running ((t', q) # groups) requested = n + launched speed m running groups (requested + n)"
    by (rule to_launch_loop_step)
  have pos: "launched speed m running groups (requested + n) \<ge> 0" by (simp add: launched_def)
  show ?case
  proof (cases "(t, queued) = (t', q)")
    case True
    then show ?thesis unfolding g s(1,4) using s(2,3) pos by (intro exI [of _ c]) auto
  next
    case False
    then obtain ch where "(t, ch) \<in> set (to_launch_loop speed m running groups (requested + n))"
      "int (length ch) = min (int (length queued)) (num_desired_to_upscale speed (length (dict_get running t []))) \<or>
       (requested + n) + launched speed m running groups (requested + n) \<ge> m"
      using Cons.IH [of "requested + n"] Cons.prems g by auto
    then show ?thesis unfolding g s(1,4) by (intro exI [of _ ch]) auto
  qed
qed simp

lemma fold_add_fresh:
  "distinct (map inst_id is) \<Longrightarrow> inst_id ` set is \<inter> fst ` set ups = {} \<Longrightarrow>
   fold (\<lambda>i. add_event i (e i)) is ups = ups @ map (\<lambda>i. (inst_id i, e i)) is"
proof (induction "is" arbitrary: ups)
  case (Cons i "is")
  have "add_event i (e i) ups = ups @ [(inst_id i, e i)]" using Cons.prems(2) by (auto simp: add_event_def update_fresh)
  then show ?case using Cons.IH [of "ups @ [(inst_id i, e i)]"] Cons.prems by auto
qed simp

lemma fold_groups_fresh:
  "distinct (map inst_id (concat (map snd gs))) \<Longrightarrow> inst_id ` set (concat (map snd gs)) \<inter> fst ` set ups = {} \<Longrightarrow>
   fold (\<lambda>(t, is). fold (\<lambda>i. add_event i (e t i)) is) gs ups = ups @ concat (map (\<lambda>(t, is). map (\<lambda>i. (inst_id i, e t i)) is) gs)"
proof (induction gs arbitrary: ups)
  case (Cons g gs)
  obtain t "is" where g: "g = (t, is)" by fastforce
  have "fold (\<lambda>i. add_event i (e t i)) is ups = ups @ map (\<lambda>i. (inst_id i, e t i)) is"
    by (rule fold_add_fresh) (use Cons.prems g in auto)
  moreover have "fold (\<lambda>(t, is). fold (\<lambda>i. add_event i (e t i)) is) gs (ups @ map (\<lambda>i. (inst_id i, e t i)) is) =
      (ups @ map (\<lambda>i. (inst_id i, e t i)) is) @ concat (map (\<lambda>(t, is). map (\<lambda>i. (inst_id i, e t i)) is) gs)"
  proof (rule Cons.IH)
    let ?r = "set (concat (map snd gs))"
    have "inst_id ` ?r \<inter> fst ` set ups = {}" using Cons.prems(2) g by (simp add: image_Un Int_Un_distrib2)
    moreover have "inst_id ` ?r \<inter> inst_id ` set is = {}" using Cons.prems(1) g by (simp add: Int_commute)
    ultimately show "inst_id ` ?r \<inter> fst ` set (ups @ map (\<lambda>i. (inst_id i, e t i)) is) = {}"
      by (simp add: image_Un image_image Int_Un_distrib del: set_concat)
    show "distinct (map inst_id (concat (map snd gs)))" using Cons.prems(1) g by simp
  qed
  ultimately show ?case by (simp add: g)
qed simp

lemma to_launch_keys:
  "map fst (to_launch_loop speed m running gs r) = map fst gs"
  "distinct (map fst (compute_to_launch queued requested runs speed m))"
  "fst ` set (compute_to_launch queued requested runs speed m) = inst_type ` set queued"
proof -
  show k: "map fst (to_launch_loop speed m running gs r) = map fst gs" for running gs r
    by (induction gs arbitrary: r) (auto simp: Let_def)
  show "distinct (map fst (compute_to_launch queued requested runs speed m))"
    by (simp add: compute_to_launch_def k group_instances_keys)
  show "fst ` set (compute_to_launch queued requested runs speed m) = inst_type ` set queued"
    using arg_cong [OF k, of set] by (simp add: compute_to_launch_def group_instances_keys)
qed

text \<open>The launched instances of all types are different rows.\<close>

lemma to_launch_distinct:
  assumes "distinct (map inst_id queued)"
  shows "distinct (map inst_id (concat (map snd (compute_to_launch queued requested running speed m))))"
proof -
  let ?ok = "\<lambda>gs. distinct (map fst gs) \<and> (\<forall>(t, is) \<in> set gs. distinct is \<and> (\<forall>i \<in> set is. i \<in> set queued \<and> inst_type i = t))"
  have dist: "distinct queued" using assms by (simp add: distinct_map)
  let ?l = "compute_to_launch queued requested running speed m"
  have ok: "?ok ?l"
  proof (intro conjI ballI)
    show "distinct (map fst ?l)" by (rule to_launch_keys)
    fix g
    assume g: "g \<in> set ?l"
    obtain t ch where tc: "g = (t, ch)" by fastforce
    obtain qs k where "(t, qs) \<in> set (group_instances queued)"
      and "ch = take k (sort_key (\<lambda>i. sort (get_status_transition_times_ns i (Some QUEUED))) qs)"
      using to_launch_loop_mem g tc unfolding compute_to_launch_def by blast
    then have "distinct ch" using group_instances_mem dist by (metis distinct_filter distinct_sort distinct_take)
    then show "case g of (t, is) \<Rightarrow> distinct is \<and> (\<forall>i \<in> set is. i \<in> set queued \<and> inst_type i = t)"
      using compute_to_launch_mem g tc by blast
  qed
  have "distinct (concat (map snd gs)) \<and> set (concat (map snd gs)) \<subseteq> set queued" if "?ok gs" for gs
    using that
  proof (induction gs)
    case (Cons g gs)
    obtain t "is" where g: "g = (t, is)" by fastforce
    have "i \<notin> set (concat (map snd gs))" if "i \<in> set is" for i
      using that Cons.prems g by (force simp: image_iff)
    then show ?case using Cons g by auto
  qed simp
  then have "distinct (concat (map snd ?l))" "set (concat (map snd ?l)) \<subseteq> set queued" using ok by blast+
  then show ?thesis using assms by (auto simp: distinct_map intro: inj_on_subset)
qed

lemma filter_groups:
  assumes "\<And>t i. upd_instance_type (e t i) = t"
  shows "distinct (map fst gs) \<Longrightarrow> filter (\<lambda>(k, u). upd_instance_type u = t) (concat (map (\<lambda>(t, is). map (\<lambda>i. (f i, e t i)) is) gs)) =
    map (\<lambda>i. (f i, e t i)) (dict_get gs t [])"
proof (induction gs)
  case (Cons g gs)
  obtain t' "is" where g: "g = (t', is)" by fastforce
  have "filter (\<lambda>(k, u). upd_instance_type u = t) (map (\<lambda>i. (f i, e t' i)) is) = (if t' = t then map (\<lambda>i. (f i, e t' i)) is else [])"
    by (simp add: filter_map comp_def assms)
  moreover have "dict_get gs t [] = []" if "t' = t"
    using that Cons.prems g by (force simp: dict_get_def split: option.splits dest: map_of_SomeD)
  ultimately show ?case using Cons g by (auto simp: dict_get_def)
qed (simp add: dict_get_def)

text \<open>The events of a round of launches, type by type.\<close>

lemma launch_events:
  assumes "distinct (map inst_id instances)" and "handle_instances_launch new_id config instances = Inr ups"
    and l: "l = compute_to_launch (filter (\<lambda>i. inst_status i = QUEUED) instances) (filter (\<lambda>i. inst_status i = REQUESTED) instances)
      (filter (\<lambda>i. inst_status i = RAY_RUNNING) instances) (ac_upscaling_speed config) (ac_max_concurrent_launches config)"
  shows "map fst ups = map inst_id (concat (map snd l))" and "distinct (map fst ups)"
    and "map fst (filter (\<lambda>(k, e). upd_instance_type e = t) ups) = map inst_id (dict_get l t [])"
proof -
  let ?e = "\<lambda>t i. (event (inst_id i) REQUESTED)\<lparr>upd_launch_request_id := (if inst_launch_request_id i = [] then new_id else inst_launch_request_id i),
      upd_instance_type := t\<rparr>"
  have d: "distinct (map inst_id (concat (map snd l)))"
    unfolding l by (rule to_launch_distinct) (use assms(1) distinct_map_filter in blast)
  have "ups = fold (\<lambda>(t, is). fold (\<lambda>i. add_event i (?e t i)) is) l []"
    using assms(2) unfolding handle_instances_launch_def l Let_def by simp
  then have ups: "ups = concat (map (\<lambda>(t, is). map (\<lambda>i. (inst_id i, ?e t i)) is) l)"
    using fold_groups_fresh [OF d, of "[]" ?e] by simp
  show keys: "map fst ups = map inst_id (concat (map snd l))"
    unfolding ups by (induction l) (auto simp: comp_def split: prod.splits)
  then show "distinct (map fst ups)" using d by simp
  have "distinct (map fst l)" unfolding l by (rule to_launch_keys)
  then show "map fst (filter (\<lambda>(k, e). upd_instance_type e = t) ups) = map inst_id (dict_get l t [])"
    unfolding ups by (subst filter_groups) (simp_all add: comp_def)
qed

text \<open>C12: one round of launches asks for queued rows only, keeps the number of requested rows within
  the concurrency limit unless it was over it before, takes of each type at most its upscaling
  quota, namely the oldest in its queue, and takes the whole queue or the whole quota of every type
  unless the limit is reached; so while it is not reached and something is queued, something is launched.\<close>

theorem launches_bounded_and_maximal:
  assumes "distinct (map inst_id instances)" and "handle_instances_launch new_id config instances = Inr ups"
    and w: "w = (\<lambda>st. filter (\<lambda>i. inst_status i = st) instances)" and m: "m = ac_max_concurrent_launches config"
    and q: "quota = (\<lambda>t. num_desired_to_upscale (ac_upscaling_speed config) (length (filter (\<lambda>i. inst_type i = t) (w RAY_RUNNING))))"
    and n: "taken = (\<lambda>t. length (filter (\<lambda>(k, e). upd_instance_type e = t) ups))"
  shows "int (length (w REQUESTED)) + int (length ups) \<le> max (int (length (w REQUESTED))) m \<and>
    distinct (map fst ups) \<and> fst ` set ups \<subseteq> inst_id ` set (w QUEUED) \<and> int (taken t) \<le> quota t \<and>
    map fst (filter (\<lambda>(k, e). upd_instance_type e = t) ups) =
      map inst_id (take (taken t) (sort_key (\<lambda>i. sort (get_status_transition_times_ns i (Some QUEUED))) (filter (\<lambda>i. inst_type i = t) (w QUEUED)))) \<and>
    (int (taken t) = min (int (length (filter (\<lambda>i. inst_type i = t) (w QUEUED)))) (quota t) \<or>
     int (length (w REQUESTED)) + int (length ups) \<ge> m) \<and>
    (w QUEUED \<noteq> [] \<and> int (length (w REQUESTED)) < m \<longrightarrow> ups \<noteq> [])"
proof -
  define l where "l = compute_to_launch (w QUEUED) (w REQUESTED) (w RAY_RUNNING) (ac_upscaling_speed config) m"
  note ev = launch_events [OF assms(1,2) l_def [unfolded w m]]
  note loop = to_launch_loop_bound to_launch_loop_quota to_launch_loop_maximal
  note loop = loop [where speed = "ac_upscaling_speed config" and m = m and running = "group_instances (w RAY_RUNNING)"
      and groups = "group_instances (w QUEUED)" and requested = "int (length (w REQUESTED))", unfolded launched_def, folded compute_to_launch_def,
      folded l_def, unfolded group_instances_get]
  have total: "length ups = sum_list (map (\<lambda>(t, is). length is) l)"
    using arg_cong [OF ev(1), of length] by (simp add: length_concat comp_def case_prod_unfold)
  have bound: "int (length (w REQUESTED)) + int (length ups) \<le> max (int (length (w REQUESTED))) m" using loop(1) total by simp
  have sub: "fst ` set ups \<subseteq> inst_id ` set (w QUEUED)"
  proof -
    have "fst ` set ups = inst_id ` set (concat (map snd l))" using arg_cong [OF ev(1), of set] by simp
    moreover have "set (concat (map snd l)) \<subseteq> set (w QUEUED)" unfolding l_def using compute_to_launch_mem(1) by fastforce
    ultimately show ?thesis by blast
  qed
  have taken: "taken t = length (dict_get l t [])" for t using arg_cong [OF ev(3), of length] unfolding n by simp
  have dl: "distinct (map fst l)" "fst ` set l = inst_type ` set (w QUEUED)" unfolding l_def by (rule to_launch_keys)+
  have grouped: "(t, filter (\<lambda>i. inst_type i = t) (w QUEUED)) \<in> set (group_instances (w QUEUED))" if t: "t \<in> inst_type ` set (w QUEUED)" for t
  proof -
    obtain qs where "(t, qs) \<in> set (group_instances (w QUEUED))" using t group_instances_keys(2) by force
    then show ?thesis using group_instances_mem by metis
  qed
  let ?key = "\<lambda>i. sort (get_status_transition_times_ns i (Some QUEUED))"
  let ?qs = "filter (\<lambda>i. inst_type i = t) (w QUEUED)"
  have quota: "quota t \<ge> 1" by (simp add: q num_desired_to_upscale_def)
  have each: "int (taken t) \<le> quota t \<and> map fst (filter (\<lambda>(k, e). upd_instance_type e = t) ups) = map inst_id (take (taken t) (sort_key ?key ?qs)) \<and>
    (int (taken t) = min (int (length ?qs)) (quota t) \<or> int (length (w REQUESTED)) + int (length ups) \<ge> m)"
  proof (cases "t \<in> inst_type ` set (w QUEUED)")
    case False
    then have "dict_get l t [] = []" using dl(2) by (force simp: dict_get_def split: option.splits dest: map_of_SomeD)
    moreover have "?qs = []" using False by (auto simp: filter_empty_conv)
    ultimately show ?thesis unfolding ev(3) taken using quota by simp
  next
    case True
    then have g: "(t, ?qs) \<in> set (group_instances (w QUEUED))" by (rule grouped)
    obtain ch where ch: "(t, ch) \<in> set l" "int (length ch) = min (int (length ?qs)) (quota t) \<or> int (length (w REQUESTED)) + int (length ups) \<ge> m"
      using loop(3) [OF g] unfolding q total by blast
    have "dict_get l t [] = ch" using ch(1) dl(1) by (simp add: dict_get_def)
    moreover have "int (length ch) \<le> quota t" using loop(2) [OF ch(1)] by (simp add: q)
    moreover obtain k qs where "(t, qs) \<in> set (group_instances (w QUEUED))" "ch = take k (sort_key ?key qs)"
      using to_launch_loop_mem ch(1) unfolding l_def compute_to_launch_def by blast
    then have "ch = take (length ch) (sort_key ?key ?qs)" using group_instances_mem by (metis append_eq_conv_conj append_take_drop_id)
    ultimately show ?thesis unfolding ev(3) taken using ch(2) by simp
  qed
  have "ups \<noteq> []" if w': "w QUEUED \<noteq> []" "int (length (w REQUESTED)) < m"
  proof
    assume u: "ups = []"
    obtain i where i: "i \<in> set (w QUEUED)" using w'(1) by (metis list.set_sel(1))
    let ?t = "inst_type i"
    let ?qi = "filter (\<lambda>j. inst_type j = ?t) (w QUEUED)"
    have g: "(?t, ?qi) \<in> set (group_instances (w QUEUED))" using grouped i by blast
    have a: "int (length ?qi) \<ge> 1" using i by (auto simp: Suc_le_eq filter_empty_conv)
    have b: "num_desired_to_upscale (ac_upscaling_speed config) (length (filter (\<lambda>j. inst_type j = ?t) (w RAY_RUNNING))) \<ge> 1"
      by (simp add: num_desired_to_upscale_def)
    have "int (sum_list (map (\<lambda>(t, is). length is) l)) = 0" using total u by simp
    with loop(3) [OF g] w'(2) a b obtain ch where "(?t, ch) \<in> set l" "int (length ch) \<ge> 1" by auto
    then show False using total u by (force simp: sum_list_eq_0_iff)
  qed
  with each bound ev(2) sub show ?thesis by blast
qed

definition queued_row :: "string \<Rightarrow> int \<Rightarrow> inst" where
  "queued_row iid ts = \<lparr>inst_version = 1, inst_id = iid, inst_type = ''worker'', inst_status = QUEUED, inst_cloud_id = [],
     inst_node_kind = UNMANAGED, inst_node_id = [], inst_launch_request_id = [],
     inst_history = [\<lparr>entry_status = QUEUED, entry_timestamp_ns = ts, entry_details = []\<rparr>]\<rparr>"

definition queued_rows :: "inst list" where
  "queued_rows = [queued_row ''a'' 9, queued_row ''b'' 7, queued_row ''c'' 8]"

theorem launches_bounded_and_maximal_witness:
  "map fst (projr (handle_instances_launch ''lr'' (demo_reconcile_config\<lparr>ac_upscaling_speed := 2\<rparr>) queued_rows)) = [''b'', ''c''] \<and>
     distinct (map fst (projr (handle_instances_launch ''lr'' (demo_reconcile_config\<lparr>ac_upscaling_speed := 2\<rparr>) queued_rows)))"
proof -
  let ?c = "demo_reconcile_config\<lparr>ac_upscaling_speed := 2\<rparr>"
  have e: "map fst (projr (handle_instances_launch ''lr'' ?c queued_rows)) = [''b'', ''c'']" by code_simp
  have "distinct (map inst_id queued_rows)" by (simp add: queued_rows_def queued_row_def)
  moreover have "handle_instances_launch ''lr'' ?c queued_rows = Inr (projr (handle_instances_launch ''lr'' ?c queued_rows))"
    by (simp add: handle_instances_launch_def Let_def)
  ultimately show ?thesis using launches_bounded_and_maximal [OF _ _ refl refl refl refl] e by blast
qed

subsection \<open>Passes that raise\<close>

text \<open>A small cluster: a head, workers of a few types and the rows that manage them.\<close>

definition demo_type :: "string \<Rightarrow> nat \<Rightarrow> nat \<Rightarrow> string \<times> node_type_config" where
  "demo_type t mn mx = (t, \<lparr>nc_name = t, nc_min_workers = int mn, nc_max_workers = int mx, nc_idle_timeout_s = None, nc_priority = 0,
     nc_resources = [(''CPU'', 4)], nc_labels = [], nc_launch_hash = []\<rparr>)"

definition demo_config :: "bool \<Rightarrow> (string \<times> node_type_config) list \<Rightarrow> int option \<Rightarrow> autoscaling_config" where
  "demo_config no_updaters types mx = demo_reconcile_config\<lparr>ac_configs := demo_type ''head'' 0 1 # types, ac_max_num_nodes := mx,
     ac_disable_node_updaters := no_updaters\<rparr>"

definition demo_node :: "string \<Rightarrow> string \<Rightarrow> string \<Rightarrow> node_status \<Rightarrow> node_state" where
  "demo_node nid cloud t st = \<lparr>ry_total = (if t = ''head'' then [(''CPU'', 4), (''node:__internal_head__'', 1)] else [(''CPU'', 4)]), ry_available = [(''CPU'', 4)], ry_labels = [],
     ry_dynamic_labels = [], ry_idle_ms = 0, ns_node_id = nid, ns_instance_id = cloud, ns_type_name = t, ns_status = st\<rparr>"

definition demo_cloud :: "string \<Rightarrow> string \<Rightarrow> node_kind \<Rightarrow> string \<times> cloud_instance" where
  "demo_cloud k t kind = (k, \<lparr>ci_id = k, ci_type = t, ci_kind = kind, ci_running = True\<rparr>)"

definition demo_pass :: "string \<Rightarrow> (string \<times> cloud_instance) list \<Rightarrow> node_state list \<Rightarrow> observation" where
  "demo_pass tag workers nodes =
     (let ob = quiet_observation (demo_cloud ''ch'' ''head'' HEAD # workers)
      in ob\<lparr>ob_ray := (ob_ray ob)\<lparr>rs_nodes := demo_node ''nh'' ''ch'' ''head'' NS_RUNNING # nodes\<rparr>,
            ob_new_ids := (\<lambda>k. tag @ replicate k CHR ''x'')\<rparr>)"


definition demo_row :: "string \<Rightarrow> string \<Rightarrow> node_kind \<Rightarrow> string \<Rightarrow> string \<Rightarrow> string \<Rightarrow> instance_status list \<Rightarrow> inst" where
  "demo_row iid t kind cloud node lrid sts = \<lparr>inst_version = 1, inst_id = iid, inst_type = t, inst_status = last sts, inst_cloud_id = cloud,
     inst_node_kind = kind, inst_node_id = node, inst_launch_request_id = lrid,
     inst_history = map (\<lambda>st. \<lparr>entry_status = st, entry_timestamp_ns = 0, entry_details = []\<rparr>) sts\<rparr>"

definition demo_table :: "inst list \<Rightarrow> inst mem_storage" where
  "demo_table is = \<lparr>sto_version = 1, sto_tables = (\<lambda>t. if t = table_name ''k'' then map (\<lambda>i. (inst_id i, i, 1)) is else [])\<rparr>"

definition scale_step :: "autoscaling_config \<Rightarrow> observation \<Rightarrow> inst list \<Rightarrow> (update_event list \<times> inst mem_storage) result" where
  "scale_step config ob is =
     rbind (scale_cluster True (ob_new_ids ob) config (ob_ray ob) (ob_provider ob) is) (\<lambda>(reply, ups).
       update_instance_manager (\<lambda>i. i) (\<lambda>i. i) ''k'' 5 1 ups (demo_table is))"

definition head_row :: inst where
  "head_row = demo_row ''h'' ''head'' HEAD ''ch'' ''nh'' [] [ALLOCATED, RAY_RUNNING]"

definition worker_row :: "instance_status list \<Rightarrow> inst" where
  "worker_row = demo_row ''p'' ''A'' WORKER ''c1'' ''n1'' []"

definition requested_row :: inst where
  "requested_row = demo_row ''p'' ''A'' UNMANAGED [] [] ''lr'' [QUEUED, REQUESTED]"

definition one_worker :: observation where
  "one_worker = demo_pass ''q'' [demo_cloud ''c1'' ''A'' WORKER] [demo_node ''n1'' ''c1'' ''A'' NS_RUNNING]"

lemma Inl_of_map_sum: "map_sum id (\<lambda>_. ()) r = Inl e \<Longrightarrow> r = Inl e"
  by (cases r) simp_all

lemma demo_table_ok:
  assumes "distinct (map inst_id is)" and "\<forall>i \<in> set is. row_ok i \<and> life_ok i"
  shows "table_ok (\<lambda>i. i) ''k'' (demo_table is)"
proof -
  let ?t = "map (\<lambda>i. (inst_id i, i, 1 :: int)) is"
  have look: "i \<in> set is \<and> inst_id i = k \<and> n = 1" if "map_of ?t k = Some (i, n)" for k i n
    using map_of_SomeD [OF that] by auto
  have one: "n = 1" if "mem_lookup t k (demo_table is) = Some (x, n)" for t k x n
    using look [of k x n] that by (simp add: mem_lookup_def demo_table_def split: if_splits)
  have row: "inst_id i = k \<and> row_ok i \<and> life_ok i" if st: "stored (\<lambda>i. i) ''k'' (demo_table is) k = Some i" for k i
  proof -
    obtain x n where x: "map_of ?t k = Some (x, n)" "i = x\<lparr>inst_version := n\<rparr>"
      using st by (auto simp: stored_def mem_lookup_def demo_table_def)
    then show ?thesis using look [OF x(1)] assms(2) by simp
  qed
  have "sto_version (demo_table is) = 1" by (simp add: demo_table_def)
  then have "mem_inv (demo_table is)" unfolding mem_inv_def using one by fastforce
  moreover have "keys_ok ''k'' (demo_table is)" using assms(1) by (simp add: keys_ok_def demo_table_def comp_def)
  ultimately show ?thesis using row by (simp add: table_ok_def store_ok_def)
qed

text \<open>On consistent tables four ordinary situations make a pass raise instead of being handled: a Ray
  node that drains while its row is still installing; a worker limit lowered below the number of
  rows while one of them is only requested, or while one of them was already asked to stop; and a
  worker for a minimum number that is planned and dropped again for the limit on all nodes, which
  becomes an update of an instance without an id.\<close>

lemma reconciler_raises:
  "table_ok (\<lambda>i. i) ''k'' (demo_table [head_row, requested_row]) \<and>
   table_ok (\<lambda>i. i) ''k'' (demo_table [head_row, worker_row [ALLOCATED, RAY_RUNNING, RAY_STOP_REQUESTED]]) \<and>
   table_ok (\<lambda>i. i) ''k'' (demo_table [head_row, worker_row [ALLOCATED, RAY_RUNNING]]) \<and>
   rec_reach (\<lambda>i. i) (\<lambda>i. i) ''k'' lone_table \<and>
   run_handlers (\<lambda>i. i) (\<lambda>i. i) ''k'' 5
     [install_ray lone_node, handle_ray_status_transition False [demo_node ''n1'' ''c1'' ''worker'' NS_DRAINING]] ([], lone_table) =
     Inl (AssertionError ''Invalid status transition'') \<and>
   scale_step (demo_config True [demo_type ''A'' 0 0] None) (demo_pass ''q'' [] []) [head_row, requested_row] =
     Inl (AssertionError ''Invalid status transition'') \<and>
   scale_step (demo_config True [demo_type ''A'' 0 0] None) one_worker [head_row, worker_row [ALLOCATED, RAY_RUNNING, RAY_STOP_REQUESTED]] =
     Inl (AssertionError ''Invalid status transition'') \<and>
   scale_step (demo_config True [demo_type ''B'' 1 1, demo_type ''A'' 0 3] (Some 2)) one_worker [head_row, worker_row [ALLOCATED, RAY_RUNNING]] =
     Inl (AssertionError ''upsert must be true for creating new instance.'')"
proof (intro conjI)
  show "table_ok (\<lambda>i. i) ''k'' (demo_table [head_row, requested_row])"
    "table_ok (\<lambda>i. i) ''k'' (demo_table [head_row, worker_row [ALLOCATED, RAY_RUNNING, RAY_STOP_REQUESTED]])"
    "table_ok (\<lambda>i. i) ''k'' (demo_table [head_row, worker_row [ALLOCATED, RAY_RUNNING]])"
    by (rule demo_table_ok; simp add: head_row_def requested_row_def worker_row_def demo_row_def row_ok_def life_ok_def is_cloud_instance_allocated_def)+
  show "rec_reach (\<lambda>i. i) (\<lambda>i. i) ''k'' lone_table" by (rule lone_table_reach)
qed (rule Inl_of_map_sum, code_simp)+

end
