(* ===== verification/Reconciler_Cloud.thy ===== *)
theory Reconciler_Cloud
  imports Reconciler_Props
begin

section \<open>Autoscaler v2: the rows follow the cloud provider\<close>

text \<open>
  What the first handlers of a pass do to the assignment of cloud instances to rows: after them the
  active rows hold exactly the cloud instances that the provider reports, each of them once.
\<close>

subsection \<open>Assignments\<close>

definition active :: "inst \<Rightarrow> bool" where
  "active i \<longleftrightarrow> inst_cloud_id i \<noteq> [] \<and> inst_status i \<notin> {TERMINATED, ALLOCATION_FAILED}"

text \<open>The cloud instance that the row under an id holds.\<close>

definition held :: "('v \<Rightarrow> inst) \<Rightarrow> string \<Rightarrow> 'v mem_storage \<Rightarrow> string \<rightharpoonup> string" where
  "held par cid s k = (case stored par cid s k of Some i \<Rightarrow> if active i then Some (inst_cloud_id i) else None | None \<Rightarrow> None)"

definition once :: "(string \<rightharpoonup> string) \<Rightarrow> bool" where
  "once m \<longleftrightarrow> (\<forall>k1 k2 c. m k1 = Some c \<longrightarrow> m k2 = Some c \<longrightarrow> k1 = k2)"

lemma active_cloud_ids_active: "active_cloud_ids is = map inst_cloud_id (filter active is)"
  by (simp add: active_cloud_ids_def active_def [abs_def])

lemma held_Some:
  assumes "table_ok par cid s"
  shows "held par cid s k = Some c \<longleftrightarrow> (\<exists>i \<in> set (listed par cid s). inst_id i = k \<and> active i \<and> inst_cloud_id i = c)"
proof -
  have ok: "store_ok par cid s" "keys_ok cid s" using assms by (simp_all add: table_ok_def)
  have "inst_id i = k" if "stored par cid s k = Some i" for i using ok(1) that by (simp add: store_ok_def)
  then show ?thesis using listed_stored(1) [OF ok] by (auto simp: held_def split: option.splits if_splits)
qed

lemma held_active_ids:
  assumes "table_ok par cid s"
  shows "ran (held par cid s) = set (active_cloud_ids (listed par cid s))"
    and "once (held par cid s) \<longleftrightarrow> distinct (active_cloud_ids (listed par cid s))"
proof -
  show "ran (held par cid s) = set (active_cloud_ids (listed par cid s))"
    unfolding ran_def active_cloud_ids_active held_Some [OF assms] by auto
  have ids: "distinct (map inst_id (listed par cid s))" using table_ok_rows [OF assms] by (simp add: rows_ok_def)
  then have d: "distinct (filter active (listed par cid s))" by (simp add: distinct_map)
  have eq: "i = j" if "i \<in> set (listed par cid s)" "j \<in> set (listed par cid s)" "inst_id i = inst_id j" for i j
    using ids that by (auto simp: distinct_map dest: inj_onD)
  show "once (held par cid s) \<longleftrightarrow> distinct (active_cloud_ids (listed par cid s))"
  proof
    assume o: "once (held par cid s)"
    have "i = j" if "i \<in> set (filter active (listed par cid s))" "j \<in> set (filter active (listed par cid s))" "inst_cloud_id i = inst_cloud_id j" for i j
    proof -
      have "held par cid s (inst_id i) = Some (inst_cloud_id j)" "held par cid s (inst_id j) = Some (inst_cloud_id j)"
        unfolding held_Some [OF assms] using that by auto
      then have "inst_id i = inst_id j" using o by (simp add: once_def)
      then show ?thesis using eq that by simp
    qed
    then show "distinct (active_cloud_ids (listed par cid s))"
      unfolding active_cloud_ids_active distinct_map using d by (blast intro: inj_onI)
  next
    assume "distinct (active_cloud_ids (listed par cid s))"
    then have inj: "inj_on inst_cloud_id (set (filter active (listed par cid s)))" unfolding active_cloud_ids_active distinct_map by blast
    show "once (held par cid s)" unfolding once_def held_Some [OF assms] using inj by (auto dest: inj_onD)
  qed
qed

text \<open>What an update does to the assignment.\<close>

lemma held_effect:
  assumes "instance_effect now u v (stored par cid s k) (stored par cid s' k)"
  shows "u = None \<Longrightarrow> held par cid s' k = held par cid s k"
    and "u = Some e \<Longrightarrow> stored par cid s k = Some i \<Longrightarrow>
      held par cid s' k = (let c = (if upd_new_status e = ALLOCATED then upd_cloud_id e else inst_cloud_id i)
        in if c \<noteq> [] \<and> upd_new_status e \<notin> {TERMINATED, ALLOCATION_FAILED} then Some c else None)"
    and "u = Some e \<Longrightarrow> stored par cid s k = None \<Longrightarrow> upd_new_status e = ALLOCATED \<Longrightarrow> held par cid s' k = Some (upd_cloud_id e)"
proof -
  show "held par cid s' k = held par cid s k" if "u = None" using assms that by (simp add: instance_effect_def held_def)
  show "held par cid s' k = (let c = (if upd_new_status e = ALLOCATED then upd_cloud_id e else inst_cloud_id i)
      in if c \<noteq> [] \<and> upd_new_status e \<notin> {TERMINATED, ALLOCATION_FAILED} then Some c else None)"
    if "u = Some e" "stored par cid s k = Some i"
  proof -
    obtain i' where i': "update_instance now i e = Inr i'" "stored par cid s' k = Some (i'\<lparr>inst_version := v\<rparr>)"
      using assms \<open>u = Some e\<close> \<open>stored par cid s k = Some i\<close> by (auto simp: instance_effect_def)
    show ?thesis using update_instance_fields(3,4) [OF i'(1)] i'(2) by (simp add: held_def active_def Let_def)
  qed
  show "held par cid s' k = Some (upd_cloud_id e)" if "u = Some e" "stored par cid s k = None" "upd_new_status e = ALLOCATED"
  proof -
    obtain i' where i': "create_instance now e = Inr i'" "stored par cid s' k = Some (i'\<lparr>inst_version := v\<rparr>)"
      using assms \<open>u = Some e\<close> \<open>stored par cid s k = None\<close> by (auto simp: instance_effect_def)
    have "inst_cloud_id i' = upd_cloud_id e \<and> upd_cloud_id e \<noteq> [] \<and> inst_status i' = ALLOCATED"
      using i'(1) that(3) by (auto simp: create_instance_def apply_update_def new_instance_def record_status_transition_def split: if_splits)
    then show ?thesis using i'(2) by (simp add: held_def active_def)
  qed
qed

text \<open>A run of a handler and the events behind it.\<close>

lemma run_effect:
  assumes "table_ok par cid s" and "\<And>i. par (ser i) = i" and "run_handler ser par cid now h (ev, s) = Inr (ev', s')"
    and "h (listed par cid s) = Inr ups"
  shows "instance_effect now (last_update (map snd ups) k) (sto_version s') (stored par cid s k) (stored par cid s' k)"
proof -
  have ok: "store_ok par cid s" "keys_ok cid s" using assms(1) by (simp_all add: table_ok_def)
  obtain n where "update_instance_manager ser par cid now (sto_version s) ups s = Inr (n, s')"
    using assms(3,4) listed_pairs(2) [of par cid s] by (auto simp: run_handler_def rbind_eq_Inr split: prod.splits)
  from update_manager_effect(4) [OF ok assms(2) this] show ?thesis .
qed

subsection \<open>The handlers of the cloud side\<close>

text \<open>Events that are each for one row, under its id.\<close>

lemma last_update_keyed:
  assumes "distinct (map fst ups)" and "\<And>k e. (k, e) \<in> set ups \<Longrightarrow> upd_instance_id e = k"
  shows "last_update (map snd ups) k = map_of ups k"
proof -
  have "map (\<lambda>u. (upd_instance_id u, u)) (map snd ups) = ups" unfolding map_map by (rule map_idI) (use assms(2) in auto)
  then have "last_update (map snd ups) k = map_of (rev ups) k" unfolding last_update_def by simp
  then show ?thesis using map_of_rev_distinct [OF assms(1)] by simp
qed

lemma stored_listed:
  assumes "table_ok par cid s" and "i \<in> set (listed par cid s)"
  shows "stored par cid s (inst_id i) = Some i" and "row_ok i"
proof -
  have ok: "store_ok par cid s" "keys_ok cid s" using assms(1) by (simp_all add: table_ok_def)
  show "stored par cid s (inst_id i) = Some i" using listed_stored(1) [OF ok] assms(2) by blast
  then show "row_ok i" using assms(1) by (auto simp: table_ok_def)
qed

lemma held_allocation:
  assumes "table_ok par cid s" and "\<And>i. par (ser i) = i" and "cloud_ok cloud" and "once (held par cid s)"
    and "run_handler ser par cid now (handle_cloud_instance_allocation cloud errors) (ev, s) = Inr (ev', s')"
  shows "once (held par cid s')" and "ran (held par cid s) \<subseteq> ran (held par cid s')"
    and "ran (held par cid s') \<subseteq> ran (held par cid s) \<union> fst ` set cloud"
proof -
  obtain ups where ups: "handle_cloud_instance_allocation cloud errors (listed par cid s) = Inr ups"
    using allocation.returns [OF assms(1,2,3)] by blast
  have ids: "distinct (map inst_id (listed par cid s))" using table_ok_rows [OF assms(1)] by (simp add: rows_ok_def)
  note ev = handle_allocation_events [OF assms(3) ids ups]
  have last: "last_update (map snd ups) k = map_of ups k" for k
    by (rule last_update_keyed [OF ev(1)]) (use ev(4) in \<open>fastforce simp: allocation_event_def\<close>)
  note eff = run_effect [OF assms(1,2,5) ups, unfolded last]
  have same: "held par cid s' k = held par cid s k" if "map_of ups k = None" for k
    using held_effect(1) [OF eff that] .
  have new: "held par cid s k = None \<and> (held par cid s' k = None \<or>
      upd_new_status e = ALLOCATED \<and> held par cid s' k = Some (upd_cloud_id e) \<and> upd_cloud_id e \<in> fst ` set cloud)"
    if e: "map_of ups k = Some e" for k e
  proof -
    obtain i where i: "i \<in> set (listed par cid s)" "inst_id i = k" "inst_status i = REQUESTED" "allocation_event cloud i e"
      using ev(4) [OF map_of_SomeD [OF e]] by blast
    have "stored par cid s k = Some i" "inst_cloud_id i = []"
      using stored_listed [OF assms(1) i(1)] i(2,3) by (simp_all add: row_ok_def is_cloud_instance_allocated_def)
    then show ?thesis using held_effect(2) [OF eff e, of i] i(4)
      by (auto simp: held_def active_def allocation_event_def Let_def image_iff) (metis fst_conv)+
  qed
  have given: "(k, e) \<in> set ups \<Longrightarrow> upd_new_status e = ALLOCATED \<Longrightarrow> upd_cloud_id e \<in> set (given_ids ups)" for k e
    by (force simp: given_ids_def)
  have inj: "k1 = k2" if "(k1, e1) \<in> set ups" "(k2, e2) \<in> set ups" "upd_new_status e1 = ALLOCATED" "upd_new_status e2 = ALLOCATED"
    "upd_cloud_id e1 = upd_cloud_id e2" for k1 k2 e1 e2
  proof -
    have "inj_on (\<lambda>(k, e). upd_cloud_id e) (set (filter (\<lambda>(k, e). upd_new_status e = ALLOCATED) ups))"
      using ev(2) by (simp add: given_ids_def distinct_map)
    from inj_onD [OF this, of "(k1, e1)" "(k2, e2)"] that show ?thesis by simp
  qed
  have disj: "held par cid s k2 \<noteq> Some (upd_cloud_id e)" if "(k, e) \<in> set ups" "upd_new_status e = ALLOCATED" for k k2 e
    using ev(3) given [OF that] held_active_ids(1) [OF assms(1)] by (metis disjoint_iff ranI)
  have cases: "held par cid s k = Some c \<or> (\<exists>e. (k, e) \<in> set ups \<and> upd_new_status e = ALLOCATED \<and> c = upd_cloud_id e \<and> c \<in> fst ` set cloud)"
    if "held par cid s' k = Some c" for k c
    using that same [of k] new [of k] by (cases "map_of ups k") (auto dest: map_of_SomeD)
  show "once (held par cid s')" unfolding once_def
  proof (intro allI impI)
    fix k1 k2 c
    assume h: "held par cid s' k1 = Some c" "held par cid s' k2 = Some c"
    show "k1 = k2" using cases [OF h(1)] cases [OF h(2)] assms(4) inj disj unfolding once_def by metis
  qed
  show "ran (held par cid s) \<subseteq> ran (held par cid s')"
  proof
    fix c
    assume "c \<in> ran (held par cid s)"
    then obtain k where k: "held par cid s k = Some c" by (auto simp: ran_def)
    then have "map_of ups k = None" using new [of k] by (cases "map_of ups k") auto
    then show "c \<in> ran (held par cid s')" using same k by (metis ranI)
  qed
  show "ran (held par cid s') \<subseteq> ran (held par cid s) \<union> fst ` set cloud" using cases unfolding ran_def by blast
qed

lemma held_terminated:
  assumes "table_ok par cid s" and "\<And>i. par (ser i) = i" and "once (held par cid s)"
    and "run_handler ser par cid now (handle_cloud_instance_terminated cloud) (ev, s) = Inr (ev', s')"
  shows "held par cid s' k = (if held par cid s k \<in> Some ` fst ` set cloud then held par cid s k else None)"
proof -
  let ?l = "listed par cid s"
  let ?e = "\<lambda>i. (event (inst_id i) TERMINATED)\<lparr>upd_cloud_id := inst_cloud_id i\<rparr>"
  let ?gone = "filter (\<lambda>i. inst_cloud_id i \<notin> fst ` set cloud) (filter active ?l)"
  have ids: "distinct (map inst_id ?l)" using table_ok_rows [OF assms(1)] by (simp add: rows_ok_def)
  have "(inst_cloud_id i \<noteq> [] \<and> inst_status i \<noteq> TERMINATED) = active i" if "i \<in> set ?l" for i
    using stored_listed(2) [OF assms(1) that] by (auto simp: active_def row_ok_def is_cloud_instance_allocated_def)
  then have "filter (\<lambda>i. inst_cloud_id i \<noteq> [] \<and> inst_status i \<noteq> TERMINATED) ?l = filter active ?l" by (simp cong: filter_cong)
  moreover have "distinct (map fst (map (\<lambda>i. (inst_cloud_id i, i)) (filter active ?l)))"
    using assms(3) held_active_ids(2) [OF assms(1)] by (simp add: active_cloud_ids_active comp_def)
  ultimately have dict: "dict_of (map (\<lambda>i. (inst_cloud_id i, i)) (filter (\<lambda>i. inst_cloud_id i \<noteq> [] \<and> inst_status i \<noteq> TERMINATED) ?l)) =
      map (\<lambda>i. (inst_cloud_id i, i)) (filter active ?l)"
    using dict_of_distinct by metis
  have "fold (\<lambda>(c, i) ups. if c \<in> fst ` set cloud then ups else add_event i ((event (inst_id i) TERMINATED)\<lparr>upd_cloud_id := c\<rparr>) ups)
      (map (\<lambda>i. (inst_cloud_id i, i)) is) us = fold (\<lambda>i. add_event i (?e i)) (filter (\<lambda>i. inst_cloud_id i \<notin> fst ` set cloud) is) us" for "is" us
    by (induction "is" arbitrary: us) simp_all
  moreover have "fold (\<lambda>i. add_event i (?e i)) ?gone [] = [] @ map (\<lambda>i. (inst_id i, ?e i)) ?gone"
    by (rule fold_add_fresh) (use ids in \<open>simp_all add: distinct_map_filter\<close>)
  ultimately have ups: "handle_cloud_instance_terminated cloud ?l = Inr (map (\<lambda>i. (inst_id i, ?e i)) ?gone)"
    by (simp add: handle_cloud_instance_terminated_def Let_def dict del: filter_filter)
  have d: "distinct (map fst (map (\<lambda>i. (inst_id i, ?e i)) ?gone))" using ids by (simp add: comp_def distinct_map_filter del: filter_filter)
  have last: "last_update (map snd (map (\<lambda>i. (inst_id i, ?e i)) ?gone)) k = map_of (map (\<lambda>i. (inst_id i, ?e i)) ?gone) k" for k
    by (rule last_update_keyed [OF d]) auto
  note eff = run_effect [OF assms(1,2,4) ups, unfolded last]
  show ?thesis
  proof (cases "\<exists>i \<in> set ?gone. inst_id i = k")
    case True
    then obtain i where i: "i \<in> set ?l" "active i" "inst_cloud_id i \<notin> fst ` set cloud" "inst_id i = k" by auto
    have "map_of (map (\<lambda>i. (inst_id i, ?e i)) ?gone) k = Some (?e i)"
      by (rule map_of_is_SomeI [OF d]) (use i in force)
    from held_effect(2) [OF eff this] have "held par cid s' k = None" using stored_listed(1) [OF assms(1) i(1)] i(4) by simp
    moreover have "held par cid s k = Some (inst_cloud_id i)" unfolding held_Some [OF assms(1)] using i by blast
    ultimately show ?thesis using i(3) by auto
  next
    case False
    then have "map_of (map (\<lambda>i. (inst_id i, ?e i)) ?gone) k = None" by (auto simp: map_of_eq_None_iff)
    from held_effect(1) [OF eff this] have same: "held par cid s' k = held par cid s k" .
    have "c \<in> fst ` set cloud" if "held par cid s k = Some c" for c using that False unfolding held_Some [OF assms(1)] by auto
    then show ?thesis using same by (cases "held par cid s k") auto
  qed
qed

lemma termination_error_events:
  assumes "handle_cloud_instance_termination_errors errors instances = Inr ups"
  shows "all_events (\<lambda>e. \<exists>i \<in> set instances. inst_status i = TERMINATING \<and> e = event (inst_id i) TERMINATION_FAILED) ups"
proof -
  let ?P = "\<lambda>e. \<exists>i \<in> set instances. inst_status i = TERMINATING \<and> e = event (inst_id i) TERMINATION_FAILED"
  define d where "d = dict_of (map (\<lambda>i. (inst_cloud_id i, i)) (filter (\<lambda>i. inst_status i = TERMINATING) instances))"
  have mem: "?P (event (inst_id i) TERMINATION_FAILED)" if "map_of d c = Some i" for c i
    using map_of_dict_of_Some [OF that [unfolded d_def]] by auto
  have "all_events ?P (fold (\<lambda>(cid, _) ups. case map_of d cid of None \<Rightarrow> ups
      | Some i \<Rightarrow> add_event i (event (inst_id i) TERMINATION_FAILED) ups) (terminate_errors_of errors) [])"
  proof (rule all_events_fold)
    fix x us
    assume us: "all_events ?P us"
    show "all_events ?P ((case x of (cid, _) \<Rightarrow> \<lambda>ups. case map_of d cid of None \<Rightarrow> ups
        | Some i \<Rightarrow> add_event i (event (inst_id i) TERMINATION_FAILED) ups) us)"
      using us all_events_add [OF us mem] by (cases x) (simp split: option.split)
  qed simp
  then show ?thesis using assms by (simp add: handle_cloud_instance_termination_errors_def Let_def d_def)
qed

lemma held_termination_errors:
  assumes "table_ok par cid s" and "\<And>i. par (ser i) = i"
    and "run_handler ser par cid now (handle_cloud_instance_termination_errors errors) (ev, s) = Inr (ev', s')"
  shows "held par cid s' k = held par cid s k"
proof -
  let ?l = "listed par cid s"
  obtain ups where ups: "handle_cloud_instance_termination_errors errors ?l = Inr ups"
    by (simp add: handle_cloud_instance_termination_errors_def Let_def)
  note eff = run_effect [OF assms ups]
  show ?thesis
  proof (cases "last_update (map snd ups) k")
    case None
    then show ?thesis using held_effect(1) [OF eff] by blast
  next
    case (Some e)
    then obtain i where i: "i \<in> set ?l" "inst_status i = TERMINATING" "e = event (inst_id i) TERMINATION_FAILED"
      using termination_error_events [OF ups] last_update_mem [OF Some] by (auto simp: all_events_def)
    have "inst_id i = k" using last_update_mem [OF Some] i(3) by simp
    then have "stored par cid s k = Some i" "inst_cloud_id i \<noteq> []"
      using stored_listed [OF assms(1) i(1)] i(2) by (simp_all add: row_ok_def is_cloud_instance_allocated_def)
    then show ?thesis using held_effect(2) [OF eff Some] i(2,3) by (simp add: held_def active_def)
  qed
qed

text \<open>These handlers create no row and forget no Ray node.\<close>

definition keeps_nodes :: "('v \<Rightarrow> inst) \<Rightarrow> string \<Rightarrow> 'v mem_storage \<Rightarrow> 'v mem_storage \<Rightarrow> bool" where
  "keeps_nodes par cid s s' \<longleftrightarrow> dom (stored par cid s') = dom (stored par cid s) \<and>
     (\<forall>k i. stored par cid s k = Some i \<longrightarrow> inst_node_id i \<noteq> [] \<longrightarrow> (\<exists>i'. stored par cid s' k = Some i' \<and> inst_node_id i' = inst_node_id i))"

lemma row_requested: "row_ok i \<Longrightarrow> inst_status i = REQUESTED \<Longrightarrow> inst_node_id i = []"
  by (simp add: row_ok_def is_cloud_instance_allocated_def)

lemma keeps_nodes_run:
  assumes "table_ok par cid s" and "\<And>i. par (ser i) = i" and "run_handler ser par cid now h (ev, s) = Inr (ev', s')"
    and "h (listed par cid s) = Inr ups"
    and "all_events (\<lambda>e. \<not> upd_upsert e \<and> upd_new_status e \<noteq> RAY_RUNNING \<and>
      (upd_new_status e = ALLOCATED \<longrightarrow> (\<exists>i \<in> set (listed par cid s). inst_id i = upd_instance_id e \<and> inst_status i = REQUESTED))) ups"
  shows "keeps_nodes par cid s s'"
proof -
  note eff = run_effect [OF assms(1-4)]
  have each: "stored par cid s' k \<noteq> None \<longleftrightarrow> stored par cid s k \<noteq> None" "stored par cid s k = Some i \<Longrightarrow> inst_node_id i \<noteq> [] \<Longrightarrow>
      \<exists>i'. stored par cid s' k = Some i' \<and> inst_node_id i' = inst_node_id i" for k i
  proof -
    have "(stored par cid s' k \<noteq> None \<longleftrightarrow> stored par cid s k \<noteq> None) \<and>
      (stored par cid s k = Some i \<longrightarrow> inst_node_id i \<noteq> [] \<longrightarrow> (\<exists>i'. stored par cid s' k = Some i' \<and> inst_node_id i' = inst_node_id i))"
    proof (cases "last_update (map snd ups) k")
      case None
      then show ?thesis using eff [of k] by (simp add: instance_effect_def)
    next
      case (Some e)
      have e: "\<not> upd_upsert e" "upd_new_status e \<noteq> RAY_RUNNING" "upd_instance_id e = k"
        "upd_new_status e = ALLOCATED \<Longrightarrow> \<exists>i \<in> set (listed par cid s). inst_id i = k \<and> inst_status i = REQUESTED"
        using assms(5) last_update_mem [OF Some] by (auto simp: all_events_def)
      obtain b i' where b: "stored par cid s k = Some b" "update_instance now b e = Inr i'" "stored par cid s' k = Some (i'\<lparr>inst_version := sto_version s'\<rparr>)"
        using eff [of k] Some e(1) by (cases "stored par cid s k") (auto simp: instance_effect_def create_instance_def)
      have "inst_node_id b = []" if "upd_new_status e = ALLOCATED"
        using e(4) [OF that] stored_listed [OF assms(1)] b(1) row_requested by fastforce
      then show ?thesis using b update_instance_fields(7) [OF b(2)] e(2) by auto
    qed
    then show "stored par cid s' k \<noteq> None \<longleftrightarrow> stored par cid s k \<noteq> None" "stored par cid s k = Some i \<Longrightarrow> inst_node_id i \<noteq> [] \<Longrightarrow>
      \<exists>i'. stored par cid s' k = Some i' \<and> inst_node_id i' = inst_node_id i" by blast+
  qed
  have "dom (stored par cid s') = dom (stored par cid s)" unfolding dom_def using each(1) by simp
  then show ?thesis unfolding keeps_nodes_def using each(2) by blast
qed

lemma cloud_handlers_keep_nodes:
  assumes "table_ok par cid s" and "\<And>i. par (ser i) = i" and "run_handler ser par cid now h (ev, s) = Inr (ev', s')"
  shows "h = handle_cloud_instance_allocation cloud errors \<Longrightarrow> cloud_ok cloud \<Longrightarrow> keeps_nodes par cid s s'"
    and "h = handle_cloud_instance_terminated cloud \<Longrightarrow> keeps_nodes par cid s s'"
    and "h = handle_cloud_instance_termination_errors errors \<Longrightarrow> keeps_nodes par cid s s'"
proof -
  let ?l = "listed par cid s"
  note kept = keeps_nodes_run [OF assms]
  have ids: "distinct (map inst_id ?l)" using table_ok_rows [OF assms(1)] by (simp add: rows_ok_def)
  show "keeps_nodes par cid s s'" if h: "h = handle_cloud_instance_allocation cloud errors" and c: "cloud_ok cloud"
  proof -
    obtain ups where ups: "h ?l = Inr ups" using allocation.returns [OF assms(1,2) c] h by blast
    show ?thesis by (rule kept [OF ups])
      (use handle_allocation_events(4) [OF c ids ups [unfolded h]] in \<open>fastforce simp: all_events_def allocation_event_def\<close>)
  qed
  show "keeps_nodes par cid s s'" if h: "h = handle_cloud_instance_terminated cloud"
  proof -
    obtain ups where ups: "h ?l = Inr ups" by (simp add: h handle_cloud_instance_terminated_def Let_def)
    show ?thesis by (rule kept [OF ups], use ups in \<open>simp add: h handle_cloud_instance_terminated_def Let_def\<close>)
      (auto intro!: all_events_fold all_events_add split: prod.splits)
  qed
  show "keeps_nodes par cid s s'" if h: "h = handle_cloud_instance_termination_errors errors"
  proof -
    obtain ups where ups: "h ?l = Inr ups" by (simp add: h handle_cloud_instance_termination_errors_def Let_def)
    show ?thesis by (rule kept [OF ups]) (use termination_error_events [OF ups [unfolded h]] in \<open>auto simp: all_events_def\<close>)
  qed
qed

text \<open>Every Ray node is known, so no row is created for one.\<close>

definition nodes_known :: "node_state list \<Rightarrow> inst list \<Rightarrow> bool" where
  "nodes_known nodes is \<longleftrightarrow> (\<forall>n \<in> set nodes. ns_instance_id n = [] \<or> (\<exists>i \<in> set is. inst_node_id i \<noteq> [] \<and> inst_node_id i = ns_node_id n))"

lemma keeps_nodes_listed:
  assumes "table_ok par cid s" and "table_ok par cid s'" and "keeps_nodes par cid s s'"
  shows "fresh_ids rid (listed par cid s) \<Longrightarrow> fresh_ids rid (listed par cid s')"
    and "nodes_known nodes (listed par cid s) \<Longrightarrow> nodes_known nodes (listed par cid s')"
proof -
  have ids: "inst_id ` set (listed par cid s) = dom (stored par cid s)" if "table_ok par cid s" for s
  proof -
    have ok: "store_ok par cid s" "keys_ok cid s" using that by (simp_all add: table_ok_def)
    have id: "inst_id i = k" if "stored par cid s k = Some i" for k i using ok(1) that by (simp add: store_ok_def)
    show ?thesis
    proof (intro equalityI subsetI)
      fix k
      assume "k \<in> dom (stored par cid s)"
      then obtain i where i: "stored par cid s k = Some i" by blast
      then have "i \<in> set (listed par cid s)" using listed_stored(1) [OF ok] id by simp
      then show "k \<in> inst_id ` set (listed par cid s)" using id [OF i] by blast
    qed (use listed_stored(1) [OF ok] in blast)
  qed
  show "fresh_ids rid (listed par cid s')" if "fresh_ids rid (listed par cid s)"
    using that assms(3) unfolding fresh_ids_def ids [OF assms(1)] ids [OF assms(2)] keeps_nodes_def by simp
  have ok': "store_ok par cid s'" "keys_ok cid s'" using assms(2) by (simp_all add: table_ok_def)
  have "\<exists>i' \<in> set (listed par cid s'). inst_node_id i' = inst_node_id i" if i: "i \<in> set (listed par cid s)" "inst_node_id i \<noteq> []" for i
  proof -
    obtain i' where i': "stored par cid s' (inst_id i) = Some i'" "inst_node_id i' = inst_node_id i"
      using assms(3) stored_listed(1) [OF assms(1) i(1)] i(2) unfolding keeps_nodes_def by meson
    then have "inst_id i' = inst_id i" using ok'(1) by (simp add: store_ok_def)
    then show ?thesis using i' listed_stored(1) [OF ok'] by auto
  qed
  then show "nodes_known nodes (listed par cid s')" if "nodes_known nodes (listed par cid s)"
    using that unfolding nodes_known_def by metis
qed

lemma extra_ray_nothing: "nodes_known nodes is \<Longrightarrow> handle_extra_from_ray_nodes rid nodes is = Inr []"
proof -
  assume known: "nodes_known nodes is"
  have skip: "fold f xs us = us" if "\<And>x us. x \<in> set xs \<Longrightarrow> f x us = us" for f and xs :: "(nat \<times> node_state) list" and us :: updates
    using that by (induction xs) auto
  have "ns_instance_id n = [] \<or> ns_node_id n \<in> set (map inst_node_id (filter (\<lambda>i. inst_node_id i \<noteq> []) is))"
    if "(k, n) \<in> set (enumerate 0 nodes)" for k n
  proof -
    have "n \<in> set nodes" using that by (auto simp: in_set_enumerate_eq)
    then show ?thesis using known by (force simp: nodes_known_def)
  qed
  then show ?thesis unfolding handle_extra_from_ray_nodes_def Let_def
    by (intro arg_cong [where f = Inr] skip) (auto split: prod.splits)
qed

lemma extra_cloud_events:
  assumes "cloud_ok cloud"
  shows "handle_extra_from_cloud_provider rid cloud is =
    Inr (map (\<lambda>(k, c, ci). (c, (event (rid k) ALLOCATED)\<lparr>upd_cloud_id := c, upd_node_kind := ci_kind ci, upd_instance_type := ci_type ci, upd_upsert := True\<rparr>))
      (filter (\<lambda>(k, c, ci). c \<notin> set (active_cloud_ids is)) (enumerate 0 cloud)))"
proof -
  let ?e = "\<lambda>k c ci. (event (rid k) ALLOCATED)\<lparr>upd_cloud_id := c, upd_node_kind := ci_kind ci, upd_instance_type := ci_type ci, upd_upsert := True\<rparr>"
  have "fold (\<lambda>(k, c, ci) ups. if c \<in> A then ups else AList.update c (?e k c ci) ups) (enumerate n cs) us =
      us @ map (\<lambda>(k, c, ci). (c, ?e k c ci)) (filter (\<lambda>(k, c, ci). c \<notin> A) (enumerate n cs))"
    if "distinct (map fst cs)" "fst ` set us \<inter> fst ` set cs = {}" for A n cs and us :: updates
    using that
  proof (induction cs arbitrary: n us)
    case (Cons p cs)
    obtain c ci where p: "p = (c, ci)" by fastforce
    have "AList.update c (?e n c ci) us = us @ [(c, ?e n c ci)]" using Cons.prems(2) p by (simp add: update_fresh)
    then show ?case using Cons.IH [of us "Suc n"] Cons.IH [of "us @ [(c, ?e n c ci)]" "Suc n"] Cons.prems p by auto
  qed simp
  from this [of cloud "[]" "set (active_cloud_ids is)" 0] show ?thesis
    using assms by (simp add: handle_extra_from_cloud_provider_def cloud_ok_def)
qed

lemma held_extra_cloud:
  assumes "table_ok par cid s" and "\<And>i. par (ser i) = i" and "cloud_ok cloud" and "fresh_ids rid (listed par cid s)"
    and "run_handler ser par cid now (handle_extra_from_cloud_provider rid cloud) (ev, s) = Inr (ev', s')"
  shows "k < length cloud \<Longrightarrow> fst (cloud ! k) \<notin> ran (held par cid s) \<Longrightarrow> held par cid s' (rid k) = Some (fst (cloud ! k))"
    and "\<not> (\<exists>n < length cloud. x = rid n \<and> fst (cloud ! n) \<notin> ran (held par cid s)) \<Longrightarrow> held par cid s' x = held par cid s x"
    and "held par cid s (rid k) = None"
proof -
  let ?A = "ran (held par cid s)"
  let ?e = "\<lambda>k c ci. (event (rid k) ALLOCATED)\<lparr>upd_cloud_id := c, upd_node_kind := ci_kind ci, upd_instance_type := ci_type ci, upd_upsert := True\<rparr>"
  let ?new = "filter (\<lambda>(k, c, ci). c \<notin> ?A) (enumerate 0 cloud)"
  have inj: "inj rid" and fresh: "stored par cid s (rid k) = None" for k
  proof -
    show "inj rid" using assms(4) by (simp add: fresh_ids_def)
    have ok: "store_ok par cid s" "keys_ok cid s" using assms(1) by (simp_all add: table_ok_def)
    show "stored par cid s (rid k) = None"
    proof (rule ccontr)
      assume "stored par cid s (rid k) \<noteq> None"
      then obtain i where i: "stored par cid s (rid k) = Some i" by blast
      then have "inst_id i = rid k" using ok(1) by (simp add: store_ok_def)
      then have "rid k \<in> inst_id ` set (listed par cid s)" using i listed_stored(1) [OF ok, of i] by force
      then show False using assms(4) by (auto simp: fresh_ids_def)
    qed
  qed
  show "held par cid s (rid k) = None" using fresh [of k] by (simp add: held_def)
  have ups: "handle_extra_from_cloud_provider rid cloud (listed par cid s) = Inr (map (\<lambda>(k, c, ci). (c, ?e k c ci)) ?new)"
    using extra_cloud_events [OF assms(3)] held_active_ids(1) [OF assms(1)] by simp
  let ?us = "map snd (map (\<lambda>(k, c, ci). (c, ?e k c ci)) ?new)"
  note eff = run_effect [OF assms(1,2,5) ups]
  have pairs: "map (\<lambda>u. (upd_instance_id u, u)) ?us = map (\<lambda>(k, c, ci). (rid k, ?e k c ci)) ?new"
    by (simp add: comp_def case_prod_unfold)
  have "distinct (map fst (enumerate 0 cloud))" by simp
  then have "distinct (map fst ?new)" by (rule distinct_map_filter)
  then have "distinct (map rid (map fst ?new))"
    unfolding distinct_map [of rid] using inj_on_subset [OF inj subset_UNIV] by blast
  then have dist: "distinct (map fst (map (\<lambda>(k, c, ci). (rid k, ?e k c ci)) ?new))" by (simp add: comp_def case_prod_unfold)
  have last: "last_update ?us x = map_of (map (\<lambda>(k, c, ci). (rid k, ?e k c ci)) ?new) x" for x
    unfolding last_update_def pairs map_of_rev_distinct [OF dist] ..
  show "held par cid s' (rid k) = Some (fst (cloud ! k))" if k: "k < length cloud" "fst (cloud ! k) \<notin> ?A"
  proof -
    have "(k, cloud ! k) \<in> set (enumerate 0 cloud)" using k(1) by (simp add: in_set_enumerate_eq)
    then have "(rid k, ?e k (fst (cloud ! k)) (snd (cloud ! k))) \<in> set (map (\<lambda>(k, c, ci). (rid k, ?e k c ci)) ?new)"
      using k(2) by (force simp: image_iff)
    then have "last_update ?us (rid k) = Some (?e k (fst (cloud ! k)) (snd (cloud ! k)))"
      unfolding last by (rule map_of_is_SomeI [OF dist])
    from held_effect(3) [OF eff this fresh] show ?thesis by simp
  qed
  show "held par cid s' x = held par cid s x" if none: "\<not> (\<exists>n < length cloud. x = rid n \<and> fst (cloud ! n) \<notin> ?A)"
  proof -
    have "x \<notin> fst ` set (map (\<lambda>(k, c, ci). (rid k, ?e k c ci)) ?new)"
      using none by (auto simp: in_set_enumerate_eq)
    then have "last_update ?us x = None" unfolding last by (simp only: map_of_eq_None_iff not_False_eq_True)
    from held_effect(1) [OF eff this] show ?thesis .
  qed
qed

lemma extra_cloud_completes:
  assumes "table_ok par cid s" and "\<And>i. par (ser i) = i" and "cloud_ok cloud" and "fresh_ids rid (listed par cid s)"
    and "run_handler ser par cid now (handle_extra_from_cloud_provider rid cloud) (ev, s) = Inr (ev', s')"
    and "once (held par cid s)" and "ran (held par cid s) \<subseteq> fst ` set cloud"
  shows "once (held par cid s')" and "ran (held par cid s') = fst ` set cloud"
proof -
  note h = held_extra_cloud [OF assms(1-5)]
  have inj: "inj rid" using assms(4) by (simp add: fresh_ids_def)
  have cases: "held par cid s x = Some c \<or> (\<exists>n < length cloud. x = rid n \<and> c = fst (cloud ! n) \<and> c \<notin> ran (held par cid s))"
    if "held par cid s' x = Some c" for x c
    using that h(1) h(2) [of x] by (metis option.inject)
  have key: "n1 = n2" if "n1 < length cloud" "n2 < length cloud" "fst (cloud ! n1) = fst (cloud ! n2)" for n1 n2
    using assms(3) that nth_eq_iff_index_eq [of "map fst cloud" n1 n2] by (simp add: cloud_ok_def)
  show "once (held par cid s')" unfolding once_def
  proof (intro allI impI)
    fix k1 k2 c
    assume a: "held par cid s' k1 = Some c" "held par cid s' k2 = Some c"
    show "k1 = k2" using cases [OF a(1)] cases [OF a(2)] assms(6) key unfolding once_def by (metis ranI)
  qed
  show "ran (held par cid s') = fst ` set cloud"
  proof (intro equalityI subsetI)
    fix c
    assume "c \<in> ran (held par cid s')"
    then obtain x where "held par cid s' x = Some c" by (auto simp: ran_def)
    from cases [OF this] show "c \<in> fst ` set cloud" using assms(7) by (auto dest: ranI)
  next
    fix c
    assume "c \<in> fst ` set cloud"
    then obtain n where n: "n < length cloud" "fst (cloud ! n) = c" by (auto simp: in_set_conv_nth)
    show "c \<in> ran (held par cid s')"
    proof (cases "c \<in> ran (held par cid s)")
      case True
      then obtain x where x: "held par cid s x = Some c" by (auto simp: ran_def)
      then have "held par cid s' x = Some c" using h(2) [of x] h(3) by (metis option.distinct(1))
      then show ?thesis by (rule ranI)
    next
      case False
      then show ?thesis using h(1) [of n] n by (metis ranI)
    qed
  qed
qed

subsection \<open>The rows follow the cloud provider\<close>



end
