(* ===== verification/Spec2Isabelle.thy ===== *)
theory Spec2Isabelle
  imports
    Financial_Vocab
    Sequences
    Splits_Props
    Pipeline_Claims
    Gpu_Tokenizer
    Hash_Linked
    Reordering
    Rebundle
    Equalize
    Plain_Batcher
    Shuffling_Batcher
    Output_Buffer
    Pool_Props
    Instance_Manager
    Prioritized_Replay
    Reservoir_Replay
    Sched_Props
    Reconciler_Cloud
begin

section \<open>A transaction foundation model and the Ray machinery under it\<close>

text \<open>
  The repository holds a tokenizer and training pipeline for card transactions
  (\<open>tfm_repo\<close>) and the Ray sources it runs on (\<open>ray\<close>). Raw transactions are split by date
  (\<open>scripts/create_temporal_splits.py\<close>), preprocessed and tokenized on GPU workers
  (\<open>src/tokenizer/\<close>, \<open>src/ray_tokenize.py\<close>), packed into sequences and embedded
  (\<open>src/ray_embed.py\<close>). Ray Data moves the blocks of rows between the operators through
  bundle queues and splits them for consumers (\<open>ray/python/ray/data/_internal/\<close>), and Ray's
  autoscaler keeps the cloud instances in a versioned storage
  (\<open>ray/python/ray/autoscaler/v2/instance_manager/\<close>) and decides which nodes to launch and to
  terminate (\<open>ray/python/ray/autoscaler/v2/scheduler.py\<close>).

  \<^bold>\<open>Shared theories.\<close> \<open>Prelude\<close>: exceptions as the sum \<open>result\<close> with a short-circuiting bind,
  insertion-ordered dicts as association lists. \<open>Py_String\<close>: decimal printing, padding,
  splitting and joining of Python strings.

  \<^bold>\<open>Tokenizer steps.\<close> \<open>Tokenizer_Base\<close> (\<open>base.py\<close>), \<open>Tokenizer_Steps\<close> and \<open>Step_Contracts\<close>
  (\<open>fixed_vocab.py\<close>, \<open>categorical_hash.py\<close>, \<open>mapping.py\<close>, \<open>numerical.py\<close>, \<open>timedelta.py\<close>): one
  record per class, one definition per method. The locale \<open>token_step\<close> is what the pipeline
  relies on; all five classes and their sum (\<open>Tokenizer_Any\<close>, with the saved state of a step)
  interpret it. cuDF, cuPy and cuML are the parameter \<open>cudf_lib\<close>; \<open>host_lib\<close> is an instance.

  \<^bold>\<open>Pipeline.\<close> \<open>Pipeline\<close> (\<open>pipeline.py\<close>: \<open>add_step\<close>, sequential and stream fitting, global
  vocabulary, \<open>transform\<close>), \<open>Pipeline_Props\<close> (the locale \<open>vocab_builder\<close> shared by both loops that
  assign offsets), \<open>Vocabulary\<close> (what a fit leaves behind), \<open>Pipeline_Encode\<close> (\<open>encode\<close>,
  \<open>to_corpus_lines\<close>), and \<open>Pipeline_Claims\<close> with the properties: stream fitting equals
  sequential fitting, the vocabulary is a bijection under stated conditions, tokens of fitted
  steps are always known, encoding and corpus lines row by row, saved steps.

  \<^bold>\<open>Financial tokenizer.\<close> \<open>Financial\<close> (\<open>financial_pipeline.py\<close> with its tables,
  \<open>financial_tokenizer.py\<close>) and \<open>Financial_Vocab\<close>: the exact vocabulary for any number of
  merchant buckets, its one shared index, and the round trip of texts. \<open>Gpu_Tokenizer\<close>:
  \<open>preprocess\<close> and \<open>GPUTokenizer\<close> of \<open>ray_tokenize.py\<close>; every worker ends up with the model's
  vocabulary whatever its first batch, and no token falls back to the unknown id.

  \<^bold>\<open>Sequences and splits.\<close> \<open>Sequences\<close> (\<open>ray_common.py\<close>, sequence building of \<open>ray_tokenize.py\<close>,
  padding and pooling of \<open>ray_embed.py\<close>); \<open>Splits\<close> and \<open>Splits_Props\<close> (the two scripts: cut-off
  dates, masks, batch writing, statistics, default directories).

  \<^bold>\<open>Ray Data.\<close> \<open>Ref_Bundle\<close> (\<open>ref_bundle.py\<close>), \<open>Bundle_Queues\<close> (\<open>base.py\<close>, \<open>fifo.py\<close>; the locale
  \<open>bundle_queue\<close> relates a queue to a list and its metrics to the list's sums, \<open>queue_with_removal\<close> extends it),
  \<open>Hash_Linked\<close> (\<open>hash_link.py\<close>: nodes in an explicit heap), \<open>Reordering\<close> (\<open>reordering.py\<close>),
  \<open>Rebundle\<close> (\<open>bundler.py\<close>), \<open>Split_Blocks\<close>, \<open>Split_Props\<close> (\<open>split.py\<close> over an object store) and
  \<open>Equalize\<close> (\<open>equalize.py\<close>). Refinement to lists, rows neither lost nor repeated, no
  assertion fails, key order and progress, exact sizes.

  \<^bold>\<open>Batches and blocks.\<close> \<open>Batching\<close> (the batcher interface as a record of methods, the batching
  iterator of \<open>block_batching/util.py\<close>, and the locales \<open>batcher_interface\<close> and
  \<open>ordered_batcher\<close> it rests on), \<open>Plain_Batcher\<close> and \<open>Shuffling_Batcher\<close> (\<open>batcher.py\<close>): the batches
  are the chunks of the rows, a shuffle yields every row once. \<open>Output_Buffer\<close>
  (\<open>output_buffer.py\<close>, the iterators of \<open>map_transformer.py\<close>; the locale \<open>row_appender\<close>): shaping
  keeps all rows in order and respects the row target. Random permutations and memory sizes
  are parameters.

  \<^bold>\<open>Actor pool.\<close> \<open>Actor_Pool\<close> (\<open>ray/python/ray/util/actor_pool.py\<close>) and \<open>Pool_Props\<close>: the states a pool
  reaches by any operations; no actor runs two tasks, no task is lost, \<open>map\<close> keeps the order and
  \<open>map_unordered\<close> gives each result once. What \<open>ray.wait\<close> and \<open>ray.get\<close> answer are parameters.

  \<^bold>\<open>Autoscaler.\<close> \<open>Instance_Status\<close> (\<open>common.py\<close>: the status machine and the depth-first search
  over it), \<open>Instance_Storage\<close> (\<open>storage.py\<close>, \<open>instance_storage.py\<close>; the locale
  \<open>versioned_storage\<close>), \<open>Instance_Manager\<close> (\<open>instance_manager.py\<close>): life cycles of stored
  instances for every sequence of requests, atomic application, refusal of stale and
  invalid updates.

  \<^bold>\<open>Scheduler.\<close> \<open>ray/python/ray/autoscaler/v2/scheduler.py\<close> with the request helpers of \<open>utils.py\<close>, the resize
  status of \<open>schema.py\<close> and the resource arithmetic of \<open>_private/resource_demand_scheduler.py\<close>.
  \<open>Sched_Node\<close> and \<open>Sched_Node_Props\<close>: a node (\<open>SchedulingNode\<close>) and packing requests onto it; resources are
  conserved and the request cache changes nothing. \<open>Sched_Context\<close>: the context and the steps that
  count nodes. Python objects that occur twice in a list carry the same number \<open>sn_ref\<close>, since terminating
  one of them changes both. \<open>Sched_Pack\<close>: the best node, existing, resized and new nodes, gangs,
  constraints and \<open>schedule\<close>. \<open>Sched_Limits\<close>: the maxima and the head. \<open>Sched_Pack_Props\<close>, \<open>Sched_Requests\<close>:
  accounts of requests and nodes through the three packing loops; the locale \<open>marking_step\<close> is the contract
  of a step that only marks nodes, interpreted by four steps. \<open>Sched_Props\<close>: \<open>schedule\<close> returns on every sane
  request, within the limits, with every demand placed once or reported.

  \<^bold>\<open>Reconciler.\<close> \<open>ray/python/ray/autoscaler/v2/instance_manager/reconciler.py\<close>. \<open>Reconciler\<close>: a handler maps the
  instances it reads to update events, \<open>run_handler\<close> applies them through the instance manager under the
  version that was read; \<open>reconcile\<close> runs the handlers of \<open>_sync_from\<close> and \<open>_step_next\<close> in order, with the scheduler
  in between. What the provider, the Ray cluster and the installers report, the clock and the random ids are
  the record \<open>observation\<close>. \<open>Reconciler_Rows\<close>: the rows that are read are the stored ones, what a status tells
  about a row, which updates are accepted; the locale \<open>creating_handler\<close> and its extension \<open>sound_handler\<close> are
  the contract between a handler and the instance manager. \<open>Reconciler_Handlers\<close> interprets them on the
  thirteen handlers. \<open>Reconciler_Props\<close>: rows stay consistent also when a pass raises half way, when the
  handlers return, the launch limits, and four situations in which a pass raises. \<open>Reconciler_Cloud\<close>: after the
  handlers of the cloud side the active rows hold exactly the reported cloud instances, each once.

  \<^bold>\<open>Replay buffers.\<close> \<open>Segment_Tree\<close> (\<open>ray/rllib/execution/segment_tree.py\<close>: the tree behaves as an array with
  range sums and minima, the locale \<open>reduction\<close> states what an operation needs), \<open>Sample_Batch\<close>
  (\<open>ray/rllib/policy/sample_batch.py\<close>: slices by size, number and episode), \<open>Replay_Buffer\<close>,
  \<open>Prioritized_Replay\<close> and \<open>Reservoir_Replay\<close> (\<open>ray/rllib/utils/replay_buffers/\<close>): bounds, the ring of the
  newest steps, valid proportional sampling in every reachable state, uniform reservoir
  sampling counted over all draws. Random numbers and powers are parameters.

  \<^bold>\<open>Termination and fuel.\<close> Loops are structural recursions or have a proved measure; the one loop of the
  modelled code that can run forever, \<open>SampleBatch.timeslices\<close>, is a partial function whose value \<open>None\<close>
  means that it never returns: a batch without \<open>seq_lens\<close> is sliced exactly when the size divides the count, one
  with \<open>seq_lens\<close> raises otherwise. \<open>take_iter\<close> bounds the calls a \<open>for\<close> loop makes on an iterator; its
  theorems say that one call more than there are rows (two for shaped blocks) reaches \<open>StopIteration\<close>.
  The loop of \<open>map_unordered\<close> that polls for earlier tasks runs over a list of answers, and is
  shown to end when enough of them report a finished task. The search over statuses removes a status from a
  finite table at every step. Errors are values, so a theorem that gives \<open>Inr\<close> says that
  the code returns.

  \<^bold>\<open>Not modelled.\<close> Parquet and JSON files, the Ray cluster, CUDA streams as concurrency, the
  neural model, logging and progress output; the thread-safe queue wrapper; the
  autoscaler's cloud providers and installers; the operators, planner and data sources of Ray
  Data; Ray's core runtime, Serve, Train, Tune and the rest of RLlib. Floats are rationals, so rounding
  of the binary representation is outside the model.
\<close>

end
